(* ===== verification/Prelude.thy ===== *)
theory Prelude
  imports Main "HOL-Library.Word"
begin

unbundle bit_operations_syntax

section \<open>Shared vocabulary: machine words, computations with faults, contracts\<close>

text \<open>
  What every component of the harness under \<^verbatim>\<open>fuzz/ts\<close>, \<^verbatim>\<open>bench/ts\<close> and \<^verbatim>\<open>tools\<close> shares.
  \<^item> JavaScript numbers that the code normalises with \<open>>>> 0\<close> are \<open>32 word\<close>; bytes of a
    \<^verbatim>\<open>Uint8Array\<close> are \<open>8 word\<close>. An integer the code keeps un-normalised is an \<open>int\<close> or a
    \<open>nat\<close>.
  \<^item> Code that mutates state and may throw is a computation: a function from the state to a
    result, \<open>Inl\<close> the exception or \<open>Inr\<close> the value, paired with the state it leaves behind.
    A throw keeps the state reached, as in the source, where the extension buffer and the step
    counter are read after a \<^verbatim>\<open>catch\<close>.
  \<^item> A contract \<open>run_spec P m Q E\<close>: started in a state that satisfies \<open>P\<close>, the computation
    returns with \<open>Q\<close> or throws with \<open>E\<close>.
\<close>

subsection \<open>Named collections\<close>

named_theorems spec_intros "introduction rules for contracts"
named_theorems comp_defs "definitions of the computation combinators"

subsection \<open>Words\<close>

type_synonym u8 = "8 word"
type_synonym u16 = "16 word"
type_synonym u32 = "32 word"

text \<open>\<open>n >>> 0\<close> of an integral JavaScript number.\<close>

definition to_u32 :: "int \<Rightarrow> u32" where
  "to_u32 n = word_of_int n"

text \<open>The truth value of a comparison as the code stores it.\<close>

definition bool_u32 :: "bool \<Rightarrow> u32" where
  "bool_u32 b = (if b then 1 else 0)"

lemma bool_u32_simps [simp]: "bool_u32 True = 1" "bool_u32 False = 0"
  by (simp_all add: bool_u32_def)

lemma bool_u32_eq_0 [simp]: "bool_u32 b = 0 \<longleftrightarrow> \<not> b"
  by (simp add: bool_u32_def)

lemma to_u32_uint [simp]: "to_u32 (uint w) = w"
  by (simp add: to_u32_def)

subsection \<open>Computations\<close>

type_synonym ('s, 'e, 'a) comp = "'s \<Rightarrow> ('e + 'a) \<times> 's"

definition retc :: "'a \<Rightarrow> ('s, 'e, 'a) comp" where
  [comp_defs]: "retc v = (\<lambda>s. (Inr v, s))"

definition throwc :: "'e \<Rightarrow> ('s, 'e, 'a) comp" where
  [comp_defs]: "throwc e = (\<lambda>s. (Inl e, s))"

definition bindc :: "('s, 'e, 'a) comp \<Rightarrow> ('a \<Rightarrow> ('s, 'e, 'b) comp) \<Rightarrow> ('s, 'e, 'b) comp" where
  [comp_defs]: "bindc m f = (\<lambda>s. case m s of (Inl e, t) \<Rightarrow> (Inl e, t) | (Inr v, t) \<Rightarrow> f v t)"

definition getc :: "('s \<Rightarrow> 'a) \<Rightarrow> ('s, 'e, 'a) comp" where
  [comp_defs]: "getc f = (\<lambda>s. (Inr (f s), s))"

definition modifyc :: "('s \<Rightarrow> 's) \<Rightarrow> ('s, 'e, unit) comp" where
  [comp_defs]: "modifyc f = (\<lambda>s. (Inr (), f s))"

text \<open>A value the code reads or else throws.\<close>

definition requirec :: "'e \<Rightarrow> 'a option \<Rightarrow> ('s, 'e, 'a) comp" where
  [comp_defs]: "requirec e r = (case r of None \<Rightarrow> throwc e | Some v \<Rightarrow> retc v)"

lemma bindc_retc [simp]: "bindc (retc v) f = f v"
  by (simp add: comp_defs)

lemma bindc_throwc [simp]: "bindc (throwc e) f = throwc e"
  by (simp add: comp_defs)

lemma bindc_retc_right [simp]: "bindc m retc = m"
  by (rule ext) (auto simp: comp_defs split: prod.splits sum.splits)

lemma bindc_assoc: "bindc (bindc m f) g = bindc m (\<lambda>v. bindc (f v) g)"
  by (rule ext) (auto simp: comp_defs split: prod.splits sum.splits)

lemma retc_apply [simp]: "retc v s = (Inr v, s)"
  by (simp add: retc_def)

lemma throwc_apply [simp]: "throwc e s = (Inl e, s)"
  by (simp add: throwc_def)

lemma getc_apply [simp]: "getc f s = (Inr (f s), s)"
  by (simp add: getc_def)

lemma modifyc_apply [simp]: "modifyc f s = (Inr (), f s)"
  by (simp add: modifyc_def)

lemma bindc_Inr: "m s = (Inr v, t) \<Longrightarrow> bindc m f s = f v t"
  by (simp add: bindc_def)

lemma bindc_Inl: "m s = (Inl e, t) \<Longrightarrow> bindc m f s = (Inl e, t)"
  by (simp add: bindc_def)

lemma bindc_eq_Inr:
  "bindc m f s = (Inr w, u) \<longleftrightarrow> (\<exists>v t. m s = (Inr v, t) \<and> f v t = (Inr w, u))"
  by (auto simp: bindc_def split: prod.splits sum.splits)

lemma bindc_eq_Inl:
  "bindc m f s = (Inl e, u) \<longleftrightarrow>
     m s = (Inl e, u) \<or> (\<exists>v t. m s = (Inr v, t) \<and> f v t = (Inl e, u))"
  by (auto simp: bindc_def split: prod.splits sum.splits)

lemma requirec_Some [simp]: "requirec e (Some v) = retc v"
  by (simp add: requirec_def)

lemma requirec_None [simp]: "requirec e None = throwc e"
  by (simp add: requirec_def)

subsection \<open>Contracts\<close>

definition run_spec ::
  "('s \<Rightarrow> bool) \<Rightarrow> ('s, 'e, 'a) comp \<Rightarrow> ('a \<Rightarrow> 's \<Rightarrow> bool) \<Rightarrow> ('e \<Rightarrow> 's \<Rightarrow> bool) \<Rightarrow> bool" where
  "run_spec P m Q E \<longleftrightarrow>
     (\<forall>s. P s \<longrightarrow> (case m s of (Inl e, t) \<Rightarrow> E e t | (Inr v, t) \<Rightarrow> Q v t))"

lemma run_specI:
  assumes "\<And>s v t. P s \<Longrightarrow> m s = (Inr v, t) \<Longrightarrow> Q v t"
    and "\<And>s e t. P s \<Longrightarrow> m s = (Inl e, t) \<Longrightarrow> E e t"
  shows "run_spec P m Q E"
  using assms by (fastforce simp: run_spec_def split: prod.splits sum.splits)

lemma run_spec_Inr: "run_spec P m Q E \<Longrightarrow> P s \<Longrightarrow> m s = (Inr v, t) \<Longrightarrow> Q v t"
  by (fastforce simp: run_spec_def)

lemma run_spec_Inl: "run_spec P m Q E \<Longrightarrow> P s \<Longrightarrow> m s = (Inl e, t) \<Longrightarrow> E e t"
  by (fastforce simp: run_spec_def)

lemma run_spec_conseq:
  assumes "run_spec P m Q E"
    and "\<And>s. P' s \<Longrightarrow> P s"
    and "\<And>v t. Q v t \<Longrightarrow> Q' v t"
    and "\<And>e t. E e t \<Longrightarrow> E' e t"
  shows "run_spec P' m Q' E'"
  using assms by (fastforce simp: run_spec_def split: prod.splits sum.splits)

lemma run_spec_pre: "(\<And>s. P s \<Longrightarrow> run_spec (\<lambda>t. t = s) m Q E) \<Longrightarrow> run_spec P m Q E"
  by (simp add: run_spec_def)

lemma run_spec_retc [spec_intros]: "(\<And>s. P s \<Longrightarrow> Q v s) \<Longrightarrow> run_spec P (retc v) Q E"
  by (simp add: run_spec_def)

lemma run_spec_throwc [spec_intros]: "(\<And>s. P s \<Longrightarrow> E e s) \<Longrightarrow> run_spec P (throwc e) Q E"
  by (simp add: run_spec_def)

lemma run_spec_getc [spec_intros]: "(\<And>s. P s \<Longrightarrow> Q (f s) s) \<Longrightarrow> run_spec P (getc f) Q E"
  by (simp add: run_spec_def)

lemma run_spec_modifyc [spec_intros]:
  "(\<And>s. P s \<Longrightarrow> Q () (f s)) \<Longrightarrow> run_spec P (modifyc f) Q E"
  by (simp add: run_spec_def)

lemma run_spec_bindc:
  assumes "run_spec P m R E" and "\<And>v. run_spec (R v) (f v) Q E"
  shows "run_spec P (bindc m f) Q E"
proof (rule run_specI)
  fix s v t assume "P s" and "bindc m f s = (Inr v, t)"
  with assms show "Q v t"
    by (auto simp: bindc_eq_Inr dest: run_spec_Inr)
next
  fix s e t assume "P s" and "bindc m f s = (Inl e, t)"
  with assms show "E e t"
    by (auto simp: bindc_eq_Inl dest: run_spec_Inr run_spec_Inl)
qed

lemma run_spec_if [spec_intros]:
  assumes "b \<Longrightarrow> run_spec P m Q E" and "\<not> b \<Longrightarrow> run_spec P n Q E"
  shows "run_spec P (if b then m else n) Q E"
  using assms by simp

lemma run_spec_requirec [spec_intros]:
  assumes "\<And>s. P s \<Longrightarrow> r = None \<Longrightarrow> E e s"
    and "\<And>s v. P s \<Longrightarrow> r = Some v \<Longrightarrow> Q v s"
  shows "run_spec P (requirec e r) Q E"
  using assms by (cases r) (auto simp: run_spec_def)

subsection \<open>Lists\<close>

text \<open>JavaScript's \<^verbatim>\<open>findIndex\<close>, with \<open>None\<close> for \<open>-1\<close>.\<close>

fun find_index :: "('a \<Rightarrow> bool) \<Rightarrow> 'a list \<Rightarrow> nat option" where
  "find_index p [] = None"
| "find_index p (x # xs) = (if p x then Some 0 else map_option Suc (find_index p xs))"

lemma find_index_Some:
  "find_index p xs = Some i \<Longrightarrow> i < length xs \<and> p (xs ! i) \<and> (\<forall>j < i. \<not> p (xs ! j))"
proof (induction xs arbitrary: i)
  case Nil
  then show ?case by simp
next
  case (Cons x xs)
  show ?case
  proof (cases "p x")
    case True
    with Cons.prems show ?thesis by simp
  next
    case False
    with Cons.prems obtain k where k: "find_index p xs = Some k" "i = Suc k"
      by auto
    from Cons.IH [OF k(1)] False k(2) show ?thesis
      by (auto simp: less_Suc_eq_0_disj)
  qed
qed

lemma find_index_None: "find_index p xs = None \<longleftrightarrow> (\<forall>x \<in> set xs. \<not> p x)"
  by (induction xs) auto

text \<open>\<^verbatim>\<open>xs[i]\<close> where the code supplies a default for \<^verbatim>\<open>undefined\<close>.\<close>

definition nth_default :: "'a \<Rightarrow> 'a list \<Rightarrow> nat \<Rightarrow> 'a" where
  "nth_default d xs i = (if i < length xs then xs ! i else d)"

lemma nth_default_in [simp]: "i < length xs \<Longrightarrow> nth_default d xs i = xs ! i"
  by (simp add: nth_default_def)

lemma nth_default_out [simp]: "length xs \<le> i \<Longrightarrow> nth_default d xs i = d"
  by (simp add: nth_default_def)

subsection \<open>Results without state\<close>

definition bindr :: "'e + 'a \<Rightarrow> ('a \<Rightarrow> 'e + 'b) \<Rightarrow> 'e + 'b" where
  "bindr r f = (case r of Inl e \<Rightarrow> Inl e | Inr v \<Rightarrow> f v)"

fun map_r :: "('a \<Rightarrow> 'e + 'b) \<Rightarrow> 'a list \<Rightarrow> 'e + 'b list" where
  "map_r f [] = Inr []"
| "map_r f (x # xs) = bindr (f x) (\<lambda>y. bindr (map_r f xs) (\<lambda>ys. Inr (y # ys)))"

lemma bindr_simps [simp]: "bindr (Inl e) f = Inl e" "bindr (Inr v) f = f v"
  by (simp_all add: bindr_def)

lemma bindr_eq_Inr: "bindr r f = Inr w \<longleftrightarrow> (\<exists>v. r = Inr v \<and> f v = Inr w)"
  by (cases r) auto

lemma bindr_eq_Inl: "bindr r f = Inl e \<longleftrightarrow> r = Inl e \<or> (\<exists>v. r = Inr v \<and> f v = Inl e)"
  by (cases r) auto

lemma bindr_cong [fundef_cong]:
  "r = s \<Longrightarrow> (\<And>v. s = Inr v \<Longrightarrow> f v = g v) \<Longrightarrow> bindr r f = bindr s g"
  by (cases s) auto

lemma map_r_cong [fundef_cong]:
  "xs = ys \<Longrightarrow> (\<And>x. x \<in> set ys \<Longrightarrow> f x = g x) \<Longrightarrow> map_r f xs = map_r g ys"
proof (induction ys arbitrary: xs)
  case (Cons y ys)
  then have "map_r f ys = map_r g ys" by simp
  with Cons.prems show ?case by simp
qed simp

lemma map_r_Inr: "map_r f xs = Inr ys \<longleftrightarrow> list_all2 (\<lambda>x y. f x = Inr y) xs ys"
  by (induction xs arbitrary: ys) (auto simp: bindr_eq_Inr list_all2_Cons1)

lemma map_r_Inl: "map_r f xs = Inl e \<Longrightarrow> \<exists>x \<in> set xs. f x = Inl e"
  by (induction xs) (auto simp: bindr_eq_Inl)

lemma map_r_total: "(\<And>x. x \<in> set xs \<Longrightarrow> f x = Inr (g x)) \<Longrightarrow> map_r f xs = Inr (map g xs)"
  by (induction xs) auto

end
