(* ===== verification/Ext_Seam.thy ===== *)
theory Ext_Seam
  imports Prelude
begin

section \<open>The extension seam\<close>

text \<open>
  An extension adds opcodes to the core instruction set. It states the effect of each opcode
  (\<^verbatim>\<open>ExtOpEffect\<close>: how the operand stack moves, whether \<open>acc\<close> is read or written) beside the
  function \<^verbatim>\<open>exec\<close> that says what the opcode does, and everything downstream trusts the two
  to agree. Here: the state an \<^verbatim>\<open>exec\<close> runs over, the effect record, and the contract between
  them as the locale \<open>ext_contract\<close>. \<open>Raw_Mem\<close> and \<open>Samp_Stream\<close> interpret it.
\<close>

subsection \<open>What an extension opcode runs over\<close>

text \<open>
  \<^verbatim>\<open>ExecState\<close>: the accumulator and the operand stack, the top of the stack first, with the
  extension's own memory beside them.
\<close>

record 'm xstate =
  xacc :: u32
  xcells :: "u32 list"
  xmem :: 'm

type_synonym ('m, 'a) xcomp = "('m xstate, string, 'a) comp"

type_synonym 'm ext_exec = "string \<Rightarrow> int list \<Rightarrow> ('m, unit) xcomp"

definition pop_cell :: "('m, u32) xcomp" where
  "pop_cell = (\<lambda>s. case xcells s of
       [] \<Rightarrow> (Inl ''popped an empty stack'', s)
     | v # vs \<Rightarrow> (Inr v, s\<lparr>xcells := vs\<rparr>))"

lemma pop_cell_Cons [simp]: "xcells s = v # vs \<Longrightarrow> pop_cell s = (Inr v, s\<lparr>xcells := vs\<rparr>)"
  by (simp add: pop_cell_def)

lemma pop_cell_Nil [simp]: "xcells s = [] \<Longrightarrow> pop_cell s = (Inl ''popped an empty stack'', s)"
  by (simp add: pop_cell_def)

subsection \<open>Declared effects\<close>

text \<open>\<^verbatim>\<open>ExtOpEffect\<close>; an omitted flag of the source is \<open>False\<close>.\<close>

record op_effect =
  tos_delta :: int
  max_transient :: int
  reads_acc :: bool
  writes_acc :: bool
  kills_acc :: bool

text \<open>How many cells an opcode takes off the stack.\<close>

definition popped :: "op_effect \<Rightarrow> nat" where
  "popped ef = nat (- tos_delta ef)"

subsection \<open>The contract\<close>

locale ext_contract =
  fixes exec :: "'m ext_exec"
    and effects :: "string \<Rightarrow> op_effect option"
    and mem_ok :: "'m \<Rightarrow> bool"
  assumes no_push: "effects n = Some ef \<Longrightarrow> tos_delta ef \<le> 0"
    and progress: "effects n = Some ef \<Longrightarrow> popped ef \<le> length (xcells s) \<Longrightarrow>
      \<exists>s'. exec n ops s = (Inr (), s')"
    and cells: "effects n = Some ef \<Longrightarrow> exec n ops s = (Inr (), s') \<Longrightarrow>
      xcells s' = drop (popped ef) (xcells s)"
    and underflow: "effects n = Some ef \<Longrightarrow> length (xcells s) < popped ef \<Longrightarrow>
      \<exists>e s'. exec n ops s = (Inl e, s') \<and> xmem s' = xmem s"
    and acc_kept: "effects n = Some ef \<Longrightarrow> \<not> writes_acc ef \<Longrightarrow>
      exec n ops s = (Inr (), s') \<Longrightarrow> xacc s' = xacc s"
    and acc_unread: "effects n = Some ef \<Longrightarrow> \<not> reads_acc ef \<Longrightarrow>
      exec n ops s = (Inr (), s') \<Longrightarrow>
      \<exists>s''. exec n ops (s\<lparr>xacc := a\<rparr>) = (Inr (), s'') \<and> xmem s'' = xmem s'
        \<and> (writes_acc ef \<longrightarrow> xacc s'' = xacc s')"
    and mem_kept: "mem_ok (xmem s) \<Longrightarrow> exec n ops s = (r, s') \<Longrightarrow> mem_ok (xmem s')"
    and unknown: "effects n = None \<Longrightarrow> \<exists>e. exec n ops s = (Inl e, s)"
begin

text \<open>The declared delta is the change of depth.\<close>

lemma depth:
  assumes "effects n = Some ef" and "exec n ops s = (Inr (), s')"
  shows "int (length (xcells s')) = int (length (xcells s)) + tos_delta ef"
proof -
  have le: "popped ef \<le> length (xcells s)"
  proof (rule ccontr)
    assume "\<not> popped ef \<le> length (xcells s)"
    with underflow [OF assms(1), of s ops] assms(2) show False by auto
  qed
  have "length (xcells s') = length (xcells s) - popped ef"
    using cells [OF assms] by simp
  with le no_push [OF assms(1)] show ?thesis
    by (simp add: popped_def)
qed

lemma acc_irrelevant_mem:
  assumes "effects n = Some ef" and "\<not> reads_acc ef"
    and "exec n ops s = (Inr (), s')" and "exec n ops (s\<lparr>xacc := a\<rparr>) = (Inr (), s'')"
  shows "xmem s'' = xmem s'"
  using acc_unread [OF assms(1-3), of a] assms(4) by auto

text \<open>An opcode cannot fail except by running out of cells or by being unknown.\<close>

lemma fails_only_by_depth:
  assumes "effects n = Some ef"
  shows "(\<exists>s'. exec n ops s = (Inr (), s')) \<longleftrightarrow> popped ef \<le> length (xcells s)"
  using progress [OF assms, of s ops] underflow [OF assms, of s ops]
  by (metis Inl_Inr_False linorder_not_le prod.inject)

end

end
