(* ===== verification/Raw_Mem.thy ===== *)
theory Raw_Mem
  imports Ext_Seam
begin

section \<open>The raw-memory extension (\<^verbatim>\<open>fuzz/ts/lib/rawmem_ext.ts\<close>)\<close>

text \<open>
  The reference half of the test extension: a 1024-byte sandbox, loads and stores of three
  widths, a forward byte move and two comparisons, all on masked addresses. The sandbox is a
  list of bytes; reading past its end gives 0 and writing past it does nothing, which is what
  \<^verbatim>\<open>mem[i] ?? 0\<close> and a \<^verbatim>\<open>Uint8Array\<close> store do. Then: addresses stay in bounds, a load
  returns what the store of its width wrote, the move is the forward copy, the comparisons
  decide equality, and the effect table tells the truth about \<open>exec\<close>.
\<close>

subsection \<open>Constants\<close>

definition rawmem_bytes :: nat where
  "rawmem_bytes = 1024"

definition addr_mask :: u32 where
  "addr_mask = 0x3ff"

definition rawmem_opcodes :: "(string \<times> nat) list" where
  "rawmem_opcodes =
     [(''LD8'', 0x80), (''LD16'', 0x81), (''LD32'', 0x82),
      (''ST8'', 0x83), (''ST16'', 0x84), (''ST32'', 0x85),
      (''MEMMOVE'', 0x86), (''MEMCMP'', 0x87), (''SLICECMP'', 0x88)]"

definition width_table :: "(string \<times> nat) list" where
  "width_table =
     [(''LD8'', 1), (''LD16'', 2), (''LD32'', 4), (''ST8'', 1), (''ST16'', 2), (''ST32'', 4)]"

definition rawmem_effects_table :: "(string \<times> op_effect) list" where
  "rawmem_effects_table =
    (let ld = \<lparr>tos_delta = 0, max_transient = 0, reads_acc = True, writes_acc = True, kills_acc = False\<rparr>;
         st = \<lparr>tos_delta = -1, max_transient = 0, reads_acc = True, writes_acc = False, kills_acc = False\<rparr>
     in [(''LD8'', ld), (''LD16'', ld), (''LD32'', ld),
         (''ST8'', st), (''ST16'', st), (''ST32'', st),
         (''MEMMOVE'', \<lparr>tos_delta = -3, max_transient = 0, reads_acc = False, writes_acc = False, kills_acc = True\<rparr>),
         (''MEMCMP'', \<lparr>tos_delta = -3, max_transient = 0, reads_acc = False, writes_acc = True, kills_acc = False\<rparr>),
         (''SLICECMP'', \<lparr>tos_delta = -4, max_transient = 1, reads_acc = False, writes_acc = True, kills_acc = False\<rparr>)])"

definition rawmem_effects :: "string \<Rightarrow> op_effect option" where
  "rawmem_effects n = map_of rawmem_effects_table n"

subsection \<open>The sandbox\<close>

type_synonym sandbox = "u8 list"

abbreviation byte_at :: "sandbox \<Rightarrow> nat \<Rightarrow> u8" where
  "byte_at m i \<equiv> nth_default 0 m i"

definition rawmem_reset :: "sandbox \<Rightarrow> sandbox" where
  "rawmem_reset m = map (\<lambda>_. 0) m"

definition rawmem_new :: sandbox where
  "rawmem_new = replicate rawmem_bytes 0"

definition sandbox_ok :: "sandbox \<Rightarrow> bool" where
  "sandbox_ok m \<longleftrightarrow> length m = rawmem_bytes"

text \<open>\<^verbatim>\<open>at\<close>: aligned down to the access width, not just masked.\<close>

definition mem_at :: "u32 \<Rightarrow> nat \<Rightarrow> nat" where
  "mem_at offset width = unat ((offset AND addr_mask) AND NOT (of_nat width - 1))"

definition mem_load :: "sandbox \<Rightarrow> u32 \<Rightarrow> nat \<Rightarrow> u32" where
  "mem_load m offset width =
     (let base = mem_at offset width
      in foldl (\<lambda>v i. v OR push_bit (8 * i) (ucast (byte_at m (base + i)))) 0 [0..<width])"

definition mem_store :: "sandbox \<Rightarrow> u32 \<Rightarrow> u32 \<Rightarrow> nat \<Rightarrow> sandbox" where
  "mem_store m offset v width =
     (let base = mem_at offset width
      in foldl (\<lambda>m i. m[base + i := ucast (drop_bit (8 * i) v AND 0xff)]) m [0..<width])"

text \<open>The address a pointer that walks forward takes next: \<^verbatim>\<open>(src + 1) & ADDR_MASK\<close>.\<close>

definition next_addr :: "nat \<Rightarrow> nat" where
  "next_addr i = (i + 1) AND 0x3ff"

function move_bytes :: "nat \<Rightarrow> nat \<Rightarrow> nat \<Rightarrow> sandbox \<Rightarrow> sandbox" where
  "move_bytes dst dst_end src m =
     (if dst < dst_end
      then move_bytes (Suc dst) dst_end (next_addr src) (m[dst := byte_at m src])
      else m)"
  by pat_completeness auto
termination
  by (relation "measure (\<lambda>(dst, dst_end, _). dst_end - dst)") auto

text \<open>The loop of \<^verbatim>\<open>MEMCMP\<close>: the first differing byte's difference, or 0.\<close>

function cmp_bytes :: "nat \<Rightarrow> nat \<Rightarrow> nat \<Rightarrow> sandbox \<Rightarrow> int" where
  "cmp_bytes a a_end b m =
     (if a < a_end
      then let x = byte_at m a; y = byte_at m b
           in if x \<noteq> y then uint x - uint y else cmp_bytes (Suc a) a_end (next_addr b) m
      else 0)"
  by pat_completeness auto
termination
  by (relation "measure (\<lambda>(a, a_end, _). a_end - a)") auto

text \<open>
  The loop of \<^verbatim>\<open>SLICECMP\<close> from index \<open>i\<close>: over the common length, keeping the length
  difference when no byte differs.
\<close>

function cmp_slices :: "nat \<Rightarrow> nat \<Rightarrow> nat \<Rightarrow> nat \<Rightarrow> int \<Rightarrow> sandbox \<Rightarrow> int" where
  "cmp_slices i common a b result m =
     (if i < common
      then let x = byte_at m (a + i); y = byte_at m (b + i)
           in if x \<noteq> y then uint x - uint y else cmp_slices (Suc i) common a b result m
      else result)"
  by pat_completeness auto
termination
  by (relation "measure (\<lambda>(i, common, _). common - i)") auto

declare move_bytes.simps [simp del] cmp_bytes.simps [simp del] cmp_slices.simps [simp del]

subsection \<open>\<open>exec\<close>\<close>

definition pop_addr :: "('m, nat) xcomp" where
  "pop_addr = bindc pop_cell (\<lambda>v. retc (unat (v AND addr_mask)))"

definition exec_memmove :: "(sandbox, unit) xcomp" where
  "exec_memmove =
     bindc pop_addr (\<lambda>dst_end.
     bindc pop_addr (\<lambda>dst_start.
     bindc pop_addr (\<lambda>src.
     modifyc (\<lambda>s. s\<lparr>xmem := move_bytes dst_start dst_end src (xmem s)\<rparr>))))"

definition exec_slicecmp :: "(sandbox, unit) xcomp" where
  "exec_slicecmp =
     bindc pop_addr (\<lambda>b_end.
     bindc pop_addr (\<lambda>b_start.
     bindc pop_addr (\<lambda>a_end.
     bindc pop_addr (\<lambda>a_start.
     let len_a = (if a_end > a_start then a_end - a_start else 0);
         len_b = (if b_end > b_start then b_end - b_start else 0);
         common = min len_a len_b
     in modifyc (\<lambda>s. s\<lparr>xacc := to_u32
          (cmp_slices 0 common a_start b_start (int len_a - int len_b) (xmem s))\<rparr>)))))"

definition exec_memcmp :: "(sandbox, unit) xcomp" where
  "exec_memcmp =
     bindc pop_addr (\<lambda>b_start.
     bindc pop_addr (\<lambda>a_end.
     bindc pop_addr (\<lambda>a_start.
     modifyc (\<lambda>s. s\<lparr>xacc := to_u32 (cmp_bytes a_start a_end b_start (xmem s))\<rparr>))))"

definition exec_load :: "nat \<Rightarrow> (sandbox, unit) xcomp" where
  "exec_load width = modifyc (\<lambda>s. s\<lparr>xacc := mem_load (xmem s) (xacc s) width\<rparr>)"

definition exec_store :: "nat \<Rightarrow> (sandbox, unit) xcomp" where
  "exec_store width =
     bindc pop_cell (\<lambda>offset.
     modifyc (\<lambda>s. s\<lparr>xmem := mem_store (xmem s) offset (xacc s) width\<rparr>))"

definition rawmem_exec :: "sandbox ext_exec" where
  "rawmem_exec name operands =
     (if name = ''MEMMOVE'' then exec_memmove
      else if name = ''SLICECMP'' then exec_slicecmp
      else if name = ''MEMCMP'' then exec_memcmp
      else case map_of width_table name of
        None \<Rightarrow> throwc (''rawmem: unknown op '' @ name)
      | Some width \<Rightarrow>
          if take 2 name = ''LD'' then exec_load width else exec_store width)"

subsection \<open>The codec\<close>

definition rawmem_encode :: "string \<Rightarrow> string + nat list" where
  "rawmem_encode name =
     (case map_of rawmem_opcodes name of
        None \<Rightarrow> Inl (''rawmem: cannot encode '' @ name)
      | Some code \<Rightarrow> Inr [code])"

text \<open>\<^verbatim>\<open>BY_BYTE\<close>, and \<^verbatim>\<open>decode\<close>: the instruction's name and the offset after it.\<close>

definition by_byte :: "nat \<Rightarrow> string option" where
  "by_byte b = map_of (map (\<lambda>(name, code). (code, name)) rawmem_opcodes) b"

definition rawmem_decode :: "nat list \<Rightarrow> nat \<Rightarrow> string + (string \<times> nat)" where
  "rawmem_decode bytes offset =
     (case (if offset < length bytes then by_byte (bytes ! offset) else None) of
        None \<Rightarrow> Inl ''rawmem: cannot decode byte''
      | Some name \<Rightarrow> Inr (name, offset + 1))"

subsection \<open>Addresses\<close>

lemma addr_mask_mask: "addr_mask = mask 10" by (simp add: addr_mask_def mask_eq_exp_minus_1)
lemma unat_masked: "unat (w AND addr_mask) = unat w mod 1024"
proof -
  have "w AND addr_mask = w mod 1024"
    by (simp only: addr_mask_mask flip: take_bit_eq_mask) (simp add: take_bit_eq_mod)
  then show ?thesis by (simp only: unat_mod unat_numeral) simp
qed
lemma bit_u32_less: "bit (w::u32) n \<Longrightarrow> n < 32" 
  using bit_imp_le_length [of w n] by simp
lemma unat_and_not_mask: "unat (w AND NOT (mask k)) = (unat (w::u32) div 2 ^ k) * 2 ^ k"
proof -
  have b: "bit (uint (w AND NOT (mask k))) n = bit (push_bit k (drop_bit k (uint w))) n" for n
    using bit_u32_less [of w n]
    by (auto simp: bit_uint_iff bit_and_iff bit_not_iff bit_mask_iff bit_push_bit_iff bit_drop_bit_eq possible_bit_def)
  then have "uint (w AND NOT (mask k)) = push_bit k (drop_bit k (uint w))"
    by (rule bit_eqI)
  then have e: "uint (w AND NOT (mask k)) = (uint w div 2 ^ k) * 2 ^ k"
    by (simp only: push_bit_eq_mult drop_bit_eq_div)
  have "int (unat (w AND NOT (mask k))) = int ((unat w div 2 ^ k) * 2 ^ k)"
    by (simp only: uint_nat [symmetric] e of_nat_mult of_nat_div of_nat_power of_nat_numeral)
  then show ?thesis by (simp only: of_nat_eq_iff)
qed
definition access_width :: "nat \<Rightarrow> bool" where
  "access_width w \<longleftrightarrow> w = 1 \<or> w = 2 \<or> w = 4"
lemma mem_at_eq:
  assumes "access_width w"
  shows "mem_at o' w = unat o' mod 1024 div w * w"
proof -
  obtain k where k: "w = 2 ^ k" "(of_nat w - 1 :: u32) = mask k"
  proof -
    show thesis
      using assms that [of 0] that [of 1] that [of 2]
      by (auto simp: access_width_def mask_eq_exp_minus_1)
  qed
  then show ?thesis
    by (simp only: mem_at_def unat_and_not_mask unat_masked)
qed

lemma mem_at_bound:
  assumes "access_width w"
  shows "mem_at o' w + w \<le> 1024" "w dvd mem_at o' w"
proof -
  have "unat o' mod 1024 < 1024" by simp
  then show "mem_at o' w + w \<le> 1024"
    using assms by (auto simp: mem_at_eq [OF assms] access_width_def; presburger)
  show "w dvd mem_at o' w" by (simp add: mem_at_eq [OF assms])
qed

lemma length_mem_store [simp]: "length (mem_store m o' v w) = length m"
proof -
  have "length (foldl (\<lambda>m i. m[f i := g i]) m is) = length (m :: sandbox)" for f g and "is" :: "nat list"
    by (induction "is" arbitrary: m) auto
  then show ?thesis by (simp add: mem_store_def Let_def)
qed

lemma nth_mem_store:
  assumes "access_width w" "sandbox_ok m" "i < 1024"
  shows "mem_store m o' v w ! i =
     (if mem_at o' w \<le> i \<and> i < mem_at o' w + w
      then ucast (drop_bit (8 * (i - mem_at o' w)) v AND 0xff) else m ! i)"
proof -
  have upt: "[0..<Suc 0] = [0]" "[0..<2] = [0, 1]" "[0..<4] = [0, 1, 2, 3::nat]" by (simp_all add: upt_rec)
  define b where "b = mem_at o' w"
  have b: "b + w \<le> 1024" using mem_at_bound(1) [OF assms(1)] by (simp add: b_def)
  have len: "length m = 1024" using assms(2) by (simp add: sandbox_ok_def rawmem_bytes_def)
  consider "i < b" | k where "i = b + k" "k < w" | "b + w \<le> i"
    by (metis add.commute le_add_diff_inverse2 less_diff_conv2 not_le)
  then show ?thesis
  proof cases
    case 2
    from assms(1) 2 have "k = 0 \<or> k = 1 \<or> k = 2 \<or> k = 3" by (auto simp: access_width_def)
    with 2 b len assms(1) show ?thesis
      unfolding mem_store_def b_def [symmetric] 
      by (auto simp: access_width_def upt Let_def nth_list_update)
  qed (use b len assms(1) in \<open>auto simp: mem_store_def b_def [symmetric] access_width_def upt Let_def nth_list_update\<close>)
qed

lemma ff_mask: "(0xff :: u32) = mask 8" by (simp add: mask_eq_exp_minus_1)
lemma byte_round: "ucast (ucast (y AND 0xff :: u32) :: u8) = (y AND 0xff :: u32)"
proof (rule bit_word_eqI)
  fix n assume "n < LENGTH(32)"
  show "bit (ucast (ucast (y AND 0xff :: u32) :: u8) :: u32) n = bit (y AND 0xff) n"
    unfolding ff_mask using \<open>n < LENGTH(32)\<close> by (auto simp: bit_ucast_iff bit_and_iff bit_mask_iff)
qed
lemma assemble_step:
  "(x AND mask m) OR push_bit m (drop_bit m x AND 0xff) = (x :: u32) AND mask (m + 8)"
proof (rule bit_word_eqI)
  fix n assume n: "n < LENGTH(32)"
  show "bit ((x AND mask m) OR push_bit m (drop_bit m x AND 0xff)) n = bit (x AND mask (m + 8)) n"
    unfolding ff_mask using n by (auto simp: bit_or_iff bit_and_iff bit_mask_iff bit_push_bit_iff bit_drop_bit_eq)
qed
lemma assemble:
  "foldl (\<lambda>v i. v OR push_bit (8 * i) (ucast (ucast (drop_bit (8 * i) x AND 0xff :: u32) :: u8))) 0 [0..<w]
   = (x AND mask (8 * w) :: u32)"
proof (induction w)
  case 0
  show ?case by simp
next
  case (Suc w)
  then show ?case
    using assemble_step [of x "8 * w"] by (simp add: byte_round add.commute)
qed

lemma mem_load_store:
  assumes "access_width w" "sandbox_ok m"
  shows "mem_load (mem_store m o' v w) o' w = v AND mask (8 * w)"
proof -
  define b where "b = mem_at o' w"
  have b: "b + w \<le> 1024" using mem_at_bound(1) [OF assms(1)] by (simp add: b_def)
  have len: "length m = 1024" using assms(2) by (simp add: sandbox_ok_def rawmem_bytes_def)
  have byte: "byte_at (mem_store m o' v w) (b + k) = ucast (drop_bit (8 * k) v AND 0xff)" if "k < w" for k
    using that b len nth_mem_store [OF assms, of "b + k" o' v] by (simp add: b_def)
  have "mem_load (mem_store m o' v w) o' w =
      foldl (\<lambda>u k. u OR push_bit (8 * k) (ucast (ucast (drop_bit (8 * k) v AND 0xff) :: u8))) 0 [0..<w]"
    unfolding mem_load_def b_def [symmetric] Let_def
    by (rule foldl_cong) (auto simp: byte)
  then show ?thesis by (simp only: assemble)
qed

subsection \<open>The forward move and the comparisons\<close>

lemma next_addr_mod: "next_addr i = Suc i mod 1024"
proof -
  have "next_addr i = Suc i AND mask 10" by (simp add: next_addr_def mask_eq_exp_minus_1)
  then show ?thesis by (simp flip: take_bit_eq_mask) (simp add: take_bit_eq_mod)
qed

lemma length_move_bytes [simp]: "length (move_bytes d e s m) = length m"
  by (induction d e s m rule: move_bytes.induct) (subst move_bytes.simps, simp)

lemma move_bytes_outside:
  "j < d \<or> e \<le> j \<Longrightarrow> move_bytes d e s m ! j = m ! j"
proof (induction d e s m rule: move_bytes.induct)
  case (1 d e s m)
  then show ?case
    by (subst move_bytes.simps) auto
qed

lemma move_bytes_inside:
  assumes "e \<le> 1024" "length m = 1024" "s < 1024" "d + k < e"
  shows "move_bytes d e s m ! (d + k) =
    (let a = (s + k) mod 1024 in if d \<le> a \<and> a < d + k then move_bytes d e s m ! a else m ! a)"
  using assms
proof (induction d e s m arbitrary: k rule: move_bytes.induct)
  case (1 d e s m)
  define m' where "m' = m[d := byte_at m s]"
  define r where "r = move_bytes (Suc d) e (next_addr s) m'"
  have r: "move_bytes d e s m = r"
    using "1.prems"(4) by (simp add: r_def m'_def move_bytes.simps [of d e s m])
  have rd: "r ! d = m ! s"
    using "1.prems" by (simp add: r_def move_bytes_outside m'_def)
  show ?case
  proof (cases k)
    case 0
    then show ?thesis using rd "1.prems" by (auto simp: r Let_def)
  next
    case (Suc k')
    have a: "(next_addr s + k') mod 1024 = (s + k) mod 1024"
      by (simp add: next_addr_mod Suc mod_add_left_eq)
    have "r ! (Suc d + k') = (let a = (next_addr s + k') mod 1024 in
        if Suc d \<le> a \<and> a < Suc d + k' then r ! a else m' ! a)"
      unfolding r_def m'_def using "1.prems" Suc
      by (intro "1.IH") (auto simp: next_addr_mod)
    then have "r ! (Suc d + k') = (let a = (s + k) mod 1024 in
        if Suc d \<le> a \<and> a < Suc d + k' then r ! a else m' ! a)"
      unfolding a .
    then show ?thesis
      using rd Suc "1.prems" by (auto simp: r Let_def m'_def nth_list_update le_less)
  qed
qed

lemma move_bytes_empty: "e \<le> d \<Longrightarrow> move_bytes d e s m = m"
  by (subst move_bytes.simps) simp

lemma move_bytes_copy:
  assumes "e \<le> 1024" "length m = 1024" "d + k < e" "s + (e - d) \<le> 1024"
    and "d \<le> s \<or> s + (e - d) \<le> d"
  shows "move_bytes d e s m ! (d + k) = m ! (s + k)"
proof -
  have "s + k < 1024" "s < 1024" using assms by linarith+
  moreover have "\<not> (d \<le> s + k \<and> s + k < d + k)" using assms by linarith
  ultimately show ?thesis
    using move_bytes_inside [OF assms(1,2) _ assms(3), of s] by (auto simp: Let_def)
qed

lemma cmp_bytes_first_diff:
  assumes "length m = 1024" "e \<le> 1024" "b < 1024"
  shows "(\<forall>k. a + k < e \<longrightarrow> m ! (a + k) = m ! ((b + k) mod 1024)) \<and> cmp_bytes a e b m = 0
    \<or> (\<exists>k. a + k < e \<and> (\<forall>j < k. m ! (a + j) = m ! ((b + j) mod 1024))
        \<and> m ! (a + k) \<noteq> m ! ((b + k) mod 1024)
        \<and> cmp_bytes a e b m = uint (m ! (a + k)) - uint (m ! ((b + k) mod 1024)))"
  using assms
proof (induction a e b m rule: cmp_bytes.induct)
  case (1 a e b m)
  show ?case
  proof (cases "a < e \<and> m ! a = m ! b")
    case False
    then show ?thesis
      using "1.prems"
      by (auto simp: cmp_bytes.simps [of a e b m] Let_def intro!: exI [of _ "0::nat"])
  next
    case True
    have idx: "(next_addr b + k) mod 1024 = (b + Suc k) mod 1024" for k
      by (simp add: next_addr_mod mod_add_left_eq)
    have eq: "cmp_bytes a e b m = cmp_bytes (Suc a) e (next_addr b) m"
      using True "1.prems" by (simp add: cmp_bytes.simps [of a e b m])
    have b0: "b mod 1024 = b" using "1.prems" by simp
    from "1.IH" [OF _ refl refl] True "1.prems"
    consider (same) "\<forall>k. Suc a + k < e \<longrightarrow> m ! (Suc a + k) = m ! ((b + Suc k) mod 1024)"
        "cmp_bytes a e b m = 0"
      | (diff) k where "Suc a + k < e" "\<forall>j < k. m ! (Suc a + j) = m ! ((b + Suc j) mod 1024)"
        "m ! (Suc a + k) \<noteq> m ! ((b + Suc k) mod 1024)"
        "cmp_bytes a e b m = uint (m ! (Suc a + k)) - uint (m ! ((b + Suc k) mod 1024))"
      unfolding eq idx by (auto simp: next_addr_mod)
    then show ?thesis
    proof cases
      case same
      have "m ! (a + k) = m ! ((b + k) mod 1024)" if "a + k < e" for k
        using same(1) that True b0 by (cases k) auto
      with same(2) show ?thesis by blast
    next
      case diff
      have "m ! (a + j) = m ! ((b + j) mod 1024)" if "j < Suc k" for j
        using diff(2) that True b0 by (cases j) auto
      with diff show ?thesis
        by (intro disjI2 exI [of _ "Suc k"]) auto
    qed
  qed
qed
lemma cmp_slices_first_diff:
  assumes "\<And>j. j < n \<Longrightarrow> a + j < length m \<and> b + j < length m"
  shows "(\<forall>k. i \<le> k \<and> k < n \<longrightarrow> m ! (a + k) = m ! (b + k)) \<and> cmp_slices i n a b res m = res
    \<or> (\<exists>k. i \<le> k \<and> k < n \<and> (\<forall>j. i \<le> j \<and> j < k \<longrightarrow> m ! (a + j) = m ! (b + j))
        \<and> m ! (a + k) \<noteq> m ! (b + k)
        \<and> cmp_slices i n a b res m = uint (m ! (a + k)) - uint (m ! (b + k)))"
  using assms
proof (induction i n a b res m rule: cmp_slices.induct)
  case (1 i n a b res m)
  show ?case
  proof (cases "i < n \<and> m ! (a + i) = m ! (b + i)")
    case False
    then show ?thesis
      using "1.prems"
      by (auto simp: cmp_slices.simps [of i n a b res m] Let_def intro!: exI [of _ i])
  next
    case True
    have eq: "cmp_slices i n a b res m = cmp_slices (Suc i) n a b res m"
      using True "1.prems" by (simp add: cmp_slices.simps [of i n a b res m])
    have split: "i \<le> k \<longleftrightarrow> k = i \<or> Suc i \<le> k" for k by auto
    from "1.IH" [OF _ refl refl _ "1.prems"] True "1.prems" show ?thesis
      unfolding eq split [of _] by (auto simp: split)
  qed
qed

lemma cmp_slices_swap:
  "(\<And>j. j < n \<Longrightarrow> a + j < length m \<and> b + j < length m) \<Longrightarrow>
    cmp_slices i n b a (- res) m = - cmp_slices i n a b res m"
proof (induction i n a b res m rule: cmp_slices.induct)
  case (1 i n a b res m)
  then show ?case
    by (auto simp: cmp_slices.simps [of i n a b res m] cmp_slices.simps [of i n b a "- res" m] Let_def)
qed

lemmas rawmem_exec_defs =
  exec_memmove_def exec_slicecmp_def exec_memcmp_def exec_load_def exec_store_def pop_addr_def

lemma rawmem_effects_cases:
  assumes "rawmem_effects n = Some ef"
  obtains (load) w where "rawmem_exec n = (\<lambda>_. exec_load w)" "popped ef = 0" "tos_delta ef = 0"
      "reads_acc ef" "writes_acc ef"
    | (store) w where "rawmem_exec n = (\<lambda>_. exec_store w)" "popped ef = 1" "tos_delta ef = -1"
      "reads_acc ef" "\<not> writes_acc ef"
    | (move) "rawmem_exec n = (\<lambda>_. exec_memmove)" "popped ef = 3" "tos_delta ef = -3"
      "\<not> reads_acc ef" "\<not> writes_acc ef"
    | (cmp) "rawmem_exec n = (\<lambda>_. exec_memcmp)" "popped ef = 3" "tos_delta ef = -3"
      "\<not> reads_acc ef" "writes_acc ef"
    | (slice) "rawmem_exec n = (\<lambda>_. exec_slicecmp)" "popped ef = 4" "tos_delta ef = -4"
      "\<not> reads_acc ef" "writes_acc ef"
proof -
  have "n \<in> set (map fst rawmem_effects_table)"
    using assms by (auto simp: rawmem_effects_def dest: map_of_SomeD intro: rev_image_eqI)
  then show thesis
    using assms load [of 1] load [of 2] load [of 4] store [of 1] store [of 2] store [of 4] move cmp slice
    by (auto simp: rawmem_effects_def rawmem_effects_table_def Let_def rawmem_exec_def
        width_table_def popped_def fun_eq_iff)
qed

lemma cells_depth_cases:
  "xs = [] \<or> (\<exists>a. xs = [a]) \<or> (\<exists>a b. xs = [a, b]) \<or> (\<exists>a b c. xs = [a, b, c])
    \<or> (\<exists>a b c d ys. xs = a # b # c # d # ys)"
  by (metis list.exhaust)

lemmas rawmem_exec_run = rawmem_exec_defs comp_defs pop_cell_def Let_def

interpretation rawmem: ext_contract rawmem_exec rawmem_effects sandbox_ok
proof
  fix n ef and s :: "sandbox xstate" and ops :: "int list"
  assume ef: "rawmem_effects n = Some ef"
  show "tos_delta ef \<le> 0" by (cases rule: rawmem_effects_cases [OF ef]) auto
  note split = cells_depth_cases [of "xcells s"]
  show "\<exists>s'. rawmem_exec n ops s = (Inr (), s')" if "popped ef \<le> length (xcells s)"
    using that split by (cases rule: rawmem_effects_cases [OF ef]) (auto simp: rawmem_exec_run)
  show "xcells s' = drop (popped ef) (xcells s)" if "rawmem_exec n ops s = (Inr (), s')" for s'
    using that split by (cases rule: rawmem_effects_cases [OF ef]) (auto simp: rawmem_exec_run)
  show "\<exists>e s'. rawmem_exec n ops s = (Inl e, s') \<and> xmem s' = xmem s" if "length (xcells s) < popped ef"
    using that split by (cases rule: rawmem_effects_cases [OF ef]) (auto simp: rawmem_exec_run)
  show "xacc s' = xacc s" if "\<not> writes_acc ef" "rawmem_exec n ops s = (Inr (), s')" for s'
    using that split by (cases rule: rawmem_effects_cases [OF ef]) (auto simp: rawmem_exec_run)
  show "\<exists>s''. rawmem_exec n ops (s\<lparr>xacc := a\<rparr>) = (Inr (), s'') \<and> xmem s'' = xmem s'
      \<and> (writes_acc ef \<longrightarrow> xacc s'' = xacc s')"
    if "\<not> reads_acc ef" "rawmem_exec n ops s = (Inr (), s')" for s' a
    using that split by (cases rule: rawmem_effects_cases [OF ef]) (auto simp: rawmem_exec_run)
next
  fix n and s s' :: "sandbox xstate" and ops r
  assume "sandbox_ok (xmem s)" "rawmem_exec n ops s = (r, s')"
  then show "sandbox_ok (xmem s')"
    using cells_depth_cases [of "xcells s"]
    by (auto simp: rawmem_exec_def rawmem_exec_run sandbox_ok_def split: if_splits option.splits)
next
  fix n and s :: "sandbox xstate" and ops
  assume "rawmem_effects n = None"
  then show "\<exists>e. rawmem_exec n ops s = (Inl e, s)"
    by (auto simp: rawmem_exec_def width_table_def rawmem_effects_def rawmem_effects_table_def
        Let_def throwc_def split: if_splits)
qed

lemma sandbox_ok_new [simp]: "sandbox_ok rawmem_new"
  by (simp add: sandbox_ok_def rawmem_new_def)

lemma masked_less [simp]: "unat (w AND addr_mask) < 1024"
  by (simp add: unat_masked)

lemma to_u32_small_eq_0:
  assumes "\<bar>n\<bar> < 2 ^ 31"
  shows "to_u32 n = 0 \<longleftrightarrow> n = 0"
proof
  assume "to_u32 n = 0"
  then have "(2 :: int) ^ 32 dvd n"
    by (simp add: to_u32_def word_of_int_eq_0_iff)
  with assms show "n = 0" by (auto simp: dvd_def)
qed (simp add: to_u32_def)

lemma byte_diff_less: "\<bar>uint (x :: u8) - uint (y :: u8)\<bar> < 2 ^ 31"
proof -
  have "0 \<le> uint z \<and> uint z < 256" for z :: u8
    using uint_lt2p [of z] by simp
  from this [of x] this [of y] have "\<bar>uint x - uint y\<bar> < 256" by linarith
  then show ?thesis by simp
qed

text \<open>
  A load of width \<open>w\<close> (1, 2 or 4 bytes) at an address returns exactly the low \<open>8 w\<close>
  bits of what a store of that width wrote there, whatever the two low address bits are;
  a load whose aligned window does not meet the store's is not affected; the window is
  inside the sandbox.
\<close>
theorem rawmem_store_load:
  assumes "access_width w" "sandbox_ok m"
  shows "mem_load (mem_store m a v w) a w = v AND mask (8 * w)
    \<and> (\<forall>b u. access_width u \<longrightarrow>
          mem_at b u + u \<le> mem_at a w \<or> mem_at a w + w \<le> mem_at b u \<longrightarrow>
          mem_load (mem_store m a v w) b u = mem_load m b u)
    \<and> mem_at a w + w \<le> rawmem_bytes"
proof (intro conjI allI impI)
  show "mem_load (mem_store m a v w) a w = v AND mask (8 * w)"
    by (rule mem_load_store [OF assms])
  show "mem_at a w + w \<le> rawmem_bytes"
    using mem_at_bound [OF assms(1)] by (simp add: rawmem_bytes_def)
next
  fix b :: u32 and u
  assume u: "access_width u" and sep: "mem_at b u + u \<le> mem_at a w \<or> mem_at a w + w \<le> mem_at b u"
  have "byte_at (mem_store m a v w) (mem_at b u + k) = byte_at m (mem_at b u + k)" if "k < u" for k
    using that sep mem_at_bound(1) [OF u, of b] nth_mem_store [OF assms, of "mem_at b u + k" a v] assms(2)
    by (auto simp: sandbox_ok_def rawmem_bytes_def)
  then show "mem_load (mem_store m a v w) b u = mem_load m b u"
    unfolding mem_load_def Let_def by (intro foldl_cong) auto
qed

theorem rawmem_store_load_witness:
  "mem_load (mem_store rawmem_new 0x42 0x01020304 2) 0x42 2 = 0x0304"
  using rawmem_store_load [of 2 rawmem_new "0x42" "0x01020304"]
  by (simp add: access_width_def mask_eq_exp_minus_1)

text \<open>
  \<open>MEMMOVE\<close> pops its three operands, leaves \<open>acc\<close> alone and is the forward byte copy
  for every overlap: byte \<open>dst + k\<close> of the result is the byte its source address held when the
  loop reached it, that is the already copied byte where the source lies in the part written so
  far and the original byte elsewhere; nothing outside the destination range changes.
\<close>
theorem rawmem_memmove:
  assumes "sandbox_ok (xmem s)" "xcells s = e # d # src # rest"
  defines "lo \<equiv> unat (d AND addr_mask)" and "hi \<equiv> unat (e AND addr_mask)"
    and "from \<equiv> unat (src AND addr_mask)"
  shows "\<exists>m. rawmem_exec ''MEMMOVE'' ops s = (Inr (), s\<lparr>xcells := rest, xmem := m\<rparr>)
    \<and> (\<forall>k. lo + k < hi \<longrightarrow> m ! (lo + k) =
          (let a = (from + k) mod 1024
           in if lo \<le> a \<and> a < lo + k then m ! a else xmem s ! a))
    \<and> (\<forall>j. j < lo \<or> hi \<le> j \<longrightarrow> m ! j = xmem s ! j)"
proof -
  define m where "m = move_bytes lo hi from (xmem s)"
  have len: "length (xmem s) = 1024"
    using assms(1) by (simp add: sandbox_ok_def rawmem_bytes_def)
  have "rawmem_exec ''MEMMOVE'' ops s = (Inr (), s\<lparr>xcells := rest, xmem := m\<rparr>)"
    using assms(2) by (simp add: rawmem_exec_def rawmem_exec_run m_def lo_def hi_def from_def)
  moreover have "\<forall>k. lo + k < hi \<longrightarrow> m ! (lo + k) =
      (let a = (from + k) mod 1024 in if lo \<le> a \<and> a < lo + k then m ! a else xmem s ! a)"
    unfolding m_def using len by (intro allI impI move_bytes_inside) (simp_all add: hi_def from_def less_imp_le)
  moreover have "\<forall>j. j < lo \<or> hi \<le> j \<longrightarrow> m ! j = xmem s ! j"
    unfolding m_def by (blast intro: move_bytes_outside)
  ultimately show ?thesis by blast
qed

theorem rawmem_memmove_witness:
  "\<exists>m. rawmem_exec ''MEMMOVE'' [] \<lparr>xacc = 7, xcells = [0x1a, 0x12, 0x10], xmem = rawmem_new[16 := 5, 17 := 6]\<rparr>
      = (Inr (), \<lparr>xacc = 7, xcells = [], xmem = m\<rparr>) \<and> m ! 0x14 = m ! 0x12 \<and> m ! 0x12 = 5"
proof -
  have 1: "sandbox_ok (xmem \<lparr>xacc = 7, xcells = [0x1a, 0x12, 0x10], xmem = rawmem_new[16 := 5, 17 := 6]\<rparr>)"
    by (simp add: sandbox_ok_def rawmem_new_def)
  obtain m where m: "rawmem_exec ''MEMMOVE'' [] \<lparr>xacc = 7, xcells = [0x1a, 0x12, 0x10], xmem = rawmem_new[16 := 5, 17 := 6]\<rparr>
      = (Inr (), \<lparr>xacc = 7, xcells = [], xmem = m\<rparr>)"
    and k: "\<And>k. k < 8 \<Longrightarrow> m ! (18 + k) = (if 2 \<le> k then m ! (16 + k) else rawmem_new[16 := 5, 17 := 6] ! (16 + k))"
    using rawmem_memmove [OF 1, of "0x1a" "0x12" "0x10" "[]" "[]"] by (auto simp: unat_masked Let_def)
  from k [of 0] k [of 2] m show ?thesis
    by (auto simp: rawmem_new_def rawmem_bytes_def)
qed

text \<open>
  \<open>MEMCMP\<close> leaves 0 in \<open>acc\<close> exactly when every byte of the first range equals its
  partner, the second range wrapping at the end of the sandbox; it pops three operands and
  does not touch the sandbox.
\<close>
theorem rawmem_memcmp:
  assumes "sandbox_ok (xmem s)" "xcells s = b # e # a # rest"
  shows "\<exists>r. rawmem_exec ''MEMCMP'' ops s = (Inr (), s\<lparr>xcells := rest, xacc := r\<rparr>)
    \<and> (r = 0 \<longleftrightarrow>
        (\<forall>k. unat (a AND addr_mask) + k < unat (e AND addr_mask) \<longrightarrow>
           xmem s ! (unat (a AND addr_mask) + k) = xmem s ! ((unat (b AND addr_mask) + k) mod 1024)))"
proof -
  define A where "A = unat (a AND addr_mask)"
  define E where "E = unat (e AND addr_mask)"
  define B where "B = unat (b AND addr_mask)"
  define n where "n = cmp_bytes A E B (xmem s)"
  have run: "rawmem_exec ''MEMCMP'' ops s = (Inr (), s\<lparr>xcells := rest, xacc := to_u32 n\<rparr>)"
    using assms(2) by (simp add: rawmem_exec_def rawmem_exec_run n_def A_def B_def E_def)
  have len: "length (xmem s) = 1024"
    using assms(1) by (simp add: sandbox_ok_def rawmem_bytes_def)
  have "E \<le> 1024" "B < 1024" by (simp_all add: E_def B_def less_imp_le)
  note diff = cmp_bytes_first_diff [OF len this, of A, folded n_def]
  have eq0: "n = 0 \<longleftrightarrow> (\<forall>k. A + k < E \<longrightarrow> xmem s ! (A + k) = xmem s ! ((B + k) mod 1024))"
    using diff by (auto simp flip: word_uint_eq_iff)
  have "\<bar>n\<bar> < 2 ^ 31"
    using diff byte_diff_less by auto
  with run eq0 show ?thesis by (auto simp: to_u32_small_eq_0 A_def B_def E_def)
qed

theorem rawmem_memcmp_witness:
  "\<exists>s r. xcells s = [0x3ff, 2, 0] \<and> rawmem_exec ''MEMCMP'' [] s = (Inr (), s\<lparr>xcells := [], xacc := r\<rparr>) \<and> r = 0"
proof -
  let ?s = "\<lparr>xacc = 7, xcells = [0x3ff, 2, 0], xmem = rawmem_new\<rparr>"
  have "xmem ?s ! ((1023 + k) mod 1024) = 0" for k
    by (simp add: rawmem_new_def rawmem_bytes_def)
  moreover have "k < 2 \<Longrightarrow> rawmem_new ! k = 0" for k
    by (simp add: rawmem_new_def rawmem_bytes_def)
  ultimately show ?thesis
    using rawmem_memcmp [of ?s "0x3ff" 2 0 "[]" "[]"] by (intro exI [of _ ?s]) (auto simp: unat_masked)
qed

text \<open>The slice a pair of masked endpoints names.\<close>

definition slice_of :: "sandbox \<Rightarrow> u32 \<Rightarrow> u32 \<Rightarrow> u8 list" where
  "slice_of m lo hi = take (unat (hi AND addr_mask) - unat (lo AND addr_mask)) (drop (unat (lo AND addr_mask)) m)"

definition slice_cmp_value :: "sandbox \<Rightarrow> u32 \<Rightarrow> u32 \<Rightarrow> u32 \<Rightarrow> u32 \<Rightarrow> int" where
  "slice_cmp_value m alo ahi blo bhi =
     (let la = unat (ahi AND addr_mask) - unat (alo AND addr_mask);
          lb = unat (bhi AND addr_mask) - unat (blo AND addr_mask)
      in cmp_slices 0 (min la lb) (unat (alo AND addr_mask)) (unat (blo AND addr_mask)) (int la - int lb) m)"

lemma exec_slicecmp_value:
  assumes "xcells s = bhi # blo # ahi # alo # rest"
  shows "rawmem_exec ''SLICECMP'' ops s =
    (Inr (), s\<lparr>xcells := rest, xacc := to_u32 (slice_cmp_value (xmem s) alo ahi blo bhi)\<rparr>)"
proof -
  have "(if h > l then h - l else 0) = h - l" for h l :: nat by simp
  with assms show ?thesis
    by (simp add: rawmem_exec_def rawmem_exec_run slice_cmp_value_def del: if_cancel)
qed

lemma slice_cmp_value_swap:
  assumes "sandbox_ok m"
  shows "slice_cmp_value m blo bhi alo ahi = - slice_cmp_value m alo ahi blo bhi"
proof -
  define la where "la = unat (ahi AND addr_mask) - unat (alo AND addr_mask)"
  define lb where "lb = unat (bhi AND addr_mask) - unat (blo AND addr_mask)"
  have "unat (alo AND addr_mask) + j < length m \<and> unat (blo AND addr_mask) + j < length m" if "j < min la lb" for j
  proof -
    have "length m = 1024" using assms by (simp add: sandbox_ok_def rawmem_bytes_def)
    moreover have "j < la" "j < lb" using that by simp_all
    ultimately show ?thesis
      using masked_less [of ahi] masked_less [of bhi] unfolding la_def lb_def by linarith
  qed
  from cmp_slices_swap [where n = "min la lb", OF this, where i = 0 and res = "int la - int lb"] show ?thesis
    by (simp add: slice_cmp_value_def Let_def min.commute la_def [symmetric] lb_def [symmetric])
qed

lemma to_u32_minus: "to_u32 (- n) = - to_u32 n"
  by (simp add: to_u32_def)

lemma slice_of_nth:
  assumes "sandbox_ok m" "k < length (slice_of m lo hi)"
  shows "slice_of m lo hi ! k = m ! (unat (lo AND addr_mask) + k)"
  using assms by (auto simp: slice_of_def sandbox_ok_def rawmem_bytes_def)

lemma length_slice_of:
  assumes "sandbox_ok m"
  shows "length (slice_of m lo hi) = unat (hi AND addr_mask) - unat (lo AND addr_mask)"
proof -
  have "length m = 1024" using assms by (simp add: sandbox_ok_def rawmem_bytes_def)
  then show ?thesis
    using masked_less [of hi] unfolding slice_of_def length_take length_drop by linarith
qed

lemma slice_cmp_value_eq_0:
  assumes "sandbox_ok m"
  shows "slice_cmp_value m alo ahi blo bhi = 0 \<longleftrightarrow> slice_of m alo ahi = slice_of m blo bhi"
    and "\<bar>slice_cmp_value m alo ahi blo bhi\<bar> < 2 ^ 31"
proof -
  define A where "A = slice_of m alo ahi"
  define B where "B = slice_of m blo bhi"
  define v where "v = slice_cmp_value m alo ahi blo bhi"
  let ?n = "min (length A) (length B)"
  have nth: "m ! (unat (alo AND addr_mask) + k) = A ! k" "m ! (unat (blo AND addr_mask) + k) = B ! k"
    if "k < ?n" for k
    using that slice_of_nth [OF assms] by (simp_all add: A_def B_def)
  have len: "length m = 1024" using assms by (simp add: sandbox_ok_def rawmem_bytes_def)
  have bound: "unat (alo AND addr_mask) + j < length m \<and> unat (blo AND addr_mask) + j < length m" if "j < ?n" for j
  proof -
    have "j < length A" "j < length B" using that by simp_all
    then show ?thesis
      using masked_less [of ahi] masked_less [of bhi] len
      unfolding A_def B_def length_slice_of [OF assms] by linarith
  qed
  have vdef: "v = cmp_slices 0 ?n (unat (alo AND addr_mask)) (unat (blo AND addr_mask)) (int (length A) - int (length B)) m"
    by (simp add: v_def slice_cmp_value_def Let_def A_def B_def length_slice_of [OF assms])
  have diff: "(\<forall>k < ?n. A ! k = B ! k) \<and> v = int (length A) - int (length B)
    \<or> (\<exists>k < ?n. A ! k \<noteq> B ! k \<and> v = uint (A ! k) - uint (B ! k))"
    using cmp_slices_first_diff [where n = ?n, OF bound, where i = 0 and res = "int (length A) - int (length B)"]
    unfolding vdef [symmetric] by (auto simp: nth)
  then show "v = 0 \<longleftrightarrow> A = B" unfolding A_def [symmetric]
    by (auto simp: list_eq_iff_nth_eq simp flip: word_uint_eq_iff)
  have "length A < 1024" "length B < 1024"
    using masked_less [of ahi] masked_less [of bhi] unfolding A_def B_def length_slice_of [OF assms] by linarith+
  then show "\<bar>v\<bar> < 2 ^ 31"
    using diff byte_diff_less by fastforce
qed

text \<open>
  \<open>SLICECMP\<close> leaves 0 in \<open>acc\<close> exactly when the two slices are the same bytes, length
  included, and exchanging the two slices negates the answer.
\<close>
theorem rawmem_slicecmp:
  assumes "sandbox_ok (xmem s)" "xcells s = bhi # blo # ahi # alo # rest"
  shows "\<exists>r. rawmem_exec ''SLICECMP'' ops s = (Inr (), s\<lparr>xcells := rest, xacc := r\<rparr>)
    \<and> (r = 0 \<longleftrightarrow> slice_of (xmem s) alo ahi = slice_of (xmem s) blo bhi)
    \<and> rawmem_exec ''SLICECMP'' ops (s\<lparr>xcells := ahi # alo # bhi # blo # rest\<rparr>)
        = (Inr (), s\<lparr>xcells := rest, xacc := - r\<rparr>)"
proof (intro exI conjI)
  let ?v = "slice_cmp_value (xmem s) alo ahi blo bhi"
  show "rawmem_exec ''SLICECMP'' ops s = (Inr (), s\<lparr>xcells := rest, xacc := to_u32 ?v\<rparr>)"
    by (rule exec_slicecmp_value [OF assms(2)])
  show "to_u32 ?v = 0 \<longleftrightarrow> slice_of (xmem s) alo ahi = slice_of (xmem s) blo bhi"
    using slice_cmp_value_eq_0 [OF assms(1)] by (simp add: to_u32_small_eq_0)
  show "rawmem_exec ''SLICECMP'' ops (s\<lparr>xcells := ahi # alo # bhi # blo # rest\<rparr>)
      = (Inr (), s\<lparr>xcells := rest, xacc := - to_u32 ?v\<rparr>)"
    using exec_slicecmp_value [of "s\<lparr>xcells := ahi # alo # bhi # blo # rest\<rparr>" ahi alo bhi blo rest ops]
    by (simp add: to_u32_minus slice_cmp_value_swap [OF assms(1), of blo bhi alo ahi])
qed

theorem rawmem_slicecmp_witness:
  "\<exists>r. rawmem_exec ''SLICECMP'' [] \<lparr>xacc = 7, xcells = [0x93, 0x90, 0x84, 0x80], xmem = rawmem_new\<rparr>
      = (Inr (), \<lparr>xacc = r, xcells = [], xmem = rawmem_new\<rparr>) \<and> r \<noteq> 0"
proof -
  have "length (slice_of rawmem_new 0x80 0x84) \<noteq> length (slice_of rawmem_new 0x90 0x93)"
    by (simp add: length_slice_of unat_masked)
  then have "slice_of rawmem_new 0x80 0x84 \<noteq> slice_of rawmem_new 0x90 0x93" by metis
  then show ?thesis
    using rawmem_slicecmp [of "\<lparr>xacc = 7, xcells = [0x93, 0x90, 0x84, 0x80], xmem = rawmem_new\<rparr>"
      "0x93" "0x90" "0x84" "0x80" "[]" "[]"] by auto
qed


text \<open>
  Decoding what was encoded gives the opcode back and the offset after it, wherever the
  byte stands; every opcode is one byte in extension space, 128 or above.
\<close>
theorem rawmem_codec_roundtrip:
  assumes "rawmem_encode n = Inr bs"
  shows "rawmem_decode (pre @ bs @ post) (length pre) = Inr (n, length pre + length bs)
    \<and> (\<forall>b \<in> set bs. 128 \<le> b \<and> b < 256)"
proof -
  obtain b where b: "map_of rawmem_opcodes n = Some b" "bs = [b]"
    using assms by (auto simp: rawmem_encode_def split: option.splits)
  from b(1) have "by_byte b = Some n \<and> 128 \<le> b \<and> b < 256"
    by (auto simp: rawmem_opcodes_def by_byte_def split: if_splits)
  with b(2) show ?thesis
    by (simp add: rawmem_decode_def)
qed

theorem rawmem_codec_roundtrip_witness:
  "rawmem_decode [1, 0x86, 9] 1 = Inr (''MEMMOVE'', 2)"
proof -
  have "rawmem_encode ''MEMMOVE'' = Inr [0x86]"
    by (simp add: rawmem_encode_def rawmem_opcodes_def)
  from rawmem_codec_roundtrip [OF this, of "[1]" "[9]"] show ?thesis by simp
qed

end
