(* ===== verification/Ast.thy ===== *)
theory Ast
  imports Prelude
begin

section \<open>The DSL's syntax tree\<close>

text \<open>
  The tree every part of the generator and the evaluator passes around. Its type is
  mog-core's; the constructors and fields here are the ones the code under \<^verbatim>\<open>fuzz/ts\<close> builds
  and matches on (\<^verbatim>\<open>eval/ast-eval.ts\<close>, \<^verbatim>\<open>gen/walk.ts\<close>, \<^verbatim>\<open>gen/mutate.ts\<close>), under the names
  it uses. An operator is a constructor instead of its spelling. Three fields are left out
  because nothing reads them as part of the tree: a literal's \<^verbatim>\<open>raw\<close> text, the \<^verbatim>\<open>signed\<close>
  stamp (both dropped by \<^verbatim>\<open>gen/round_trip.ts\<close>'s \<^verbatim>\<open>normalize\<close>) and the constant
  \<^verbatim>\<open>prefix: true\<close> of a unary operator. The callee of a call and the left of an assignment
  are bare identifiers by grammar, so they are strings.
\<close>

datatype prim_type = U32 | U16 | U8 | I32 | I16 | I8

datatype bin_op =
    Plus | Minus | Times | Slash | Percent
  | Bar | Caret | Amp
  | EqEq | NotEq | Less | LessEq | Greater | GreaterEq
  | Shl | Shr

datatype log_op = AndAnd | OrOr

datatype un_op = Negate | Tilde | Bang | UPlus

datatype upd_op = Incr | Decr

text \<open>\<^verbatim>\<open>=\<close>, or an operator followed by \<^verbatim>\<open>=\<close>.\<close>

datatype assign_op = Assign | Compound bin_op

datatype expr =
    Literal int
  | Identifier string
  | CastExpression prim_type expr
  | UnaryExpression un_op expr
  | BinaryExpression bin_op expr expr
  | LogicalExpression log_op expr expr
  | ConditionalExpression expr expr expr
  | AssignmentExpression assign_op string expr
  | UpdateExpression upd_op bool expr
  | CallExpression string "expr list"

text \<open>\<^verbatim>\<open>VariableDeclarator\<close>: type, name and initialiser.\<close>

datatype declarator = Declarator (var_type: prim_type) (decl_name: string) (decl_init: "expr option")

text \<open>The first slot of a \<^verbatim>\<open>for\<close>: a declaration or an expression.\<close>

datatype for_init = InitDecl "declarator list" | InitExpr expr

datatype stmt =
    BlockStatement "stmt list"
  | BreakStatement
  | ExpressionStatement expr
  | ReturnStatement "expr option"
  | VariableDeclaration "declarator list"
  | IfStatement expr stmt "stmt option"
  | WhileStatement expr stmt
  | DoWhileStatement stmt expr
  | ForStatement "for_init option" "expr option" "expr option" stmt
  | SwitchStatement expr "switch_case list"
and switch_case = SwitchCase (case_test: "expr option") (case_body: "stmt list")

text \<open>\<^verbatim>\<open>GenProc\<close> and \<^verbatim>\<open>GenProgram\<close> of \<^verbatim>\<open>gen/corpus.ts\<close>: entry is index 0.\<close>

record gen_proc =
  proc_args :: "string list"
  proc_body :: "stmt list"

type_synonym gen_program = "gen_proc list"

text \<open>\<^verbatim>\<open>asList\<close>, which several files restate: a control body as a statement list.\<close>

fun as_list :: "stmt \<Rightarrow> stmt list" where
  "as_list (BlockStatement b) = b"
| "as_list s = [s]"

lemma size_as_list [termination_simp]: "size_list size (as_list s) \<le> Suc (size s)"
  by (cases s) simp_all

lemma size_as_list_twice [termination_simp]:
  "2 * size b + 2 \<le> n \<Longrightarrow> 2 * size_list size (as_list b) < Suc n"
  using size_as_list [of b] by linarith

lemma as_list_member_size [termination_simp]: "x \<in> set (as_list s) \<Longrightarrow> size x < Suc (size s)"
proof (cases s)
  case (BlockStatement b)
  assume "x \<in> set (as_list s)"
  with BlockStatement have "size x \<le> size_list size b"
    by (simp add: size_list_estimation')
  with BlockStatement show ?thesis by simp
qed simp_all

subsection \<open>Procedure names\<close>

text \<open>
  The callee regex \<^verbatim>\<open>/^p([0-9]+)$/\<close> with \<^verbatim>\<open>Number(match[1])\<close>: \<open>None\<close> where the name does
  not match, the index otherwise (leading zeros are read, as \<^verbatim>\<open>Number\<close> does).
\<close>

definition is_digit :: "char \<Rightarrow> bool" where
  "is_digit c \<longleftrightarrow> c \<in> set ''0123456789''"

definition digit_val :: "char \<Rightarrow> nat" where
  "digit_val c = of_char c - 48"

fun read_digits :: "nat \<Rightarrow> string \<Rightarrow> nat option" where
  "read_digits acc [] = Some acc"
| "read_digits acc (c # cs) =
     (if is_digit c then read_digits (10 * acc + digit_val c) cs else None)"

fun proc_index :: "string \<Rightarrow> nat option" where
  "proc_index (c # d # ds) = (if c = CHR ''p'' then read_digits 0 (d # ds) else None)"
| "proc_index _ = None"

text \<open>\<^verbatim>\<open>String(n)\<close> for a natural number, and \<^verbatim>\<open>procName\<close>.\<close>

definition digit_char :: "nat \<Rightarrow> char" where
  "digit_char d = char_of (48 + d)"

fun show_nat :: "nat \<Rightarrow> string" where
  "show_nat n = (if n < 10 then [digit_char n] else show_nat (n div 10) @ [digit_char (n mod 10)])"

declare show_nat.simps [simp del]

definition proc_name :: "nat \<Rightarrow> string" where
  "proc_name i = CHR ''p'' # show_nat i"

lemma digit_char_props: "d < 10 \<Longrightarrow> is_digit (digit_char d) \<and> digit_val (digit_char d) = d"
proof -
  have "\<forall>d \<in> set [0..<10]. is_digit (digit_char d) \<and> digit_val (digit_char d) = d"
    by code_simp
  then show "d < 10 \<Longrightarrow> ?thesis" by simp
qed

lemma read_digits_append:
  "read_digits acc (xs @ ys) = Option.bind (read_digits acc xs) (\<lambda>a. read_digits a ys)"
  by (induction acc xs rule: read_digits.induct) auto

lemma read_digits_show: "read_digits 0 (show_nat n) = Some n"
proof (induction n rule: show_nat.induct)
  case (1 n)
  show ?case
  proof (cases "n < 10")
    case True
    then show ?thesis by (subst show_nat.simps) (simp add: digit_char_props)
  next
    case False
    with 1 have "read_digits 0 (show_nat (n div 10)) = Some (n div 10)"
      by simp
    with False show ?thesis
      by (subst show_nat.simps) (simp add: read_digits_append digit_char_props)
  qed
qed

lemma show_nat_nonempty: "show_nat n \<noteq> []"
  by (subst show_nat.simps) simp

text \<open>The regex reads back the index that \<^verbatim>\<open>procName\<close> prints.\<close>

lemma proc_index_name [simp]: "proc_index (proc_name i) = Some i"
proof -
  obtain d ds where "show_nat i = d # ds"
    using show_nat_nonempty by (cases "show_nat i") auto
  with read_digits_show [of i] show ?thesis
    by (simp add: proc_name_def)
qed

lemma proc_name_inj: "proc_name i = proc_name j \<longleftrightarrow> i = j"
  by (metis option.inject proc_index_name)

end
