(* ===== verification/Eval_Values.thy ===== *)
theory Eval_Values
  imports Ast
begin

section \<open>Values, types and scopes of the evaluator (\<^verbatim>\<open>fuzz/ts/eval/ast-eval.ts\<close>)\<close>

text \<open>
  The part of the evaluator that does not run anything: the promotion rule, narrowing, the
  operators on values with their signedness, and the chain of scopes. A value is a 32-bit word
  with the type it carries. The lemmas: a stored value is always in the range of its type, and
  narrowing is idempotent; the operators' results are those of the mathematical operation
  modulo \<open>2 ^ 32\<close> on the operands read by the type rule.
\<close>

subsection \<open>The type rule\<close>

definition promote :: "prim_type \<Rightarrow> prim_type" where
  "promote t = (if t = U32 then U32 else I32)"

definition usual :: "prim_type \<Rightarrow> prim_type \<Rightarrow> prim_type" where
  "usual a b = (if promote a = U32 \<or> promote b = U32 then U32 else I32)"

definition comparison :: "bin_op \<Rightarrow> bool" where
  "comparison op \<longleftrightarrow> op \<in> {EqEq, NotEq, Less, LessEq, Greater, GreaterEq}"

definition shift_op :: "bin_op \<Rightarrow> bool" where
  "shift_op op \<longleftrightarrow> op = Shl \<or> op = Shr"

fun narrow :: "u32 \<Rightarrow> prim_type \<Rightarrow> u32" where
  "narrow v U8 = v AND 0xff"
| "narrow v U16 = v AND 0xffff"
| "narrow v I8 = signed_drop_bit 24 (push_bit 24 v)"
| "narrow v I16 = signed_drop_bit 16 (push_bit 16 v)"
| "narrow v I32 = v"
| "narrow v U32 = v"

definition literal_type :: "int \<Rightarrow> prim_type" where
  "literal_type v = (if v \<le> 0x7fffffff then I32 else U32)"

subsection \<open>Outcomes and faults\<close>

text \<open>\<^verbatim>\<open>Unspecified\<close> carries why: a shift amount, or an entry that runs off its end.\<close>

datatype unspec = ShiftBy u32 | OffTheEnd

text \<open>
  What a run can throw: the three exceptions \<^verbatim>\<open>evaluate\<close> catches, any other \<^verbatim>\<open>Error\<close>, and
  \<open>OutOfFuel\<close>, which is the model's own and is proved never to happen.
\<close>

datatype fault =
    Trapped u32
  | Unspecified unspec
  | StepLimit
  | JsError string
  | OutOfFuel

datatype outcome =
    OReturn u32
  | OTrap u32
  | OUnspecified unspec
  | OStepLimit

subsection \<open>Binary operators\<close>

record val =
  val_value :: u32
  val_type :: prim_type

definition mk_val :: "u32 \<Rightarrow> prim_type \<Rightarrow> val" where
  "mk_val v t = \<lparr>val_value = v, val_type = t\<rparr>"

lemma mk_val_sel [simp]: "val_value (mk_val v t) = v" "val_type (mk_val v t) = t"
  by (simp_all add: mk_val_def)

definition signed_op :: "bin_op \<Rightarrow> prim_type \<Rightarrow> prim_type \<Rightarrow> bool" where
  "signed_op op tleft tright =
     (if shift_op op then promote tleft = I32 else promote tleft = I32 \<and> promote tright = I32)"

definition result_type :: "bin_op \<Rightarrow> prim_type \<Rightarrow> prim_type \<Rightarrow> prim_type" where
  "result_type op tleft tright =
     (if comparison op then I32 else if shift_op op then promote tleft else usual tleft tright)"

definition binary :: "bin_op \<Rightarrow> val \<Rightarrow> val \<Rightarrow> fault + val" where
  "binary op left right =
     (let a = val_value left; b = val_value right;
          signed = signed_op op (val_type left) (val_type right);
          of_v = (\<lambda>v. Inr (mk_val v (result_type op (val_type left) (val_type right))))
      in case op of
           Plus \<Rightarrow> of_v (a + b)
         | Minus \<Rightarrow> of_v (a - b)
         | Times \<Rightarrow> of_v (a * b)
         | Amp \<Rightarrow> of_v (a AND b)
         | Bar \<Rightarrow> of_v (a OR b)
         | Caret \<Rightarrow> of_v (a XOR b)
         | Shl \<Rightarrow> if b > 31 then Inl (Unspecified (ShiftBy b)) else of_v (push_bit (unat b) a)
         | Shr \<Rightarrow> if b > 31 then Inl (Unspecified (ShiftBy b))
                  else of_v (if signed then signed_drop_bit (unat b) a else drop_bit (unat b) a)
         | EqEq \<Rightarrow> of_v (bool_u32 (a = b))
         | NotEq \<Rightarrow> of_v (bool_u32 (a \<noteq> b))
         | Less \<Rightarrow> of_v (bool_u32 (if signed then a <s b else a < b))
         | LessEq \<Rightarrow> of_v (bool_u32 (if signed then a \<le>s b else a \<le> b))
         | Greater \<Rightarrow> of_v (bool_u32 (if signed then b <s a else a > b))
         | GreaterEq \<Rightarrow> of_v (bool_u32 (if signed then b \<le>s a else a \<ge> b))
         | _ \<Rightarrow> Inl (JsError ''no such binary operator''))"

fun unary :: "un_op \<Rightarrow> val \<Rightarrow> val" where
  "unary Negate x = mk_val (- val_value x) (promote (val_type x))"
| "unary Tilde x = mk_val (NOT (val_value x)) (promote (val_type x))"
| "unary Bang x = mk_val (bool_u32 (val_value x = 0)) I32"
| "unary UPlus x = mk_val (val_value x) (promote (val_type x))"

subsection \<open>The pure builtins\<close>

text \<open>\<^verbatim>\<open>Math.clz32\<close>: zeros above the highest set bit, 32 for zero.\<close>

definition clz32 :: "u32 \<Rightarrow> u32" where
  "clz32 x = of_nat (length (takeWhile (\<lambda>i. \<not> bit x i) (rev [0..<32])))"

definition revbits :: "u32 \<Rightarrow> u32" where
  "revbits x0 =
     (let x1 = push_bit 1 (x0 AND 0x55555555) OR (drop_bit 1 x0 AND 0x55555555);
          x2 = push_bit 2 (x1 AND 0x33333333) OR (drop_bit 2 x1 AND 0x33333333);
          x3 = push_bit 4 (x2 AND 0x0f0f0f0f) OR (drop_bit 4 x2 AND 0x0f0f0f0f);
          x4 = push_bit 8 (x3 AND 0x00ff00ff) OR (drop_bit 8 x3 AND 0x00ff00ff)
      in push_bit 16 x4 OR drop_bit 16 x4)"

subsection \<open>Scopes\<close>

record slot =
  slot_type :: prim_type
  slot_value :: u32

text \<open>
  A \<^verbatim>\<open>Scope\<close> and its parents, innermost first. The chain is used as a stack: a block makes a
  child of the scope it runs in and nobody holds on to the child afterwards, so the objects
  can be one list in the state, with the child pushed on entry and dropped on exit.
\<close>

type_synonym frame = "string \<rightharpoonup> slot"
type_synonym scope = "frame list"

fun scope_lookup :: "scope \<Rightarrow> string \<Rightarrow> slot option" where
  "scope_lookup [] n = None"
| "scope_lookup (f # fs) n = (case f n of Some s \<Rightarrow> Some s | None \<Rightarrow> scope_lookup fs n)"

fun scope_declare :: "scope \<Rightarrow> string \<Rightarrow> prim_type \<Rightarrow> u32 \<Rightarrow> scope" where
  "scope_declare [] n t v = []"
| "scope_declare (f # fs) n t v = f(n \<mapsto> \<lparr>slot_type = t, slot_value = narrow v t\<rparr>) # fs"

text \<open>The slot \<^verbatim>\<open>lookup\<close> finds gets the narrowed value, in the frame it was found in.\<close>

fun scope_assign :: "scope \<Rightarrow> string \<Rightarrow> u32 \<Rightarrow> scope" where
  "scope_assign [] n v = []"
| "scope_assign (f # fs) n v =
     (case f n of
        Some s \<Rightarrow> f(n \<mapsto> s\<lparr>slot_value := narrow v (slot_type s)\<rparr>) # fs
      | None \<Rightarrow> f # scope_assign fs n v)"

subsection \<open>Narrowing\<close>

fun in_range :: "prim_type \<Rightarrow> u32 \<Rightarrow> bool" where
  "in_range U8 w \<longleftrightarrow> uint w < 2 ^ 8"
| "in_range U16 w \<longleftrightarrow> uint w < 2 ^ 16"
| "in_range I8 w \<longleftrightarrow> - (2 ^ 7) \<le> sint w \<and> sint w < 2 ^ 7"
| "in_range I16 w \<longleftrightarrow> - (2 ^ 15) \<le> sint w \<and> sint w < 2 ^ 15"
| "in_range I32 w \<longleftrightarrow> True"
| "in_range U32 w \<longleftrightarrow> True"

lemma uint_and_mask:
  assumes "n \<le> 32" shows "uint ((w :: u32) AND mask n) = uint w mod 2 ^ n"
proof -
  have "bit (uint (w AND mask n)) k = bit (take_bit n (uint w)) k" for k
    using assms by (auto simp: bit_uint_iff bit_and_iff bit_mask_iff bit_take_bit_iff dest: bit_imp_le_length)
  then have "uint (w AND mask n) = take_bit n (uint w)" by (rule bit_eqI)
  then show ?thesis by (simp only: take_bit_eq_mod)
qed

lemma sint_sign_extend:
  assumes "n < 32" "0 < n"
  shows "sint (signed_drop_bit (32 - n) (push_bit (32 - n) (w :: u32))) = signed_take_bit (n - 1) (sint w)"
proof (rule bit_eqI)
  fix k
  show "bit (sint (signed_drop_bit (32 - n) (push_bit (32 - n) w))) k = bit (signed_take_bit (n - 1) (sint w)) k"
    using assms linorder_less_linear [of k "n - 1"]
    by (elim disjE) (auto simp: bit_sint_iff bit_signed_drop_bit_iff bit_push_bit_iff bit_signed_take_bit_iff min_def
        split: if_splits dest: bit_imp_le_length)
qed

lemma narrow_in_range: "in_range t (narrow v t)"
proof (cases t)
  case U8
  have m: "(0xff :: u32) = mask 8" by (simp add: mask_eq_exp_minus_1)
  show ?thesis unfolding U8 narrow.simps in_range.simps m by (subst uint_and_mask) simp_all
next
  case U16
  have m: "(0xffff :: u32) = mask 16" by (simp add: mask_eq_exp_minus_1)
  show ?thesis unfolding U16 narrow.simps in_range.simps m by (subst uint_and_mask) simp_all
next
  case I8
  show ?thesis
    using sint_sign_extend [of 8 v] signed_take_bit_int_less_exp [of 7 "sint v"] signed_take_bit_int_greater_eq_minus_exp [of 7 "sint v"]
    by (simp add: I8)
next
  case I16
  show ?thesis
    using sint_sign_extend [of 16 v] signed_take_bit_int_less_exp [of 15 "sint v"] signed_take_bit_int_greater_eq_minus_exp [of 15 "sint v"]
    by (simp add: I16)
qed simp_all

lemma narrow_id: "in_range t v \<Longrightarrow> narrow v t = v"
proof (cases t)
  case U8
  assume "in_range t v"
  have m: "(0xff :: u32) = mask 8" by (simp add: mask_eq_exp_minus_1)
  have "uint (v AND mask 8) = uint v"
    using \<open>in_range t v\<close> U8 by (subst uint_and_mask) simp_all
  then show ?thesis by (simp add: U8 m word_uint_eq_iff)
next
  case U16
  assume "in_range t v"
  have m: "(0xffff :: u32) = mask 16" by (simp add: mask_eq_exp_minus_1)
  have "uint (v AND mask 16) = uint v"
    using \<open>in_range t v\<close> U16 by (subst uint_and_mask) simp_all
  then show ?thesis by (simp add: U16 m word_uint_eq_iff)
next
  case I8
  assume "in_range t v"
  then have "sint (narrow v I8) = sint v"
    using sint_sign_extend [of 8 v] by (simp add: I8 signed_take_bit_int_eq_self)
  then show ?thesis by (simp add: I8 signed_word_eqI)
next
  case I16
  assume "in_range t v"
  then have "sint (narrow v I16) = sint v"
    using sint_sign_extend [of 16 v] by (simp add: I16 signed_take_bit_int_eq_self)
  then show ?thesis by (simp add: I16 signed_word_eqI)
qed simp_all

lemma narrow_idem [simp]: "narrow (narrow v t) t = narrow v t"
  by (rule narrow_id [OF narrow_in_range])

subsection \<open>Builtins\<close>

lemma bit_const_32:
  "n < 32 \<Longrightarrow> bit (0x55555555 :: u32) n \<longleftrightarrow> n mod 2 = 0"
  "n < 32 \<Longrightarrow> bit (0x33333333 :: u32) n \<longleftrightarrow> n mod 4 < 2"
  "n < 32 \<Longrightarrow> bit (0x0f0f0f0f :: u32) n \<longleftrightarrow> n mod 8 < 4"
  "n < 32 \<Longrightarrow> bit (0x00ff00ff :: u32) n \<longleftrightarrow> n mod 16 < 8"
proof -
  have "\<forall>n \<in> set [0..<32]. (bit (0x55555555 :: u32) n \<longleftrightarrow> n mod 2 = 0)
    \<and> (bit (0x33333333 :: u32) n \<longleftrightarrow> n mod 4 < 2) \<and> (bit (0x0f0f0f0f :: u32) n \<longleftrightarrow> n mod 8 < 4)
    \<and> (bit (0x00ff00ff :: u32) n \<longleftrightarrow> n mod 16 < 8)"
    by code_simp
  then show "n < 32 \<Longrightarrow> bit (0x55555555 :: u32) n \<longleftrightarrow> n mod 2 = 0"
    "n < 32 \<Longrightarrow> bit (0x33333333 :: u32) n \<longleftrightarrow> n mod 4 < 2"
    "n < 32 \<Longrightarrow> bit (0x0f0f0f0f :: u32) n \<longleftrightarrow> n mod 8 < 4"
    "n < 32 \<Longrightarrow> bit (0x00ff00ff :: u32) n \<longleftrightarrow> n mod 16 < 8" by auto
qed

text \<open>One stage of \<open>revbits\<close>: neighbouring groups of \<open>h\<close> bits change places.\<close>

lemma swap_groups:
  assumes c: "\<And>n. n < 32 \<Longrightarrow> bit c n \<longleftrightarrow> n mod (2 * h) < h" and h: "2 * h dvd 32" "0 < h" and n: "n < 32"
  shows "bit (push_bit h (x AND c) OR (drop_bit h x AND c) :: u32) n
    = bit x (if n mod (2 * h) < h then n + h else n - h)"
proof -
  have fits: "n + h < 32" if "n mod (2 * h) < h"
  proof -
    obtain q where q: "32 = 2 * h * q" using h(1) by (auto simp: dvd_def)
    have "n div (2 * h) < q" using n q h(2) by (simp add: div_less_iff_less_mult mult.commute)
    then have "2 * h * Suc (n div (2 * h)) \<le> 32" unfolding q by (intro mult_le_mono2) simp
    moreover have "n = 2 * h * (n div (2 * h)) + n mod (2 * h)" by simp
    ultimately show ?thesis using that by (simp add: algebra_simps)
  qed
  have low: "h \<le> n \<and> (n - h) mod (2 * h) < h" if "\<not> n mod (2 * h) < h"
  proof -
    have d: "n = 2 * h * (n div (2 * h)) + n mod (2 * h)" by simp
    then have "n - h = (n mod (2 * h) - h) + 2 * h * (n div (2 * h))" using that by linarith
    then have "(n - h) mod (2 * h) = (n mod (2 * h) - h) mod (2 * h)"
      by (metis mod_mult_self2)
    moreover have "n mod (2 * h) < 2 * h" using h(2) by simp
    then have "n mod (2 * h) - h < h" by simp
    ultimately show ?thesis using d that by (metis le_trans linorder_not_less mod_less mod_less_eq_dividend mult_2)
  qed
  have high: "\<not> (n - h) mod (2 * h) < h \<or> n < h" if "n mod (2 * h) < h"
  proof (cases "n < h")
    case False
    define q where "q = n div (2 * h)"
    have d: "n = 2 * h * q + n mod (2 * h)" by (simp add: q_def)
    have "q \<noteq> 0" using False that d by (metis mult_0_right plus_nat.add_0)
    then obtain q' where "q = Suc q'" by (cases q) auto
    then have "n - h = (n mod (2 * h) + h) + 2 * h * q'" using d by (simp add: algebra_simps)
    then have "(n - h) mod (2 * h) = (n mod (2 * h) + h) mod (2 * h)" by (metis mod_mult_self2)
    also have "\<dots> = n mod (2 * h) + h" using that by simp
    finally show ?thesis by simp
  qed simp
  show ?thesis
    using n fits low high c
    by (auto simp: bit_or_iff bit_and_iff bit_push_bit_iff bit_drop_bit_eq add.commute not_less)
qed
 
definition group_swap :: "nat \<Rightarrow> nat \<Rightarrow> nat" where
  "group_swap h n = (if n mod (2 * h) < h then n + h else n - h)"

lemma group_swaps:
  "n < 32 \<Longrightarrow> group_swap 1 (group_swap 2 (group_swap 4 (group_swap 8 (group_swap 16 n)))) = 31 - n"
  "n < 32 \<Longrightarrow> h \<in> {2, 4, 8, 16} \<Longrightarrow> group_swap h n < 32"
proof -
  have "\<forall>n \<in> set [0..<32]. group_swap 1 (group_swap 2 (group_swap 4 (group_swap 8 (group_swap 16 n)))) = 31 - n
    \<and> group_swap 2 n < 32 \<and> group_swap 4 n < 32 \<and> group_swap 8 n < 32 \<and> group_swap 16 n < 32"
    by code_simp
  then show "n < 32 \<Longrightarrow> group_swap 1 (group_swap 2 (group_swap 4 (group_swap 8 (group_swap 16 n)))) = 31 - n"
    "n < 32 \<Longrightarrow> h \<in> {2, 4, 8, 16} \<Longrightarrow> group_swap h n < 32" by auto
qed

lemma revbits_bit: "n < 32 \<Longrightarrow> bit (revbits x) n = bit x (31 - n)"
proof -
  assume n: "n < 32"
  have st: "bit (push_bit h (y AND c) OR (drop_bit h y AND c) :: u32) k = bit y (group_swap h k)"
    if "\<And>n. n < 32 \<Longrightarrow> bit c n \<longleftrightarrow> n mod (2 * h) < h" "h \<in> {1, 2, 4, 8}" "k < 32" for y c h k
    using swap_groups [of c h k y] that by (auto simp: group_swap_def)
  note st = st [of "0x55555555" 1] st [of "0x33333333" 2] st [of "0x0f0f0f0f" 4] st [of "0x00ff00ff" 8]
  have last: "bit (push_bit 16 y OR drop_bit 16 y :: u32) n = bit y (group_swap 16 n)" for y
    using n by (auto simp: group_swap_def bit_or_iff bit_push_bit_iff bit_drop_bit_eq add.commute not_less dest: bit_imp_le_length)
  define x1 where "x1 = push_bit 1 (x AND 0x55555555) OR (drop_bit 1 x AND 0x55555555)"
  define x2 where "x2 = push_bit 2 (x1 AND 0x33333333) OR (drop_bit 2 x1 AND 0x33333333)"
  define x3 where "x3 = push_bit 4 (x2 AND 0x0f0f0f0f) OR (drop_bit 4 x2 AND 0x0f0f0f0f)"
  define x4 where "x4 = push_bit 8 (x3 AND 0x00ff00ff) OR (drop_bit 8 x3 AND 0x00ff00ff)"
  have "revbits x = push_bit 16 x4 OR drop_bit 16 x4"
    unfolding revbits_def Let_def x1_def x2_def x3_def x4_def by (rule refl)
  moreover have "bit x4 k = bit x3 (group_swap 8 k)" if "k < 32" for k
    unfolding x4_def using that by (intro st(4)) (use bit_const_32(4) in auto)
  moreover have "bit x3 k = bit x2 (group_swap 4 k)" if "k < 32" for k
    unfolding x3_def using that by (intro st(3)) (use bit_const_32(3) in auto)
  moreover have "bit x2 k = bit x1 (group_swap 2 k)" if "k < 32" for k
    unfolding x2_def using that by (intro st(2)) (use bit_const_32(2) in auto)
  moreover have "bit x1 k = bit x (group_swap 1 k)" if "k < 32" for k
    unfolding x1_def using that by (intro st(1)) (use bit_const_32(1) in auto)
  ultimately show ?thesis
    using n last [of x4] group_swaps(1) [OF n] by (simp add: group_swaps(2))
qed

lemma clz32_spec:
  "x = 0 \<and> clz32 x = 32 \<or>
   (\<exists>k < 32. bit x k \<and> (\<forall>j. k < j \<longrightarrow> \<not> bit x j) \<and> clz32 x = of_nat (31 - k))"
proof -
  define ws where "ws = takeWhile (\<lambda>i. \<not> bit x i) (rev [0..<32])"
  have nth: "i < 32 \<Longrightarrow> rev [0..<32] ! i = 31 - i" for i
    by (simp add: rev_nth)
  have le: "length ws \<le> 32"
    using length_takeWhile_le [of "\<lambda>i. \<not> bit x i" "rev [0..<32]"] by (simp add: ws_def)
  have zeros: "\<not> bit x (31 - i)" if "i < length ws" for i
    using takeWhile_nth [of i "\<lambda>i. \<not> bit x i" "rev [0..<32]"] nth_mem [OF that] that le nth [of i]
    by (auto simp: ws_def dest!: set_takeWhileD)
  have clz: "clz32 x = of_nat (length ws)" by (simp add: clz32_def ws_def)
  show ?thesis
  proof (cases "length ws < 32")
    case True
    define k where "k = 31 - length ws"
    have "bit x k"
      using nth_length_takeWhile [of "\<lambda>i. \<not> bit x i" "rev [0..<32]"] True nth [of "length ws"]
      by (simp add: ws_def k_def)
    moreover have "\<not> bit x j" if "k < j" for j
    proof (cases "j < 32")
      case j: True
      then show ?thesis using zeros [of "31 - j"] that True by (simp add: k_def)
    next
      case False
      then show ?thesis using bit_imp_le_length [of x j] by auto
    qed
    moreover have "clz32 x = of_nat (31 - k)" using True clz by (simp add: k_def)
    ultimately show ?thesis by (intro disjI2 exI [of _ k]) (auto simp: k_def)
  next
    case False
    then have l: "length ws = 32" using le by simp
    have "\<not> bit x n" if "n < 32" for n
      using zeros [of "31 - n"] that l by simp
    then have "x = 0" by (intro bit_word_eqI) simp
    then show ?thesis using clz l by simp
  qed
qed

subsection \<open>The operators against the integers\<close>

text \<open>
  The reference: an operator on integers, \<open>None\<close> for the two the language does not lower. The
  operands of the code's operator are read signed or unsigned by the type rule.
\<close>

fun math_op :: "bin_op \<Rightarrow> int \<Rightarrow> int \<Rightarrow> int option" where
  "math_op Plus a b = Some (a + b)"
| "math_op Minus a b = Some (a - b)"
| "math_op Times a b = Some (a * b)"
| "math_op Bar a b = Some (a OR b)"
| "math_op Caret a b = Some (a XOR b)"
| "math_op Amp a b = Some (a AND b)"
| "math_op EqEq a b = Some (if a = b then 1 else 0)"
| "math_op NotEq a b = Some (if a \<noteq> b then 1 else 0)"
| "math_op Less a b = Some (if a < b then 1 else 0)"
| "math_op LessEq a b = Some (if a \<le> b then 1 else 0)"
| "math_op Greater a b = Some (if a > b then 1 else 0)"
| "math_op GreaterEq a b = Some (if a \<ge> b then 1 else 0)"
| "math_op Shl a b = Some (a * 2 ^ nat b)"
| "math_op Shr a b = Some (a div 2 ^ nat b)"
| "math_op Slash a b = None"
| "math_op Percent a b = None"

definition read_as :: "bool \<Rightarrow> u32 \<Rightarrow> int" where
  "read_as sg w = (if sg then sint w else uint w)"

lemma of_read_as [simp]: "word_of_int (read_as sg w) = w"
  by (simp add: read_as_def)

lemma read_as_inj: "read_as sg a = read_as sg b \<longleftrightarrow> a = b"
  by (metis of_read_as)

lemma word_of_int_bitwise:
  "word_of_int (x AND y) = (word_of_int x AND word_of_int y :: u32)"
  "word_of_int (x OR y) = (word_of_int x OR word_of_int y :: u32)"
  "word_of_int (x XOR y) = (word_of_int x XOR word_of_int y :: u32)"
  by (rule bit_word_eqI; simp add: bit_simps)+

lemma shiftl_math: "word_of_int (read_as sg a * 2 ^ k) = (push_bit k a :: u32)"
proof -
  have "word_of_int (read_as sg a * 2 ^ k) = (a * 2 ^ k :: u32)"
    by (simp only: wi_hom_mult [symmetric] of_read_as) simp
  then show ?thesis by (simp add: push_bit_eq_mult)
qed

lemma shiftr_math:
  "word_of_int (read_as sg a div 2 ^ k) = ((if sg then signed_drop_bit k a else drop_bit k a) :: u32)"
proof (cases sg)
  case True
  have "sint (signed_drop_bit k a) = drop_bit k (sint a)" by (rule sint_signed_drop_bit_eq)
  then have "word_of_int (drop_bit k (sint a)) = signed_drop_bit k a" using of_read_as [of True "signed_drop_bit k a"] by (simp add: read_as_def)
  with True show ?thesis by (simp add: read_as_def drop_bit_eq_div)
next
  case False
  have "uint (drop_bit k a) = drop_bit k (uint a)" by (rule bit_eqI) (auto simp: bit_uint_iff bit_drop_bit_eq dest: bit_imp_le_length)
  then have "word_of_int (drop_bit k (uint a)) = drop_bit k a" by (metis word_of_int_uint)
  with False show ?thesis by (simp add: read_as_def drop_bit_eq_div)
qed

lemma compare_math:
  "(if sg then a <s b else a < b) \<longleftrightarrow> read_as sg a < read_as sg b"
  "(if sg then a \<le>s b else a \<le> b) \<longleftrightarrow> read_as sg a \<le> read_as sg b"
  by (simp_all add: read_as_def word_sless_alt word_sle_eq word_less_def word_le_def)

text \<open>
  C23. Every binary operator of the evaluator is the operator on integers, reduced modulo
  \<open>2 ^ 32\<close>: both operands are read unsigned exactly when one of them promotes to \<open>u32\<close>, a
  shift looks at its left operand's type only and at its amount unsigned, an amount above 31
  has no answer, \<open>/\<close> and \<open>%\<close> are refused, and the result has the type the rule gives.
\<close>
theorem binary_matches_integers:
  "binary op l r =
    (let sg = signed_op op (val_type l) (val_type r);
         a = read_as sg (val_value l);
         b = (if shift_op op then uint (val_value r) else read_as sg (val_value r))
     in case math_op op a b of
          None \<Rightarrow> Inl (JsError ''no such binary operator'')
        | Some n \<Rightarrow>
            if shift_op op \<and> 31 < b then Inl (Unspecified (ShiftBy (val_value r)))
            else Inr (mk_val (to_u32 n) (result_type op (val_type l) (val_type r))))"
proof -
  have gt: "val_value r > 31 \<longleftrightarrow> 31 < uint (val_value r)"
    by (simp add: word_less_def)
  have b: "bool_u32 c = word_of_int (if c then 1 else 0)" for c by simp
  have u: "nat (uint (val_value r)) = unat (val_value r)" by simp
  show ?thesis
  proof (cases "op = Shl")
    case True
    then show ?thesis
      by (simp only: binary_def Let_def math_op.simps option.case bin_op.case gt shift_op_def
          to_u32_def u shiftl_math simp_thms if_True)
  next
    case False
    then show ?thesis
      by (cases op)
        (simp_all only: binary_def Let_def math_op.simps option.case bin_op.case gt shift_op_def
          bin_op.distinct to_u32_def wi_hom_add [symmetric] wi_hom_sub [symmetric] wi_hom_mult [symmetric]
          of_read_as word_of_int_bitwise u shiftr_math b compare_math read_as_inj simp_thms if_True if_False)
  qed
qed

subsection \<open>Scopes\<close>

definition frame_ok :: "frame \<Rightarrow> bool" where
  "frame_ok f \<longleftrightarrow> (\<forall>n s. f n = Some s \<longrightarrow> in_range (slot_type s) (slot_value s))"

text \<open>Every stored value is in the range of its variable's type.\<close>

definition scope_ok :: "scope \<Rightarrow> bool" where
  "scope_ok sc \<longleftrightarrow> list_all frame_ok sc"

lemma frame_ok_empty [simp]: "frame_ok Map.empty"
  by (simp add: frame_ok_def)

lemma scope_ok_simps [simp]:
  "scope_ok []" "scope_ok (f # fs) \<longleftrightarrow> frame_ok f \<and> scope_ok fs"
  by (simp_all add: scope_ok_def)

lemma scope_lookup_ok:
  "scope_ok sc \<Longrightarrow> scope_lookup sc n = Some s \<Longrightarrow> in_range (slot_type s) (slot_value s)"
  by (induction sc) (auto simp: frame_ok_def split: option.splits)

lemma scope_declare_ok: "scope_ok sc \<Longrightarrow> scope_ok (scope_declare sc n t v)"
  by (cases sc) (auto simp: frame_ok_def narrow_in_range)

lemma scope_assign_ok: "scope_ok sc \<Longrightarrow> scope_ok (scope_assign sc n v)"
  by (induction sc) (auto simp: frame_ok_def narrow_in_range split: option.splits)

lemma scope_lookup_assign:
  "scope_lookup (scope_assign sc n v) m =
     (if m = n then map_option (\<lambda>s. s\<lparr>slot_value := narrow v (slot_type s)\<rparr>) (scope_lookup sc n)
      else scope_lookup sc m)"
  by (induction sc) (auto split: option.splits)

lemma scope_lookup_declare:
  "sc \<noteq> [] \<Longrightarrow> scope_lookup (scope_declare sc n t v) m =
     (if m = n then Some \<lparr>slot_type = t, slot_value = narrow v t\<rparr> else scope_lookup sc m)"
  by (cases sc) auto

text \<open>The names and types of every frame, which assignments leave alone.\<close>

definition frame_types :: "frame \<Rightarrow> (string \<rightharpoonup> prim_type)" where
  "frame_types f = (\<lambda>n. map_option slot_type (f n))"

definition shape :: "scope \<Rightarrow> (string \<rightharpoonup> prim_type) list" where
  "shape sc = map frame_types sc"

lemma shape_simps [simp]: "shape [] = []" "shape (f # fs) = frame_types f # shape fs"
  by (simp_all add: shape_def)

lemma shape_assign [simp]: "shape (scope_assign sc n v) = shape sc"
  by (induction sc) (auto simp: frame_types_def split: option.splits)

lemma length_shape [simp]: "length (shape sc) = length sc"
  by (simp add: shape_def)

lemma shape_lookup:
  "shape sc = shape sc' \<Longrightarrow>
    map_option slot_type (scope_lookup sc n) = map_option slot_type (scope_lookup sc' n)"
proof (induction sc arbitrary: sc')
  case Nil
  then show ?case by (cases sc') auto
next
  case (Cons f fs)
  then obtain f' fs' where sc': "sc' = f' # fs'" by (cases sc') auto
  with Cons.prems have "map_option slot_type (f n) = map_option slot_type (f' n)"
    by (auto simp: frame_types_def fun_eq_iff)
  with Cons sc' show ?case by (cases "f n"; cases "f' n") auto
qed

lemma shape_declare: "shape sc = shape sc' \<Longrightarrow> shape (scope_declare sc n t v) = shape (scope_declare sc' n t w)"
  by (cases sc; cases sc') (auto simp: frame_types_def fun_eq_iff)

definition visible :: "scope \<Rightarrow> string set" where
  "visible sc = {n. scope_lookup sc n \<noteq> None}"

lemma visible_Cons [simp]: "visible (f # fs) = dom f \<union> visible fs"
  by (auto simp: visible_def split: option.splits)

lemma visible_Nil [simp]: "visible [] = {}"
  by (simp add: visible_def)

lemma visible_declare: "sc \<noteq> [] \<Longrightarrow> visible (scope_declare sc n t v) = insert n (visible sc)"
  by (cases sc) auto

lemma visible_shape: "shape sc = shape sc' \<Longrightarrow> visible sc = visible sc'"
proof -
  assume sh: "shape sc = shape sc'"
  have "scope_lookup sc n \<noteq> None \<longleftrightarrow> scope_lookup sc' n \<noteq> None" for n
    using shape_lookup [OF sh, of n] by (cases "scope_lookup sc n"; cases "scope_lookup sc' n") auto
  then show ?thesis by (auto simp: visible_def)
qed

end
