(* ===== verification/Eval.thy ===== *)
theory Eval
  imports Eval_Values Ext_Seam
begin

section \<open>The AST evaluator (\<^verbatim>\<open>fuzz/ts/eval/ast-eval.ts\<close>)\<close>

text \<open>
  The third engine: the tree evaluated as written. The machine's state is its step counter, the
  chain of scopes in use and the extension's memory; every method that evaluates or executes is
  a computation over it that may throw a \<open>fault\<close>. Recursion follows the tree; the two places
  where it does not are bounded by the step limit, which every iteration and every call
  consumes: a loop gets as many iterations as there are steps left, and a procedure call goes
  one level down a depth that starts at the step limit. Running out of either is the fault
  \<open>OutOfFuel\<close>, and \<open>Eval_Limits\<close> proves that \<open>evaluate\<close> never meets it.
\<close>

subsection \<open>The machine\<close>

record 'm mstate =
  m_steps :: nat
  m_scope :: scope
  m_mem :: 'm

type_synonym ('m, 'a) ev = "('m mstate, fault, 'a) comp"

text \<open>What a \<^verbatim>\<open>Machine\<close> is constructed with: the procedures, the extension, the step limit.\<close>

record 'm config =
  cfg_procs :: gen_program
  cfg_exec :: "'m ext_exec"
  cfg_max :: nat

text \<open>How a call to procedure \<open>i\<close> runs, one level further down.\<close>

type_synonym 'm runner = "nat \<Rightarrow> u32 list \<Rightarrow> ('m, u32) ev"

definition tick :: "'m config \<Rightarrow> ('m, unit) ev" where
  "tick cfg =
     bindc (modifyc (\<lambda>s. s\<lparr>m_steps := Suc (m_steps s)\<rparr>)) (\<lambda>_.
     bindc (getc m_steps) (\<lambda>n.
     if n > cfg_max cfg then throwc StepLimit else retc ()))"

definition lookup_ev :: "string \<Rightarrow> ('m, slot) ev" where
  "lookup_ev n = bindc (getc (\<lambda>s. scope_lookup (m_scope s) n)) (requirec (JsError ''unknown variable''))"

text \<open>\<^verbatim>\<open>Scope.assign\<close>: the narrowed value it stored is what it returns.\<close>

definition assign_ev :: "string \<Rightarrow> u32 \<Rightarrow> ('m, u32) ev" where
  "assign_ev n v =
     bindc (lookup_ev n) (\<lambda>sl.
     bindc (modifyc (\<lambda>s. s\<lparr>m_scope := scope_assign (m_scope s) n v\<rparr>)) (\<lambda>_.
     retc (narrow v (slot_type sl))))"

definition declare_ev :: "string \<Rightarrow> prim_type \<Rightarrow> u32 \<Rightarrow> ('m, unit) ev" where
  "declare_ev n t v = modifyc (\<lambda>s. s\<lparr>m_scope := scope_declare (m_scope s) n t v\<rparr>)"

text \<open>Run in a child scope that is dropped on the way out.\<close>

definition in_child :: "('m, 'a) ev \<Rightarrow> ('m, 'a) ev" where
  "in_child m =
     bindc (modifyc (\<lambda>s. s\<lparr>m_scope := Map.empty # m_scope s\<rparr>)) (\<lambda>_.
     bindc m (\<lambda>r.
     bindc (modifyc (\<lambda>s. s\<lparr>m_scope := tl (m_scope s)\<rparr>)) (\<lambda>_. retc r)))"

definition lift_sum :: "fault + 'a \<Rightarrow> ('m, 'a) ev" where
  "lift_sum r = (case r of Inl e \<Rightarrow> throwc e | Inr v \<Rightarrow> retc v)"

subsection \<open>The extension seam\<close>

definition mem_stack_arity :: "(string \<times> nat) list" where
  "mem_stack_arity =
     [(''st8'', 1), (''st16'', 1), (''st32'', 1), (''memmove'', 3), (''memcmp'', 3), (''slicecmp'', 4)]"

definition mem_acc_ops :: "string list" where
  "mem_acc_ops = [''ld8'', ''ld16'', ''ld32'', ''st8'', ''st16'', ''st32'']"

definition ext_ops :: "string list" where
  "ext_ops = map fst mem_stack_arity @ [''ld8'', ''ld16'', ''ld32'']"

definition upper_char :: "char \<Rightarrow> char" where
  "upper_char c = (if 97 \<le> (of_char c :: nat) \<and> (of_char c :: nat) \<le> 122
     then char_of ((of_char c :: nat) - 32) else c)"

definition to_upper :: "string \<Rightarrow> string" where
  "to_upper s = map upper_char s"

text \<open>\<^verbatim>\<open>runExt\<close>: the stack in push order, so its last cell is the top.\<close>

definition run_ext :: "'m config \<Rightarrow> string \<Rightarrow> u32 list \<Rightarrow> u32 \<Rightarrow> ('m, u32) ev" where
  "run_ext cfg name stack acc =
     (\<lambda>s. case cfg_exec cfg (to_upper name) [] \<lparr>xacc = acc, xcells = rev stack, xmem = m_mem s\<rparr> of
        (Inl e, x) \<Rightarrow> (Inl (JsError e), s\<lparr>m_mem := xmem x\<rparr>)
      | (Inr _, x) \<Rightarrow> (Inr (xacc x), s\<lparr>m_mem := xmem x\<rparr>))"

text \<open>
  The three shapes of an extension call: a load addresses through \<open>acc\<close>, a store takes its
  address off the stack and its value from \<open>acc\<close>, the rest are all stack. A missing argument
  is \<^verbatim>\<open>undefined\<close>, which \<^verbatim>\<open>>>> 0\<close> turns into 0.
\<close>

definition ext_call :: "'m config \<Rightarrow> string \<Rightarrow> u32 list \<Rightarrow> ('m, u32) ev" where
  "ext_call cfg name values =
     (if name \<notin> set mem_acc_ops then run_ext cfg name values 0
      else if take 2 name = ''ld'' then run_ext cfg name [] (nth_default 0 values 0)
      else run_ext cfg name [nth_default 0 values 0] (nth_default 0 values 1))"

subsection \<open>Static types\<close>

definition slot_type_of :: "scope \<Rightarrow> string \<Rightarrow> fault + prim_type" where
  "slot_type_of sc n =
     (case scope_lookup sc n of None \<Rightarrow> Inl (JsError ''unknown variable'') | Some s \<Rightarrow> Inr (slot_type s))"

definition map_sum_r :: "('a \<Rightarrow> 'b) \<Rightarrow> fault + 'a \<Rightarrow> fault + 'b" where
  "map_sum_r f r = (case r of Inl e \<Rightarrow> Inl e | Inr v \<Rightarrow> Inr (f v))"

definition both_types :: "fault + prim_type \<Rightarrow> fault + prim_type \<Rightarrow> fault + prim_type" where
  "both_types a b =
     (case a of Inl e \<Rightarrow> Inl e | Inr ta \<Rightarrow> (case b of Inl e \<Rightarrow> Inl e | Inr tb \<Rightarrow> Inr (usual ta tb)))"

fun type_of :: "scope \<Rightarrow> expr \<Rightarrow> fault + prim_type" where
  "type_of sc (Literal v) = Inr (literal_type v)"
| "type_of sc (Identifier n) = slot_type_of sc n"
| "type_of sc (CastExpression t e) = Inr t"
| "type_of sc (LogicalExpression op l r) = Inr I32"
| "type_of sc (CallExpression f args) = Inr U32"
| "type_of sc (AssignmentExpression op n e) = slot_type_of sc n"
| "type_of sc (UpdateExpression op pre e) =
     (case e of Identifier n \<Rightarrow> slot_type_of sc n | _ \<Rightarrow> Inr U32)"
| "type_of sc (UnaryExpression op e) =
     (if op = Bang then Inr I32 else map_sum_r promote (type_of sc e))"
| "type_of sc (ConditionalExpression c a b) = both_types (type_of sc a) (type_of sc b)"
| "type_of sc (BinaryExpression op l r) =
     (if comparison op then Inr I32
      else if shift_op op then map_sum_r promote (type_of sc l)
      else both_types (type_of sc l) (type_of sc r))"

text \<open>The rule looks at the names and types of the scope, and fails on unknown names only.\<close>

lemma slot_type_of_shape: "shape sc = shape sc' \<Longrightarrow> slot_type_of sc n = slot_type_of sc' n"
proof -
  assume "shape sc = shape sc'"
  from shape_lookup [OF this, of n] show ?thesis
    by (cases "scope_lookup sc n"; cases "scope_lookup sc' n") (auto simp: slot_type_of_def)
qed

lemma type_of_shape: "shape sc = shape sc' \<Longrightarrow> type_of sc e = type_of sc' e"
proof (induction sc e rule: type_of.induct)
  case (2 sc n)
  then show ?case by (simp add: slot_type_of_shape [of sc sc'])
next
  case (6 sc op n e)
  then show ?case by (simp add: slot_type_of_shape [of sc sc'])
next
  case (7 sc op pre e)
  then show ?case by (cases e) (simp_all add: slot_type_of_shape [of sc sc'])
qed simp_all

lemma type_of_error: "type_of sc e = Inl x \<Longrightarrow> \<exists>msg. x = JsError msg"
proof (induction sc e rule: type_of.induct)
  case (7 sc op pre e)
  then show ?case by (cases e) (auto simp: slot_type_of_def split: option.splits)
qed (auto simp: slot_type_of_def map_sum_r_def both_types_def split: option.splits sum.splits if_splits)

lemma both_types_error:
  "both_types (type_of sc a) (type_of sc b) = Inl x \<Longrightarrow> \<exists>msg. x = JsError msg"
  using type_of_error [of sc a] type_of_error [of sc b] by (auto simp: both_types_def split: sum.splits)

subsection \<open>Expressions\<close>

definition u32_val :: "('m, u32) ev \<Rightarrow> ('m, val) ev" where
  "u32_val m = bindc m (\<lambda>v. retc (mk_val v U32))"

text \<open>The operator of a compound assignment on the slot's value, or the new value itself.\<close>

definition assigned :: "assign_op \<Rightarrow> slot \<Rightarrow> val \<Rightarrow> fault + u32" where
  "assigned op sl r =
     (case op of
        Assign \<Rightarrow> Inr (val_value r)
      | Compound b \<Rightarrow>
          (case binary b (mk_val (slot_value sl) (slot_type sl)) r of
             Inl e \<Rightarrow> Inl e | Inr v \<Rightarrow> Inr (val_value v)))"

definition cond_type :: "expr \<Rightarrow> expr \<Rightarrow> ('m, prim_type) ev" where
  "cond_type a b =
     bindc (getc m_scope) (\<lambda>sc. lift_sum (both_types (type_of sc a) (type_of sc b)))"

text \<open>
  \<^verbatim>\<open>eval\<close> with \<^verbatim>\<open>call\<close>. \<^verbatim>\<open>args[0]!\<close> of a call without arguments is \<^verbatim>\<open>undefined\<close>, whose type
  tag cannot be read: \<open>eval_first\<close> throws there, after the tick.
\<close>

fun eval :: "'m config \<Rightarrow> 'm runner \<Rightarrow> expr \<Rightarrow> ('m, val) ev"
  and eval_args :: "'m config \<Rightarrow> 'm runner \<Rightarrow> expr list \<Rightarrow> ('m, u32 list) ev"
  and eval_first :: "'m config \<Rightarrow> 'm runner \<Rightarrow> expr list \<Rightarrow> ('m, u32) ev" where
  "eval cfg rp (Literal v) =
     bindc (tick cfg) (\<lambda>_. retc (mk_val (to_u32 v) (literal_type v)))"
| "eval cfg rp (Identifier n) =
     bindc (tick cfg) (\<lambda>_.
     bindc (lookup_ev n) (\<lambda>sl. retc (mk_val (slot_value sl) (slot_type sl))))"
| "eval cfg rp (CastExpression t e) =
     bindc (tick cfg) (\<lambda>_.
     bindc (eval cfg rp e) (\<lambda>v. retc (mk_val (narrow (val_value v) t) t)))"
| "eval cfg rp (UnaryExpression op e) =
     bindc (tick cfg) (\<lambda>_.
     bindc (eval cfg rp e) (\<lambda>v. retc (unary op v)))"
| "eval cfg rp (BinaryExpression op l r) =
     bindc (tick cfg) (\<lambda>_.
     bindc (eval cfg rp l) (\<lambda>a.
     bindc (eval cfg rp r) (\<lambda>b. lift_sum (binary op a b))))"
| "eval cfg rp (LogicalExpression op l r) =
     bindc (tick cfg) (\<lambda>_.
     bindc (eval cfg rp l) (\<lambda>a.
     if op = AndAnd \<and> val_value a = 0 then retc (mk_val 0 I32)
     else if op = OrOr \<and> val_value a \<noteq> 0 then retc (mk_val 1 I32)
     else bindc (eval cfg rp r) (\<lambda>b. retc (mk_val (bool_u32 (val_value b \<noteq> 0)) I32))))"
| "eval cfg rp (ConditionalExpression c a b) =
     bindc (tick cfg) (\<lambda>_.
     bindc (cond_type a b) (\<lambda>t.
     bindc (eval cfg rp c) (\<lambda>test.
     bindc (if val_value test \<noteq> 0 then eval cfg rp a else eval cfg rp b) (\<lambda>v.
     retc (mk_val (val_value v) t)))))"
| "eval cfg rp (AssignmentExpression op n e) =
     bindc (tick cfg) (\<lambda>_.
     bindc (lookup_ev n) (\<lambda>_.
     bindc (eval cfg rp e) (\<lambda>r.
     bindc (lookup_ev n) (\<lambda>sl.
     bindc (lift_sum (assigned op sl r)) (\<lambda>v.
     bindc (assign_ev n v) (\<lambda>w. retc (mk_val w (slot_type sl))))))))"
| "eval cfg rp (UpdateExpression op pre e) =
     bindc (tick cfg) (\<lambda>_.
     case e of
       Identifier n \<Rightarrow>
         bindc (lookup_ev n) (\<lambda>sl.
         bindc (assign_ev n (if op = Incr then slot_value sl + 1 else slot_value sl - 1)) (\<lambda>w.
         retc (mk_val (if pre then w else slot_value sl) (slot_type sl))))
     | _ \<Rightarrow> throwc (JsError ''update of a non-variable''))"
| "eval cfg rp (CallExpression f args) =
     bindc (tick cfg) (\<lambda>_.
     if f = ''trap'' then bindc (eval_first cfg rp args) (\<lambda>v. throwc (Trapped v))
     else if f = ''clz'' then u32_val (bindc (eval_first cfg rp args) (\<lambda>v. retc (clz32 v)))
     else if f = ''revbits'' then u32_val (bindc (eval_first cfg rp args) (\<lambda>v. retc (revbits v)))
     else if f \<in> set ext_ops then u32_val (bindc (eval_args cfg rp args) (ext_call cfg f))
     else case proc_index f of
       None \<Rightarrow> throwc (JsError ''no such callee'')
     | Some i \<Rightarrow> u32_val (bindc (eval_args cfg rp args) (rp i)))"
| "eval_args cfg rp [] = retc []"
| "eval_args cfg rp (e # es) =
     bindc (eval cfg rp e) (\<lambda>v.
     bindc (eval_args cfg rp es) (\<lambda>vs. retc (val_value v # vs)))"
| "eval_first cfg rp [] = bindc (tick cfg) (\<lambda>_. throwc (JsError ''no argument''))"
| "eval_first cfg rp (e # es) = bindc (eval cfg rp e) (\<lambda>v. retc (val_value v))"

subsection \<open>Statements\<close>

datatype flow = Normal | Return u32 | Break

text \<open>What a loop makes of one iteration: go round again, or the flow it ends with.\<close>

datatype iteration = Again | Stop flow

definition after_body :: "flow \<Rightarrow> ('m, iteration) ev \<Rightarrow> ('m, iteration) ev" where
  "after_body fl m =
     (case fl of Return v \<Rightarrow> retc (Stop (Return v)) | Break \<Rightarrow> retc (Stop Normal) | Normal \<Rightarrow> m)"

fun loop_fuel :: "nat \<Rightarrow> ('m, iteration) ev \<Rightarrow> ('m, flow) ev" where
  "loop_fuel 0 step = throwc OutOfFuel"
| "loop_fuel (Suc n) step =
     bindc step (\<lambda>it. case it of Again \<Rightarrow> loop_fuel n step | Stop fl \<Rightarrow> retc fl)"

text \<open>\<^verbatim>\<open>for(;;)\<close> around an iteration that ticks: no more rounds than there are steps left.\<close>

definition loop_ev :: "'m config \<Rightarrow> ('m, iteration) ev \<Rightarrow> ('m, flow) ev" where
  "loop_ev cfg step =
     bindc (getc m_steps) (\<lambda>n.
     loop_fuel (Suc (cfg_max cfg - n)) (bindc (tick cfg) (\<lambda>_. step)))"

text \<open>Statements are given how expressions evaluate: \<^verbatim>\<open>this.eval\<close>.\<close>

type_synonym 'm evaluator = "expr \<Rightarrow> ('m, val) ev"

fun exec_decls :: "'m evaluator \<Rightarrow> declarator list \<Rightarrow> ('m, unit) ev" where
  "exec_decls ev [] = retc ()"
| "exec_decls ev (Declarator t n i # ds) =
     bindc (case i of None \<Rightarrow> retc 0
            | Some e \<Rightarrow> bindc (ev e) (\<lambda>v. retc (val_value v))) (\<lambda>v.
     bindc (declare_ev n t v) (\<lambda>_. exec_decls ev ds))"

text \<open>The first clause whose label evaluates to the discriminant, labels tried in order.\<close>

fun find_case :: "'m evaluator \<Rightarrow> u32 \<Rightarrow> switch_case list \<Rightarrow> ('m, nat option) ev" where
  "find_case ev d [] = retc None"
| "find_case ev d (SwitchCase t b # cs) =
     bindc (case t of None \<Rightarrow> retc False
            | Some e \<Rightarrow> bindc (ev e) (\<lambda>v. retc (val_value v = d))) (\<lambda>hit.
     if hit then retc (Some 0)
     else bindc (find_case ev d cs) (\<lambda>r. retc (map_option Suc r)))"

text \<open>
  \<^verbatim>\<open>statement\<close>, \<^verbatim>\<open>run\<close> and the clause loop of \<^verbatim>\<open>switchOn\<close>. \<open>exec_clauses n\<close> skips \<open>n\<close> clauses
  and runs the rest in source order until one returns or breaks.
\<close>

function (sequential) exec_stmt :: "'m config \<Rightarrow> 'm evaluator \<Rightarrow> stmt \<Rightarrow> ('m, flow) ev"
  and exec_list :: "'m config \<Rightarrow> 'm evaluator \<Rightarrow> stmt list \<Rightarrow> ('m, flow) ev"
  and exec_clauses :: "'m config \<Rightarrow> 'm evaluator \<Rightarrow> nat \<Rightarrow> switch_case list \<Rightarrow> ('m, flow) ev" where
  "exec_stmt cfg ev (BlockStatement b) =
     bindc (tick cfg) (\<lambda>_. in_child (exec_list cfg ev b))"
| "exec_stmt cfg ev BreakStatement = bindc (tick cfg) (\<lambda>_. retc Break)"
| "exec_stmt cfg ev (ExpressionStatement e) =
     bindc (tick cfg) (\<lambda>_. bindc (ev e) (\<lambda>_. retc Normal))"
| "exec_stmt cfg ev (ReturnStatement a) =
     bindc (tick cfg) (\<lambda>_.
     case a of
       None \<Rightarrow> retc (Return 0)
     | Some e \<Rightarrow> bindc (ev e) (\<lambda>v. retc (Return (val_value v))))"
| "exec_stmt cfg ev (VariableDeclaration ds) =
     bindc (tick cfg) (\<lambda>_. bindc (exec_decls ev ds) (\<lambda>_. retc Normal))"
| "exec_stmt cfg ev (IfStatement t c a) =
     bindc (tick cfg) (\<lambda>_.
     bindc (ev t) (\<lambda>v.
     if val_value v \<noteq> 0 then in_child (exec_list cfg ev (as_list c))
     else case a of
       None \<Rightarrow> retc Normal
     | Some b \<Rightarrow> in_child (exec_list cfg ev (as_list b))))"
| "exec_stmt cfg ev (WhileStatement t b) =
     bindc (tick cfg) (\<lambda>_.
     loop_ev cfg
       (bindc (ev t) (\<lambda>v.
        if val_value v = 0 then retc (Stop Normal)
        else bindc (in_child (exec_list cfg ev (as_list b))) (\<lambda>fl.
             after_body fl (retc Again)))))"
| "exec_stmt cfg ev (DoWhileStatement b t) =
     bindc (tick cfg) (\<lambda>_.
     loop_ev cfg
       (bindc (in_child (exec_list cfg ev (as_list b))) (\<lambda>fl.
        after_body fl
          (bindc (ev t) (\<lambda>v.
           retc (if val_value v = 0 then Stop Normal else Again))))))"
| "exec_stmt cfg ev (ForStatement i t u b) =
     bindc (tick cfg) (\<lambda>_.
     in_child
       (bindc (case i of
                 None \<Rightarrow> retc ()
               | Some (InitDecl ds) \<Rightarrow> bindc (tick cfg) (\<lambda>_. exec_decls ev ds)
               | Some (InitExpr e) \<Rightarrow> bindc (ev e) (\<lambda>_. retc ())) (\<lambda>_.
        loop_ev cfg
          (bindc (case t of
                    None \<Rightarrow> retc True
                  | Some e \<Rightarrow> bindc (ev e) (\<lambda>v. retc (val_value v \<noteq> 0))) (\<lambda>go.
           if \<not> go then retc (Stop Normal)
           else bindc (in_child (exec_list cfg ev (as_list b))) (\<lambda>fl.
                after_body fl
                  (case u of
                     None \<Rightarrow> retc Again
                   | Some e \<Rightarrow> bindc (ev e) (\<lambda>_. retc Again))))))))"
| "exec_stmt cfg ev (SwitchStatement d cs) =
     bindc (tick cfg) (\<lambda>_.
     bindc (ev d) (\<lambda>v.
     bindc (find_case ev (val_value v) cs) (\<lambda>hit.
     case (case hit of Some i \<Rightarrow> Some i | None \<Rightarrow> find_index (\<lambda>c. case_test c = None) cs) of
       None \<Rightarrow> retc Normal
     | Some i \<Rightarrow> exec_clauses cfg ev i cs)))"
| "exec_list cfg ev [] = retc Normal"
| "exec_list cfg ev (s # ss) =
     bindc (exec_stmt cfg ev s) (\<lambda>fl. if fl = Normal then exec_list cfg ev ss else retc fl)"
| "exec_clauses cfg ev n [] = retc Normal"
| "exec_clauses cfg ev n (SwitchCase t b # cs) =
     (case n of
        Suc k \<Rightarrow> exec_clauses cfg ev k cs
      | 0 \<Rightarrow>
          bindc (in_child (exec_list cfg ev b)) (\<lambda>fl.
          case fl of
            Return v \<Rightarrow> retc (Return v)
          | Break \<Rightarrow> retc Normal
          | Normal \<Rightarrow> exec_clauses cfg ev 0 cs))"
  by pat_completeness auto

termination
  by (relation "measure (case_sum (\<lambda>(_, _, s). Suc (2 * size s))
    (case_sum (\<lambda>(_, _, ss). 2 * size_list size ss) (\<lambda>(_, _, _, cs). 2 * size_list size cs)))")
    (auto simp: termination_simp)

subsection \<open>Procedures and programs\<close>

definition bind_params :: "string list \<Rightarrow> u32 list \<Rightarrow> scope" where
  "bind_params ns vs =
     fold (\<lambda>(i, n) sc. scope_declare sc n U32 (nth_default 0 vs i)) (enumerate 0 ns) [Map.empty]"

text \<open>
  \<^verbatim>\<open>runProc\<close>: a scope of its own, the caller's put back afterwards. Falling off the end is
  observable in the entry procedure alone.
\<close>

fun run_proc :: "'m config \<Rightarrow> nat \<Rightarrow> bool \<Rightarrow> nat \<Rightarrow> u32 list \<Rightarrow> ('m, u32) ev" where
  "run_proc cfg 0 entry i vs = throwc OutOfFuel"
| "run_proc cfg (Suc n) entry i vs =
     (if length (cfg_procs cfg) \<le> i then throwc (JsError ''no procedure'')
      else
        bindc (getc m_scope) (\<lambda>caller.
        bindc (modifyc (\<lambda>s. s\<lparr>m_scope := bind_params (proc_args (cfg_procs cfg ! i)) vs\<rparr>)) (\<lambda>_.
        bindc (exec_list cfg (eval cfg (run_proc cfg n False)) (proc_body (cfg_procs cfg ! i))) (\<lambda>fl.
        bindc (modifyc (\<lambda>s. s\<lparr>m_scope := caller\<rparr>)) (\<lambda>_.
        case fl of
          Return v \<Rightarrow> retc v
        | _ \<Rightarrow> if entry then throwc (Unspecified OffTheEnd) else retc 0)))))"

text \<open>
  \<^verbatim>\<open>evaluate\<close>: the three faults that are answers become outcomes, anything else is rethrown
  (\<open>Inl\<close>). The memory is the extension's, left as the run leaves it.
\<close>

definition classify :: "fault + u32 \<Rightarrow> fault + outcome" where
  "classify r =
     (case r of
        Inr v \<Rightarrow> Inr (OReturn v)
      | Inl (Trapped c) \<Rightarrow> Inr (OTrap c)
      | Inl (Unspecified u) \<Rightarrow> Inr (OUnspecified u)
      | Inl StepLimit \<Rightarrow> Inr OStepLimit
      | Inl e \<Rightarrow> Inl e)"

definition evaluate :: "'m config \<Rightarrow> u32 list \<Rightarrow> 'm \<Rightarrow> (fault + outcome) \<times> nat \<times> 'm" where
  "evaluate cfg args mem =
     (case run_proc cfg (Suc (cfg_max cfg)) True 0 args \<lparr>m_steps = 0, m_scope = [], m_mem = mem\<rparr> of
        (r, s) \<Rightarrow> (classify r, m_steps s, m_mem s))"

end
