(* ===== verification/Eval_Limits.thy ===== *)
theory Eval_Limits
  imports Eval
begin

section \<open>The step limit of the evaluator\<close>

text \<open>
  What the step counter guarantees. Every iteration of a loop and every call consumes a step,
  so the fuel of the model's loops and calls is never exhausted: \<open>evaluate\<close> terminates with
  an answer or an error of its own. The limit is exact, and raising it never changes an answer
  that was reached within it.
\<close>

subsection \<open>Contracts on steps\<close>

named_theorems limit_intros "rules for contracts on the step counter"

text \<open>
  \<open>fuelled cfg b m\<close>: with fewer than \<open>b\<close> steps left, \<open>m\<close> does not run out of fuel, does not
  lose steps, and passes the limit only to throw \<open>StepLimit\<close>, one step beyond it.
\<close>

definition fuelled :: "'m config \<Rightarrow> nat \<Rightarrow> ('m, 'a) ev \<Rightarrow> bool" where
  "fuelled cfg b m \<longleftrightarrow>
     (\<forall>s r t. m_steps s \<le> cfg_max cfg \<longrightarrow> cfg_max cfg < m_steps s + b \<longrightarrow> m s = (r, t) \<longrightarrow>
        m_steps s \<le> m_steps t \<and> r \<noteq> Inl OutOfFuel \<and>
        m_steps t \<le> Suc (cfg_max cfg) \<and> (m_steps t = Suc (cfg_max cfg) \<longleftrightarrow> r = Inl StepLimit))"

lemma fuelledI:
  assumes "\<And>s r t. m_steps s \<le> cfg_max cfg \<Longrightarrow> cfg_max cfg < m_steps s + b \<Longrightarrow> m s = (r, t) \<Longrightarrow>
    m_steps s \<le> m_steps t \<and> r \<noteq> Inl OutOfFuel \<and>
    m_steps t \<le> Suc (cfg_max cfg) \<and> (m_steps t = Suc (cfg_max cfg) \<longleftrightarrow> r = Inl StepLimit)"
  shows "fuelled cfg b m"
  using assms by (simp add: fuelled_def)

lemma fuelledD:
  assumes "fuelled cfg b m" "m_steps s \<le> cfg_max cfg" "cfg_max cfg < m_steps s + b" "m s = (r, t)"
  shows "m_steps s \<le> m_steps t" "r \<noteq> Inl OutOfFuel" "m_steps t \<le> Suc (cfg_max cfg)"
    "m_steps t = Suc (cfg_max cfg) \<longleftrightarrow> r = Inl StepLimit"
  using assms unfolding fuelled_def by blast+

lemma fuelled_mono: "fuelled cfg (Suc n) m \<Longrightarrow> fuelled cfg n m"
  by (auto simp: fuelled_def)

lemma fuelled_bindc [limit_intros]:
  assumes m: "fuelled cfg b m" and f: "\<And>v. fuelled cfg b (f v)"
  shows "fuelled cfg b (bindc m f)"
proof (rule fuelledI)
  fix s r u assume s: "m_steps s \<le> cfg_max cfg" "cfg_max cfg < m_steps s + b" and run: "bindc m f s = (r, u)"
  obtain q t where q: "m s = (q, t)" by (cases "m s")
  note mt = fuelledD [OF m s q]
  show "m_steps s \<le> m_steps u \<and> r \<noteq> Inl OutOfFuel \<and> m_steps u \<le> Suc (cfg_max cfg) \<and>
    (m_steps u = Suc (cfg_max cfg) \<longleftrightarrow> r = Inl StepLimit)"
  proof (cases q)
    case (Inl e)
    with q run have "r = Inl e" "u = t" by (auto simp: bindc_def)
    with mt Inl show ?thesis by simp
  next
    case (Inr v)
    with q run have fv: "f v t = (r, u)" by (simp add: bindc_def)
    from mt Inr have t: "m_steps t \<le> cfg_max cfg" by simp
    moreover from mt(1) s(2) have "cfg_max cfg < m_steps t + b" by linarith
    ultimately show ?thesis using fuelledD [OF f _ _ fv] mt(1) by (metis le_trans)
  qed
qed

lemma fuelled_retc [limit_intros]: "fuelled cfg b (retc v)"
  by (rule fuelledI) auto

lemma fuelled_throwc [limit_intros]:
  "fuelled cfg b (throwc (Trapped v))" "fuelled cfg b (throwc (JsError msg))"
  "fuelled cfg b (throwc (Unspecified u))"
  by (rule fuelledI; auto)+

lemma fuelled_getc [limit_intros]: "fuelled cfg b (getc f)"
  by (rule fuelledI) auto

lemma fuelled_modifyc [limit_intros]: "(\<And>s. m_steps (f s) = m_steps s) \<Longrightarrow> fuelled cfg b (modifyc f)"
  by (rule fuelledI) auto

lemma fuelled_requirec [limit_intros]:
  "fuelled cfg b (requirec (JsError msg) r)"
  by (cases r) (simp_all add: fuelled_retc fuelled_throwc)

lemma fuelled_if [limit_intros]:
  "(c \<Longrightarrow> fuelled cfg b m) \<Longrightarrow> (\<not> c \<Longrightarrow> fuelled cfg b n) \<Longrightarrow> fuelled cfg b (if c then m else n)"
  by simp

lemma fuelled_option [limit_intros]:
  "(x = None \<Longrightarrow> fuelled cfg b m) \<Longrightarrow> (\<And>v. x = Some v \<Longrightarrow> fuelled cfg b (f v)) \<Longrightarrow> fuelled cfg b (case x of None \<Rightarrow> m | Some v \<Rightarrow> f v)"
  by (cases x) simp_all

text \<open>A tick pays for one level: what follows it may need one step less.\<close>

lemma fuelled_tick:
  assumes "fuelled cfg n m"
  shows "fuelled cfg (Suc n) (bindc (tick cfg) (\<lambda>_. m))"
proof (rule fuelledI)
  fix s r t assume s: "m_steps s \<le> cfg_max cfg" "cfg_max cfg < m_steps s + Suc n"
    and run: "bindc (tick cfg) (\<lambda>_. m) s = (r, t)"
  show "m_steps s \<le> m_steps t \<and> r \<noteq> Inl OutOfFuel \<and> m_steps t \<le> Suc (cfg_max cfg) \<and>
    (m_steps t = Suc (cfg_max cfg) \<longleftrightarrow> r = Inl StepLimit)"
  proof (cases "m_steps s = cfg_max cfg")
    case True
    with run show ?thesis by (auto simp: tick_def bindc_def)
  next
    case False
    with s have "m_steps s < cfg_max cfg" by simp
    then have "m (s\<lparr>m_steps := Suc (m_steps s)\<rparr>) = (r, t)"
      using run by (simp add: tick_def bindc_def)
    from fuelledD [OF assms _ _ this] s False show ?thesis by simp
  qed
qed

lemma fuelled_tick_only [limit_intros]: "fuelled cfg b (tick cfg)"
proof (cases b)
  case 0
  then show ?thesis by (simp add: fuelled_def)
next
  case (Suc n)
  have "(\<lambda>_. retc ()) = (retc :: unit \<Rightarrow> ('a, unit) ev)" by (rule ext) simp
  then have "tick cfg = bindc (tick cfg) (\<lambda>_. retc () :: ('a, unit) ev)" by simp
  with fuelled_tick [OF fuelled_retc, of cfg n "()"] Suc show ?thesis by simp
qed

lemma fuelled_in_child [limit_intros]: "fuelled cfg b m \<Longrightarrow> fuelled cfg b (in_child m)"
  unfolding in_child_def by (intro limit_intros) simp_all

lemma fuelled_ops [limit_intros]:
  "fuelled cfg b (lookup_ev n)" "fuelled cfg b (assign_ev n v)" "fuelled cfg b (declare_ev n t v)"
  unfolding lookup_ev_def assign_ev_def declare_ev_def by (intro limit_intros; simp)+

lemma fuelled_lift_sum:
  "r \<noteq> Inl OutOfFuel \<Longrightarrow> r \<noteq> Inl StepLimit \<Longrightarrow> fuelled cfg b (lift_sum r)"
  by (rule fuelledI) (auto simp: lift_sum_def split: sum.splits)

lemma binary_faults: "binary op l r \<noteq> Inl OutOfFuel" "binary op l r \<noteq> Inl StepLimit"
  by (cases op; simp add: binary_def Let_def)+

lemma assigned_faults: "assigned op sl r \<noteq> Inl OutOfFuel" "assigned op sl r \<noteq> Inl StepLimit"
  using binary_faults by (fastforce simp: assigned_def split: assign_op.splits sum.splits)+

lemma type_of_faults: "type_of sc e \<noteq> Inl OutOfFuel" "type_of sc e \<noteq> Inl StepLimit"
  by (induction sc e rule: type_of.induct)
    (auto simp: slot_type_of_def map_sum_r_def both_types_def split: option.splits expr.splits sum.splits)

lemma both_types_faults:
  "both_types (type_of sc a) (type_of sc b) \<noteq> Inl OutOfFuel"
  "both_types (type_of sc a) (type_of sc b) \<noteq> Inl StepLimit"
  using type_of_faults [of sc a] type_of_faults [of sc b]
  by (auto simp: both_types_def split: sum.splits)

lemma fuelled_sums [limit_intros]:
  "fuelled cfg b (lift_sum (binary op l r))" "fuelled cfg b (lift_sum (assigned aop sl r))"
  "fuelled cfg b (cond_type e f)"
  unfolding cond_type_def
  by (intro limit_intros fuelled_lift_sum binary_faults assigned_faults both_types_faults)+

lemma fuelled_ext_call [limit_intros]: "fuelled cfg b (ext_call cfg' f vs)"
  unfolding ext_call_def run_ext_def
  by (auto intro!: fuelledI split: if_splits prod.splits sum.splits)

lemma fuelled_u32_val [limit_intros]: "fuelled cfg b m \<Longrightarrow> fuelled cfg b (u32_val m)"
  unfolding u32_val_def by (intro limit_intros)

subsection \<open>Enough fuel\<close>

lemma fuelled_args:
  assumes "\<And>e. e \<in> set es \<Longrightarrow> fuelled cfg b (eval cfg rp e)"
  shows "fuelled cfg b (eval_args cfg rp es)" "fuelled cfg b (eval_first cfg rp es)"
proof -
  show "fuelled cfg b (eval_args cfg rp es)"
    using assms by (induction es) (simp_all, (intro limit_intros; simp)+)
  show "fuelled cfg b (eval_first cfg rp es)"
    using assms by (cases es) (simp_all, (intro limit_intros; simp)+)
qed

lemma fuelled_eval:
  assumes rp: "\<And>i vs. fuelled cfg n (rp i vs)"
  shows "fuelled cfg (Suc n) (eval cfg rp e)"
proof (induction e)
  case (UpdateExpression op pre e)
  show ?case by (cases e) (simp_all only: eval.simps expr.case, (intro fuelled_tick limit_intros)+)
next
  case (CallExpression f args)
  note args = fuelled_args [OF fuelled_mono [OF CallExpression.IH], simplified]
  show ?case by (simp only: eval.simps) (intro fuelled_tick limit_intros args rp)
qed (simp only: eval.simps, intro fuelled_tick limit_intros; (erule fuelled_mono)?)+

lemma fuelled_loop_fuel:
  assumes step: "fuelled cfg n step" and "b \<le> Suc n"
  shows "fuelled cfg b (loop_fuel b (bindc (tick cfg) (\<lambda>_. step)))"
  using assms(2)
proof (induction b)
  case 0
  show ?case by (simp add: fuelled_def)
next
  case (Suc b)
  have "fuelled cfg b step"
    using step Suc.prems by (auto simp: fuelled_def)
  moreover have "fuelled cfg b (loop_fuel b (bindc (tick cfg) (\<lambda>_. step)))"
    using Suc by simp
  then have "fuelled cfg b (case it of Again \<Rightarrow> loop_fuel b (bindc (tick cfg) (\<lambda>_. step)) | Stop fl \<Rightarrow> retc fl)" for it
    by (cases it) (simp_all add: fuelled_retc)
  ultimately have "fuelled cfg (Suc b) (bindc (tick cfg) (\<lambda>_. bindc step
      (\<lambda>it. case it of Again \<Rightarrow> loop_fuel b (bindc (tick cfg) (\<lambda>_. step)) | Stop fl \<Rightarrow> retc fl)))"
    by (intro fuelled_tick limit_intros)
  then show ?case by (simp add: bindc_assoc)
qed

lemma fuelled_loop [limit_intros]:
  assumes "fuelled cfg n step"
  shows "fuelled cfg n (loop_ev cfg step)"
proof (rule fuelled_mono, rule fuelledI)
  fix s r t assume s: "m_steps s \<le> cfg_max cfg" "cfg_max cfg < m_steps s + Suc n"
    and run: "loop_ev cfg step s = (r, t)"
  define b where "b = Suc (cfg_max cfg - m_steps s)"
  have "b \<le> Suc n" using s by (simp add: b_def)
  note loop = fuelled_loop_fuel [OF assms this]
  have "loop_fuel b (bindc (tick cfg) (\<lambda>_. step)) s = (r, t)"
    using run by (simp add: loop_ev_def bindc_def b_def)
  moreover have "cfg_max cfg < m_steps s + b" using s by (simp add: b_def)
  ultimately show "m_steps s \<le> m_steps t \<and> r \<noteq> Inl OutOfFuel \<and> m_steps t \<le> Suc (cfg_max cfg) \<and>
      (m_steps t = Suc (cfg_max cfg) \<longleftrightarrow> r = Inl StepLimit)"
    using fuelledD [OF loop s(1)] by simp
qed

lemma fuelled_after_body [limit_intros]: "fuelled cfg b m \<Longrightarrow> fuelled cfg b (after_body fl m)"
  by (cases fl) (simp_all add: after_body_def fuelled_retc)

lemma fuelled_exec_decls:
  assumes e: "\<And>e. fuelled cfg b (eval cfg rp e)"
  shows "fuelled cfg b (exec_decls (eval cfg rp) ds)"
proof (induction ds)
  case (Cons d ds)
  then show ?case by (cases d) (simp only: exec_decls.simps, intro limit_intros e)
qed (simp only: exec_decls.simps fuelled_retc)

lemma fuelled_find_case:
  assumes e: "\<And>e. fuelled cfg b (eval cfg rp e)"
  shows "fuelled cfg b (find_case (eval cfg rp) d cs)"
proof (induction cs)
  case (Cons c cs)
  then show ?case by (cases c) (simp only: find_case.simps, intro limit_intros e)
qed (simp only: find_case.simps fuelled_retc)

lemma fuelled_exec_list:
  "(\<And>s. s \<in> set ss \<Longrightarrow> fuelled cfg b (exec_stmt cfg (eval cfg rp) s)) \<Longrightarrow> fuelled cfg b (exec_list cfg (eval cfg rp) ss)"
  by (induction ss) (simp_all, (intro limit_intros; simp)+)

lemma fuelled_exec_clauses:
  "(\<And>c s. c \<in> set cs \<Longrightarrow> s \<in> set (case_body c) \<Longrightarrow> fuelled cfg b (exec_stmt cfg (eval cfg rp) s)) \<Longrightarrow>
    fuelled cfg b (exec_clauses cfg (eval cfg rp) k cs)"
proof (induction cs arbitrary: k)
  case (Cons c cs)
  obtain t body where c: "c = SwitchCase t body" by (cases c)
  have rest: "fuelled cfg b (exec_clauses cfg (eval cfg rp) k cs)" for k
    using Cons by auto
  have body: "fuelled cfg b (exec_list cfg (eval cfg rp) body)"
    by (rule fuelled_exec_list) (use Cons.prems [of c] c in simp)
  have flow: "fuelled cfg b (case fl of Normal \<Rightarrow> exec_clauses cfg (eval cfg rp) 0 cs | Return v \<Rightarrow> retc (Return v) | Break \<Rightarrow> retc Normal)" for fl
    by (cases fl) (simp_all add: rest fuelled_retc)
  show ?case
    by (cases k) (simp_all only: c exec_clauses.simps nat.case rest, intro limit_intros body flow)
qed (simp add: fuelled_retc)

lemma fuelled_stmt:
  assumes rp: "\<And>i vs. fuelled cfg n (rp i vs)"
  shows "fuelled cfg (Suc n) (exec_stmt cfg (eval cfg rp) s) \<and> (\<forall>x \<in> set (as_list s). fuelled cfg (Suc n) (exec_stmt cfg (eval cfg rp) x))"
    and "\<forall>s \<in> set (case_body c). fuelled cfg (Suc n) (exec_stmt cfg (eval cfg rp) s)"
proof (induction s and c)
  note e = fuelled_mono [OF fuelled_eval [OF rp]]
  note parts = e fuelled_exec_decls [OF e] fuelled_find_case [OF e]
  {
    case (BlockStatement b)
    then show ?case
      by (auto intro!: fuelled_tick limit_intros fuelled_exec_list intro: fuelled_mono)
  next
    case (IfStatement c t a)
    have "fuelled cfg n (exec_list cfg (eval cfg rp) (as_list t))"
      by (rule fuelled_exec_list) (use IfStatement in \<open>blast intro: fuelled_mono\<close>)
    moreover have "fuelled cfg n (exec_list cfg (eval cfg rp) (as_list b))" if "a = Some b" for b
      by (rule fuelled_exec_list) (use IfStatement that in \<open>fastforce intro: fuelled_mono\<close>)
    ultimately show ?case by (auto intro!: fuelled_tick limit_intros parts)
  next
    case (WhileStatement t b)
    have "fuelled cfg n (exec_list cfg (eval cfg rp) (as_list b))"
      by (rule fuelled_exec_list) (use WhileStatement in \<open>blast intro: fuelled_mono\<close>)
    then show ?case by (auto intro!: fuelled_tick limit_intros parts)
  next
    case (DoWhileStatement b t)
    have "fuelled cfg n (exec_list cfg (eval cfg rp) (as_list b))"
      by (rule fuelled_exec_list) (use DoWhileStatement in \<open>blast intro: fuelled_mono\<close>)
    then show ?case by (auto intro!: fuelled_tick limit_intros parts)
  next
    case (ForStatement i t u b)
    have "fuelled cfg n (exec_list cfg (eval cfg rp) (as_list b))"
      by (rule fuelled_exec_list) (use ForStatement in \<open>blast intro: fuelled_mono\<close>)
    then show ?case by (auto intro!: fuelled_tick limit_intros parts split: for_init.splits)
  next
    case (SwitchStatement d cs)
    then have "fuelled cfg n (exec_clauses cfg (eval cfg rp) k cs)" for k
      by (intro fuelled_exec_clauses) (fastforce intro: fuelled_mono)
    then show ?case by (auto intro!: fuelled_tick limit_intros parts)
  }
qed (auto intro!: fuelled_tick limit_intros fuelled_exec_decls fuelled_mono [OF fuelled_eval [OF rp]])

lemma fuelled_run_proc: "fuelled cfg n (run_proc cfg n entry i vs)"
proof (induction n arbitrary: entry i vs)
  case 0
  show ?case by (simp add: fuelled_def)
next
  case (Suc n)
  have body: "fuelled cfg (Suc n) (exec_list cfg (eval cfg (run_proc cfg n False)) (proc_body (cfg_procs cfg ! i)))"
    using fuelled_stmt(1) [of cfg n "run_proc cfg n False"] Suc by (intro fuelled_exec_list) blast
  have out: "fuelled cfg (Suc n) (case fl of Return v \<Rightarrow> retc v
      | _ \<Rightarrow> if entry then throwc (Unspecified OffTheEnd) else retc 0)" for fl
    by (cases fl) (auto intro: limit_intros)
  show ?case
    by (simp only: run_proc.simps) (intro limit_intros body out; simp)
qed

definition initial :: "'m \<Rightarrow> 'm mstate" where
  "initial mem = \<lparr>m_steps = 0, m_scope = [], m_mem = mem\<rparr>"

lemma initial_simps [simp]:
  "m_steps (initial mem) = 0" "m_scope (initial mem) = []" "m_mem (initial mem) = mem"
  by (simp_all add: initial_def)

lemma evaluate_run:
  "run_proc cfg (Suc (cfg_max cfg)) True 0 args (initial mem) = (r, s) \<Longrightarrow>
    evaluate cfg args mem = (classify r, m_steps s, m_mem s)"
  by (simp add: evaluate_def initial_def)

lemma classify_simps:
  "classify r = Inr OStepLimit \<longleftrightarrow> r = Inl StepLimit"
  "classify r = Inl OutOfFuel \<longleftrightarrow> r = Inl OutOfFuel"
  "classify r = Inl (JsError msg) \<longleftrightarrow> r = Inl (JsError msg)"
  by (auto simp: classify_def split: sum.splits fault.splits)

text \<open>
  C30. \<open>evaluate\<close> always terminates: the loops and calls of the model never exhaust their fuel,
  whatever the program, the arguments and the extension. The step limit is exact: a run counts
  at most one step beyond it, and counts that one exactly when its outcome is the step limit.
\<close>
theorem evaluate_terminates:
  "case evaluate cfg args mem of (r, steps, _) \<Rightarrow>
     r \<noteq> Inl OutOfFuel \<and> steps \<le> Suc (cfg_max cfg) \<and>
     (r = Inr OStepLimit \<longleftrightarrow> steps = Suc (cfg_max cfg))"
proof -
  obtain r s where run: "run_proc cfg (Suc (cfg_max cfg)) True 0 args (initial mem) = (r, s)"
    by (cases "run_proc cfg (Suc (cfg_max cfg)) True 0 args (initial mem)")
  from fuelledD [OF fuelled_run_proc _ _ run] evaluate_run [OF run]
  show ?thesis by (auto simp: classify_simps)
qed

subsection \<open>A higher limit\<close>

named_theorems upto_intros "rules for computations that agree up to the limit"

text \<open>Wherever \<open>m\<close> does not stop for lack of steps or fuel, \<open>m'\<close> does the same.\<close>

definition agrees_upto :: "('m, 'a) ev \<Rightarrow> ('m, 'a) ev \<Rightarrow> bool" where
  "agrees_upto m m' \<longleftrightarrow>
     (\<forall>s. fst (m s) \<noteq> Inl StepLimit \<longrightarrow> fst (m s) \<noteq> Inl OutOfFuel \<longrightarrow> m' s = m s)"

lemma agrees_refl [upto_intros]: "agrees_upto m m"
  by (simp add: agrees_upto_def)

lemma agrees_bindc [upto_intros]:
  assumes "agrees_upto m m'" and "\<And>v. agrees_upto (f v) (f' v)"
  shows "agrees_upto (bindc m f) (bindc m' f')"
  unfolding agrees_upto_def
proof (intro allI impI)
  fix s assume ok: "fst (bindc m f s) \<noteq> Inl StepLimit" "fst (bindc m f s) \<noteq> Inl OutOfFuel"
  obtain q t where q: "m s = (q, t)" by (cases "m s")
  have "m' s = m s"
    using assms(1) ok q by (cases q) (auto simp: agrees_upto_def bindc_def)
  with assms(2) ok q show "bindc m' f' s = bindc m f s"
    by (cases q) (auto simp: agrees_upto_def bindc_def)
qed

lemma agrees_if [upto_intros]:
  "agrees_upto m m' \<Longrightarrow> agrees_upto n n' \<Longrightarrow> agrees_upto (if c then m else n) (if c then m' else n')"
  by simp

lemma agrees_option [upto_intros]:
  "agrees_upto m m' \<Longrightarrow> (\<And>v. x = Some v \<Longrightarrow> agrees_upto (f v) (f' v)) \<Longrightarrow>
    agrees_upto (case x of None \<Rightarrow> m | Some v \<Rightarrow> f v) (case x of None \<Rightarrow> m' | Some v \<Rightarrow> f' v)"
  by (cases x) simp_all

lemma agrees_tick [upto_intros]: "cfg_max cfg \<le> cfg_max cfg' \<Longrightarrow> agrees_upto (tick cfg) (tick cfg')"
  by (auto simp: agrees_upto_def tick_def bindc_def)

lemma agrees_in_child [upto_intros]: "agrees_upto m m' \<Longrightarrow> agrees_upto (in_child m) (in_child m')"
  unfolding in_child_def by (intro upto_intros)

lemma agrees_u32_val [upto_intros]: "agrees_upto m m' \<Longrightarrow> agrees_upto (u32_val m) (u32_val m')"
  unfolding u32_val_def by (intro upto_intros)

lemma agrees_after_body [upto_intros]: "agrees_upto m m' \<Longrightarrow> agrees_upto (after_body fl m) (after_body fl m')"
  by (cases fl) (simp_all add: after_body_def agrees_refl)

lemma agrees_loop_fuel:
  assumes "agrees_upto m m'" and "k \<le> k'"
  shows "agrees_upto (loop_fuel k m) (loop_fuel k' m')"
  using assms(2)
proof (induction k arbitrary: k')
  case 0
  show ?case by (simp add: agrees_upto_def)
next
  case (Suc k)
  then obtain j where j: "k' = Suc j" "k \<le> j" by (cases k') auto
  have "agrees_upto (case it of Again \<Rightarrow> loop_fuel k m | Stop fl \<Rightarrow> retc fl)
      (case it of Again \<Rightarrow> loop_fuel j m' | Stop fl \<Rightarrow> retc fl)" for it
    using Suc.IH [OF j(2)] by (cases it) (simp_all add: agrees_refl)
  with assms(1) show ?case by (simp only: j loop_fuel.simps) (intro upto_intros)
qed

definition raise_limit :: "nat \<Rightarrow> 'm config \<Rightarrow> 'm config" where
  "raise_limit k cfg = cfg\<lparr>cfg_max := cfg_max cfg + k\<rparr>"

lemma raise_limit_simps [simp]:
  "cfg_max (raise_limit k cfg) = cfg_max cfg + k" "cfg_procs (raise_limit k cfg) = cfg_procs cfg"
  "cfg_exec (raise_limit k cfg) = cfg_exec cfg"
  by (simp_all add: raise_limit_def)

lemma ext_call_raise [simp]: "ext_call (raise_limit k cfg) = ext_call cfg"
  by (intro ext) (simp add: ext_call_def run_ext_def)

lemma agrees_tick_raise [upto_intros]: "agrees_upto (tick cfg) (tick (raise_limit k cfg))"
  by (rule agrees_tick) simp

lemma agrees_loop [upto_intros]:
  assumes "agrees_upto m m'"
  shows "agrees_upto (loop_ev cfg m) (loop_ev (raise_limit k cfg) m')"
  unfolding loop_ev_def
  by (intro upto_intros agrees_loop_fuel assms) simp

lemma agrees_args:
  assumes "\<And>e. e \<in> set es \<Longrightarrow> agrees_upto (eval cfg rp e) (eval cfg' rp' e)"
    and "agrees_upto (tick cfg) (tick cfg')"
  shows "agrees_upto (eval_args cfg rp es) (eval_args cfg' rp' es)"
    "agrees_upto (eval_first cfg rp es) (eval_first cfg' rp' es)"
proof -
  show "agrees_upto (eval_args cfg rp es) (eval_args cfg' rp' es)"
    using assms(1) by (induction es) (simp_all, (intro upto_intros; simp)+)
  show "agrees_upto (eval_first cfg rp es) (eval_first cfg' rp' es)"
  proof (cases es)
    case Nil
    show ?thesis by (simp only: Nil eval_first.simps) (intro upto_intros assms(2))
  next
    case (Cons e es')
    show ?thesis by (simp only: Cons eval_first.simps) (intro upto_intros assms(1), simp add: Cons)
  qed
qed

lemma agrees_eval:
  assumes rp: "\<And>i vs. agrees_upto (rp i vs) (rp' i vs)"
  shows "agrees_upto (eval cfg rp e) (eval (raise_limit k cfg) rp' e)"
proof (induction e)
  case (UpdateExpression op pre e)
  show ?case by (cases e) (simp_all only: eval.simps expr.case, (intro upto_intros)+)
next
  case (CallExpression f args)
  note args = agrees_args [OF CallExpression.IH agrees_tick_raise]
  show ?case by (simp only: eval.simps ext_call_raise) (intro upto_intros args rp)
qed (simp only: eval.simps, intro upto_intros; assumption?)+

lemma agrees_exec_decls:
  assumes e: "\<And>e. agrees_upto (eval cfg rp e) (eval cfg' rp' e)"
  shows "agrees_upto (exec_decls (eval cfg rp) ds) (exec_decls (eval cfg' rp') ds)"
proof (induction ds)
  case (Cons d ds)
  then show ?case by (cases d) (simp only: exec_decls.simps, intro upto_intros e)
qed (simp only: exec_decls.simps agrees_refl)

lemma agrees_find_case:
  assumes e: "\<And>e. agrees_upto (eval cfg rp e) (eval cfg' rp' e)"
  shows "agrees_upto (find_case (eval cfg rp) d cs) (find_case (eval cfg' rp') d cs)"
proof (induction cs)
  case (Cons c cs)
  then show ?case by (cases c) (simp only: find_case.simps, intro upto_intros e)
qed (simp only: find_case.simps agrees_refl)

lemma agrees_exec_list:
  "(\<And>s. s \<in> set ss \<Longrightarrow> agrees_upto (exec_stmt cfg (eval cfg rp) s) (exec_stmt cfg' (eval cfg' rp') s)) \<Longrightarrow>
    agrees_upto (exec_list cfg (eval cfg rp) ss) (exec_list cfg' (eval cfg' rp') ss)"
  by (induction ss) (simp_all only: exec_list.simps agrees_refl, (intro upto_intros; simp)+)

lemma agrees_exec_clauses:
  "(\<And>c s. c \<in> set cs \<Longrightarrow> s \<in> set (case_body c) \<Longrightarrow> agrees_upto (exec_stmt cfg (eval cfg rp) s) (exec_stmt cfg' (eval cfg' rp') s)) \<Longrightarrow>
    agrees_upto (exec_clauses cfg (eval cfg rp) n cs) (exec_clauses cfg' (eval cfg' rp') n cs)"
proof (induction cs arbitrary: n)
  case (Cons c cs)
  obtain t body where c: "c = SwitchCase t body" by (cases c)
  have rest: "agrees_upto (exec_clauses cfg (eval cfg rp) n cs) (exec_clauses cfg' (eval cfg' rp') n cs)" for n
    using Cons by auto
  have body: "agrees_upto (exec_list cfg (eval cfg rp) body) (exec_list cfg' (eval cfg' rp') body)"
    by (rule agrees_exec_list) (use Cons.prems [of c] c in simp)
  have flow: "agrees_upto (case fl of Normal \<Rightarrow> exec_clauses cfg (eval cfg rp) 0 cs | Return v \<Rightarrow> retc (Return v) | Break \<Rightarrow> retc Normal)
      (case fl of Normal \<Rightarrow> exec_clauses cfg' (eval cfg' rp') 0 cs | Return v \<Rightarrow> retc (Return v) | Break \<Rightarrow> retc Normal)" for fl
    by (cases fl) (simp_all add: rest agrees_refl)
  show ?case
    by (cases n) (simp_all only: c exec_clauses.simps nat.case rest, intro upto_intros body flow)
qed (simp only: exec_clauses.simps agrees_refl)

lemma agrees_stmt:
  fixes cfg :: "'m config" and rp rp' :: "'m runner" and k :: nat
  assumes rp: "\<And>i vs. agrees_upto (rp i vs) (rp' i vs)"
  defines "same s \<equiv> agrees_upto (exec_stmt cfg (eval cfg rp) s) (exec_stmt (raise_limit k cfg) (eval (raise_limit k cfg) rp') s)"
  shows "same s \<and> (\<forall>x \<in> set (as_list s). same x)" and "\<forall>s \<in> set (case_body c). same s"
proof (induction s and c)
  note e = agrees_eval [OF rp]
  note parts = e agrees_exec_decls [OF e] agrees_find_case [OF e]
  have lists: "agrees_upto (exec_list cfg (eval cfg rp) ss) (exec_list (raise_limit k cfg) (eval (raise_limit k cfg) rp') ss)" if "\<forall>x \<in> set ss. same x" for ss
    using that by (intro agrees_exec_list) (simp add: same_def)
  {
    case (BlockStatement b)
    then have "same (BlockStatement b)"
      by (simp only: same_def exec_stmt.simps) (intro upto_intros agrees_exec_list, simp add: same_def)
    with BlockStatement show ?case by simp
  next
    case (IfStatement c t a)
    then have "same (IfStatement c t a)"
      by (simp only: same_def exec_stmt.simps) (intro upto_intros parts lists; simp add: same_def)
    then show ?case by simp
  next
    case (WhileStatement t b)
    then have "same (WhileStatement t b)"
      by (simp only: same_def exec_stmt.simps) (intro upto_intros parts lists; simp add: same_def)
    then show ?case by simp
  next
    case (DoWhileStatement b t)
    then have "same (DoWhileStatement b t)"
      by (simp only: same_def exec_stmt.simps) (intro upto_intros parts lists; simp add: same_def)
    then show ?case by simp
  next
    case (ForStatement i t u b)
    have init: "agrees_upto
        (case x of InitDecl ds \<Rightarrow> bindc (tick cfg) (\<lambda>_. exec_decls (eval cfg rp) ds)
          | InitExpr e \<Rightarrow> bindc (eval cfg rp e) (\<lambda>_. retc ()))
        (case x of InitDecl ds \<Rightarrow> bindc (tick (raise_limit k cfg)) (\<lambda>_. exec_decls (eval (raise_limit k cfg) rp') ds)
          | InitExpr e \<Rightarrow> bindc (eval (raise_limit k cfg) rp' e) (\<lambda>_. retc ()))" for x
      by (cases x) (simp_all only: for_init.case, (intro upto_intros parts)+)
    from ForStatement have "same (ForStatement i t u b)"
      by (simp only: same_def exec_stmt.simps) (intro upto_intros parts init lists; simp add: same_def)
    then show ?case by simp
  next
    case (SwitchStatement d cs)
    then have "same (SwitchStatement d cs)"
      by (simp only: same_def exec_stmt.simps) (intro upto_intros parts agrees_exec_clauses; force simp: same_def)
    then show ?case by simp
  }
qed (simp_all add: same_def, (intro upto_intros agrees_exec_decls agrees_eval [OF rp])+)

lemma agrees_run_proc:
  "n \<le> n' \<Longrightarrow> agrees_upto (run_proc cfg n entry i vs) (run_proc (raise_limit k cfg) n' entry i vs)"
proof (induction n arbitrary: n' entry i vs)
  case 0
  show ?case by (simp add: agrees_upto_def)
next
  case (Suc n)
  then obtain j where j: "n' = Suc j" "n \<le> j" by (cases n') auto
  have "agrees_upto (exec_list cfg (eval cfg (run_proc cfg n False)) ss)
      (exec_list (raise_limit k cfg) (eval (raise_limit k cfg) (run_proc (raise_limit k cfg) j False)) ss)" for ss
    using agrees_stmt(1) [where rp = "run_proc cfg n False" and rp' = "run_proc (raise_limit k cfg) j False"] Suc.IH [OF j(2)]
    by (intro agrees_exec_list) blast
  then show ?case
    by (simp only: j run_proc.simps raise_limit_simps) (intro upto_intros)
qed

lemma evaluate_raise_limit:
  assumes "fst (evaluate cfg args mem) \<noteq> Inr OStepLimit"
  shows "evaluate (cfg\<lparr>cfg_max := cfg_max cfg + k\<rparr>) args mem = evaluate cfg args mem"
proof -
  obtain r s where run: "run_proc cfg (Suc (cfg_max cfg)) True 0 args (initial mem) = (r, s)"
    by (cases "run_proc cfg (Suc (cfg_max cfg)) True 0 args (initial mem)")
  have "r \<noteq> Inl StepLimit" using assms evaluate_run [OF run] by (auto simp: classify_simps)
  moreover have "r \<noteq> Inl OutOfFuel" using fuelledD(2) [OF fuelled_run_proc _ _ run] by simp
  moreover have "agrees_upto (run_proc cfg (Suc (cfg_max cfg)) True 0 args)
      (run_proc (raise_limit k cfg) (Suc (cfg_max (raise_limit k cfg))) True 0 args)"
    by (rule agrees_run_proc) simp
  ultimately have "run_proc (raise_limit k cfg) (Suc (cfg_max (raise_limit k cfg))) True 0 args (initial mem) = (r, s)"
    using run by (simp add: agrees_upto_def)
  from evaluate_run [OF this] evaluate_run [OF run] show ?thesis by (simp add: raise_limit_def)
qed

text \<open>
  C31. The step limit never decides an answer: a run that ends within the limit, with whatever
  outcome or error, ends the same way, after the same number of steps and with the same memory,
  under every higher limit.
\<close>
theorem evaluate_limit_irrelevant:
  assumes "fst (evaluate cfg args mem) \<noteq> Inr OStepLimit"
  shows "evaluate (cfg\<lparr>cfg_max := cfg_max cfg + k\<rparr>) args mem = evaluate cfg args mem"
  by (rule evaluate_raise_limit [OF assms])

definition sample_program :: gen_program where
  "sample_program =
     [\<lparr>proc_args = [''a''], proc_body =
        [VariableDeclaration [Declarator U8 ''x'' (Some (Literal 250))],
         WhileStatement (BinaryExpression Greater (Identifier ''a'') (Literal 0))
           (BlockStatement
             [ExpressionStatement (AssignmentExpression (Compound Plus) ''x'' (CallExpression ''p1'' [Identifier ''a''])),
              ExpressionStatement (UpdateExpression Decr False (Identifier ''a''))]),
         ReturnStatement (Some (Identifier ''x''))]\<rparr>,
      \<lparr>proc_args = [''n''], proc_body =
        [ReturnStatement (Some (BinaryExpression Shl (Identifier ''n'') (Literal 1)))]\<rparr>]"

definition sample_config :: "nat \<Rightarrow> unit config" where
  "sample_config k =
     \<lparr>cfg_procs = sample_program, cfg_exec = (\<lambda>n ops s. (Inl ''none'', s)), cfg_max = k\<rparr>"

lemma evaluate_limit_irrelevant_witness:
  "evaluate (sample_config 1000) [3] () = evaluate (sample_config 60) [3] ()
    \<and> fst (evaluate (sample_config 60) [3] ()) = Inr (OReturn 6)"
proof -
  have r: "fst (evaluate (sample_config 60) [3] ()) = Inr (OReturn 6)" by code_simp
  have "(sample_config 60)\<lparr>cfg_max := cfg_max (sample_config 60) + 940\<rparr> = sample_config 1000"
    by (simp add: sample_config_def)
  with evaluate_limit_irrelevant [of "sample_config 60" "[3]" "()" 940] r show ?thesis by simp
qed

end
