(* ===== verification/Eval_Types.thy ===== *)
theory Eval_Types
  imports Eval_Limits Raw_Mem
begin

section \<open>Types and scopes of the evaluator\<close>

text \<open>
  Two results on \<^verbatim>\<open>eval/ast-eval.ts\<close> that rest on one induction. Every value an expression
  evaluates to has the type \<^verbatim>\<open>typeOf\<close> predicts and is in that type's range, scopes keep
  their names and types, and stored values stay extended. And a program that is well scoped
  (every name declared before its use, callees that exist, arities that match, no \<open>/\<close> or
  \<open>%\<close>) never throws anything but the three answers, whatever its arguments.
  The judgement is \<open>wf_program\<close>; \<open>strict\<close> selects the second reading of the contracts.
\<close>

subsection \<open>Type environments\<close>

type_synonym env = "(string \<rightharpoonup> prim_type) list"

fun env_lookup :: "env \<Rightarrow> string \<Rightarrow> prim_type option" where
  "env_lookup [] n = None"
| "env_lookup (f # fs) n = (case f n of Some t \<Rightarrow> Some t | None \<Rightarrow> env_lookup fs n)"

fun env_declare :: "env \<Rightarrow> string \<Rightarrow> prim_type \<Rightarrow> env" where
  "env_declare [] n t = []"
| "env_declare (f # fs) n t = f(n \<mapsto> t) # fs"

lemma env_lookup_shape: "env_lookup (shape sc) n = map_option slot_type (scope_lookup sc n)"
  by (induction sc) (auto simp: frame_types_def split: option.splits)

lemma shape_declare_env [simp]: "shape (scope_declare sc n t v) = env_declare (shape sc) n t"
  by (cases sc) (auto simp: frame_types_def fun_eq_iff)

lemma env_declare_Nil [simp]: "env_declare E n t = [] \<longleftrightarrow> E = []"
  by (cases E) auto

lemma tl_env_declare [simp]: "tl (env_declare E n t) = tl E"
  by (cases E) auto

lemma slot_type_of_env: "slot_type_of sc n =
    (case env_lookup (shape sc) n of None \<Rightarrow> Inl (JsError ''unknown variable'') | Some t \<Rightarrow> Inr t)"
  by (simp add: slot_type_of_def env_lookup_shape split: option.split)

subsection \<open>Well-scoped programs\<close>

definition ext_arity :: "string \<Rightarrow> nat" where
  "ext_arity f =
     (if f \<in> set mem_acc_ops then (if take 2 f = ''ld'' then 1 else 2)
      else the (map_of mem_stack_arity f))"

definition wf_callee :: "nat \<Rightarrow> string \<Rightarrow> nat \<Rightarrow> bool" where
  "wf_callee np f k \<longleftrightarrow>
     (if f = ''trap'' \<or> f = ''clz'' \<or> f = ''revbits'' then 0 < k
      else if f \<in> set ext_ops then k = ext_arity f
      else case proc_index f of None \<Rightarrow> False | Some i \<Rightarrow> i < np)"

definition division :: "bin_op \<Rightarrow> bool" where
  "division op \<longleftrightarrow> op = Slash \<or> op = Percent"

fun wf_expr :: "nat \<Rightarrow> env \<Rightarrow> expr \<Rightarrow> bool" where
  "wf_expr np E (Literal v) \<longleftrightarrow> True"
| "wf_expr np E (Identifier n) \<longleftrightarrow> env_lookup E n \<noteq> None"
| "wf_expr np E (CastExpression t e) \<longleftrightarrow> wf_expr np E e"
| "wf_expr np E (UnaryExpression op e) \<longleftrightarrow> wf_expr np E e"
| "wf_expr np E (BinaryExpression op l r) \<longleftrightarrow> \<not> division op \<and> wf_expr np E l \<and> wf_expr np E r"
| "wf_expr np E (LogicalExpression op l r) \<longleftrightarrow> wf_expr np E l \<and> wf_expr np E r"
| "wf_expr np E (ConditionalExpression c a b) \<longleftrightarrow> wf_expr np E c \<and> wf_expr np E a \<and> wf_expr np E b"
| "wf_expr np E (AssignmentExpression op n e) \<longleftrightarrow>
     env_lookup E n \<noteq> None \<and> wf_expr np E e
     \<and> (case op of Assign \<Rightarrow> True | Compound b \<Rightarrow> \<not> division b)"
| "wf_expr np E (UpdateExpression op pre e) \<longleftrightarrow>
     (case e of Identifier n \<Rightarrow> env_lookup E n \<noteq> None | _ \<Rightarrow> False)"
| "wf_expr np E (CallExpression f args) \<longleftrightarrow>
     wf_callee np f (length args) \<and> list_all (wf_expr np E) args"

definition wf_opt :: "nat \<Rightarrow> env \<Rightarrow> expr option \<Rightarrow> bool" where
  "wf_opt np E x \<longleftrightarrow> (case x of None \<Rightarrow> True | Some e \<Rightarrow> wf_expr np E e)"

fun wf_decls :: "nat \<Rightarrow> env \<Rightarrow> declarator list \<Rightarrow> bool" where
  "wf_decls np E [] \<longleftrightarrow> True"
| "wf_decls np E (Declarator t n i # ds) \<longleftrightarrow> wf_opt np E i \<and> wf_decls np (env_declare E n t) ds"

fun env_decls :: "env \<Rightarrow> declarator list \<Rightarrow> env" where
  "env_decls E [] = E"
| "env_decls E (Declarator t n i # ds) = env_decls (env_declare E n t) ds"

fun wf_init :: "nat \<Rightarrow> env \<Rightarrow> for_init option \<Rightarrow> bool" where
  "wf_init np E None \<longleftrightarrow> True"
| "wf_init np E (Some (InitDecl ds)) \<longleftrightarrow> wf_decls np E ds"
| "wf_init np E (Some (InitExpr e)) \<longleftrightarrow> wf_expr np E e"

fun env_init :: "env \<Rightarrow> for_init option \<Rightarrow> env" where
  "env_init E (Some (InitDecl ds)) = env_decls E ds"
| "env_init E _ = E"

fun env_after :: "env \<Rightarrow> stmt \<Rightarrow> env" where
  "env_after E (VariableDeclaration ds) = env_decls E ds"
| "env_after E _ = E"

function (sequential) wf_stmt :: "nat \<Rightarrow> env \<Rightarrow> stmt \<Rightarrow> bool"
  and wf_list :: "nat \<Rightarrow> env \<Rightarrow> stmt list \<Rightarrow> bool"
  and wf_cases :: "nat \<Rightarrow> env \<Rightarrow> switch_case list \<Rightarrow> bool" where
  "wf_stmt np E (BlockStatement b) \<longleftrightarrow> wf_list np (Map.empty # E) b"
| "wf_stmt np E BreakStatement \<longleftrightarrow> True"
| "wf_stmt np E (ExpressionStatement e) \<longleftrightarrow> wf_expr np E e"
| "wf_stmt np E (ReturnStatement a) \<longleftrightarrow> wf_opt np E a"
| "wf_stmt np E (VariableDeclaration ds) \<longleftrightarrow> wf_decls np E ds"
| "wf_stmt np E (IfStatement t c a) \<longleftrightarrow>
     wf_expr np E t \<and> wf_list np (Map.empty # E) (as_list c)
     \<and> (case a of None \<Rightarrow> True | Some b \<Rightarrow> wf_list np (Map.empty # E) (as_list b))"
| "wf_stmt np E (WhileStatement t b) \<longleftrightarrow> wf_expr np E t \<and> wf_list np (Map.empty # E) (as_list b)"
| "wf_stmt np E (DoWhileStatement b t) \<longleftrightarrow> wf_expr np E t \<and> wf_list np (Map.empty # E) (as_list b)"
| "wf_stmt np E (ForStatement i t u b) \<longleftrightarrow>
     wf_init np (Map.empty # E) i
     \<and> wf_opt np (env_init (Map.empty # E) i) t \<and> wf_opt np (env_init (Map.empty # E) i) u
     \<and> wf_list np (Map.empty # env_init (Map.empty # E) i) (as_list b)"
| "wf_stmt np E (SwitchStatement d cs) \<longleftrightarrow> wf_expr np E d \<and> wf_cases np E cs"
| "wf_list np E [] \<longleftrightarrow> True"
| "wf_list np E (s # ss) \<longleftrightarrow> wf_stmt np E s \<and> wf_list np (env_after E s) ss"
| "wf_cases np E [] \<longleftrightarrow> True"
| "wf_cases np E (SwitchCase t b # cs) \<longleftrightarrow>
     wf_opt np E t \<and> wf_list np (Map.empty # E) b \<and> wf_cases np E cs"
  by pat_completeness auto

termination
  by (relation "measure (case_sum (\<lambda>(_, _, s). Suc (2 * size s))
    (case_sum (\<lambda>(_, _, ss). 2 * size_list size ss) (\<lambda>(_, _, cs). 2 * size_list size cs)))")
    (auto simp: termination_simp)

definition params_env :: "string list \<Rightarrow> env" where
  "params_env ns = [\<lambda>n. if n \<in> set ns then Some U32 else None]"

definition wf_program :: "gen_program \<Rightarrow> bool" where
  "wf_program p \<longleftrightarrow> p \<noteq> [] \<and>
     list_all (\<lambda>pr. wf_list (length p) (params_env (proc_args pr)) (proc_body pr)) p"

subsection \<open>Contracts\<close>

definition js_error :: "fault \<Rightarrow> bool" where
  "js_error e \<longleftrightarrow> (\<exists>msg. e = JsError msg)"

lemma js_error_simps [simp]:
  "js_error (JsError msg)" "\<not> js_error (Trapped v)" "\<not> js_error (Unspecified u)"
  "\<not> js_error StepLimit" "\<not> js_error OutOfFuel"
  by (simp_all add: js_error_def)

definition state_ok :: "('m \<Rightarrow> bool) \<Rightarrow> env \<Rightarrow> 'm mstate \<Rightarrow> bool" where
  "state_ok I E s \<longleftrightarrow> scope_ok (m_scope s) \<and> shape (m_scope s) = E \<and> I (m_mem s)"

definition fault_ok :: "bool \<Rightarrow> ('m \<Rightarrow> bool) \<Rightarrow> fault \<Rightarrow> 'm mstate \<Rightarrow> bool" where
  "fault_ok strict I e s \<longleftrightarrow> (strict \<longrightarrow> \<not> js_error e) \<and> I (m_mem s)"

text \<open>A computation that keeps the state well formed and returns a value with \<open>Q\<close>.\<close>

definition sound :: "bool \<Rightarrow> ('m \<Rightarrow> bool) \<Rightarrow> env \<Rightarrow> ('m, 'a) ev \<Rightarrow> ('a \<Rightarrow> bool) \<Rightarrow> bool" where
  "sound strict I E m Q \<longleftrightarrow>
     run_spec (state_ok I E) m (\<lambda>v s. state_ok I E s \<and> Q v) (fault_ok strict I)"

lemma sound_bindc:
  assumes "sound st I E m R" and "\<And>v. R v \<Longrightarrow> sound st I E (f v) Q"
  shows "sound st I E (bindc m f) Q"
  unfolding sound_def
proof (rule run_spec_bindc)
  show "run_spec (state_ok I E) m (\<lambda>v s. state_ok I E s \<and> R v) (fault_ok st I)"
    using assms(1) by (simp add: sound_def)
  show "run_spec (\<lambda>s. state_ok I E s \<and> R v) (f v) (\<lambda>v s. state_ok I E s \<and> Q v) (fault_ok st I)" for v
    using assms(2) [of v] by (auto simp: sound_def run_spec_def)
qed

lemma sound_weaken: "sound st I E m R \<Longrightarrow> (\<And>v. R v \<Longrightarrow> Q v) \<Longrightarrow> sound st I E m Q"
  unfolding sound_def by (erule run_spec_conseq) auto

lemma sound_retc: "Q v \<Longrightarrow> sound st I E (retc v) Q"
  by (simp add: sound_def run_spec_retc)

lemma sound_throwc: "(st \<Longrightarrow> \<not> js_error e) \<Longrightarrow> sound st I E (throwc e) Q"
  unfolding sound_def by (rule run_spec_throwc) (auto simp: state_ok_def fault_ok_def)

lemma sound_tick: "sound st I E (tick cfg) (\<lambda>_. True)"
  unfolding sound_def
  by (rule run_specI) (auto simp: tick_def bindc_def state_ok_def fault_ok_def split: if_splits)

lemma sound_tick_then: "sound st I E m Q \<Longrightarrow> sound st I E (bindc (tick cfg) (\<lambda>_. m)) Q"
  by (rule sound_bindc [OF sound_tick])

lemma sound_lift_sum:
  assumes "\<And>e. r = Inl e \<Longrightarrow> st \<Longrightarrow> \<not> js_error e" and "\<And>v. r = Inr v \<Longrightarrow> Q v"
  shows "sound st I E (lift_sum r) Q"
  using assms by (cases r) (auto simp: lift_sum_def intro: sound_throwc sound_retc)

subsection \<open>Operations on variables\<close>

lemma sound_lookup:
  assumes "st \<Longrightarrow> env_lookup E n \<noteq> None"
  shows "sound st I E (lookup_ev n)
    (\<lambda>sl. env_lookup E n = Some (slot_type sl) \<and> in_range (slot_type sl) (slot_value sl))"
  unfolding sound_def
  by (rule run_specI)
    (use assms in \<open>auto simp: lookup_ev_def bindc_def state_ok_def fault_ok_def requirec_def env_lookup_shape
      split: option.splits dest: scope_lookup_ok\<close>)

lemma sound_assign:
  assumes "env_lookup E n = Some t"
  shows "sound st I E (assign_ev n v) (\<lambda>w. w = narrow v t)"
  unfolding sound_def
  by (rule run_specI)
    (use assms in \<open>auto simp: assign_ev_def lookup_ev_def bindc_def state_ok_def fault_ok_def requirec_def
      env_lookup_shape scope_assign_ok split: option.splits\<close>)

text \<open>The type rule does not look at values.\<close>

definition has_type :: "env \<Rightarrow> expr \<Rightarrow> prim_type \<Rightarrow> bool" where
  "has_type E e t \<longleftrightarrow> (\<forall>sc. shape sc = E \<longrightarrow> type_of sc e = Inr t)"

definition typed :: "env \<Rightarrow> expr \<Rightarrow> val \<Rightarrow> bool" where
  "typed E e v \<longleftrightarrow> has_type E e (val_type v) \<and> in_range (val_type v) (val_value v)"

lemma wf_type_of: "wf_expr np (shape sc) e \<Longrightarrow> \<exists>t. type_of sc e = Inr t"
  by (induction sc e rule: type_of.induct)
    (auto simp: slot_type_of_def map_sum_r_def both_types_def env_lookup_shape split: option.splits expr.splits)

lemma sound_cond_type:
  assumes "st \<Longrightarrow> wf_expr np E a" "st \<Longrightarrow> wf_expr np E b"
  shows "sound st I E (cond_type a b)
    (\<lambda>t. (\<forall>sc. shape sc = E \<longrightarrow> both_types (type_of sc a) (type_of sc b) = Inr t) \<and> (t = U32 \<or> t = I32))"
  unfolding sound_def
proof (rule run_specI)
  fix s t v assume s: "state_ok I E s" and run: "cond_type a b s = (Inr v, t)"
  from run have "t = s" "both_types (type_of (m_scope s) a) (type_of (m_scope s) b) = Inr v"
    by (auto simp: cond_type_def bindc_def lift_sum_def split: sum.splits)
  moreover from this(2) have "v = U32 \<or> v = I32"
    by (auto simp: both_types_def usual_def split: sum.splits if_splits)
  ultimately show "state_ok I E t \<and>
      (\<forall>sc. shape sc = E \<longrightarrow> both_types (type_of sc a) (type_of sc b) = Inr v) \<and> (v = U32 \<or> v = I32)"
    using s type_of_shape by (metis state_ok_def)
next
  fix s t e assume s: "state_ok I E s" and run: "cond_type a b s = (Inl e, t)"
  have "\<not> st"
  proof
    assume st
    with assms s obtain ta tb where "type_of (m_scope s) a = Inr ta" "type_of (m_scope s) b = Inr tb"
      by (metis state_ok_def wf_type_of)
    with run show False by (simp add: cond_type_def bindc_def both_types_def lift_sum_def)
  qed
  moreover from run have "t = s" by (auto simp: cond_type_def bindc_def lift_sum_def split: sum.splits)
  ultimately show "fault_ok st I e t" using s by (simp add: fault_ok_def state_ok_def)
qed

subsection \<open>Expressions\<close>

lemma has_type_simps:
  "has_type E (Literal v) (literal_type v)"
  "env_lookup E n = Some t \<Longrightarrow> has_type E (Identifier n) t"
  "has_type E (CastExpression t e) t"
  "has_type E (LogicalExpression lop l r) I32"
  "has_type E (CallExpression f args) U32"
  "env_lookup E n = Some t \<Longrightarrow> has_type E (AssignmentExpression aop n e) t"
  "env_lookup E n = Some t \<Longrightarrow> has_type E (UpdateExpression uop pre (Identifier n)) t"
  by (auto simp: has_type_def slot_type_of_env)

lemma literal_in_range: "in_range (literal_type v) w"
  by (simp add: literal_type_def)

lemma promote_in_range: "in_range (promote t) w"
  by (cases t) (simp_all add: promote_def)

lemma result_type_in_range: "in_range (result_type op ta tb) w"
  by (auto simp: result_type_def promote_in_range usual_def)

lemma unary_typed: "typed E e v \<Longrightarrow> typed E (UnaryExpression op e) (unary op v)"
  by (cases op) (auto simp: typed_def has_type_def map_sum_r_def mk_val_def promote_in_range)

lemma binary_typed:
  "typed E l a \<Longrightarrow> typed E r b \<Longrightarrow> binary op a b = Inr v \<Longrightarrow> typed E (BinaryExpression op l r) v"
  by (cases op) (auto simp: typed_def has_type_def map_sum_r_def both_types_def mk_val_def binary_def Let_def
      comparison_def shift_op_def result_type_def usual_def promote_in_range split: if_splits)

lemma binary_safe: "\<not> division op \<Longrightarrow> binary op a b = Inl e \<Longrightarrow> \<not> js_error e"
  by (cases op) (auto simp: binary_def Let_def division_def split: if_splits)

lemma assigned_safe: "(case op of Assign \<Rightarrow> True | Compound b \<Rightarrow> \<not> division b) \<Longrightarrow>
    assigned op sl r = Inl e \<Longrightarrow> \<not> js_error e"
  by (auto simp: assigned_def dest: binary_safe split: assign_op.splits sum.splits)

subsection \<open>Blocks and loops\<close>

text \<open>Inside a child scope: a frame of its own on the parent's environment.\<close>

definition child_ok :: "('m \<Rightarrow> bool) \<Rightarrow> env \<Rightarrow> 'm mstate \<Rightarrow> bool" where
  "child_ok I E s \<longleftrightarrow>
     scope_ok (m_scope s) \<and> I (m_mem s) \<and> (\<exists>top. shape (m_scope s) = top # E)"

text \<open>A statement started in \<open>E\<close> keeps the outer frames and ends in \<open>E'\<close> when it ends normally.\<close>

definition runs_in :: "bool \<Rightarrow> ('m \<Rightarrow> bool) \<Rightarrow> env \<Rightarrow> ('m, flow) ev \<Rightarrow> env \<Rightarrow> bool" where
  "runs_in st I E m E' \<longleftrightarrow>
     run_spec (state_ok I E) m
       (\<lambda>fl s. child_ok I (tl E) s \<and> (fl = Normal \<longrightarrow> state_ok I E' s)) (fault_ok st I)"

lemma state_child: "state_ok I E s \<Longrightarrow> E \<noteq> [] \<Longrightarrow> child_ok I (tl E) s"
  by (cases E) (auto simp: state_ok_def child_ok_def)

lemma sound_runs_in: "sound st I E m Q \<Longrightarrow> E \<noteq> [] \<Longrightarrow> runs_in st I E m E"
  unfolding sound_def runs_in_def by (erule run_spec_conseq) (auto intro: state_child)

lemma sound_in_child:
  assumes "run_spec (state_ok I (Map.empty # E)) m (\<lambda>v. child_ok I E) (fault_ok st I)"
  shows "sound st I E (in_child m) (\<lambda>_. True)"
  unfolding sound_def in_child_def
proof (rule run_spec_bindc)
  show "run_spec (state_ok I E) (modifyc (\<lambda>s. s\<lparr>m_scope := Map.empty # m_scope s\<rparr>))
      (\<lambda>_. state_ok I (Map.empty # E)) (fault_ok st I)"
    by (rule run_spec_modifyc) (auto simp: state_ok_def frame_types_def)
  show "run_spec (state_ok I (Map.empty # E))
      (bindc m (\<lambda>r. bindc (modifyc (\<lambda>s. s\<lparr>m_scope := tl (m_scope s)\<rparr>)) (\<lambda>_. retc r)))
      (\<lambda>v s. state_ok I E s \<and> True) (fault_ok st I)"
  proof (rule run_spec_bindc [OF assms], rule run_spec_bindc)
    show "run_spec (child_ok I E) (modifyc (\<lambda>s. s\<lparr>m_scope := tl (m_scope s)\<rparr>)) (\<lambda>_. state_ok I E) (fault_ok st I)"
    proof (rule run_spec_modifyc)
      fix s :: "'a mstate" assume "child_ok I E s"
      then show "state_ok I E (s\<lparr>m_scope := tl (m_scope s)\<rparr>)"
        by (cases "m_scope s") (auto simp: child_ok_def state_ok_def)
    qed
  qed (auto intro: run_spec_retc)
qed

lemma runs_in_child: "runs_in st I (Map.empty # E) m E' \<Longrightarrow> sound st I E (in_child m) (\<lambda>_. True)"
  unfolding runs_in_def by (rule sound_in_child, erule run_spec_conseq) auto

lemma sound_loop:
  assumes "sound st I E step (\<lambda>_. True)"
  shows "sound st I E (loop_ev cfg step) (\<lambda>_. True)"
proof -
  have "sound st I E (loop_fuel k (bindc (tick cfg) (\<lambda>_. step))) (\<lambda>_. True)" for k
  proof (induction k)
    case 0
    show ?case by (simp only: loop_fuel.simps) (rule sound_throwc, simp)
  next
    case (Suc k)
    show ?case
    proof (simp only: loop_fuel.simps, rule sound_bindc [OF sound_tick_then [OF assms]])
      fix it
      show "sound st I E (case it of Again \<Rightarrow> loop_fuel k (bindc (tick cfg) (\<lambda>_. step)) | Stop fl \<Rightarrow> retc fl) (\<lambda>_. True)"
        using Suc by (cases it) (simp_all add: sound_retc)
    qed
  qed
  moreover have "loop_ev cfg step s = loop_fuel (Suc (cfg_max cfg - m_steps s)) (bindc (tick cfg) (\<lambda>_. step)) s" for s
    by (simp only: loop_ev_def) (simp add: bindc_def getc_def)
  ultimately show ?thesis
    by (simp add: sound_def run_spec_def del: loop_fuel.simps)
qed

lemma sound_after_body: "sound st I E m (\<lambda>_. True) \<Longrightarrow> sound st I E (after_body fl m) (\<lambda>_. True)"
  by (cases fl) (simp_all add: after_body_def sound_retc)

lemma tl_env_decls [simp]: "tl (env_decls E ds) = tl E"
  by (induction E ds rule: env_decls.induct) auto

lemma env_decls_Nil [simp]: "env_decls E ds = [] \<longleftrightarrow> E = []"
  by (induction E ds rule: env_decls.induct) auto

lemma env_after_simps [simp]: "tl (env_after E s) = tl E" "env_after E s = [] \<longleftrightarrow> E = []"
  by (cases s; simp)+

lemma env_init_simps [simp]: "tl (env_init E i) = tl E" "env_init E i = [] \<longleftrightarrow> E = []"
  by (cases "(E, i)" rule: env_init.cases; simp)+

text \<open>How many cells an extension call puts on the opcode's stack.\<close>

definition ext_cells :: "string \<Rightarrow> nat" where
  "ext_cells f =
     (if f \<in> set mem_acc_ops then (if take 2 f = ''ld'' then 0 else 1) else ext_arity f)"

text \<open>What the extension has to do for the evaluator; \<open>I\<close> is its own memory invariant.\<close>

locale eval_host =
  fixes exec :: "'m ext_exec"
    and I :: "'m \<Rightarrow> bool"
  assumes host_mem: "I (xmem x) \<Longrightarrow> exec n ops x = (r, y) \<Longrightarrow> I (xmem y)"
    and host_runs: "f \<in> set ext_ops \<Longrightarrow>
      length (xcells x) = ext_cells f \<Longrightarrow>
      \<exists>y. exec (to_upper f) [] x = (Inr (), y)"
begin

lemma sound_run_ext:
  assumes "cfg_exec cfg = exec"
    and "st \<Longrightarrow> f \<in> set ext_ops \<and>
      length vs = ext_cells f"
  shows "sound st I E (run_ext cfg f vs a) (\<lambda>_. True)"
  unfolding sound_def
proof (rule run_specI)
  fix s v t assume "state_ok I E s" "run_ext cfg f vs a s = (Inr v, t)"
  then obtain y where "exec (to_upper f) [] \<lparr>xacc = a, xcells = rev vs, xmem = m_mem s\<rparr> = (Inr (), y)"
    "t = s\<lparr>m_mem := xmem y\<rparr>" "state_ok I E s"
    by (auto simp: run_ext_def assms(1) split: prod.splits sum.splits)
  then show "state_ok I E t \<and> True"
    using host_mem [of "\<lparr>xacc = a, xcells = rev vs, xmem = m_mem s\<rparr>"] by (simp add: state_ok_def)
next
  fix s e t assume s: "state_ok I E s" and run: "run_ext cfg f vs a s = (Inl e, t)"
  define x where "x = \<lparr>xacc = a, xcells = rev vs, xmem = m_mem s\<rparr>"
  from run obtain msg y where y: "exec (to_upper f) [] x = (Inl msg, y)" "t = s\<lparr>m_mem := xmem y\<rparr>"
    by (auto simp: run_ext_def assms(1) x_def split: prod.splits sum.splits)
  have "\<not> st"
  proof
    assume st
    with assms(2) host_runs [of f x] y(1) show False by (auto simp: x_def)
  qed
  moreover have "I (xmem y)"
    by (rule host_mem [OF _ y(1)]) (use s in \<open>simp add: x_def state_ok_def\<close>)
  ultimately show "fault_ok st I e t" using y(2) by (simp add: fault_ok_def)
qed

lemma sound_ext_call:
  assumes "cfg_exec cfg = exec" and "st \<Longrightarrow> f \<in> set ext_ops \<and> length vs = ext_arity f"
  shows "sound st I E (ext_call cfg f vs) (\<lambda>_. True)"
  unfolding ext_call_def
  by (auto intro!: sound_run_ext assms(1) simp: ext_cells_def dest: assms(2))

lemma sound_u32_val: "sound st I E m (\<lambda>_. True) \<Longrightarrow> has_type E e U32 \<Longrightarrow> sound st I E (u32_val m) (typed E e)"
  unfolding u32_val_def by (rule sound_bindc, assumption, rule sound_retc) (simp add: typed_def mk_val_def)

lemma sound_args:
  assumes "\<And>e. e \<in> set es \<Longrightarrow> sound st I E (eval cfg rp e) (typed E e)"
  shows "sound st I E (eval_args cfg rp es) (\<lambda>vs. length vs = length es)"
  using assms
proof (induction es)
  case Nil
  show ?case by (simp only: eval_args.simps) (rule sound_retc, simp)
next
  case (Cons e es)
  have IH: "sound st I E (eval_args cfg rp es) (\<lambda>vs. length vs = length es)"
    using Cons by simp
  show ?case
    by (simp only: eval_args.simps, rule sound_bindc, rule Cons.prems, simp, rule sound_bindc, rule IH, rule sound_retc) simp
qed

lemma sound_first:
  assumes "\<And>e. e \<in> set es \<Longrightarrow> sound st I E (eval cfg rp e) (typed E e)" and "st \<Longrightarrow> es \<noteq> []"
  shows "sound st I E (eval_first cfg rp es) (\<lambda>_. True)"
proof (cases es)
  case Nil
  with assms(2) show ?thesis
    by (simp only: Nil eval_first.simps) (rule sound_tick_then, rule sound_throwc, blast)
next
  case (Cons e es')
  show ?thesis
    by (simp only: Cons eval_first.simps, rule sound_bindc, rule assms(1), simp add: Cons, rule sound_retc) simp
qed

lemma sound_call:
  assumes ex: "cfg_exec cfg = exec"
    and rp: "\<And>i vs. (st \<Longrightarrow> i < np) \<Longrightarrow> sound st I E (rp i vs) (\<lambda>_. True)"
    and args: "\<And>e. e \<in> set es \<Longrightarrow> sound st I E (eval cfg rp e) (typed E e)"
    and wf: "st \<Longrightarrow> wf_callee np f (length es)"
  shows "sound st I E (eval cfg rp (CallExpression f es)) (typed E (CallExpression f es))"
proof -
  have u: "has_type E (CallExpression f es) U32" by (rule has_type_simps)
  have pure: "sound st I E (u32_val (bindc (eval_first cfg rp es) (\<lambda>v. retc (g v)))) (typed E (CallExpression f es))"
    if "f = ''clz'' \<or> f = ''revbits''" for g
    by (rule sound_u32_val [OF _ u], rule sound_bindc, rule sound_first)
      (use args wf that in \<open>auto simp: wf_callee_def intro: sound_retc\<close>)
  consider "f = ''trap''" | "f \<noteq> ''trap''" "f = ''clz''" | "f \<noteq> ''trap''" "f \<noteq> ''clz''" "f = ''revbits''"
    | "f \<noteq> ''trap''" "f \<noteq> ''clz''" "f \<noteq> ''revbits''" "f \<in> set ext_ops"
    | "f \<noteq> ''trap''" "f \<noteq> ''clz''" "f \<noteq> ''revbits''" "f \<notin> set ext_ops" by blast
  then show ?thesis
  proof cases
    case 1
    then show ?thesis
      by (simp only: eval.simps, intro sound_tick_then, simp, intro sound_bindc [OF sound_first] sound_throwc)
        (use args wf 1 in \<open>auto simp: wf_callee_def\<close>)
  next
    case 2
    with pure show ?thesis by (simp only: eval.simps, intro sound_tick_then) simp
  next
    case 3
    with pure show ?thesis by (simp only: eval.simps, intro sound_tick_then) simp
  next
    case 4
    have "sound st I E (u32_val (bindc (eval_args cfg rp es) (ext_call cfg f))) (typed E (CallExpression f es))"
      by (rule sound_u32_val [OF _ u], rule sound_bindc, rule sound_args, erule args, rule sound_ext_call [OF ex])
        (use wf 4 in \<open>auto simp: wf_callee_def\<close>)
    with 4 show ?thesis by (simp only: eval.simps, intro sound_tick_then) simp
  next
    case 5
    have "sound st I E (case proc_index f of None \<Rightarrow> throwc (JsError ''no such callee'')
        | Some i \<Rightarrow> u32_val (bindc (eval_args cfg rp es) (rp i))) (typed E (CallExpression f es))"
    proof (cases "proc_index f")
      case None
      with 5 wf show ?thesis by (auto simp: wf_callee_def intro: sound_throwc)
    next
      case (Some i)
      have "sound st I E (u32_val (bindc (eval_args cfg rp es) (rp i))) (typed E (CallExpression f es))"
        by (rule sound_u32_val [OF _ u], rule sound_bindc, rule sound_args, erule args, rule rp)
          (use wf 5 Some in \<open>auto simp: wf_callee_def\<close>)
      with Some show ?thesis by simp
    qed
    with 5 show ?thesis by (simp only: eval.simps, intro sound_tick_then) simp
  qed
qed

lemma sound_eval:
  assumes ex: "cfg_exec cfg = exec"
    and rp: "\<And>i vs. (st \<Longrightarrow> i < np) \<Longrightarrow> sound st I E (rp i vs) (\<lambda>_. True)"
  shows "(st \<Longrightarrow> wf_expr np E e) \<Longrightarrow> sound st I E (eval cfg rp e) (typed E e)"
proof (induction e)
  case (Literal v)
  show ?case
    by (simp only: eval.simps, intro sound_tick_then sound_retc)
      (simp add: typed_def mk_val_def has_type_simps literal_in_range)
next
  case (Identifier n)
  show ?case
    by (simp only: eval.simps, rule sound_tick_then, rule sound_bindc, rule sound_lookup)
      (use Identifier in \<open>auto intro!: sound_retc simp: typed_def mk_val_def has_type_simps\<close>)
next
  case (CastExpression t e)
  then show ?case
    by (simp only: eval.simps, intro sound_tick_then, intro sound_bindc [OF CastExpression.IH] sound_retc)
      (auto simp: typed_def mk_val_def has_type_simps narrow_in_range)
next
  case (UnaryExpression op e)
  then show ?case
    by (simp only: eval.simps, intro sound_tick_then, intro sound_bindc [OF UnaryExpression.IH] sound_retc)
      (auto simp: unary_typed)
next
  case (BinaryExpression op l r)
  show ?case
    by (simp only: eval.simps, rule sound_tick_then, rule sound_bindc [OF BinaryExpression.IH(1)], use BinaryExpression.prems in simp,
        rule sound_bindc [OF BinaryExpression.IH(2)], use BinaryExpression.prems in simp, rule sound_lift_sum)
      (use BinaryExpression.prems binary_safe in \<open>auto intro: binary_typed\<close>)
next
  case (LogicalExpression op l r)
  have bool: "typed E (LogicalExpression lop l r) (mk_val w I32)" for w lop
    by (simp add: typed_def mk_val_def has_type_simps)
  show ?case
    by (simp only: eval.simps, rule sound_tick_then, rule sound_bindc [OF LogicalExpression.IH(1)], use LogicalExpression.prems in simp)
      (auto intro!: sound_retc bool sound_bindc [OF LogicalExpression.IH(2)] dest: LogicalExpression.prems)
next
  case (ConditionalExpression c a b)
  have arm: "sound st I E (if w then eval cfg rp a else eval cfg rp b) (\<lambda>_. True)" for w
    by (cases w) (use ConditionalExpression in \<open>auto intro: sound_weaken\<close>)
  show ?case
    by (simp only: eval.simps, rule sound_tick_then, rule sound_bindc [OF sound_cond_type [where np = np]],
        use ConditionalExpression.prems in simp, use ConditionalExpression.prems in simp,
        rule sound_bindc [OF ConditionalExpression.IH(1)], use ConditionalExpression.prems in simp,
        rule sound_bindc [OF arm], rule sound_retc)
      (auto simp: typed_def has_type_def mk_val_def)
next
  case (AssignmentExpression op n e)
  show ?case
    by (simp only: eval.simps, rule sound_tick_then, rule sound_bindc [OF sound_lookup],
        use AssignmentExpression.prems in simp,
        rule sound_bindc [OF AssignmentExpression.IH], use AssignmentExpression.prems in simp,
        rule sound_bindc [OF sound_lookup], use AssignmentExpression.prems in simp,
        rule sound_bindc [where R = "\<lambda>_. True"], rule sound_lift_sum, rule assigned_safe [rotated],
        assumption, use AssignmentExpression.prems in simp, simp,
        rule sound_bindc, rule sound_assign, erule conjunct1, rule sound_retc)
      (auto simp: typed_def mk_val_def has_type_simps narrow_in_range)
next
  case (UpdateExpression op pre e)
  show ?case
  proof (cases "\<exists>n. e = Identifier n")
    case True
    then obtain n where e: "e = Identifier n" ..
    show ?thesis
      by (simp only: e eval.simps expr.case, rule sound_tick_then, rule sound_bindc [OF sound_lookup],
          use UpdateExpression.prems e in simp,
          rule sound_bindc, rule sound_assign, erule conjunct1, rule sound_retc)
        (auto simp: typed_def mk_val_def has_type_simps narrow_in_range)
  next
    case False
    with UpdateExpression.prems have "\<not> st" by (cases e) auto
    then have "sound st I E (throwc (JsError ''update of a non-variable'')) (typed E (UpdateExpression op pre e))"
      by (simp add: sound_throwc)
    with False show ?thesis by (cases e) (simp_all add: sound_tick_then)
  qed
next
  case (CallExpression f es)
  then show ?case
    by (intro sound_call [OF ex rp]) (auto simp: list_all_iff)
qed

lemma decls_sound:
  assumes ex: "cfg_exec cfg = exec"
    and rp: "\<And>E i vs. (st \<Longrightarrow> i < np) \<Longrightarrow> sound st I E (rp i vs) (\<lambda>_. True)"
  shows "(st \<Longrightarrow> wf_decls np E ds) \<Longrightarrow>
    run_spec (state_ok I E) (exec_decls (eval cfg rp) ds) (\<lambda>_. state_ok I (env_decls E ds)) (fault_ok st I)"
proof (induction ds arbitrary: E)
  case Nil
  show ?case by (simp only: exec_decls.simps) (rule run_spec_retc, simp)
next
  case (Cons d ds)
  obtain t n i where d: "d = Declarator t n i" by (cases d)
  have "sound st I E (case i of None \<Rightarrow> retc 0 | Some e \<Rightarrow> bindc (eval cfg rp e) (\<lambda>v. retc (val_value v))) (\<lambda>_. True)"
    using Cons.prems
    by (cases i) (auto simp: d wf_opt_def intro!: sound_retc sound_bindc [OF sound_eval [OF ex rp]])
  then have init: "run_spec (state_ok I E) (case i of None \<Rightarrow> retc 0 | Some e \<Rightarrow> bindc (eval cfg rp e) (\<lambda>v. retc (val_value v)))
      (\<lambda>_. state_ok I E) (fault_ok st I)"
    by (simp add: sound_def)
  have decl: "run_spec (state_ok I E) (declare_ev n t v) (\<lambda>_. state_ok I (env_declare E n t)) (fault_ok st I)" for v
    unfolding declare_ev_def by (rule run_spec_modifyc) (auto simp: state_ok_def scope_declare_ok)
  show ?case
    by (simp only: d exec_decls.simps, rule run_spec_bindc [OF init], rule run_spec_bindc [OF decl])
      (use Cons d in auto)
qed

lemma find_case_sound:
  assumes ex: "cfg_exec cfg = exec"
    and rp: "\<And>E i vs. (st \<Longrightarrow> i < np) \<Longrightarrow> sound st I E (rp i vs) (\<lambda>_. True)"
  shows "(st \<Longrightarrow> wf_cases np E cs) \<Longrightarrow> sound st I E (find_case (eval cfg rp) d cs) (\<lambda>_. True)"
proof (induction cs)
  case Nil
  show ?case by (simp only: find_case.simps) (rule sound_retc, simp)
next
  case (Cons c cs)
  obtain t b where c: "c = SwitchCase t b" by (cases c)
  have test: "sound st I E (case t of None \<Rightarrow> retc False | Some e \<Rightarrow> bindc (eval cfg rp e) (\<lambda>v. retc (val_value v = d))) (\<lambda>_. True)"
    using Cons.prems
    by (cases t) (auto simp: c wf_opt_def intro!: sound_retc sound_bindc [OF sound_eval [OF ex rp]])
  show ?case
    by (simp only: c find_case.simps, rule sound_bindc [OF test])
      (use Cons c in \<open>auto intro!: sound_retc sound_bindc [where R = "\<lambda>_. True"]\<close>)
qed

definition stmt_sound :: "bool \<Rightarrow> nat \<Rightarrow> 'm config \<Rightarrow> 'm runner \<Rightarrow> stmt \<Rightarrow> bool" where
  "stmt_sound st np cfg rp s \<longleftrightarrow>
     (\<forall>E. E \<noteq> [] \<longrightarrow> (st \<longrightarrow> wf_stmt np E s) \<longrightarrow> runs_in st I E (exec_stmt cfg (eval cfg rp) s) (env_after E s))"

lemma list_sound:
  assumes "\<And>s. s \<in> set ss \<Longrightarrow> stmt_sound st np cfg rp s" "E \<noteq> []" "st \<Longrightarrow> wf_list np E ss"
  shows "run_spec (state_ok I E) (exec_list cfg (eval cfg rp) ss) (\<lambda>fl. child_ok I (tl E)) (fault_ok st I)"
  using assms
proof (induction ss arbitrary: E)
  case Nil
  show ?case
    by (simp only: exec_list.simps, rule run_spec_retc, rule state_child) (use Nil in auto)
next
  case (Cons s ss)
  have s: "runs_in st I E (exec_stmt cfg (eval cfg rp) s) (env_after E s)"
    using Cons.prems by (simp add: stmt_sound_def)
  have ss: "run_spec (state_ok I (env_after E s)) (exec_list cfg (eval cfg rp) ss) (\<lambda>fl. child_ok I (tl (env_after E s))) (fault_ok st I)"
    by (rule Cons.IH) (use Cons.prems in auto)
  have "run_spec (\<lambda>t. child_ok I (tl E) t \<and> (fl = Normal \<longrightarrow> state_ok I (env_after E s) t))
      (if fl = Normal then exec_list cfg (eval cfg rp) ss else retc fl) (\<lambda>_. child_ok I (tl E)) (fault_ok st I)" for fl
    by (cases "fl = Normal")
      (auto intro!: run_spec_retc intro: run_spec_conseq [OF ss])
  with s show ?case
    by (simp only: exec_list.simps runs_in_def) (rule run_spec_bindc)
qed

lemma body_sound:
  assumes "\<And>s. s \<in> set ss \<Longrightarrow> stmt_sound st np cfg rp s" "st \<Longrightarrow> wf_list np (Map.empty # E) ss"
  shows "sound st I E (in_child (exec_list cfg (eval cfg rp) ss)) (\<lambda>_. True)"
  by (rule sound_in_child) (use list_sound [OF assms(1), of ss "Map.empty # E"] assms(2) in simp)

lemma clauses_sound:
  assumes "\<And>c s. c \<in> set cs \<Longrightarrow> s \<in> set (case_body c) \<Longrightarrow> stmt_sound st np cfg rp s"
    and "st \<Longrightarrow> wf_cases np E cs"
  shows "sound st I E (exec_clauses cfg (eval cfg rp) k cs) (\<lambda>_. True)"
  using assms
proof (induction cs arbitrary: k)
  case Nil
  show ?case by (simp only: exec_clauses.simps) (rule sound_retc, simp)
next
  case (Cons c cs)
  obtain t b where c: "c = SwitchCase t b" by (cases c)
  have rest: "sound st I E (exec_clauses cfg (eval cfg rp) k cs) (\<lambda>_. True)" for k
    by (rule Cons.IH) (use Cons.prems c in auto)
  have body: "sound st I E (in_child (exec_list cfg (eval cfg rp) b)) (\<lambda>_. True)"
    by (rule body_sound) (use Cons.prems(1) [of c] Cons.prems(2) c in auto)
  have flow: "sound st I E (case fl of Normal \<Rightarrow> exec_clauses cfg (eval cfg rp) 0 cs | Return v \<Rightarrow> retc (Return v) | Break \<Rightarrow> retc Normal) (\<lambda>_. True)" for fl
    by (cases fl) (simp_all add: rest sound_retc)
  show ?case
    by (cases k) (simp_all only: c exec_clauses.simps nat.case rest, rule sound_bindc [OF body], rule flow)
qed

lemma sound_stmt:
  assumes ex: "cfg_exec cfg = exec"
    and rp: "\<And>E i vs. (st \<Longrightarrow> i < np) \<Longrightarrow> sound st I E (rp i vs) (\<lambda>_. True)"
  shows "stmt_sound st np cfg rp s \<and> (\<forall>x \<in> set (as_list s). stmt_sound st np cfg rp x)"
    and "\<forall>s \<in> set (case_body c). stmt_sound st np cfg rp s"
proof (induction s and c)
  have e: "sound st I E (eval cfg rp x) (\<lambda>_. True)" if "st \<Longrightarrow> wf_expr np E x" for E x
    by (rule sound_weaken [OF sound_eval [OF ex rp]]) (use that in auto)
  have stmtI: "stmt_sound st np cfg rp s"
    if "\<And>E. (st \<Longrightarrow> wf_stmt np E s) \<Longrightarrow> sound st I E (exec_stmt cfg (eval cfg rp) s) (\<lambda>_. True)"
      and "\<And>E. env_after E s = E" for s
    using that by (auto simp: stmt_sound_def intro: sound_runs_in)
  have opt: "sound st I E (case x of None \<Rightarrow> retc d | Some e \<Rightarrow> bindc (eval cfg rp e) (\<lambda>v. retc (f v))) (\<lambda>_. True)"
    if "st \<Longrightarrow> wf_opt np E x" for E x and d :: 'z and f
    using that by (cases x) (auto simp: wf_opt_def intro!: sound_retc sound_bindc [OF e])
  {
    case (BlockStatement b)
    have "stmt_sound st np cfg rp (BlockStatement b)"
      by (rule stmtI, simp only: exec_stmt.simps, rule sound_tick_then, rule body_sound)
        (use BlockStatement in auto)
    with BlockStatement show ?case by simp
  next
    case BreakStatement
    show ?case by (simp, rule stmtI) (simp_all only: exec_stmt.simps env_after.simps, intro sound_tick_then sound_retc TrueI)
  next
    case (ExpressionStatement x)
    show ?case
      by (simp, rule stmtI, simp only: exec_stmt.simps, rule sound_tick_then, rule sound_bindc [OF e])
        (auto intro: sound_retc)
  next
    case (ReturnStatement x)
    show ?case
      by (simp, rule stmtI, simp only: exec_stmt.simps, rule sound_tick_then, rule opt) auto
  next
    case (VariableDeclaration ds)
    have "runs_in st I E (exec_stmt cfg (eval cfg rp) (VariableDeclaration ds)) (env_decls E ds)"
      if "E \<noteq> []" "st \<Longrightarrow> wf_decls np E ds" for E
      unfolding runs_in_def
    proof (simp only: exec_stmt.simps, rule run_spec_bindc, rule sound_tick [unfolded sound_def],
        rule run_spec_bindc)
      show "run_spec (\<lambda>s. state_ok I E s \<and> True) (exec_decls (eval cfg rp) ds) (\<lambda>_. state_ok I (env_decls E ds)) (fault_ok st I)"
        using decls_sound [OF ex rp] that(2) by simp
    qed (use that(1) in \<open>auto intro!: run_spec_retc dest: state_child\<close>)
    then show ?case by (simp add: stmt_sound_def)
  next
    case (IfStatement c t a)
    have "stmt_sound st np cfg rp (IfStatement c t a)"
      by (rule stmtI, simp only: exec_stmt.simps, intro sound_tick_then, rule sound_bindc [OF e])
        (use IfStatement in \<open>auto intro!: sound_retc body_sound split: option.splits\<close>)
    then show ?case by simp
  next
    case (WhileStatement t b)
    have "stmt_sound st np cfg rp (WhileStatement t b)"
      by (rule stmtI, simp only: exec_stmt.simps, intro sound_tick_then sound_loop, rule sound_bindc [OF e])
        (use WhileStatement in \<open>auto intro!: sound_retc sound_bindc [OF body_sound] sound_after_body\<close>)
    then show ?case by simp
  next
    case (DoWhileStatement b t)
    have "stmt_sound st np cfg rp (DoWhileStatement b t)"
      by (rule stmtI, simp only: exec_stmt.simps, intro sound_tick_then sound_loop, rule sound_bindc [OF body_sound])
        (use DoWhileStatement in \<open>auto intro!: sound_retc sound_bindc [OF e] sound_after_body\<close>)
    then show ?case by simp
  next
    case (ForStatement i t u b)
    have init: "run_spec (state_ok I (Map.empty # E))
        (case i of None \<Rightarrow> retc () | Some (InitDecl ds) \<Rightarrow> bindc (tick cfg) (\<lambda>_. exec_decls (eval cfg rp) ds)
         | Some (InitExpr e) \<Rightarrow> bindc (eval cfg rp e) (\<lambda>_. retc ()))
        (\<lambda>_. state_ok I (env_init (Map.empty # E) i)) (fault_ok st I)"
      if "st \<Longrightarrow> wf_init np (Map.empty # E) i" for E
    proof -
      consider (1) ds where "i = Some (InitDecl ds)" | (2) "i = None" | (3) x where "i = Some (InitExpr x)"
        by (metis for_init.exhaust option.exhaust)
      then show ?thesis
      proof cases
      case 1
      have "run_spec (\<lambda>s. state_ok I (Map.empty # E) s \<and> True) (exec_decls (eval cfg rp) ds)
          (\<lambda>_. state_ok I (env_decls (Map.empty # E) ds)) (fault_ok st I)"
        using decls_sound [OF ex rp] that 1 by simp
      with 1 show ?thesis by simp (rule run_spec_bindc [OF sound_tick [unfolded sound_def]], simp)
    next
      case 2
      then show ?thesis by simp (rule run_spec_retc)
    next
      case 3
      have "sound st I (Map.empty # E) (bindc (eval cfg rp x) (\<lambda>_. retc ())) (\<lambda>_. True)"
        by (rule sound_bindc [OF e]) (use that 3 in \<open>auto intro: sound_retc\<close>)
      with 3 show ?thesis by (simp add: sound_def)
      qed
    qed
    have loop: "sound st I E (loop_ev cfg
          (bindc (case t of None \<Rightarrow> retc True | Some e \<Rightarrow> bindc (eval cfg rp e) (\<lambda>v. retc (val_value v \<noteq> 0)))
            (\<lambda>go. if \<not> go then retc (Stop Normal)
              else bindc (in_child (exec_list cfg (eval cfg rp) (as_list b)))
                (\<lambda>fl. after_body fl (case u of None \<Rightarrow> retc Again | Some e \<Rightarrow> bindc (eval cfg rp e) (\<lambda>_. retc Again)))))) (\<lambda>_. True)"
      if "st \<Longrightarrow> wf_opt np E t" "st \<Longrightarrow> wf_opt np E u" "st \<Longrightarrow> wf_list np (Map.empty # E) (as_list b)" for E
      by (intro sound_loop, rule sound_bindc [OF opt [OF that(1)]])
        (use ForStatement that in \<open>auto intro!: sound_retc sound_bindc [OF body_sound] sound_after_body opt\<close>)
    have "stmt_sound st np cfg rp (ForStatement i t u b)"
    proof (rule stmtI)
      fix E assume wf: "st \<Longrightarrow> wf_stmt np E (ForStatement i t u b)"
      define E1 where "E1 = env_init (Map.empty # E) i"
      have E1: "E1 \<noteq> []" "tl E1 = E" by (simp_all add: E1_def)
      show "sound st I E (exec_stmt cfg (eval cfg rp) (ForStatement i t u b)) (\<lambda>_. True)"
        by (simp only: exec_stmt.simps, intro sound_tick_then sound_in_child, rule run_spec_bindc [OF init],
            use wf in simp, rule run_spec_conseq, rule loop [of E1, unfolded sound_def])
          (use wf E1 in \<open>auto simp: E1_def dest: state_child\<close>)
    qed simp
    then show ?case by simp
  next
    case (SwitchStatement d cs)
    have clauses: "sound st I E (exec_clauses cfg (eval cfg rp) k cs) (\<lambda>_. True)" if "st \<Longrightarrow> wf_cases np E cs" for E k
      by (rule clauses_sound) (use SwitchStatement that in auto)
    have "stmt_sound st np cfg rp (SwitchStatement d cs)"
      by (rule stmtI, simp only: exec_stmt.simps, rule sound_tick_then, rule sound_bindc [OF e], simp,
          rule sound_bindc [OF find_case_sound [OF ex rp]])
        (auto intro!: sound_retc clauses split: option.splits)
    then show ?case by simp
  next
    case (SwitchCase t b)
    then show ?case by simp
  }
qed

lemma bind_params_ok: "scope_ok (bind_params ns vs)" "shape (bind_params ns vs) = params_env ns"
proof -
  have gen: "scope_ok sc \<Longrightarrow> shape sc = [m] \<Longrightarrow>
      scope_ok (fold (\<lambda>(i, n) sc. scope_declare sc n U32 (nth_default 0 vs i)) (enumerate k ns) sc) \<and>
      shape (fold (\<lambda>(i, n) sc. scope_declare sc n U32 (nth_default 0 vs i)) (enumerate k ns) sc)
        = [\<lambda>n. if n \<in> set ns then Some U32 else m n]" for k sc m
  proof (induction ns arbitrary: k sc m)
    case (Cons n ns)
    have eq: "(\<lambda>x. if x \<in> set ns then Some U32 else (m(n \<mapsto> U32)) x) = (\<lambda>x. if x \<in> set (n # ns) then Some U32 else m x)"
      by auto
    have "scope_ok (scope_declare sc n U32 (nth_default 0 vs k))"
      "shape (scope_declare sc n U32 (nth_default 0 vs k)) = [m(n \<mapsto> U32)]"
      using Cons.prems by (simp_all add: scope_declare_ok)
    from Cons.IH [OF this, of "Suc k", unfolded eq] show ?case by simp
  qed simp
  show "scope_ok (bind_params ns vs)" "shape (bind_params ns vs) = params_env ns"
    using gen [of "[Map.empty]" Map.empty 0]
    by (simp_all add: bind_params_def params_env_def frame_types_def)
qed

lemma sound_run_proc:
  assumes ex: "cfg_exec cfg = exec" and wf: "st \<Longrightarrow> wf_program (cfg_procs cfg)"
  shows "(st \<Longrightarrow> i < length (cfg_procs cfg)) \<Longrightarrow> sound st I E (run_proc cfg n entry i vs) (\<lambda>_. True)"
proof (induction n arbitrary: E entry i vs)
  case 0
  show ?case by (simp only: run_proc.simps) (rule sound_throwc, simp)
next
  case (Suc n)
  define np where "np = length (cfg_procs cfg)"
  show ?case
  proof (cases "i < np")
    case False
    with Suc.prems have "\<not> st" by (auto simp: np_def)
    with False show ?thesis by (simp add: np_def sound_throwc del: throwc_apply)
  next
    case True
    then have in_range: "\<not> length (cfg_procs cfg) \<le> i" by (simp add: np_def)
    define pr where "pr = cfg_procs cfg ! i"
    have wfl: "wf_list np (params_env (proc_args pr)) (proc_body pr)" if st
      using wf [OF that] True by (auto simp: wf_program_def list_all_length np_def pr_def)
    have "stmt_sound st np cfg (run_proc cfg n False) s" for s
      using sound_stmt(1) [OF ex, where st = st and np = np and rp = "run_proc cfg n False"] Suc.IH by (simp add: np_def)
    then have body: "run_spec (state_ok I (params_env (proc_args pr))) (exec_list cfg (eval cfg (run_proc cfg n False)) (proc_body pr))
        (\<lambda>_. child_ok I []) (fault_ok st I)"
      using list_sound [of "proc_body pr" st np cfg "run_proc cfg n False" "params_env (proc_args pr)"] wfl
      by (simp add: params_env_def)
    have after: "run_spec (child_ok I []) (bindc (modifyc (\<lambda>s. s\<lparr>m_scope := caller\<rparr>)) (\<lambda>_.
        case fl of Return v \<Rightarrow> retc v | _ \<Rightarrow> if entry then throwc (Unspecified OffTheEnd) else retc 0))
        (\<lambda>v. state_ok I E) (fault_ok st I)" if "scope_ok caller" "shape caller = E" for caller fl
    proof (rule run_spec_bindc)
      show "run_spec (child_ok I []) (modifyc (\<lambda>s. s\<lparr>m_scope := caller\<rparr>)) (\<lambda>_. state_ok I E) (fault_ok st I)"
        using that by (intro run_spec_modifyc) (simp add: child_ok_def state_ok_def)
      show "run_spec (state_ok I E) (case fl of Return v \<Rightarrow> retc v | _ \<Rightarrow> if entry then throwc (Unspecified OffTheEnd) else retc 0)
          (\<lambda>v. state_ok I E) (fault_ok st I)"
        by (cases fl) (auto intro!: run_spec_retc run_spec_throwc simp: fault_ok_def state_ok_def)
    qed
    show ?thesis
      unfolding sound_def
    proof (rule run_spec_pre)
      fix s assume s: "state_ok I E s"
      have "run_spec (\<lambda>t. t = s) (run_proc cfg (Suc n) entry i vs) (\<lambda>v. state_ok I E) (fault_ok st I)"
        unfolding run_proc.simps if_not_P [OF in_range] pr_def [symmetric]
      proof (rule run_spec_bindc)
        show "run_spec (\<lambda>t. t = s) (getc m_scope) (\<lambda>caller t. t = s \<and> caller = m_scope s) (fault_ok st I)"
          by (rule run_spec_getc) simp
      next
        fix caller
        show "run_spec (\<lambda>t. t = s \<and> caller = m_scope s)
          (bindc (modifyc (\<lambda>s. s\<lparr>m_scope := bind_params (proc_args pr) vs\<rparr>)) (\<lambda>_.
           bindc (exec_list cfg (eval cfg (run_proc cfg n False)) (proc_body pr)) (\<lambda>fl.
           bindc (modifyc (\<lambda>s. s\<lparr>m_scope := caller\<rparr>)) (\<lambda>_.
           case fl of Return v \<Rightarrow> retc v | _ \<Rightarrow> if entry then throwc (Unspecified OffTheEnd) else retc 0))))
          (\<lambda>v. state_ok I E) (fault_ok st I)"
        proof (cases "caller = m_scope s")
          case True
          have caller: "scope_ok caller" "shape caller = E" using s True by (simp_all add: state_ok_def)
          show ?thesis
            by (rule run_spec_bindc, rule run_spec_modifyc [where Q = "\<lambda>_. state_ok I (params_env (proc_args pr))"],
                use s in \<open>simp add: state_ok_def bind_params_ok\<close>, rule run_spec_bindc [OF body],
                rule after [OF caller])
        qed (simp add: run_spec_def)
      qed
      then show "run_spec (\<lambda>t. t = s) (run_proc cfg (Suc n) entry i vs) (\<lambda>v s. state_ok I E s \<and> True) (fault_ok st I)"
        by simp
    qed
  qed
qed

lemma evaluate_keeps_memory:
  assumes "cfg_exec cfg = exec" and "I mem" and "evaluate cfg args mem = (r, k, mem')"
  shows "I mem'" "wf_program (cfg_procs cfg) \<Longrightarrow> r \<noteq> Inl (JsError msg)"
proof -
  obtain q s where run: "run_proc cfg (Suc (cfg_max cfg)) True 0 args (initial mem) = (q, s)"
    by (cases "run_proc cfg (Suc (cfg_max cfg)) True 0 args (initial mem)")
  have r: "r = classify q" "mem' = m_mem s" using assms(3) evaluate_run [OF run] by simp_all
  have ok: "state_ok I [] (initial mem)" using assms(2) by (simp add: state_ok_def)
  have lax: "sound False I [] (run_proc cfg (Suc (cfg_max cfg)) True 0 args) (\<lambda>_. True)"
    by (rule sound_run_proc [OF assms(1)]) simp_all
  show "I mem'"
    using run_spec_Inr [OF lax [unfolded sound_def] ok] run_spec_Inl [OF lax [unfolded sound_def] ok] run
    by (cases q) (auto simp: r state_ok_def fault_ok_def)
  assume wf: "wf_program (cfg_procs cfg)"
  have strict: "sound True I [] (run_proc cfg (Suc (cfg_max cfg)) True 0 args) (\<lambda>_. True)"
    by (rule sound_run_proc [OF assms(1)]) (use wf in \<open>simp_all add: wf_program_def\<close>)
  show "r \<noteq> Inl (JsError msg)"
    using run_spec_Inl [OF strict [unfolded sound_def] ok] run
    by (cases q) (auto simp: r fault_ok_def classify_def split: fault.splits)
qed

lemma eval_result_typed:
  assumes "cfg_exec cfg = exec" and "scope_ok (m_scope s)" and "I (m_mem s)"
    and "eval cfg (run_proc cfg n False) e s = (Inr v, t)"
  shows "type_of (m_scope s) e = Inr (val_type v) \<and> in_range (val_type v) (val_value v)"
    "scope_ok (m_scope t)" "shape (m_scope t) = shape (m_scope s)" "I (m_mem t)"
proof -
  have "sound False I (shape (m_scope s)) (eval cfg (run_proc cfg n False) e) (typed (shape (m_scope s)) e)"
    by (rule sound_eval [OF assms(1)], rule sound_run_proc [OF assms(1)]) simp_all
  from run_spec_Inr [OF this [unfolded sound_def] _ assms(4)] assms(2,3)
  have "state_ok I (shape (m_scope s)) t" "typed (shape (m_scope s)) e v"
    by (simp_all add: state_ok_def)
  then show "type_of (m_scope s) e = Inr (val_type v) \<and> in_range (val_type v) (val_value v)"
    "scope_ok (m_scope t)" "shape (m_scope t) = shape (m_scope s)" "I (m_mem t)"
    by (auto simp: typed_def has_type_def state_ok_def)
qed

end

subsection \<open>With the raw-memory extension\<close>

lemma to_upper_ops:
  "f \<in> set ext_ops \<Longrightarrow> \<exists>ef. rawmem_effects (to_upper f) = Some ef \<and> popped ef = ext_cells f"
proof -
  have "\<forall>f \<in> set ext_ops. case rawmem_effects (to_upper f) of None \<Rightarrow> False | Some ef \<Rightarrow> popped ef = ext_cells f"
    by code_simp
  then show "f \<in> set ext_ops \<Longrightarrow> ?thesis" by (fastforce split: option.splits)
qed

interpretation rawmem_host: eval_host rawmem_exec sandbox_ok
proof unfold_locales
  fix x n ops r y
  show "sandbox_ok (xmem x) \<Longrightarrow> rawmem_exec n ops x = (r, y) \<Longrightarrow> sandbox_ok (xmem y)"
    by (rule rawmem.mem_kept)
next
  fix f and x :: "sandbox xstate"
  assume "f \<in> set ext_ops" and "length (xcells x) = ext_cells f"
  then show "\<exists>y. rawmem_exec (to_upper f) [] x = (Inr (), y)"
    using to_upper_ops [of f] rawmem.progress by auto
qed

definition rawmem_config :: "gen_program \<Rightarrow> nat \<Rightarrow> sandbox config" where
  "rawmem_config p k = \<lparr>cfg_procs = p, cfg_exec = rawmem_exec, cfg_max = k\<rparr>"

lemma evaluate_total:
  assumes "wf_program p" and "sandbox_ok mem"
  shows "case evaluate (rawmem_config p k) args mem of
    (r, steps, mem') \<Rightarrow> (\<exists>out. r = Inr out) \<and> steps \<le> Suc k \<and> sandbox_ok mem'"
proof -
  obtain r n mem' where run: "evaluate (rawmem_config p k) args mem = (r, n, mem')"
    by (metis prod_cases3)
  obtain q s where q: "run_proc (rawmem_config p k) (Suc k) True 0 args (initial mem) = (q, s)"
    by (cases "run_proc (rawmem_config p k) (Suc k) True 0 args (initial mem)")
  have max: "cfg_max (rawmem_config p k) = k" "cfg_exec (rawmem_config p k) = rawmem_exec" "cfg_procs (rawmem_config p k) = p"
    by (simp_all add: rawmem_config_def)
  note out = fuelledD [OF fuelled_run_proc _ _ q, unfolded max]
  have r: "r = classify q" "n = m_steps s" using run evaluate_run [of "rawmem_config p k", unfolded max, OF q] by simp_all
  note mem = rawmem_host.evaluate_keeps_memory [OF max(2) assms(2) run]
  have "\<exists>out. r = Inr out"
  proof (cases q)
    case (Inl e)
    with mem(2) assms(1) out(2) r(1) show ?thesis by (cases e) (auto simp: classify_def max)
  qed (simp add: r classify_def)
  with run out(3) mem(1) r show ?thesis by simp
qed

text \<open>
  C5. A well-scoped program always has an answer: whatever its arguments, the step limit and
  the sandbox it starts with, \<open>evaluate\<close> over the raw-memory extension returns one of its four
  outcomes and never throws, and it leaves a sandbox of the right size behind.
\<close>
theorem evaluate_answers:
  assumes "wf_program p" and "sandbox_ok mem"
  shows "case evaluate (rawmem_config p k) args mem of
    (r, steps, mem') \<Rightarrow> (\<exists>out. r = Inr out) \<and> steps \<le> Suc k \<and> sandbox_ok mem'"
  by (rule evaluate_total [OF assms])

lemma evaluate_answers_witness:
  "evaluate (rawmem_config sample_program 100) [3] rawmem_new = (Inr (OReturn 6), 51, rawmem_new)
    \<and> (\<exists>out. fst (evaluate (rawmem_config sample_program 7) [3] rawmem_new) = Inr out)"
proof -
  have "wf_program sample_program" by code_simp
  moreover have "sandbox_ok rawmem_new" by code_simp
  ultimately have "\<exists>out. fst (evaluate (rawmem_config sample_program 7) [3] rawmem_new) = Inr out"
    using evaluate_answers [of sample_program rawmem_new 7 "[3]"] by (auto split: prod.splits)
  moreover have "evaluate (rawmem_config sample_program 100) [3] rawmem_new = (Inr (OReturn 6), 51, rawmem_new)"
    by code_simp
  ultimately show ?thesis by simp
qed

text \<open>
  C6. The type rule is right about every value: an expression that evaluates, in any state
  whose variables hold values of their types, has the type that \<^verbatim>\<open>typeOf\<close> computes without
  evaluating it, its value is in that type's range, and the evaluation leaves every variable
  with its type and a value in range.
\<close>
theorem eval_type_sound:
  assumes "scope_ok (m_scope s)" and "sandbox_ok (m_mem s)"
    and "eval (rawmem_config p k) (run_proc (rawmem_config p k) n False) e s = (Inr v, t)"
  shows "type_of (m_scope s) e = Inr (val_type v) \<and> in_range (val_type v) (val_value v)
    \<and> scope_ok (m_scope t) \<and> shape (m_scope t) = shape (m_scope s)"
  using rawmem_host.eval_result_typed [OF _ assms(1,2,3)]
  by (simp add: rawmem_config_def)

lemma eval_type_sound_witness:
  "type_of [[''c'' \<mapsto> \<lparr>slot_type = I8, slot_value = 127\<rparr>]] (UpdateExpression Incr True (Identifier ''c'')) = Inr I8
    \<and> in_range I8 (- 128)"
proof -
  define s :: "sandbox mstate" where
    "s = \<lparr>m_steps = 0, m_scope = [[''c'' \<mapsto> \<lparr>slot_type = I8, slot_value = 127\<rparr>]], m_mem = rawmem_new\<rparr>"
  let ?e = "UpdateExpression Incr True (Identifier ''c'')"
  let ?run = "eval (rawmem_config sample_program 9) (run_proc (rawmem_config sample_program 9) 5 False) ?e s"
  have run: "fst ?run = Inr (mk_val (- 128) I8)"
    unfolding s_def by code_simp
  have "scope_ok (m_scope s)" by (simp add: s_def frame_ok_def)
  moreover have "sandbox_ok (m_mem s)" by (simp add: s_def sandbox_ok_def rawmem_new_def)
  ultimately have "type_of (m_scope s) ?e = Inr (val_type (mk_val (- 128) I8))
      \<and> in_range (val_type (mk_val (- 128) I8)) (val_value (mk_val (- 128) I8))"
    using eval_type_sound [of s sample_program 9 5 ?e "mk_val (- 128) I8" "snd ?run"] run
    by (metis prod.collapse)
  then show ?thesis by (simp add: s_def mk_val_def)
qed

end
