(* ===== verification/Walk.thy ===== *)
theory Walk
  imports Ast
begin

section \<open>Traversal (\<^verbatim>\<open>fuzz/ts/gen/walk.ts\<close>)\<close>

text \<open>
  The statement traversal that the generator, the effect analysis and the mutator share. A
  visitor becomes the list of what it is called on, in order. The step from an expression to
  its sub-expressions is mog-core's \<^verbatim>\<open>recurseOver\<close>, which is not part of this repository, so it
  is a parameter: \<open>kids e\<close> are the expressions it hands to its first callback. The locale
  \<open>walker\<close> states what the code relies on: it reaches every operand, and nothing but operands
  and the bare identifiers of a callee or an assignment's left side.
\<close>

subsection \<open>Statements\<close>

definition opt_list :: "'a option \<Rightarrow> 'a list" where
  "opt_list x = (case x of None \<Rightarrow> [] | Some v \<Rightarrow> [v])"

lemma set_opt_list [simp]: "set (opt_list x) = set_option x"
  by (cases x) (simp_all add: opt_list_def)

fun child_bodies :: "stmt \<Rightarrow> stmt list list" where
  "child_bodies (BlockStatement b) = [b]"
| "child_bodies (IfStatement t c None) = [as_list c]"
| "child_bodies (IfStatement t c (Some a)) = [as_list c, as_list a]"
| "child_bodies (WhileStatement t b) = [as_list b]"
| "child_bodies (DoWhileStatement b t) = [as_list b]"
| "child_bodies (ForStatement i t u b) = [as_list b]"
| "child_bodies (SwitchStatement d cs) = map case_body cs"
| "child_bodies _ = []"

definition decl_inits :: "declarator list \<Rightarrow> expr list" where
  "decl_inits ds = concat (map (\<lambda>d. opt_list (decl_init d)) ds)"

fun init_exprs :: "for_init option \<Rightarrow> expr list" where
  "init_exprs None = []"
| "init_exprs (Some (InitExpr e)) = [e]"
| "init_exprs (Some (InitDecl ds)) = decl_inits ds"

fun child_expressions :: "stmt \<Rightarrow> expr list" where
  "child_expressions (IfStatement t c a) = [t]"
| "child_expressions (WhileStatement t b) = [t]"
| "child_expressions (DoWhileStatement b t) = [t]"
| "child_expressions (ForStatement i t u b) = init_exprs i @ opt_list t @ opt_list u"
| "child_expressions (SwitchStatement d cs) = d # concat (map (\<lambda>c. opt_list (case_test c)) cs)"
| "child_expressions (VariableDeclaration ds) = decl_inits ds"
| "child_expressions (ReturnStatement a) = opt_list a"
| "child_expressions (ExpressionStatement e) = [e]"
| "child_expressions _ = []"

lemma size_case_body: "size_list size (case_body c) \<le> size c"
  by (cases c) simp

lemma size_child_bodies: "b \<in> set (child_bodies s) \<Longrightarrow> 2 * size_list size b < Suc (2 * size s)"
proof (cases s rule: child_bodies.cases)
  case (7 d cs)
  assume "b \<in> set (child_bodies s)"
  with 7 obtain c where c: "c \<in> set cs" "b = case_body c" by auto
  then have "size c \<le> size_list size cs" by (simp add: size_list_estimation')
  with c(2) size_case_body [of c] have "size_list size b \<le> size_list size cs" by simp
  with 7 show ?thesis by simp
qed (auto simp: termination_simp)

text \<open>\<^verbatim>\<open>eachStatement\<close>: pre-order over a list and everything nested inside it.\<close>

function each_statement :: "stmt list \<Rightarrow> stmt list"
  and each_of :: "stmt \<Rightarrow> stmt list" where
  "each_statement ss = concat (map each_of ss)"
| "each_of s = s # concat (map each_statement (child_bodies s))"
  by pat_completeness auto

termination
proof (relation "measure (case_sum (\<lambda>ss. 2 * size_list size ss) (\<lambda>s. Suc (2 * size s)))")
  show "wf (measure (case_sum (\<lambda>ss. 2 * size_list size ss) (\<lambda>s. Suc (2 * size (s :: stmt)))))" by simp
next
  fix ss :: "stmt list" and x
  have "x \<in> set ss \<Longrightarrow> Suc (2 * size x) < 2 * size_list size ss"
    by (induction ss) auto
  then show "x \<in> set ss \<Longrightarrow> (Inr x, Inl ss) \<in> measure (case_sum (\<lambda>ss. 2 * size_list size ss) (\<lambda>s. Suc (2 * size s)))"
    by simp
next
  fix s and x :: "stmt list"
  show "x \<in> set (child_bodies s) \<Longrightarrow>
    (Inl x, Inr s) \<in> measure (case_sum (\<lambda>ss. 2 * size_list size ss) (\<lambda>s. Suc (2 * size s)))"
    using size_child_bodies by simp
qed

declare each_statement.simps [simp del] each_of.simps [simp del]

lemma each_statement_simps [simp]:
  "each_statement [] = []" "each_statement (s # ss) = each_of s @ each_statement ss"
  "each_statement (ss @ ts) = each_statement ss @ each_statement ts"
  by (simp_all add: each_statement.simps)

lemma set_each_statement: "set (each_statement ss) = (\<Union>s \<in> set ss. set (each_of s))"
  by (simp add: each_statement.simps)

lemma set_each_of: "set (each_of s) = insert s (\<Union>b \<in> set (child_bodies s). set (each_statement b))"
  by (simp add: each_of.simps)

definition declared_of :: "stmt \<Rightarrow> string list" where
  "declared_of s =
     (case s of
        VariableDeclaration ds \<Rightarrow> map decl_name ds
      | ForStatement (Some (InitDecl ds)) t u b \<Rightarrow> map decl_name ds
      | _ \<Rightarrow> [])"

definition declared_names :: "stmt list \<Rightarrow> string list" where
  "declared_names ss = remdups (concat (map declared_of (each_statement ss)))"

subsection \<open>Expressions\<close>

type_synonym recurse = "expr \<Rightarrow> expr list"

text \<open>The depth of an expression's operands, the fuel of the visits below.\<close>

fun depth :: "expr \<Rightarrow> nat" where
  "depth (Literal v) = 1"
| "depth (Identifier n) = 1"
| "depth (CastExpression t e) = Suc (depth e)"
| "depth (UnaryExpression op e) = Suc (depth e)"
| "depth (BinaryExpression op l r) = Suc (max (depth l) (depth r))"
| "depth (LogicalExpression op l r) = Suc (max (depth l) (depth r))"
| "depth (ConditionalExpression c a b) = Suc (max (depth c) (max (depth a) (depth b)))"
| "depth (AssignmentExpression op n e) = Suc (depth e)"
| "depth (UpdateExpression op pre e) = Suc (depth e)"
| "depth (CallExpression f args) = Suc (foldr max (map depth args) 1)"

fun visit_sub :: "recurse \<Rightarrow> nat \<Rightarrow> expr \<Rightarrow> expr list" where
  "visit_sub kids 0 e = []"
| "visit_sub kids (Suc n) e = e # concat (map (visit_sub kids n) (kids e))"

text \<open>
  \<^verbatim>\<open>eachSubExpression\<close> and \<^verbatim>\<open>heightOf\<close>. The recursion is bounded by the depth of the
  expression, with one level to spare for a bare identifier below a leaf.
\<close>

definition each_sub_expression :: "recurse \<Rightarrow> expr \<Rightarrow> expr list" where
  "each_sub_expression kids e = visit_sub kids (Suc (depth e)) e"

fun height_fuel :: "recurse \<Rightarrow> nat \<Rightarrow> expr \<Rightarrow> nat" where
  "height_fuel kids 0 e = 0"
| "height_fuel kids (Suc n) e = 1 + foldr max (map (height_fuel kids n) (kids e)) 0"

definition height_of :: "recurse \<Rightarrow> expr \<Rightarrow> nat" where
  "height_of kids e = height_fuel kids (Suc (depth e)) e"

definition each_expression :: "recurse \<Rightarrow> stmt list \<Rightarrow> expr list" where
  "each_expression kids ss =
     concat (map (\<lambda>s. concat (map (each_sub_expression kids) (child_expressions s))) (each_statement ss))"

subsection \<open>What the traversal reaches\<close>

fun operands :: "expr \<Rightarrow> expr list" where
  "operands (CastExpression t e) = [e]"
| "operands (UnaryExpression op e) = [e]"
| "operands (BinaryExpression op l r) = [l, r]"
| "operands (LogicalExpression op l r) = [l, r]"
| "operands (ConditionalExpression c a b) = [c, a, b]"
| "operands (AssignmentExpression op n e) = [e]"
| "operands (UpdateExpression op pre e) = [e]"
| "operands (CallExpression f args) = args"
| "operands _ = []"

text \<open>The sub-expressions of an expression, by structure.\<close>

inductive sub_expr :: "expr \<Rightarrow> expr \<Rightarrow> bool" where
  sub_refl [simp]: "sub_expr e e"
| sub_step: "k \<in> set (operands e) \<Longrightarrow> sub_expr x k \<Longrightarrow> sub_expr x e"

inductive_cases sub_exprE: "sub_expr x e"

inductive_simps sub_expr_simps [simp]:
  "sub_expr x (Literal v)" "sub_expr x (Identifier n)" "sub_expr x (CastExpression t e)"
  "sub_expr x (UnaryExpression op e)" "sub_expr x (BinaryExpression bop l r)"
  "sub_expr x (LogicalExpression lop l r)" "sub_expr x (ConditionalExpression c a b)"
  "sub_expr x (AssignmentExpression aop n e)" "sub_expr x (UpdateExpression uop pre e)"
  "sub_expr x (CallExpression f args)"

lemma foldr_max_ge: "x \<in> set xs \<Longrightarrow> x \<le> foldr max xs (d :: nat)"
  by (induction xs) (auto simp: le_max_iff_disj)

lemma operands_depth: "k \<in> set (operands e) \<Longrightarrow> depth k < depth e"
proof (cases e)
  case (CallExpression f args)
  assume "k \<in> set (operands e)"
  with CallExpression have "depth k \<in> set (map depth args)" by simp
  from foldr_max_ge [OF this] CallExpression show ?thesis by (simp add: less_Suc_eq_le)
qed (auto simp: less_Suc_eq_le)

lemma depth_pos [simp]: "0 < depth e"
  by (cases e) simp_all

locale walker =
  fixes kids :: recurse
  assumes reaches: "k \<in> set (operands e) \<Longrightarrow> k \<in> set (kids e)"
    and only: "k \<in> set (kids e) \<Longrightarrow> k \<in> set (operands e) \<or> (\<exists>n. k = Identifier n)"
    and leaf: "kids (Identifier n) = []"
begin

lemma visit_reaches: "sub_expr x e \<Longrightarrow> depth e \<le> n \<Longrightarrow> x \<in> set (visit_sub kids n e)"
proof (induction arbitrary: n rule: sub_expr.induct)
  case (sub_refl e)
  then show ?case using depth_pos [of e] by (cases n) auto
next
  case (sub_step k e x)
  from operands_depth [OF sub_step.hyps(1)] sub_step.prems obtain j where n: "n = Suc j" "depth k \<le> j"
    by (cases n) auto
  with sub_step.IH reaches [OF sub_step.hyps(1)] show ?case by auto
qed

lemma visit_only: "x \<in> set (visit_sub kids n e) \<Longrightarrow> sub_expr x e \<or> (\<exists>m. x = Identifier m)"
proof (induction n arbitrary: e)
  case (Suc n)
  then consider "x = e" | k where "k \<in> set (kids e)" "x \<in> set (visit_sub kids n k)" by auto
  then show ?case
  proof cases
    case 2
    from Suc.IH [OF 2(2)] only [OF 2(1)] show ?thesis by (auto intro: sub_step)
  qed simp
qed simp

text \<open>The visit calls its visitor on exactly the sub-expressions, and bare names.\<close>

lemma each_sub_expression_reaches: "sub_expr x e \<Longrightarrow> x \<in> set (each_sub_expression kids e)"
  by (simp add: each_sub_expression_def visit_reaches del: visit_sub.simps)

lemma each_sub_expression_only:
  "x \<in> set (each_sub_expression kids e) \<Longrightarrow> sub_expr x e \<or> (\<exists>m. x = Identifier m)"
  unfolding each_sub_expression_def by (rule visit_only)

lemma each_sub_expression_call:
  "CallExpression f args \<in> set (each_sub_expression kids e) \<longleftrightarrow> sub_expr (CallExpression f args) e"
  using each_sub_expression_reaches each_sub_expression_only by blast

lemma visit_call:
  "CallExpression f args \<in> set (each_expression kids ss) \<longleftrightarrow>
    (\<exists>s \<in> set (each_statement ss). \<exists>e \<in> set (child_expressions s). sub_expr (CallExpression f args) e)"
  by (auto simp: each_expression_def each_sub_expression_call)

text \<open>More fuel changes nothing: the bound is never met.\<close>

lemma height_more: "depth e < n \<Longrightarrow> height_fuel kids n e = height_fuel kids (Suc (depth e)) e"
proof (induction "depth e" arbitrary: e n rule: less_induct)
  case less
  obtain j where n: "n = Suc j" using less.prems by (cases n) auto
  have "height_fuel kids j k = height_fuel kids (depth e) k" if k: "k \<in> set (kids e)" for k
  proof -
    consider "k \<in> set (operands e)" | m where "k = Identifier m" using only [OF k] by blast
    then show ?thesis
    proof cases
      case 1
      from operands_depth [OF this] less.prems n have "depth k < depth e" "depth k < j" by auto
      with less.hyps [of k j] less.hyps [of k "depth e"] show ?thesis by simp
    next
      case 2
      have "0 < j" "0 < depth e" using less.prems n depth_pos [of e] by linarith+
      with 2 show ?thesis by (cases j; cases "depth e") (auto simp: leaf)
    qed
  qed
  then have "map (height_fuel kids j) (kids e) = map (height_fuel kids (depth e)) (kids e)" by simp
  then show ?case unfolding n height_fuel.simps by (rule arg_cong)
qed

lemma height_of_step: "height_of kids e = 1 + foldr max (map (height_of kids) (kids e)) 0"
proof -
  have "height_fuel kids (depth e) k = height_of kids k" if k: "k \<in> set (kids e)" for k
  proof -
    consider "k \<in> set (operands e)" | m where "k = Identifier m" using only [OF k] by blast
    then show ?thesis
    proof cases
      case 1
      from height_more [OF operands_depth [OF this]] show ?thesis by (simp add: height_of_def)
    next
      case 2
      then show ?thesis using depth_pos [of e] by (cases "depth e") (auto simp: leaf height_of_def)
    qed
  qed
  then have "map (height_fuel kids (depth e)) (kids e) = map (height_of kids) (kids e)" by simp
  then show ?thesis unfolding height_of_def [of kids e] height_fuel.simps by (rule arg_cong)
qed

end

interpretation operand_walk: walker operands
  by unfold_locales auto

end
