(* ===== verification/Corpus.thy ===== *)
theory Corpus
  imports Walk
begin

section \<open>Procedure graphs (\<^verbatim>\<open>fuzz/ts/gen/corpus.ts\<close>)\<close>

text \<open>
  A corpus entry is a list of procedures whose calls, read out of the trees, are the edges of
  the call graph. \<open>check_graph\<close> is \<^verbatim>\<open>checkGraph\<close>, the invariant that a call targets a higher
  index; \<open>to_procedures\<close> is \<^verbatim>\<open>toProcedures\<close>, which builds from the last index down and relies
  on that invariant to find every callee already built. mog-core's \<^verbatim>\<open>proc\<close>, which makes a
  \<^verbatim>\<open>Procedure\<close> of a fragment, is the parameter \<open>mk\<close>, and the optional print-and-reparse step is
  the parameter \<open>front\<close>.
\<close>

subsection \<open>Callees\<close>

fun call_index :: "expr \<Rightarrow> nat list" where
  "call_index (CallExpression f args) = opt_list (proc_index f)"
| "call_index _ = []"

definition callees_of :: "recurse \<Rightarrow> stmt list \<Rightarrow> nat list" where
  "callees_of kids body = sort (remdups (concat (map call_index (each_expression kids body))))"

text \<open>The calls of a body, by structure.\<close>

definition calls :: "stmt list \<Rightarrow> nat \<Rightarrow> bool" where
  "calls body j \<longleftrightarrow>
     (\<exists>s \<in> set (each_statement body). \<exists>e \<in> set (child_expressions s).
        \<exists>f args. sub_expr (CallExpression f args) e \<and> proc_index f = Some j)"

lemma set_callees_of: "set (callees_of kids body) = {j. \<exists>e \<in> set (each_expression kids body). j \<in> set (call_index e)}"
  by (auto simp: callees_of_def)

lemma call_index_iff: "j \<in> set (call_index e) \<longleftrightarrow> (\<exists>f args. e = CallExpression f args \<and> proc_index f = Some j)"
  by (cases e) auto

lemma callees_of_calls:
  assumes "walker kids"
  shows "j \<in> set (callees_of kids body) \<longleftrightarrow> calls body j"
  unfolding set_callees_of calls_def
  using walker.visit_call [OF assms] by (simp add: call_index_iff) blast

lemma distinct_callees: "distinct (callees_of kids body)" and sorted_callees: "sorted (callees_of kids body)"
  by (simp_all add: callees_of_def)

subsection \<open>\<^verbatim>\<open>checkGraph\<close>\<close>

datatype graph_error = NoEntry | NoSuchCallee nat nat | CalleeNotHigher nat nat

definition check_callee :: "nat \<Rightarrow> nat \<Rightarrow> nat \<Rightarrow> graph_error option" where
  "check_callee n i callee =
     (if callee \<ge> n then Some (NoSuchCallee i callee)
      else if callee \<le> i then Some (CalleeNotHigher i callee)
      else None)"

fun first_some :: "'a option list \<Rightarrow> 'a option" where
  "first_some [] = None"
| "first_some (None # xs) = first_some xs"
| "first_some (Some x # xs) = Some x"

definition check_graph :: "recurse \<Rightarrow> gen_program \<Rightarrow> graph_error + unit" where
  "check_graph kids gen =
     (if gen = [] then Inl NoEntry
      else case first_some (concat (map (\<lambda>(i, p).
             map (check_callee (length gen) i) (callees_of kids (proc_body p))) (enumerate 0 gen))) of
        Some e \<Rightarrow> Inl e
      | None \<Rightarrow> Inr ())"

lemma first_some_None: "first_some xs = None \<longleftrightarrow> (\<forall>x \<in> set xs. x = None)"
  by (induction xs rule: first_some.induct) auto

lemma check_callee_None: "check_callee n i c = None \<longleftrightarrow> i < c \<and> c < n"
  by (auto simp: check_callee_def)

lemma ball_enumerate: "(\<forall>x \<in> set (enumerate 0 xs). P x) \<longleftrightarrow> (\<forall>i < length xs. P (i, xs ! i))"
  by (auto simp: in_set_enumerate_eq)

lemma check_graph_callees:
  "check_graph kids gen = Inr () \<longleftrightarrow>
     gen \<noteq> [] \<and> (\<forall>i < length gen. \<forall>c \<in> set (callees_of kids (proc_body (gen ! i))). i < c \<and> c < length gen)"
proof -
  define errs where "errs = concat (map (\<lambda>(i, p). map (check_callee (length gen) i) (callees_of kids (proc_body p))) (enumerate 0 gen))"
  have "first_some errs = None
      \<longleftrightarrow> (\<forall>x \<in> set (enumerate 0 gen). \<forall>c \<in> set (callees_of kids (proc_body (snd x))). fst x < c \<and> c < length gen)"
    by (fastforce simp: errs_def first_some_None check_callee_None)
  also have "\<dots> \<longleftrightarrow> (\<forall>i < length gen. \<forall>c \<in> set (callees_of kids (proc_body (gen ! i))). i < c \<and> c < length gen)"
    by (simp only: ball_enumerate fst_conv snd_conv)
  finally have "first_some errs = None \<longleftrightarrow> \<dots>" .
  moreover have "check_graph kids gen = Inr () \<longleftrightarrow> gen \<noteq> [] \<and> first_some errs = None"
    unfolding check_graph_def errs_def [symmetric] by (simp split: option.split)
  ultimately show ?thesis by simp
qed

definition call_graph :: "gen_program \<Rightarrow> (nat \<times> nat) set" where
  "call_graph gen = {(i, j). i < length gen \<and> calls (proc_body (gen ! i)) j}"

lemma check_graph_iff:
  assumes "walker kids"
  shows "check_graph kids gen = Inr () \<longleftrightarrow>
    gen \<noteq> [] \<and> (\<forall>(i, j) \<in> call_graph gen. i < j \<and> j < length gen)"
  unfolding check_graph_callees call_graph_def using callees_of_calls [OF assms] by auto

lemma upward_acyclic:
  assumes "\<And>i j. (i, j) \<in> r \<Longrightarrow> i < (j :: nat)"
  shows "acyclic r"
proof (rule acyclicI, rule allI, rule notI)
  have "(i, j) \<in> r\<^sup>+ \<Longrightarrow> i < j" for i j
    by (induction rule: trancl_induct) (auto dest: assms)
  then show "(x, x) \<in> r\<^sup>+ \<Longrightarrow> False" for x by blast
qed

text \<open>
  C20. \<^verbatim>\<open>checkGraph\<close> accepts exactly the programs the representation promises: there is an
  entry, and every call anywhere in a body names a procedure that exists and has a higher
  index; and then the call graph has no cycle.
\<close>
theorem check_graph_correct:
  assumes "walker kids"
  shows "(check_graph kids gen = Inr () \<longleftrightarrow>
      gen \<noteq> [] \<and> (\<forall>(i, j) \<in> call_graph gen. i < j \<and> j < length gen))
    \<and> (check_graph kids gen = Inr () \<longrightarrow> acyclic (call_graph gen))"
proof -
  have "acyclic (call_graph gen)" if "check_graph kids gen = Inr ()"
    using that check_graph_iff [OF assms, of gen] by (intro upward_acyclic) auto
  with check_graph_iff [OF assms] show ?thesis by blast
qed

definition two_procs :: gen_program where
  "two_procs =
     [\<lparr>proc_args = [''a''], proc_body =
        [IfStatement (CallExpression ''p1'' [Identifier ''a''])
           (ReturnStatement (Some (CallExpression ''p1'' [Literal 1]))) None]\<rparr>,
      \<lparr>proc_args = [''x''], proc_body = [ReturnStatement (Some (Identifier ''x''))]\<rparr>]"

lemma check_graph_correct_witness:
  "check_graph operands two_procs = Inr () \<and> acyclic (call_graph two_procs)
    \<and> check_graph operands (rev two_procs) = Inl (CalleeNotHigher 1 1)"
proof -
  have "check_graph operands two_procs = Inr ()" by code_simp
  moreover have "check_graph operands (rev two_procs) = Inl (CalleeNotHigher 1 1)" by code_simp
  ultimately show ?thesis
    using check_graph_correct [OF operand_walk.walker_axioms, of two_procs] by simp
qed

subsection \<open>\<^verbatim>\<open>toProcedures\<close>\<close>

text \<open>An \<^verbatim>\<open>IrFragment\<close>: the body, and the procedures its callee names stand for.\<close>

record 'p fragment =
  frag_body :: "stmt list"
  frag_calls :: "(string \<times> 'p option) list"

definition fragment_of :: "recurse \<Rightarrow> (nat \<rightharpoonup> 'p) \<Rightarrow> stmt list \<Rightarrow> stmt list \<Rightarrow> 'p fragment" where
  "fragment_of kids built body front_body =
     \<lparr>frag_body = front_body,
      frag_calls = map (\<lambda>c. (proc_name c, built c)) (callees_of kids body)\<rparr>"

fun build_down ::
  "recurse \<Rightarrow> (string list \<Rightarrow> 'p fragment \<Rightarrow> 'p) \<Rightarrow> (stmt list \<Rightarrow> 'e + stmt list) \<Rightarrow> gen_program
    \<Rightarrow> nat \<Rightarrow> (nat \<rightharpoonup> 'p) \<Rightarrow> 'e + (nat \<rightharpoonup> 'p)" where
  "build_down kids mk front gen 0 built = Inr built"
| "build_down kids mk front gen (Suc i) built =
     (let p = gen ! i
      in case front (proc_body p) of
           Inl e \<Rightarrow> Inl e
         | Inr body \<Rightarrow>
             build_down kids mk front gen i
               (built(i \<mapsto> mk (proc_args p) (fragment_of kids built (proc_body p) body))))"

text \<open>With \<^verbatim>\<open>verify\<close> off the tree itself is handed over: \<open>front = Inr\<close>.\<close>

definition to_procedures ::
  "recurse \<Rightarrow> (string list \<Rightarrow> 'p fragment \<Rightarrow> 'p) \<Rightarrow> (stmt list \<Rightarrow> 'e + stmt list) \<Rightarrow> gen_program
    \<Rightarrow> (graph_error + 'e) + 'p option" where
  "to_procedures kids mk front gen =
     (case check_graph kids gen of
        Inl e \<Rightarrow> Inl (Inl e)
      | Inr _ \<Rightarrow>
          (case build_down kids mk front gen (length gen) Map.empty of
             Inl e \<Rightarrow> Inl (Inr e)
           | Inr built \<Rightarrow> Inr (built 0)))"

text \<open>
  \<^verbatim>\<open>toProceduresUnchecked\<close>: every identity is declared first, so a call may name any existing
  procedure; a fragment's map is then from names to identities.
\<close>

definition to_procedures_unchecked ::
  "recurse \<Rightarrow> (stmt list \<Rightarrow> 'e + stmt list) \<Rightarrow> gen_program \<Rightarrow> ('e + nat fragment) list" where
  "to_procedures_unchecked kids front gen =
     map (\<lambda>p. case front (proc_body p) of
         Inl e \<Rightarrow> Inl e
       | Inr body \<Rightarrow> Inr \<lparr>frag_body = body,
           frag_calls = map (\<lambda>c. (proc_name c, Some c))
             (filter (\<lambda>c. c < length gen) (callees_of kids (proc_body p)))\<rparr>) gen"

lemma build_down_built:
  assumes ok: "\<And>i c. i < n \<Longrightarrow> c \<in> set (callees_of kids (proc_body (gen ! i))) \<Longrightarrow> i < c"
    and run: "build_down kids mk front gen n built = Inr final"
  shows "(\<forall>i \<ge> n. final i = built i) \<and>
    (\<forall>i < n. \<exists>body. front (proc_body (gen ! i)) = Inr body \<and>
       final i = Some (mk (proc_args (gen ! i)) (fragment_of kids final (proc_body (gen ! i)) body)))"
  using assms
proof (induction n arbitrary: built)
  case (Suc n)
  define p where "p = gen ! n"
  obtain body where body: "front (proc_body p) = Inr body"
    and rest: "build_down kids mk front gen n
      (built(n \<mapsto> mk (proc_args p) (fragment_of kids built (proc_body p) body))) = Inr final"
    using Suc.prems(2) by (auto simp: Let_def p_def split: sum.splits)
  from Suc.IH [OF _ rest] Suc.prems(1) have
    keep: "\<forall>i \<ge> n. final i = (built(n \<mapsto> mk (proc_args p) (fragment_of kids built (proc_body p) body))) i"
    and below: "\<forall>i < n. \<exists>body. front (proc_body (gen ! i)) = Inr body \<and>
       final i = Some (mk (proc_args (gen ! i)) (fragment_of kids final (proc_body (gen ! i)) body))"
    by (simp_all add: less_Suc_eq)
  have "final c = built c" if "c \<in> set (callees_of kids (proc_body p))" for c
  proof -
    have "n < c" using Suc.prems(1) [of n c] that by (simp add: p_def)
    with keep [rule_format, of c] show ?thesis by simp
  qed
  then have "fragment_of kids final (proc_body p) body = fragment_of kids built (proc_body p) body"
    by (simp add: fragment_of_def)
  then have "final n = Some (mk (proc_args p) (fragment_of kids final (proc_body p) body))"
    using keep by simp
  with keep below body show ?case by (auto simp: less_Suc_eq p_def)
qed simp

lemma build_down_Inr: "\<exists>final. build_down kids mk Inr gen n built = Inr final"
  by (induction n arbitrary: built) (simp_all add: Let_def)

text \<open>
  On a program that \<^verbatim>\<open>checkGraph\<close> accepts, building from the last index down finds every
  callee already built: there is one table of procedures, complete, in which each entry is
  made from its own arguments and body and from the table's entries for exactly its callees,
  and \<^verbatim>\<open>toProcedures\<close> returns the entry procedure of that table.
\<close>
theorem to_procedures_links:
  assumes "check_graph kids gen = Inr ()"
  shows "\<exists>table. to_procedures kids mk (Inr :: stmt list \<Rightarrow> 'e + stmt list) gen = Inr (table 0) \<and>
    (\<forall>i < length gen. table i = Some (mk (proc_args (gen ! i))
       \<lparr>frag_body = proc_body (gen ! i),
        frag_calls = map (\<lambda>c. (proc_name c, table c)) (callees_of kids (proc_body (gen ! i)))\<rparr>)
      \<and> (\<forall>c \<in> set (callees_of kids (proc_body (gen ! i))). table c \<noteq> None))"
proof -
  note graph = assms [unfolded check_graph_callees]
  obtain table where run: "build_down kids mk (Inr :: stmt list \<Rightarrow> 'e + stmt list) gen (length gen) Map.empty = Inr table"
    using build_down_Inr by blast
  have entries: "\<forall>i < length gen. table i = Some (mk (proc_args (gen ! i))
      (fragment_of kids table (proc_body (gen ! i)) (proc_body (gen ! i))))"
  proof (intro allI impI)
    fix i assume i: "i < length gen"
    have "\<And>i c. i < length gen \<Longrightarrow> c \<in> set (callees_of kids (proc_body (gen ! i))) \<Longrightarrow> i < c"
      using graph by blast
    from build_down_built [OF this run] i
    show "table i = Some (mk (proc_args (gen ! i)) (fragment_of kids table (proc_body (gen ! i)) (proc_body (gen ! i))))"
      by auto
  qed
  moreover have "to_procedures kids mk (Inr :: stmt list \<Rightarrow> 'e + stmt list) gen = Inr (table 0)"
    using assms run by (simp add: to_procedures_def)
  moreover have "table c \<noteq> None"
    if "i < length gen" "c \<in> set (callees_of kids (proc_body (gen ! i)))" for i c
  proof -
    have "c < length gen" using graph that by blast
    with entries obtain x where "table c = Some x" by blast
    then show ?thesis by simp
  qed
  ultimately show ?thesis
    unfolding fragment_of_def by (intro exI [of _ table] conjI allI impI ballI) iprover+
qed

text \<open>The simplest linked procedure: its parameters, its body and the names it can call.\<close>

lemma to_procedures_links_witness:
  "to_procedures operands (\<lambda>args fr. (args, map fst (frag_calls fr))) (Inr :: stmt list \<Rightarrow> string + stmt list) two_procs
     = Inr (Some ([''a''], [''p1'']))"
proof -
  have ok: "check_graph operands two_procs = Inr ()" by code_simp
  define mk :: "string list \<Rightarrow> (string list \<times> string list) fragment \<Rightarrow> string list \<times> string list" where
    "mk = (\<lambda>args fr. (args, map fst (frag_calls fr)))"
  have "0 < length two_procs" by (simp add: two_procs_def)
  then obtain table where t: "to_procedures operands mk (Inr :: stmt list \<Rightarrow> string + stmt list) two_procs = Inr (table 0)"
    "table 0 = Some (mk (proc_args (two_procs ! 0))
       \<lparr>frag_body = proc_body (two_procs ! 0),
        frag_calls = map (\<lambda>c. (proc_name c, table c)) (callees_of operands (proc_body (two_procs ! 0)))\<rparr>)"
    using to_procedures_links [OF ok, of mk] by blast
  have "callees_of operands (proc_body (two_procs ! 0)) = [1]" by code_simp
  moreover have "proc_args (two_procs ! 0) = [''a'']" by (simp add: two_procs_def)
  moreover have "proc_name 1 = ''p1''" by code_simp
  ultimately show ?thesis using t by (simp add: mk_def)
qed

end
