(* ===== verification/Js_Text.thy ===== *)
theory Js_Text
  imports Ast "HOL-Library.Sublist" "HOL-Library.List_Lexorder" "HOL-Library.Char_ord"
begin

section \<open>Strings as the scripts use them\<close>

text \<open>
  The pieces of JavaScript's string library the harness reads its tools' output with:
  \<^verbatim>\<open>trim\<close>, \<^verbatim>\<open>split\<close> at a line end, \<^verbatim>\<open>startsWith\<close>, \<^verbatim>\<open>parseInt(s, 16)\<close>. Output of a tool is
  ASCII, so white space is the six ASCII characters of it. \<^verbatim>\<open>NaN\<close> is \<open>None\<close>.
\<close>

definition newline_char :: char where
  "newline_char = CHR 0x0A"

definition is_space :: "char \<Rightarrow> bool" where
  "is_space c \<longleftrightarrow> of_char c \<in> set [9, 10, 11, 12, 13, 32 :: nat]"

definition trim :: "string \<Rightarrow> string" where
  "trim s = rev (dropWhile is_space (rev (dropWhile is_space s)))"

text \<open>\<^verbatim>\<open>s.split("\n")\<close>: always at least one piece.\<close>

fun split_lines :: "string \<Rightarrow> string list" where
  "split_lines [] = [[]]"
| "split_lines (c # cs) =
     (if c = newline_char then [] # split_lines cs
      else case split_lines cs of [] \<Rightarrow> [[c]] | l # ls \<Rightarrow> (c # l) # ls)"

definition starts_with :: "string \<Rightarrow> string \<Rightarrow> bool" where
  "starts_with p s \<longleftrightarrow> take (length p) s = p"

text \<open>\<^verbatim>\<open>toString(16)\<close>, and a fixed number of digits as the target prints them.\<close>

definition hex_char :: "nat \<Rightarrow> char" where
  "hex_char d = (if d < 10 then char_of (48 + d) else char_of (87 + d))"

fun show_hex :: "nat \<Rightarrow> string" where
  "show_hex n = (if n < 16 then [hex_char n] else show_hex (n div 16) @ [hex_char (n mod 16)])"

declare show_hex.simps [simp del]

fun hex_digits :: "nat \<Rightarrow> nat \<Rightarrow> string" where
  "hex_digits 0 n = []"
| "hex_digits (Suc k) n = hex_digits k (n div 16) @ [hex_char (n mod 16)]"

definition hex_value :: "char \<Rightarrow> nat option" where
  "hex_value c =
     (let n = of_char c
      in if 48 \<le> n \<and> n \<le> 57 then Some (n - 48)
         else if 97 \<le> n \<and> n \<le> 102 then Some (n - 87)
         else if 65 \<le> n \<and> n \<le> 70 then Some (n - 55)
         else None)"

text \<open>The longest prefix of digits; a text without one is not a number.\<close>

fun read_hex :: "nat \<Rightarrow> string \<Rightarrow> nat" where
  "read_hex acc [] = acc"
| "read_hex acc (c # cs) = (case hex_value c of None \<Rightarrow> acc | Some d \<Rightarrow> read_hex (16 * acc + d) cs)"

definition hex_prefix :: "string \<Rightarrow> nat option" where
  "hex_prefix s =
     (case s of c # cs \<Rightarrow> if hex_value c = None then None else Some (read_hex 0 s) | [] \<Rightarrow> None)"

definition skip_0x :: "string \<Rightarrow> string" where
  "skip_0x s = (case s of a # b # r \<Rightarrow> if a = CHR ''0'' \<and> b \<in> set ''xX'' then r else s | _ \<Rightarrow> s)"

definition parse_int16 :: "string \<Rightarrow> int option" where
  "parse_int16 s =
     (case dropWhile is_space s of
        [] \<Rightarrow> None
      | c # cs \<Rightarrow>
          (if c = CHR ''-'' then map_option (\<lambda>n. - int n) (hex_prefix (skip_0x cs))
           else if c = CHR ''+'' then map_option int (hex_prefix (skip_0x cs))
           else map_option int (hex_prefix (skip_0x (c # cs)))))"

text \<open>\<^verbatim>\<open>parseInt(s, 16) >>> 0\<close>: not-a-number becomes 0.\<close>

definition parse_u32 :: "string \<Rightarrow> u32" where
  "parse_u32 s = (case parse_int16 s of None \<Rightarrow> 0 | Some v \<Rightarrow> to_u32 v)"

subsection \<open>Lines\<close>

lemma split_lines_ne [simp]: "split_lines s \<noteq> []"
  by (induction s) (auto split: list.splits)

lemma split_lines_single: "newline_char \<notin> set s \<Longrightarrow> split_lines s = [s]"
  by (induction s) auto

lemma split_lines_append: "newline_char \<notin> set l \<Longrightarrow> split_lines (l @ newline_char # s) = l # split_lines s"
  by (induction l) auto

subsection \<open>Hexadecimal\<close>

lemma of_hex_char: "d < 16 \<Longrightarrow> (of_char (hex_char d) :: nat) = (if d < 10 then 48 + d else 87 + d)"
  by (simp add: hex_char_def)

lemma hex_char_props:
  assumes "d < 16"
  shows "hex_value (hex_char d) = Some d" and "\<not> is_space (hex_char d)"
    and "hex_char d \<notin> set ''+-xX''" and "hex_char d \<noteq> newline_char"
proof -
  note v = of_hex_char [OF assms]
  show "hex_value (hex_char d) = Some d" and "\<not> is_space (hex_char d)"
    using assms unfolding hex_value_def is_space_def v by auto
  have "hex_char d \<noteq> c" if "(of_char c :: nat) < 48 \<or> 57 < (of_char c :: nat) \<and> (of_char c :: nat) < 97 \<or> 102 < (of_char c :: nat)" for c
    using that v assms by (auto split: if_splits)
  then show "hex_char d \<notin> set ''+-xX''" and "hex_char d \<noteq> newline_char"
    by (simp_all add: newline_char_def)
qed

lemma length_hex_digits [simp]: "length (hex_digits k n) = k"
  by (induction k arbitrary: n) simp_all

lemma hex_digits_char: "c \<in> set (hex_digits k n) \<Longrightarrow> \<exists>d < 16. c = hex_char d"
proof (induction k arbitrary: n)
  case (Suc k)
  have "\<exists>d < 16. hex_char (n mod 16) = hex_char d"
    by (intro exI [of _ "n mod 16"]) simp
  with Suc.prems Suc.IH [of "n div 16"] show ?case by auto
qed simp

lemma hex_digits_plain:
  assumes "c \<in> set (hex_digits k n)"
  shows "\<not> is_space c" and "c \<notin> set ''+-xX''" and "c \<noteq> newline_char" and "hex_value c \<noteq> None"
  using hex_digits_char [OF assms] hex_char_props by auto

lemma read_hex_append:
  "(\<forall>c \<in> set s. hex_value c \<noteq> None) \<Longrightarrow> read_hex acc (s @ t) = read_hex (read_hex acc s) t"
  by (induction s arbitrary: acc) auto

lemma read_hex_digits: "read_hex acc (hex_digits k n) = acc * 16 ^ k + n mod 16 ^ k"
proof (induction k arbitrary: n)
  case 0
  then show ?case by simp
next
  case (Suc k)
  have d: "hex_value (hex_char (n mod 16)) = Some (n mod 16)" by (rule hex_char_props) simp
  have "read_hex acc (hex_digits (Suc k) n) = read_hex (read_hex acc (hex_digits k (n div 16))) [hex_char (n mod 16)]"
    unfolding hex_digits.simps by (rule read_hex_append) (use hex_digits_plain in blast)
  also have "\<dots> = 16 * (acc * 16 ^ k + n div 16 mod 16 ^ k) + n mod 16"
    by (simp add: Suc.IH d)
  also have "\<dots> = acc * 16 ^ Suc k + n mod 16 ^ Suc k"
    by (simp add: mod_mult2_eq algebra_simps)
  finally show ?case .
qed

lemma hex_prefix_digits: "hex_prefix (hex_digits (Suc k) n) = Some (n mod 16 ^ Suc k)"
proof -
  obtain c cs where s: "hex_digits (Suc k) n = c # cs"
    using length_hex_digits [of "Suc k" n] by (cases "hex_digits (Suc k) n") auto
  then have "c \<in> set (hex_digits (Suc k) n)" by simp
  then have "hex_value c \<noteq> None" by (rule hex_digits_plain)
  then have "hex_prefix (hex_digits (Suc k) n) = Some (read_hex 0 (hex_digits (Suc k) n))"
    unfolding hex_prefix_def s by simp
  then show ?thesis by (simp only: read_hex_digits mult_0 add_0)
qed

lemma skip_0x_digits: "skip_0x (hex_digits k n) = hex_digits k n"
proof -
  have "b \<notin> set ''xX''" if "hex_digits k n = a # b # r" for a b r
    using hex_digits_plain(2) [of b k n] that by auto
  then show ?thesis unfolding skip_0x_def by (auto split: list.splits)
qed

lemma parse_int16_digits: "parse_int16 (hex_digits (Suc k) n) = Some (int (n mod 16 ^ Suc k))"
proof -
  obtain c cs where s: "hex_digits (Suc k) n = c # cs"
    using length_hex_digits [of "Suc k" n] by (cases "hex_digits (Suc k) n") auto
  then have "c \<in> set (hex_digits (Suc k) n)" by simp
  then have c: "\<not> is_space c" "c \<notin> set ''+-xX''" by (rule hex_digits_plain)+
  then have "parse_int16 (hex_digits (Suc k) n) = map_option int (hex_prefix (skip_0x (hex_digits (Suc k) n)))"
    by (simp add: parse_int16_def s del: hex_digits.simps)
  then show ?thesis by (simp only: skip_0x_digits hex_prefix_digits option.map)
qed

lemma parse_u32_digits: "parse_u32 (hex_digits 8 (unat w)) = w"
proof -
  have 8: "(8 :: nat) = Suc 7" by simp
  have "unat w < 16 ^ Suc 7" using unsigned_less [of w, where 'a = nat] by simp
  then have "unat w mod 16 ^ Suc 7 = unat w" by (rule mod_less)
  then have "parse_int16 (hex_digits 8 (unat w)) = Some (int (unat w))"
    unfolding 8 parse_int16_digits by (simp only:)
  then show ?thesis by (simp add: parse_u32_def del: hex_digits.simps)
qed

lemma trim_id:
  assumes "s = [] \<or> \<not> is_space (hd s) \<and> \<not> is_space (last s)"
  shows "trim s = s"
proof (cases "s = []")
  case False
  with assms have "dropWhile is_space s = s" "dropWhile is_space (rev s) = rev s"
    by (auto simp: dropWhile_eq_self_iff hd_rev)
  then show ?thesis by (simp add: trim_def)
qed (simp add: trim_def)

end
