(* ===== verification/Print.thy ===== *)
theory Print
  imports Js_Text
begin

section \<open>The printer (\<^verbatim>\<open>fuzz/ts/gen/print.ts\<close>)\<close>

text \<open>
  From a tree to DSL source. A child is parenthesised exactly when its level falls below what
  its position accepts; the errors the code throws (a negative literal, a declaration without
  declarators or with mixed types) are the \<open>Inl\<close> of the result.
\<close>

subsection \<open>Spellings\<close>

fun type_text :: "prim_type \<Rightarrow> string" where
  "type_text U32 = ''u32''" | "type_text U16 = ''u16''" | "type_text U8 = ''u8''"
| "type_text I32 = ''i32''" | "type_text I16 = ''i16''" | "type_text I8 = ''i8''"

fun bin_text :: "bin_op \<Rightarrow> string" where
  "bin_text Plus = ''+''" | "bin_text Minus = ''-''" | "bin_text Times = ''*''"
| "bin_text Slash = ''/''" | "bin_text Percent = ''%''" | "bin_text Bar = ''|''"
| "bin_text Caret = ''^''" | "bin_text Amp = ''&''" | "bin_text EqEq = ''==''"
| "bin_text NotEq = ''!=''" | "bin_text Less = ''<''" | "bin_text LessEq = ''<=''"
| "bin_text Greater = ''>''" | "bin_text GreaterEq = ''>=''" | "bin_text Shl = ''<<''"
| "bin_text Shr = ''>>''"

fun log_text :: "log_op \<Rightarrow> string" where
  "log_text AndAnd = ''&&''" | "log_text OrOr = ''||''"

fun un_text :: "un_op \<Rightarrow> string" where
  "un_text Negate = ''-''" | "un_text Tilde = ''~''" | "un_text Bang = ''!''" | "un_text UPlus = ''+''"

fun upd_text :: "upd_op \<Rightarrow> string" where
  "upd_text Incr = ''++''" | "upd_text Decr = ''--''"

fun assign_text :: "assign_op \<Rightarrow> string" where
  "assign_text Assign = ''=''" | "assign_text (Compound op) = bin_text op @ ''=''"

subsection \<open>Precedence\<close>

definition lvl_assign :: nat where "lvl_assign = 1"
definition lvl_ternary :: nat where "lvl_ternary = 2"
definition lvl_unary :: nat where "lvl_unary = 13"
definition lvl_postfix :: nat where "lvl_postfix = 14"
definition lvl_primary :: nat where "lvl_primary = 15"

lemmas levels = lvl_assign_def lvl_ternary_def lvl_unary_def lvl_postfix_def lvl_primary_def

fun log_level :: "log_op \<Rightarrow> nat" where
  "log_level OrOr = 3" | "log_level AndAnd = 4"

fun bin_level :: "bin_op \<Rightarrow> nat" where
  "bin_level Bar = 5" | "bin_level Caret = 6" | "bin_level Amp = 7"
| "bin_level EqEq = 8" | "bin_level NotEq = 8"
| "bin_level Less = 9" | "bin_level LessEq = 9" | "bin_level Greater = 9" | "bin_level GreaterEq = 9"
| "bin_level Shl = 10" | "bin_level Shr = 10"
| "bin_level Plus = 11" | "bin_level Minus = 11"
| "bin_level Times = 12" | "bin_level Slash = 12" | "bin_level Percent = 12"

fun level_of :: "expr \<Rightarrow> nat" where
  "level_of (AssignmentExpression op n e) = lvl_assign"
| "level_of (ConditionalExpression c a b) = lvl_ternary"
| "level_of (LogicalExpression op l r) = log_level op"
| "level_of (BinaryExpression op l r) = bin_level op"
| "level_of (UnaryExpression op e) = lvl_unary"
| "level_of (UpdateExpression op pre e) = (if pre then lvl_unary else lvl_postfix)"
| "level_of _ = lvl_primary"

definition paren :: "string \<Rightarrow> string" where
  "paren t = ''('' @ t @ '')''"

text \<open>\<^verbatim>\<open>sub\<close>, given the text of the child.\<close>

definition wrap :: "nat \<Rightarrow> expr \<Rightarrow> string \<Rightarrow> string" where
  "wrap need e t = (if level_of e < need then paren t else t)"

subsection \<open>Expressions\<close>


definition print_literal :: "int \<Rightarrow> string + string" where
  "print_literal v =
     (if v < 0 then Inl ''print: negative literal''
      else let n = unat (to_u32 v)
           in Inr (if n < 0x10000 then show_nat n else ''0x'' @ show_hex n))"

fun join :: "string \<Rightarrow> string list \<Rightarrow> string" where
  "join sep [] = []"
| "join sep [x] = x"
| "join sep (x # y # ys) = x @ sep @ join sep (y # ys)"

text \<open>A nested prefix operator is always parenthesised: \<open>--x\<close> would lex as one operator.\<close>

fun prefix_form :: "expr \<Rightarrow> bool" where
  "prefix_form (UnaryExpression op e) \<longleftrightarrow> True"
| "prefix_form (UpdateExpression op pre e) \<longleftrightarrow> pre"
| "prefix_form _ \<longleftrightarrow> False"

fun print_expr :: "expr \<Rightarrow> string + string" where
  "print_expr (Literal v) = print_literal v"
| "print_expr (Identifier n) = Inr n"
| "print_expr (CastExpression t e) = bindr (print_expr e) (\<lambda>x. Inr (type_text t @ paren x))"
| "print_expr (CallExpression f args) =
     bindr (map_r print_expr args) (\<lambda>xs. Inr (f @ paren (join '', '' xs)))"
| "print_expr (AssignmentExpression op n e) =
     bindr (print_expr e) (\<lambda>x. Inr (n @ '' '' @ assign_text op @ '' '' @ wrap lvl_assign e x))"
| "print_expr (ConditionalExpression c a b) =
     bindr (print_expr c) (\<lambda>x. bindr (print_expr a) (\<lambda>y. bindr (print_expr b) (\<lambda>z.
     Inr (wrap (log_level OrOr) c x @ '' ? '' @ y @ '' : '' @ wrap lvl_assign b z))))"
| "print_expr (LogicalExpression op l r) =
     bindr (print_expr l) (\<lambda>x. bindr (print_expr r) (\<lambda>y.
     Inr (wrap (log_level op) l x @ '' '' @ log_text op @ '' '' @ wrap (log_level op + 1) r y)))"
| "print_expr (BinaryExpression op l r) =
     bindr (print_expr l) (\<lambda>x. bindr (print_expr r) (\<lambda>y.
     Inr (wrap (bin_level op) l x @ '' '' @ bin_text op @ '' '' @ wrap (bin_level op + 1) r y)))"
| "print_expr (UnaryExpression op e) =
     bindr (print_expr e) (\<lambda>x. Inr (un_text op @ (if prefix_form e then paren x else wrap lvl_unary e x)))"
| "print_expr (UpdateExpression op pre e) =
     bindr (print_expr e) (\<lambda>x.
     Inr (if pre then upd_text op @ wrap lvl_primary e x else wrap lvl_primary e x @ upd_text op))"

subsection \<open>Statements\<close>

definition newline :: string where
  "newline = [CHR 0x0A]"

definition pad :: "nat \<Rightarrow> string" where
  "pad d = replicate (4 * d) (CHR '' '')"

definition print_opt :: "string \<Rightarrow> expr option \<Rightarrow> string + string" where
  "print_opt d x = (case x of None \<Rightarrow> Inr d | Some e \<Rightarrow> print_expr e)"

fun print_declarator :: "declarator \<Rightarrow> string + string" where
  "print_declarator (Declarator t n None) = Inr n"
| "print_declarator (Declarator t n (Some e)) = bindr (print_expr e) (\<lambda>x. Inr (n @ '' = '' @ x))"

fun print_declaration :: "declarator list \<Rightarrow> string + string" where
  "print_declaration [] = Inl ''print: declaration with no declarators''"
| "print_declaration (d # ds) =
     (if list_ex (\<lambda>x. var_type x \<noteq> var_type d) ds
      then Inl ''print: declaration mixes types''
      else bindr (map_r print_declarator (d # ds)) (\<lambda>xs.
           Inr (type_text (var_type d) @ '' '' @ join '', '' xs @ '';'')))"

fun print_init :: "for_init option \<Rightarrow> string + string" where
  "print_init None = Inr '';''"
| "print_init (Some (InitDecl ds)) = print_declaration ds"
| "print_init (Some (InitExpr e)) = bindr (print_expr e) (\<lambda>x. Inr (x @ '';''))"

text \<open>
  \<^verbatim>\<open>body\<close>: a block on its header's line keeps its braces. \<^verbatim>\<open>else\<close> follows a block on the same
  line and a bare statement on a line of its own.
\<close>

function (sequential) stmt_text :: "nat \<Rightarrow> stmt \<Rightarrow> string + string"
  and body_text :: "nat \<Rightarrow> stmt \<Rightarrow> string + string"
  and list_text :: "nat \<Rightarrow> stmt list \<Rightarrow> string + string"
  and cases_text :: "nat \<Rightarrow> switch_case list \<Rightarrow> string + string" where
  "stmt_text d (BlockStatement b) =
     bindr (list_text (d + 1) b) (\<lambda>x. Inr (pad d @ ''{'' @ newline @ x @ pad d @ ''}'' @ newline))"
| "stmt_text d (IfStatement t c a) =
     bindr (print_expr t) (\<lambda>x.
     bindr (body_text d c) (\<lambda>y.
     let head = pad d @ ''if ('' @ x @ '') '' @ y
     in case a of
          None \<Rightarrow> Inr (head @ newline)
        | Some b \<Rightarrow>
            bindr (body_text d b) (\<lambda>z.
            Inr (head
              @ (case c of BlockStatement _ \<Rightarrow> '' else '' | _ \<Rightarrow> newline @ pad d @ ''else '')
              @ z @ newline))))"
| "stmt_text d (WhileStatement t b) =
     bindr (print_expr t) (\<lambda>x. bindr (body_text d b) (\<lambda>y.
     Inr (pad d @ ''while ('' @ x @ '') '' @ y @ newline)))"
| "stmt_text d (DoWhileStatement b t) =
     bindr (body_text d b) (\<lambda>y. bindr (print_expr t) (\<lambda>x.
     Inr (pad d @ ''do '' @ y @ '' while ('' @ x @ '');'' @ newline)))"
| "stmt_text d (ForStatement i t u b) =
     bindr (print_init i) (\<lambda>w. bindr (print_opt [] t) (\<lambda>x. bindr (print_opt [] u) (\<lambda>y.
     bindr (body_text d b) (\<lambda>z.
     Inr (pad d @ ''for ('' @ w @ '' '' @ x @ ''; '' @ y @ '') '' @ z @ newline)))))"
| "stmt_text d (SwitchStatement e cs) =
     bindr (print_expr e) (\<lambda>x. bindr (cases_text (d + 1) cs) (\<lambda>y.
     Inr (pad d @ ''switch ('' @ x @ '') {'' @ newline @ y @ pad d @ ''}'' @ newline)))"
| "stmt_text d (VariableDeclaration ds) =
     bindr (print_declaration ds) (\<lambda>x. Inr (pad d @ x @ newline))"
| "stmt_text d BreakStatement = Inr (pad d @ ''break;'' @ newline)"
| "stmt_text d (ReturnStatement a) =
     (case a of
        None \<Rightarrow> Inr (pad d @ ''return;'' @ newline)
      | Some e \<Rightarrow> bindr (print_expr e) (\<lambda>x. Inr (pad d @ ''return '' @ x @ '';'' @ newline)))"
| "stmt_text d (ExpressionStatement e) =
     bindr (print_expr e) (\<lambda>x. Inr (pad d @ x @ '';'' @ newline))"
| "body_text d (BlockStatement b) =
     bindr (list_text (d + 1) b) (\<lambda>x. Inr (''{'' @ newline @ x @ pad d @ ''}''))"
| "body_text d s = bindr (stmt_text (d + 1) s) (\<lambda>x. Inr (newline @ x))"
| "list_text d [] = Inr []"
| "list_text d (s # ss) =
     bindr (stmt_text d s) (\<lambda>x. bindr (list_text d ss) (\<lambda>y. Inr (x @ y)))"
| "cases_text d [] = Inr []"
| "cases_text d (SwitchCase t b # cs) =
     bindr (case t of
              None \<Rightarrow> Inr (pad d @ ''default:'')
            | Some e \<Rightarrow> bindr (print_expr e) (\<lambda>x. Inr (pad d @ ''case '' @ x @ '':''))) (\<lambda>x.
     bindr (list_text (d + 1) b) (\<lambda>y.
     bindr (cases_text d cs) (\<lambda>z. Inr (x @ newline @ y @ z))))"
  by pat_completeness auto

termination
  by (relation "measure (case_sum
      (case_sum (\<lambda>(_, s). Suc (4 * size s)) (\<lambda>(_, s). Suc (Suc (4 * size s))))
      (case_sum (\<lambda>(_, ss). 4 * size_list size ss) (\<lambda>(_, cs). 4 * size_list size cs)))") auto

definition print_program_body :: "stmt list \<Rightarrow> string + string" where
  "print_program_body ss = list_text 0 ss"

end
