(* ===== verification/Ub.thy ===== *)
theory Ub
  imports Corpus Print
begin

section \<open>The unsequenced-effect filter (\<^verbatim>\<open>fuzz/ts/gen/ub.ts\<close>)\<close>

text \<open>
  Which programs have one answer whatever order the lowerer evaluates operands in. \<open>analyze_expr\<close>
  computes what an expression reads, writes and does to the extension's memory and refuses
  operands that conflict; \<open>summarize\<close> does the same per procedure, from the highest index down.
  The result type is a sum: \<open>Inl\<close> the exception, \<open>Unsequenced\<close> with the printed operands or
  the printer's own error, \<open>Inr\<close> the effects. That an accepted program really has one answer
  is the subject of \<open>Order\<close>.
\<close>

subsection \<open>The lattice of memory use\<close>

datatype mem_use = MNone | MRead | MWrite

fun mem_rank :: "mem_use \<Rightarrow> nat" where
  "mem_rank MNone = 0" | "mem_rank MRead = 1" | "mem_rank MWrite = 2"

definition stronger_mem :: "mem_use \<Rightarrow> mem_use \<Rightarrow> mem_use" where
  "stronger_mem a b =
     (if a = MWrite \<or> b = MWrite then MWrite else if a = MRead \<or> b = MRead then MRead else MNone)"

instantiation mem_use :: linorder
begin

definition less_eq_mem_use :: "mem_use \<Rightarrow> mem_use \<Rightarrow> bool" where
  "a \<le> b \<longleftrightarrow> mem_rank a \<le> mem_rank b"

definition less_mem_use :: "mem_use \<Rightarrow> mem_use \<Rightarrow> bool" where
  "a < b \<longleftrightarrow> mem_rank a < mem_rank b"

instance
proof
  fix x y z :: mem_use
  show "x < y \<longleftrightarrow> x \<le> y \<and> \<not> y \<le> x" by (auto simp: less_eq_mem_use_def less_mem_use_def)
  show "x \<le> x" by (simp add: less_eq_mem_use_def)
  show "x \<le> y \<Longrightarrow> y \<le> z \<Longrightarrow> x \<le> z" by (simp add: less_eq_mem_use_def)
  show "x \<le> y \<Longrightarrow> y \<le> x \<Longrightarrow> x = y" by (cases x; cases y) (simp_all add: less_eq_mem_use_def)
  show "x \<le> y \<or> y \<le> x" by (auto simp: less_eq_mem_use_def)
qed

end

lemma mem_use_order [simp]:
  "MNone \<le> m" "m \<le> MWrite" "m \<le> MNone \<longleftrightarrow> m = MNone" "MWrite \<le> m \<longleftrightarrow> m = MWrite"
  "MRead \<le> m \<longleftrightarrow> m \<noteq> MNone" "m \<le> MRead \<longleftrightarrow> m \<noteq> MWrite"
  by (cases m; simp add: less_eq_mem_use_def)+

text \<open>\<^verbatim>\<open>strongerMem\<close> is the join.\<close>

lemma stronger_max: "stronger_mem a b = max a b"
  by (cases a; cases b) (simp_all add: stronger_mem_def max_def)

lemma stronger_le [simp]: "stronger_mem a b \<le> c \<longleftrightarrow> a \<le> c \<and> b \<le> c"
  by (simp add: stronger_max)

subsection \<open>Effects\<close>

record effects =
  reads :: "string set"
  writes :: "string set"
  mem :: mem_use
  terminates :: bool

definition no_effects :: effects where
  "no_effects = \<lparr>reads = {}, writes = {}, mem = MNone, terminates = False\<rparr>"

definition join_effects :: "effects \<Rightarrow> effects \<Rightarrow> effects" where
  "join_effects a b =
     \<lparr>reads = reads a \<union> reads b, writes = writes a \<union> writes b,
      mem = stronger_mem (mem a) (mem b), terminates = (terminates a \<or> terminates b)\<rparr>"

definition union_effects :: "effects list \<Rightarrow> effects" where
  "union_effects parts = foldl join_effects no_effects parts"

definition touches :: "effects \<Rightarrow> bool" where
  "touches e \<longleftrightarrow> writes e \<noteq> {} \<or> mem e \<noteq> MNone \<or> terminates e"

definition intersects :: "string set \<Rightarrow> string set \<Rightarrow> bool" where
  "intersects a b \<longleftrightarrow> a \<inter> b \<noteq> {}"

definition conflict :: "effects \<Rightarrow> effects \<Rightarrow> bool" where
  "conflict a b \<longleftrightarrow>
     intersects (writes a) (reads b) \<or> intersects (writes b) (reads a) \<or> intersects (writes a) (writes b)
     \<or> (mem a = MWrite \<and> mem b \<noteq> MNone)
     \<or> (mem b = MWrite \<and> mem a \<noteq> MNone)
     \<or> (terminates a \<and> touches b)
     \<or> (terminates b \<and> touches a)"

subsection \<open>Expressions\<close>

datatype ub_error = Unsequenced string | PrintError string

text \<open>\<^verbatim>\<open>throw new Unsequenced(printExpr(e))\<close>, where printing may itself throw.\<close>

definition unsequenced :: "expr \<Rightarrow> ub_error" where
  "unsequenced e = (case print_expr e of Inl msg \<Rightarrow> PrintError msg | Inr t \<Rightarrow> Unsequenced t)"

text \<open>What escapes a call, per procedure summarised so far.\<close>

record summary =
  sum_mem :: mem_use
  sum_terminates :: bool

type_synonym summaries = "nat \<rightharpoonup> summary"

definition mem_read_ops :: "string list" where
  "mem_read_ops = [''ld8'', ''ld16'', ''ld32'', ''memcmp'', ''slicecmp'']"

definition mem_write_ops :: "string list" where
  "mem_write_ops = [''st8'', ''st16'', ''st32'', ''memmove'']"

definition pure_ops :: "string list" where
  "pure_ops = [''clz'', ''revbits'']"

fun pairwise_clear :: "effects list \<Rightarrow> bool" where
  "pairwise_clear [] \<longleftrightarrow> True"
| "pairwise_clear (a # as) \<longleftrightarrow> list_all (\<lambda>b. \<not> conflict a b) as \<and> pairwise_clear as"

text \<open>The effects of the call itself, on top of those of its arguments.\<close>

definition call_effects :: "summaries \<Rightarrow> string \<Rightarrow> effects \<Rightarrow> effects" where
  "call_effects sums f out =
     (if f = ''trap'' then out\<lparr>terminates := True\<rparr>
      else if f \<in> set pure_ops then out
      else if f \<in> set mem_read_ops then out\<lparr>mem := stronger_mem (mem out) MRead\<rparr>
      else if f \<in> set mem_write_ops then out\<lparr>mem := MWrite\<rparr>
      else case proc_index f of
        None \<Rightarrow> out
      | Some i \<Rightarrow>
          (case sums i of
             Some s \<Rightarrow> out\<lparr>mem := stronger_mem (mem out) (sum_mem s),
                           terminates := (terminates out \<or> sum_terminates s)\<rparr>
           | None \<Rightarrow> out\<lparr>mem := MWrite, terminates := True\<rparr>))"

fun analyze_expr :: "summaries \<Rightarrow> expr \<Rightarrow> ub_error + effects" where
  "analyze_expr sums (Literal v) = Inr no_effects"
| "analyze_expr sums (Identifier n) = Inr (no_effects\<lparr>reads := {n}\<rparr>)"
| "analyze_expr sums (CastExpression t e) = analyze_expr sums e"
| "analyze_expr sums (UnaryExpression op e) = analyze_expr sums e"
| "analyze_expr sums (UpdateExpression op pre e) =
     bindr (analyze_expr sums e) (\<lambda>out.
     Inr (case e of Identifier n \<Rightarrow> out\<lparr>writes := insert n (writes out)\<rparr> | _ \<Rightarrow> out))"
| "analyze_expr sums (AssignmentExpression op n e) =
     bindr (analyze_expr sums e) (\<lambda>out.
     Inr (out\<lparr>reads := (if op \<noteq> Assign then insert n (reads out) else reads out),
              writes := insert n (writes out)\<rparr>))"
| "analyze_expr sums (LogicalExpression op l r) =
     bindr (analyze_expr sums l) (\<lambda>a. bindr (analyze_expr sums r) (\<lambda>b. Inr (union_effects [a, b])))"
| "analyze_expr sums (ConditionalExpression c a b) =
     bindr (analyze_expr sums c) (\<lambda>x. bindr (analyze_expr sums a) (\<lambda>y. bindr (analyze_expr sums b) (\<lambda>z.
     Inr (union_effects [x, y, z]))))"
| "analyze_expr sums (BinaryExpression op l r) =
     bindr (analyze_expr sums l) (\<lambda>a. bindr (analyze_expr sums r) (\<lambda>b.
     if conflict a b then Inl (unsequenced (BinaryExpression op l r)) else Inr (union_effects [a, b])))"
| "analyze_expr sums (CallExpression f args) =
     bindr (map_r (analyze_expr sums) args) (\<lambda>parts.
     if \<not> pairwise_clear parts then Inl (unsequenced (CallExpression f args))
     else Inr (call_effects sums f (union_effects parts)))"

subsection \<open>Procedures\<close>

definition analyze_body :: "summaries \<Rightarrow> stmt list \<Rightarrow> ub_error + effects" where
  "analyze_body sums body =
     bindr (map_r (analyze_expr sums) (concat (map child_expressions (each_statement body)))) (\<lambda>parts.
     Inr (union_effects parts))"

text \<open>A callee that is not yet summarised adds nothing here; its call already did.\<close>

definition add_callee :: "summaries \<Rightarrow> summary \<Rightarrow> nat \<Rightarrow> summary" where
  "add_callee sums s c =
     (case sums c of
        None \<Rightarrow> s
      | Some t \<Rightarrow> \<lparr>sum_mem = stronger_mem (sum_mem s) (sum_mem t),
                   sum_terminates = (sum_terminates s \<or> sum_terminates t)\<rparr>)"

definition summarize_proc :: "recurse \<Rightarrow> summaries \<Rightarrow> stmt list \<Rightarrow> ub_error + summary" where
  "summarize_proc kids sums body =
     bindr (case analyze_body sums body of
              Inr own \<Rightarrow> Inr \<lparr>sum_mem = mem own, sum_terminates = terminates own\<rparr>
            | Inl (Unsequenced _) \<Rightarrow> Inr \<lparr>sum_mem = MWrite, sum_terminates = True\<rparr>
            | Inl e \<Rightarrow> Inl e) (\<lambda>own.
     Inr (foldl (add_callee sums) own (callees_of kids body)))"

fun summarize_down :: "recurse \<Rightarrow> gen_program \<Rightarrow> nat \<Rightarrow> summaries \<Rightarrow> ub_error + summaries" where
  "summarize_down kids gen 0 sums = Inr sums"
| "summarize_down kids gen (Suc i) sums =
     bindr (summarize_proc kids sums (proc_body (gen ! i))) (\<lambda>s.
     summarize_down kids gen i (sums(i \<mapsto> s)))"

definition summarize :: "recurse \<Rightarrow> gen_program \<Rightarrow> ub_error + summaries" where
  "summarize kids gen = summarize_down kids gen (length gen) Map.empty"

text \<open>\<^verbatim>\<open>UbReport\<close>: the site where the program is unsequenced, if it is.\<close>

definition analyze :: "recurse \<Rightarrow> gen_program \<Rightarrow> string + string option" where
  "analyze kids gen =
     (case bindr (summarize kids gen) (\<lambda>sums. map_r (\<lambda>p. analyze_body sums (proc_body p)) gen) of
        Inr _ \<Rightarrow> Inr None
      | Inl (Unsequenced site) \<Rightarrow> Inr (Some site)
      | Inl (PrintError msg) \<Rightarrow> Inl msg)"

subsection \<open>Algebra of effects\<close>

lemma union_effects_simps [simp]:
  "union_effects [] = no_effects"
  "reads (union_effects xs) = (\<Union>x \<in> set xs. reads x)"
  "writes (union_effects xs) = (\<Union>x \<in> set xs. writes x)"
  "terminates (union_effects xs) \<longleftrightarrow> (\<exists>x \<in> set xs. terminates x)"
  "mem (union_effects xs) \<le> m \<longleftrightarrow> (\<forall>x \<in> set xs. mem x \<le> m)"
proof -
  have gen: "reads (foldl join_effects e xs) = reads e \<union> (\<Union>x \<in> set xs. reads x)
    \<and> writes (foldl join_effects e xs) = writes e \<union> (\<Union>x \<in> set xs. writes x)
    \<and> (terminates (foldl join_effects e xs) \<longleftrightarrow> terminates e \<or> (\<exists>x \<in> set xs. terminates x))
    \<and> (mem (foldl join_effects e xs) \<le> m \<longleftrightarrow> mem e \<le> m \<and> (\<forall>x \<in> set xs. mem x \<le> m))" for e
    by (induction xs arbitrary: e) (auto simp: join_effects_def)
  show "union_effects [] = no_effects" by (simp add: union_effects_def)
  show "reads (union_effects xs) = (\<Union>x \<in> set xs. reads x)"
    "writes (union_effects xs) = (\<Union>x \<in> set xs. writes x)"
    "terminates (union_effects xs) \<longleftrightarrow> (\<exists>x \<in> set xs. terminates x)"
    "mem (union_effects xs) \<le> m \<longleftrightarrow> (\<forall>x \<in> set xs. mem x \<le> m)"
    using gen [of no_effects] by (simp_all add: union_effects_def no_effects_def)
qed

lemma conflict_sym: "conflict a b = conflict b a"
  by (auto simp: conflict_def intersects_def)

end
