(* ===== verification/Footprint.thy ===== *)
theory Footprint
  imports Ub Eval_Limits Raw_Mem
begin

section \<open>Footprints of the evaluator\<close>

text \<open>
  What the effects that \<^verbatim>\<open>gen/ub.ts\<close> computes mean for \<^verbatim>\<open>eval/ast-eval.ts\<close>. A computation is
  determinate when, over all states that agree on what it may read, it has one result and one
  change of state, up to running out of steps. The locale \<open>determinate\<close> proves the
  combinators once; it is interpreted for expressions, where a state change assigns to the
  variables an effect lists, and for whole procedure bodies, where only the memory matters.
\<close>

subsection \<open>Simultaneous assignment\<close>

type_synonym updates = "string \<rightharpoonup> u32"

definition update_slot :: "u32 option \<Rightarrow> slot \<Rightarrow> slot" where
  "update_slot x sl = (case x of None \<Rightarrow> sl | Some v \<Rightarrow> sl\<lparr>slot_value := v\<rparr>)"

lemma update_slot_simps [simp]:
  "update_slot None sl = sl" "update_slot (Some v) sl = sl\<lparr>slot_value := v\<rparr>"
  "slot_type (update_slot x sl) = slot_type sl"
  by (cases x; simp add: update_slot_def)+

definition update_frame :: "updates \<Rightarrow> frame \<Rightarrow> frame" where
  "update_frame d f = (\<lambda>n. map_option (update_slot (d n)) (f n))"

definition unshadowed :: "frame \<Rightarrow> updates \<Rightarrow> updates" where
  "unshadowed f d = (\<lambda>n. if f n = None then d n else None)"

fun apply_updates :: "updates \<Rightarrow> scope \<Rightarrow> scope" where
  "apply_updates d [] = []"
| "apply_updates d (f # fs) = update_frame d f # apply_updates (unshadowed f d) fs"

lemma update_frame_None [simp]: "update_frame d f n = None \<longleftrightarrow> f n = None"
  by (simp add: update_frame_def)

lemma unshadowed_frame [simp]: "unshadowed (update_frame d f) e = unshadowed f e"
  by (simp add: unshadowed_def)

lemma update_frame_empty [simp]: "update_frame Map.empty f = f"
proof
  fix n
  show "update_frame Map.empty f n = f n" by (cases "f n") (simp_all add: update_frame_def)
qed

lemma unshadowed_empty [simp]: "unshadowed f Map.empty = Map.empty"
  by (auto simp: unshadowed_def)

lemma apply_updates_empty [simp]: "apply_updates Map.empty sc = sc"
  by (induction sc) auto

lemma lookup_apply:
  "scope_lookup (apply_updates d sc) n = map_option (update_slot (d n)) (scope_lookup sc n)"
proof (induction sc arbitrary: d)
  case (Cons f fs)
  then show ?case by (cases "f n") (simp_all add: update_frame_def unshadowed_def)
qed simp

lemma apply_apply: "apply_updates e (apply_updates d sc) = apply_updates (d ++ e) sc"
proof (induction sc arbitrary: d e)
  case (Cons f fs)
  have "update_frame e (update_frame d f) = update_frame (d ++ e) f"
  proof
    fix n
    show "update_frame e (update_frame d f) n = update_frame (d ++ e) f n"
      by (cases "f n"; cases "d n"; cases "e n") (simp_all add: update_frame_def map_add_def)
  qed
  moreover have "unshadowed f d ++ unshadowed f e = unshadowed f (d ++ e)"
    by (auto simp: unshadowed_def map_add_def fun_eq_iff)
  ultimately show ?case using Cons.IH by simp
qed simp

lemma shape_apply [simp]: "shape (apply_updates d sc) = shape sc"
proof (induction sc arbitrary: d)
  case (Cons f fs)
  have "frame_types (update_frame d f) n = frame_types f n" for n
    by (cases "f n") (simp_all add: frame_types_def update_frame_def)
  with Cons show ?case by (auto simp: fun_eq_iff)
qed simp

lemma assign_apply:
  "scope_lookup sc n = Some sl \<Longrightarrow>
    scope_assign sc n v = apply_updates [n \<mapsto> narrow v (slot_type sl)] sc"
proof (induction sc)
  case (Cons f fs)
  let ?d = "[n \<mapsto> narrow v (slot_type sl)]"
  show ?case
  proof (cases "f n")
    case None
    then have "unshadowed f ?d = ?d" by (auto simp: unshadowed_def)
    moreover have "update_frame ?d f m = f m" for m
      using None by (cases "m = n"; cases "f m") (simp_all add: update_frame_def)
    then have "update_frame ?d f = f" by (rule ext)
    ultimately show ?thesis using None Cons by (simp del: fun_upd_apply)
  next
    case (Some s)
    then have "unshadowed f ?d = Map.empty" by (auto simp: unshadowed_def)
    moreover have "update_frame ?d f m = (f(n \<mapsto> s\<lparr>slot_value := narrow v (slot_type s)\<rparr>)) m" for m
      using Some Cons.prems by (cases "m = n"; cases "f m") (simp_all add: update_frame_def)
    then have "update_frame ?d f = f(n \<mapsto> s\<lparr>slot_value := narrow v (slot_type s)\<rparr>)" by (rule ext)
    ultimately show ?thesis using Some by (simp del: fun_upd_apply)
  qed
qed simp

subsection \<open>Determinate computations\<close>

type_synonym 'm core = "scope \<times> 'm"

definition core :: "'m mstate \<Rightarrow> 'm core" where
  "core s = (m_scope s, m_mem s)"

lemma core_simps [simp]:
  "core (s\<lparr>m_steps := k\<rparr>) = core s" "core (s\<lparr>m_scope := sc\<rparr>) = (sc, m_mem s)"
  "core (s\<lparr>m_mem := mm\<rparr>) = (m_scope s, mm)"
  by (simp_all add: core_def)

definition limited :: "fault + 'a \<Rightarrow> bool" where
  "limited r \<longleftrightarrow> r = Inl StepLimit \<or> r = Inl OutOfFuel"

definition trapped :: "fault + 'a \<Rightarrow> bool" where
  "trapped r \<longleftrightarrow> (\<exists>c. r = Inl (Trapped c))"

lemma limited_simps [simp]:
  "\<not> limited (Inr v)" "limited (Inl e) \<longleftrightarrow> e = StepLimit \<or> e = OutOfFuel"
  by (simp_all add: limited_def)

lemma trapped_simps [simp]:
  "\<not> trapped (Inr v)" "trapped (Inl (Trapped c))" "trapped (Inl e) \<longleftrightarrow> (\<exists>c. e = Trapped c)"
  by (auto simp: trapped_def)

text \<open>
  What a computation leaves behind: after a value the whole core, after a fault only the memory,
  which is all that outlives the exception.
\<close>

definition lands :: "('m core \<Rightarrow> 'm core) \<Rightarrow> 'm mstate \<Rightarrow> fault + 'a \<Rightarrow> 'm mstate \<Rightarrow> bool" where
  "lands u s r t \<longleftrightarrow>
     m_mem t = snd (u (core s)) \<and> (\<forall>v. r = Inr v \<longrightarrow> core t = u (core s))"

lemma snd_core [simp]: "snd (core s) = m_mem s"
  by (simp add: core_def)

lemma lands_Inr [simp]: "lands u s (Inr v) t \<longleftrightarrow> core t = u (core s)"
  using snd_core [of t] by (auto simp: lands_def simp del: snd_core)

lemma lands_Inl [simp]: "lands u s (Inl e) t \<longleftrightarrow> m_mem t = snd (u (core s))"
  by (auto simp: lands_def)

lemma lands_core: "core t = u (core s) \<Longrightarrow> lands u s r t"
  using snd_core [of t] by (auto simp: lands_def simp del: snd_core)

text \<open>
  \<open>same\<close> relates the cores a computation cannot tell apart, \<open>change\<close> holds the state changes
  it may make, and \<open>may_trap\<close> says whether it may trap.
\<close>

locale determinate =
  fixes same :: "'m core \<Rightarrow> 'm core \<Rightarrow> bool"
    and change :: "('m core \<Rightarrow> 'm core) \<Rightarrow> bool"
    and may_trap :: bool
  assumes same_refl: "same a a"
    and change_id: "change id"
    and change_comp: "change u \<Longrightarrow> change w \<Longrightarrow> change (w \<circ> u)"
    and change_same: "change u \<Longrightarrow> same a b \<Longrightarrow> same (u a) (u b)"
begin

text \<open>On every state like \<open>a\<close>: the result \<open>r\<close>, the change \<open>u\<close> and \<open>c\<close> steps, or no steps left.\<close>

definition acts :: "'m core \<Rightarrow> ('m, 'a) ev \<Rightarrow> fault + 'a \<Rightarrow> ('m core \<Rightarrow> 'm core) \<Rightarrow> nat \<Rightarrow> bool" where
  "acts a m r u c \<longleftrightarrow>
     (\<forall>s. same a (core s) \<longrightarrow> \<not> limited (fst (m s)) \<longrightarrow>
        fst (m s) = r \<and> lands u s r (snd (m s)) \<and> m_steps (snd (m s)) = m_steps s + c)
     \<and> (\<forall>s s'. same a (core s) \<longrightarrow> same a (core s') \<longrightarrow> m_steps s' \<le> m_steps s \<longrightarrow>
          \<not> limited (fst (m s)) \<longrightarrow> \<not> limited (fst (m s')))"

definition det :: "('m, 'a) ev \<Rightarrow> bool" where
  "det m \<longleftrightarrow> (\<forall>a. \<exists>r u c. change u \<and> (trapped r \<longrightarrow> may_trap) \<and> acts a m r u c)"

lemma actsD:
  assumes "acts a m r u c" "same a (core s)" "\<not> limited (fst (m s))"
  shows "fst (m s) = r" "lands u s r (snd (m s))" "m_steps (snd (m s)) = m_steps s + c"
  using assms unfolding acts_def by blast+

lemma acts_down:
  "acts a m r u c \<Longrightarrow> same a (core s) \<Longrightarrow> same a (core s') \<Longrightarrow> m_steps s' \<le> m_steps s \<Longrightarrow>
    \<not> limited (fst (m s)) \<Longrightarrow> \<not> limited (fst (m s'))"
  unfolding acts_def by blast

lemma detI:
  assumes "\<And>a. \<exists>r u c. change u \<and> (trapped r \<longrightarrow> may_trap) \<and>
    (\<forall>s. same a (core s) \<longrightarrow> fst (m s) = r \<and> core (snd (m s)) = u (core s) \<and> m_steps (snd (m s)) = m_steps s + c)"
  shows "det m"
  unfolding det_def
proof
  fix a
  obtain r u c where "change u" "trapped r \<longrightarrow> may_trap"
    "\<forall>s. same a (core s) \<longrightarrow> fst (m s) = r \<and> core (snd (m s)) = u (core s) \<and> m_steps (snd (m s)) = m_steps s + c"
    using assms by blast
  then show "\<exists>r u c. change u \<and> (trapped r \<longrightarrow> may_trap) \<and> acts a m r u c"
    unfolding acts_def by (intro exI [of _ r] exI [of _ u] exI [of _ c]) (auto intro: lands_core)
qed

lemma det_retc: "det (retc v)"
  by (rule detI, rule exI [of _ "Inr v"], rule exI [of _ id], rule exI [of _ 0]) (simp add: change_id)

lemma det_throwc: "(trapped (Inl e :: fault + 'z) \<longrightarrow> may_trap) \<Longrightarrow> det (throwc e :: ('m, 'z) ev)"
  by (rule detI, rule exI [of _ "Inl e"], rule exI [of _ id], rule exI [of _ 0]) (simp add: change_id)

lemma det_tick: "det (tick cfg)"
  unfolding det_def
proof
  fix a
  have "acts a (tick cfg) (Inr ()) id 1"
    by (auto simp: acts_def tick_def bindc_def split: if_splits)
  then show "\<exists>r u c. change u \<and> (trapped r \<longrightarrow> may_trap) \<and> acts a (tick cfg) r u c"
    using change_id by (intro exI [of _ "Inr ()"] exI [of _ id] exI [of _ 1]) simp
qed

lemma det_bindc:
  assumes "det m" and "\<And>v. det (f v)"
  shows "det (bindc m f)"
  unfolding det_def
proof
  fix a
  obtain r u c where m: "change u" "trapped r \<longrightarrow> may_trap" "acts a m r u c"
    using assms(1) unfolding det_def by blast
  show "\<exists>r u c. change u \<and> (trapped r \<longrightarrow> may_trap) \<and> acts a (bindc m f) r u c"
  proof (cases r)
    case (Inl e)
    have stop: "bindc m f s = (Inl e, snd (m s))" if "fst (m s) = Inl e" for s
      using that by (cases "m s") (simp add: bindc_def)
    have lim: "\<not> limited (fst (m s))" if "\<not> limited (fst (bindc m f s))" for s
      using that by (cases "m s") (auto simp: bindc_def limited_def)
    have "acts a (bindc m f) (Inl e) u c"
      unfolding acts_def
    proof (intro conjI allI impI)
      fix s assume s: "same a (core s)" "\<not> limited (fst (bindc m f s))"
      note st = actsD [OF m(3) s(1) lim [OF s(2)]]
      show "fst (bindc m f s) = Inl e" "lands u s (Inl e) (snd (bindc m f s))"
        "m_steps (snd (bindc m f s)) = m_steps s + c"
        using st stop [of s] Inl by simp_all
    next
      fix s s' assume s: "same a (core s)" "same a (core s')" "m_steps s' \<le> m_steps s" "\<not> limited (fst (bindc m f s))"
      have "\<not> limited (fst (m s'))" by (rule acts_down [OF m(3) s(1-3) lim [OF s(4)]])
      then show "\<not> limited (fst (bindc m f s'))"
        using actsD(1) [OF m(3) s(2)] stop [of s'] Inl by simp
    qed
    with m(1,2) Inl show ?thesis
      by (intro exI [of _ "Inl e"] exI [of _ u] exI [of _ c]) auto
  next
    case (Inr v)
    obtain r2 u2 c2 where f: "change u2" "trapped r2 \<longrightarrow> may_trap" "acts (u a) (f v) r2 u2 c2"
      using assms(2) [of v] unfolding det_def by blast
    have mlim: "\<not> limited (fst (m s))" if "\<not> limited (fst (bindc m f s))" for s
      using that by (cases "m s") (auto simp: bindc_def limited_def)
    have step: "bindc m f s = f v (snd (m s)) \<and> core (snd (m s)) = u (core s)
        \<and> m_steps (snd (m s)) = m_steps s + c \<and> same (u a) (core (snd (m s)))"
      if s: "same a (core s)" "\<not> limited (fst (m s))" for s
      using actsD [OF m(3) s] Inr change_same [OF m(1) s(1)] by (cases "m s") (simp add: bindc_def)
    have "acts a (bindc m f) r2 (u2 \<circ> u) (c + c2)"
      unfolding acts_def
    proof (intro conjI allI impI)
      fix s assume s: "same a (core s)" "\<not> limited (fst (bindc m f s))"
      note st = step [OF s(1) mlim [OF s(2)]]
      have "\<not> limited (fst (f v (snd (m s))))" "same (u a) (core (snd (m s)))"
        using st s(2) by auto
      note end_state = actsD [OF f(3) this(2,1)]
      show "fst (bindc m f s) = r2" "lands (u2 \<circ> u) s r2 (snd (bindc m f s))"
        "m_steps (snd (bindc m f s)) = m_steps s + (c + c2)"
        using end_state conjunct1 [OF st] conjunct2 [OF st] by (auto simp: lands_def)
    next
      fix s s' assume s: "same a (core s)" "same a (core s')" "m_steps s' \<le> m_steps s" "\<not> limited (fst (bindc m f s))"
      have m1: "\<not> limited (fst (m s))" by (rule mlim [OF s(4)])
      have m2: "\<not> limited (fst (m s'))" by (rule acts_down [OF m(3) s(1-3) m1])
      note st = step [OF s(1) m1] and st' = step [OF s(2) m2]
      have "\<not> limited (fst (f v (snd (m s'))))"
        by (rule acts_down [OF f(3), of "snd (m s)"]) (use st st' s in auto)
      with st' show "\<not> limited (fst (bindc m f s'))" by simp
    qed
    with f(1,2) change_comp [OF m(1) f(1)] show ?thesis by blast
  qed
qed

lemma det_if: "(c \<Longrightarrow> det m) \<Longrightarrow> (\<not> c \<Longrightarrow> det n) \<Longrightarrow> det (if c then m else n)"
  by simp

lemma det_option:
  "(x = None \<Longrightarrow> det m) \<Longrightarrow> (\<And>v. x = Some v \<Longrightarrow> det (f v)) \<Longrightarrow> det (case x of None \<Rightarrow> m | Some v \<Rightarrow> f v)"
  by (cases x) simp_all

lemma det_lift_sum: "(\<And>c. r \<noteq> Inl (Trapped c)) \<Longrightarrow> det (lift_sum r)"
  by (cases r) (auto simp: lift_sum_def intro: det_retc det_throwc)

lemma det_u32_val: "det m \<Longrightarrow> det (u32_val m)"
  unfolding u32_val_def by (intro det_bindc det_retc)

text \<open>A computation that looks at the core only through something \<open>same\<close> cores share.\<close>

lemma det_view:
  assumes "\<And>s t. same (core s) (core t) \<Longrightarrow> g (core s) = g (core t)"
    and "\<And>a b. same a b \<Longrightarrow> same b a" "\<And>a b c. same a b \<Longrightarrow> same b c \<Longrightarrow> same a c"
    and "\<And>x. det (f (g x))"
  shows "det (\<lambda>s. f (g (core s)) s)"
  unfolding det_def
proof
  fix a
  obtain s0 :: "'m mstate" where s0: "core s0 = a"
    by (metis core_def mstate.select_convs(2,3) prod.collapse)
  obtain r u c where f: "change u" "trapped r \<longrightarrow> may_trap" "acts a (f (g a)) r u c"
    using assms(4) [of a] unfolding det_def by blast
  have g: "g (core s) = g a" if "same a (core s)" for s
    using assms(1) [of s0 s] that s0 by simp
  have "acts a (\<lambda>s. f (g (core s)) s) r u c"
    unfolding acts_def
  proof (intro conjI allI impI)
    fix s assume s: "same a (core s)" "\<not> limited (fst (f (g (core s)) s))"
    then show "fst (f (g (core s)) s) = r" "lands u s r (snd (f (g (core s)) s))"
      "m_steps (snd (f (g (core s)) s)) = m_steps s + c"
      using actsD [OF f(3) s(1)] g [OF s(1)] by simp_all
  next
    fix s s' assume s: "same a (core s)" "same a (core s')" "m_steps s' \<le> m_steps s" "\<not> limited (fst (f (g (core s)) s))"
    then show "\<not> limited (fst (f (g (core s')) s'))"
      using acts_down [OF f(3) s(1-3)] g by simp
  qed
  with f(1,2) show "\<exists>r u c. change u \<and> (trapped r \<longrightarrow> may_trap) \<and> acts a (\<lambda>s. f (g (core s)) s) r u c"
    by blast
qed

lemma det_loop:
  assumes "det m"
  shows "det (loop_ev cfg m)"
  unfolding det_def
proof
  fix a
  define body where "body = bindc (tick cfg) (\<lambda>_. m)"
  define fuel where "fuel s = Suc (cfg_max cfg - m_steps s)" for s :: "'m mstate"
  have run: "loop_ev cfg m s = loop_fuel (fuel s) body s" for s
    by (simp only: loop_ev_def body_def fuel_def) (simp add: bindc_def getc_def)
  have fixed: "det (loop_fuel k body)" for k
  proof (induction k)
    case 0
    show ?case by (simp only: loop_fuel.simps) (rule det_throwc, simp)
  next
    case (Suc k)
    have "det (case it of Again \<Rightarrow> loop_fuel k body | Stop fl \<Rightarrow> retc fl)" for it
      using Suc by (cases it) (simp_all add: det_retc)
    moreover have "det body" unfolding body_def by (intro det_bindc det_tick assms)
    ultimately show ?case by (simp only: loop_fuel.simps) (rule det_bindc)
  qed
  have up: "loop_fuel k' body s = loop_fuel k body s" if "k \<le> k'" "\<not> limited (fst (loop_fuel k body s))" for k k' s
    using agrees_loop_fuel [OF agrees_refl [of body] that(1)] that(2) by (auto simp: agrees_upto_def limited_def)
  show "\<exists>r u c. change u \<and> (trapped r \<longrightarrow> may_trap) \<and> acts a (loop_ev cfg m) r u c"
  proof (cases "\<exists>s. same a (core s) \<and> \<not> limited (fst (loop_ev cfg m s))")
    case False
    then have "acts a (loop_ev cfg m) (Inr Normal) id 0" by (auto simp: acts_def)
    with change_id show ?thesis by (intro exI [of _ "Inr Normal"] exI [of _ id] exI [of _ 0]) simp
  next
    case True
    then obtain s0 where s0: "same a (core s0)" "\<not> limited (fst (loop_ev cfg m s0))" by blast
    define N where "N = Suc (cfg_max cfg)"
    have N: "fuel s \<le> N" for s by (simp add: fuel_def N_def)
    obtain r u c where f: "change u" "trapped r \<longrightarrow> may_trap" "acts a (loop_fuel N body) r u c"
      using fixed [of N] unfolding det_def by blast
    have eq: "loop_ev cfg m s = loop_fuel N body s" if "\<not> limited (fst (loop_ev cfg m s))" for s
      using up [OF N, of s] that run by simp
    have "acts a (loop_ev cfg m) r u c"
      unfolding acts_def
    proof (intro conjI allI impI)
      fix s assume s: "same a (core s)" "\<not> limited (fst (loop_ev cfg m s))"
      with actsD [OF f(3) s(1)] eq [OF s(2)]
      show "fst (loop_ev cfg m s) = r" "lands u s r (snd (loop_ev cfg m s))"
        "m_steps (snd (loop_ev cfg m s)) = m_steps s + c" by simp_all
    next
      fix s s' assume s: "same a (core s)" "same a (core s')" "m_steps s' \<le> m_steps s" "\<not> limited (fst (loop_ev cfg m s))"
      have le: "fuel s \<le> fuel s'" using s(3) by (simp add: fuel_def)
      obtain r' u' c' where g: "acts a (loop_fuel (fuel s') body) r' u' c'"
        using fixed [of "fuel s'"] unfolding det_def by blast
      have "\<not> limited (fst (loop_fuel (fuel s') body s))"
        using up [OF le, of s] s(4) run by simp
      from acts_down [OF g s(1-3) this] run show "\<not> limited (fst (loop_ev cfg m s'))" by simp
    qed
    with f show ?thesis by blast
  qed
qed

end

subsection \<open>Expressions: the variables an effect lists\<close>

definition put_mem :: "'m option \<Rightarrow> 'm \<Rightarrow> 'm" where
  "put_mem x m = (case x of None \<Rightarrow> m | Some v \<Rightarrow> v)"

lemma put_mem_simps [simp]: "put_mem None m = m" "put_mem (Some v) m = v"
  by (simp_all add: put_mem_def)

definition same_vars :: "effects \<Rightarrow> 'm core \<Rightarrow> 'm core \<Rightarrow> bool" where
  "same_vars ef a b \<longleftrightarrow>
     shape (fst a) = shape (fst b)
     \<and> (\<forall>n \<in> reads ef. scope_lookup (fst a) n = scope_lookup (fst b) n)
     \<and> (mem ef \<noteq> MNone \<longrightarrow> snd a = snd b)"

definition change_vars :: "effects \<Rightarrow> ('m core \<Rightarrow> 'm core) \<Rightarrow> bool" where
  "change_vars ef u \<longleftrightarrow>
     (\<exists>d x. dom d \<subseteq> writes ef \<and> (mem ef \<noteq> MWrite \<longrightarrow> x = None)
        \<and> u = (\<lambda>(sc, m). (apply_updates d sc, put_mem x m)))"

lemma change_varsI:
  "dom d \<subseteq> writes ef \<Longrightarrow> (mem ef \<noteq> MWrite \<Longrightarrow> x = None) \<Longrightarrow>
    u = (\<lambda>(sc, m). (apply_updates d sc, put_mem x m)) \<Longrightarrow> change_vars ef u"
  unfolding change_vars_def by blast

interpretation vars: determinate "same_vars ef" "change_vars ef" "terminates ef" for ef
proof
  fix a b :: "'m core" and u w :: "'m core \<Rightarrow> 'm core"
  show "same_vars ef a a" by (simp add: same_vars_def)
  show "change_vars ef (id :: 'm core \<Rightarrow> 'm core)"
    by (rule change_varsI [of Map.empty _ None]) auto
  show "change_vars ef (w \<circ> u)" if uw: "change_vars ef u" "change_vars ef w"
  proof -
    obtain d x where u: "dom d \<subseteq> writes ef" "mem ef \<noteq> MWrite \<longrightarrow> x = None"
      "u = (\<lambda>(sc, m). (apply_updates d sc, put_mem x m))" using uw(1) unfolding change_vars_def by blast
    obtain d' x' where w: "dom d' \<subseteq> writes ef" "mem ef \<noteq> MWrite \<longrightarrow> x' = None"
      "w = (\<lambda>(sc, m). (apply_updates d' sc, put_mem x' m))" using uw(2) unfolding change_vars_def by blast
    show ?thesis
      by (rule change_varsI [of "d ++ d'" _ "if x' = None then x else x'"])
        (use u w in \<open>auto simp: apply_apply fun_eq_iff put_mem_def split: option.splits\<close>)
  qed
  show "same_vars ef (u a) (u b)" if "change_vars ef u" "same_vars ef a b"
    using that by (cases a; cases b) (auto simp: change_vars_def same_vars_def lookup_apply)
qed

text \<open>A computation whose effects are at most \<open>ef\<close>.\<close>

definition footprint :: "effects \<Rightarrow> ('m, 'a) ev \<Rightarrow> bool" where
  "footprint ef m \<longleftrightarrow> vars.det ef m"

lemma same_vars_sym: "same_vars ef a b \<Longrightarrow> same_vars ef b a"
  and same_vars_trans: "same_vars ef a b \<Longrightarrow> same_vars ef b c \<Longrightarrow> same_vars ef a c"
  by (auto simp: same_vars_def)

definition within :: "effects \<Rightarrow> effects \<Rightarrow> bool" where
  "within a b \<longleftrightarrow>
     reads a \<subseteq> reads b \<and> writes a \<subseteq> writes b \<and> mem a \<le> mem b \<and> (terminates a \<longrightarrow> terminates b)"

lemma within_refl [simp]: "within a a"
  by (simp add: within_def)

lemma within_union: "a \<in> set xs \<Longrightarrow> within a (union_effects xs)"
  using union_effects_simps(5) [of xs "mem (union_effects xs)"] by (auto simp: within_def)

lemma same_vars_mono: "within a b \<Longrightarrow> same_vars b x y \<Longrightarrow> same_vars a x y"
  unfolding within_def same_vars_def by (metis mem_use_order(3) subset_iff)

lemma change_vars_mono: "within a b \<Longrightarrow> change_vars a u \<Longrightarrow> change_vars b u"
proof -
  assume w: "within a b" and "change_vars a u"
  then obtain d x where "dom d \<subseteq> writes a" "mem a \<noteq> MWrite \<longrightarrow> x = None"
    "u = (\<lambda>(sc, m). (apply_updates d sc, put_mem x m))" unfolding change_vars_def by blast
  with w show ?thesis
    by (intro change_varsI [of d _ x]) (auto simp: within_def)
qed

lemma footprint_mono: "within a b \<Longrightarrow> footprint a m \<Longrightarrow> footprint b m"
  unfolding footprint_def vars.det_def
proof
  fix x assume w: "within a b"
    and "\<forall>x. \<exists>r u c. change_vars a u \<and> (trapped r \<longrightarrow> terminates a) \<and> vars.acts a x m r u c"
  then obtain r u c where a: "change_vars a u" "trapped r \<longrightarrow> terminates a" "vars.acts a x m r u c"
    by blast
  have "vars.acts b x m r u c"
    using a(3) same_vars_mono [OF w] unfolding vars.acts_def by blast
  with a change_vars_mono [OF w] w show "\<exists>r u c. change_vars b u \<and> (trapped r \<longrightarrow> terminates b) \<and> vars.acts b x m r u c"
    by (auto simp: within_def)
qed

named_theorems fp_intros "rules for footprints"

lemmas footprint_rules [fp_intros] =
  vars.det_retc [folded footprint_def] vars.det_tick [folded footprint_def]
  vars.det_bindc [folded footprint_def] vars.det_if [folded footprint_def]
  vars.det_option [folded footprint_def] vars.det_u32_val [folded footprint_def]

lemma footprint_throwc [fp_intros]:
  "footprint ef (throwc (JsError msg))" "footprint ef (throwc (Unspecified u))"
  "terminates ef \<Longrightarrow> footprint ef (throwc (Trapped v))"
  unfolding footprint_def by (rule vars.det_throwc, simp)+

lemma footprint_lift_sum: "(\<And>c. r \<noteq> Inl (Trapped c)) \<Longrightarrow> footprint ef (lift_sum r)"
  unfolding footprint_def by (rule vars.det_lift_sum)

lemma footprint_binary [fp_intros]:
  "footprint ef (lift_sum (binary op l r))" "footprint ef (lift_sum (assigned aop sl r))"
proof -
  have b: "binary op l r \<noteq> Inl (Trapped c)" for op l r c
    by (cases op) (simp_all add: binary_def Let_def)
  show "footprint ef (lift_sum (binary op l r))" by (rule footprint_lift_sum) (rule b)
  show "footprint ef (lift_sum (assigned aop sl r))"
    by (rule footprint_lift_sum) (auto simp: assigned_def b split: assign_op.splits sum.splits)
qed

lemma footprint_view:
  assumes "\<And>a b. same_vars ef a b \<Longrightarrow> g a = g b" and "\<And>x. footprint ef (f (g x))"
  shows "footprint ef (\<lambda>s. f (g (core s)) s)"
  unfolding footprint_def
proof (rule vars.det_view [where g = g and f = f])
  show "same_vars ef (core s) (core t) \<Longrightarrow> g (core s) = g (core t)" for s t by (rule assms(1))
  show "vars.det ef (f (g x))" for x using assms(2) by (simp add: footprint_def)
qed (rule same_vars_sym, assumption, rule same_vars_trans)

lemma footprint_cond_type [fp_intros]: "footprint ef (cond_type a b :: ('m, prim_type) ev)"
proof -
  have "(cond_type a b :: ('m, prim_type) ev) = (\<lambda>s. lift_sum (both_types (type_of (fst (core s)) a) (type_of (fst (core s)) b)) s)"
    by (auto simp: cond_type_def bindc_def core_def fun_eq_iff)
  moreover have "footprint ef (\<lambda>s :: 'm mstate. lift_sum (both_types (type_of (fst (core s)) a) (type_of (fst (core s)) b)) s)"
  proof (rule footprint_view [where g = "\<lambda>c. both_types (type_of (fst c) a) (type_of (fst c) b)" and f = lift_sum])
    fix c c' :: "'m core" assume "same_vars ef c c'"
    then have "type_of (fst c) e = type_of (fst c') e" for e by (intro type_of_shape) (simp add: same_vars_def)
    then show "both_types (type_of (fst c) a) (type_of (fst c) b) = both_types (type_of (fst c') a) (type_of (fst c') b)" by simp
  next
    fix c :: "'m core"
    show "footprint ef (lift_sum (both_types (type_of (fst c) a) (type_of (fst c) b)))"
      by (rule footprint_lift_sum) (use both_types_error [of "fst c" a b] in fastforce)
  qed
  ultimately show ?thesis by simp
qed

lemma footprint_detI:
  assumes "\<And>sc m. \<exists>r d x c. dom d \<subseteq> writes ef \<and> (mem ef \<noteq> MWrite \<longrightarrow> x = None) \<and> (trapped r \<longrightarrow> terminates ef) \<and>
    (\<forall>s. same_vars ef (sc, m) (core s) \<longrightarrow>
       fst (f s) = r \<and> core (snd (f s)) = (apply_updates d (m_scope s), put_mem x (m_mem s)) \<and> m_steps (snd (f s)) = m_steps s + c)"
  shows "footprint ef f"
  unfolding footprint_def
proof (rule vars.detI)
  fix a :: "'a core"
  obtain r d x c where "dom d \<subseteq> writes ef" "mem ef \<noteq> MWrite \<longrightarrow> x = None" "trapped r \<longrightarrow> terminates ef"
    "\<forall>s. same_vars ef a (core s) \<longrightarrow>
       fst (f s) = r \<and> core (snd (f s)) = (apply_updates d (m_scope s), put_mem x (m_mem s)) \<and> m_steps (snd (f s)) = m_steps s + c"
    using assms [of "fst a" "snd a"] by auto
  then show "\<exists>r u c. change_vars ef u \<and> (trapped r \<longrightarrow> terminates ef) \<and>
      (\<forall>s. same_vars ef a (core s) \<longrightarrow> fst (f s) = r \<and> core (snd (f s)) = u (core s) \<and> m_steps (snd (f s)) = m_steps s + c)"
    by (intro exI [of _ r] exI [of _ "\<lambda>(sc, m). (apply_updates d sc, put_mem x m)"] exI [of _ c])
      (auto simp: core_def intro: change_varsI)
qed

subsection \<open>Variables and the extension\<close>

lemma footprint_lookup: "n \<in> reads ef \<Longrightarrow> footprint ef (lookup_ev n)"
proof (rule footprint_detI)
  fix sc :: scope and m :: 'a
  assume n: "n \<in> reads ef"
  define r where "r = (case scope_lookup sc n of None \<Rightarrow> Inl (JsError ''unknown variable'') | Some sl \<Rightarrow> Inr sl)"
  have "lookup_ev n s = (r, s)" if "same_vars ef (sc, m) (core s)" for s :: "'a mstate"
    using that n by (auto simp: same_vars_def lookup_ev_def bindc_def requirec_def core_def r_def split: option.split)
  then show "\<exists>r d x c. dom d \<subseteq> writes ef \<and> (mem ef \<noteq> MWrite \<longrightarrow> x = None) \<and> (trapped r \<longrightarrow> terminates ef) \<and>
    (\<forall>s :: 'a mstate. same_vars ef (sc, m) (core s) \<longrightarrow>
       fst (lookup_ev n s) = r \<and> core (snd (lookup_ev n s)) = (apply_updates d (m_scope s), put_mem x (m_mem s))
       \<and> m_steps (snd (lookup_ev n s)) = m_steps s + c)"
    by (intro exI [of _ r] exI [of _ Map.empty] exI [of _ None] exI [of _ 0])
      (auto simp: core_def r_def trapped_def split: option.splits)
qed

lemma footprint_lookup_then:
  "n \<in> reads ef \<Longrightarrow> (\<And>sl. footprint ef (g sl)) \<Longrightarrow> footprint ef (bindc (lookup_ev n) g)"
  by (intro fp_intros footprint_lookup)

text \<open>Only the type of a variable that is about to be overwritten matters.\<close>

lemma footprint_lookup_type:
  assumes "\<And>sl. g sl = h (slot_type sl)" and "\<And>t. footprint ef (h t)"
  shows "footprint ef (bindc (lookup_ev n) g :: ('m, 'a) ev)"
proof -
  define k :: "prim_type option \<Rightarrow> ('m, 'a) ev" where
    "k x = (case x of None \<Rightarrow> throwc (JsError ''unknown variable'') | Some t \<Rightarrow> h t)" for x
  define view :: "'m core \<Rightarrow> prim_type option" where "view c = map_option slot_type (scope_lookup (fst c) n)" for c
  have "(bindc (lookup_ev n) g :: ('m, 'a) ev) = (\<lambda>s. k (view (core s)) s)"
    by (auto simp: lookup_ev_def bindc_def requirec_def core_def view_def k_def assms(1) fun_eq_iff split: option.splits)
  moreover have "footprint ef (\<lambda>s. k (view (core s)) s)"
  proof (rule footprint_view)
    show "same_vars ef c c' \<Longrightarrow> view c = view c'" for c c' :: "'m core"
      unfolding view_def same_vars_def by (intro shape_lookup) simp
    show "footprint ef (k (view c))" for c
      by (cases "view c") (simp_all only: k_def option.case fp_intros assms(2))
  qed
  ultimately show ?thesis by simp
qed

lemma footprint_assign: "n \<in> writes ef \<Longrightarrow> footprint ef (assign_ev n v)"
proof (rule footprint_detI)
  fix sc :: scope and m :: 'a
  assume n: "n \<in> writes ef"
  show "\<exists>r d x c. dom d \<subseteq> writes ef \<and> (mem ef \<noteq> MWrite \<longrightarrow> x = None) \<and> (trapped r \<longrightarrow> terminates ef) \<and>
    (\<forall>s :: 'a mstate. same_vars ef (sc, m) (core s) \<longrightarrow>
       fst (assign_ev n v s) = r \<and> core (snd (assign_ev n v s)) = (apply_updates d (m_scope s), put_mem x (m_mem s))
       \<and> m_steps (snd (assign_ev n v s)) = m_steps s + c)"
  proof (cases "scope_lookup sc n")
    case None
    have "scope_lookup (m_scope s) n = None" if "same_vars ef (sc, m) (core s)" for s :: "'a mstate"
      using shape_lookup [of sc "m_scope s" n] that None by (simp add: same_vars_def core_def)
    then show ?thesis
      by (intro exI [of _ "Inl (JsError ''unknown variable'')"] exI [of _ Map.empty] exI [of _ None] exI [of _ 0])
        (simp add: assign_ev_def lookup_ev_def bindc_def core_def)
  next
    case (Some sl)
    define d where "d = [n \<mapsto> narrow v (slot_type sl)]"
    have "assign_ev n v s = (Inr (narrow v (slot_type sl)), s\<lparr>m_scope := apply_updates d (m_scope s)\<rparr>)"
      if "same_vars ef (sc, m) (core s)" for s :: "'a mstate"
    proof -
      have "shape sc = shape (m_scope s)" using that by (simp add: same_vars_def core_def)
      from shape_lookup [OF this, of n] Some
      obtain sl' where sl': "scope_lookup (m_scope s) n = Some sl'" "slot_type sl' = slot_type sl"
        by (cases "scope_lookup (m_scope s) n") auto
      then show ?thesis
        using assign_apply [OF sl'(1), of v] by (simp add: assign_ev_def lookup_ev_def bindc_def d_def)
    qed
    moreover have "dom d \<subseteq> writes ef" using n by (simp add: d_def)
    ultimately show ?thesis
      by (intro exI [of _ "Inr (narrow v (slot_type sl))"] exI [of _ d] exI [of _ None] exI [of _ 0])
        (auto simp: core_def)
  qed
qed

text \<open>The extension keeps its memory in the opcodes that the analysis calls reads.\<close>

locale effect_host =
  fixes exec :: "'m ext_exec"
  assumes read_keeps: "f \<in> set mem_read_ops \<Longrightarrow> exec (to_upper f) [] x = (r, y) \<Longrightarrow> xmem y = xmem x"
begin

lemma footprint_run_ext:
  assumes ex: "cfg_exec cfg = exec" and "mem ef = MWrite \<or> mem ef = MRead \<and> f \<in> set mem_read_ops"
  shows "footprint ef (run_ext cfg f stack acc)"
proof (rule footprint_detI)
  fix sc and m :: 'm
  obtain q y where run: "exec (to_upper f) [] \<lparr>xacc = acc, xcells = rev stack, xmem = m\<rparr> = (q, y)"
    by (cases "exec (to_upper f) [] \<lparr>xacc = acc, xcells = rev stack, xmem = m\<rparr>")
  define r :: "fault + u32" where "r = (case q of Inl e \<Rightarrow> Inl (JsError e) | Inr _ \<Rightarrow> Inr (xacc y))"
  define x where "x = (if mem ef = MWrite then Some (xmem y) else None)"
  have out: "run_ext cfg f stack acc s = (r, s\<lparr>m_mem := put_mem x (m_mem s)\<rparr>)"
    if "same_vars ef (sc, m) (core s)" for s
  proof -
    have "m_mem s = m" using that assms(2) by (auto simp: same_vars_def core_def)
    moreover have "mem ef \<noteq> MWrite \<Longrightarrow> xmem y = m" using read_keeps [OF _ run] assms(2) by auto
    ultimately show ?thesis
      using run by (auto simp: run_ext_def ex r_def x_def split: sum.splits)
  qed
  show "\<exists>r d x c. dom d \<subseteq> writes ef \<and> (mem ef \<noteq> MWrite \<longrightarrow> x = None) \<and> (trapped r \<longrightarrow> terminates ef) \<and>
    (\<forall>s. same_vars ef (sc, m) (core s) \<longrightarrow>
       fst (run_ext cfg f stack acc s) = r \<and>
       core (snd (run_ext cfg f stack acc s)) = (apply_updates d (m_scope s), put_mem x (m_mem s)) \<and>
       m_steps (snd (run_ext cfg f stack acc s)) = m_steps s + c)"
    by (intro exI [of _ r] exI [of _ Map.empty] exI [of _ x] exI [of _ 0])
      (auto simp: out x_def r_def trapped_def core_def split: sum.splits)
qed

lemma footprint_ext_call:
  assumes "cfg_exec cfg = exec" and "mem ef = MWrite \<or> mem ef = MRead \<and> f \<in> set mem_read_ops"
  shows "footprint ef (ext_call cfg f vs)"
  unfolding ext_call_def by (intro fp_intros footprint_run_ext assms)

end

lemma pop_cell_mem: "pop_cell s = (r, t) \<Longrightarrow> xmem t = xmem s"
  by (auto simp: pop_cell_def split: list.splits)

lemma pop_addr_mem: "pop_addr s = (r, t) \<Longrightarrow> xmem t = xmem s"
  by (auto simp: pop_addr_def bindc_def split: prod.splits sum.splits dest!: pop_cell_mem)

interpretation rawmem_effects: effect_host rawmem_exec
proof
  fix f x r and y :: "sandbox xstate"
  assume f: "f \<in> set mem_read_ops" and run: "rawmem_exec (to_upper f) [] x = (r, y)"
  have "to_upper f \<in> {''LD8'', ''LD16'', ''LD32'', ''MEMCMP'', ''SLICECMP''}"
  proof -
    have "\<forall>f \<in> set mem_read_ops. to_upper f \<in> {''LD8'', ''LD16'', ''LD32'', ''MEMCMP'', ''SLICECMP''}" by code_simp
    with f show ?thesis by blast
  qed
  moreover have "exec_load w x = (r, y) \<Longrightarrow> xmem y = xmem x" for w
    by (auto simp: exec_load_def)
  moreover have "exec_memcmp x = (r, y) \<Longrightarrow> xmem y = xmem x"
    by (auto simp: exec_memcmp_def bindc_def split: prod.splits sum.splits dest!: pop_addr_mem)
  moreover have "exec_slicecmp x = (r, y) \<Longrightarrow> xmem y = xmem x"
    by (auto simp: exec_slicecmp_def bindc_def Let_def split: prod.splits sum.splits dest!: pop_addr_mem)
  ultimately show "xmem y = xmem x"
    using run by (auto simp: rawmem_exec_def width_table_def)
qed

end
