(* ===== verification/Order.thy ===== *)
theory Order
  imports Footprint
begin

section \<open>Evaluation order, and why the filter is right\<close>

text \<open>
  The language leaves a binary operator's operands and a call's arguments unsequenced. Here the
  evaluator of \<^verbatim>\<open>eval/ast-eval.ts\<close> is given an oracle that decides, at every such place, which
  operand runs first; the code's own left-to-right evaluator is the oracle that always answers
  \<open>False\<close>. The result is the purpose of \<^verbatim>\<open>gen/ub.ts\<close>: a program that \<open>analyze\<close> lets through
  has the same answer and the same memory under every oracle.
\<close>

subsection \<open>The evaluator with an order\<close>

text \<open>Given the operands still to run: whether the first of them goes last.\<close>

type_synonym order = "expr list \<Rightarrow> bool"

definition both :: "bool \<Rightarrow> ('m, 'a) ev \<Rightarrow> ('m, 'b) ev \<Rightarrow> ('a \<Rightarrow> 'b \<Rightarrow> ('m, 'c) ev) \<Rightarrow> ('m, 'c) ev" where
  "both swap m n k =
     (if swap then bindc n (\<lambda>y. bindc m (\<lambda>x. k x y)) else bindc m (\<lambda>x. bindc n (\<lambda>y. k x y)))"

fun eval_ord :: "order \<Rightarrow> 'm config \<Rightarrow> 'm runner \<Rightarrow> expr \<Rightarrow> ('m, val) ev"
  and args_ord :: "order \<Rightarrow> 'm config \<Rightarrow> 'm runner \<Rightarrow> expr list \<Rightarrow> ('m, u32 list) ev"
  and first_ord :: "order \<Rightarrow> 'm config \<Rightarrow> 'm runner \<Rightarrow> expr list \<Rightarrow> ('m, u32) ev" where
  "eval_ord ord cfg rp (Literal v) =
     bindc (tick cfg) (\<lambda>_. retc (mk_val (to_u32 v) (literal_type v)))"
| "eval_ord ord cfg rp (Identifier n) =
     bindc (tick cfg) (\<lambda>_.
     bindc (lookup_ev n) (\<lambda>sl. retc (mk_val (slot_value sl) (slot_type sl))))"
| "eval_ord ord cfg rp (CastExpression t e) =
     bindc (tick cfg) (\<lambda>_.
     bindc (eval_ord ord cfg rp e) (\<lambda>v. retc (mk_val (narrow (val_value v) t) t)))"
| "eval_ord ord cfg rp (UnaryExpression op e) =
     bindc (tick cfg) (\<lambda>_.
     bindc (eval_ord ord cfg rp e) (\<lambda>v. retc (unary op v)))"
| "eval_ord ord cfg rp (BinaryExpression op l r) =
     bindc (tick cfg) (\<lambda>_.
     both (ord [l, r]) (eval_ord ord cfg rp l) (eval_ord ord cfg rp r) (\<lambda>a b. lift_sum (binary op a b)))"
| "eval_ord ord cfg rp (LogicalExpression op l r) =
     bindc (tick cfg) (\<lambda>_.
     bindc (eval_ord ord cfg rp l) (\<lambda>a.
     if op = AndAnd \<and> val_value a = 0 then retc (mk_val 0 I32)
     else if op = OrOr \<and> val_value a \<noteq> 0 then retc (mk_val 1 I32)
     else bindc (eval_ord ord cfg rp r) (\<lambda>b. retc (mk_val (bool_u32 (val_value b \<noteq> 0)) I32))))"
| "eval_ord ord cfg rp (ConditionalExpression c a b) =
     bindc (tick cfg) (\<lambda>_.
     bindc (cond_type a b) (\<lambda>t.
     bindc (eval_ord ord cfg rp c) (\<lambda>test.
     bindc (if val_value test \<noteq> 0 then eval_ord ord cfg rp a else eval_ord ord cfg rp b) (\<lambda>v.
     retc (mk_val (val_value v) t)))))"
| "eval_ord ord cfg rp (AssignmentExpression op n e) =
     bindc (tick cfg) (\<lambda>_.
     bindc (lookup_ev n) (\<lambda>_.
     bindc (eval_ord ord cfg rp e) (\<lambda>r.
     bindc (lookup_ev n) (\<lambda>sl.
     bindc (lift_sum (assigned op sl r)) (\<lambda>v.
     bindc (assign_ev n v) (\<lambda>w. retc (mk_val w (slot_type sl))))))))"
| "eval_ord ord cfg rp (UpdateExpression op pre e) =
     bindc (tick cfg) (\<lambda>_.
     case e of
       Identifier n \<Rightarrow>
         bindc (lookup_ev n) (\<lambda>sl.
         bindc (assign_ev n (if op = Incr then slot_value sl + 1 else slot_value sl - 1)) (\<lambda>w.
         retc (mk_val (if pre then w else slot_value sl) (slot_type sl))))
     | _ \<Rightarrow> throwc (JsError ''update of a non-variable''))"
| "eval_ord ord cfg rp (CallExpression f args) =
     bindc (tick cfg) (\<lambda>_.
     if f = ''trap'' then bindc (first_ord ord cfg rp args) (\<lambda>v. throwc (Trapped v))
     else if f = ''clz'' then u32_val (bindc (first_ord ord cfg rp args) (\<lambda>v. retc (clz32 v)))
     else if f = ''revbits'' then u32_val (bindc (first_ord ord cfg rp args) (\<lambda>v. retc (revbits v)))
     else if f \<in> set ext_ops then u32_val (bindc (args_ord ord cfg rp args) (ext_call cfg f))
     else case proc_index f of
       None \<Rightarrow> throwc (JsError ''no such callee'')
     | Some i \<Rightarrow> u32_val (bindc (args_ord ord cfg rp args) (rp i)))"
| "args_ord ord cfg rp [] = retc []"
| "args_ord ord cfg rp (e # es) =
     both (ord (e # es)) (eval_ord ord cfg rp e) (args_ord ord cfg rp es)
       (\<lambda>v vs. retc (val_value v # vs))"
| "first_ord ord cfg rp [] = bindc (tick cfg) (\<lambda>_. throwc (JsError ''no argument''))"
| "first_ord ord cfg rp (e # es) = bindc (eval_ord ord cfg rp e) (\<lambda>v. retc (val_value v))"

definition left_first :: order where
  "left_first es = False"

lemma left_first: "left_first (e # es) = False"
  by (simp add: left_first_def)

lemma eval_left_first:
  "eval_ord left_first cfg rp e = eval cfg rp e"
  "args_ord left_first cfg rp es = eval_args cfg rp es"
  "first_ord left_first cfg rp es = eval_first cfg rp es"
proof -
  have e: "eval_ord left_first cfg rp e = eval cfg rp e" for e
  proof (induction e)
    case (ConditionalExpression c a b)
    then show ?case by (simp only: eval_ord.simps eval.simps)
  next
    case (CallExpression f args)
    have "args_ord left_first cfg rp args = eval_args cfg rp args"
      using CallExpression by (induction args) (simp_all add: both_def left_first_def)
    moreover have "first_ord left_first cfg rp args = eval_first cfg rp args"
      using CallExpression by (cases args) simp_all
    ultimately show ?case by (simp only: eval_ord.simps eval.simps)
  qed (simp_all only: eval_ord.simps eval.simps both_def left_first_def if_False)
  show "eval_ord left_first cfg rp e = eval cfg rp e" by (rule e)
  show "args_ord left_first cfg rp es = eval_args cfg rp es"
    by (induction es) (simp_all only: args_ord.simps eval_args.simps both_def e left_first if_False)
  show "first_ord left_first cfg rp es = eval_first cfg rp es"
    by (cases es) (simp_all add: e)
qed

subsection \<open>Effects without the conflict check\<close>

fun all_effects :: "summaries \<Rightarrow> expr \<Rightarrow> effects" where
  "all_effects sums (Literal v) = no_effects"
| "all_effects sums (Identifier n) = no_effects\<lparr>reads := {n}\<rparr>"
| "all_effects sums (CastExpression t e) = all_effects sums e"
| "all_effects sums (UnaryExpression op e) = all_effects sums e"
| "all_effects sums (UpdateExpression op pre e) =
     (case e of Identifier n \<Rightarrow> (all_effects sums e)\<lparr>writes := insert n (writes (all_effects sums e))\<rparr>
      | _ \<Rightarrow> all_effects sums e)"
| "all_effects sums (AssignmentExpression op n e) =
     (all_effects sums e)\<lparr>reads := (if op \<noteq> Assign then insert n (reads (all_effects sums e)) else reads (all_effects sums e)),
       writes := insert n (writes (all_effects sums e))\<rparr>"
| "all_effects sums (LogicalExpression op l r) = union_effects [all_effects sums l, all_effects sums r]"
| "all_effects sums (ConditionalExpression c a b) =
     union_effects [all_effects sums c, all_effects sums a, all_effects sums b]"
| "all_effects sums (BinaryExpression op l r) = union_effects [all_effects sums l, all_effects sums r]"
| "all_effects sums (CallExpression f args) = call_effects sums f (union_effects (map (all_effects sums) args))"

lemma analyze_effects: "analyze_expr sums e = Inr ef \<Longrightarrow> ef = all_effects sums e"
proof (induction e arbitrary: ef)
  case (UpdateExpression op pre e)
  then show ?case by (cases e) (auto simp: bindr_eq_Inr)
next
  case (CallExpression f args)
  then obtain parts where parts: "map_r (analyze_expr sums) args = Inr parts"
    "ef = call_effects sums f (union_effects parts)"
    by (auto simp: bindr_eq_Inr split: if_splits)
  have "list_all2 (\<lambda>x y. analyze_expr sums x = Inr y) args parts"
    using parts(1) by (simp add: map_r_Inr)
  then have "parts = map (all_effects sums) args"
    using CallExpression.IH by (induction rule: list_all2_induct) auto
  with parts(2) show ?case by simp
qed (auto simp: bindr_eq_Inr split: if_splits)

text \<open>What a runner has to satisfy for the summaries to be right about it.\<close>

definition call_within :: "summaries \<Rightarrow> nat \<Rightarrow> effects \<Rightarrow> bool" where
  "call_within sums i ef \<longleftrightarrow>
     (case sums i of
        Some s \<Rightarrow> sum_mem s \<le> mem ef \<and> (sum_terminates s \<longrightarrow> terminates ef)
      | None \<Rightarrow> mem ef = MWrite \<and> terminates ef)"

definition summarised :: "summaries \<Rightarrow> 'm runner \<Rightarrow> bool" where
  "summarised sums rp \<longleftrightarrow> (\<forall>i vs ef. call_within sums i ef \<longrightarrow> footprint ef (rp i vs))"

lemma footprint_both:
  "footprint ef m \<Longrightarrow> footprint ef n \<Longrightarrow> (\<And>x y. footprint ef (k x y)) \<Longrightarrow> footprint ef (both sw m n k)"
  unfolding both_def by (intro fp_intros)

lemma ext_ops_split: "f \<in> set ext_ops \<Longrightarrow> f \<in> set mem_read_ops \<or> f \<in> set mem_write_ops"
proof -
  have "\<forall>f \<in> set ext_ops. f \<in> set mem_read_ops \<or> f \<in> set mem_write_ops" by code_simp
  then show "f \<in> set ext_ops \<Longrightarrow> ?thesis" by blast
qed

lemma within_call: "within out (call_effects sums f out)"
  by (auto simp: call_effects_def within_def stronger_max split: option.splits)

lemma all_effects_parts:
  "within (all_effects sums l) (all_effects sums (BinaryExpression op l r))"
  "within (all_effects sums r) (all_effects sums (BinaryExpression op l r))"
  "within (all_effects sums l) (all_effects sums (LogicalExpression lop l r))"
  "within (all_effects sums r) (all_effects sums (LogicalExpression lop l r))"
  "within (all_effects sums c) (all_effects sums (ConditionalExpression c a b))"
  "within (all_effects sums a) (all_effects sums (ConditionalExpression c a b))"
  "within (all_effects sums b) (all_effects sums (ConditionalExpression c a b))"
  "within (all_effects sums e) (all_effects sums (AssignmentExpression aop n e))"
  "x \<in> set args \<Longrightarrow> within (all_effects sums x) (all_effects sums (CallExpression f args))"
proof -
  have trans: "within p q \<Longrightarrow> within q s \<Longrightarrow> within p s" for p q s by (auto simp: within_def)
  show "x \<in> set args \<Longrightarrow> within (all_effects sums x) (all_effects sums (CallExpression f args))"
    unfolding all_effects.simps by (rule trans [OF within_union within_call]) simp
qed (auto simp: within_union within_def [of _ "_\<lparr>reads := _, writes := _\<rparr>"] simp del: union_effects_simps)

lemma footprint_args_ord:
  assumes "\<And>e. e \<in> set es \<Longrightarrow> footprint ef (eval_ord ord cfg rp e)"
  shows "footprint ef (args_ord ord cfg rp es)" "footprint ef (first_ord ord cfg rp es)"
proof -
  show "footprint ef (args_ord ord cfg rp es)"
    using assms by (induction es) (simp_all only: args_ord.simps, (intro fp_intros footprint_both; simp)+)
  show "footprint ef (first_ord ord cfg rp es)"
    using assms by (cases es) (simp_all only: first_ord.simps, (intro fp_intros; simp)+)
qed

context effect_host
begin

lemma footprint_eval:
  assumes ex: "cfg_exec cfg = exec" and rp: "summarised sums rp"
  shows "footprint (all_effects sums e) (eval_ord ord cfg rp e)"
proof (induction e)
  case (UpdateExpression op pre e)
  show ?case
  proof (cases "\<exists>n. e = Identifier n")
    case True
    then obtain n where e: "e = Identifier n" ..
    show ?thesis
      by (simp only: e eval_ord.simps expr.case, intro fp_intros footprint_lookup footprint_assign) (auto simp: no_effects_def)
  next
    case False
    then have "eval_ord ord cfg rp (UpdateExpression op pre e) = bindc (tick cfg) (\<lambda>_. throwc (JsError ''update of a non-variable''))"
      by (cases e) (auto simp del: throwc_apply)
    then show ?thesis by (simp only:) (intro fp_intros)
  qed
next
  case (Identifier n)
  show ?case by (simp only: eval_ord.simps, intro fp_intros footprint_lookup) simp
next
  case (BinaryExpression op l r)
  show ?case
    by (simp only: eval_ord.simps, intro fp_intros footprint_both)
      (rule footprint_mono [OF _ BinaryExpression.IH(1)] footprint_mono [OF _ BinaryExpression.IH(2)], rule all_effects_parts)+
next
  case (LogicalExpression op l r)
  show ?case
    by (simp only: eval_ord.simps, intro fp_intros)
      (rule footprint_mono [OF _ LogicalExpression.IH(1)] footprint_mono [OF _ LogicalExpression.IH(2)], rule all_effects_parts)+
next
  case (ConditionalExpression c a b)
  show ?case
    by (simp only: eval_ord.simps, intro fp_intros)
      (rule footprint_mono [OF _ ConditionalExpression.IH(1)] footprint_mono [OF _ ConditionalExpression.IH(2)]
        footprint_mono [OF _ ConditionalExpression.IH(3)], rule all_effects_parts)+
next
  case (AssignmentExpression op n e)
  let ?ef = "all_effects sums (AssignmentExpression op n e)"
  have e: "footprint ?ef (eval_ord ord cfg rp e)"
    by (rule footprint_mono [OF all_effects_parts(8) AssignmentExpression.IH])
  have n: "n \<in> writes ?ef" by simp
  have store: "footprint ?ef (bindc (lift_sum r) (\<lambda>v. bindc (assign_ev n v) (\<lambda>w. retc (mk_val w t))))"
    if "\<And>c. r \<noteq> Inl (Trapped c)" for r t
    by (intro fp_intros footprint_assign [OF n] footprint_lift_sum that)
  have assign: "footprint ?ef (bindc (lookup_ev n) (\<lambda>sl. bindc (lift_sum (assigned op sl r))
      (\<lambda>v. bindc (assign_ev n v) (\<lambda>w. retc (mk_val w (slot_type sl))))))" for r
  proof (cases op)
    case Assign
    show ?thesis
      by (rule footprint_lookup_type [where h = "\<lambda>t. bindc (lift_sum (Inr (val_value r))) (\<lambda>v. bindc (assign_ev n v) (\<lambda>w. retc (mk_val w t)))"])
        (simp add: Assign assigned_def, rule store, simp)
  next
    case (Compound b)
    have "n \<in> reads ?ef" by (simp add: Compound)
    then show ?thesis
      by (intro footprint_lookup_then fp_intros footprint_assign [OF n])
  qed
  have "footprint ?ef (bindc (lookup_ev n) (\<lambda>_. bindc (eval_ord ord cfg rp e) (\<lambda>r.
      bindc (lookup_ev n) (\<lambda>sl. bindc (lift_sum (assigned op sl r))
      (\<lambda>v. bindc (assign_ev n v) (\<lambda>w. retc (mk_val w (slot_type sl))))))))"
    by (rule footprint_lookup_type [where h = "\<lambda>_. bindc (eval_ord ord cfg rp e) (\<lambda>r.
      bindc (lookup_ev n) (\<lambda>sl. bindc (lift_sum (assigned op sl r))
      (\<lambda>v. bindc (assign_ev n v) (\<lambda>w. retc (mk_val w (slot_type sl))))))"])
      (rule refl, intro footprint_rules(3) e assign)
  then show ?case
    by (simp only: eval_ord.simps) (rule footprint_rules(3) [OF footprint_rules(2)])
next
  case (CallExpression f args)
  let ?ef = "all_effects sums (CallExpression f args)"
  have each: "\<And>e. e \<in> set args \<Longrightarrow> footprint ?ef (eval_ord ord cfg rp e)"
    by (rule footprint_mono [OF all_effects_parts(9) CallExpression.IH])
  note args = footprint_args_ord [OF each]
  have ext: "footprint ?ef (ext_call cfg f vs)"
    if "f \<in> set ext_ops" "f \<noteq> ''trap''" "f \<notin> set pure_ops" for vs
  proof (rule footprint_ext_call [OF ex])
    show "mem ?ef = MWrite \<or> mem ?ef = MRead \<and> f \<in> set mem_read_ops"
      using that ext_ops_split [OF that(1)]
      by (auto simp: call_effects_def stronger_mem_def)
  qed
  have call: "footprint ?ef (rp i vs)"
    if "proc_index f = Some i" "f \<notin> set ext_ops" "f \<noteq> ''trap''" "f \<notin> set pure_ops" for i vs
  proof -
    have "f \<notin> set mem_read_ops" "f \<notin> set mem_write_ops"
      using that(2) by (auto simp: ext_ops_def mem_stack_arity_def mem_read_ops_def mem_write_ops_def)
    then have "call_within sums i ?ef"
      using that by (auto simp: call_within_def call_effects_def stronger_max split: option.splits)
    with rp show ?thesis by (simp add: summarised_def)
  qed
  show ?case
    by (simp only: eval_ord.simps, intro fp_intros args ext call)
      (auto simp: pure_ops_def call_effects_def)
qed (simp only: eval_ord.simps all_effects.simps, (intro fp_intros; assumption?))+

end

subsection \<open>Bodies: only the memory matters\<close>

definition same_body :: "mem_use \<Rightarrow> 'm core \<Rightarrow> 'm core \<Rightarrow> bool" where
  "same_body mu a b \<longleftrightarrow> fst a = fst b \<and> (mu \<noteq> MNone \<longrightarrow> snd a = snd b)"

definition change_body :: "mem_use \<Rightarrow> ('m core \<Rightarrow> 'm core) \<Rightarrow> bool" where
  "change_body mu u \<longleftrightarrow>
     (\<exists>g x. (mu \<noteq> MWrite \<longrightarrow> x = None) \<and> u = (\<lambda>(sc, m). (g sc, put_mem x m)))"

interpretation body: determinate "same_body mu" "change_body mu" tm for mu and tm
proof
  fix a b :: "'m core" and u w :: "'m core \<Rightarrow> 'm core"
  show "same_body mu a a" by (simp add: same_body_def)
  show "change_body mu (id :: 'm core \<Rightarrow> 'm core)"
    unfolding change_body_def by (intro exI [of _ id] exI [of _ None]) auto
  show "change_body mu (w \<circ> u)" if uw: "change_body mu u" "change_body mu w"
  proof -
    obtain g x where u: "mu \<noteq> MWrite \<longrightarrow> x = None" "u = (\<lambda>(sc, m). (g sc, put_mem x m))"
      using uw(1) unfolding change_body_def by blast
    obtain g' x' where w: "mu \<noteq> MWrite \<longrightarrow> x' = None" "w = (\<lambda>(sc, m). (g' sc, put_mem x' m))"
      using uw(2) unfolding change_body_def by blast
    show ?thesis
      unfolding change_body_def
      by (intro exI [of _ "g' \<circ> g"] exI [of _ "if x' = None then x else x'"])
        (use u w in \<open>auto simp: fun_eq_iff put_mem_def split: option.splits\<close>)
  qed
  show "same_body mu (u a) (u b)" if "change_body mu u" "same_body mu a b"
    using that by (cases a; cases b) (auto simp: change_body_def same_body_def)
qed

definition bodyprint :: "mem_use \<Rightarrow> bool \<Rightarrow> ('m, 'a) ev \<Rightarrow> bool" where
  "bodyprint mu tm m \<longleftrightarrow> body.det mu tm m"

named_theorems bp_intros "rules for the footprints of bodies"

lemmas bodyprint_rules [bp_intros] =
  body.det_retc [folded bodyprint_def] body.det_tick [folded bodyprint_def]
  body.det_bindc [folded bodyprint_def] body.det_if [folded bodyprint_def]
  body.det_option [folded bodyprint_def] body.det_loop [folded bodyprint_def]

lemma footprint_body:
  assumes "footprint ef m" and "mem ef \<le> mu" "terminates ef \<Longrightarrow> tm"
  shows "bodyprint mu tm (m :: ('m, 'a) ev)"
  unfolding bodyprint_def body.det_def
proof
  fix a :: "'m core"
  obtain r u c where m: "change_vars ef u" "trapped r \<longrightarrow> terminates ef" "vars.acts ef a m r u c"
    using assms(1) unfolding footprint_def vars.det_def by blast
  have sub: "same_body mu x y \<Longrightarrow> same_vars ef x y" for x y :: "'m core"
    using assms(2) by (auto simp: same_body_def same_vars_def)
  have "body.acts mu a m r u c"
    using m(3) sub unfolding vars.acts_def body.acts_def by blast
  moreover have "change_body mu u"
  proof -
    obtain d x where "mem ef \<noteq> MWrite \<longrightarrow> x = None" "u = (\<lambda>(sc, m). (apply_updates d sc, put_mem x m))"
      using m(1) unfolding change_vars_def by blast
    with assms(2) show ?thesis
      unfolding change_body_def by (intro exI [of _ "apply_updates d"] exI [of _ x]) auto
  qed
  ultimately show "\<exists>r u c. change_body mu u \<and> (trapped r \<longrightarrow> tm) \<and> body.acts mu a m r u c"
    using m(2) assms(3) by blast
qed

lemma bodyprint_throwc [bp_intros]:
  "bodyprint mu tm (throwc (JsError msg))" "bodyprint mu tm (throwc (Unspecified u))"
  "bodyprint mu tm (throwc OutOfFuel)"
  unfolding bodyprint_def by (rule body.det_throwc, simp)+

lemma bodyprint_scope:
  "(\<And>s. m_steps (f s) = m_steps s \<and> m_mem (f s) = m_mem s \<and> m_scope (f s) = g (m_scope s)) \<Longrightarrow>
    bodyprint mu tm (modifyc f)"
  unfolding bodyprint_def
proof (rule body.detI, rule exI [of _ "Inr ()"], rule exI [of _ "\<lambda>(sc, m). (g sc, m)"], rule exI [of _ 0])
  fix a :: "'a core"
  assume f: "\<And>s :: 'a mstate. m_steps (f s) = m_steps s \<and> m_mem (f s) = m_mem s \<and> m_scope (f s) = g (m_scope s)"
  show "change_body mu (\<lambda>(sc, m). (g sc, m)) \<and> (trapped (Inr ()) \<longrightarrow> tm) \<and>
    (\<forall>s :: 'a mstate. same_body mu a (core s) \<longrightarrow> fst (modifyc f s) = Inr () \<and>
      core (snd (modifyc f s)) = (case core s of (sc, m) \<Rightarrow> (g sc, m)) \<and> m_steps (snd (modifyc f s)) = m_steps s + 0)"
    unfolding change_body_def by (auto simp: f core_def intro!: exI [of _ g] exI [of _ None])
qed

lemma bodyprint_getc [bp_intros]: "bodyprint mu tm (getc m_scope :: ('m, scope) ev)"
  unfolding bodyprint_def
proof (rule body.detI)
  fix a :: "'m core"
  show "\<exists>r u c. change_body mu u \<and> (trapped r \<longrightarrow> tm) \<and>
    (\<forall>s :: 'm mstate. same_body mu a (core s) \<longrightarrow> fst (getc m_scope s) = r \<and> core (snd (getc m_scope s)) = u (core s)
      \<and> m_steps (snd (getc m_scope s)) = m_steps s + c)"
    by (rule exI [of _ "Inr (fst a)"], rule exI [of _ id], rule exI [of _ 0])
      (auto simp: body.change_id same_body_def core_def)
qed

lemma bodyprint_declare [bp_intros]: "bodyprint mu tm (declare_ev n t v)"
  unfolding declare_ev_def by (rule bodyprint_scope [where g = "\<lambda>sc. scope_declare sc n t v"]) simp

lemma bodyprint_in_child [bp_intros]: "bodyprint mu tm m \<Longrightarrow> bodyprint mu tm (in_child m)"
  unfolding in_child_def
  by (intro bp_intros bodyprint_scope [where g = "\<lambda>sc. Map.empty # sc"] bodyprint_scope [where g = tl]) simp_all

lemma bodyprint_after [bp_intros]: "bodyprint mu tm m \<Longrightarrow> bodyprint mu tm (after_body fl m)"
  by (cases fl) (simp_all only: after_body_def flow.case bp_intros)

lemma bodyprint_decls: "(\<And>e. e \<in> set (decl_inits ds) \<Longrightarrow> bodyprint mu tm (ev e)) \<Longrightarrow> bodyprint mu tm (exec_decls ev ds)"
proof (induction ds)
  case (Cons d ds)
  obtain t n i where d: "d = Declarator t n i" by (cases d)
  have "bodyprint mu tm (exec_decls ev ds)" by (rule Cons.IH) (use Cons.prems in \<open>simp add: decl_inits_def\<close>)
  then show ?case
    by (simp only: d exec_decls.simps, intro bp_intros) (use Cons.prems d in \<open>auto simp: decl_inits_def opt_list_def\<close>)
qed (simp only: exec_decls.simps bp_intros)

lemma bodyprint_find_case:
  "(\<And>e. e \<in> set (concat (map (\<lambda>c. opt_list (case_test c)) cs)) \<Longrightarrow> bodyprint mu tm (ev e)) \<Longrightarrow>
    bodyprint mu tm (find_case ev d cs)"
proof (induction cs)
  case (Cons c cs)
  obtain t b where c: "c = SwitchCase t b" by (cases c)
  have "bodyprint mu tm (find_case ev d cs)" by (rule Cons.IH) (use Cons.prems in simp)
  then show ?case
    by (simp only: c find_case.simps, intro bp_intros) (use Cons.prems c in \<open>auto simp: opt_list_def\<close>)
qed (simp only: find_case.simps bp_intros)

text \<open>The expressions a statement evaluates are those the traversal visits.\<close>

definition exprs_in :: "stmt \<Rightarrow> expr set" where
  "exprs_in s = (\<Union>x \<in> set (each_of s). set (child_expressions x))"

lemma exprs_in_here: "e \<in> set (child_expressions s) \<Longrightarrow> e \<in> exprs_in s"
  by (auto simp: exprs_in_def set_each_of)

lemma exprs_in_child: "b \<in> set (child_bodies s) \<Longrightarrow> x \<in> set b \<Longrightarrow> e \<in> exprs_in x \<Longrightarrow> e \<in> exprs_in s"
  by (auto simp: exprs_in_def set_each_of [of s] set_each_statement)

lemma bodyprint_list:
  "(\<And>s. s \<in> set ss \<Longrightarrow> bodyprint mu tm (exec_stmt cfg ev s)) \<Longrightarrow> bodyprint mu tm (exec_list cfg ev ss)"
  by (induction ss) (simp_all only: exec_list.simps bp_intros, (intro bp_intros; simp)+)

lemma bodyprint_clauses:
  "(\<And>c s. c \<in> set cs \<Longrightarrow> s \<in> set (case_body c) \<Longrightarrow> bodyprint mu tm (exec_stmt cfg ev s)) \<Longrightarrow>
    bodyprint mu tm (exec_clauses cfg ev k cs)"
proof (induction cs arbitrary: k)
  case (Cons c cs)
  obtain t b where c: "c = SwitchCase t b" by (cases c)
  have rest: "bodyprint mu tm (exec_clauses cfg ev k cs)" for k
    by (rule Cons.IH) (use Cons.prems in auto)
  have body: "bodyprint mu tm (exec_list cfg ev b)"
    by (rule bodyprint_list) (use Cons.prems [of c] c in simp)
  have flow: "bodyprint mu tm (case fl of Normal \<Rightarrow> exec_clauses cfg ev 0 cs | Return v \<Rightarrow> retc (Return v) | Break \<Rightarrow> retc Normal)" for fl
    by (cases fl) (simp_all only: flow.case rest bp_intros)
  show ?case
    by (cases k) (simp_all only: c exec_clauses.simps nat.case rest, intro bp_intros body flow)
qed (simp only: exec_clauses.simps bp_intros)

definition stmt_print :: "mem_use \<Rightarrow> bool \<Rightarrow> 'm config \<Rightarrow> 'm evaluator \<Rightarrow> stmt \<Rightarrow> bool" where
  "stmt_print mu tm cfg ev s \<longleftrightarrow>
     (\<forall>e \<in> exprs_in s. bodyprint mu tm (ev e)) \<longrightarrow> bodyprint mu tm (exec_stmt cfg ev s)"

lemma bodyprint_stmt:
  shows "stmt_print mu tm cfg ev s \<and> (\<forall>x \<in> set (as_list s). stmt_print mu tm cfg ev x)" and "\<forall>s \<in> set (case_body c). stmt_print mu tm cfg ev s"
proof (induction s and c)
  have list: "bodyprint mu tm (exec_list cfg ev b)"
    if "\<forall>x \<in> set b. stmt_print mu tm cfg ev x" "b \<in> set (child_bodies s)" "\<forall>e \<in> exprs_in s. bodyprint mu tm (ev e)" for s b
    by (rule bodyprint_list) (use that exprs_in_child [OF that(2)] in \<open>auto simp: stmt_print_def\<close>)
  have here: "bodyprint mu tm (ev e)"
    if "\<forall>e \<in> exprs_in s. bodyprint mu tm (ev e)" "e \<in> set (child_expressions s)" for s e
    using that exprs_in_here by blast
  {
    case (BlockStatement b)
    have "stmt_print mu tm cfg ev (BlockStatement b)"
      unfolding stmt_print_def exec_stmt.simps by (intro impI bp_intros list [of b "BlockStatement b"]) (use BlockStatement in auto)
    with BlockStatement show ?case by simp
  next
    case BreakStatement
    show ?case by (simp add: stmt_print_def bp_intros del: retc_apply)
  next
    case (ExpressionStatement e)
    have "stmt_print mu tm cfg ev (ExpressionStatement e)"
      unfolding stmt_print_def exec_stmt.simps by (intro impI bp_intros, erule here) simp
    then show ?case by simp
  next
    case (ReturnStatement a)
    have "stmt_print mu tm cfg ev (ReturnStatement a)"
      unfolding stmt_print_def exec_stmt.simps by (intro impI bp_intros, erule here) simp
    then show ?case by simp
  next
    case (VariableDeclaration ds)
    have "stmt_print mu tm cfg ev (VariableDeclaration ds)"
      unfolding stmt_print_def exec_stmt.simps by (intro impI bp_intros bodyprint_decls, erule here) simp
    then show ?case by simp
  next
    case (IfStatement t c a)
    have "stmt_print mu tm cfg ev (IfStatement t c a)"
      unfolding stmt_print_def
    proof
      assume all: "\<forall>e \<in> exprs_in (IfStatement t c a). bodyprint mu tm (ev e)"
      have t: "bodyprint mu tm (ev t)" by (rule here [OF all]) simp
      have c: "bodyprint mu tm (exec_list cfg ev (as_list c))"
        by (rule list [OF _ _ all]) (use IfStatement in \<open>simp, cases a, simp_all\<close>)
      have a: "bodyprint mu tm (exec_list cfg ev (as_list b))" if "a = Some b" for b
        by (rule list [OF _ _ all]) (use IfStatement that in simp_all)
      show "bodyprint mu tm (exec_stmt cfg ev (IfStatement t c a))"
        unfolding exec_stmt.simps by (intro bp_intros t c a)
    qed
    then show ?case by simp
  next
    case (WhileStatement t b)
    have "stmt_print mu tm cfg ev (WhileStatement t b)"
      unfolding stmt_print_def
    proof
      assume all: "\<forall>e \<in> exprs_in (WhileStatement t b). bodyprint mu tm (ev e)"
      have t: "bodyprint mu tm (ev t)" by (rule here [OF all]) simp
      have b: "bodyprint mu tm (exec_list cfg ev (as_list b))"
        by (rule list [OF _ _ all]) (use WhileStatement in simp_all)
      show "bodyprint mu tm (exec_stmt cfg ev (WhileStatement t b))"
        unfolding exec_stmt.simps by (intro bp_intros t b)
    qed
    then show ?case by simp
  next
    case (DoWhileStatement b t)
    have "stmt_print mu tm cfg ev (DoWhileStatement b t)"
      unfolding stmt_print_def
    proof
      assume all: "\<forall>e \<in> exprs_in (DoWhileStatement b t). bodyprint mu tm (ev e)"
      have t: "bodyprint mu tm (ev t)" by (rule here [OF all]) simp
      have b: "bodyprint mu tm (exec_list cfg ev (as_list b))"
        by (rule list [OF _ _ all]) (use DoWhileStatement in simp_all)
      show "bodyprint mu tm (exec_stmt cfg ev (DoWhileStatement b t))"
        unfolding exec_stmt.simps by (intro bp_intros t b)
    qed
    then show ?case by simp
  next
    case (ForStatement i t u b)
    have "stmt_print mu tm cfg ev (ForStatement i t u b)"
      unfolding stmt_print_def
    proof
      assume all: "\<forall>e \<in> exprs_in (ForStatement i t u b). bodyprint mu tm (ev e)"
      have t: "bodyprint mu tm (ev e)" if "t = Some e" for e
        by (rule here [OF all]) (simp add: that opt_list_def)
      have u: "bodyprint mu tm (ev e)" if "u = Some e" for e
        by (rule here [OF all]) (simp add: that opt_list_def)
      have b: "bodyprint mu tm (exec_list cfg ev (as_list b))"
        by (rule list [OF _ _ all]) (use ForStatement in simp_all)
      have init: "bodyprint mu tm (case i of None \<Rightarrow> retc ()
          | Some (InitDecl ds) \<Rightarrow> bindc (tick cfg) (\<lambda>_. exec_decls ev ds)
          | Some (InitExpr e) \<Rightarrow> bindc (ev e) (\<lambda>_. retc ()))"
      proof (cases i)
        case None
        then show ?thesis by (simp only: option.case bp_intros)
      next
        case (Some x)
        show ?thesis
        proof (cases x)
          case (InitDecl ds)
          have "bodyprint mu tm (exec_decls ev ds)"
            by (rule bodyprint_decls, rule here [OF all]) (simp add: Some InitDecl)
          then show ?thesis by (simp only: Some InitDecl option.case for_init.case) (intro bp_intros)
        next
          case (InitExpr e)
          have "bodyprint mu tm (ev e)" by (rule here [OF all]) (simp add: Some InitExpr)
          then show ?thesis by (simp only: Some InitExpr option.case for_init.case) (intro bp_intros)
        qed
      qed
      show "bodyprint mu tm (exec_stmt cfg ev (ForStatement i t u b))"
        unfolding exec_stmt.simps by (intro bp_intros t u b init)
    qed
    then show ?case by simp
  next
    case (SwitchStatement d cs)
    have "stmt_print mu tm cfg ev (SwitchStatement d cs)"
      unfolding stmt_print_def
    proof
      assume all: "\<forall>e \<in> exprs_in (SwitchStatement d cs). bodyprint mu tm (ev e)"
      have d: "bodyprint mu tm (ev d)" by (rule here [OF all]) simp
      have f: "bodyprint mu tm (find_case ev v cs)" for v
        by (rule bodyprint_find_case, rule here [OF all]) simp
      have "bodyprint mu tm (exec_stmt cfg ev s)" if "c \<in> set cs" "s \<in> set (case_body c)" for c s
      proof -
        have "\<forall>e \<in> exprs_in s. bodyprint mu tm (ev e)"
          using all exprs_in_child [of "case_body c" "SwitchStatement d cs" s] that by auto
        moreover have "stmt_print mu tm cfg ev s" using SwitchStatement that by blast
        ultimately show ?thesis by (simp add: stmt_print_def)
      qed
      then have cl: "bodyprint mu tm (exec_clauses cfg ev k cs)" for k
        by (rule bodyprint_clauses)
      show "bodyprint mu tm (exec_stmt cfg ev (SwitchStatement d cs))"
        unfolding exec_stmt.simps by (intro bp_intros d f cl)
    qed
    then show ?case by simp
  next
    case (SwitchCase t b)
    then show ?case by simp
  }
qed

end
