(* ===== verification/Rng.thy ===== *)
theory Rng
  imports Prelude "HOL-Library.Multiset"
begin

section \<open>The generator's randomness: \<^verbatim>\<open>gen/rng.ts\<close>\<close>

text \<open>
  \<^verbatim>\<open>Rng\<close> is a \<^verbatim>\<open>u32\<close> of state threaded through every draw, so a draw is a computation over it.
  \<^verbatim>\<open>next\<close> divides a word by \<open>2^32\<close>; \<open>next_word\<close> keeps the word. \<^verbatim>\<open>int(n)\<close> floors the product of
  that fraction and \<open>n\<close>, which a double holds exactly for every \<open>n\<close> up to \<open>2^21\<close>; the code
  draws below a few dozen alternatives. A probability, a decimal constant of the code, is a
  fraction of integers.
\<close>

type_synonym rng = u32
type_synonym 'a draw = "(rng, string, 'a) comp"

definition rng_new :: "int \<Rightarrow> rng" where
  "rng_new seed = to_u32 seed"

definition next_state :: "rng \<Rightarrow> rng" where
  "next_state s = s + 0x6d2b79f5"

definition scramble :: "u32 \<Rightarrow> u32" where
  "scramble s =
     (let t = (s XOR drop_bit 15 s) * (s OR 1);
          t = t XOR (t + (t XOR drop_bit 7 t) * (t OR 61))
      in t XOR drop_bit 14 t)"

definition next_word :: "u32 draw" where
  "next_word = bindc (modifyc next_state) (\<lambda>_. getc scramble)"

text \<open>\<^verbatim>\<open>int\<close> of an integral, possibly negative bound.\<close>

definition rng_int :: "int \<Rightarrow> int draw" where
  "rng_int n = bindc next_word (\<lambda>w. retc (uint w * n div 2 ^ 32))"

definition between :: "int \<Rightarrow> int \<Rightarrow> int draw" where
  "between lo hi = bindc (rng_int (hi - lo + 1)) (\<lambda>k. retc (lo + k))"

definition chance :: "int \<times> int \<Rightarrow> bool draw" where
  "chance p = bindc next_word (\<lambda>w. retc (uint w * snd p < fst p * 2 ^ 32))"

definition pick :: "'a list \<Rightarrow> 'a draw" where
  "pick items =
     (if items = [] then throwc ''rng.pick: empty''
      else bindc (rng_int (int (length items))) (\<lambda>i. retc (items ! nat i)))"

definition maybe_pick :: "'a list \<Rightarrow> 'a option draw" where
  "maybe_pick items =
     (if items = [] then retc None
      else bindc (rng_int (int (length items))) (\<lambda>i. retc (Some (items ! nat i))))"

text \<open>The exchange loop of \<^verbatim>\<open>shuffled\<close>, from index \<open>i\<close> down to 1.\<close>

definition swap_at :: "nat \<Rightarrow> nat \<Rightarrow> 'a list \<Rightarrow> 'a list" where
  "swap_at i j xs = xs[i := xs ! j, j := xs ! i]"

fun shuffle_down :: "nat \<Rightarrow> 'a list \<Rightarrow> 'a list draw" where
  "shuffle_down 0 xs = retc xs"
| "shuffle_down (Suc i) xs =
     bindc (rng_int (int (Suc i) + 1)) (\<lambda>j. shuffle_down i (swap_at (Suc i) (nat j) xs))"

definition shuffled :: "'a list \<Rightarrow> 'a list draw" where
  "shuffled items = shuffle_down (length items - 1) items"

subsection \<open>Draws stay in range\<close>

text \<open>What a draw can return; it throws nothing.\<close>

definition draws :: "'a draw \<Rightarrow> ('a \<Rightarrow> bool) \<Rightarrow> bool" where
  "draws m Q \<longleftrightarrow> (\<forall>s. \<exists>v t. m s = (Inr v, t) \<and> Q v)"

named_theorems draw_intros "rules for what a draw returns"

lemma drawsD: "draws m Q \<Longrightarrow> \<exists>v t. m s = (Inr v, t) \<and> Q v"
  by (simp add: draws_def)

lemma draws_run: "draws m Q \<Longrightarrow> m s = (Inr v, t) \<Longrightarrow> Q v"
  by (metis drawsD prod.inject sum.inject(2))

lemma draws_weaken: "draws m Q \<Longrightarrow> (\<And>v. Q v \<Longrightarrow> R v) \<Longrightarrow> draws m R"
  unfolding draws_def by blast

lemma draws_retc [draw_intros]: "Q v \<Longrightarrow> draws (retc v) Q"
  by (simp add: draws_def)

lemma draws_bindc: "draws m R \<Longrightarrow> (\<And>v. R v \<Longrightarrow> draws (f v) Q) \<Longrightarrow> draws (bindc m f) Q"
  unfolding draws_def by (metis bindc_Inr)

lemma draws_if [draw_intros]: "(b \<Longrightarrow> draws m Q) \<Longrightarrow> (\<not> b \<Longrightarrow> draws n Q) \<Longrightarrow> draws (if b then m else n) Q"
  by simp

lemma draws_word [draw_intros]: "draws next_word (\<lambda>_. True)"
  by (simp add: draws_def next_word_def bindc_def)

lemma draws_chance [draw_intros]: "draws (chance p) (\<lambda>_. True)"
  unfolding chance_def by (rule draws_bindc [OF draws_word]) (simp add: draws_retc)

lemma scaled_below:
  assumes "0 < n"
  shows "0 \<le> uint (w :: u32) * n div 2 ^ 32" and "uint w * n div 2 ^ 32 < n"
proof -
  show "0 \<le> uint w * n div 2 ^ 32" using assms by (simp add: pos_imp_zdiv_nonneg_iff)
  have "uint w < 2 ^ 32" using uint_lt2p [of w] by simp
  then have "uint w * n < n * 2 ^ 32" using assms by (simp add: mult.commute)
  then show "uint w * n div 2 ^ 32 < n"
    by (simp add: div_less_iff_less_mult)
qed

lemma draws_int: "0 < n \<Longrightarrow> draws (rng_int n) (\<lambda>v. 0 \<le> v \<and> v < n)"
  unfolding rng_int_def by (rule draws_bindc [OF draws_word]) (simp only: draws_retc scaled_below)

lemma draws_between: "lo \<le> hi \<Longrightarrow> draws (between lo hi) (\<lambda>v. lo \<le> v \<and> v \<le> hi)"
  unfolding between_def by (rule draws_bindc [OF draws_int]) (auto intro: draws_retc)

lemma draws_index:
  assumes "items \<noteq> []"
  shows "draws (rng_int (int (length items))) (\<lambda>v. nat v < length items)"
  by (rule draws_weaken [OF draws_int]) (use assms in auto)

lemma draws_pick:
  assumes "items \<noteq> []"
  shows "draws (pick items) (\<lambda>v. v \<in> set items)"
  unfolding pick_def using assms
  by (simp only: if_False) (rule draws_bindc [OF draws_index], auto intro: draws_retc)

lemma draws_maybe_pick: "draws (maybe_pick items) (\<lambda>v. set_option v \<subseteq> set items \<and> (v = None \<longleftrightarrow> items = []))"
proof (cases "items = []")
  case True
  then show ?thesis unfolding maybe_pick_def by (simp add: draws_retc)
next
  case False
  then show ?thesis unfolding maybe_pick_def
    by (simp only: if_False) (rule draws_bindc [OF draws_index], auto intro: draws_retc)
qed

text \<open>
  \<^verbatim>\<open>Rng.between\<close> never leaves the closed interval it is asked for, and so \<^verbatim>\<open>int(n)\<close>,
  which indexes every list the generator picks from, stays below \<open>n\<close>.
\<close>

theorem between_bounds:
  assumes "lo \<le> hi"
  shows "\<exists>v t. between lo hi s = (Inr v, t) \<and> lo \<le> v \<and> v \<le> hi"
  by (rule drawsD [OF draws_between [OF assms]])

lemma between_bounds_witness: "\<exists>v t. between (- 2) 2 (rng_new 7) = (Inr v, t) \<and> - 2 \<le> v \<and> v \<le> 2"
  by (rule between_bounds) simp

subsection \<open>\<^verbatim>\<open>shuffled\<close>\<close>

lemma mset_swap_at:
  assumes "i < length xs" "j < length xs"
  shows "mset (swap_at i j xs) = mset xs" and "length (swap_at i j xs) = length xs"
  using assms by (simp_all add: swap_at_def mset_swap)

lemma draws_shuffle_down:
  "i < length xs \<or> i = 0 \<Longrightarrow> draws (shuffle_down i xs) (\<lambda>ys. mset ys = mset xs)"
proof (induction i arbitrary: xs)
  case 0
  then show ?case by (simp add: draws_def)
next
  case (Suc i)
  have "draws (shuffle_down i (swap_at (Suc i) (nat j) xs)) (\<lambda>ys. mset ys = mset xs)"
    if "0 \<le> j \<and> j < int (Suc i) + 1" for j
  proof -
    from that Suc.prems have "nat j < length xs" "Suc i < length xs" by auto
    note sw = mset_swap_at [OF this(2,1)]
    show ?thesis
      by (rule draws_weaken [OF Suc.IH]) (use Suc.prems sw in auto)
  qed
  then show ?case
    unfolding shuffle_down.simps by (intro draws_bindc [OF draws_int]) auto
qed

text \<open>
  \<^verbatim>\<open>shuffled\<close> returns a permutation of its argument whatever the state of the generator:
  no element is lost or repeated by the exchanges.
\<close>

theorem shuffled_permutes: "\<exists>ys t. shuffled items s = (Inr ys, t) \<and> mset ys = mset items"
  unfolding shuffled_def by (rule drawsD [OF draws_shuffle_down]) auto

subsection \<open>The period\<close>

lemma next_state_funpow: "(next_state ^^ k) s = s + of_nat k * 0x6d2b79f5"
  by (induction k) (simp_all add: next_state_def algebra_simps)

text \<open>
  The state of the generator returns to where it was after exactly the multiples of
  \<open>2^32\<close> draws: the increment is odd, so the sequence of states visits every word before it
  repeats one.
\<close>

theorem rng_full_period: "(next_state ^^ k) s = s \<longleftrightarrow> 2 ^ 32 dvd k"
proof -
  have "(next_state ^^ k) s = s \<longleftrightarrow> (of_nat (k * 0x6d2b79f5) :: u32) = 0"
    by (simp add: next_state_funpow)
  also have "\<dots> \<longleftrightarrow> 2 ^ 32 dvd k * 0x6d2b79f5"
    by (simp only: word_of_nat_eq_0_iff) simp
  also have "\<dots> \<longleftrightarrow> 2 ^ 32 dvd k"
  proof (rule coprime_dvd_mult_left_iff)
    have "coprime (2 :: nat) 0x6d2b79f5" by (simp add: coprime_left_2_iff_odd)
    then show "coprime (2 ^ 32 :: nat) 0x6d2b79f5" by (rule coprime_power_left_iff [THEN iffD2, OF disjI1])
  qed
  finally show ?thesis .
qed

end
