(* ===== verification/Batch.thy ===== *)
theory Batch
  imports Js_Text Rng
begin

section \<open>The batch file and its readers (\<^verbatim>\<open>fuzz/ts/lib/batch.ts\<close>)\<close>

text \<open>
  A batch carries many programs to one boot of the emulated target. Here: splitting a queue
  into batches that fit the flash window, the layout, the target's own cursor walk over it
  (\<^verbatim>\<open>main\<close> of \<^verbatim>\<open>fuzz/src/qemu-exec/exec_runner.cpp\<close>), the result lines it prints and
  \<^verbatim>\<open>parseResults\<close>, the coverage dump and \<^verbatim>\<open>unionCoverage\<close>, and the digest of the extension
  buffer. \<^verbatim>\<open>runQemu\<close> spawns the emulator; what it returns is the \<open>output\<close> the readers take.
\<close>

definition batch_magic :: u32 where "batch_magic = 0x50504c42"
definition batch_limit :: nat where "batch_limit = 0x20000"
definition program_max :: nat where "program_max = 4096"

record batch_entry =
  entry_bytes :: "u8 list"
  entry_args :: "u32 list"

subsection \<open>\<^verbatim>\<open>chunk\<close>\<close>

definition need :: "batch_entry \<Rightarrow> nat" where
  "need e = 4 + 4 + 4 * length (entry_args e) + length (entry_bytes e)"

text \<open>The loop over the entries: the chunk being filled and its size so far.\<close>

fun chunk_from :: "('a \<Rightarrow> nat) \<Rightarrow> 'a list \<Rightarrow> nat \<Rightarrow> 'a list \<Rightarrow> 'a list list" where
  "chunk_from nd current bytes [] = (if current = [] then [] else [current])"
| "chunk_from nd current bytes (e # es) =
     (if bytes + nd e > batch_limit \<and> current \<noteq> []
      then current # chunk_from nd [e] (8 + nd e) es
      else chunk_from nd (current @ [e]) (bytes + nd e) es)"

definition chunk :: "batch_entry list \<Rightarrow> batch_entry list list" where
  "chunk entries = chunk_from need [] 8 entries"

definition batch_size :: "batch_entry list \<Rightarrow> nat" where
  "batch_size es = 8 + sum_list (map need es)"

lemma chunk_from_concat: "concat (chunk_from nd cur n es) = cur @ es"
  by (induction nd cur n es rule: chunk_from.induct) auto

lemma chunk_from_ne: "[] \<notin> set (chunk_from nd cur n es)"
  by (induction nd cur n es rule: chunk_from.induct) auto

lemma chunk_from_fits:
  assumes "n = 8 + sum_list (map nd cur)" and "cur = [] \<or> length cur = 1 \<or> n \<le> batch_limit"
    and "c \<in> set (chunk_from nd cur n es)"
  shows "length c = 1 \<or> 8 + sum_list (map nd c) \<le> batch_limit"
  using assms
proof (induction nd cur n es rule: chunk_from.induct)
  case (1 nd cur n)
  then show ?case by (auto split: if_splits)
next
  case (2 nd cur n e es)
  show ?case
  proof (cases "n + nd e > batch_limit \<and> cur \<noteq> []")
    case True
    with 2 show ?thesis by auto
  next
    case False
    have "cur @ [e] = [] \<or> length (cur @ [e]) = 1 \<or> n + nd e \<le> batch_limit"
      using False by auto
    moreover have "n + nd e = 8 + sum_list (map nd (cur @ [e]))" using 2(3) by simp
    moreover have "c \<in> set (chunk_from nd (cur @ [e]) (n + nd e) es)"
      using 2(5) by (simp only: chunk_from.simps False if_False)
    ultimately show ?thesis using 2(2) [OF False] by blast
  qed
qed

text \<open>Consecutive chunks: the first entry of the later one did not fit the earlier one.\<close>

fun greedy :: "('a \<Rightarrow> nat) \<Rightarrow> 'a list list \<Rightarrow> bool" where
  "greedy nd (c # d # cs) \<longleftrightarrow>
     8 + sum_list (map nd c) + nd (hd d) > batch_limit \<and> greedy nd (d # cs)"
| "greedy nd _ \<longleftrightarrow> True"

lemma hd_chunk_from: "cur \<noteq> [] \<Longrightarrow> \<exists>c cs. chunk_from nd cur n es = c # cs \<and> hd c = hd cur"
proof (induction nd cur n es rule: chunk_from.induct)
  case (2 nd cur n e es)
  then show ?case by (cases "n + nd e > batch_limit \<and> cur \<noteq> []") auto
qed simp

lemma chunk_from_greedy:
  "n = 8 + sum_list (map nd cur) \<Longrightarrow> greedy nd (chunk_from nd cur n es)"
proof (induction nd cur n es rule: chunk_from.induct)
  case (2 nd cur n e es)
  show ?case
  proof (cases "n + nd e > batch_limit \<and> cur \<noteq> []")
    case True
    obtain c cs where "chunk_from nd [e] (8 + nd e) es = c # cs" "hd c = e"
      using hd_chunk_from [of "[e]" nd "8 + nd e" es] by auto
    with True 2 show ?thesis by auto
  next
    case False
    with 2 show ?thesis by auto
  qed
qed simp

text \<open>
  C40. \<^verbatim>\<open>chunk\<close> keeps every entry, in order, in non-empty chunks; no chunk that holds more
  than one entry outgrows the flash window; and it opens a chunk only when it has to, because
  the next entry would not have fitted.
\<close>

theorem chunk_correct:
  "concat (chunk es) = es \<and> [] \<notin> set (chunk es) \<and> greedy need (chunk es) \<and>
   list_all (\<lambda>c. length c = 1 \<or> batch_size c \<le> batch_limit) (chunk es)"
  using chunk_from_concat [of need "[]" 8 es] chunk_from_ne [of need "[]" 8 es]
    chunk_from_greedy [of 8 need "[]" es] chunk_from_fits [of 8 need "[]" _ es]
  by (auto simp: chunk_def batch_size_def list_all_iff)

subsection \<open>\<^verbatim>\<open>writeBatch\<close> and the target's reader\<close>

definition le32 :: "u32 \<Rightarrow> u8 list" where
  "le32 w = map (\<lambda>i. ucast (drop_bit (8 * i) w)) [0, 1, 2, 3]"

text \<open>The program's length and argument count as words, the arguments, the program.\<close>

definition entry_image :: "batch_entry \<Rightarrow> u8 list" where
  "entry_image e =
     le32 (of_nat (length (entry_bytes e))) @ le32 (of_nat (length (entry_args e)))
       @ concat (map le32 (entry_args e)) @ entry_bytes e"

definition write_batch :: "batch_entry list \<Rightarrow> u8 list" where
  "write_batch es = le32 batch_magic @ le32 (of_nat (length es)) @ concat (map entry_image es)"

text \<open>\<^verbatim>\<open>readU32\<close> of the target, and the cursor moved past it.\<close>

fun read_u32 :: "u8 list \<Rightarrow> (u32 \<times> u8 list) option" where
  "read_u32 (a # b # c # d # r) =
     Some (ucast a OR push_bit 8 (ucast b) OR push_bit 16 (ucast c) OR push_bit 24 (ucast d), r)"
| "read_u32 _ = None"

definition entry_args_max :: nat where "entry_args_max = 16"

fun read_words :: "nat \<Rightarrow> u8 list \<Rightarrow> (u32 list \<times> u8 list) option" where
  "read_words 0 bs = Some ([], bs)"
| "read_words (Suc n) bs =
     (case read_u32 bs of
        None \<Rightarrow> None
      | Some (w, r) \<Rightarrow> map_option (\<lambda>(ws, r'). (w # ws, r')) (read_words n r))"

text \<open>
  What \<^verbatim>\<open>main\<close> runs: the entries it reaches before its framing checks stop it. The window is
  the list; running off it is \<open>None\<close> of a read and a \<^verbatim>\<open>break\<close> of the code.
\<close>

fun read_entries :: "nat \<Rightarrow> u8 list \<Rightarrow> batch_entry list" where
  "read_entries 0 bs = []"
| "read_entries (Suc n) bs =
     (case read_u32 bs of
        None \<Rightarrow> []
      | Some (len, bs) \<Rightarrow>
          if len = 0 \<or> unat len > program_max \<or> unat len > length bs then []
          else (case read_u32 bs of
                  None \<Rightarrow> []
                | Some (argc, bs) \<Rightarrow>
                    if unat argc > entry_args_max then []
                    else (case read_words (unat argc) bs of
                            None \<Rightarrow> []
                          | Some (args, bs) \<Rightarrow>
                              if unat len > length bs then []
                              else \<lparr>entry_bytes = take (unat len) bs, entry_args = args\<rparr>
                                     # read_entries n (drop (unat len) bs))))"

text \<open>\<open>None\<close> is the fatal exit on a wrong magic number.\<close>

definition read_batch :: "u8 list \<Rightarrow> batch_entry list option" where
  "read_batch flash =
     (case read_u32 flash of
        Some (m, bs) \<Rightarrow>
          if m \<noteq> batch_magic then None
          else (case read_u32 bs of Some (n, bs) \<Rightarrow> Some (read_entries (unat n) bs) | None \<Rightarrow> None)
      | None \<Rightarrow> None)"

definition runnable :: "batch_entry \<Rightarrow> bool" where
  "runnable e \<longleftrightarrow> entry_bytes e \<noteq> [] \<and> length (entry_bytes e) \<le> program_max
     \<and> length (entry_args e) \<le> entry_args_max"

lemma read_le32 [simp]: "read_u32 (le32 w @ r) = Some (w, r)"
proof -
  have "ucast (ucast w :: u8) OR push_bit 8 (ucast (ucast (drop_bit 8 w) :: u8)) OR
    push_bit 16 (ucast (ucast (drop_bit 16 w) :: u8)) OR push_bit 24 (ucast (ucast (drop_bit 24 w) :: u8)) = w"
    apply (rule bit_word_eqI, auto simp: bit_simps)
    subgoal for n by (cases "n < 24") (simp_all add: not_less)
    done
  then show ?thesis by (simp add: le32_def)
qed

lemma length_le32 [simp]: "length (le32 w) = 4"
  by (simp add: le32_def)

lemma read_words_le32: "read_words (length ws) (concat (map le32 ws) @ r) = Some (ws, r)"
  by (induction ws) simp_all

lemma unat_small: "n < 2 ^ 32 \<Longrightarrow> unat (of_nat n :: u32) = n"
  by (simp add: unat_of_nat)

lemma read_entries_image:
  assumes "\<forall>e \<in> set es. runnable e"
  shows "read_entries (length es) (concat (map entry_image es) @ r) = es"
  using assms
proof (induction es)
  case (Cons e es)
  let ?n = "length (entry_bytes e)" and ?k = "length (entry_args e)"
  have ok: "0 < ?n" "?n \<le> program_max" "?k \<le> entry_args_max"
    using Cons.prems by (auto simp: runnable_def)
  then have n: "unat (of_nat ?n :: u32) = ?n" and k: "unat (of_nat ?k :: u32) = ?k"
    by (auto intro!: unat_small simp: program_max_def entry_args_max_def)
  have nz: "(of_nat ?n :: u32) \<noteq> 0" using n ok(1) by (metis less_irrefl unat_0)
  have img: "concat (map entry_image (e # es)) @ r =
      le32 (of_nat ?n) @ le32 (of_nat ?k) @ concat (map le32 (entry_args e)) @ entry_bytes e
        @ concat (map entry_image es) @ r"
    by (simp add: entry_image_def)
  show ?case
    unfolding img list.size(4) add_Suc_right add_0_right read_entries.simps
    using ok Cons by (simp add: n k nz read_words_le32)
qed simp

lemma read_batch_written:
  assumes "\<forall>e \<in> set es. runnable e" and "length es < 2 ^ 32"
  shows "read_batch (write_batch es @ rest) = Some es"
  using assms read_entries_image [OF assms(1), of rest]
  by (simp add: read_batch_def write_batch_def unat_small)



subsection \<open>Result lines\<close>

text \<open>\<^verbatim>\<open>TargetResult\<close>: how a program ended, with what value, and the digest printed after it.\<close>

record target_result =
  res_kind :: char
  res_value :: u32
  res_digest :: "u32 option"

definition is_result_line :: "string \<Rightarrow> bool" where
  "is_result_line l = (case l of k # c # r \<Rightarrow> k \<in> set ''RTEXA'' \<and> c = CHR '':'' | _ \<Rightarrow> False)"

definition read_line :: "target_result list \<Rightarrow> string \<Rightarrow> target_result list" where
  "read_line results raw =
     (let l = trim raw
      in if is_result_line l then
           results @ [\<lparr>res_kind = hd l, res_value = parse_u32 (drop 2 l), res_digest = None\<rparr>]
         else if starts_with ''M:'' l \<and> results \<noteq> [] then
           butlast results @ [last results\<lparr>res_digest := Some (parse_u32 (drop 2 l))\<rparr>]
         else results)"

definition parse_results :: "string \<Rightarrow> target_result list" where
  "parse_results output = foldl read_line [] (split_lines output)"

text \<open>\<^verbatim>\<open>semihostWriteTagged\<close> of the target: the tag, eight digits, a line end.\<close>

definition tagged :: "string \<Rightarrow> u32 \<Rightarrow> string" where
  "tagged tag w = tag @ hex_digits 8 (unat w)"

definition print_result :: "target_result \<Rightarrow> string" where
  "print_result r = tagged [res_kind r, CHR '':''] (res_value r) @ newline_char #
     (case res_digest r of None \<Rightarrow> [] | Some d \<Rightarrow> tagged ''M:'' d @ [newline_char])"

definition target_output :: "target_result list \<Rightarrow> string" where
  "target_output rs = concat (map print_result rs) @ tagged ''DONE:'' (of_nat (length rs)) @ [newline_char]"

lemma last_hex_digits: "\<not> is_space (last (hex_digits (Suc k) n))"
  by (simp add: hex_char_props)

lemma tagged_line:
  assumes "\<not> is_space (hd tag)" "tag \<noteq> []" "newline_char \<notin> set tag"
  shows "trim (tagged tag w) = tagged tag w" and "newline_char \<notin> set (tagged tag w)"
proof -
  have 8: "(8 :: nat) = Suc 7" by simp
  have "hex_digits 8 (unat w) \<noteq> []" unfolding 8 by (simp only: hex_digits.simps) simp
  then show "trim (tagged tag w) = tagged tag w"
    unfolding tagged_def 8 using assms(1,2) last_hex_digits [of 7 "unat w"]
    by (intro trim_id) (simp del: hex_digits.simps add: hd_append)
  show "newline_char \<notin> set (tagged tag w)"
    unfolding tagged_def using assms(3) hex_digits_plain(3) [of _ 8 "unat w"]
    by (auto simp del: hex_digits.simps)
qed

lemma tag_chars:
  "k \<in> set ''RTEXA'' \<Longrightarrow> \<not> is_space k \<and> k \<noteq> newline_char"
  "CHR '':'' \<noteq> newline_char" "\<not> is_space CHR ''M''" "\<not> is_space CHR ''D''" "newline_char \<notin> set ''DONE:''"
  "newline_char \<notin> set ''M:''"
  by (auto simp: is_space_def newline_char_def)

lemma read_tagged_result:
  assumes "k \<in> set ''RTEXA''"
  shows "read_line rs (tagged [k, CHR '':''] w) = rs @ [\<lparr>res_kind = k, res_value = w, res_digest = None\<rparr>]"
proof -
  have t: "trim (tagged [k, CHR '':''] w) = tagged [k, CHR '':''] w"
    by (rule tagged_line) (use assms tag_chars in auto)
  show ?thesis
    unfolding read_line_def t using assms
    by (simp add: tagged_def is_result_line_def parse_u32_digits del: hex_digits.simps)
qed

lemma read_tagged_digest:
  "read_line (rs @ [r]) (tagged ''M:'' w) = rs @ [r\<lparr>res_digest := Some w\<rparr>]"
proof -
  have t: "trim (tagged ''M:'' w) = tagged ''M:'' w"
    by (rule tagged_line) (use tag_chars in auto)
  show ?thesis
    unfolding read_line_def t
    by (simp add: tagged_def is_result_line_def starts_with_def parse_u32_digits del: hex_digits.simps)
qed

lemma read_other_tags:
  "read_line rs (tagged ''DONE:'' w) = rs" "read_line rs [] = rs"
proof -
  have t: "trim (tagged ''DONE:'' w) = tagged ''DONE:'' w"
    by (rule tagged_line) (use tag_chars in auto)
  show "read_line rs (tagged ''DONE:'' w) = rs"
    unfolding read_line_def t
    by (simp add: tagged_def is_result_line_def starts_with_def del: hex_digits.simps)
  show "read_line rs [] = rs"
    by (simp add: read_line_def trim_def is_result_line_def starts_with_def)
qed

lemma foldl_lines:
  "newline_char \<notin> set l \<Longrightarrow>
     foldl read_line rs (split_lines (l @ newline_char # s)) = foldl read_line (read_line rs l) (split_lines s)"
  by (simp add: split_lines_append)

lemma parse_print_result:
  assumes "res_kind r \<in> set ''RTEXA''"
  shows "foldl read_line rs (split_lines (print_result r @ s)) = foldl read_line (rs @ [r]) (split_lines s)"
proof -
  obtain k w d where r: "r = \<lparr>res_kind = k, res_value = w, res_digest = d\<rparr>" by (cases r)
  with assms have k: "k \<in> set ''RTEXA''" by simp
  have l: "newline_char \<notin> set (tagged [k, CHR '':''] w)"
    by (rule tagged_line) (use k tag_chars in auto)
  have m: "newline_char \<notin> set (tagged ''M:'' x)" for x
    by (rule tagged_line) (use tag_chars in auto)
  show ?thesis
    using foldl_lines [OF l] foldl_lines [OF m] read_tagged_result [OF k] read_tagged_digest
    by (cases d) (simp_all add: r print_result_def)
qed

lemma parse_print_results:
  assumes "\<forall>r \<in> set qs. res_kind r \<in> set ''RTEXA''"
  shows "foldl read_line rs (split_lines (concat (map print_result qs) @ s)) = foldl read_line (rs @ qs) (split_lines s)"
  using assms by (induction qs arbitrary: rs) (simp_all add: parse_print_result)

lemma parse_target_output:
  assumes "\<forall>r \<in> set rs. res_kind r \<in> set ''RTEXA''"
  shows "parse_results (target_output rs) = rs"
proof -
  let ?d = "tagged ''DONE:'' (of_nat (length rs))"
  have "newline_char \<notin> set ?d" by (rule tagged_line) (use tag_chars in auto)
  then have "foldl read_line rs (split_lines (?d @ [newline_char])) = rs"
    by (subst foldl_lines) (simp_all add: read_other_tags)
  then show ?thesis
    using parse_print_results [OF assms, of "[]" "?d @ [newline_char]"]
    by (simp add: parse_results_def target_output_def)
qed

text \<open>
  \<^verbatim>\<open>parseResults\<close> recovers from the target's output every program's result, in order, each
  with the digest printed after it: a result line never takes the digest of another.
\<close>

theorem results_roundtrip:
  assumes "\<forall>r \<in> set rs. res_kind r \<in> set ''RTEXA''"
  shows "parse_results (target_output rs) = rs"
  using assms by (rule parse_target_output)

lemma results_roundtrip_witness:
  "parse_results (target_output [\<lparr>res_kind = CHR ''R'', res_value = 7, res_digest = Some 0x811c9dc5\<rparr>,
     \<lparr>res_kind = CHR ''X'', res_value = 5000, res_digest = None\<rparr>])
   = [\<lparr>res_kind = CHR ''R'', res_value = 7, res_digest = Some 0x811c9dc5\<rparr>,
     \<lparr>res_kind = CHR ''X'', res_value = 5000, res_digest = None\<rparr>]"
  by (rule results_roundtrip) simp

subsection \<open>\<^verbatim>\<open>unionCoverage\<close>\<close>

definition pop_count :: "u8 \<Rightarrow> nat" where
  "pop_count b = length (filter (bit b) [0..<8])"

text \<open>The loop over the dump's digit pairs: how many bits it added, and the buffer after it.\<close>

fun union_pairs :: "string \<Rightarrow> u8 list \<Rightarrow> nat \<times> u8 list" where
  "union_pairs (a # b # hs) (x # xs) =
     (case parse_int16 [a, b] of
        None \<Rightarrow> (0, x # xs)
      | Some v \<Rightarrow>
          let byte = word_of_int v; r = union_pairs hs xs
          in (pop_count (byte AND NOT x) + fst r, (x OR byte) # snd r))"
| "union_pairs hs xs = (0, xs)"

definition union_coverage :: "string \<Rightarrow> u8 list \<Rightarrow> string + nat \<times> u8 list" where
  "union_coverage output into =
     (case find (starts_with ''COV:'') (map trim (split_lines output)) of
        None \<Rightarrow> Inr (0, into)
      | Some line \<Rightarrow>
          let hex = drop 4 line
          in if length hex > length into * 2 then Inl ''COV: line is longer than the union buffer''
             else Inr (union_pairs hex into))"

text \<open>\<^verbatim>\<open>covReport\<close> of the target: two digits per byte of its bitmap, on one line.\<close>

definition cov_line :: "u8 list \<Rightarrow> string" where
  "cov_line bs = ''COV:'' @ concat (map (\<lambda>b. hex_digits 2 (unat b)) bs)"

lemma parse_byte: "parse_int16 (hex_digits 2 (unat (b :: u8))) = Some (uint b)"
proof -
  have 2: "(2 :: nat) = Suc 1" by simp
  have "unat b < 16 ^ Suc 1" using unsigned_less [of b, where 'a = nat] by simp
  then have "unat b mod 16 ^ Suc 1 = unat b" by (rule mod_less)
  then show ?thesis unfolding 2 parse_int16_digits by simp
qed

lemma hex_pair: "\<exists>p q. hex_digits 2 n = [p, q]"
  using length_hex_digits [of 2 n] by (metis length_0_conv length_Suc_conv numeral_2_eq_2)

lemma union_pairs_dump:
  assumes "length bs \<le> length xs"
  shows "union_pairs (concat (map (\<lambda>b. hex_digits 2 (unat b)) bs)) xs =
    (sum_list (map2 (\<lambda>b x. pop_count (b AND NOT x)) bs xs), map2 (OR) xs bs @ drop (length bs) xs)"
  using assms
proof (induction bs arbitrary: xs)
  case Nil
  then show ?case by simp
next
  case (Cons b bs)
  then obtain x xs' where xs: "xs = x # xs'" "length bs \<le> length xs'" by (cases xs) auto
  obtain p q where pq: "hex_digits 2 (unat b) = [p, q]" using hex_pair by blast
  then have "parse_int16 [p, q] = Some (uint b)" using parse_byte [of b] by simp
  then show ?case using Cons.IH [OF xs(2)] by (simp add: xs(1) pq)
qed

lemma cov_line_plain: "trim (cov_line bs) = cov_line bs" "newline_char \<notin> set (cov_line bs)"
proof -
  let ?d = "concat (map (\<lambda>b. hex_digits 2 (unat b)) bs)"
  have d: "\<not> is_space c \<and> c \<noteq> newline_char" if "c \<in> set ?d" for c
  proof -
    from that obtain b :: u8 where "c \<in> set (hex_digits 2 (unat b))" by auto
    then show ?thesis using hex_digits_plain by blast
  qed
  have "\<not> is_space (last (cov_line bs))"
  proof (cases "?d = []")
    case True
    then show ?thesis by (simp only: cov_line_def) (simp add: is_space_def)
  next
    case False
    then have "last (cov_line bs) = last ?d" by (simp only: cov_line_def last_append if_False)
    with False d [of "last ?d"] show ?thesis by (simp only: last_in_set not_False_eq_True)
  qed
  then show "trim (cov_line bs) = cov_line bs"
    by (intro trim_id) (simp add: cov_line_def is_space_def)
  show "newline_char \<notin> set (cov_line bs)"
    using d unfolding cov_line_def by (auto simp: newline_char_def simp del: set_concat)
qed

lemma pop_count_card: "pop_count b = card {k. k < 8 \<and> bit b k}"
proof -
  have "{k. k < 8 \<and> bit b k} = set (filter (bit b) [0..<8])" by auto
  then show ?thesis unfolding pop_count_def by (simp only: distinct_card distinct_filter distinct_upt)
qed

lemma new_bits:
  assumes "length bs = length into"
  shows "sum_list (map2 (\<lambda>b x. pop_count (b AND NOT x)) bs into) =
    card {(i, k). i < length into \<and> k < 8 \<and> bit (bs ! i) k \<and> \<not> bit (into ! i) k}"
proof -
  let ?B = "\<lambda>i. {k. k < 8 \<and> bit (bs ! i) k \<and> \<not> bit (into ! i) k}"
  have "{(i, k). i < length into \<and> k < 8 \<and> bit (bs ! i) k \<and> \<not> bit (into ! i) k} = Sigma {..<length into} ?B"
    by auto
  then have "card {(i, k). i < length into \<and> k < 8 \<and> bit (bs ! i) k \<and> \<not> bit (into ! i) k}
      = (\<Sum>i < length into. card (?B i))"
    by (simp add: card_SigmaI)
  moreover have "pop_count (bs ! i AND NOT (into ! i)) = card (?B i)" for i
    unfolding pop_count_card by (rule arg_cong [where f = card]) (auto simp: bit_simps)
  ultimately show ?thesis
    using assms by (simp add: sum_list_sum_nth atLeast0LessThan)
qed

lemma length_dump: "length (concat (map (\<lambda>b. hex_digits 2 (unat b)) bs)) = 2 * length bs"
  by (induction bs) (simp_all del: hex_digits.simps)

lemma find_dump:
  assumes "list_all (\<lambda>l. \<not> starts_with ''COV:'' (trim l) \<and> newline_char \<notin> set l) before"
  shows "find (starts_with ''COV:'')
    (map trim (split_lines (concat (map (\<lambda>l. l @ [newline_char]) before) @ cov_line bs @ newline_char # rest)))
    = Some (cov_line bs)"
  using assms
proof (induction before)
  case Nil
  have "starts_with ''COV:'' (cov_line bs)" by (simp add: cov_line_def starts_with_def)
  then show ?case by (simp add: split_lines_append cov_line_plain)
next
  case (Cons l ls)
  then show ?case by (simp add: split_lines_append)
qed

text \<open>
  Reading the target's dump unions its bitmap into the buffer bit by bit, and the number
  returned is the number of bits that were not there: a campaign told \<open>0\<close> has reached nothing
  new.
\<close>

theorem union_coverage_correct:
  assumes "length bs = length into" and "list_all (\<lambda>l. \<not> starts_with ''COV:'' (trim l) \<and> newline_char \<notin> set l) before"
  shows "union_coverage (concat (map (\<lambda>l. l @ [newline_char]) before) @ cov_line bs @ newline_char # rest) into
    = Inr (card {(i, k). i < length into \<and> k < 8 \<and> bit (bs ! i) k \<and> \<not> bit (into ! i) k}, map2 (OR) into bs)"
  unfolding union_coverage_def find_dump [OF assms(2)]
  using union_pairs_dump [of bs into] new_bits [OF assms(1)] length_dump [of bs] assms(1)
  by (simp add: cov_line_def del: hex_digits.simps)

lemma union_coverage_correct_witness:
  "union_coverage (concat (map (\<lambda>l. l @ [newline_char]) [''R:7'']) @ cov_line [5, 0x80] @ newline_char # ''DONE'') [1, 0]
    = Inr (card {(i, k). i < length [1 :: u8, 0] \<and> k < 8 \<and> bit ([5 :: u8, 0x80] ! i) k \<and> \<not> bit ([1 :: u8, 0] ! i) k},
        map2 (OR) [1, 0] [5, 0x80])"
  by (rule union_coverage_correct) (simp_all add: starts_with_def trim_def is_space_def newline_char_def)

subsection \<open>\<^verbatim>\<open>digestOf\<close>\<close>

definition fnv_prime :: u32 where "fnv_prime = 16777619"
definition fnv_basis :: u32 where "fnv_basis = 2166136261"

definition digest_step :: "u32 \<Rightarrow> u8 \<Rightarrow> u32" where
  "digest_step h b = (h XOR ucast b) * fnv_prime"

definition digest_of :: "u8 list \<Rightarrow> u32" where
  "digest_of mem = foldl digest_step fnv_basis mem"

lemma fnv_prime_cancel:
  assumes "(x :: u32) * fnv_prime = y * fnv_prime"
  shows "x = y"
proof -
  have inv: "fnv_prime * 0x359c449b = 1" by (simp add: fnv_prime_def)
  have "x * fnv_prime * 0x359c449b = y * fnv_prime * 0x359c449b" using assms by simp
  then show ?thesis using inv by (simp add: mult.assoc)
qed

lemma xor_cancel: "(x :: u32) XOR z = y XOR z \<Longrightarrow> x = y"
  by (drule arg_cong [where f = "\<lambda>v. v XOR z"]) (simp add: xor.assoc)

lemma byte_word_inj: "(ucast (b :: u8) :: u32) = ucast c \<Longrightarrow> b = c"
  by transfer (simp add: min_def)

lemma digest_step_inj:
  assumes "digest_step h b = digest_step h' c"
  shows "b = c \<Longrightarrow> h = h'" and "h = h' \<Longrightarrow> b = c"
proof -
  have eq: "h XOR ucast b = h' XOR ucast c"
    using assms unfolding digest_step_def by (rule fnv_prime_cancel)
  show "h = h'" if "b = c" using eq that xor_cancel by blast
  show "b = c" if "h = h'"
    using eq that xor_cancel [of "ucast b" h "ucast c"] byte_word_inj by (simp add: xor.commute)
qed

lemma digest_tail_inj: "foldl digest_step h t = foldl digest_step h' t \<Longrightarrow> h = h'"
  by (induction t arbitrary: h h') (auto dest: digest_step_inj(1))

text \<open>
  Two buffers that differ in exactly one byte have different digests, so one wrong byte
  stored by emitted code is never missed by the comparison of digests.
\<close>

theorem digest_sees_one_byte:
  assumes "i < length mem" and "mem ! i \<noteq> b"
  shows "digest_of (mem[i := b]) \<noteq> digest_of mem"
proof
  assume eq: "digest_of (mem[i := b]) = digest_of mem"
  let ?h = "foldl digest_step fnv_basis (take i mem)"
  have "foldl digest_step (digest_step ?h b) (drop (Suc i) mem) = foldl digest_step (digest_step ?h (mem ! i)) (drop (Suc i) mem)"
    using eq assms(1) unfolding digest_of_def
    by (subst (asm) upd_conv_take_nth_drop, simp, subst (asm) (2) id_take_nth_drop [of i mem], simp) simp
  then have "b = mem ! i" using digest_tail_inj digest_step_inj(2) by blast
  with assms(2) show False by simp
qed

lemma digest_sees_one_byte_witness: "digest_of ([1, 2, 3][1 := 5]) \<noteq> digest_of [1, 2, 3]"
  by (rule digest_sees_one_byte) simp_all

end
