(* ===== verification/Cov_Map.thy ===== *)
theory Cov_Map
  imports Js_Text
begin

section \<open>The coverage bitmap read back against its image (\<^verbatim>\<open>fuzz/ts/lib/cov_map.ts\<close>)\<close>

text \<open>
  \<^verbatim>\<open>covMap\<close> finds the instrumented basic blocks in the disassembly, \<^verbatim>\<open>darkFunctions\<close> says which
  functions hold a block no run has reached. The toolchain's programs are parameters: the text
  \<^verbatim>\<open>objdump\<close>, \<^verbatim>\<open>nm\<close>, \<^verbatim>\<open>addr2line\<close> and \<^verbatim>\<open>c++filt\<close> print, \<open>None\<close> where the program failed, and
  \<^verbatim>\<open>localeCompare\<close> (a Unicode collation) as \<open>before\<close>.
\<close>

record cov_site =
  site_addr :: nat
  site_func :: string
  site_bucket :: nat

text \<open>\<^verbatim>\<open>(blSite + 4) >>> 2\<close> of an address of the image.\<close>

definition bucket_of :: "nat \<Rightarrow> nat" where
  "bucket_of bl = (bl + 4) div 4"

subsection \<open>Reading the disassembly\<close>

definition is_hex_lower :: "char \<Rightarrow> bool" where
  "is_hex_lower c \<longleftrightarrow> c \<in> set ''0123456789abcdef''"

text \<open>\<^verbatim>\<open>/^[0-9a-f]{8} <(.+)>:/\<close>: the greedy group ends at the last \<open>>:\<close> of the line.\<close>

fun upto_last :: "string \<Rightarrow> string \<Rightarrow> string option" where
  "upto_last mark [] = None"
| "upto_last mark (c # cs) =
     (case upto_last mark cs of
        Some r \<Rightarrow> Some (c # r)
      | None \<Rightarrow> if starts_with mark (c # cs) then Some [] else None)"

definition head_line :: "string \<Rightarrow> string option" where
  "head_line l =
     (if 10 \<le> length l \<and> list_all is_hex_lower (take 8 l) \<and> take 2 (drop 8 l) = '' <''
      then (case upto_last ''>:'' (drop 10 l) of Some (c # cs) \<Rightarrow> Some (c # cs) | _ \<Rightarrow> None)
      else None)"

text \<open>
  \<^verbatim>\<open>/^\s*([0-9a-f]+):\s.*\sbl\s+.*<__sanitizer_cov_trace_pc>/\<close>: the address, a colon and a
  space, and further on a \<open>bl\<close> between spaces before the call's target.
\<close>

fun has_suffix_with :: "(string \<Rightarrow> bool) \<Rightarrow> string \<Rightarrow> bool" where
  "has_suffix_with p [] \<longleftrightarrow> p []"
| "has_suffix_with p (c # cs) \<longleftrightarrow> p (c # cs) \<or> has_suffix_with p cs"

definition calls_trace :: "string \<Rightarrow> bool" where
  "calls_trace = has_suffix_with (\<lambda>t. case t of
       a # b # l # s # r \<Rightarrow> is_space a \<and> b = CHR ''b'' \<and> l = CHR ''l'' \<and> is_space s
         \<and> has_suffix_with (starts_with ''<__sanitizer_cov_trace_pc>'') r
     | _ \<Rightarrow> False)"

definition site_line :: "string \<Rightarrow> nat option" where
  "site_line l =
     (let t = dropWhile is_space l; digits = takeWhile is_hex_lower t
      in case dropWhile is_hex_lower t of
           c # s # r \<Rightarrow>
             if digits \<noteq> [] \<and> c = CHR '':'' \<and> is_space s \<and> calls_trace r
             then Some (read_hex 0 digits) else None
         | _ \<Rightarrow> None)"

text \<open>The loop over the lines: the function being read and the sites found.\<close>

fun scan_sites :: "string \<Rightarrow> string list \<Rightarrow> cov_site list" where
  "scan_sites func [] = []"
| "scan_sites func (l # ls) =
     (case head_line l of
        Some f \<Rightarrow> scan_sites f ls
      | None \<Rightarrow>
          (case site_line l of
             Some a \<Rightarrow> \<lparr>site_addr = a, site_func = func, site_bucket = bucket_of a\<rparr> # scan_sites func ls
           | None \<Rightarrow> scan_sites func ls))"

record cov_map =
  map_sites :: "cov_site list"
  map_buckets :: "nat set"
  map_bitmap_bytes :: nat

definition cov_map :: "string option \<Rightarrow> nat option \<Rightarrow> cov_map option" where
  "cov_map objdump bitmap_bytes =
     (case objdump of
        None \<Rightarrow> None
      | Some out \<Rightarrow>
          let sites = scan_sites ''?'' (split_lines out)
          in if sites = [] then None
             else Some \<lparr>map_sites = sites, map_buckets = site_bucket ` set sites,
               map_bitmap_bytes = (case bitmap_bytes of None \<Rightarrow> 0 | Some n \<Rightarrow> n)\<rparr>)"

subsection \<open>Dark functions\<close>

definition bit_set :: "u8 list \<Rightarrow> nat \<Rightarrow> bool" where
  "bit_set bits b = bit (nth_default 0 bits (b div 8)) (b mod 8)"

record dark_row =
  row_func :: string
  row_dark :: nat
  row_total :: nat
  row_addrs :: "nat list"

text \<open>One site counted into its function's row; a \<^verbatim>\<open>Map\<close> keeps rows in the order met.\<close>

definition count_site :: "(nat \<Rightarrow> bool) \<Rightarrow> cov_site \<Rightarrow> dark_row \<Rightarrow> dark_row" where
  "count_site lit s r =
     (if lit (site_bucket s) then r\<lparr>row_total := row_total r + 1\<rparr>
      else r\<lparr>row_total := row_total r + 1, row_dark := row_dark r + 1, row_addrs := row_addrs r @ [site_addr s]\<rparr>)"

fun add_site :: "(nat \<Rightarrow> bool) \<Rightarrow> cov_site \<Rightarrow> dark_row list \<Rightarrow> dark_row list" where
  "add_site lit s [] =
     [count_site lit s \<lparr>row_func = site_func s, row_dark = 0, row_total = 0, row_addrs = []\<rparr>]"
| "add_site lit s (r # rs) =
     (if row_func r = site_func s then count_site lit s r # rs else r # add_site lit s rs)"

definition dark_table :: "(nat \<Rightarrow> bool) \<Rightarrow> cov_site list \<Rightarrow> dark_row list" where
  "dark_table lit sites = foldl (\<lambda>rs s. add_site lit s rs) [] sites"

text \<open>Worst first, ties by name; \<^verbatim>\<open>sort\<close> is stable.\<close>

definition row_before :: "(string \<Rightarrow> string \<Rightarrow> bool) \<Rightarrow> dark_row \<Rightarrow> dark_row \<Rightarrow> bool" where
  "row_before before a b \<longleftrightarrow>
     row_dark b < row_dark a \<or> row_dark a = row_dark b \<and> before (row_func a) (row_func b)"

fun insert_row :: "(dark_row \<Rightarrow> dark_row \<Rightarrow> bool) \<Rightarrow> dark_row \<Rightarrow> dark_row list \<Rightarrow> dark_row list" where
  "insert_row lt r [] = [r]"
| "insert_row lt r (q # qs) = (if lt q r then q # insert_row lt r qs else r # q # qs)"

definition dark_rows :: "(string \<Rightarrow> string \<Rightarrow> bool) \<Rightarrow> cov_map \<Rightarrow> u8 list \<Rightarrow> dark_row list" where
  "dark_rows before m bits =
     foldr (insert_row (row_before before)) (filter (\<lambda>r. 0 < row_dark r) (dark_table (bit_set bits) (map_sites m))) []"

text \<open>The lines \<^verbatim>\<open>addr2line\<close> resolves a row's addresses to, duplicates and unknown ones dropped.\<close>

definition row_lines :: "string list \<Rightarrow> string list" where
  "row_lines at = filter (\<lambda>l. \<not> starts_with ''??'' l \<and> \<not> starts_with ''?:'' (rev l)) (rev (remdups (rev at)))"

text \<open>A demangled name without its signature.\<close>

definition short_name :: "string \<Rightarrow> string" where
  "short_name f = takeWhile (\<lambda>c. c \<noteq> CHR ''('') f"

text \<open>
  \<^verbatim>\<open>loadCoverage\<close>: the saved bitmap and the saved stamp of its image, \<open>None\<close> for a missing
  file, against the stamp of the image at hand (a parameter, a hash of the file).
\<close>

definition load_coverage :: "u8 list option \<Rightarrow> string option \<Rightarrow> string \<Rightarrow> string + u8 list option" where
  "load_coverage saved stamp current =
     (case saved of
        None \<Rightarrow> Inr None
      | Some bits \<Rightarrow>
          if (case stamp of None \<Rightarrow> [] | Some t \<Rightarrow> trim t) \<noteq> current
          then Inl ''taken from a different build'' else Inr (Some bits))"

definition save_coverage :: "u8 list \<Rightarrow> string \<Rightarrow> u8 list option \<times> string option" where
  "save_coverage bits stamp = (Some bits, Some stamp)"

subsection \<open>One block, one bit\<close>

text \<open>
  A bit of the bitmap belongs to one basic block: two instrumented blocks, whose opening
  \<^verbatim>\<open>bl\<close> instructions lie at least the four bytes of a \<^verbatim>\<open>bl\<close> apart, never share a bucket; and the
  Thumb bit of a return address does not move it to another bucket.
\<close>

theorem buckets_separate:
  assumes "a + 4 \<le> b" and "even a"
  shows "bucket_of a < bucket_of b \<and> bucket_of (a + 1) = bucket_of a"
proof
  have "(a + 4) div 4 + 1 = (a + 4 + 4) div 4" by simp
  also have "\<dots> \<le> (b + 4) div 4" using assms(1) by (intro div_le_mono) simp
  finally show "bucket_of a < bucket_of b" by (simp add: bucket_of_def)
  from assms(2) obtain c where "a = 2 * c" by (rule evenE)
  then show "bucket_of (a + 1) = bucket_of a" unfolding bucket_of_def by presburger
qed

lemma buckets_separate_witness:
  "bucket_of 0x4100 < bucket_of 0x4104 \<and> bucket_of (0x4100 + 1) = bucket_of 0x4100"
  by (rule buckets_separate) simp_all

subsection \<open>The table accounts for every site\<close>

definition of_func :: "string \<Rightarrow> cov_site list \<Rightarrow> cov_site list" where
  "of_func f sites = filter (\<lambda>s. site_func s = f) sites"

definition row_for :: "(nat \<Rightarrow> bool) \<Rightarrow> cov_site list \<Rightarrow> string \<Rightarrow> dark_row" where
  "row_for lit sites f =
     (let dark = filter (\<lambda>s. \<not> lit (site_bucket s)) (of_func f sites)
      in \<lparr>row_func = f, row_dark = length dark, row_total = length (of_func f sites), row_addrs = map site_addr dark\<rparr>)"

lemma row_for_func [simp]: "row_func (row_for lit sites f) = f"
  by (simp add: row_for_def Let_def)

lemma row_for_other: "site_func s \<noteq> f \<Longrightarrow> row_for lit (sites @ [s]) f = row_for lit sites f"
  by (simp add: row_for_def of_func_def)

lemma row_for_same: "row_for lit (sites @ [s]) (site_func s) = count_site lit s (row_for lit sites (site_func s))"
  by (simp add: row_for_def of_func_def count_site_def Let_def)

lemma row_for_new: "f \<notin> site_func ` set sites \<Longrightarrow> row_for lit sites f = \<lparr>row_func = f, row_dark = 0, row_total = 0, row_addrs = []\<rparr>"
proof -
  assume "f \<notin> site_func ` set sites"
  then have "of_func f sites = []" by (auto simp: of_func_def filter_empty_conv)
  then show ?thesis by (simp add: row_for_def)
qed

lemma add_site_rows:
  assumes "distinct fs"
  shows "site_func s \<in> set fs \<Longrightarrow>
      add_site lit s (map (row_for lit sites) fs) = map (row_for lit (sites @ [s])) fs"
    and "site_func s \<notin> set fs \<Longrightarrow> site_func s \<notin> site_func ` set sites \<Longrightarrow>
      add_site lit s (map (row_for lit sites) fs) = map (row_for lit (sites @ [s])) (fs @ [site_func s])"
  using assms
proof (induction fs)
  case (Cons f fs)
  {
    case 1
    have "row_for lit (sites @ [s]) x = row_for lit sites x" if "x \<noteq> site_func s" for x
      using that by (simp add: row_for_other)
    with 1 Cons show ?case by (auto simp: row_for_same intro!: map_cong [OF refl]) metis+
  next
    case 2
    with Cons show ?case by (auto simp: row_for_other)
  }
qed (simp_all add: row_for_same row_for_new)

lemma dark_table_rows:
  "\<exists>fs. dark_table lit sites = map (row_for lit sites) fs \<and> distinct fs \<and> set fs = site_func ` set sites"
proof (induction sites rule: rev_induct)
  case (snoc s sites)
  then obtain fs where fs: "dark_table lit sites = map (row_for lit sites) fs" "distinct fs" "set fs = site_func ` set sites"
    by blast
  have step: "dark_table lit (sites @ [s]) = add_site lit s (map (row_for lit sites) fs)"
    using fs(1) by (simp add: dark_table_def)
  show ?case
  proof (cases "site_func s \<in> set fs")
    case True
    with add_site_rows(1) [OF fs(2) True] fs step show ?thesis by (intro exI [of _ fs]) auto
  next
    case False
    with add_site_rows(2) [OF fs(2) False] fs step show ?thesis
      by (intro exI [of _ "fs @ [site_func s]"]) auto
  qed
qed (simp add: dark_table_def)

lemma set_insert_row: "set (insert_row lt r qs) = insert r (set qs)"
  by (induction qs) auto

lemma set_insert_rows: "set (foldr (insert_row lt) rs []) = set rs"
  by (induction rs) (simp_all add: set_insert_row)

lemma insert_row_sorted:
  "sorted_wrt (\<lambda>a b. row_dark b \<le> row_dark a) qs \<Longrightarrow>
     sorted_wrt (\<lambda>a b. row_dark b \<le> row_dark a) (insert_row (row_before before) r qs)"
proof (induction qs)
  case (Cons q qs)
  then show ?case
    by (cases "row_before before q r") (auto simp: set_insert_row row_before_def)
qed simp

text \<open>
  \<^verbatim>\<open>darkFunctions\<close> reports a function exactly when one of its blocks has its bit clear, with
  the number of its blocks, of the dark ones and their addresses, the worst function first.
\<close>

theorem dark_rows_account:
  "set (dark_rows before m bits) =
     row_for (bit_set bits) (map_sites m) ` {site_func s |s. s \<in> set (map_sites m) \<and> \<not> bit_set bits (site_bucket s)}
   \<and> sorted_wrt (\<lambda>a b. row_dark b \<le> row_dark a) (dark_rows before m bits)"
proof
  let ?lit = "bit_set bits" and ?ss = "map_sites m"
  obtain fs where fs: "dark_table ?lit ?ss = map (row_for ?lit ?ss) fs" "set fs = site_func ` set ?ss"
    using dark_table_rows by blast
  have "0 < row_dark (row_for ?lit ?ss f) \<longleftrightarrow> (\<exists>s \<in> set ?ss. site_func s = f \<and> \<not> ?lit (site_bucket s))" for f
    by (auto simp: row_for_def of_func_def Let_def filter_empty_conv)
  then have "{f \<in> set fs. 0 < row_dark (row_for ?lit ?ss f)} = {site_func s |s. s \<in> set ?ss \<and> \<not> ?lit (site_bucket s)}"
    using fs(2) by (auto intro: imageI) (metis)
  moreover have "set (dark_rows before m bits) = row_for ?lit ?ss ` {f \<in> set fs. 0 < row_dark (row_for ?lit ?ss f)}"
    unfolding dark_rows_def set_insert_rows fs(1) by auto
  ultimately show "set (dark_rows before m bits) =
     row_for ?lit ?ss ` {site_func s |s. s \<in> set ?ss \<and> \<not> ?lit (site_bucket s)}"
    by simp
  have "sorted_wrt (\<lambda>a b. row_dark b \<le> row_dark a) (foldr (insert_row (row_before before)) rs [])" for rs
    by (induction rs) (simp_all add: insert_row_sorted)
  then show "sorted_wrt (\<lambda>a b. row_dark b \<le> row_dark a) (dark_rows before m bits)"
    unfolding dark_rows_def .
qed

end
