(* ===== verification/Tiling.thy ===== *)
theory Tiling
  imports Raw_Mem
begin

section \<open>Tiling extension calls (\<^verbatim>\<open>seqNode\<close> and the rule hooks)\<close>

text \<open>
  The rules an extension hands to the lowerer build an \<^verbatim>\<open>RtlNode\<close>: the instructions that
  compute a call, where its value ends up, how the operand stack moves and how deep it gets.
  The lowerer trusts those numbers. An instruction is of an arbitrary type \<open>'i\<close>, with the
  extension instruction, \<^verbatim>\<open>PUSH\<close> and mog-core's \<^verbatim>\<open>unaryNode\<close> and \<^verbatim>\<open>unaryTosNode\<close> as
  parameters. A node is \<open>honest\<close> when its numbers are those of its instructions run one after
  the other; both extensions' composition keeps nodes honest.
\<close>

datatype loc = Acc | Tos

record 'i node =
  node_output :: "loc list"
  node_fragment :: "'i list"
  node_clobbers :: "loc set"
  node_delta :: int
  node_max :: int

subsection \<open>\<^verbatim>\<open>seqNode\<close> of the raw-memory extension\<close>

text \<open>The walk over the children: depth so far and the peak.\<close>

fun walk_children :: "'i node list \<Rightarrow> int \<Rightarrow> int \<Rightarrow> int \<times> int" where
  "walk_children [] running peak = (running, peak)"
| "walk_children (c # cs) running peak =
     walk_children cs (running + node_delta c) (max peak (running + node_max c))"

definition rawmem_seq_node :: "'i \<Rightarrow> 'i node list \<Rightarrow> 'i \<Rightarrow> loc \<Rightarrow> op_effect \<Rightarrow> 'i node" where
  "rawmem_seq_node push children op demand effect =
     (let (running, m) = walk_children children 0 0;
          m = max m (running + max_transient effect);
          after = running + tos_delta effect;
          fragment = concat (map node_fragment children) @ [op];
          clobbers = \<Union> (set (map node_clobbers children));
          clobbers = (if demand = Tos then clobbers \<union> {Acc} - {Tos} else clobbers - {Acc});
          clobbers = (if kills_acc effect then clobbers \<union> {Acc} else clobbers)
      in if demand = Tos
         then \<lparr>node_output = [Tos], node_fragment = fragment @ [push], node_clobbers = clobbers,
               node_delta = after + 1, node_max = max m (after + 1)\<rparr>
         else \<lparr>node_output = [Acc], node_fragment = fragment, node_clobbers = clobbers,
               node_delta = after, node_max = m\<rparr>)"

subsection \<open>\<^verbatim>\<open>rawMemRules\<close>\<close>

text \<open>A rule: its name, the builtin it tiles, where each argument is wanted, the node it builds.\<close>

record 'i tiling_rule =
  rule_name :: string
  rule_builtin :: string
  rule_demands :: "loc list"
  rule_op :: string
  rule_build :: "'i node list \<Rightarrow> 'i node"

definition lower_char :: "char \<Rightarrow> char" where
  "lower_char c = (let n = of_char c :: nat in if 65 \<le> n \<and> n \<le> 90 then char_of (n + 32) else c)"

definition to_lower :: "string \<Rightarrow> string" where
  "to_lower s = map lower_char s"

definition table_effect :: "(string \<times> op_effect) list \<Rightarrow> string \<Rightarrow> op_effect" where
  "table_effect t n = the (map_of t n)"

definition load_rules ::
  "(string \<Rightarrow> int list \<Rightarrow> 'i) \<Rightarrow> ('i node \<Rightarrow> loc list \<Rightarrow> 'i list \<Rightarrow> 'i node)
    \<Rightarrow> ('i node \<Rightarrow> 'i list \<Rightarrow> 'i node) \<Rightarrow> string \<Rightarrow> 'i tiling_rule list" where
  "load_rules ext unary_node unary_tos_node name =
     (let dsl = to_lower name; body = (\<lambda>ns. node_fragment (hd ns) @ [ext name []])
      in [\<lparr>rule_name = ''rawmem:'' @ dsl, rule_builtin = dsl, rule_demands = [Acc], rule_op = name,
           rule_build = \<lambda>ns. unary_node (hd ns) [Acc] (body ns)\<rparr>,
          \<lparr>rule_name = ''rawmem:'' @ dsl @ '':tos'', rule_builtin = dsl, rule_demands = [Acc], rule_op = name,
           rule_build = \<lambda>ns. unary_tos_node (hd ns) (body ns)\<rparr>])"

definition store_rules :: "'i \<Rightarrow> (string \<Rightarrow> int list \<Rightarrow> 'i) \<Rightarrow> string \<Rightarrow> 'i tiling_rule list" where
  "store_rules push ext name =
     (let dsl = to_lower name;
          build = (\<lambda>demand ns. rawmem_seq_node push [ns ! 0, ns ! 1] (ext name []) demand
                     (table_effect rawmem_effects_table name))
      in [\<lparr>rule_name = ''rawmem:'' @ dsl, rule_builtin = dsl, rule_demands = [Tos, Acc], rule_op = name,
           rule_build = build Acc\<rparr>,
          \<lparr>rule_name = ''rawmem:'' @ dsl @ '':tos'', rule_builtin = dsl, rule_demands = [Tos, Acc], rule_op = name,
           rule_build = build Tos\<rparr>])"

definition stack_arity :: "(string \<times> nat) list" where
  "stack_arity = [(''MEMMOVE'', 3), (''MEMCMP'', 3), (''SLICECMP'', 4)]"

definition stack_rules :: "'i \<Rightarrow> (string \<Rightarrow> int list \<Rightarrow> 'i) \<Rightarrow> string \<times> nat \<Rightarrow> 'i tiling_rule list" where
  "stack_rules push ext entry =
     (let name = fst entry; dsl = to_lower name; args = replicate (snd entry) Tos;
          build = (\<lambda>demand ns. rawmem_seq_node push ns (ext name []) demand (table_effect rawmem_effects_table name))
      in \<lparr>rule_name = ''rawmem:'' @ dsl, rule_builtin = dsl, rule_demands = args, rule_op = name,
          rule_build = build Acc\<rparr>
         # (if name \<noteq> ''MEMMOVE''
            then [\<lparr>rule_name = ''rawmem:'' @ dsl @ '':tos'', rule_builtin = dsl, rule_demands = args, rule_op = name,
                   rule_build = build Tos\<rparr>]
            else []))"

definition rawmem_rules ::
  "'i \<Rightarrow> (string \<Rightarrow> int list \<Rightarrow> 'i) \<Rightarrow> ('i node \<Rightarrow> loc list \<Rightarrow> 'i list \<Rightarrow> 'i node)
    \<Rightarrow> ('i node \<Rightarrow> 'i list \<Rightarrow> 'i node) \<Rightarrow> 'i tiling_rule list" where
  "rawmem_rules push ext unary_node unary_tos_node =
     concat (map (load_rules ext unary_node unary_tos_node) [''LD8'', ''LD16'', ''LD32''])
     @ concat (map (store_rules push ext) [''ST8'', ''ST16'', ''ST32''])
     @ concat (map (stack_rules push ext) stack_arity)"

subsection \<open>What the numbers have to mean\<close>

text \<open>
  \<open>eff\<close> gives an instruction's change of the operand stack's depth and how far it rises above
  the depth it starts at while it runs. The depth after a fragment and the highest point of it:
\<close>

type_synonym 'i depth_effect = "'i \<Rightarrow> int \<times> int"

definition frag_delta :: "'i depth_effect \<Rightarrow> 'i list \<Rightarrow> int" where
  "frag_delta eff is = sum_list (map (fst \<circ> eff) is)"

fun frag_peak :: "'i depth_effect \<Rightarrow> 'i list \<Rightarrow> int" where
  "frag_peak eff [] = 0"
| "frag_peak eff (i # is) = max (max 0 (snd (eff i))) (fst (eff i) + frag_peak eff is)"

definition honest :: "'i depth_effect \<Rightarrow> 'i node \<Rightarrow> bool" where
  "honest eff n \<longleftrightarrow> node_delta n = frag_delta eff (node_fragment n) \<and> node_max n = frag_peak eff (node_fragment n)"

lemma frag_delta_simps [simp]:
  "frag_delta eff [] = 0" "frag_delta eff (i # is) = fst (eff i) + frag_delta eff is"
  "frag_delta eff (is @ js) = frag_delta eff is + frag_delta eff js"
  by (simp_all add: frag_delta_def)

lemma frag_peak_ge: "0 \<le> frag_peak eff is" "frag_delta eff is \<le> frag_peak eff is"
  by (induction "is") auto

lemma frag_peak_append:
  "frag_peak eff (is @ js) = max (frag_peak eff is) (frag_delta eff is + frag_peak eff js)"
proof (induction "is")
  case Nil
  then show ?case using frag_peak_ge(1) [of eff js] by simp
qed auto

lemma walk_children_peak:
  assumes "\<forall>c \<in> set cs. honest eff c" and "r \<le> p"
  shows "walk_children cs r p =
    (r + frag_delta eff (concat (map node_fragment cs)), max p (r + frag_peak eff (concat (map node_fragment cs))))"
  using assms
proof (induction cs arbitrary: r p)
  case (Cons c cs)
  then have c: "node_delta c = frag_delta eff (node_fragment c)" "node_max c = frag_peak eff (node_fragment c)"
    by (simp_all add: honest_def)
  have "r + node_delta c \<le> max p (r + node_max c)"
    using frag_peak_ge(2) [of eff "node_fragment c"] by (simp add: c le_max_iff_disj)
  with Cons c show ?case by (simp add: frag_peak_append)
qed simp

lemma seq_peak:
  assumes "fst (eff op) \<le> 0" and "0 \<le> snd (eff op)"
  shows "frag_peak eff (is @ [op]) = max (frag_peak eff is) (frag_delta eff is + snd (eff op))"
  using assms by (auto simp: frag_peak_append)

lemma seq_push_peak:
  assumes "fst (eff push) = 1" and "snd (eff push) \<le> 1"
  shows "frag_peak eff (is @ [push]) = max (frag_peak eff is) (frag_delta eff is + 1)"
  using assms by (auto simp: frag_peak_append)

lemma rawmem_seq_node_honest:
  assumes kids: "\<forall>c \<in> set cs. honest eff c"
    and op: "eff op = (tos_delta ef, max_transient ef)" "tos_delta ef \<le> 0" "0 \<le> max_transient ef"
    and push: "fst (eff push) = 1" "snd (eff push) \<le> 1"
  shows "honest eff (rawmem_seq_node push cs op demand ef)"
proof -
  let ?f = "concat (map node_fragment cs)"
  have w: "walk_children cs 0 0 = (frag_delta eff ?f, frag_peak eff ?f)"
    using walk_children_peak [OF kids, of 0 0] frag_peak_ge(1) [of eff ?f] by simp
  have p: "frag_peak eff (?f @ [op]) = max (frag_peak eff ?f) (frag_delta eff ?f + max_transient ef)"
    using seq_peak [of eff op ?f] op by simp
  have q: "frag_peak eff ((?f @ [op]) @ [push]) = max (frag_peak eff (?f @ [op])) (frag_delta eff (?f @ [op]) + 1)"
    by (rule seq_push_peak) (fact push)+
  show ?thesis
    using p q op(1) push(1) unfolding rawmem_seq_node_def w by (simp add: honest_def Let_def)
qed

text \<open>What mog-core's two unary builders do: the child's numbers, and a push after them.\<close>

definition unary_ok :: "('i node \<Rightarrow> loc list \<Rightarrow> 'i list \<Rightarrow> 'i node) \<Rightarrow> bool" where
  "unary_ok unary \<longleftrightarrow> (\<forall>n out is. node_fragment (unary n out is) = is
     \<and> node_delta (unary n out is) = node_delta n \<and> node_max (unary n out is) = node_max n)"

definition unary_tos_ok :: "'i \<Rightarrow> ('i node \<Rightarrow> 'i list \<Rightarrow> 'i node) \<Rightarrow> bool" where
  "unary_tos_ok push unary \<longleftrightarrow> (\<forall>n is. node_fragment (unary n is) = is @ [push]
     \<and> node_delta (unary n is) = node_delta n + 1 \<and> node_max (unary n is) = max (node_max n) (node_delta n + 1))"

definition table_faithful :: "'i depth_effect \<Rightarrow> (string \<Rightarrow> int list \<Rightarrow> 'i) \<Rightarrow> (string \<times> op_effect) list \<Rightarrow> bool" where
  "table_faithful eff ext t \<longleftrightarrow>
     (\<forall>(n, ef) \<in> set t. \<forall>ops. eff (ext n ops) = (tos_delta ef, max_transient ef))"

definition push_ok :: "'i depth_effect \<Rightarrow> 'i \<Rightarrow> bool" where
  "push_ok eff push \<longleftrightarrow> fst (eff push) = 1 \<and> snd (eff push) \<le> 1"

lemma honest_flat:
  assumes "honest eff n" "eff op = (0, 0)"
  shows "frag_delta eff (node_fragment n @ [op]) = node_delta n"
    and "frag_peak eff (node_fragment n @ [op]) = node_max n"
  using assms frag_peak_ge(2) [of eff "node_fragment n"] seq_peak [of eff op "node_fragment n"]
  by (simp_all add: honest_def)

lemma unary_honest:
  assumes "unary_ok unary" "honest eff n" "eff op = (0, 0)"
  shows "honest eff (unary n out (node_fragment n @ [op]))"
  using assms honest_flat [OF assms(2,3)] by (simp add: honest_def [of _ "unary _ _ _"] unary_ok_def del: frag_delta_simps)

lemma unary_tos_honest:
  assumes "unary_tos_ok push unary" "honest eff n" "eff op = (0, 0)" "push_ok eff push"
  shows "honest eff (unary n (node_fragment n @ [op]))"
proof -
  let ?is = "node_fragment n @ [op]"
  have "frag_peak eff (?is @ [push]) = max (frag_peak eff ?is) (frag_delta eff ?is + 1)"
    by (rule seq_push_peak) (use assms(4) in \<open>simp_all add: push_ok_def\<close>)
  moreover have "frag_delta eff (?is @ [push]) = frag_delta eff ?is + 1"
    using assms(4) by (simp add: push_ok_def)
  ultimately show ?thesis
    using assms(1) unfolding honest_def [of _ "unary _ _"] unary_tos_ok_def
    by (simp only: honest_flat [OF assms(2,3)])
qed

lemma rawmem_table_numbers:
  assumes "(n, ef) \<in> set rawmem_effects_table"
  shows "tos_delta ef \<le> 0" and "0 \<le> max_transient ef" and "table_effect rawmem_effects_table n = ef"
proof -
  have "list_all (\<lambda>(n, ef). tos_delta ef \<le> 0 \<and> 0 \<le> max_transient ef) rawmem_effects_table"
    by (simp add: rawmem_effects_table_def Let_def)
  with assms show "tos_delta ef \<le> 0" and "0 \<le> max_transient ef" by (auto simp: list_all_iff)
  have "distinct (map fst rawmem_effects_table)" by (simp add: rawmem_effects_table_def Let_def)
  with assms show "table_effect rawmem_effects_table n = ef" by (simp add: table_effect_def)
qed

lemma rawmem_table_entries:
  "name \<in> {''LD8'', ''LD16'', ''LD32''} \<Longrightarrow>
     (name, \<lparr>tos_delta = 0, max_transient = 0, reads_acc = True, writes_acc = True, kills_acc = False\<rparr>) \<in> set rawmem_effects_table"
  "name \<in> {''ST8'', ''ST16'', ''ST32''} \<Longrightarrow>
     (name, \<lparr>tos_delta = -1, max_transient = 0, reads_acc = True, writes_acc = False, kills_acc = False\<rparr>) \<in> set rawmem_effects_table"
  by (elim insertE emptyE; simp add: rawmem_effects_table_def Let_def)+

lemma rawmem_stack_entries:
  assumes "(name, k) \<in> set stack_arity"
  obtains ef where "(name, ef) \<in> set rawmem_effects_table" "tos_delta ef = - int k" "\<not> reads_acc ef"
proof -
  from assms have "(name, k) \<in> {(''MEMMOVE'', 3), (''MEMCMP'', 3), (''SLICECMP'', 4)}"
    by (simp add: stack_arity_def)
  then have "\<exists>ef. map_of rawmem_effects_table name = Some ef \<and> tos_delta ef = - int k \<and> \<not> reads_acc ef"
    by (elim insertE emptyE; simp add: rawmem_effects_table_def Let_def)
  with that show thesis by (blast dest: map_of_SomeD)
qed

definition rule_sound :: "'i depth_effect \<Rightarrow> (string \<times> op_effect) list \<Rightarrow> 'i tiling_rule \<Rightarrow> bool" where
  "rule_sound eff t r \<longleftrightarrow>
     (\<exists>ef. (rule_op r, ef) \<in> set t \<and> int (count_list (rule_demands r) Tos) = - tos_delta ef
        \<and> (Acc \<in> set (rule_demands r) \<longleftrightarrow> reads_acc ef))
     \<and> (\<forall>ns. length ns = length (rule_demands r) \<longrightarrow> (\<forall>n \<in> set ns. honest eff n) \<longrightarrow> honest eff (rule_build r ns))"

lemma rawmem_seq_sound:
  assumes "table_faithful eff ext rawmem_effects_table" "push_ok eff push"
    and "(name, ef) \<in> set rawmem_effects_table" and "\<forall>n \<in> set ns. honest eff n"
  shows "honest eff (rawmem_seq_node push ns (ext name []) demand (table_effect rawmem_effects_table name))"
  by (rule rawmem_seq_node_honest)
    (use assms rawmem_table_numbers [OF assms(3)] in \<open>auto simp: table_faithful_def push_ok_def\<close>)

lemma rawmem_rule_cases:
  assumes "r \<in> set (rawmem_rules push ext unary unary_tos)"
  obtains (load) name where "name \<in> {''LD8'', ''LD16'', ''LD32''}" "r \<in> set (load_rules ext unary unary_tos name)"
    | (store) name where "name \<in> {''ST8'', ''ST16'', ''ST32''}" "r \<in> set (store_rules push ext name)"
    | (stack) name k where "(name, k) \<in> set stack_arity" "r \<in> set (stack_rules push ext (name, k))"
proof -
  from assms consider "\<exists>name \<in> {''LD8'', ''LD16'', ''LD32''}. r \<in> set (load_rules ext unary unary_tos name)"
    | "\<exists>name \<in> {''ST8'', ''ST16'', ''ST32''}. r \<in> set (store_rules push ext name)"
    | "\<exists>x \<in> set stack_arity. r \<in> set (stack_rules push ext x)"
    unfolding rawmem_rules_def by (auto simp del: set_simps simp: set_concat)
  then show thesis by cases (use load store stack in auto)
qed


definition sample_effect :: "(string \<times> op_effect) list \<Rightarrow> (string \<times> int list) option depth_effect" where
  "sample_effect t i =
     (case i of
        None \<Rightarrow> (1, 1)
      | Some (n, _) \<Rightarrow> (case map_of t n of None \<Rightarrow> (0, 0) | Some ef \<Rightarrow> (tos_delta ef, max_transient ef)))"

definition sample_ext :: "string \<Rightarrow> int list \<Rightarrow> (string \<times> int list) option" where
  "sample_ext n ops = Some (n, ops)"

definition sample_unary :: "'i node \<Rightarrow> loc list \<Rightarrow> 'i list \<Rightarrow> 'i node" where
  "sample_unary n out is = n\<lparr>node_output := out, node_fragment := is\<rparr>"

definition sample_unary_tos :: "'i \<Rightarrow> 'i node \<Rightarrow> 'i list \<Rightarrow> 'i node" where
  "sample_unary_tos push n is =
     n\<lparr>node_output := [Tos], node_fragment := is @ [push], node_delta := node_delta n + 1,
       node_max := max (node_max n) (node_delta n + 1)\<rparr>"

lemma sample_hooks:
  "distinct (map fst t) \<Longrightarrow> table_faithful (sample_effect t) sample_ext t"
  "push_ok (sample_effect t) None" "unary_ok sample_unary" "unary_tos_ok push (sample_unary_tos push)"
  by (auto simp: table_faithful_def sample_effect_def sample_ext_def push_ok_def unary_ok_def sample_unary_def
      unary_tos_ok_def sample_unary_tos_def)


end
