(* ===== verification/Samp_Stream.thy ===== *)
theory Samp_Stream
  imports Tiling
begin

section \<open>The sample-stream extension (\<^verbatim>\<open>bench/ts/lib/sampstream_ext.ts\<close>)\<close>

text \<open>
  The I/O surface of the benchmark workloads: a ring of input samples, an output ring and a
  ring of trigger events, all indexed under a mask. The second extension of the repository and
  the second interpretation of \<open>ext_contract\<close>.
\<close>

definition samp_in_samples :: nat where "samp_in_samples = 4096"
definition samp_out_samples :: nat where "samp_out_samples = 1024"
definition samp_events :: nat where "samp_events = 32"
definition in_mask :: u32 where "in_mask = 4095"
definition out_mask :: u32 where "out_mask = 1023"
definition trigger_kind_bits :: nat where "trigger_kind_bits = 4"
definition trigger_max_kind :: int where "trigger_max_kind = 15"

definition sampstream_opcodes :: "(string \<times> nat) list" where
  "sampstream_opcodes = [(''SAMPLE_AT'', 0x80), (''OUT_AT'', 0x81), (''TRIGGER'', 0x82)]"

definition pack_event :: "u32 \<Rightarrow> int \<Rightarrow> u32" where
  "pack_event index kind =
     push_bit trigger_kind_bits index OR (to_u32 kind AND to_u32 trigger_max_kind)"

definition samp_effects_table :: "(string \<times> op_effect) list" where
  "samp_effects_table =
     [(''SAMPLE_AT'', \<lparr>tos_delta = 0, max_transient = 0, reads_acc = True, writes_acc = True, kills_acc = False\<rparr>),
      (''OUT_AT'', \<lparr>tos_delta = -1, max_transient = 0, reads_acc = True, writes_acc = False, kills_acc = False\<rparr>),
      (''TRIGGER'', \<lparr>tos_delta = 0, max_transient = 0, reads_acc = True, writes_acc = False, kills_acc = False\<rparr>)]"

definition samp_effects :: "string \<Rightarrow> op_effect option" where
  "samp_effects n = map_of samp_effects_table n"

subsection \<open>The buffers\<close>

text \<open>The count of events is a JavaScript number that is never masked.\<close>

record samp_mem =
  samp_input :: "16 word list"
  samp_output :: "16 word list"
  event_ring :: "u32 list"
  event_count :: nat

definition samp_ok :: "samp_mem \<Rightarrow> bool" where
  "samp_ok m \<longleftrightarrow> length (samp_input m) = samp_in_samples \<and> length (samp_output m) = samp_out_samples
     \<and> length (event_ring m) = samp_events"

definition samp_reset :: "samp_mem \<Rightarrow> samp_mem" where
  "samp_reset m = m\<lparr>samp_output := map (\<lambda>_. 0) (samp_output m), event_ring := map (\<lambda>_. 0) (event_ring m), event_count := 0\<rparr>"

definition samp_new :: samp_mem where
  "samp_new = \<lparr>samp_input = replicate samp_in_samples 0, samp_output = replicate samp_out_samples 0,
     event_ring = replicate samp_events 0, event_count = 0\<rparr>"

subsection \<open>\<^verbatim>\<open>exec\<close>\<close>

text \<open>A read of an \<^verbatim>\<open>Int16Array\<close> sign-extends, a write truncates.\<close>

definition sample_at :: "samp_mem \<Rightarrow> u32 \<Rightarrow> u32" where
  "sample_at m i = scast (nth_default 0 (samp_input m) (unat (i AND in_mask)))"

definition out_at :: "u32 \<Rightarrow> u32 \<Rightarrow> samp_mem \<Rightarrow> samp_mem" where
  "out_at i v m = m\<lparr>samp_output := (samp_output m)[unat (i AND out_mask) := ucast v]\<rparr>"

definition trigger :: "int \<Rightarrow> u32 \<Rightarrow> samp_mem \<Rightarrow> samp_mem" where
  "trigger kind i m = m\<lparr>event_ring := (event_ring m)[event_count m mod samp_events := pack_event i kind],
     event_count := event_count m + 1\<rparr>"

definition samp_exec :: "samp_mem ext_exec" where
  "samp_exec name operands =
     (if name = ''SAMPLE_AT'' then modifyc (\<lambda>s. s\<lparr>xacc := sample_at (xmem s) (xacc s)\<rparr>)
      else if name = ''OUT_AT'' then bindc pop_cell (\<lambda>i. modifyc (\<lambda>s. s\<lparr>xmem := out_at i (xacc s) (xmem s)\<rparr>))
      else if name = ''TRIGGER'' then
        modifyc (\<lambda>s. s\<lparr>xmem := trigger (case operands of [] \<Rightarrow> 0 | k # _ \<Rightarrow> k) (xacc s) (xmem s)\<rparr>)
      else throwc (''sampstream: unknown op '' @ name))"

lemma samp_effects_cases:
  assumes "samp_effects n = Some ef"
  obtains (sample) "n = ''SAMPLE_AT''" "popped ef = 0" "tos_delta ef = 0" "reads_acc ef" "writes_acc ef"
    | (out) "n = ''OUT_AT''" "popped ef = 1" "tos_delta ef = -1" "reads_acc ef" "\<not> writes_acc ef"
    | (trig) "n = ''TRIGGER''" "popped ef = 0" "tos_delta ef = 0" "reads_acc ef" "\<not> writes_acc ef"
  using assms by (auto simp: samp_effects_def samp_effects_table_def popped_def split: if_splits)

lemmas samp_run = samp_exec_def comp_defs pop_cell_def out_at_def trigger_def

interpretation samp: ext_contract samp_exec samp_effects samp_ok
proof
  fix n ef and s :: "samp_mem xstate" and ops :: "int list"
  assume ef: "samp_effects n = Some ef"
  show "tos_delta ef \<le> 0" by (cases rule: samp_effects_cases [OF ef]) auto
  note split = list.exhaust [of "xcells s"]
  show "\<exists>s'. samp_exec n ops s = (Inr (), s')" if "popped ef \<le> length (xcells s)"
    using that by (cases rule: samp_effects_cases [OF ef]; cases "xcells s") (auto simp: samp_run)
  show "xcells s' = drop (popped ef) (xcells s)" if "samp_exec n ops s = (Inr (), s')" for s'
    using that by (cases rule: samp_effects_cases [OF ef]; cases "xcells s") (auto simp: samp_run)
  show "\<exists>e s'. samp_exec n ops s = (Inl e, s') \<and> xmem s' = xmem s" if "length (xcells s) < popped ef"
    using that by (cases rule: samp_effects_cases [OF ef]; cases "xcells s") (auto simp: samp_run)
  show "xacc s' = xacc s" if "\<not> writes_acc ef" "samp_exec n ops s = (Inr (), s')" for s'
    using that by (cases rule: samp_effects_cases [OF ef]; cases "xcells s") (auto simp: samp_run)
  show "\<exists>s''. samp_exec n ops (s\<lparr>xacc := a\<rparr>) = (Inr (), s'') \<and> xmem s'' = xmem s'
      \<and> (writes_acc ef \<longrightarrow> xacc s'' = xacc s')"
    if "\<not> reads_acc ef" "samp_exec n ops s = (Inr (), s')" for s' a
    using that by (cases rule: samp_effects_cases [OF ef]) auto
next
  fix n and s s' :: "samp_mem xstate" and ops r
  assume "samp_ok (xmem s)" "samp_exec n ops s = (r, s')"
  then show "samp_ok (xmem s')"
    by (cases "xcells s") (auto simp: samp_run samp_ok_def split: if_splits)
next
  fix n and s :: "samp_mem xstate" and ops
  assume "samp_effects n = None"
  then show "\<exists>e. samp_exec n ops s = (Inl e, s)"
    by (auto simp: samp_exec_def samp_effects_def samp_effects_table_def throwc_def split: if_splits)
qed

definition sizes :: "samp_mem \<Rightarrow> nat \<times> nat \<times> nat" where
  "sizes m = (length (samp_input m), length (samp_output m), length (event_ring m))"

lemma exec_keeps_sizes: "samp_exec n ops s = (r, s') \<Longrightarrow> sizes (xmem s') = sizes (xmem s)"
  by (cases "xcells s") (auto simp: samp_run sizes_def split: if_splits)

text \<open>
  The effect table of the sample-stream extension tells the truth about its \<^verbatim>\<open>exec\<close>: a
  declared opcode fails only where the stack holds fewer cells than it pops, and otherwise
  moves the depth by the declared delta, leaves \<open>acc\<close> alone unless it is declared written, and
  keeps the sizes of the three rings; an undeclared opcode is refused.
\<close>

theorem samp_effects_truthful:
  "case samp_effects n of
     None \<Rightarrow> \<exists>e. samp_exec n ops s = (Inl e, s)
   | Some ef \<Rightarrow>
       (case samp_exec n ops s of
          (Inl e, s') \<Rightarrow> length (xcells s) < popped ef
        | (Inr _, s') \<Rightarrow>
            int (length (xcells s')) = int (length (xcells s)) + tos_delta ef
            \<and> xcells s' = drop (popped ef) (xcells s)
            \<and> (xacc s' = xacc s \<or> writes_acc ef)
            \<and> sizes (xmem s') = sizes (xmem s))"
proof (cases "samp_effects n")
  case None
  then show ?thesis using samp.unknown by simp
next
  case (Some ef)
  show ?thesis
  proof (cases "samp_exec n ops s")
    case (Pair r s')
    show ?thesis
    proof (cases r)
      case (Inl e)
      then have "\<not> (\<exists>s'. samp_exec n ops s = (Inr (), s'))" using Pair by simp
      then show ?thesis
        using samp.fails_only_by_depth [OF Some, of ops s] Inl Pair Some by simp
    next
      case (Inr u)
      with Pair have run: "samp_exec n ops s = (Inr (), s')" by simp
      then show ?thesis
        using samp.depth [OF Some run] samp.cells [OF Some run] samp.acc_kept [OF Some _ run]
          exec_keeps_sizes [OF run] Some by auto
    qed
  qed
qed

subsection \<open>Events\<close>

lemma unpack_event:
  "pack_event i k AND 0xf = to_u32 k AND 0xf" "drop_bit 4 (pack_event i k) = i AND 0x0fffffff"
proof -
  have m: "(0xf :: u32) = mask 4" "(0x0fffffff :: u32) = mask 28" by (simp_all add: mask_eq_exp_minus_1)
  have kind: "to_u32 trigger_max_kind = mask 4" by (simp add: trigger_max_kind_def to_u32_def mask_eq_exp_minus_1)
  show "pack_event i k AND 0xf = to_u32 k AND 0xf"
    unfolding pack_event_def kind m trigger_kind_bits_def
    by (rule bit_word_eqI) (auto simp: bit_simps)
  show "drop_bit 4 (pack_event i k) = i AND 0x0fffffff"
    unfolding pack_event_def kind m trigger_kind_bits_def
    by (rule bit_word_eqI) (auto simp: bit_simps)
qed

definition trigger_all :: "(int \<times> u32) list \<Rightarrow> samp_mem \<Rightarrow> samp_mem" where
  "trigger_all ts m = foldl (\<lambda>m t. trigger (fst t) (snd t) m) m ts"

lemma trigger_all_inv:
  assumes "samp_ok m" "event_count m = 0"
  shows "length (event_ring (trigger_all ts m)) = samp_events" and "event_count (trigger_all ts m) = length ts"
    and "j < length ts \<Longrightarrow> length ts \<le> j + samp_events \<Longrightarrow>
      event_ring (trigger_all ts m) ! (j mod samp_events) = pack_event (snd (ts ! j)) (fst (ts ! j))"
proof (induction ts arbitrary: j rule: rev_induct)
  case Nil
  {
    case 1
    then show ?case using assms by (simp add: trigger_all_def samp_ok_def)
  next
    case 2
    then show ?case using assms by (simp add: trigger_all_def)
  next
    case 3
    then show ?case by simp
  }
next
  case (snoc t ts)
  have step: "trigger_all (ts @ [t]) m = trigger (fst t) (snd t) (trigger_all ts m)"
    by (simp add: trigger_all_def)
  {
    case 1
    then show ?case using snoc(1) by (simp add: step trigger_def)
  next
    case 2
    then show ?case using snoc(2) by (simp add: step trigger_def)
  next
    case 3
    show ?case
    proof (cases "j = length ts")
      case True
      have "length ts mod samp_events < samp_events" by (simp add: samp_events_def)
      then show ?thesis using True snoc(1,2) by (simp add: step trigger_def)
    next
      case False
      with 3 have j: "j < length ts" "length ts < j + samp_events" by auto
      have "j mod samp_events \<noteq> length ts mod samp_events"
      proof
        assume "j mod samp_events = length ts mod samp_events"
        then have "samp_events dvd length ts - j" by (metis mod_eq_dvd_iff_nat j(1) less_imp_le)
        with j show False by (auto dest: dvd_imp_le)
      qed
      then show ?thesis using snoc(2) snoc(3) [of j] j by (simp add: step trigger_def nth_append)
    qed
  }
qed

text \<open>
  The event ring holds the last 32 triggers of a run, each in its slot with its 28-bit index
  and 4-bit kind recoverable from the word, and the count is that of every trigger raised: an
  overrun is seen, not hidden.
\<close>

theorem event_ring_correct:
  assumes "samp_ok m" and "event_count m = 0"
  shows "event_count (trigger_all ts m) = length ts \<and>
    (\<forall>j < length ts. length ts \<le> j + samp_events \<longrightarrow>
       (let w = event_ring (trigger_all ts m) ! (j mod samp_events)
        in w AND 0xf = to_u32 (fst (ts ! j)) AND 0xf \<and> drop_bit 4 w = snd (ts ! j) AND 0x0fffffff))"
  using trigger_all_inv [OF assms] by (simp add: Let_def unpack_event)

lemma event_ring_correct_witness:
  "event_count (trigger_all [(1, 100), (2, 200)] samp_new) = 2
   \<and> event_ring (trigger_all [(1, 100), (2, 200)] samp_new) ! 1 AND 0xf = 2
   \<and> drop_bit 4 (event_ring (trigger_all [(1, 100), (2, 200)] samp_new) ! 1) = 200"
proof -
  have "samp_ok samp_new" "event_count samp_new = 0" by (simp_all add: samp_ok_def samp_new_def)
  from event_ring_correct [OF this, of "[(1, 100), (2, 200)]"] show ?thesis
    by (auto simp: Let_def samp_events_def to_u32_def dest: spec [of _ "1 :: nat"])
qed

subsection \<open>Tiling\<close>

text \<open>\<^verbatim>\<open>seqNode\<close> of this extension: the operation's own numbers are passed in.\<close>

definition samp_seq_node ::
  "'i node list \<Rightarrow> loc list \<Rightarrow> 'i list \<Rightarrow> int \<Rightarrow> loc list \<Rightarrow> int \<Rightarrow> int option \<Rightarrow> 'i node" where
  "samp_seq_node children out fragment op_delta op_clobbers extra_delta extra_max =
     (let (running, m) = walk_children children 0 0;
          running = running + op_delta;
          m = (case extra_max of None \<Rightarrow> m | Some x \<Rightarrow> max m (running + x))
      in \<lparr>node_output = out, node_fragment = fragment,
          node_clobbers = \<Union> (set (map node_clobbers children)) \<union> set op_clobbers - set out,
          node_delta = sum_list (map node_delta children) + op_delta + extra_delta,
          node_max = m\<rparr>)"

definition sample_rule :: "'i \<Rightarrow> (string \<Rightarrow> int list \<Rightarrow> 'i) \<Rightarrow> loc \<Rightarrow> 'i tiling_rule" where
  "sample_rule push ext loc =
     \<lparr>rule_name = ''sampstream:sample_at:'' @ (if loc = Tos then ''tos'' else ''acc''),
      rule_builtin = ''sample_at'', rule_demands = [Acc], rule_op = ''SAMPLE_AT'',
      rule_build = \<lambda>ns. samp_seq_node [hd ns] [loc]
        (node_fragment (hd ns) @ [ext ''SAMPLE_AT'' []] @ (if loc = Tos then [push] else []))
        0 [Acc] (if loc = Tos then 1 else 0) (if loc = Tos then Some 1 else None)\<rparr>"

definition out_rule :: "(string \<Rightarrow> int list \<Rightarrow> 'i) \<Rightarrow> 'i tiling_rule" where
  "out_rule ext =
     \<lparr>rule_name = ''sampstream:out_at'', rule_builtin = ''out_at'', rule_demands = [Tos, Acc], rule_op = ''OUT_AT'',
      rule_build = \<lambda>ns. samp_seq_node [ns ! 0, ns ! 1] [Acc]
        (node_fragment (ns ! 0) @ node_fragment (ns ! 1) @ [ext ''OUT_AT'' []]) (-1) [] 0 None\<rparr>"

text \<open>The rule for a trigger declines a kind that does not fit its four bits.\<close>

definition trigger_rule ::
  "(string \<Rightarrow> int list \<Rightarrow> 'i) \<Rightarrow> ('i node \<Rightarrow> loc list \<Rightarrow> 'i list \<Rightarrow> 'i node) \<Rightarrow> int \<Rightarrow> 'i node \<Rightarrow> 'i node option" where
  "trigger_rule ext unary_node kind index =
     (if kind < 0 \<or> trigger_max_kind < kind then None
      else Some (unary_node index [Acc] (node_fragment index @ [ext ''TRIGGER'' [kind]])))"

definition sampstream_rules :: "'i \<Rightarrow> (string \<Rightarrow> int list \<Rightarrow> 'i) \<Rightarrow> 'i tiling_rule list" where
  "sampstream_rules push ext = [sample_rule push ext Acc, sample_rule push ext Tos, out_rule ext]"

lemma sum_deltas:
  "\<forall>c \<in> set cs. honest eff c \<Longrightarrow> sum_list (map node_delta cs) = frag_delta eff (concat (map node_fragment cs))"
  by (induction cs) (simp_all add: honest_def)

lemma samp_seq_honest:
  assumes kids: "\<forall>c \<in> set cs. honest eff c" and op: "eff op = (d, 0)" "d \<le> 0"
  shows "honest eff (samp_seq_node cs out (concat (map node_fragment cs) @ [op]) d cl 0 None)"
    and "push_ok eff push \<Longrightarrow>
      honest eff (samp_seq_node cs out (concat (map node_fragment cs) @ [op, push]) d cl 1 (Some 1))"
proof -
  let ?f = "concat (map node_fragment cs)"
  have w: "walk_children cs 0 0 = (frag_delta eff ?f, frag_peak eff ?f)"
    using walk_children_peak [OF kids, of 0 0] frag_peak_ge(1) [of eff ?f] by simp
  have p: "frag_peak eff (?f @ [op]) = frag_peak eff ?f"
    using seq_peak [of eff op ?f] op frag_peak_ge(2) [of eff ?f] by simp
  then show "honest eff (samp_seq_node cs out (?f @ [op]) d cl 0 None)"
    using op unfolding samp_seq_node_def w by (simp add: honest_def Let_def sum_deltas [OF kids])
  assume push: "push_ok eff push"
  have "frag_peak eff ((?f @ [op]) @ [push]) = max (frag_peak eff (?f @ [op])) (frag_delta eff (?f @ [op]) + 1)"
    by (rule seq_push_peak) (use push in \<open>simp_all add: push_ok_def\<close>)
  then show "honest eff (samp_seq_node cs out (?f @ [op, push]) d cl 1 (Some 1))"
    using op push p unfolding samp_seq_node_def w
    by (simp add: honest_def Let_def sum_deltas [OF kids] push_ok_def)
qed

text \<open>
  The rules of the sample-stream extension ask for their operands where \<^verbatim>\<open>exec\<close> takes them
  and build nodes that declare the true depth and peak of what they emit; a trigger of any
  kind from 0 to 15 has a node, and one out of that range has none.
\<close>

theorem sampstream_rules_sound:
  assumes "table_faithful eff ext samp_effects_table" "push_ok eff push" "unary_ok unary" "honest eff index"
  shows "list_all (rule_sound eff samp_effects_table) (sampstream_rules push ext)
    \<and> (case trigger_rule ext unary kind index of None \<Rightarrow> kind < 0 \<or> 15 < kind | Some n \<Rightarrow> honest eff n)"
proof
  have op: "eff (ext ''SAMPLE_AT'' []) = (0, 0)" "eff (ext ''OUT_AT'' []) = (-1, 0)" "eff (ext ''TRIGGER'' [kind]) = (0, 0)"
    using assms(1) by (auto simp: table_faithful_def samp_effects_table_def)
  have sample: "rule_sound eff samp_effects_table (sample_rule push ext l)" for l
    unfolding rule_sound_def
  proof (intro conjI allI impI)
    show "\<exists>ef. (rule_op (sample_rule push ext l), ef) \<in> set samp_effects_table
        \<and> int (count_list (rule_demands (sample_rule push ext l)) Tos) = - tos_delta ef
        \<and> (Acc \<in> set (rule_demands (sample_rule push ext l)) \<longleftrightarrow> reads_acc ef)"
      by (simp add: sample_rule_def samp_effects_table_def)
    fix ns
    assume "length ns = length (rule_demands (sample_rule push ext l))" "\<forall>n \<in> set ns. honest eff n"
    then obtain n where n: "ns = [n]" "\<forall>c \<in> set [n]. honest eff c"
      by (cases ns) (auto simp: sample_rule_def)
    note two = samp_seq_honest [where eff = eff and cs = "[n]" and op = "ext ''SAMPLE_AT'' []" and d = 0, OF n(2) op(1)]
    from two(1) two(2) [of push] assms(2) show "honest eff (rule_build (sample_rule push ext l) ns)"
      by (cases l) (simp_all add: sample_rule_def n(1))
  qed
  have "rule_sound eff samp_effects_table (out_rule ext)"
    unfolding rule_sound_def
  proof (intro conjI allI impI)
    show "\<exists>ef. (rule_op (out_rule ext), ef) \<in> set samp_effects_table
        \<and> int (count_list (rule_demands (out_rule ext)) Tos) = - tos_delta ef
        \<and> (Acc \<in> set (rule_demands (out_rule ext)) \<longleftrightarrow> reads_acc ef)"
      by (simp add: out_rule_def samp_effects_table_def)
    fix ns
    assume "length ns = length (rule_demands (out_rule ext))" "\<forall>n \<in> set ns. honest eff n"
    then obtain m n where n: "ns = [m, n]" "\<forall>c \<in> set [m, n]. honest eff c"
      by (auto simp: out_rule_def length_Suc_conv numeral_2_eq_2)
    from samp_seq_honest(1) [where eff = eff and cs = "[m, n]" and op = "ext ''OUT_AT'' []" and d = "-1", OF n(2) op(2)] show "honest eff (rule_build (out_rule ext) ns)"
      by (simp add: out_rule_def n(1))
  qed
  with sample show "list_all (rule_sound eff samp_effects_table) (sampstream_rules push ext)"
    by (simp add: sampstream_rules_def)
  show "case trigger_rule ext unary kind index of None \<Rightarrow> kind < 0 \<or> 15 < kind | Some n \<Rightarrow> honest eff n"
    using unary_honest [where eff = eff and op = "ext ''TRIGGER'' [kind]", OF assms(3,4) op(3)] by (simp add: trigger_rule_def trigger_max_kind_def)
qed

lemma sampstream_rules_sound_witness:
  "list_all (rule_sound (sample_effect samp_effects_table) samp_effects_table) (sampstream_rules None sample_ext)
    \<and> (case trigger_rule sample_ext sample_unary 7
          \<lparr>node_output = [Acc], node_fragment = [], node_clobbers = {}, node_delta = 0, node_max = 0\<rparr>
       of None \<Rightarrow> (7 :: int) < 0 \<or> (15 :: int) < 7 | Some n \<Rightarrow> honest (sample_effect samp_effects_table) n)"
  by (rule sampstream_rules_sound)
    (auto intro: sample_hooks simp: samp_effects_table_def honest_def)

subsection \<open>The codec\<close>

text \<open>LEB128 is mog-core's: \<open>enc\<close> and \<open>dec\<close>.\<close>

definition samp_encode :: "(int \<Rightarrow> nat list) \<Rightarrow> string \<Rightarrow> int list \<Rightarrow> string + nat list" where
  "samp_encode enc name operands =
     (case map_of sampstream_opcodes name of
        None \<Rightarrow> Inl (''sampstream: cannot encode '' @ name)
      | Some code \<Rightarrow> Inr (if name = ''TRIGGER'' then code # enc (hd operands) else [code]))"

definition samp_by_byte :: "nat \<Rightarrow> string option" where
  "samp_by_byte b = map_of (map (\<lambda>(name, code). (code, name)) sampstream_opcodes) b"

definition samp_decode ::
  "(nat list \<Rightarrow> nat \<Rightarrow> int \<times> nat) \<Rightarrow> nat list \<Rightarrow> nat \<Rightarrow> string + ((string \<times> int list) \<times> nat)" where
  "samp_decode dec bytes offset =
     (case (if offset < length bytes then samp_by_byte (bytes ! offset) else None) of
        None \<Rightarrow> Inl ''sampstream: cannot decode byte''
      | Some name \<Rightarrow>
          if name \<noteq> ''TRIGGER'' then Inr ((name, []), offset + 1)
          else (let (kind, nxt) = dec bytes (offset + 1) in Inr ((name, [kind]), nxt)))"

text \<open>The instructions the rules build.\<close>

definition samp_instr :: "string \<Rightarrow> int list \<Rightarrow> bool" where
  "samp_instr name ops \<longleftrightarrow> name \<in> {''SAMPLE_AT'', ''OUT_AT''} \<and> ops = []
     \<or> name = ''TRIGGER'' \<and> (\<exists>k. 0 \<le> k \<and> k \<le> trigger_max_kind \<and> ops = [k])"

definition leb_ok :: "(int \<Rightarrow> nat list) \<Rightarrow> (nat list \<Rightarrow> nat \<Rightarrow> int \<times> nat) \<Rightarrow> bool" where
  "leb_ok enc dec \<longleftrightarrow> (\<forall>k pre post. 0 \<le> k \<longrightarrow> k \<le> trigger_max_kind \<longrightarrow>
     dec (pre @ enc k @ post) (length pre) = (k, length pre + length (enc k)))"

text \<open>
  Every instruction the tiling rules emit survives the wire: decoding it where it was
  encoded gives the instruction and its operand back and the offset just after it.
\<close>

theorem samp_codec_roundtrip:
  assumes "leb_ok enc dec" and "samp_instr name ops"
  shows "\<exists>bs. samp_encode enc name ops = Inr bs \<and>
    samp_decode dec (pre @ bs @ post) (length pre) = Inr ((name, ops), length pre + length bs)"
  using assms(2) unfolding samp_instr_def
proof (elim disjE conjE exE insertE)
  fix k
  assume k: "0 \<le> k" "k \<le> trigger_max_kind" "name = ''TRIGGER''" "ops = [k]"
  from assms(1) k(1,2) have "dec ((pre @ [0x82]) @ enc k @ post) (length (pre @ [0x82])) = (k, length (pre @ [0x82]) + length (enc k))"
    unfolding leb_ok_def by blast
  then show ?thesis
    by (simp add: k samp_encode_def samp_decode_def sampstream_opcodes_def samp_by_byte_def)
qed (simp_all add: samp_encode_def samp_decode_def sampstream_opcodes_def samp_by_byte_def)

lemma samp_codec_roundtrip_witness:
  "\<exists>bs. samp_encode (\<lambda>k. [nat k]) ''TRIGGER'' [7] = Inr bs \<and>
    samp_decode (\<lambda>bs i. (int (bs ! i), i + 1)) ([1] @ bs @ [2]) (length [1 :: nat])
      = Inr ((''TRIGGER'', [7]), length [1 :: nat] + length bs)"
  by (rule samp_codec_roundtrip) (simp_all add: leb_ok_def samp_instr_def trigger_max_kind_def)

end
