(* ===== verification/Workloads.thy ===== *)
theory Workloads
  imports Samp_Stream Js_Text "HOL-Library.Multiset"
begin

section \<open>The benchmark workloads' reference answers (\<^verbatim>\<open>bench/ts/lib/workloads\<close>)\<close>

text \<open>
  Each workload states the right answer twice over: as DSL source for the compiler and as a
  TypeScript \<^verbatim>\<open>reference\<close>, which decides what is right. The references are modelled here, with
  the calls they make to the sink as a list, and each is proved against a statement of what the
  workload detects: a Schmitt trigger's pulse widths, the energy of a tone over a window, the
  median of five samples. The DSL bodies are the texts handed to mog-core's parser; the sample generators evaluate
  sines and are not modelled.
\<close>

datatype sink_call = SinkTrigger nat int | SinkOut nat int

record workload =
  wl_name :: string
  wl_kernel :: string
  wl_params :: "(string \<times> int) list"
  wl_body :: string
  wl_reference :: "nat \<Rightarrow> 16 word list \<Rightarrow> nat \<Rightarrow> (nat \<times> sink_call list) option"
  wl_step :: nat

text \<open>A workload's program is a template over lines, with its parameters filled in.\<close>

definition dsl :: "string list \<Rightarrow> string" where
  "dsl ls = newline_char # concat (map (\<lambda>l. l @ [newline_char]) ls)"

text \<open>\<^verbatim>\<open>input[i & IN_MASK]\<close>; the index may be negative, and 4096 divides \<open>2^32\<close>.\<close>

definition ring :: "16 word list \<Rightarrow> int \<Rightarrow> int" where
  "ring input i = sint (nth_default 0 input (nat (i mod 4096)))"

lemma ring_bounds: "- 32768 \<le> ring input i" "ring input i < 32768"
  using sint_ge [of "nth_default 0 input (nat (i mod 4096))"] sint_lt [of "nth_default 0 input (nat (i mod 4096))"]
  by (simp_all add: ring_def)

subsection \<open>Workload 1: pulse widths between two thresholds\<close>

definition pulse_hi :: int where "pulse_hi = 2600"
definition pulse_lo :: int where "pulse_lo = 1400"
definition min_width :: int where "min_width = 12"
definition max_width :: int where "max_width = 60"
definition pulse_kind :: int where "pulse_kind = 1"

text \<open>The sample read as unsigned, \<open>>>> 0\<close>.\<close>

definition pulse_sample :: "16 word list \<Rightarrow> nat \<Rightarrow> int" where
  "pulse_sample input i = uint (to_u32 (ring input (int i)))"

record pulse =
  pulse_state :: nat
  pulse_run :: int
  pulse_log :: "sink_call list"

text \<open>The loop's body for sample \<open>i\<close>.\<close>

definition pulse_step :: "(nat \<Rightarrow> int) \<Rightarrow> pulse \<Rightarrow> nat \<Rightarrow> pulse" where
  "pulse_step sample p i =
     (let s = sample i
      in if pulse_state p = 0 then
           (if s > pulse_hi then p\<lparr>pulse_state := 1, pulse_run := 0\<rparr> else p)
         else
           let p = p\<lparr>pulse_run := pulse_run p + 1\<rparr>
           in if s < pulse_lo then
                (if min_width \<le> pulse_run p \<and> pulse_run p \<le> max_width
                 then p\<lparr>pulse_log := pulse_log p @ [SinkTrigger i pulse_kind], pulse_state := 0\<rparr>
                 else p\<lparr>pulse_state := 0\<rparr>)
              else p)"

definition pulse_reference :: "16 word list \<Rightarrow> nat \<Rightarrow> nat \<times> sink_call list" where
  "pulse_reference input n =
     (n, pulse_log (foldl (pulse_step (pulse_sample input)) \<lparr>pulse_state = 0, pulse_run = 0, pulse_log = []\<rparr> [0..<n]))"

definition pulse_body :: string where
  "pulse_body = dsl
     [''u32 state = 0;'', ''u32 run = 0;'', ''for (u32 i = 0; i != n; i++)'', ''{'', ''    u32 s = sample_at(i);'',
      ''    if (state == 0)'', ''    {'', ''        if (s > '' @ show_nat (nat pulse_hi) @ '')'', ''        {'',
      ''            state = 1;'', ''            run = 0;'', ''        }'', ''    }'', ''    else'', ''    {'',
      ''        run++;'', ''        if (s < '' @ show_nat (nat pulse_lo) @ '')'', ''        {'',
      ''            if ((run >= '' @ show_nat (nat min_width) @ '') & (run <= '' @ show_nat (nat max_width) @ ''))'',
      ''            {'', ''                trigger('' @ show_nat (nat pulse_kind) @ '', i);'', ''            }'',
      ''            state = 0;'', ''        }'', ''    }'', ''}'', ''return n;'']"

definition pulse_trigger :: workload where
  "pulse_trigger = \<lparr>wl_name = ''pulse-trigger'', wl_kernel = ''refPulseTrigger'',
     wl_params = [(''PULSE_HI'', pulse_hi), (''PULSE_LO'', pulse_lo), (''PULSE_MIN_WIDTH'', min_width),
       (''PULSE_MAX_WIDTH'', max_width), (''PULSE_TRIGGER_KIND'', pulse_kind)],
     wl_body = pulse_body, wl_reference = (\<lambda>fuel input n. Some (pulse_reference input n)), wl_step = 1\<rparr>"

text \<open>
  What it detects. The signal is \<open>high\<close> before sample \<open>i\<close> when some earlier sample crossed the
  upper threshold and none since fell below the lower one; the pulse began at the first such
  crossing.
\<close>

definition risen :: "(nat \<Rightarrow> int) \<Rightarrow> nat \<Rightarrow> nat \<Rightarrow> bool" where
  "risen s i j \<longleftrightarrow> j < i \<and> pulse_hi < s j \<and> (\<forall>k. j < k \<and> k < i \<longrightarrow> pulse_lo \<le> s k)"

definition high :: "(nat \<Rightarrow> int) \<Rightarrow> nat \<Rightarrow> bool" where
  "high s i \<longleftrightarrow> (\<exists>j. risen s i j)"

definition pulse_start :: "(nat \<Rightarrow> int) \<Rightarrow> nat \<Rightarrow> nat" where
  "pulse_start s i = (LEAST j. risen s i j)"

definition pulse_fires :: "(nat \<Rightarrow> int) \<Rightarrow> nat \<Rightarrow> bool" where
  "pulse_fires s i \<longleftrightarrow> high s i \<and> s i < pulse_lo
     \<and> min_width \<le> int i - int (pulse_start s i) \<and> int i - int (pulse_start s i) \<le> max_width"

lemma risen_Suc: "risen s (Suc i) j \<longleftrightarrow> risen s i j \<and> pulse_lo \<le> s i \<or> j = i \<and> pulse_hi < s i"
  by (auto simp: risen_def less_Suc_eq)

lemma high_Suc: "high s (Suc i) \<longleftrightarrow> high s i \<and> pulse_lo \<le> s i \<or> pulse_hi < s i"
  by (auto simp: high_def risen_Suc)

lemma start_Suc_kept:
  assumes "high s i" "pulse_lo \<le> s i"
  shows "pulse_start s (Suc i) = pulse_start s i"
proof -
  obtain j where j: "risen s i j" using assms(1) by (auto simp: high_def)
  have l: "risen s i (pulse_start s i)" unfolding pulse_start_def by (rule LeastI [of _ j]) (rule j)
  show ?thesis
    unfolding pulse_start_def [of s "Suc i"]
  proof (rule Least_equality)
    show "risen s (Suc i) (pulse_start s i)" using l assms(2) by (simp add: risen_Suc)
    fix k
    assume "risen s (Suc i) k"
    then consider "risen s i k" | "k = i" by (auto simp: risen_Suc)
    then show "pulse_start s i \<le> k"
    proof cases
      case 1
      then show ?thesis unfolding pulse_start_def by (rule Least_le)
    next
      case 2
      with l show ?thesis by (simp add: risen_def)
    qed
  qed
qed

lemma start_Suc_new:
  assumes "\<not> high s i" "pulse_hi < s i"
  shows "pulse_start s (Suc i) = i"
  unfolding pulse_start_def
  by (rule Least_equality) (use assms in \<open>auto simp: risen_Suc high_def\<close>)

lemma pulse_inv:
  fixes s :: "nat \<Rightarrow> int"
  defines "p \<equiv> \<lambda>n. foldl (pulse_step s) \<lparr>pulse_state = 0, pulse_run = 0, pulse_log = []\<rparr> [0..<n]"
  shows "(pulse_state (p n) = 0 \<longleftrightarrow> \<not> high s n)
    \<and> (high s n \<longrightarrow> pulse_run (p n) = int n - 1 - int (pulse_start s n))
    \<and> pulse_log (p n) = map (\<lambda>i. SinkTrigger i pulse_kind) (filter (pulse_fires s) [0..<n])"
proof (induction n)
  case 0
  then show ?case by (simp add: p_def high_def risen_def)
next
  case (Suc n)
  have step: "p (Suc n) = pulse_step s (p n) n" by (simp add: p_def)
  have th: "pulse_lo < pulse_hi" by (simp add: pulse_lo_def pulse_hi_def)
  show ?case
  proof (cases "high s n")
    case False
    then have "\<not> pulse_fires s n" by (simp add: pulse_fires_def)
    with False Suc show ?thesis
      by (auto simp: step pulse_step_def Let_def high_Suc start_Suc_new)
  next
    case True
    then have st: "pulse_state (p n) \<noteq> 0" "pulse_run (p n) + 1 = int n - int (pulse_start s n)"
      using Suc by simp_all
    show ?thesis
    proof (cases "s n < pulse_lo")
      case low: True
      then have "pulse_fires s n \<longleftrightarrow> min_width \<le> pulse_run (p n) + 1 \<and> pulse_run (p n) + 1 \<le> max_width"
        using True by (simp add: pulse_fires_def st(2))
      moreover have "\<not> high s (Suc n)" using low th by (simp add: high_Suc)
      ultimately show ?thesis using low st(1) Suc by (auto simp: step pulse_step_def Let_def)
    next
      case False
      then have "\<not> pulse_fires s n" by (simp add: pulse_fires_def)
      with False True st Suc show ?thesis
        by (auto simp: step pulse_step_def Let_def high_Suc start_Suc_kept)
    qed
  qed
qed

text \<open>
  The pulse workload's reference triggers exactly at the samples where a pulse ends whose
  width lies between the two bounds, in order: the state machine, its hysteresis and its run
  counter compute the widths of the pulses of a Schmitt trigger.
\<close>

theorem pulse_reference_correct:
  "pulse_reference input n =
     (n, map (\<lambda>i. SinkTrigger i pulse_kind) (filter (pulse_fires (pulse_sample input)) [0..<n]))"
  using pulse_inv [of "pulse_sample input" n] by (simp add: pulse_reference_def)

subsection \<open>Workload 2: energy of a tone over a window\<close>

definition iq_window :: nat where "iq_window = 16"
definition iq_shift :: nat where "iq_shift = 7"
definition iq_threshold_sq :: int where "iq_threshold_sq = 40000"
definition iq_kind :: int where "iq_kind = 2"

text \<open>\<^verbatim>\<open>x | 0\<close>, and \<^verbatim>\<open>Math.imul\<close>.\<close>

definition to_s32 :: "int \<Rightarrow> int" where
  "to_s32 x = sint (to_u32 x)"

definition imul :: "int \<Rightarrow> int \<Rightarrow> int" where
  "imul a b = to_s32 (a * b)"

text \<open>The inner loop: both accumulators from sample \<open>i\<close> on, in \<open>m\<close> steps of four samples.\<close>

fun accumulate :: "(int \<Rightarrow> int) \<Rightarrow> nat \<Rightarrow> nat \<Rightarrow> int \<Rightarrow> int \<Rightarrow> int \<times> int" where
  "accumulate x 0 i acci accq = (acci, accq)"
| "accumulate x (Suc m) i acci accq =
     accumulate x m (i + 4)
       (to_s32 (acci + x (int i) - x (int i + 2)))
       (to_s32 (accq + x (int i + 1) - x (int i + 3)))"

definition iq_detects :: "(int \<Rightarrow> int) \<Rightarrow> nat \<Rightarrow> bool" where
  "iq_detects x i =
     (let (acci, accq) = accumulate x iq_window i 0 0;
          mi = acci div 2 ^ iq_shift; mq = accq div 2 ^ iq_shift
      in iq_threshold_sq < to_s32 (imul mi mi + imul mq mq))"

text \<open>
  The outer loop leaves only where \<open>i\<close> meets \<open>n\<close> exactly, so it runs on fuel: \<open>None\<close> is a run
  the fuel did not suffice for.
\<close>

fun iq_loop :: "nat \<Rightarrow> (int \<Rightarrow> int) \<Rightarrow> nat \<Rightarrow> nat \<Rightarrow> sink_call list option" where
  "iq_loop 0 x n i = None"
| "iq_loop (Suc f) x n i =
     (if i = n then Some []
      else let i' = i + iq_window * 4
           in map_option (\<lambda>log. if iq_detects x i then SinkTrigger i' iq_kind # log else log) (iq_loop f x n i'))"

definition iq_reference :: "nat \<Rightarrow> 16 word list \<Rightarrow> nat \<Rightarrow> (nat \<times> sink_call list) option" where
  "iq_reference fuel input n = map_option (\<lambda>log. (n, log)) (iq_loop fuel (ring input) n 0)"

definition iq_body :: string where
  "iq_body = dsl
     [''for (u32 i = 0; i != n;)'', ''{'', ''    u32 end = i + '' @ show_nat (iq_window * 4) @ '';'', '''',
      ''    i32 acci = 0;'', ''    i32 accq = 0;'', '''', ''    while (i < end)'', ''    {'',
      ''        acci += sample_at(i) - sample_at(i + 2);'', ''        accq += sample_at(i + 1) - sample_at(i + 3);'',
      ''        i += 4;'', ''    }'', '''', ''    i32 mi = acci >> '' @ show_nat iq_shift @ '';'',
      ''    i32 mq = accq >> '' @ show_nat iq_shift @ '';'', '''',
      ''    if ((mi * mi + mq * mq) > '' @ show_nat (nat iq_threshold_sq) @ '')'', ''    {'',
      ''        trigger('' @ show_nat (nat iq_kind) @ '', i);'', ''    }'', ''}'', ''return n;'']"

definition iq_preamble :: workload where
  "iq_preamble = \<lparr>wl_name = ''iq-preamble'', wl_kernel = ''refIqPreamble'',
     wl_params = [(''IQ_WINDOW'', int iq_window), (''IQ_SHIFT'', int iq_shift),
       (''IQ_THRESHOLD_SQ'', iq_threshold_sq), (''IQ_TRIGGER_KIND'', iq_kind)],
     wl_body = iq_body, wl_reference = iq_reference, wl_step = iq_window * 4\<rparr>"

text \<open>The two sums over the integers.\<close>

definition in_phase :: "(int \<Rightarrow> int) \<Rightarrow> nat \<Rightarrow> int" where
  "in_phase x i = (\<Sum>k < iq_window. x (int (i + 4 * k)) - x (int (i + 4 * k) + 2))"

definition quadrature :: "(int \<Rightarrow> int) \<Rightarrow> nat \<Rightarrow> int" where
  "quadrature x i = (\<Sum>k < iq_window. x (int (i + 4 * k) + 1) - x (int (i + 4 * k) + 3))"

lemma to_s32_id: "- (2 ^ 31) \<le> v \<Longrightarrow> v < 2 ^ 31 \<Longrightarrow> to_s32 v = v"
  by (simp add: to_s32_def to_u32_def signed_of_int signed_take_bit_int_eq_self)

lemma accumulate_exact:
  assumes x: "\<And>j. - 32768 \<le> x j \<and> x j < 32768"
  shows "\<bar>a\<bar> + int m * 65536 < 2 ^ 31 \<Longrightarrow> \<bar>b\<bar> + int m * 65536 < 2 ^ 31 \<Longrightarrow>
    accumulate x m i a b =
      (a + (\<Sum>k < m. x (int (i + 4 * k)) - x (int (i + 4 * k) + 2)),
       b + (\<Sum>k < m. x (int (i + 4 * k) + 1) - x (int (i + 4 * k) + 3)))"
proof (induction m arbitrary: i a b)
  case (Suc m)
  define da db where "da = x (int i) - x (int i + 2)" and "db = x (int i + 1) - x (int i + 3)"
  have d: "\<bar>da\<bar> < 65536" "\<bar>db\<bar> < 65536"
    unfolding da_def db_def using x [of "int i"] x [of "int i + 2"] x [of "int i + 1"] x [of "int i + 3"] by linarith+
  have "to_s32 (a + da) = a + da" "to_s32 (b + db) = b + db"
    using Suc.prems d by (auto intro!: to_s32_id)
  then have now: "to_s32 (a + x (int i) - x (int i + 2)) = a + da" "to_s32 (b + x (int i + 1) - x (int i + 3)) = b + db"
    by (simp_all only: da_def db_def add_diff_eq)
  have "\<bar>a + da\<bar> + int m * 65536 < 2 ^ 31" "\<bar>b + db\<bar> + int m * 65536 < 2 ^ 31"
    using Suc.prems d by auto
  note IH = Suc.IH [OF this, of "i + 4"]
  have sh: "(\<Sum>k < Suc m. f (i + 4 * k)) = f i + (\<Sum>k < m. f (i + 4 + 4 * k))" for f :: "nat \<Rightarrow> int"
    by (subst sum.lessThan_Suc_shift) (simp add: algebra_simps)
  show ?case
    unfolding accumulate.simps now IH
    unfolding sh [of "\<lambda>j. x (int j) - x (int j + 2)"] sh [of "\<lambda>j. x (int j + 1) - x (int j + 3)"]
    by (simp only: da_def db_def add.assoc)
qed simp

lemma sum_abs_bound:
  fixes f :: "nat \<Rightarrow> int"
  assumes "\<And>k. \<bar>f k\<bar> \<le> B"
  shows "\<bar>\<Sum>k < m. f k\<bar> \<le> int m * B"
proof (induction m)
  case (Suc m)
  with assms [of m] show ?case by (simp add: algebra_simps)
qed simp

lemma iq_detects_exact:
  assumes x: "\<And>j. - 32768 \<le> x j \<and> x j < 32768"
  shows "iq_detects x i \<longleftrightarrow>
    iq_threshold_sq < (in_phase x i div 128) ^ 2 + (quadrature x i div 128) ^ 2"
proof -
  have acc: "accumulate x iq_window i 0 0 = (in_phase x i, quadrature x i)"
    using accumulate_exact [of x 0 iq_window 0 i, OF x] by (simp add: in_phase_def quadrature_def iq_window_def)
  have diff: "\<bar>x a - x b\<bar> \<le> 65535" for a b using x [of a] x [of b] by linarith
  have b: "\<bar>in_phase x i\<bar> \<le> 16 * 65535" "\<bar>quadrature x i\<bar> \<le> 16 * 65535"
    unfolding in_phase_def quadrature_def iq_window_def
    using sum_abs_bound [where B = 65535 and m = 16, OF diff] by simp_all
  have sq: "(v div 128) ^ 2 < 2 ^ 28 \<and> 0 \<le> (v div 128) ^ 2" if "\<bar>v\<bar> \<le> 16 * 65535" for v :: int
  proof -
    have "\<bar>v div 128\<bar> \<le> 8192" using that by linarith
    then have "\<bar>v div 128\<bar> ^ 2 \<le> 8192 ^ 2" by (intro power_mono) simp_all
    then show ?thesis by simp
  qed
  have im: "imul (v div 128) (v div 128) = (v div 128) ^ 2" if "\<bar>v\<bar> \<le> 16 * 65535" for v :: int
    using sq [OF that] unfolding imul_def power2_eq_square [symmetric] by (intro to_s32_id) (auto intro: order_trans [of _ 0])
  have "to_s32 ((in_phase x i div 128) ^ 2 + (quadrature x i div 128) ^ 2)
      = (in_phase x i div 128) ^ 2 + (quadrature x i div 128) ^ 2"
    using sq [OF b(1)] sq [OF b(2)] by (intro to_s32_id) (auto intro: order_trans [of _ 0])
  then show ?thesis
    unfolding iq_detects_def acc Let_def prod.case
    using im [OF b(1)] im [OF b(2)] by (simp add: iq_shift_def)
qed

text \<open>Windows of 64 samples.\<close>

definition iq_answer :: "(int \<Rightarrow> int) \<Rightarrow> nat \<Rightarrow> nat \<Rightarrow> sink_call list" where
  "iq_answer x i m =
     map (\<lambda>w. SinkTrigger (i + 64 * Suc w) iq_kind)
       (filter (\<lambda>w. iq_threshold_sq < (in_phase x (i + 64 * w) div 128) ^ 2 + (quadrature x (i + 64 * w) div 128) ^ 2) [0..<m])"

lemma iq_loop_runs:
  assumes x: "\<And>j. - 32768 \<le> x j \<and> x j < 32768"
  shows "m < f \<Longrightarrow> iq_loop f x (i + 64 * m) i = Some (iq_answer x i m)"
proof (induction m arbitrary: f i)
  case 0
  then show ?case by (cases f) (simp_all add: iq_answer_def)
next
  case (Suc m)
  then obtain g where f: "f = Suc g" "m < g" by (cases f) auto
  have up: "[0..<Suc m] = 0 # map Suc [0..<m]" by (simp add: upt_conv_Cons map_Suc_upt del: upt_Suc)
  have "iq_loop g x (i + 64 + 64 * m) (i + 64) = Some (iq_answer x (i + 64) m)"
    by (rule Suc.IH [OF f(2)])
  then show ?case
    unfolding f(1) iq_loop.simps Let_def iq_answer_def up
    by (simp add: iq_window_def iq_detects_exact [OF x] filter_map o_def add.assoc algebra_simps)
qed

lemma iq_loop_stops: "iq_loop f x n i = Some log \<Longrightarrow> \<exists>m. n = i + 64 * m"
proof (induction f arbitrary: i log)
  case (Suc f)
  show ?case
  proof (cases "i = n")
    case False
    with Suc.prems obtain l where "iq_loop f x n (i + 64) = Some l"
      by (auto simp: Let_def iq_window_def algebra_simps)
    then obtain m where "n = i + 64 + 64 * m" using Suc.IH by blast
    then have "n = i + 64 * Suc m" by simp
    then show ?thesis by blast
  qed (auto intro: exI [of _ 0])
qed simp

text \<open>
  The tone detector's reference returns exactly when the number of samples is a multiple of
  the workload's step, 64. It then triggers at the end of each window of 64 samples whose
  integer energy exceeds the threshold: for 16-bit samples no sum and no square ever wraps.
\<close>

theorem iq_reference_correct:
  "(\<exists>fuel r. iq_reference fuel input n = Some r) = (wl_step iq_preamble dvd n)
   \<and> (\<forall>m fuel. iq_reference (Suc (m + fuel)) input (64 * m) = Some (64 * m, iq_answer (ring input) 0 m))"
proof
  have x: "- 32768 \<le> ring input j \<and> ring input j < 32768" for j using ring_bounds by blast
  note runs = iq_loop_runs [of "ring input", OF x]
  show all: "\<forall>m fuel. iq_reference (Suc (m + fuel)) input (64 * m) = Some (64 * m, iq_answer (ring input) 0 m)"
    using runs [of _ _ 0] by (simp add: iq_reference_def del: iq_loop.simps)
  show "(\<exists>fuel r. iq_reference fuel input n = Some r) = (wl_step iq_preamble dvd n)"
  proof
    assume "\<exists>fuel r. iq_reference fuel input n = Some r"
    then obtain m where "n = 0 + 64 * m" using iq_loop_stops by (fastforce simp: iq_reference_def)
    then show "wl_step iq_preamble dvd n" by (simp add: iq_preamble_def iq_window_def)
  next
    assume "wl_step iq_preamble dvd n"
    then obtain m where "n = 64 * m" by (auto simp: iq_preamble_def iq_window_def)
    with all show "\<exists>fuel r. iq_reference fuel input n = Some r" by blast
  qed
qed

subsection \<open>Workload 3: a five-tap median\<close>

definition taps :: nat where "taps = 5"

definition network :: "(nat \<times> nat) list" where
  "network = [(0, 1), (3, 4), (2, 4), (2, 3), (1, 4), (0, 3), (0, 2), (1, 3), (1, 2)]"

definition median_index :: nat where "median_index = 2"

text \<open>\<^verbatim>\<open>if(v[a] > v[b]) [v[a], v[b]] = [v[b], v[a]]\<close>, and the network one comparator after another.\<close>

definition exchange :: "'a :: linorder list \<Rightarrow> nat \<times> nat \<Rightarrow> 'a list" where
  "exchange v c = (if v ! fst c > v ! snd c then v[fst c := v ! snd c, snd c := v ! fst c] else v)"

definition run_network :: "(nat \<times> nat) list \<Rightarrow> 'a :: linorder list \<Rightarrow> 'a list" where
  "run_network net v = foldl exchange v net"

function permute :: "'a list \<Rightarrow> 'a list list" where
  "permute xs =
     (if length xs \<le> 1 then [xs]
      else concat (map (\<lambda>i. map ((#) (xs ! i)) (permute (take i xs @ drop (Suc i) xs))) [0..<length xs]))"
  by pat_completeness auto

termination by (relation "measure length") auto

declare permute.simps [simp del]

definition sorts_all :: "(nat \<times> nat) list \<Rightarrow> bool" where
  "sorts_all net \<longleftrightarrow> list_all (\<lambda>perm. run_network net perm = [0..<taps]) (permute [0..<taps])"

definition network_sorts :: bool where
  "network_sorts = sorts_all network"

definition median_window :: "(int \<Rightarrow> int) \<Rightarrow> nat \<Rightarrow> int list" where
  "median_window x i = map (\<lambda>k. x (int i - (int taps - 1 - int k))) [0..<taps]"

definition median_reference :: "16 word list \<Rightarrow> nat \<Rightarrow> nat \<times> sink_call list" where
  "median_reference input n =
     (n, map (\<lambda>i. SinkOut i (run_network network (median_window (ring input) i) ! median_index)) [0..<n])"

definition slots :: "string list" where
  "slots = [''a'', ''b'', ''c'', ''d'', ''e'']"

definition swap_line :: "nat \<times> nat \<Rightarrow> string" where
  "swap_line c =
     (let x = slots ! fst c; y = slots ! snd c
      in ''    if ('' @ x @ '' > '' @ y @ '') { t = '' @ x @ ''; '' @ x @ '' = '' @ y @ ''; '' @ y @ '' = t; }'')"

definition median_body :: string where
  "median_body = dsl
     (map (\<lambda>s. ''i32 '' @ s @ '' = 0;'') (slots @ [''t''])
      @ [''for (u32 i = 0; i != n; i++)'', ''{'']
      @ map (\<lambda>k. ''    '' @ slots ! k @ '' = sample_at(i - '' @ show_nat (taps - 1 - k) @ '');'') [0 ..< length slots]
      @ map swap_line network
      @ [''    out_at(i, '' @ slots ! median_index @ '');'', ''}'', ''return n;''])"

definition median5 :: workload where
  "median5 = \<lparr>wl_name = ''median5'', wl_kernel = ''refMedian5'', wl_params = [(''MEDIAN_TAPS'', int taps)],
     wl_body = median_body, wl_reference = (\<lambda>fuel input n. Some (median_reference input n)), wl_step = 1\<rparr>"

definition workloads :: "workload list" where
  "workloads = [pulse_trigger, iq_preamble, median5]"

definition workload_named :: "string \<Rightarrow> string + workload" where
  "workload_named name =
     (case find (\<lambda>w. wl_name w = name) workloads of
        None \<Rightarrow> Inl (''no workload named '' @ name)
      | Some w \<Rightarrow> Inr w)"

lemma mset_remove_nth: "i < length xs \<Longrightarrow> mset xs = add_mset (xs ! i) (mset (take i xs @ drop (Suc i) xs))"
  by (subst (1) id_take_nth_drop [of i xs]) simp_all

lemma permute_complete: "mset ys = mset xs \<Longrightarrow> ys \<in> set (permute xs)"
proof (induction xs arbitrary: ys rule: permute.induct)
  case (1 xs)
  show ?case
  proof (cases "length xs \<le> 1")
    case True
    then consider "xs = []" | x where "xs = [x]" by (cases xs) auto
    then have "ys = xs" using 1(2) by cases auto
    with True show ?thesis by (simp add: permute.simps [of xs])
  next
    case False
    then obtain y zs where ys: "ys = y # zs" using 1(2) by (cases ys) auto
    then have "y \<in> set xs" using 1(2) by (metis list.set_intros(1) mset_eq_setD)
    then obtain i where i: "i < length xs" "xs ! i = y" by (auto simp: in_set_conv_nth)
    have "mset zs = mset (take i xs @ drop (Suc i) xs)"
      using 1(2) mset_remove_nth [OF i(1)] by (simp add: ys i(2))
    then have "zs \<in> set (permute (take i xs @ drop (Suc i) xs))"
      using 1(1) [OF False, of i] i(1) by simp
    with False i show ?thesis unfolding permute.simps [of xs] ys by auto
  qed
qed

lemma permute_sound: "ys \<in> set (permute xs) \<Longrightarrow> mset ys = mset xs"
proof (induction xs arbitrary: ys rule: permute.induct)
  case (1 xs)
  show ?case
  proof (cases "length xs \<le> 1")
    case True
    with 1(2) show ?thesis by (simp add: permute.simps [of xs])
  next
    case False
    with 1(2) obtain i zs where i: "i < length xs" "ys = xs ! i # zs" "zs \<in> set (permute (take i xs @ drop (Suc i) xs))"
      unfolding permute.simps [of xs] by auto
    with 1(1) [OF False _ i(3)] show ?thesis by (simp add: mset_remove_nth [OF i(1)])
  qed
qed

text \<open>A comparator commutes with a monotone map of the values.\<close>

lemma exchange_mono:
  assumes "mono f" "fst c < length v" "snd c < length v"
  shows "map f (exchange v c) = exchange (map f v) c"
proof (cases "v ! fst c > v ! snd c")
  case True
  then have le: "f (v ! snd c) \<le> f (v ! fst c)" using assms(1) by (simp add: monoD)
  show ?thesis
  proof (cases "f (v ! snd c) = f (v ! fst c)")
    case eq: True
    have "(map f v)[fst c := f (v ! fst c), snd c := f (v ! snd c)] = map f v"
      using assms(2,3) by (metis list_update_id nth_map)
    with True eq assms(2,3) show ?thesis by (simp add: exchange_def map_update)
  next
    case False
    with True le assms(2,3) show ?thesis by (simp add: exchange_def map_update)
  qed
next
  case False
  then have "f (v ! fst c) \<le> f (v ! snd c)" using assms(1) by (simp add: monoD)
  then have "\<not> f (v ! snd c) < f (v ! fst c)" by simp
  with False assms(2,3) show ?thesis by (simp add: exchange_def del: not_less)
qed

lemma exchange_keeps:
  assumes "fst c < length v" "snd c < length v"
  shows "mset (exchange v c) = mset v" "length (exchange v c) = length v"
  using assms by (auto simp: exchange_def mset_swap list_update_swap)

lemma run_network_mono:
  assumes "mono f"
  shows "\<forall>c \<in> set net. fst c < length v \<and> snd c < length v \<Longrightarrow> map f (run_network net v) = run_network net (map f v)"
proof (induction net arbitrary: v)
  case (Cons c net)
  then have c: "fst c < length v" "snd c < length v" by simp_all
  have "map f (run_network net (exchange v c)) = run_network net (map f (exchange v c))"
    by (rule Cons.IH) (use Cons.prems exchange_keeps [OF c] in auto)
  then show ?case by (simp add: run_network_def exchange_mono [OF assms c])
qed (simp add: run_network_def)

lemma run_network_keeps:
  "\<forall>c \<in> set net. fst c < length v \<and> snd c < length v \<Longrightarrow> mset (run_network net v) = mset v"
proof (induction net arbitrary: v)
  case (Cons c net)
  then have c: "fst c < length v" "snd c < length v" by simp_all
  have "mset (run_network net (exchange v c)) = mset (exchange v c)"
    by (rule Cons.IH) (use Cons.prems exchange_keeps [OF c] in auto)
  then show ?case by (simp add: run_network_def exchange_keeps [OF c])
qed (simp add: run_network_def)

definition net_in_range :: "(nat \<times> nat) list \<Rightarrow> bool" where
  "net_in_range net \<longleftrightarrow> (\<forall>c \<in> set net. fst c < taps \<and> snd c < taps)"

lemma zero_one:
  fixes v :: "'a :: linorder list"
  assumes range: "\<forall>c \<in> set net. fst c < length v \<and> snd c < length v"
    and bools: "\<And>w :: bool list. length w = length v \<Longrightarrow> sorted (run_network net w)"
  shows "run_network net v = sort v"
proof -
  let ?r = "run_network net v"
  have "sorted ?r"
  proof (rule ccontr)
    assume "\<not> sorted ?r"
    then obtain i j where ij: "i < j" "j < length ?r" "?r ! j < ?r ! i"
      by (auto simp: sorted_iff_nth_mono_less not_le)
    let ?f = "\<lambda>x. ?r ! j < x"
    have "mono ?f" by (auto intro!: monoI)
    then have "map ?f ?r = run_network net (map ?f v)" by (rule run_network_mono) (use range in auto)
    then have "sorted (map ?f ?r)" using bools [of "map ?f v"] by simp
    then have "map ?f ?r ! i \<le> map ?f ?r ! j" using ij by (intro sorted_nth_mono) auto
    with ij show False by simp
  qed
  then show ?thesis by (intro properties_for_sort [symmetric]) (simp_all add: run_network_keeps [OF range])
qed

lemma network_in_range: "net_in_range network"
  by (simp add: net_in_range_def network_def taps_def)

lemma network_bools: "length w = taps \<Longrightarrow> sorted (run_network network (w :: bool list))"
proof -
  assume "length w = taps"
  then obtain a b c d e where "w = [a, b, c, d, e]"
    by (auto simp: taps_def length_Suc_conv eval_nat_numeral)
  then show ?thesis
    by (cases a; cases b; cases c; cases d; cases e; simp add: run_network_def network_def exchange_def)
qed

lemma network_sorts_any:
  fixes v :: "'a :: linorder list"
  assumes "length v = taps"
  shows "run_network network v = sort v"
  by (rule zero_one) (use assms network_in_range network_bools in \<open>auto simp: net_in_range_def\<close>)

lemma network_passes: "sorts_all network"
proof -
  have "run_network network p = [0..<taps]" if "p \<in> set (permute [0..<taps])" for p
  proof -
    have m: "mset p = mset [0..<taps]" using that by (rule permute_sound)
    then have "length p = taps" by (metis mset_eq_length length_upt diff_zero)
    then have "run_network network p = sort p" by (rule network_sorts_any)
    also have "\<dots> = [0..<taps]" by (rule properties_for_sort) (simp_all add: m)
    finally show ?thesis .
  qed
  then show ?thesis by (simp add: sorts_all_def list_all_iff)
qed

lemma list_of_image: "mset xs = image_mset f M \<Longrightarrow> \<exists>ys. mset ys = M \<and> xs = map f ys"
proof (induction xs arbitrary: M)
  case (Cons x xs)
  then have "x \<in># image_mset f M" by (metis list.set_intros(1) set_mset_mset)
  then obtain m where m: "m \<in># M" "x = f m" by auto
  then have "image_mset f M = add_mset x (image_mset f (M - {#m#}))" by (simp add: image_mset_Diff)
  with Cons.prems have "mset xs = image_mset f (M - {#m#})" by simp
  then obtain ys where "mset ys = M - {#m#}" "xs = map f ys" using Cons.IH by blast
  with m show ?case by (intro exI [of _ "m # ys"]) simp
qed simp

text \<open>
  Trying a network on the orderings of five distinct values, as \<^verbatim>\<open>networkSorts\<close> does, is
  enough: a network whose comparators stay inside the window and which passes that check sorts
  every list of five values of any ordered type, repeated values included.
\<close>

theorem network_check_suffices:
  fixes v :: "int list"
  assumes "sorts_all net" and "net_in_range net" and "length v = taps"
  shows "run_network net v = sort v"
proof -
  let ?w = "sort v" and ?f = "\<lambda>k. sort v ! min k (taps - 1)"
  have len: "length ?w = taps" using assms(3) by simp
  then have "map ?f [0..<taps] = map (nth ?w) [0..<taps]" by (auto simp: min_def taps_def)
  also have "\<dots> = ?w" using len by (metis map_nth)
  finally have w: "map ?f [0..<taps] = ?w" .
  then have "mset v = image_mset ?f (mset [0..<taps])" by (metis mset_map mset_sort)
  then obtain p where p: "mset p = mset [0..<taps]" "v = map ?f p" using list_of_image by blast
  have plen: "length p = taps" using p(2) assms(3) by (metis length_map)
  have "run_network net p = [0..<taps]"
    using assms(1) permute_complete [OF p(1)] by (simp add: sorts_all_def list_all_iff)
  moreover have "mono ?f"
    by (rule monoI) (rule sorted_nth_mono, use len in \<open>auto simp: taps_def\<close>)
  then have "map ?f (run_network net p) = run_network net (map ?f p)"
    by (rule run_network_mono) (use assms(2) plen in \<open>simp add: net_in_range_def\<close>)
  ultimately show ?thesis using p(2) w by simp
qed

lemma network_check_suffices_witness: "run_network network [7, 3, 7, -1, 0] = sort [7, 3, 7, -1, 0 :: int]"
  by (rule network_check_suffices) (rule network_passes, rule network_in_range, simp add: taps_def)

text \<open>
  The median workload's reference writes for every sample the median of the last five, the
  third of them in sorted order; the nine-comparator network it sorts them with passes the
  file's own brute-force check.
\<close>

theorem median_reference_correct:
  "median_reference input n = (n, map (\<lambda>i. SinkOut i (sort (median_window (ring input) i) ! 2)) [0..<n])
   \<and> network_sorts"
proof
  show "median_reference input n = (n, map (\<lambda>i. SinkOut i (sort (median_window (ring input) i) ! 2)) [0..<n])"
    by (simp add: median_reference_def network_sorts_any median_window_def median_index_def)
  show network_sorts by (simp add: network_sorts_def network_passes)
qed

end
