(* ===== verification/Stack_Margin.thy ===== *)
theory Stack_Margin
  imports Js_Text
begin

section \<open>The stack margin of a compiled image (\<^verbatim>\<open>tools/stack-margin.ts\<close>)\<close>

text \<open>
  The tool reads the call graphs the compiler writes (\<^verbatim>\<open>.ci\<close> files), and bounds how much stack
  a function can use: the deepest sum of frames along a call chain, a chain ending where a
  guarded function checks the stack again. What it cannot bound is a problem it reports:
  recursion, an unknown frame, an indirect or unresolved call. Modelled: the parser, resolution,
  the walk with its memo table, and the verdict. Files are the texts read, the two regular
  expressions of the command line are predicates on signatures.

  Proved: the walk needs no more fuel than there are signatures; and where it reports no
  problem, the number it prints is the maximum over all call chains.
\<close>

subsection \<open>The graph\<close>

record edge =
  edge_target :: string
  edge_loc :: string

record cnode =
  node_title :: string
  node_file :: string
  node_sig :: string
  node_loc :: string
  node_frame :: nat
  dynamic_frame :: bool
  dynamic_objects :: nat
  node_defined :: bool
  node_edges :: "edge list"

definition indirect :: string where
  "indirect = ''__indirect_call''"

subsubsection \<open>\<^verbatim>\<open>field\<close>\<close>

definition word_char :: "char \<Rightarrow> bool" where
  "word_char c \<longleftrightarrow> (let n = of_char c :: nat in
     48 \<le> n \<and> n \<le> 57 \<or> 65 \<le> n \<and> n \<le> 90 \<or> 97 \<le> n \<and> n \<le> 122 \<or> n = 95)"

text \<open>The quoted text up to the closing quote; a backslash takes the next character with it.\<close>

fun quoted :: "string \<Rightarrow> string option" where
  "quoted [] = None"
| "quoted (c # cs) =
     (if c = CHR 0x22 then Some []
      else if c = CHR 0x5C then
        (case cs of [] \<Rightarrow> None | d # ds \<Rightarrow> map_option (\<lambda>r. c # d # r) (quoted ds))
      else map_option (\<lambda>r. c # r) (quoted cs))"

definition field_here :: "string \<Rightarrow> string \<Rightarrow> string option" where
  "field_here key s =
     (if starts_with key s
      then (case dropWhile is_space (drop (length key) s) of
              c # r \<Rightarrow>
                if c = CHR '':''
                then (case dropWhile is_space r of q # t \<Rightarrow> if q = CHR 0x22 then quoted t else None | [] \<Rightarrow> None)
                else None
            | [] \<Rightarrow> None)
      else None)"

text \<open>The first position at a word boundary where the pattern matches.\<close>

fun field_from :: "bool \<Rightarrow> string \<Rightarrow> string \<Rightarrow> string option" where
  "field_from after_word key [] = None"
| "field_from after_word key (c # cs) =
     (case (if after_word = word_char c then None else field_here key (c # cs)) of
        Some v \<Rightarrow> Some v
      | None \<Rightarrow> field_from (word_char c) key cs)"

definition field :: "string \<Rightarrow> string \<Rightarrow> string option" where
  "field l key = field_from False key l"

subsubsection \<open>Names\<close>

text \<open>What follows the last colon.\<close>

definition bare_name :: "string \<Rightarrow> string" where
  "bare_name title = rev (takeWhile (\<lambda>c. c \<noteq> CHR '':'') (rev title))"

text \<open>The first \<^verbatim>\<open>[CD][0-3]E\<close> of a name: what precedes it, its letter and what follows.\<close>

fun ctor_mark :: "string \<Rightarrow> (string \<times> char \<times> string) option" where
  "ctor_mark (a # d # e # r) =
     (if a \<in> set ''CD'' \<and> d \<in> set ''0123'' \<and> e = CHR ''E'' then Some ([], a, r)
      else map_option (\<lambda>(p, q). (a # p, q)) (ctor_mark (d # e # r)))"
| "ctor_mark _ = None"

definition aliases :: "string \<Rightarrow> string list" where
  "aliases name =
     (case ctor_mark name of
        None \<Rightarrow> [name]
      | Some (p, a, r) \<Rightarrow> map (\<lambda>d. p @ [a, d] @ ''E'' @ r) ''0123'')"

subsubsection \<open>\<^verbatim>\<open>parse\<close>\<close>

text \<open>\<^verbatim>\<open>split('\\n')\<close>: at a backslash followed by an \<^verbatim>\<open>n\<close>.\<close>

fun split_escaped :: "string \<Rightarrow> string list" where
  "split_escaped [] = [[]]"
| "split_escaped [c] = [[c]]"
| "split_escaped (c # d # cs) =
     (if c = CHR 0x5C \<and> d = CHR ''n'' then [] # split_escaped cs
      else case split_escaped (d # cs) of [] \<Rightarrow> [[c]] | l # ls \<Rightarrow> (c # l) # ls)"

text \<open>\<^verbatim>\<open>/^(\d+) bytes \((static|dynamic)\)$/\<close> and \<^verbatim>\<open>/^(\d+) dynamic objects$/\<close>.\<close>

definition number_then :: "string \<Rightarrow> string \<Rightarrow> nat option" where
  "number_then rest p =
     (let ds = takeWhile is_digit p
      in if ds \<noteq> [] \<and> dropWhile is_digit p = rest then read_digits 0 ds else None)"

definition new_node :: "string \<Rightarrow> string \<Rightarrow> cnode" where
  "new_node file title =
     \<lparr>node_title = title, node_file = file, node_sig = title, node_loc = ''?'', node_frame = 0,
      dynamic_frame = False, dynamic_objects = 0, node_defined = False, node_edges = []\<rparr>"

text \<open>A \<^verbatim>\<open>Map\<close> from titles to nodes, in insertion order; \<open>upd_at\<close> is \<^verbatim>\<open>at(title)\<close> and a change of it.\<close>

type_synonym graph = "(string \<times> cnode) list"

fun upd_at :: "string \<Rightarrow> string \<Rightarrow> (cnode \<Rightarrow> cnode) \<Rightarrow> graph \<Rightarrow> graph" where
  "upd_at file title f [] = [(title, f (new_node file title))]"
| "upd_at file title f ((t, n) # g) = (if t = title then (t, f n) # g else (t, n) # upd_at file title f g)"

definition read_part :: "string \<Rightarrow> cnode \<Rightarrow> cnode" where
  "read_part p n =
     (let n = (case number_then '' bytes (static)'' p of
                 Some b \<Rightarrow> n\<lparr>node_defined := True, node_frame := b, dynamic_frame := False\<rparr>
               | None \<Rightarrow>
                   (case number_then '' bytes (dynamic)'' p of
                      Some b \<Rightarrow> n\<lparr>node_defined := True, node_frame := b, dynamic_frame := True\<rparr>
                    | None \<Rightarrow> n))
      in case number_then '' dynamic objects'' p of
           Some k \<Rightarrow> n\<lparr>dynamic_objects := k\<rparr>
         | None \<Rightarrow> n)"

definition node_line :: "string \<Rightarrow> string \<Rightarrow> cnode \<Rightarrow> cnode" where
  "node_line title label n =
     (let parts = split_escaped label
      in fold read_part parts
           (n\<lparr>node_sig := nth_default title parts 0, node_loc := nth_default ''?'' parts 1\<rparr>))"

definition parse_line :: "string \<Rightarrow> graph \<Rightarrow> string \<Rightarrow> graph" where
  "parse_line file g l =
     (if starts_with ''node:'' l then
        (case field l ''title'' of
           None \<Rightarrow> g
         | Some title \<Rightarrow>
             upd_at file title (node_line title (case field l ''label'' of None \<Rightarrow> [] | Some s \<Rightarrow> s)) g)
      else if starts_with ''edge:'' l then
        (case (field l ''sourcename'', field l ''targetname'') of
           (Some src, Some dst) \<Rightarrow>
             upd_at file src (\<lambda>n. n\<lparr>node_edges := node_edges n @
               [\<lparr>edge_target = dst, edge_loc = (case field l ''label'' of None \<Rightarrow> ''?'' | Some s \<Rightarrow> s)\<rparr>]\<rparr>) g
         | _ \<Rightarrow> g)
      else g)"

definition parse :: "string \<Rightarrow> string \<Rightarrow> graph" where
  "parse file content = foldl (parse_line file) [] (split_lines content)"

subsection \<open>Resolution\<close>

text \<open>The files read, in order, and the two predicates: a signature is guarded, or asked for.\<close>

type_synonym files = "(string \<times> graph) list"

definition all_nodes :: "files \<Rightarrow> cnode list" where
  "all_nodes fs = concat (map (\<lambda>(_, g). map snd g) fs)"

definition defs_of :: "files \<Rightarrow> string \<Rightarrow> cnode list" where
  "defs_of fs key = filter (\<lambda>n. node_defined n \<and> bare_name (node_title n) = key) (all_nodes fs)"

record wresult =
  res_bytes :: nat
  res_path :: "cnode list"

record wstate =
  problems :: "string list"
  cuts :: "string list"
  memo :: "string \<rightharpoonup> wresult"
  exhausted :: bool

definition add_once :: "string \<Rightarrow> string list \<Rightarrow> string list" where
  "add_once m ms = (if m \<in> set ms then ms else ms @ [m])"

definition fail :: "string \<Rightarrow> cnode \<Rightarrow> string \<Rightarrow> wstate \<Rightarrow> wstate" where
  "fail what origin loc st =
     st\<lparr>problems := add_once (what @ '' (from '' @ node_sig origin @ '' at '' @ loc @ '')'') (problems st)\<rparr>"

definition local_def :: "files \<Rightarrow> cnode \<Rightarrow> string \<Rightarrow> cnode option" where
  "local_def fs origin target =
     (case map_of fs (node_file origin) of
        None \<Rightarrow> None
      | Some g \<Rightarrow> (case map_of g target of Some n \<Rightarrow> if node_defined n then Some n else None | None \<Rightarrow> None))"

text \<open>The targets of a call; an empty list with a problem reported where there is none.\<close>

definition targets :: "files \<Rightarrow> cnode \<Rightarrow> edge \<Rightarrow> cnode list" where
  "targets fs origin e =
     (case local_def fs origin (edge_target e) of
        Some n \<Rightarrow> [n]
      | None \<Rightarrow>
          (case find (\<lambda>a. defs_of fs a \<noteq> []) (aliases (bare_name (edge_target e))) of
             None \<Rightarrow> []
           | Some a \<Rightarrow> defs_of fs a))"

definition resolve :: "files \<Rightarrow> cnode \<Rightarrow> edge \<Rightarrow> wstate \<Rightarrow> cnode list \<times> wstate" where
  "resolve fs origin e st =
     (let ns = targets fs origin e
      in if ns = [] then ([], fail (''unresolved call to '' @ bare_name (edge_target e)) origin (edge_loc e) st)
         else (ns, st))"

subsection \<open>The walk\<close>

definition no_result :: wresult where
  "no_result = \<lparr>res_bytes = 0, res_path = []\<rparr>"

definition better :: "wresult \<Rightarrow> wresult \<Rightarrow> wresult" where
  "better c r = (if res_bytes c > res_bytes r then c else r)"

definition node_key :: "cnode \<Rightarrow> string" where
  "node_key n = node_file n @ ''|'' @ node_title n"

definition check_frame :: "cnode \<Rightarrow> wstate \<Rightarrow> wstate" where
  "check_frame n st =
     (let st = (if dynamic_frame n then fail (''dynamic frame in '' @ node_sig n) n (node_loc n) st else st)
      in if dynamic_objects n > 0
         then fail (show_nat (dynamic_objects n) @ '' dynamic object(s) in '' @ node_sig n) n (node_loc n) st
         else st)"

definition cut :: "cnode \<Rightarrow> cnode list \<Rightarrow> wstate \<Rightarrow> wstate" where
  "cut n stack st =
     st\<lparr>cuts := add_once (node_sig n @ '' (guarded, frame only, below '' @ node_sig (last stack) @ '')'') (cuts st)\<rparr>"

text \<open>
  \<^verbatim>\<open>walk\<close>, its loop over the edges and \<^verbatim>\<open>best\<close>. The depth of the recursion is the fuel; running
  out of it is recorded.
\<close>

function (sequential) walk :: "files \<Rightarrow> (string \<Rightarrow> bool) \<Rightarrow> nat \<Rightarrow> cnode \<Rightarrow> cnode list \<Rightarrow> wstate \<Rightarrow> wresult \<times> wstate"
  and walk_edges :: "files \<Rightarrow> (string \<Rightarrow> bool) \<Rightarrow> nat \<Rightarrow> cnode \<Rightarrow> edge list \<Rightarrow> cnode list \<Rightarrow> wresult \<Rightarrow> wstate \<Rightarrow> wresult \<times> wstate"
  and best :: "files \<Rightarrow> (string \<Rightarrow> bool) \<Rightarrow> nat \<Rightarrow> cnode list \<Rightarrow> cnode list \<Rightarrow> wresult \<Rightarrow> wstate \<Rightarrow> wresult \<times> wstate" where
  "walk fs guard 0 n stack st = (no_result, st\<lparr>exhausted := True\<rparr>)"
| "walk fs guard (Suc f) n stack st =
     (if stack \<noteq> [] \<and> guard (node_sig n)
      then (\<lparr>res_bytes = node_frame n, res_path = [n]\<rparr>, cut n stack st)
      else if list_ex (\<lambda>s. node_sig s = node_sig n) stack
      then (no_result, fail (''unguarded recursion through '' @ node_sig n) (last stack) (node_loc n) st)
      else case memo st (node_key n) of
             Some r \<Rightarrow> (r, st)
           | None \<Rightarrow>
               (let st1 = check_frame n st;
                    (below, st2) = walk_edges fs guard f n (node_edges n) (stack @ [n]) no_result st1;
                    r = \<lparr>res_bytes = node_frame n + res_bytes below, res_path = n # res_path below\<rparr>
                in (r, if length (cuts st2) = length (cuts st1) then st2\<lparr>memo := (memo st2)(node_key n \<mapsto> r)\<rparr> else st2)))"
| "walk_edges fs guard f n [] stack below st = (below, st)"
| "walk_edges fs guard f n (e # es) stack below st =
     (if edge_target e = indirect
      then walk_edges fs guard f n es stack below (fail ''indirect call'' n (edge_loc e) st)
      else
        (let (ns, st1) = resolve fs n e st;
             (c, st2) = best fs guard f ns stack no_result st1
         in walk_edges fs guard f n es stack (better c below) st2))"
| "best fs guard f [] stack r st = (r, st)"
| "best fs guard f (n # ns) stack r st =
     (let (c, st1) = walk fs guard f n stack st
      in best fs guard f ns stack (better c r) st1)"
  by pat_completeness auto

termination
  by (relation "inv_image (less_than <*lex*> less_than <*lex*> less_than)
      (case_sum (\<lambda>(_, _, f, _). (f, 0, 0))
        (case_sum (\<lambda>(_, _, f, _, es, _). (f, 2, length es)) (\<lambda>(_, _, f, ns, _). (f, 1, length ns))))")
    auto

lemmas walk_defs = walk.simps walk_edges.simps best.simps

declare walk_defs [simp del]

subsection \<open>The steps of the walk\<close>

definition walked :: "cnode \<Rightarrow> wresult \<Rightarrow> wresult" where
  "walked n below = \<lparr>res_bytes = node_frame n + res_bytes below, res_path = n # res_path below\<rparr>"

definition remember :: "cnode \<Rightarrow> wresult \<Rightarrow> wstate \<Rightarrow> wstate \<Rightarrow> wstate" where
  "remember n r before st =
     (if length (cuts st) = length (cuts before) then st\<lparr>memo := (memo st)(node_key n \<mapsto> r)\<rparr> else st)"

definition on_stack :: "cnode \<Rightarrow> cnode list \<Rightarrow> bool" where
  "on_stack n stack \<longleftrightarrow> node_sig n \<in> node_sig ` set stack"

lemma walk_cases:
  "stack \<noteq> [] \<and> guard (node_sig n) \<Longrightarrow>
     walk fs guard (Suc f) n stack st = (\<lparr>res_bytes = node_frame n, res_path = [n]\<rparr>, cut n stack st)"
  "\<not> (stack \<noteq> [] \<and> guard (node_sig n)) \<Longrightarrow> on_stack n stack \<Longrightarrow>
     walk fs guard (Suc f) n stack st =
       (no_result, fail (''unguarded recursion through '' @ node_sig n) (last stack) (node_loc n) st)"
  "\<not> (stack \<noteq> [] \<and> guard (node_sig n)) \<Longrightarrow> \<not> on_stack n stack \<Longrightarrow> memo st (node_key n) = Some r \<Longrightarrow>
     walk fs guard (Suc f) n stack st = (r, st)"
  "\<not> (stack \<noteq> [] \<and> guard (node_sig n)) \<Longrightarrow> \<not> on_stack n stack \<Longrightarrow> memo st (node_key n) = None \<Longrightarrow>
     W = walk_edges fs guard f n (node_edges n) (stack @ [n]) no_result (check_frame n st) \<Longrightarrow>
     walk fs guard (Suc f) n stack st =
       (walked n (fst W), remember n (walked n (fst W)) (check_frame n st) (snd W))"
proof -
  have "list_ex (\<lambda>s. node_sig s = node_sig n) stack = on_stack n stack"
    by (auto simp: on_stack_def list_ex_iff intro: rev_image_eqI)
  note eq = walk.simps(2) [of fs guard f n stack st, unfolded this]
  show "stack \<noteq> [] \<and> guard (node_sig n) \<Longrightarrow>
     walk fs guard (Suc f) n stack st = (\<lparr>res_bytes = node_frame n, res_path = [n]\<rparr>, cut n stack st)"
    by (simp add: eq)
  show "\<not> (stack \<noteq> [] \<and> guard (node_sig n)) \<Longrightarrow> on_stack n stack \<Longrightarrow>
     walk fs guard (Suc f) n stack st =
       (no_result, fail (''unguarded recursion through '' @ node_sig n) (last stack) (node_loc n) st)"
    by (simp only: eq if_False if_True)
  show "\<not> (stack \<noteq> [] \<and> guard (node_sig n)) \<Longrightarrow> \<not> on_stack n stack \<Longrightarrow> memo st (node_key n) = Some r \<Longrightarrow>
     walk fs guard (Suc f) n stack st = (r, st)"
    by (simp only: eq if_False option.case)
  show "\<not> (stack \<noteq> [] \<and> guard (node_sig n)) \<Longrightarrow> \<not> on_stack n stack \<Longrightarrow> memo st (node_key n) = None \<Longrightarrow>
     W = walk_edges fs guard f n (node_edges n) (stack @ [n]) no_result (check_frame n st) \<Longrightarrow>
     walk fs guard (Suc f) n stack st =
       (walked n (fst W), remember n (walked n (fst W)) (check_frame n st) (snd W))"
    by (simp only: eq if_False option.case walked_def remember_def Let_def split_beta fst_conv snd_conv)
qed

lemma walk_edges_Cons:
  "edge_target e = indirect \<Longrightarrow>
     walk_edges fs guard f n (e # es) stack below st = walk_edges fs guard f n es stack below (fail ''indirect call'' n (edge_loc e) st)"
  "edge_target e \<noteq> indirect \<Longrightarrow>
     B = best fs guard f (targets fs n e) stack no_result (snd (resolve fs n e st)) \<Longrightarrow>
     walk_edges fs guard f n (e # es) stack below st = walk_edges fs guard f n es stack (better (fst B) below) (snd B)"
  by (auto simp: walk_defs resolve_def Let_def split: prod.splits)

lemma best_Cons:
  "W = walk fs guard f n stack st \<Longrightarrow>
     best fs guard f (n # ns) stack r st = best fs guard f ns stack (better (fst W) r) (snd W)"
  by (auto simp: walk_defs split: prod.splits)

lemmas walk_nils [simp] = walk.simps(1) walk_edges.simps(1) best.simps(1)

lemma state_simps [simp]:
  "exhausted (fail w m l st) = exhausted st" "exhausted (cut m stack st) = exhausted st"
  "exhausted (check_frame n st) = exhausted st" "memo (fail w m l st) = memo st" "memo (cut m stack st) = memo st"
  "memo (check_frame n st) = memo st" "problems (cut m stack st) = problems st"
  "problems (fail w m l st) \<noteq> []" "problems (remember n r before st) = problems st"
  "exhausted (remember n r before st) = exhausted st"
  by (auto simp: fail_def cut_def check_frame_def add_once_def Let_def remember_def)

lemma set_all_nodes: "(f, g) \<in> set fs \<Longrightarrow> (t, n) \<in> set g \<Longrightarrow> n \<in> set (all_nodes fs)"
  by (force simp: all_nodes_def)

lemma targets_known: "set (targets fs n e) \<subseteq> set (all_nodes fs)"
  by (auto simp: targets_def local_def_def defs_of_def dest!: map_of_SomeD
      split: option.splits if_splits intro: set_all_nodes)

lemma resolve_simps [simp]:
  "exhausted (snd (resolve fs n e st)) = exhausted st" "memo (snd (resolve fs n e st)) = memo st"
  by (auto simp: resolve_def Let_def)

subsection \<open>The fuel is enough\<close>

abbreviation sigs_left :: "files \<Rightarrow> cnode list \<Rightarrow> string set" where
  "sigs_left fs stack \<equiv> node_sig ` set (all_nodes fs) - node_sig ` set stack"

lemma sigs_left_push:
  assumes "n \<in> set (all_nodes fs)" "\<not> on_stack n stack"
  shows "card (sigs_left fs (stack @ [n])) < card (sigs_left fs stack)"
proof -
  have "sigs_left fs (stack @ [n]) = sigs_left fs stack - {node_sig n}" by auto
  moreover have "node_sig n \<in> sigs_left fs stack" using assms by (auto simp: on_stack_def)
  ultimately show ?thesis by (simp only:) (rule card_Diff1_less, simp_all)
qed

lemma best_exhausted:
  assumes walk: "\<And>n st. n \<in> set (all_nodes fs) \<Longrightarrow> exhausted (snd (walk fs guard f n stack st)) = exhausted st"
  shows "set ns \<subseteq> set (all_nodes fs) \<Longrightarrow> exhausted (snd (best fs guard f ns stack r st)) = exhausted st"
  by (induction ns arbitrary: r st) (simp_all add: best_Cons [OF refl] walk)

lemma edges_exhausted:
  assumes walk: "\<And>n st. n \<in> set (all_nodes fs) \<Longrightarrow> exhausted (snd (walk fs guard f n stack st)) = exhausted st"
  shows "exhausted (snd (walk_edges fs guard f n es stack below st)) = exhausted st"
proof (induction es arbitrary: below st)
  case (Cons e es)
  show ?case
  proof (cases "edge_target e = indirect")
    case True
    then show ?thesis by (simp add: walk_edges_Cons(1) Cons.IH)
  next
    case False
    then show ?thesis
      by (simp add: walk_edges_Cons(2) [OF False refl] Cons.IH best_exhausted [OF walk targets_known])
  qed
qed simp

lemma fuel_enough:
  "n \<in> set (all_nodes fs) \<Longrightarrow> card (sigs_left fs stack) < f \<Longrightarrow>
     exhausted (snd (walk fs guard f n stack st)) = exhausted st"
proof (induction f arbitrary: n stack st)
  case (Suc f)
  consider "stack \<noteq> [] \<and> guard (node_sig n)" | "\<not> (stack \<noteq> [] \<and> guard (node_sig n))" "on_stack n stack"
    | r where "\<not> (stack \<noteq> [] \<and> guard (node_sig n))" "\<not> on_stack n stack" "memo st (node_key n) = Some r"
    | "\<not> (stack \<noteq> [] \<and> guard (node_sig n))" "\<not> on_stack n stack" "memo st (node_key n) = None"
    by (cases "memo st (node_key n)") blast+
  then show ?case
  proof cases
    case 4
    have "card (sigs_left fs (stack @ [n])) < f"
      using sigs_left_push [OF Suc.prems(1) 4(2)] Suc.prems(2) by linarith
    then have "exhausted (snd (walk fs guard f m (stack @ [n]) st)) = exhausted st" if "m \<in> set (all_nodes fs)" for m st
      using Suc.IH that by blast
    then show ?thesis by (simp add: walk_cases(4) [where guard = guard, OF 4 refl] edges_exhausted)
  qed (simp_all add: walk_cases)
qed simp

subsection \<open>What the number means\<close>

definition calls_to :: "files \<Rightarrow> cnode \<Rightarrow> cnode \<Rightarrow> bool" where
  "calls_to fs n m \<longleftrightarrow> (\<exists>e \<in> set (node_edges n). edge_target e \<noteq> indirect \<and> m \<in> set (targets fs n e))"

text \<open>A chain of calls ends anywhere, and ends at a guarded callee if it reaches one.\<close>

inductive chain :: "files \<Rightarrow> (string \<Rightarrow> bool) \<Rightarrow> cnode \<Rightarrow> cnode list \<Rightarrow> bool" for fs guard where
  chain_here: "chain fs guard n [n]"
| chain_guarded: "calls_to fs n m \<Longrightarrow> guard (node_sig m) \<Longrightarrow> chain fs guard n [n, m]"
| chain_call: "calls_to fs n m \<Longrightarrow> \<not> guard (node_sig m) \<Longrightarrow> chain fs guard m p \<Longrightarrow> chain fs guard n (n # p)"

text \<open>The functions whose own frame lies within the margin's calls.\<close>

inductive inside :: "files \<Rightarrow> (string \<Rightarrow> bool) \<Rightarrow> cnode \<Rightarrow> cnode \<Rightarrow> bool" for fs guard where
  inside_here: "inside fs guard n n"
| inside_call: "calls_to fs n m \<Longrightarrow> \<not> guard (node_sig m) \<Longrightarrow> inside fs guard m k \<Longrightarrow> inside fs guard n k"

definition settled :: "files \<Rightarrow> cnode \<Rightarrow> bool" where
  "settled fs n \<longleftrightarrow> \<not> dynamic_frame n \<and> dynamic_objects n = 0
     \<and> (\<forall>e \<in> set (node_edges n). edge_target e \<noteq> indirect \<and> targets fs n e \<noteq> [])"

definition frames :: "cnode list \<Rightarrow> nat" where
  "frames p = sum_list (map node_frame p)"

definition margin :: "files \<Rightarrow> (string \<Rightarrow> bool) \<Rightarrow> cnode \<Rightarrow> wresult \<Rightarrow> bool" where
  "margin fs guard n r \<longleftrightarrow>
     (\<forall>p. chain fs guard n p \<longrightarrow> frames p \<le> res_bytes r)
     \<and> chain fs guard n (res_path r) \<and> frames (res_path r) = res_bytes r
     \<and> (\<forall>m. inside fs guard n m \<longrightarrow> settled fs m)"

text \<open>The same for a callee, which a guard stops at its own frame.\<close>

definition tail_chain :: "files \<Rightarrow> (string \<Rightarrow> bool) \<Rightarrow> cnode \<Rightarrow> cnode list \<Rightarrow> bool" where
  "tail_chain fs guard m p \<longleftrightarrow> (if guard (node_sig m) then p = [m] else chain fs guard m p)"

text \<open>\<open>reaches m p\<close> are the chains to bound from \<open>m\<close>, \<open>fine m\<close> what must hold of them.\<close>

definition covers :: "(cnode \<Rightarrow> cnode list \<Rightarrow> bool) \<Rightarrow> (cnode \<Rightarrow> bool) \<Rightarrow> cnode set \<Rightarrow> wresult \<Rightarrow> bool" where
  "covers reaches fine S r \<longleftrightarrow>
     (\<forall>m \<in> S. (\<forall>p. reaches m p \<longrightarrow> frames p \<le> res_bytes r) \<and> fine m)
     \<and> (r = no_result \<or> (\<exists>m \<in> S. reaches m (res_path r) \<and> frames (res_path r) = res_bytes r))"

definition all_settled :: "files \<Rightarrow> (string \<Rightarrow> bool) \<Rightarrow> cnode \<Rightarrow> bool" where
  "all_settled fs guard n \<longleftrightarrow> (\<forall>m. inside fs guard n m \<longrightarrow> settled fs m)"

abbreviation covers_calls :: "files \<Rightarrow> (string \<Rightarrow> bool) \<Rightarrow> cnode set \<Rightarrow> wresult \<Rightarrow> bool" where
  "covers_calls fs guard \<equiv> covers (tail_chain fs guard) (\<lambda>m. guard (node_sig m) \<or> all_settled fs guard m)"

abbreviation covers_roots :: "files \<Rightarrow> (string \<Rightarrow> bool) \<Rightarrow> cnode set \<Rightarrow> wresult \<Rightarrow> bool" where
  "covers_roots fs guard \<equiv> covers (chain fs guard) (all_settled fs guard)"

lemma covers_empty [simp]: "covers reaches fine {} no_result"
  by (simp add: covers_def)

lemma covers_better:
  assumes "covers reaches fine S r" "covers reaches fine T c"
  shows "covers reaches fine (S \<union> T) (better c r)"
proof -
  have le: "res_bytes r \<le> res_bytes (better c r)" "res_bytes c \<le> res_bytes (better c r)"
    by (simp_all add: better_def)
  have "better c r = r \<or> better c r = c \<and> c \<noteq> no_result"
    by (auto simp: better_def no_result_def)
  then have path: "better c r = no_result \<or>
      (\<exists>m \<in> S \<union> T. reaches m (res_path (better c r)) \<and> frames (res_path (better c r)) = res_bytes (better c r))"
    using assms unfolding covers_def by auto
  have "(\<forall>p. reaches m p \<longrightarrow> frames p \<le> res_bytes (better c r)) \<and> fine m" if "m \<in> S \<union> T" for m
    using assms that le unfolding covers_def by (meson Un_iff order_trans)
  with path show ?thesis unfolding covers_def by blast
qed

lemma covers_margin:
  "\<not> guard (node_sig m) \<Longrightarrow> margin fs guard m r \<Longrightarrow> covers_calls fs guard {m} r"
  "margin fs guard m r \<Longrightarrow> covers_roots fs guard {m} r"
  by (auto simp: covers_def margin_def tail_chain_def all_settled_def)

lemma covers_guarded: "guard (node_sig m) \<Longrightarrow> covers_calls fs guard {m} \<lparr>res_bytes = node_frame m, res_path = [m]\<rparr>"
  by (simp add: covers_def tail_chain_def frames_def)

lemma chain_cases:
  "chain fs guard n p \<longleftrightarrow> p = [n] \<or> (\<exists>m q. calls_to fs n m \<and> tail_chain fs guard m q \<and> p = n # q)"
  by (auto simp: tail_chain_def chain.simps [of fs guard n p])

lemma walked_margin:
  assumes "covers_calls fs guard {m. calls_to fs n m} below" and "settled fs n"
  shows "margin fs guard n (walked n below)"
  unfolding margin_def
proof (intro conjI allI impI)
  fix p
  assume "chain fs guard n p"
  then show "frames p \<le> res_bytes (walked n below)"
    using assms(1) unfolding chain_cases [of _ _ n] covers_def walked_def by (auto simp: frames_def)
next
  show "chain fs guard n (res_path (walked n below))" "frames (res_path (walked n below)) = res_bytes (walked n below)"
    using assms(1) unfolding chain_cases [of _ _ n] covers_def walked_def by (auto simp: frames_def no_result_def)
next
  fix m
  assume "inside fs guard n m"
  then show "settled fs m"
    using assms by (cases rule: inside.cases) (auto simp: covers_def all_settled_def)
qed

subsection \<open>No problem is forgotten\<close>

definition clean :: "wstate \<Rightarrow> bool" where
  "clean st \<longleftrightarrow> problems st = [] \<and> \<not> exhausted st"

lemma clean_simps [simp]:
  "\<not> clean (fail w m l st)" "clean (cut m stack st) = clean st" "clean (remember n r before st) = clean st"
  "clean (st\<lparr>exhausted := True\<rparr>) = False"
  by (simp_all add: clean_def)

lemma clean_check_frame: "clean (check_frame n st) \<longleftrightarrow> clean st \<and> \<not> dynamic_frame n \<and> dynamic_objects n = 0"
  by (auto simp: check_frame_def Let_def)

lemma clean_resolve: "clean (snd (resolve fs n e st)) \<longleftrightarrow> clean st \<and> targets fs n e \<noteq> []"
  by (simp add: resolve_def Let_def)

definition memo_ok :: "files \<Rightarrow> (string \<Rightarrow> bool) \<Rightarrow> wstate \<Rightarrow> bool" where
  "memo_ok fs guard st \<longleftrightarrow>
     (\<forall>n \<in> set (all_nodes fs). \<forall>r. memo st (node_key n) = Some r \<longrightarrow> margin fs guard n r)"

lemma memo_ok_simps [simp]:
  "memo_ok fs guard (cut m stack st) = memo_ok fs guard st" "memo_ok fs guard (check_frame n st) = memo_ok fs guard st"
  "memo_ok fs guard (snd (resolve fs n e st)) = memo_ok fs guard st"
  by (simp_all add: memo_ok_def)

lemma memo_ok_remember:
  assumes "inj_on node_key (set (all_nodes fs))" "n \<in> set (all_nodes fs)"
    and "memo_ok fs guard st" "margin fs guard n r"
  shows "memo_ok fs guard (remember n r before st)"
  using assms by (auto simp: memo_ok_def remember_def dest: inj_onD)

text \<open>What one walk promises: a clean outcome from a sound memo is a margin and a sound memo.\<close>

definition sound_walk :: "files \<Rightarrow> (string \<Rightarrow> bool) \<Rightarrow> nat \<Rightarrow> cnode list \<Rightarrow> bool" where
  "sound_walk fs guard f stack \<longleftrightarrow>
     (\<forall>n st. n \<in> set (all_nodes fs) \<longrightarrow> clean (snd (walk fs guard f n stack st)) \<longrightarrow>
        clean st \<and> (memo_ok fs guard st \<longrightarrow>
          memo_ok fs guard (snd (walk fs guard f n stack st))
          \<and> (if stack \<noteq> [] then covers_calls fs guard {n} (fst (walk fs guard f n stack st))
             else covers_roots fs guard {n} (fst (walk fs guard f n stack st)))))"

definition covers_at :: "files \<Rightarrow> (string \<Rightarrow> bool) \<Rightarrow> cnode list \<Rightarrow> cnode set \<Rightarrow> wresult \<Rightarrow> bool" where
  "covers_at fs guard stack S r = (if stack \<noteq> [] then covers_calls fs guard S r else covers_roots fs guard S r)"

lemma covers_at_better:
  "covers_at fs guard stack S r \<Longrightarrow> covers_at fs guard stack T c \<Longrightarrow> covers_at fs guard stack (S \<union> T) (better c r)"
  unfolding covers_at_def by (simp add: covers_better split: if_splits)

lemma best_sound:
  assumes walk: "sound_walk fs guard f stack"
  shows "set ns \<subseteq> set (all_nodes fs) \<Longrightarrow> clean (snd (best fs guard f ns stack r st)) \<Longrightarrow>
    clean st \<and> (memo_ok fs guard st \<longrightarrow> covers_at fs guard stack S r \<longrightarrow>
      memo_ok fs guard (snd (best fs guard f ns stack r st))
      \<and> covers_at fs guard stack (S \<union> set ns) (fst (best fs guard f ns stack r st)))"
proof (induction ns arbitrary: r st S)
  case (Cons n ns)
  define W where "W = walk fs guard f n stack st"
  have eq: "best fs guard f (n # ns) stack r st = best fs guard f ns stack (better (fst W) r) (snd W)"
    by (rule best_Cons) (rule W_def)
  note IH = Cons.IH [of "better (fst W) r" "snd W" "insert n S"]
  have cl: "clean (snd W)" using Cons.prems IH by (simp add: eq)
  have n: "n \<in> set (all_nodes fs)" using Cons.prems(1) by simp
  have W: "clean st" "memo_ok fs guard st \<Longrightarrow> memo_ok fs guard (snd W)"
    and cov: "memo_ok fs guard st \<Longrightarrow> covers_at fs guard stack {n} (fst W)"
    using walk [unfolded sound_walk_def, rule_format, OF n cl [unfolded W_def], folded W_def]
    by (simp_all add: covers_at_def)
  have "covers_at fs guard stack (insert n S) (better (fst W) r)" if "memo_ok fs guard st" "covers_at fs guard stack S r"
    using covers_at_better [OF that(2) cov [OF that(1)]] by simp
  with W(1,2) IH Cons.prems show ?case by (simp add: eq)
qed simp

lemma edges_sound:
  assumes walk: "sound_walk fs guard f stack" and "stack \<noteq> []"
  shows "clean (snd (walk_edges fs guard f n es stack below st)) \<Longrightarrow>
    clean st \<and> (\<forall>e \<in> set es. edge_target e \<noteq> indirect \<and> targets fs n e \<noteq> [])
    \<and> (memo_ok fs guard st \<longrightarrow> covers_at fs guard stack S below \<longrightarrow>
      memo_ok fs guard (snd (walk_edges fs guard f n es stack below st))
      \<and> covers_at fs guard stack (S \<union> (\<Union>e \<in> set es. set (targets fs n e))) (fst (walk_edges fs guard f n es stack below st)))"
proof (induction es arbitrary: below st S)
  case (Cons e es)
  show ?case
  proof (cases "edge_target e = indirect")
    case True
    with Cons.prems Cons.IH [of below "fail ''indirect call'' n (edge_loc e) st"] show ?thesis
      by (simp add: walk_edges_Cons(1))
  next
    case False
    define B where "B = best fs guard f (targets fs n e) stack no_result (snd (resolve fs n e st))"
    have eq: "walk_edges fs guard f n (e # es) stack below st = walk_edges fs guard f n es stack (better (fst B) below) (snd B)"
      by (rule walk_edges_Cons(2) [OF False]) (rule B_def)
    note IH = Cons.IH [of "better (fst B) below" "snd B" "S \<union> set (targets fs n e)"]
    have cl: "clean (snd B)" using Cons.prems IH by (simp add: eq)
    note best = best_sound [OF walk targets_known cl [unfolded B_def], of "{}", folded B_def]
    then have st: "clean st" "targets fs n e \<noteq> []" by (simp_all add: clean_resolve)
    have B: "memo_ok fs guard st \<Longrightarrow> memo_ok fs guard (snd B)"
        "memo_ok fs guard st \<Longrightarrow> covers_at fs guard stack (set (targets fs n e)) (fst B)"
      using best by (simp_all add: covers_at_def)
    have "covers_at fs guard stack (S \<union> set (targets fs n e)) (better (fst B) below)"
      if "memo_ok fs guard st" "covers_at fs guard stack S below"
      using covers_at_better [OF that(2) B(2) [OF that(1)]] .
    with st B(1) IH Cons.prems False show ?thesis by (simp add: eq Un_assoc)
  qed
qed simp

lemma walk_sound:
  assumes inj: "inj_on node_key (set (all_nodes fs))"
  shows "sound_walk fs guard f stack"
proof (induction f arbitrary: stack)
  case 0
  then show ?case by (simp add: sound_walk_def)
next
  case (Suc f)
  show ?case
    unfolding sound_walk_def
  proof (intro allI impI)
    fix n st
    assume n: "n \<in> set (all_nodes fs)" and cl: "clean (snd (walk fs guard (Suc f) n stack st))"
    let ?g = "stack \<noteq> [] \<and> guard (node_sig n)"
    consider "?g" | "\<not> ?g" "on_stack n stack" | r where "\<not> ?g" "\<not> on_stack n stack" "memo st (node_key n) = Some r"
      | "\<not> ?g" "\<not> on_stack n stack" "memo st (node_key n) = None"
      by (cases "memo st (node_key n)") blast+
    then show "clean st \<and> (memo_ok fs guard st \<longrightarrow>
          memo_ok fs guard (snd (walk fs guard (Suc f) n stack st))
          \<and> (if stack \<noteq> [] then covers_calls fs guard {n} (fst (walk fs guard (Suc f) n stack st))
             else covers_roots fs guard {n} (fst (walk fs guard (Suc f) n stack st))))"
    proof cases
      case 1
      with cl show ?thesis by (simp add: walk_cases(1) covers_guarded)
    next
      case 2
      with cl show ?thesis by (simp add: walk_cases(2))
    next
      case 3
      with cl n show ?thesis by (auto simp: walk_cases(3) memo_ok_def intro: covers_margin)
    next
      case 4
      define W where "W = walk_edges fs guard f n (node_edges n) (stack @ [n]) no_result (check_frame n st)"
      have eq: "walk fs guard (Suc f) n stack st = (walked n (fst W), remember n (walked n (fst W)) (check_frame n st) (snd W))"
        by (rule walk_cases(4) [where guard = guard, OF 4]) (rule W_def)
      have "clean (snd W)" using cl by (simp add: eq)
      note es = edges_sound [OF Suc.IH _ this [unfolded W_def], of "{}", folded W_def, simplified]
      have calls: "{m. calls_to fs n m} = (\<Union>e \<in> set (node_edges n). set (targets fs n e))"
        using es by (auto simp: calls_to_def)
      have st: "settled fs n" "clean st" using es by (auto simp: settled_def clean_check_frame)
      have m: "margin fs guard n (walked n (fst W))" if "memo_ok fs guard st"
        by (rule walked_margin [OF _ st(1)]) (use es that in \<open>simp add: calls covers_at_def\<close>)
      show ?thesis
      proof (intro conjI impI)
        show "clean st" by (rule st(2))
        assume "memo_ok fs guard st"
        note m = m [OF this]
        show "memo_ok fs guard (snd (walk fs guard (Suc f) n stack st))"
          using es memo_ok_remember [OF inj n _ m] \<open>memo_ok fs guard st\<close> by (simp add: eq covers_at_def)
        show "if stack \<noteq> [] then covers_calls fs guard {n} (fst (walk fs guard (Suc f) n stack st))
             else covers_roots fs guard {n} (fst (walk fs guard (Suc f) n stack st))"
          unfolding eq fst_conv using 4(1) covers_margin(1) [where guard = guard, OF _ m] covers_margin(2) [OF m] by auto
      qed
    qed
  qed
qed

subsection \<open>The verdict\<close>

definition initial_state :: wstate where
  "initial_state = \<lparr>problems = [], cuts = [], memo = Map.empty, exhausted = False\<rparr>"

datatype verdict = Rejected "string list" | Margin nat bool "cnode list"

text \<open>The signatures asked for, and the nodes that carry one; a definition per file.\<close>

definition matching :: "files \<Rightarrow> (string \<Rightarrow> bool) \<Rightarrow> string \<Rightarrow> cnode list" where
  "matching fs wanted sig = filter (\<lambda>n. node_defined n \<and> wanted (node_sig n) \<and> node_sig n = sig) (all_nodes fs)"

definition signatures :: "files \<Rightarrow> (string \<Rightarrow> bool) \<Rightarrow> string list" where
  "signatures fs wanted = sort (remdups (map node_sig (filter (\<lambda>n. node_defined n \<and> wanted (node_sig n)) (all_nodes fs))))"

text \<open>One round of the main loop: no limit is \<open>None\<close>. The flag says whether the limit is exceeded.\<close>

definition report :: "files \<Rightarrow> (string \<Rightarrow> bool) \<Rightarrow> (string \<Rightarrow> bool) \<Rightarrow> nat option \<Rightarrow> string \<Rightarrow> verdict" where
  "report fs guard wanted limit sig =
     (let (r, st) = best fs guard (Suc (length (all_nodes fs))) (matching fs wanted sig) [] no_result initial_state
      in if problems st \<noteq> [] then Rejected (problems st)
         else Margin (res_bytes r) (case limit of None \<Rightarrow> False | Some m \<Rightarrow> res_bytes r > m) (res_path r))"

text \<open>The exit status of the tool: 2 where nothing matches, 1 on a rejection or an excess.\<close>

definition exit_status :: "files \<Rightarrow> (string \<Rightarrow> bool) \<Rightarrow> (string \<Rightarrow> bool) \<Rightarrow> nat option \<Rightarrow> nat" where
  "exit_status fs guard wanted limit =
     (if signatures fs wanted = [] then 2
      else if list_ex (\<lambda>sig. case report fs guard wanted limit sig of Rejected _ \<Rightarrow> True | Margin _ over _ \<Rightarrow> over)
        (signatures fs wanted)
      then 1 else 0)"

lemma run_not_exhausted:
  "\<not> exhausted (snd (best fs guard (Suc (length (all_nodes fs))) (matching fs wanted sig) [] no_result initial_state))"
proof -
  have "card (sigs_left fs []) \<le> length (all_nodes fs)"
    using card_image_le [of "set (all_nodes fs)" node_sig] card_length [of "all_nodes fs"] by simp
  then have "exhausted (snd (walk fs guard (Suc (length (all_nodes fs))) n [] st)) = exhausted st"
    if "n \<in> set (all_nodes fs)" for n st
    using fuel_enough [OF that, of "[]"] by simp
  moreover have "set (matching fs wanted sig) \<subseteq> set (all_nodes fs)" by (auto simp: matching_def)
  ultimately show ?thesis by (simp add: best_exhausted initial_state_def)
qed

text \<open>
  C19. Where the tool prints a number for a signature, that number is the largest sum of frames
  over all call chains from the functions with that signature, a chain ending early only at a
  guarded callee, whose frame is counted; the path it prints is such a chain; and every
  function on the way has a fixed frame and only calls whose targets are known.
\<close>

theorem stack_margin_correct:
  assumes "inj_on node_key (set (all_nodes fs))"
    and "report fs guard wanted limit sig = Margin bytes over path"
  shows "(\<forall>n \<in> set (matching fs wanted sig). all_settled fs guard n
      \<and> (\<forall>p. chain fs guard n p \<longrightarrow> frames p \<le> bytes))
    \<and> (0 < bytes \<longrightarrow> (\<exists>n \<in> set (matching fs wanted sig). chain fs guard n path \<and> frames path = bytes))
    \<and> (over \<longleftrightarrow> (\<exists>m. limit = Some m \<and> m < bytes))"
proof -
  let ?B = "best fs guard (Suc (length (all_nodes fs))) (matching fs wanted sig) [] no_result initial_state"
  have r: "problems (snd ?B) = []" "bytes = res_bytes (fst ?B)" "path = res_path (fst ?B)"
      "over = (case limit of None \<Rightarrow> False | Some m \<Rightarrow> bytes > m)"
    using assms(2) by (auto simp: report_def split: prod.splits if_splits)
  then have "clean (snd ?B)" using run_not_exhausted by (simp add: clean_def)
  moreover have "set (matching fs wanted sig) \<subseteq> set (all_nodes fs)" by (auto simp: matching_def)
  moreover have "memo_ok fs guard initial_state" by (simp add: memo_ok_def initial_state_def)
  moreover have "covers_at fs guard [] {} no_result" by (simp add: covers_at_def)
  ultimately have "covers_roots fs guard (set (matching fs wanted sig)) (fst ?B)"
    using best_sound [OF walk_sound [OF assms(1)], of "matching fs wanted sig" guard _ "[]" no_result initial_state "{}"]
    by (simp add: covers_at_def)
  then show ?thesis
    unfolding covers_def r(2,3) by (auto simp: no_result_def r(2,4) split: option.splits)
qed

definition sample_file :: string where
  "sample_file = ''node: { title: '' @ [CHR 0x22] @ ''f'' @ [CHR 0x22] @ '' label: '' @ [CHR 0x22] @ ''f'' @ [CHR 0x5C] @ ''na.c:1''
     @ [CHR 0x5C] @ ''n16 bytes (static)'' @ [CHR 0x22, newline_char]
     @ ''node: { title: '' @ [CHR 0x22] @ ''g'' @ [CHR 0x22] @ '' label: '' @ [CHR 0x22] @ ''g'' @ [CHR 0x5C] @ ''na.c:9''
     @ [CHR 0x5C] @ ''n8 bytes (static)'' @ [CHR 0x22, newline_char]
     @ ''edge: { sourcename: '' @ [CHR 0x22] @ ''f'' @ [CHR 0x22] @ '' targetname: '' @ [CHR 0x22] @ ''g'' @ [CHR 0x22]"

definition sample_nodes :: "cnode list" where
  "sample_nodes =
     [\<lparr>node_title = ''f'', node_file = ''a'', node_sig = ''f'', node_loc = ''a.c:1'', node_frame = 16, dynamic_frame = False,
       dynamic_objects = 0, node_defined = True, node_edges = [\<lparr>edge_target = ''g'', edge_loc = ''?''\<rparr>]\<rparr>,
      \<lparr>node_title = ''g'', node_file = ''a'', node_sig = ''g'', node_loc = ''a.c:9'', node_frame = 8, dynamic_frame = False,
       dynamic_objects = 0, node_defined = True, node_edges = []\<rparr>]"

definition sample_files :: files where
  "sample_files = [(''a'', [(''f'', sample_nodes ! 0), (''g'', sample_nodes ! 1)])]"

lemma parse_sample: "[(''a'', parse ''a'' sample_file)] = sample_files"
  by code_simp

lemma report_sample: "report sample_files (\<lambda>_. False) (\<lambda>_. True) None ''f'' = Margin 24 False sample_nodes"
  by code_simp

lemma stack_margin_correct_witness:
  "all_settled sample_files (\<lambda>_. False) (sample_nodes ! 0)
    \<and> chain sample_files (\<lambda>_. False) (sample_nodes ! 0) sample_nodes \<and> frames sample_nodes = 24"
proof -
  have "matching sample_files (\<lambda>_. True) ''f'' = [sample_nodes ! 0]" by code_simp
  moreover have "inj_on node_key (set (all_nodes sample_files))"
    by (simp add: all_nodes_def sample_files_def sample_nodes_def node_key_def)
  ultimately show ?thesis using stack_margin_correct [OF _ report_sample] by simp
qed

text \<open>
  The walk always comes back: it recurses only into functions whose signature is not on its
  stack, so as many levels as there are functions, and one more, are never used up, whatever
  the graph's cycles.
\<close>

theorem stack_walk_terminates:
  "\<not> exhausted (snd (best fs guard (Suc (length (all_nodes fs))) (matching fs wanted sig) [] no_result initial_state))"
  by (rule run_not_exhausted)

end
