(* ===== verification/Mutate.thy ===== *)
theory Mutate
  imports Rng Ub
begin

section \<open>The mutator (\<^verbatim>\<open>fuzz/ts/gen/mutate.ts\<close>)\<close>

text \<open>
  The scoped rewrite walk. A draw, a fresh name or a count of applied mutations changes the
  state of the run; the scope a statement list is mutated in is passed and returned, since a
  declaration adds to it. A list of thunks the code picks one of is a list of computations.
  mog-core's \<^verbatim>\<open>mapOver\<close> is the parameter \<open>map_over\<close>: it maps a function over the operands of an
  expression, in an order of its own. The recursion of \<^verbatim>\<open>mutateExpr\<close> and \<^verbatim>\<open>rebind\<close> goes through
  it, so both run on the depth of the expression as fuel. \<^verbatim>\<open>recurseOver\<close> is \<open>kids\<close>, as in \<open>Walk\<close>.
\<close>

subsection \<open>The alphabet\<close>

definition arith_ops :: "bin_op list" where "arith_ops = [Plus, Minus, Times]"
definition bitwise_ops :: "bin_op list" where "bitwise_ops = [Bar, Caret, Amp]"
definition shift_ops :: "bin_op list" where "shift_ops = [Shl, Shr]"
definition compare_ops :: "bin_op list" where "compare_ops = [EqEq, NotEq, Less, LessEq, Greater, GreaterEq]"
definition binary_classes :: "bin_op list list" where
  "binary_classes = [arith_ops, bitwise_ops, shift_ops, compare_ops]"

definition narrow_types :: "prim_type list" where "narrow_types = [U16, U8, I16, I8]"
definition all_types :: "prim_type list" where "all_types = [U32, U16, U8, I32, I16, I8]"
definition prefix_ops :: "un_op list" where "prefix_ops = [Negate, Tilde, Bang]"

definition max_expr_height :: nat where "max_expr_height = 32"

definition boundary :: "int list" where
  "boundary = [0, 1, 2, 3, 7, 8, 15, 16, 31, 32, 255, 256, 65535, 65536, 0x7fffffff, 0x80000000, 0xffffffff]"

definition opaque_calls :: "string list" where "opaque_calls = [''trap'', ''memmove'']"
definition unary_builtins :: "string list" where "unary_builtins = [''clz'', ''revbits'']"
definition load_builtins :: "string list" where "load_builtins = [''ld8'', ''ld16'', ''ld32'']"
definition store_builtins :: "string list" where "store_builtins = [''st8'', ''st16'', ''st32'']"

subsection \<open>Environment\<close>

record var =
  var_name :: string
  var_prim :: prim_type

record mscope =
  vars :: "var list"
  in_case :: bool
  in_loop :: bool

text \<open>\<^verbatim>\<open>Ctx\<close> without the state it shares; \<open>name_prefix\<close> is the letter its \<^verbatim>\<open>fresh\<close> starts names with.\<close>

record mctx =
  callable :: "(string \<times> nat) list"
  donors :: "expr list"
  rate :: "int \<times> int"
  name_prefix :: char

record gstate =
  g_rng :: rng
  g_counter :: nat
  g_used :: "string list"
  g_applied :: nat

type_synonym 'a gen = "(gstate, string, 'a) comp"

type_synonym map_over = "(expr \<Rightarrow> expr gen) \<Rightarrow> expr \<Rightarrow> expr gen"

definition drawn :: "'a draw \<Rightarrow> 'a gen" where
  "drawn m = (\<lambda>s. case m (g_rng s) of (r, g) \<Rightarrow> (r, s\<lparr>g_rng := g\<rparr>))"

definition count_applied :: "unit gen" where
  "count_applied = modifyc (\<lambda>s. s\<lparr>g_applied := g_applied s + 1\<rparr>)"

definition child_scope :: "mscope \<Rightarrow> bool \<Rightarrow> bool \<Rightarrow> mscope" where
  "child_scope s c l = \<lparr>vars = vars s, in_case = c, in_loop = l\<rparr>"

text \<open>A probability scaled by a decimal constant.\<close>

definition scaled :: "int \<times> int \<Rightarrow> int \<Rightarrow> int \<Rightarrow> int \<times> int" where
  "scaled p n d = (fst p * n, snd p * d)"

text \<open>
  \<^verbatim>\<open>fresh\<close>: the first unused name from the counter on. Of one more candidate than there are
  used names one is free.
\<close>

definition fresh_index :: "char \<Rightarrow> string list \<Rightarrow> nat \<Rightarrow> nat" where
  "fresh_index p used c =
     (case find (\<lambda>k. p # show_nat k \<notin> set used) [c ..< Suc (c + length used)] of Some k \<Rightarrow> k | None \<Rightarrow> c)"

definition fresh :: "mctx \<Rightarrow> string gen" where
  "fresh ctx =
     bindc (getc (\<lambda>s. fresh_index (name_prefix ctx) (g_used s) (g_counter s))) (\<lambda>k.
     bindc (modifyc (\<lambda>s. s\<lparr>g_counter := Suc k, g_used := (name_prefix ctx # show_nat k) # g_used s\<rparr>)) (\<lambda>_.
     retc (name_prefix ctx # show_nat k)))"

subsection \<open>Expression construction\<close>

definition lit :: "int \<Rightarrow> expr" where
  "lit v = Literal (uint (to_u32 v))"

definition shift_safe :: "bin_op \<Rightarrow> expr \<Rightarrow> expr" where
  "shift_safe op right =
     (if op \<noteq> Shl \<and> op \<noteq> Shr then right
      else case right of
             Literal v \<Rightarrow> if v \<le> 31 then right else lit (v mod 32)
           | BinaryExpression Amp l (Literal v) \<Rightarrow>
               if v = 31 then right else BinaryExpression Amp right (lit 31)
           | _ \<Rightarrow> BinaryExpression Amp right (lit 31))"

definition boundary_lit :: "expr gen" where
  "boundary_lit = bindc (drawn (pick boundary)) (\<lambda>v. retc (lit v))"

definition leaf :: "mscope \<Rightarrow> expr gen" where
  "leaf sc =
     bindc (drawn (chance (55, 100))) (\<lambda>b.
     bindc (if b then drawn (maybe_pick (vars sc)) else retc None) (\<lambda>v.
     case v of None \<Rightarrow> boundary_lit | Some x \<Rightarrow> retc (Identifier (var_name x))))"

definition pick_binary :: "bin_op gen" where
  "pick_binary = bindc (drawn (pick binary_classes)) (\<lambda>c. drawn (pick c))"

fun build :: "mscope \<Rightarrow> nat \<Rightarrow> expr gen" where
  "build sc 0 = leaf sc"
| "build sc (Suc d) =
     bindc (drawn (chance (4, 10))) (\<lambda>b.
     if b then leaf sc
     else bindc (drawn (rng_int 6)) (\<lambda>k.
       if k = 0 then
         bindc pick_binary (\<lambda>op. bindc (build sc d) (\<lambda>l. bindc (build sc d) (\<lambda>r.
         retc (BinaryExpression op l (shift_safe op r)))))
       else if k = 1 then
         bindc (drawn (pick prefix_ops)) (\<lambda>op. bindc (build sc d) (\<lambda>e. retc (UnaryExpression op e)))
       else if k = 2 then
         bindc (drawn (pick narrow_types)) (\<lambda>t. bindc (build sc d) (\<lambda>e. retc (CastExpression t e)))
       else if k = 3 then
         bindc (build sc d) (\<lambda>c. bindc (build sc d) (\<lambda>a. bindc (build sc d) (\<lambda>b.
         retc (ConditionalExpression c a b))))
       else if k = 4 then
         bindc (drawn (pick unary_builtins)) (\<lambda>f. bindc (build sc d) (\<lambda>e. retc (CallExpression f [e])))
       else
         bindc (drawn (pick load_builtins)) (\<lambda>f. bindc (build sc d) (\<lambda>e. retc (CallExpression f [e])))))"

text \<open>A computation repeated, its results in order.\<close>

fun times :: "nat \<Rightarrow> 'a gen \<Rightarrow> 'a list gen" where
  "times 0 m = retc []"
| "times (Suc n) m = bindc m (\<lambda>x. bindc (times n m) (\<lambda>xs. retc (x # xs)))"

text \<open>\<^verbatim>\<open>rebind\<close>: a donor with every name replaced by one the site sees.\<close>

fun rebind :: "map_over \<Rightarrow> mctx \<Rightarrow> mscope \<Rightarrow> nat \<Rightarrow> expr \<Rightarrow> expr gen" where
  "rebind map_over ctx sc 0 e = retc e"
| "rebind map_over ctx sc (Suc n) e =
     (case e of
        Identifier _ \<Rightarrow>
          bindc (drawn (maybe_pick (vars sc))) (\<lambda>v.
          case v of None \<Rightarrow> boundary_lit | Some x \<Rightarrow> retc (Identifier (var_name x)))
      | AssignmentExpression op _ right \<Rightarrow>
          bindc (drawn (maybe_pick (vars sc))) (\<lambda>v.
          case v of
            None \<Rightarrow> rebind map_over ctx sc n right
          | Some x \<Rightarrow>
              bindc (rebind map_over ctx sc n right) (\<lambda>r. retc (AssignmentExpression op (var_name x) r)))
      | UpdateExpression op pre _ \<Rightarrow>
          bindc (drawn (maybe_pick (vars sc))) (\<lambda>v.
          case v of None \<Rightarrow> retc (lit 1) | Some x \<Rightarrow> retc (UpdateExpression op pre (Identifier (var_name x))))
      | CallExpression f args \<Rightarrow>
          if proc_index f \<noteq> None \<and> (f, length args) \<notin> set (callable ctx)
          then build sc 1 else map_over (rebind map_over ctx sc n) e
      | _ \<Rightarrow> map_over (rebind map_over ctx sc n) e)"

subsection \<open>Expression mutation\<close>

definition other_logical :: "log_op \<Rightarrow> log_op" where
  "other_logical op = (if op = AndAnd then OrOr else AndAnd)"

definition class_of :: "bin_op \<Rightarrow> bin_op list" where
  "class_of op = (case find (\<lambda>c. op \<in> set c) binary_classes of Some c \<Rightarrow> c | None \<Rightarrow> arith_ops)"

text \<open>The rewrites that do not grow the tree, in the order they are pushed.\<close>

definition small_options :: "mscope \<Rightarrow> expr \<Rightarrow> expr gen list" where
  "small_options sc inner =
     (case inner of
        BinaryExpression op l r \<Rightarrow>
          [bindc (drawn (pick (class_of op))) (\<lambda>o'. retc (BinaryExpression o' l (shift_safe o' r))),
           bindc pick_binary (\<lambda>o'. retc (BinaryExpression o' l (shift_safe o' r))),
           retc (BinaryExpression op r (shift_safe op l)),
           retc l, retc r]
      | LogicalExpression op l r \<Rightarrow>
          [retc (LogicalExpression (other_logical op) l r), retc (LogicalExpression op r l)]
      | Literal v \<Rightarrow>
          [boundary_lit, bindc (drawn (between (- 2) 2)) (\<lambda>k. retc (lit (v + k))), leaf sc]
      | Identifier n \<Rightarrow> [leaf sc]
      | UnaryExpression op a \<Rightarrow> [bindc (drawn (pick prefix_ops)) (\<lambda>o'. retc (UnaryExpression o' a))]
      | CastExpression t a \<Rightarrow> [bindc (drawn (pick narrow_types)) (\<lambda>t'. retc (CastExpression t' a))]
      | _ \<Rightarrow> [])"

text \<open>The rewrites available at every site below the cap.\<close>

definition growing_options :: "mscope \<Rightarrow> expr \<Rightarrow> expr gen list" where
  "growing_options sc inner =
     [bindc pick_binary (\<lambda>op. bindc (build sc 1) (\<lambda>r. retc (BinaryExpression op inner (shift_safe op r)))),
      bindc (drawn (pick prefix_ops)) (\<lambda>op. retc (UnaryExpression op inner)),
      bindc (drawn (pick narrow_types)) (\<lambda>t. retc (CastExpression t inner)),
      bindc (build sc 1) (\<lambda>a. bindc (build sc 1) (\<lambda>b. retc (ConditionalExpression inner a b))),
      bindc (drawn (pick [AndAnd, OrOr])) (\<lambda>op. bindc (build sc 1) (\<lambda>r. retc (LogicalExpression op inner r))),
      bindc (drawn (pick unary_builtins)) (\<lambda>f. retc (CallExpression f [inner])),
      bindc (drawn (pick load_builtins)) (\<lambda>f. retc (CallExpression f [inner])),
      build sc 2]"

definition call_options :: "mscope \<Rightarrow> (string \<times> nat) option \<Rightarrow> expr gen list" where
  "call_options sc callee =
     (case callee of
        None \<Rightarrow> []
      | Some (f, arity) \<Rightarrow> [bindc (times arity (build sc 1)) (\<lambda>args. retc (CallExpression f args))])"

definition donor_options :: "map_over \<Rightarrow> recurse \<Rightarrow> mctx \<Rightarrow> mscope \<Rightarrow> expr option \<Rightarrow> expr gen list" where
  "donor_options map_over kids ctx sc donor =
     (case donor of
        None \<Rightarrow> []
      | Some d \<Rightarrow> if height_of kids d < max_expr_height then [rebind map_over ctx sc (depth d) d] else [])"

definition write_options :: "expr \<Rightarrow> var option \<Rightarrow> expr gen list" where
  "write_options inner target =
     (case target of
        None \<Rightarrow> []
      | Some x \<Rightarrow>
          [retc (AssignmentExpression Assign (var_name x) inner),
           bindc (drawn (pick [Incr, Decr])) (\<lambda>op.
           bindc (drawn (chance (5, 10))) (\<lambda>pre.
           retc (UpdateExpression op pre (Identifier (var_name x)))))])"

text \<open>One mutation at a site. \<^verbatim>\<open>depth\<close> is 0 at every call of \<^verbatim>\<open>mutateExpr\<close>.\<close>

definition mutate_site :: "map_over \<Rightarrow> recurse \<Rightarrow> mctx \<Rightarrow> mscope \<Rightarrow> expr \<Rightarrow> expr gen" where
  "mutate_site map_over kids ctx sc inner =
     (let small = small_options sc inner
      in if \<not> height_of kids inner < max_expr_height
         then bindc (drawn (pick (if small \<noteq> [] then small else [retc inner]))) (\<lambda>opt. opt)
         else
           bindc (drawn (maybe_pick (callable ctx))) (\<lambda>callee.
           bindc (drawn (maybe_pick (donors ctx))) (\<lambda>donor.
           bindc (drawn (maybe_pick (vars sc))) (\<lambda>target.
           bindc (drawn (pick (small @ growing_options sc inner @ call_options sc callee
             @ donor_options map_over kids ctx sc donor @ write_options inner target))) (\<lambda>opt. opt)))))"

definition opaque_call :: "expr \<Rightarrow> bool" where
  "opaque_call e = (case e of CallExpression f _ \<Rightarrow> f \<in> set opaque_calls | _ \<Rightarrow> False)"

definition mask_shift :: "expr \<Rightarrow> expr" where
  "mask_shift e = (case e of BinaryExpression op l r \<Rightarrow> BinaryExpression op l (shift_safe op r) | _ \<Rightarrow> e)"

fun mutate_expr_fuel :: "map_over \<Rightarrow> recurse \<Rightarrow> mctx \<Rightarrow> mscope \<Rightarrow> nat \<Rightarrow> expr \<Rightarrow> expr gen" where
  "mutate_expr_fuel map_over kids ctx sc 0 e = retc e"
| "mutate_expr_fuel map_over kids ctx sc (Suc n) e =
     (if opaque_call e then retc e
      else
        bindc (case e of UpdateExpression _ _ _ \<Rightarrow> retc e
               | _ \<Rightarrow> map_over (mutate_expr_fuel map_over kids ctx sc n) e) (\<lambda>recursed.
        bindc (drawn (chance (rate ctx))) (\<lambda>b.
        if \<not> b then retc (mask_shift recursed)
        else bindc count_applied (\<lambda>_. mutate_site map_over kids ctx sc (mask_shift recursed)))))"

definition mutate_expr :: "map_over \<Rightarrow> recurse \<Rightarrow> mctx \<Rightarrow> mscope \<Rightarrow> expr \<Rightarrow> expr gen" where
  "mutate_expr map_over kids ctx sc e = mutate_expr_fuel map_over kids ctx sc (depth e) e"

subsection \<open>Statement construction\<close>

definition declare_stmt :: "mctx \<Rightarrow> mscope \<Rightarrow> (stmt \<times> mscope) gen" where
  "declare_stmt ctx sc =
     bindc (drawn (pick all_types)) (\<lambda>t.
     bindc (fresh ctx) (\<lambda>n.
     bindc (build sc 2) (\<lambda>e.
     retc (VariableDeclaration [Declarator t n (Some e)],
           sc\<lparr>vars := vars sc @ [\<lparr>var_name = n, var_prim = t\<rparr>]\<rparr>))))"

definition empty_if :: "mscope \<Rightarrow> stmt gen" where
  "empty_if sc =
     bindc (build sc 2) (\<lambda>t.
     bindc (drawn (chance (5, 10))) (\<lambda>b.
     retc (IfStatement t (BlockStatement []) (if b then Some (BlockStatement []) else None))))"

definition side_effect :: "mscope \<Rightarrow> stmt gen" where
  "side_effect sc =
     bindc (drawn (maybe_pick (vars sc))) (\<lambda>v.
     bindc (if v = None then retc False else drawn (chance (6, 10))) (\<lambda>b.
     if b then
       bindc (build sc 2) (\<lambda>e. retc (ExpressionStatement (AssignmentExpression Assign (var_name (the v)) e)))
     else
       bindc (drawn (pick store_builtins)) (\<lambda>f.
       bindc (build sc 1) (\<lambda>a. bindc (build sc 1) (\<lambda>b. retc (ExpressionStatement (CallExpression f [a, b])))))))"

definition bump :: "string \<Rightarrow> expr" where
  "bump n = AssignmentExpression Assign n (BinaryExpression Plus (Identifier n) (lit 1))"

definition counter_decl :: "string \<Rightarrow> declarator list" where
  "counter_decl n = [Declarator U32 n (Some (lit 0))]"

definition counted_loop :: "mctx \<Rightarrow> stmt list \<Rightarrow> stmt gen" where
  "counted_loop ctx body =
     bindc (fresh ctx) (\<lambda>n.
     bindc (drawn (between 1 4)) (\<lambda>k.
     retc (ForStatement (Some (InitDecl (counter_decl n)))
       (Some (BinaryExpression Less (Identifier n) (lit k))) (Some (bump n)) (BlockStatement body))))"

definition counted_do_while :: "mctx \<Rightarrow> stmt list \<Rightarrow> stmt gen" where
  "counted_do_while ctx body =
     bindc (fresh ctx) (\<lambda>n.
     bindc (drawn (between 1 4)) (\<lambda>k.
     retc (BlockStatement
       [VariableDeclaration (counter_decl n),
        DoWhileStatement (BlockStatement (body @ [ExpressionStatement (bump n)]))
          (BinaryExpression Less (Identifier n) (lit k))])))"

text \<open>The cases after the first of a fresh \<^verbatim>\<open>switch\<close>, labelled from \<open>i\<close> on.\<close>

fun more_cases :: "mscope \<Rightarrow> nat \<Rightarrow> nat \<Rightarrow> switch_case list gen" where
  "more_cases sc i 0 = retc []"
| "more_cases sc i (Suc k) =
     bindc (side_effect (child_scope sc True (in_loop sc))) (\<lambda>s.
     bindc (more_cases sc (Suc i) k) (\<lambda>cs.
     retc (SwitchCase (Some (lit (int i))) [s, BreakStatement] # cs)))"

definition switch_over :: "mscope \<Rightarrow> stmt list \<Rightarrow> stmt gen" where
  "switch_over sc body =
     bindc (drawn (between 1 3)) (\<lambda>count.
     bindc (more_cases sc 1 (nat count - 1)) (\<lambda>cs.
     bindc (drawn (chance (7, 10))) (\<lambda>b.
     bindc (build sc 1) (\<lambda>d.
     retc (SwitchStatement (BinaryExpression Amp d (lit 3))
       (SwitchCase (Some (lit 0)) (body @ [BreakStatement]) # cs
        @ (if b then [SwitchCase None [BreakStatement]] else [])))))))"

subsection \<open>Statement mutation\<close>

definition wrap_stmt :: "mctx \<Rightarrow> mscope \<Rightarrow> stmt \<Rightarrow> stmt gen" where
  "wrap_stmt ctx sc s =
     bindc (drawn (rng_int 5)) (\<lambda>k.
     if k = 0 then bindc (build sc 2) (\<lambda>t. retc (IfStatement t (BlockStatement [s]) None))
     else if k = 1 then
       bindc (build sc 2) (\<lambda>t.
       bindc (side_effect (child_scope sc False (in_loop sc))) (\<lambda>e.
       retc (IfStatement t (BlockStatement [s]) (Some (BlockStatement [e])))))
     else if k = 2 then counted_loop ctx [s]
     else if k = 3 then retc (BlockStatement [s])
     else switch_over sc [s])"

definition is_trap_call :: "stmt \<Rightarrow> bool" where
  "is_trap_call s = (case s of ExpressionStatement (CallExpression f _) \<Rightarrow> f = ''trap'' | _ \<Rightarrow> False)"

definition falls_into :: "stmt list \<Rightarrow> bool" where
  "falls_into body =
     (body = [] \<or>
      (case last body of
         BreakStatement \<Rightarrow> False
       | ReturnStatement _ \<Rightarrow> False
       | s \<Rightarrow> \<not> is_trap_call s))"

text \<open>The label of a case as the code reads it, \<open>-1\<close> for anything but a literal.\<close>

definition label_of :: "switch_case \<Rightarrow> int" where
  "label_of c = (case case_test c of Some (Literal v) \<Rightarrow> v | _ \<Rightarrow> - 1)"

definition next_label :: "switch_case list \<Rightarrow> nat" where
  "next_label cs =
     (case find (\<lambda>k. int k \<notin> set (map label_of cs)) [0 ..< Suc (length cs)] of Some k \<Rightarrow> k | None \<Rightarrow> 0)"

definition insert_at :: "nat \<Rightarrow> 'a \<Rightarrow> 'a list \<Rightarrow> 'a list" where
  "insert_at i x xs = take i xs @ x # drop i xs"

definition remove_at :: "nat \<Rightarrow> 'a list \<Rightarrow> 'a list" where
  "remove_at i xs = take i xs @ drop (Suc i) xs"

definition add_case :: "mctx \<Rightarrow> mscope \<Rightarrow> switch_case list \<Rightarrow> switch_case list gen" where
  "add_case ctx sc cs =
     bindc (drawn (chance (scaled (rate ctx) 4 10))) (\<lambda>b.
     if \<not> b then retc cs
     else
       bindc count_applied (\<lambda>_.
       bindc (side_effect (child_scope sc True (in_loop sc))) (\<lambda>s.
       let at = (case find_index (\<lambda>c. case_test c = None) cs of None \<Rightarrow> length cs | Some i \<Rightarrow> i)
       in retc (if at = 0 \<or> \<not> falls_into (case_body (cs ! (at - 1)))
                then insert_at at (SwitchCase (Some (lit (int (next_label cs)))) [s, BreakStatement]) cs
                else cs))))"

text \<open>Where dropping a closer leaves a fall-through the language allows.\<close>

definition openable :: "switch_case list \<Rightarrow> nat \<Rightarrow> bool" where
  "openable cs i =
     (Suc i < length cs \<and> case_test (cs ! i) \<noteq> None \<and> 2 \<le> length (case_body (cs ! i))
      \<and> \<not> falls_into (case_body (cs ! i))
      \<and> (case case_test (cs ! Suc i) of
           None \<Rightarrow> True
         | Some (Literal v) \<Rightarrow> (case case_test (cs ! i) of Some (Literal u) \<Rightarrow> v = u + 1 | _ \<Rightarrow> False)
         | Some _ \<Rightarrow> False))"

definition open_case :: "mctx \<Rightarrow> switch_case list \<Rightarrow> switch_case list gen" where
  "open_case ctx cs =
     bindc (drawn (chance (scaled (rate ctx) 3 10))) (\<lambda>b.
     if \<not> b then retc cs
     else
       bindc (drawn (maybe_pick (filter (openable cs) [0 ..< length cs]))) (\<lambda>opened.
       case opened of
         None \<Rightarrow> retc cs
       | Some i \<Rightarrow>
           bindc count_applied (\<lambda>_.
           retc (cs[i := SwitchCase (case_test (cs ! i)) (butlast (case_body (cs ! i)))]))))"

definition removable :: "switch_case list \<Rightarrow> nat \<Rightarrow> bool" where
  "removable cs i =
     ((case_test (cs ! i) = None \<or> 1 < length (filter (\<lambda>c. case_test c \<noteq> None) cs))
      \<and> (i = 0 \<or> \<not> falls_into (case_body (cs ! (i - 1)))))"

definition remove_case :: "mctx \<Rightarrow> switch_case list \<Rightarrow> switch_case list gen" where
  "remove_case ctx cs =
     bindc (drawn (chance (scaled (rate ctx) 2 10))) (\<lambda>b.
     if \<not> b then retc cs
     else
       bindc (drawn (maybe_pick (filter (removable cs) [0 ..< length cs]))) (\<lambda>victim.
       case victim of
         None \<Rightarrow> retc cs
       | Some i \<Rightarrow> bindc count_applied (\<lambda>_. retc (remove_at i cs))))"

text \<open>The initialisers of a declaration, all in the scope before it.\<close>

fun mutate_inits :: "map_over \<Rightarrow> recurse \<Rightarrow> mctx \<Rightarrow> mscope \<Rightarrow> declarator list \<Rightarrow> declarator list gen" where
  "mutate_inits map_over kids ctx sc [] = retc []"
| "mutate_inits map_over kids ctx sc (d # ds) =
     bindc (case decl_init d of
              None \<Rightarrow> retc None
            | Some e \<Rightarrow> bindc (mutate_expr map_over kids ctx sc e) (\<lambda>e'. retc (Some e'))) (\<lambda>i.
     bindc (mutate_inits map_over kids ctx sc ds) (\<lambda>ds'.
     retc (Declarator (var_type d) (decl_name d) i # ds')))"

definition retype :: "prim_type \<Rightarrow> declarator \<Rightarrow> declarator" where
  "retype t d = Declarator t (decl_name d) (decl_init d)"

definition vars_of :: "declarator list \<Rightarrow> var list" where
  "vars_of ds = map (\<lambda>d. \<lparr>var_name = decl_name d, var_prim = var_type d\<rparr>) ds"

definition push_vars :: "mscope \<Rightarrow> declarator list \<Rightarrow> mscope" where
  "push_vars sc ds = sc\<lparr>vars := vars sc @ vars_of ds\<rparr>"

text \<open>What goes in front of a statement.\<close>

definition insert_before :: "mctx \<Rightarrow> mscope \<Rightarrow> (stmt list \<times> mscope) gen" where
  "insert_before ctx sc =
     bindc (drawn (chance (scaled (rate ctx) 5 10))) (\<lambda>b.
     if \<not> b then retc ([], sc)
     else
       bindc count_applied (\<lambda>_.
       bindc (drawn (chance (8, 100))) (\<lambda>e.
       if e then bindc (empty_if sc) (\<lambda>s. retc ([s], sc))
       else
         bindc (drawn (chance (5, 10))) (\<lambda>d.
         if d then bindc (declare_stmt ctx sc) (\<lambda>(s, sc'). retc ([s], sc'))
         else bindc (side_effect sc) (\<lambda>s. retc ([s], sc))))))"

text \<open>A draw that is only made where its guard allows the mutation, counted when it comes out.\<close>

definition guarded_chance :: "mctx \<Rightarrow> bool \<Rightarrow> int \<times> int \<Rightarrow> bool gen" where
  "guarded_chance ctx g p =
     (if \<not> g then retc False
      else bindc (drawn (chance p)) (\<lambda>b. if b then bindc count_applied (\<lambda>_. retc True) else retc False))"

fun movable :: "stmt \<Rightarrow> bool" where
  "movable (VariableDeclaration ds) = False"
| "movable s = True"

text \<open>The closer of a case, which stays last.\<close>

definition has_closer :: "mscope \<Rightarrow> stmt list \<Rightarrow> bool" where
  "has_closer sc ss = (in_case sc \<and> ss \<noteq> [] \<and> last ss = BreakStatement)"

definition source_of :: "mscope \<Rightarrow> stmt list \<Rightarrow> stmt list" where
  "source_of sc ss = (if has_closer sc ss then butlast ss else ss)"

definition finish_list :: "bool \<Rightarrow> (stmt list \<times> mscope) gen \<Rightarrow> (stmt list \<times> mscope) gen" where
  "finish_list closer m =
     bindc m (\<lambda>(out, sc).
     bindc (if out = [] then bindc (side_effect sc) (\<lambda>s. retc [s]) else retc out) (\<lambda>out'.
     retc (out' @ (if closer then [BreakStatement] else []), sc)))"

definition block_of :: "(stmt list \<times> mscope) gen \<Rightarrow> stmt gen" where
  "block_of m = bindc m (\<lambda>(ss, sc). retc (BlockStatement ss))"

definition for_scope :: "mscope \<Rightarrow> for_init option \<Rightarrow> mscope" where
  "for_scope sc i =
     (case i of
        Some (InitDecl ds) \<Rightarrow> push_vars (child_scope sc False True) ds
      | _ \<Rightarrow> child_scope sc False True)"

text \<open>A statement that leaves the scope alone.\<close>

definition keeping :: "mscope \<Rightarrow> stmt gen \<Rightarrow> (stmt \<times> mscope) gen" where
  "keeping sc m = bindc m (\<lambda>s. retc (s, sc))"

lemma size_source_of [termination_simp]: "3 * size_list size (source_of sc ss) < Suc (3 * size_list size ss)"
proof -
  have "size_list size (butlast ss) \<le> size_list size ss" by (induction ss) auto
  then show ?thesis by (simp add: source_of_def)
qed

lemma size_as_list_thrice [termination_simp]:
  "3 * size b + 4 \<le> n \<Longrightarrow> 3 * size_list size (as_list b) < n"
  using size_as_list [of b] by linarith

function (sequential) mutate_stmt ::
    "map_over \<Rightarrow> recurse \<Rightarrow> mctx \<Rightarrow> mscope \<Rightarrow> stmt \<Rightarrow> (stmt \<times> mscope) gen"
  and mutate_statements ::
    "map_over \<Rightarrow> recurse \<Rightarrow> mctx \<Rightarrow> mscope \<Rightarrow> stmt list \<Rightarrow> (stmt list \<times> mscope) gen"
  and mutate_list ::
    "map_over \<Rightarrow> recurse \<Rightarrow> mctx \<Rightarrow> bool \<Rightarrow> mscope \<Rightarrow> stmt list \<Rightarrow> (stmt list \<times> mscope) gen"
  and mutate_cases ::
    "map_over \<Rightarrow> recurse \<Rightarrow> mctx \<Rightarrow> mscope \<Rightarrow> switch_case list \<Rightarrow> switch_case list gen" where
  "mutate_stmt map_over kids ctx sc BreakStatement = retc (BreakStatement, sc)"
| "mutate_stmt map_over kids ctx sc (BlockStatement b) =
     keeping sc (block_of (mutate_statements map_over kids ctx (child_scope sc False (in_loop sc)) b))"
| "mutate_stmt map_over kids ctx sc (IfStatement t c a) =
     keeping sc
       (bindc (mutate_expr map_over kids ctx sc t) (\<lambda>t'.
        bindc (block_of (mutate_statements map_over kids ctx (child_scope sc False (in_loop sc)) (as_list c))) (\<lambda>c'.
        bindc (case a of
                 None \<Rightarrow>
                   bindc (drawn (chance (scaled (rate ctx) 3 10))) (\<lambda>b.
                   if b then bindc (side_effect (child_scope sc False (in_loop sc))) (\<lambda>s. retc (Some (BlockStatement [s])))
                   else retc None)
               | Some x \<Rightarrow>
                   bindc (block_of (mutate_statements map_over kids ctx (child_scope sc False (in_loop sc)) (as_list x)))
                     (\<lambda>x'. retc (Some x'))) (\<lambda>a'.
        retc (IfStatement t' c' a')))))"
| "mutate_stmt map_over kids ctx sc (WhileStatement t b) =
     keeping sc
       (bindc (block_of (mutate_statements map_over kids ctx (child_scope sc False True) (as_list b))) (\<lambda>b'.
        retc (WhileStatement t b')))"
| "mutate_stmt map_over kids ctx sc (DoWhileStatement b t) =
     keeping sc
       (bindc (block_of (mutate_statements map_over kids ctx (child_scope sc False True) (as_list b))) (\<lambda>b'.
        retc (DoWhileStatement b' t)))"
| "mutate_stmt map_over kids ctx sc (ForStatement i t u b) =
     keeping sc
       (bindc (block_of (mutate_statements map_over kids ctx (for_scope sc i) (as_list b))) (\<lambda>b'.
        retc (ForStatement i t u b')))"
| "mutate_stmt map_over kids ctx sc (SwitchStatement d cs) =
     keeping sc
       (bindc (mutate_cases map_over kids ctx sc cs) (\<lambda>cs1.
        bindc (add_case ctx sc cs1) (\<lambda>cs2.
        bindc (open_case ctx cs2) (\<lambda>cs3.
        bindc (remove_case ctx cs3) (\<lambda>cs4.
        bindc (mutate_expr map_over kids ctx sc d) (\<lambda>d'.
        retc (SwitchStatement d' cs4)))))))"
| "mutate_stmt map_over kids ctx sc (VariableDeclaration ds) =
     bindc (mutate_inits map_over kids ctx sc ds) (\<lambda>ds'.
     bindc (guarded_chance ctx True (scaled (rate ctx) 3 10)) (\<lambda>b.
     bindc (if b then bindc (drawn (pick all_types)) (\<lambda>t. retc (map (retype t) ds')) else retc ds') (\<lambda>ds''.
     retc (VariableDeclaration ds'', push_vars sc ds'))))"
| "mutate_stmt map_over kids ctx sc (ReturnStatement a) =
     keeping sc
       (bindc (case a of None \<Rightarrow> build sc 2 | Some e \<Rightarrow> mutate_expr map_over kids ctx sc e) (\<lambda>e'.
        retc (ReturnStatement (Some e'))))"
| "mutate_stmt map_over kids ctx sc (ExpressionStatement e) =
     keeping sc (bindc (mutate_expr map_over kids ctx sc e) (\<lambda>e'. retc (ExpressionStatement e')))"
| "mutate_statements map_over kids ctx sc ss =
     finish_list (has_closer sc ss)
       (mutate_list map_over kids ctx (1 < length (source_of sc ss)) sc (source_of sc ss))"
| "mutate_list map_over kids ctx several sc [] = retc ([], sc)"
| "mutate_list map_over kids ctx several sc (s # ss) =
     bindc (insert_before ctx sc) (\<lambda>(pre, sc1).
     bindc (guarded_chance ctx (movable s \<and> \<not> in_loop sc1 \<and> several) (scaled (rate ctx) 25 100)) (\<lambda>dropped.
     bindc (if dropped then retc ([], sc1)
            else
              bindc (mutate_stmt map_over kids ctx sc1 s) (\<lambda>(mutated, sc2).
              bindc (guarded_chance ctx (movable s) (scaled (rate ctx) 35 100)) (\<lambda>w.
              bindc (if w then wrap_stmt ctx sc2 mutated else retc mutated) (\<lambda>wrapped.
              bindc (guarded_chance ctx (movable s) (scaled (rate ctx) 15 100)) (\<lambda>again.
              bindc (if again
                     then bindc (mutate_stmt map_over kids ctx (child_scope sc2 False (in_loop sc2)) s) (\<lambda>(m, _). retc [m])
                     else retc []) (\<lambda>twin.
              retc (wrapped # twin, sc2))))))) (\<lambda>(here, sc3).
     bindc (mutate_list map_over kids ctx several sc3 ss) (\<lambda>(rest, sc4).
     retc (pre @ here @ rest, sc4)))))"
| "mutate_cases map_over kids ctx sc [] = retc []"
| "mutate_cases map_over kids ctx sc (SwitchCase t b # cs) =
     bindc (mutate_statements map_over kids ctx (child_scope sc True (in_loop sc)) b) (\<lambda>(b', _).
     bindc (mutate_cases map_over kids ctx sc cs) (\<lambda>cs'.
     retc (SwitchCase t b' # cs')))"
  by pat_completeness auto

termination
proof (relation "measure (case_sum
    (case_sum (\<lambda>(_, _, _, _, s). 3 * size s + 2) (\<lambda>(_, _, _, _, ss). Suc (3 * size_list size ss)))
    (case_sum (\<lambda>(_, _, _, _, _, ss). 3 * size_list size ss) (\<lambda>(_, _, _, _, cs). 3 * size_list size cs)))")
qed (auto simp: termination_simp)

subsection \<open>Whole programs\<close>

fun valued_return :: "stmt \<Rightarrow> bool" where
  "valued_return (ReturnStatement (Some e)) = True"
| "valued_return s = False"

definition close_with_return :: "stmt list \<Rightarrow> mscope \<Rightarrow> stmt list gen" where
  "close_with_return body sc =
     (if body \<noteq> [] \<and> (valued_return (last body) \<or> is_trap_call (last body)) then retc body
      else bindc (build sc 2) (\<lambda>e. retc (body @ [ReturnStatement (Some e)])))"

definition donates :: "expr \<Rightarrow> bool" where
  "donates e = (case e of Identifier _ \<Rightarrow> False | Literal _ \<Rightarrow> False | _ \<Rightarrow> \<not> opaque_call e)"

definition harvest :: "recurse \<Rightarrow> gen_program \<Rightarrow> expr list" where
  "harvest kids gen = concat (map (\<lambda>p. filter donates (each_expression kids (proc_body p))) gen)"

text \<open>Every name a program uses or declares.\<close>

fun identifier_name :: "expr \<Rightarrow> string list" where
  "identifier_name (Identifier n) = [n]"
| "identifier_name _ = []"

definition names_of :: "recurse \<Rightarrow> gen_program \<Rightarrow> string list" where
  "names_of kids gen =
     concat (map (\<lambda>p. proc_args p @ concat (map identifier_name (each_expression kids (proc_body p)))
       @ declared_names (proc_body p)) gen)"

definition arg_vars :: "string list \<Rightarrow> var list" where
  "arg_vars args = map (\<lambda>a. \<lparr>var_name = a, var_prim = U32\<rparr>) args"

definition proc_scope :: "string list \<Rightarrow> mscope" where
  "proc_scope args = \<lparr>vars = arg_vars args, in_case = False, in_loop = False\<rparr>"

definition callable_from :: "gen_program \<Rightarrow> nat \<Rightarrow> (string \<times> nat) list" where
  "callable_from gen i =
     map (\<lambda>k. (proc_name k, length (proc_args (gen ! k)))) [Suc i ..< length gen]"

text \<open>A new context counts from 0.\<close>

definition new_ctx :: "unit gen" where
  "new_ctx = modifyc (\<lambda>s. s\<lparr>g_applied := 0\<rparr>)"

definition mutate_proc ::
  "map_over \<Rightarrow> recurse \<Rightarrow> gen_program \<Rightarrow> int \<times> int \<Rightarrow> expr list \<Rightarrow> nat \<Rightarrow> gen_proc gen" where
  "mutate_proc map_over kids gen r ds i =
     (let p = gen ! i;
          ctx = \<lparr>callable = callable_from gen i, donors = ds, rate = r, name_prefix = CHR ''v''\<rparr>
      in bindc new_ctx (\<lambda>_.
         bindc (mutate_statements map_over kids ctx (proc_scope (proc_args p)) (proc_body p)) (\<lambda>(body, sc).
         bindc (close_with_return body sc) (\<lambda>body'.
         retc \<lparr>proc_args = proc_args p, proc_body = body'\<rparr>))))"

fun seqc :: "'a gen list \<Rightarrow> 'a list gen" where
  "seqc [] = retc []"
| "seqc (m # ms) = bindc m (\<lambda>x. bindc (seqc ms) (\<lambda>xs. retc (x # xs)))"

definition unshift :: "stmt \<Rightarrow> gen_proc \<Rightarrow> gen_proc" where
  "unshift s p = p\<lparr>proc_body := s # proc_body p\<rparr>"

definition grow_graph :: "int \<times> int \<Rightarrow> expr list \<Rightarrow> gen_program \<Rightarrow> gen_program gen" where
  "grow_graph r ds procs =
     (let index = length procs;
          ctx = \<lparr>callable = [], donors = ds, rate = r, name_prefix = CHR ''v''\<rparr>
      in bindc (drawn (between 0 4)) (\<lambda>arity.
         bindc (times (nat arity) (fresh ctx)) (\<lambda>args.
         bindc (build (proc_scope args) 2) (\<lambda>e.
         bindc (drawn (rng_int (int index))) (\<lambda>from.
         let grown = procs @ [\<lparr>proc_args = args, proc_body = [ReturnStatement (Some e)]\<rparr>];
             caller = grown ! nat from
         in bindc (times (nat arity) (build (proc_scope (proc_args caller)) 1)) (\<lambda>vals.
            retc (grown[nat from := unshift (ExpressionStatement (CallExpression (proc_name index) vals)) caller])))))))"

definition mutate_run ::
  "map_over \<Rightarrow> recurse \<Rightarrow> gen_program \<Rightarrow> int \<times> int \<Rightarrow> expr list \<Rightarrow> gen_program gen" where
  "mutate_run map_over kids gen r extra =
     (let ds = harvest kids gen @ extra
      in bindc (seqc (map (mutate_proc map_over kids gen r ds) [0 ..< length gen])) (\<lambda>procs.
         bindc (drawn (chance (15, 100))) (\<lambda>b.
         if b \<and> length procs < 8 then grow_graph r ds procs else retc procs)))"

definition gen_start :: "recurse \<Rightarrow> gen_program \<Rightarrow> int \<Rightarrow> gstate" where
  "gen_start kids gen seed = \<lparr>g_rng = rng_new seed, g_counter = 0, g_used = names_of kids gen, g_applied = 0\<rparr>"

definition default_rate :: "int \<times> int" where
  "default_rate = (12, 100)"

text \<open>\<open>Inl\<close> is an exception; the options are the rate, if given, and the extra donors.\<close>

definition mutate ::
  "map_over \<Rightarrow> recurse \<Rightarrow> gen_program \<Rightarrow> int \<Rightarrow> (int \<times> int) option \<Rightarrow> expr list \<Rightarrow> string + gen_program" where
  "mutate map_over kids gen seed r extra =
     fst (mutate_run map_over kids gen (case r of None \<Rightarrow> default_rate | Some x \<Rightarrow> x) extra (gen_start kids gen seed))"

text \<open>The attempts of both filters: the first candidate that is sequenced.\<close>

fun re_roll :: "recurse \<Rightarrow> (nat \<Rightarrow> string + gen_program) \<Rightarrow> nat list \<Rightarrow> string + gen_program option" where
  "re_roll kids candidate [] = Inr None"
| "re_roll kids candidate (a # as) =
     bindr (candidate a) (\<lambda>p.
     bindr (analyze kids p) (\<lambda>site.
     if site = None then Inr (Some p) else re_roll kids candidate as))"

definition derived_seed :: "u32 \<Rightarrow> int \<Rightarrow> nat \<Rightarrow> int" where
  "derived_seed m seed attempt = uint (to_u32 seed * m + of_nat attempt)"

definition mutate_sequenced ::
  "map_over \<Rightarrow> recurse \<Rightarrow> gen_program \<Rightarrow> int \<Rightarrow> (int \<times> int) option \<Rightarrow> expr list \<Rightarrow> string + gen_program option" where
  "mutate_sequenced map_over kids gen seed r extra =
     re_roll kids (\<lambda>a. mutate map_over kids gen (derived_seed 0x9e3779b1 seed a) r extra) [0 ..< 6]"

fun declare_run :: "mctx \<Rightarrow> nat \<Rightarrow> mscope \<Rightarrow> (stmt list \<times> mscope) gen" where
  "declare_run ctx 0 sc = retc ([], sc)"
| "declare_run ctx (Suc k) sc =
     bindc (declare_stmt ctx sc) (\<lambda>(s, sc1).
     bindc (declare_run ctx k sc1) (\<lambda>(ss, sc2). retc (s # ss, sc2)))"

definition inflate_run :: "gen_program \<Rightarrow> nat \<Rightarrow> gen_program gen" where
  "inflate_run gen statements =
     (case gen of
        [] \<Rightarrow> throwc ''Cannot read properties of undefined''
      | entry # others \<Rightarrow>
          let ctx = \<lparr>callable = [], donors = [], rate = (0, 1), name_prefix = CHR ''w''\<rparr>
          in bindc (declare_run ctx 3 (proc_scope (proc_args entry))) (\<lambda>(prologue, outer).
             bindc (times statements (side_effect (child_scope outer False (in_loop outer)))) (\<lambda>filler.
             bindc (drawn (rng_int 3)) (\<lambda>k.
             bindc (if k = 0 then bindc (build outer 1) (\<lambda>t. retc (IfStatement t (BlockStatement filler) None))
                    else if k = 1 then counted_loop ctx filler
                    else counted_do_while ctx filler) (\<lambda>span.
             bindc (close_with_return (prologue @ span # proc_body entry) outer) (\<lambda>body.
             retc (\<lparr>proc_args = proc_args entry, proc_body = body\<rparr> # others)))))))"

definition inflate :: "recurse \<Rightarrow> gen_program \<Rightarrow> int \<Rightarrow> nat \<Rightarrow> string + gen_program" where
  "inflate kids gen seed statements = fst (inflate_run gen statements (gen_start kids gen seed))"

definition inflate_sequenced :: "recurse \<Rightarrow> gen_program \<Rightarrow> int \<Rightarrow> nat \<Rightarrow> string + gen_program option" where
  "inflate_sequenced kids gen seed statements =
     re_roll kids (\<lambda>a. inflate kids gen (derived_seed 0x85ebca6b seed a) statements) [0 ..< 6]"

definition call_depth_reached :: "recurse \<Rightarrow> gen_program \<Rightarrow> bool" where
  "call_depth_reached kids gen = (\<exists>p \<in> set gen. callees_of kids (proc_body p) \<noteq> [])"

function nest_depth :: "stmt list \<Rightarrow> nat"
  and nest_of :: "stmt \<Rightarrow> nat" where
  "nest_depth ss = foldr max (map nest_of ss) 0"
| "nest_of s = foldr max (map (\<lambda>b. Suc (nest_depth b)) (child_bodies s)) 0"
  by pat_completeness auto

termination
proof (relation "measure (case_sum (\<lambda>ss. 2 * size_list size ss) (\<lambda>s. Suc (2 * size s)))")
  fix ss :: "stmt list" and x
  have "x \<in> set ss \<Longrightarrow> Suc (2 * size x) < 2 * size_list size ss"
    by (induction ss) auto
  then show "x \<in> set ss \<Longrightarrow> (Inr x, Inl ss) \<in> measure (case_sum (\<lambda>ss. 2 * size_list size ss) (\<lambda>s. Suc (2 * size s)))"
    by simp
next
  fix s and x :: "stmt list"
  show "x \<in> set (child_bodies s) \<Longrightarrow>
    (Inl x, Inr s) \<in> measure (case_sum (\<lambda>ss. 2 * size_list size ss) (\<lambda>s. Suc (2 * size s)))"
    using size_child_bodies by simp
qed simp

declare nest_depth.simps [simp del] nest_of.simps [simp del]

end
