(* ===== verification/Legal.thy ===== *)
theory Legal
  imports Mutate Eval_Types
begin

section \<open>What a generated program must be\<close>

text \<open>
  The invariants the head of \<^verbatim>\<open>gen/mutate.ts\<close> lists, as a judgement on trees: every name is
  visible where it is used and no visible name is declared again, every call is to a builtin
  with its arity or to a procedure of a higher index with its arity, no division, no bare
  \<^verbatim>\<open>return\<close>, a \<^verbatim>\<open>break\<close> only as the closer of a case, and case labels that are distinct
  literals. The judgement is relative to the callees a procedure may call and to the names
  visible at a site. It implies the well-scopedness of \<open>Eval_Types\<close> and \<^verbatim>\<open>checkGraph\<close>'s
  condition, so a legal program evaluates to an answer.
\<close>

subsection \<open>Expressions\<close>

type_synonym callees = "string \<Rightarrow> nat \<Rightarrow> bool"

definition word_range :: "int \<Rightarrow> bool" where
  "word_range v \<longleftrightarrow> 0 \<le> v \<and> v < 2 ^ 32"

definition no_division :: "assign_op \<Rightarrow> bool" where
  "no_division op \<longleftrightarrow> (case op of Assign \<Rightarrow> True | Compound b \<Rightarrow> \<not> division b)"

fun legal_expr :: "callees \<Rightarrow> string set \<Rightarrow> expr \<Rightarrow> bool" where
  "legal_expr C V (Literal v) \<longleftrightarrow> word_range v"
| "legal_expr C V (Identifier n) \<longleftrightarrow> n \<in> V"
| "legal_expr C V (CastExpression t e) \<longleftrightarrow> legal_expr C V e"
| "legal_expr C V (UnaryExpression op e) \<longleftrightarrow> legal_expr C V e"
| "legal_expr C V (BinaryExpression op l r) \<longleftrightarrow> \<not> division op \<and> legal_expr C V l \<and> legal_expr C V r"
| "legal_expr C V (LogicalExpression op l r) \<longleftrightarrow> legal_expr C V l \<and> legal_expr C V r"
| "legal_expr C V (ConditionalExpression c a b) \<longleftrightarrow>
     legal_expr C V c \<and> legal_expr C V a \<and> legal_expr C V b"
| "legal_expr C V (AssignmentExpression op n e) \<longleftrightarrow> n \<in> V \<and> legal_expr C V e \<and> no_division op"
| "legal_expr C V (UpdateExpression op pre e) \<longleftrightarrow> (case e of Identifier n \<Rightarrow> n \<in> V | _ \<Rightarrow> False)"
| "legal_expr C V (CallExpression f args) \<longleftrightarrow> C f (length args) \<and> list_all (legal_expr C V) args"

definition legal_opt :: "callees \<Rightarrow> string set \<Rightarrow> expr option \<Rightarrow> bool" where
  "legal_opt C V x \<longleftrightarrow> (case x of None \<Rightarrow> True | Some e \<Rightarrow> legal_expr C V e)"

subsection \<open>Statements\<close>

fun legal_decls :: "callees \<Rightarrow> string set \<Rightarrow> declarator list \<Rightarrow> bool" where
  "legal_decls C V [] \<longleftrightarrow> True"
| "legal_decls C V (d # ds) \<longleftrightarrow>
     legal_opt C V (decl_init d) \<and> decl_name d \<notin> V \<and> legal_decls C (insert (decl_name d) V) ds"

definition declares :: "declarator list \<Rightarrow> string set" where
  "declares ds = decl_name ` set ds"

definition init_names :: "for_init option \<Rightarrow> string set" where
  "init_names i = (case i of Some (InitDecl ds) \<Rightarrow> declares ds | _ \<Rightarrow> {})"

definition legal_init :: "callees \<Rightarrow> string set \<Rightarrow> for_init option \<Rightarrow> bool" where
  "legal_init C V i \<longleftrightarrow>
     (case i of None \<Rightarrow> True | Some (InitDecl ds) \<Rightarrow> legal_decls C V ds | Some (InitExpr e) \<Rightarrow> legal_expr C V e)"

definition names_after :: "stmt \<Rightarrow> string set" where
  "names_after s = (case s of VariableDeclaration ds \<Rightarrow> declares ds | _ \<Rightarrow> {})"

text \<open>A clause's test, and the clauses together: a labelled one, each label once, one default.\<close>

definition legal_test :: "expr option \<Rightarrow> bool" where
  "legal_test t \<longleftrightarrow> (case t of None \<Rightarrow> True | Some (Literal v) \<Rightarrow> word_range v | Some _ \<Rightarrow> False)"

definition labelled :: "switch_case \<Rightarrow> bool" where
  "labelled c \<longleftrightarrow> case_test c \<noteq> None"

definition labels_ok :: "switch_case list \<Rightarrow> bool" where
  "labels_ok cs \<longleftrightarrow> distinct (map case_test cs) \<and> (\<exists>c \<in> set cs. labelled c)"

definition without_closer :: "stmt list \<Rightarrow> stmt list" where
  "without_closer ss = (if ss \<noteq> [] \<and> last ss = BreakStatement then butlast ss else ss)"

lemma size_without_closer [termination_simp]: "size_list size (without_closer ss) \<le> size_list size ss"
proof -
  have "size_list size (butlast ss) \<le> size_list size ss" by (induction ss) auto
  then show ?thesis by (simp add: without_closer_def)
qed

lemma size_without_closer_twice [termination_simp]:
  "2 * size_list size ss < n \<Longrightarrow> 2 * size_list size (without_closer ss) < n"
  using size_without_closer [of ss] by linarith

function (sequential) legal_stmt :: "callees \<Rightarrow> string set \<Rightarrow> stmt \<Rightarrow> bool"
  and legal_list :: "callees \<Rightarrow> string set \<Rightarrow> stmt list \<Rightarrow> bool"
  and legal_cases :: "callees \<Rightarrow> string set \<Rightarrow> switch_case list \<Rightarrow> bool" where
  "legal_stmt C V (BlockStatement b) \<longleftrightarrow> legal_list C V b"
| "legal_stmt C V BreakStatement \<longleftrightarrow> False"
| "legal_stmt C V (ExpressionStatement e) \<longleftrightarrow> legal_expr C V e"
| "legal_stmt C V (ReturnStatement a) \<longleftrightarrow> (case a of None \<Rightarrow> False | Some e \<Rightarrow> legal_expr C V e)"
| "legal_stmt C V (VariableDeclaration ds) \<longleftrightarrow> legal_decls C V ds"
| "legal_stmt C V (IfStatement t c a) \<longleftrightarrow>
     legal_expr C V t \<and> legal_list C V (as_list c)
     \<and> (case a of None \<Rightarrow> True | Some b \<Rightarrow> legal_list C V (as_list b))"
| "legal_stmt C V (WhileStatement t b) \<longleftrightarrow> legal_expr C V t \<and> legal_list C V (as_list b)"
| "legal_stmt C V (DoWhileStatement b t) \<longleftrightarrow> legal_expr C V t \<and> legal_list C V (as_list b)"
| "legal_stmt C V (ForStatement i t u b) \<longleftrightarrow>
     legal_init C V i \<and> legal_opt C (V \<union> init_names i) t \<and> legal_opt C (V \<union> init_names i) u
     \<and> legal_list C (V \<union> init_names i) (as_list b)"
| "legal_stmt C V (SwitchStatement d cs) \<longleftrightarrow> legal_expr C V d \<and> legal_cases C V cs \<and> labels_ok cs"
| "legal_list C V [] \<longleftrightarrow> True"
| "legal_list C V (s # ss) \<longleftrightarrow> legal_stmt C V s \<and> legal_list C (V \<union> names_after s) ss"
| "legal_cases C V [] \<longleftrightarrow> True"
| "legal_cases C V (SwitchCase t b # cs) \<longleftrightarrow>
     legal_test t \<and> legal_list C V (without_closer b) \<and> legal_cases C V cs"
  by pat_completeness auto

termination
  by (relation "measure (case_sum (\<lambda>(_, _, s). Suc (2 * size s))
    (case_sum (\<lambda>(_, _, ss). 2 * size_list size ss) (\<lambda>(_, _, cs). 2 * size_list size cs)))")
    (auto simp: termination_simp)

lemma legal_list_append:
  "legal_list C V (xs @ ys) \<longleftrightarrow> legal_list C V xs \<and> legal_list C (V \<union> \<Union> (names_after ` set xs)) ys"
  by (induction xs arbitrary: V) (auto simp: Un_assoc)

subsection \<open>Programs\<close>

definition builtin_ok :: callees where
  "builtin_ok f k \<longleftrightarrow> (f \<in> {''trap'', ''clz'', ''revbits''} \<and> k = 1) \<or> (f \<in> set ext_ops \<and> k = ext_arity f)"

text \<open>What procedure \<open>i\<close> may call.\<close>

definition may_call :: "gen_program \<Rightarrow> nat \<Rightarrow> callees" where
  "may_call gen i f k \<longleftrightarrow> builtin_ok f k \<or> (f, k) \<in> set (callable_from gen i)"

definition legal_program :: "gen_program \<Rightarrow> bool" where
  "legal_program gen \<longleftrightarrow> gen \<noteq> [] \<and>
     (\<forall>i < length gen. legal_list (may_call gen i) (set (proc_args (gen ! i))) (proc_body (gen ! i)))"

lemma in_callable_from:
  "(f, k) \<in> set (callable_from gen i) \<longleftrightarrow>
     (\<exists>j. i < j \<and> j < length gen \<and> f = proc_name j \<and> k = length (proc_args (gen ! j)))"
  by (auto simp: callable_from_def Suc_le_eq image_iff)

subsection \<open>A legal program is well scoped\<close>

definition callees_wf :: "nat \<Rightarrow> callees \<Rightarrow> bool" where
  "callees_wf np C \<longleftrightarrow> (\<forall>f k. C f k \<longrightarrow> wf_callee np f k)"

definition visible :: "env \<Rightarrow> string set" where
  "visible E = {n. env_lookup E n \<noteq> None}"

lemma visible_env_declare [simp]: "E \<noteq> [] \<Longrightarrow> visible (env_declare E n t) = insert n (visible E)"
  by (cases E) (auto simp: visible_def split: option.splits)

lemma visible_push [simp]: "visible (Map.empty # E) = visible E"
  by (simp add: visible_def)

lemma visible_decls: "E \<noteq> [] \<Longrightarrow> visible (env_decls E ds) = visible E \<union> declares ds"
proof (induction ds arbitrary: E)
  case (Cons d ds)
  then show ?case by (cases d) (auto simp: declares_def)
qed (simp add: declares_def)

lemma visible_init: "E \<noteq> [] \<Longrightarrow> visible (env_init E i) = visible E \<union> init_names i"
  by (cases "(E, i)" rule: env_init.cases) (simp_all add: visible_decls init_names_def)

lemma visible_after: "E \<noteq> [] \<Longrightarrow> visible (env_after E s) = visible E \<union> names_after s"
  by (cases s) (simp_all add: visible_decls names_after_def)

lemma legal_wf_expr:
  assumes C: "callees_wf np C" and V: "V \<subseteq> visible E"
  shows "legal_expr C V e \<Longrightarrow> wf_expr np E e"
proof (induction e)
  case (CallExpression f args)
  then show ?case using C by (auto simp: list_all_iff callees_wf_def)
qed (use V in \<open>auto simp: visible_def no_division_def split: expr.splits assign_op.splits\<close>)

lemma legal_wf_opt:
  assumes "callees_wf np C" and "V \<subseteq> visible E"
  shows "legal_opt C V x \<Longrightarrow> wf_opt np E x"
  using legal_wf_expr [OF assms] by (auto simp: legal_opt_def wf_opt_def split: option.splits)

lemma legal_wf_decls:
  assumes C: "callees_wf np C"
  shows "legal_decls C V ds \<Longrightarrow> V \<subseteq> visible E \<Longrightarrow> E \<noteq> [] \<Longrightarrow> wf_decls np E ds"
proof (induction ds arbitrary: V E)
  case (Cons d ds)
  have "wf_decls np (env_declare E (decl_name d) (var_type d)) ds"
    using Cons.prems by (intro Cons.IH [of "insert (decl_name d) V"]) auto
  then show ?case using Cons.prems legal_wf_opt [OF C] by (cases d) auto
qed simp

lemma legal_wf_init:
  assumes C: "callees_wf np C" and "V \<subseteq> visible E" "E \<noteq> []"
  shows "legal_init C V i \<Longrightarrow> wf_init np E i"
  using legal_wf_expr [OF C assms(2)] legal_wf_decls [OF C _ assms(2,3)]
  by (auto simp: legal_init_def split: option.splits for_init.splits)

lemma wf_list_butlast: "wf_list np E (butlast ss) \<Longrightarrow> ss \<noteq> [] \<Longrightarrow> last ss = BreakStatement \<Longrightarrow> wf_list np E ss"
  by (induction ss arbitrary: E) (auto split: if_splits)

lemma wf_without_closer: "wf_list np E (without_closer ss) \<Longrightarrow> wf_list np E ss"
  using wf_list_butlast by (auto simp: without_closer_def split: if_splits)

lemma legal_test_wf: "legal_test t \<Longrightarrow> wf_opt np E t"
  by (auto simp: legal_test_def wf_opt_def split: option.splits expr.splits)

lemma legal_wf:
  assumes C: "callees_wf np C"
  shows "legal_stmt C V s \<Longrightarrow> V \<subseteq> visible E \<Longrightarrow> E \<noteq> [] \<Longrightarrow> wf_stmt np E s"
    and "legal_list C V ss \<Longrightarrow> V \<subseteq> visible E \<Longrightarrow> E \<noteq> [] \<Longrightarrow> wf_list np E ss"
    and "legal_cases C V cs \<Longrightarrow> V \<subseteq> visible E \<Longrightarrow> E \<noteq> [] \<Longrightarrow> wf_cases np E cs"
  using assms
proof (induction C V s and C V ss and C V cs arbitrary: E and E and E rule: legal_stmt_legal_list_legal_cases.induct)
  case (9 C V i t u b)
  then have "wf_init np (Map.empty # E) i"
    using legal_wf_init [of np C V "Map.empty # E"] by auto
  moreover have V: "V \<union> init_names i \<subseteq> visible (env_init (Map.empty # E) i)"
    using 9 by (auto simp: visible_init)
  moreover have "wf_opt np (env_init (Map.empty # E) i) x" if "legal_opt C (V \<union> init_names i) x" for x
    using 9 legal_wf_opt [OF _ V that] by simp
  ultimately show ?case
    using 9 by (auto simp: visible_init)
next
  case (12 C V s ss)
  have "wf_list np (env_after E s) ss"
    by (rule 12(2)) (use 12(3-6) in \<open>auto simp: visible_after\<close>)
  with 12 show ?case by simp
next
  case (14 C V t b cs)
  have "wf_list np (Map.empty # E) (without_closer b)" by (rule 14(1)) (use 14(3-6) in simp_all)
  then have "wf_list np (Map.empty # E) b" by (rule wf_without_closer)
  moreover have "wf_opt np E t" using 14(3) by (simp add: legal_test_wf)
  moreover have "wf_cases np E cs" by (rule 14(2)) (use 14(3-6) in simp_all)
  ultimately show ?case by simp
qed (auto simp: legal_wf_expr legal_wf_decls visible_after wf_opt_def split: option.splits)

lemma list_all_ball: "list_all P xs \<Longrightarrow> x \<in> set xs \<Longrightarrow> P x"
  by (simp add: list_all_iff)

lemma may_call_wf:
  assumes "may_call gen i f k"
  shows "wf_callee (length gen) f k"
proof (cases "builtin_ok f k")
  case True
  have "\<forall>f \<in> set ext_ops. f \<noteq> ''trap'' \<and> f \<noteq> ''clz'' \<and> f \<noteq> ''revbits''" by code_simp
  with True show ?thesis by (auto simp: builtin_ok_def wf_callee_def)
next
  case False
  with assms obtain j where j: "i < j" "j < length gen" "f = proc_name j" "k = length (proc_args (gen ! j))"
    by (auto simp: may_call_def in_callable_from)
  have "\<forall>f \<in> set (''trap'' # ''clz'' # ''revbits'' # ext_ops). proc_index f = None" by code_simp
  then have "f \<noteq> ''trap'' \<and> f \<noteq> ''clz'' \<and> f \<noteq> ''revbits'' \<and> f \<notin> set ext_ops"
    using j(3) by (metis list.set_intros option.distinct(1) proc_index_name)
  with j show ?thesis by (auto simp: wf_callee_def)
qed

lemma visible_params: "visible (params_env ns) = set ns" "params_env ns \<noteq> []"
  by (auto simp: visible_def params_env_def)

lemma legal_program_wf: "legal_program gen \<Longrightarrow> wf_program gen"
  unfolding legal_program_def wf_program_def list_all_length
  proof (intro conjI allI impI; elim conjE)
  fix i assume "i < length gen" and *: "\<forall>i<length gen. legal_list (may_call gen i) (set (proc_args (gen ! i))) (proc_body (gen ! i))"
  moreover have "callees_wf (length gen) (may_call gen i)" by (simp add: callees_wf_def may_call_wf)
  ultimately show "wf_list (length gen) (params_env (proc_args (gen ! i))) (proc_body (gen ! i))"
    by (auto intro: legal_wf(2) simp: visible_params)
qed

subsection \<open>The calls of a legal program go up\<close>

lemma legal_sub:
  "sub_expr x e \<Longrightarrow> legal_expr C V e \<Longrightarrow> legal_expr C V x"
proof (induction rule: sub_expr.induct)
  case (sub_step k e x)
  have "legal_expr C V k"
    using sub_step.hyps(1) sub_step.prems by (cases e) (auto simp: list_all_iff split: expr.splits)
  with sub_step.IH show ?case .
qed

lemma legal_call: "legal_expr C V e \<Longrightarrow> sub_expr (CallExpression f args) e \<Longrightarrow> C f (length args)"
  using legal_sub by fastforce

text \<open>Every expression of a legal list is legal where some names are visible.\<close>

definition all_legal :: "callees \<Rightarrow> stmt list \<Rightarrow> bool" where
  "all_legal C ss \<longleftrightarrow>
     (\<forall>s \<in> set (each_statement ss). \<forall>e \<in> set (child_expressions s). \<exists>V. legal_expr C V e)"

lemma all_legal_Nil [simp]: "all_legal C []"
  by (simp add: all_legal_def)

lemma all_legal_Cons: "all_legal C (s # ss) \<longleftrightarrow> all_legal C [s] \<and> all_legal C ss"
  by (auto simp: all_legal_def)

lemma all_legal_one:
  "all_legal C [s] \<longleftrightarrow> (\<forall>e \<in> set (child_expressions s). \<exists>V. legal_expr C V e)
     \<and> (\<forall>b \<in> set (child_bodies s). all_legal C b)"
  by (auto simp: all_legal_def set_each_of)

lemma all_legal_closer: "all_legal C (without_closer ss) \<Longrightarrow> all_legal C ss"
proof -
  have "set (each_statement ss) \<subseteq> insert BreakStatement (set (each_statement (without_closer ss)))"
  proof (cases "ss \<noteq> [] \<and> last ss = BreakStatement")
    case True
    then have "ss = butlast ss @ [BreakStatement]" by (metis append_butlast_last_id)
    then have "each_statement ss = each_statement (butlast ss) @ each_of BreakStatement"
      by (metis each_statement_simps append_Nil2)
    with True show ?thesis by (simp add: without_closer_def set_each_of)
  next
    case False
    then have "without_closer ss = ss" by (auto simp: without_closer_def)
    then show ?thesis by auto
  qed
  then show "all_legal C (without_closer ss) \<Longrightarrow> ?thesis"
    by (auto simp: all_legal_def)
qed

lemma legal_opt_in: "legal_opt C V x \<Longrightarrow> e \<in> set_option x \<Longrightarrow> legal_expr C V e"
  by (auto simp: legal_opt_def)

lemma legal_decls_in: "legal_decls C V ds \<Longrightarrow> e \<in> set (decl_inits ds) \<Longrightarrow> \<exists>V. legal_expr C V e"
proof (induction ds arbitrary: V)
  case (Cons d ds)
  then show ?case using legal_opt_in by (fastforce simp: decl_inits_def)
qed (simp add: decl_inits_def)

lemma legal_init_in: "legal_init C V i \<Longrightarrow> e \<in> set (init_exprs i) \<Longrightarrow> \<exists>V. legal_expr C V e"
  by (cases i rule: init_exprs.cases) (auto simp: legal_init_def dest: legal_decls_in)

lemma legal_test_in: "legal_test t \<Longrightarrow> e \<in> set_option t \<Longrightarrow> legal_expr C {} e"
  by (auto simp: legal_test_def split: expr.splits)

lemma legal_cases_in:
  "legal_cases C V cs \<Longrightarrow> c \<in> set cs \<Longrightarrow> legal_test (case_test c) \<and> legal_list C V (without_closer (case_body c))"
proof (induction cs)
  case (Cons d cs)
  then show ?case by (cases d) auto
qed simp

lemma legal_all:
  "legal_stmt C V s \<Longrightarrow> all_legal C [s]"
  "legal_list C V ss \<Longrightarrow> all_legal C ss"
  "legal_cases C V cs \<Longrightarrow> \<forall>c \<in> set cs. all_legal C (case_body c)"
proof (induction C V s and C V ss and C V cs rule: legal_stmt_legal_list_legal_cases.induct)
  case (9 C V i t u b)
  then show ?case using legal_opt_in legal_init_in by (fastforce simp: all_legal_one)
next
  case (10 C V d cs)
  then show ?case using legal_cases_in legal_test_in by (fastforce simp: all_legal_one)
next
  case (14 C V t b cs)
  then show ?case by (auto intro: all_legal_closer)
next
  case (12 C V s ss)
  then show ?case by (simp add: all_legal_Cons [of C s ss])
qed (auto simp: all_legal_one dest: legal_decls_in split: option.splits)

lemma may_call_up:
  assumes "may_call gen i f k" and "proc_index f = Some j"
  shows "i < j \<and> j < length gen"
proof -
  have "\<forall>f \<in> set (''trap'' # ''clz'' # ''revbits'' # ext_ops). proc_index f = None" by code_simp
  with assms(2) have "\<not> builtin_ok f k" by (auto simp: builtin_ok_def)
  with assms show ?thesis by (auto simp: may_call_def in_callable_from)
qed

lemma legal_program_graph:
  assumes "walker kids" and "legal_program gen"
  shows "check_graph kids gen = Inr ()"
proof -
  have "i < j \<and> j < length gen" if "(i, j) \<in> call_graph gen" for i j
  proof -
    from that obtain s e f args where "i < length gen" and s: "s \<in> set (each_statement (proc_body (gen ! i)))"
      "e \<in> set (child_expressions s)" and call: "sub_expr (CallExpression f args) e" "proc_index f = Some j"
      by (auto simp: call_graph_def calls_def)
    with assms(2) have "all_legal (may_call gen i) (proc_body (gen ! i))"
      by (auto simp: legal_program_def intro: legal_all)
    with s obtain V where "legal_expr (may_call gen i) V e" by (auto simp: all_legal_def)
    from legal_call [OF this call(1)] may_call_up call(2) show ?thesis by blast
  qed
  then show ?thesis
    using assms by (auto simp: check_graph_iff [OF assms(1)] legal_program_def)
qed

end
