(* ===== verification/Mutate_Legal.thy ===== *)
theory Mutate_Legal
  imports Legal
begin

section \<open>Mutation keeps a program legal\<close>

text \<open>
  The claim at the head of \<^verbatim>\<open>gen/mutate.ts\<close>: whatever it emits is well scoped by construction.
  The expression walk is proved against the judgement of \<open>Legal\<close> from the contract of mog-core's
  \<^verbatim>\<open>mapOver\<close>, the locale \<open>mapper\<close>; the statement walk in addition keeps the names in use ahead
  of every name it introduces.
\<close>

declare build.simps [simp del]

subsection \<open>What a generating computation returns\<close>

text \<open>It throws nothing, and leaves the names in use as they are.\<close>

definition yields :: "'a gen \<Rightarrow> ('a \<Rightarrow> bool) \<Rightarrow> bool" where
  "yields m Q \<longleftrightarrow> (\<forall>s. \<exists>v t. m s = (Inr v, t) \<and> g_used t = g_used s \<and> Q v)"

named_theorems yield_intros "rules for what a generating computation returns"

lemma yields_retc [yield_intros]: "Q v \<Longrightarrow> yields (retc v) Q"
  by (simp add: yields_def)

lemma yields_bindc: "yields m R \<Longrightarrow> (\<And>v. R v \<Longrightarrow> yields (f v) Q) \<Longrightarrow> yields (bindc m f) Q"
  unfolding yields_def by (metis bindc_Inr)

lemma yields_weaken: "yields m Q \<Longrightarrow> (\<And>v. Q v \<Longrightarrow> R v) \<Longrightarrow> yields m R"
  unfolding yields_def by blast

lemma yields_if [yield_intros]: "(b \<Longrightarrow> yields m Q) \<Longrightarrow> (\<not> b \<Longrightarrow> yields n Q) \<Longrightarrow> yields (if b then m else n) Q"
  by simp

lemma yields_drawn:
  assumes "draws m Q"
  shows "yields (drawn m) Q"
  unfolding yields_def drawn_def
proof (rule allI)
  fix s :: gstate
  from drawsD [OF assms, of "g_rng s"] obtain v t where "m (g_rng s) = (Inr v, t)" "Q v" by blast
  then show "\<exists>v t. (case m (g_rng s) of (r, g) \<Rightarrow> (r, s\<lparr>g_rng := g\<rparr>)) = (Inr v, t) \<and> g_used t = g_used s \<and> Q v"
    by simp
qed

lemma yields_count [yield_intros]: "yields count_applied (\<lambda>_. True)"
  by (simp add: yields_def count_applied_def)

lemma yields_new_ctx: "yields new_ctx (\<lambda>_. True)"
  by (simp add: yields_def new_ctx_def)

lemmas yields_draw =
  yields_drawn [OF draws_chance] yields_drawn [OF draws_maybe_pick]

lemma yields_pick: "items \<noteq> [] \<Longrightarrow> yields (drawn (pick items)) (\<lambda>v. v \<in> set items)"
  by (rule yields_drawn [OF draws_pick])

lemma yields_choice:
  assumes "opts \<noteq> []" and "\<And>m. m \<in> set opts \<Longrightarrow> yields m Q"
  shows "yields (bindc (drawn (pick opts)) (\<lambda>opt. opt)) Q"
  by (rule yields_bindc [OF yields_pick]) (use assms in auto)

lemma yields_times: "yields m Q \<Longrightarrow> yields (times k m) (\<lambda>xs. length xs = k \<and> list_all Q xs)"
proof (induction k)
  case (Suc k)
  show ?case unfolding times.simps
    by (rule yields_bindc [OF Suc.prems], rule yields_bindc [OF Suc.IH [OF Suc.prems]]) (simp add: yields_retc)
qed (simp add: yields_retc)

subsection \<open>Rebuilding an expression\<close>

text \<open>An expression with other operands, in the order of \<open>operands\<close>.\<close>

fun rebuild :: "expr \<Rightarrow> expr list \<Rightarrow> expr" where
  "rebuild (CastExpression t e) ks = CastExpression t (ks ! 0)"
| "rebuild (UnaryExpression op e) ks = UnaryExpression op (ks ! 0)"
| "rebuild (BinaryExpression op l r) ks = BinaryExpression op (ks ! 0) (ks ! 1)"
| "rebuild (LogicalExpression op l r) ks = LogicalExpression op (ks ! 0) (ks ! 1)"
| "rebuild (ConditionalExpression c a b) ks = ConditionalExpression (ks ! 0) (ks ! 1) (ks ! 2)"
| "rebuild (AssignmentExpression op n e) ks = AssignmentExpression op n (ks ! 0)"
| "rebuild (UpdateExpression op pre e) ks = UpdateExpression op pre (ks ! 0)"
| "rebuild (CallExpression f args) ks = CallExpression f ks"
| "rebuild e ks = e"

lemma list_all2_2: "list_all2 P [a, b] ks \<longleftrightarrow> (\<exists>x y. ks = [x, y] \<and> P a x \<and> P b y)"
  and list_all2_1: "list_all2 P [a] ks \<longleftrightarrow> (\<exists>x. ks = [x] \<and> P a x)"
  and list_all2_3: "list_all2 P [a, b, c] ks \<longleftrightarrow> (\<exists>x y z. ks = [x, y, z] \<and> P a x \<and> P b y \<and> P c z)"
  by (auto simp: list_all2_Cons1)

text \<open>
  mog-core's \<^verbatim>\<open>mapOver\<close>: it calls its function on every operand, in some order, and puts the
  results in their places; what the function does elsewhere is of no consequence.
\<close>

locale mapper =
  fixes map_over :: map_over
  assumes maps: "(\<And>k. k \<in> set (operands e) \<Longrightarrow> yields (f k) (R k)) \<Longrightarrow>
      yields (map_over f e) (\<lambda>x. \<exists>ks. list_all2 R (operands e) ks \<and> x = rebuild e ks)"
    and map_cong: "(\<And>k. k \<in> set (operands e) \<Longrightarrow> f k = g k) \<Longrightarrow> map_over f e = map_over g e"

text \<open>The instance that goes left to right.\<close>

fun seq_map :: "('a \<Rightarrow> 'b gen) \<Rightarrow> 'a list \<Rightarrow> 'b list gen" where
  "seq_map f [] = retc []"
| "seq_map f (x # xs) = bindc (f x) (\<lambda>y. bindc (seq_map f xs) (\<lambda>ys. retc (y # ys)))"

definition map_operands :: map_over where
  "map_operands f e = bindc (seq_map f (operands e)) (\<lambda>ks. retc (rebuild e ks))"

lemma yields_seq_map:
  "(\<And>x. x \<in> set xs \<Longrightarrow> yields (f x) (R x)) \<Longrightarrow> yields (seq_map f xs) (list_all2 R xs)"
proof (induction xs)
  case (Cons x xs)
  show ?case unfolding seq_map.simps
    by (rule yields_bindc [OF Cons.prems [of x]], simp, rule yields_bindc [OF Cons.IH])
      (simp_all add: yields_retc Cons.prems)
qed (simp add: yields_retc)

lemma seq_map_cong: "(\<And>x. x \<in> set xs \<Longrightarrow> f x = g x) \<Longrightarrow> seq_map f xs = seq_map g xs"
  by (induction xs) auto

interpretation lr: mapper map_operands
proof
  fix e and f :: "expr \<Rightarrow> expr gen" and R
  assume "\<And>k. k \<in> set (operands e) \<Longrightarrow> yields (f k) (R k)"
  from yields_seq_map [OF this]
  show "yields (map_operands f e) (\<lambda>x. \<exists>ks. list_all2 R (operands e) ks \<and> x = rebuild e ks)"
    unfolding map_operands_def by (rule yields_bindc) (auto intro: yields_retc)
next
  fix e and f g :: "expr \<Rightarrow> expr gen"
  assume "\<And>k. k \<in> set (operands e) \<Longrightarrow> f k = g k"
  then show "map_operands f e = map_operands g e"
    unfolding map_operands_def using seq_map_cong by metis
qed

subsection \<open>Fresh operands\<close>

lemma yields_bind_draw: "draws m R \<Longrightarrow> (\<And>v. R v \<Longrightarrow> yields (f v) Q) \<Longrightarrow> yields (bindc (drawn m) f) Q"
  by (rule yields_bindc [OF yields_drawn])

lemma yields_bind_any: "yields m (\<lambda>_. True) \<Longrightarrow> (\<And>v. yields (f v) Q) \<Longrightarrow> yields (bindc m f) Q"
  by (rule yields_bindc) auto

text \<open>What a site may use: the names in scope are visible, the callable procedures are callees.\<close>

definition callees_ok :: "callees \<Rightarrow> mctx \<Rightarrow> bool" where
  "callees_ok C ctx \<longleftrightarrow> (\<forall>(f, k) \<in> set (callable ctx). C f k) \<and> (\<forall>f k. builtin_ok f k \<longrightarrow> C f k)"

definition scope_in :: "mscope \<Rightarrow> string set \<Rightarrow> bool" where
  "scope_in sc V \<longleftrightarrow> var_name ` set (vars sc) \<subseteq> V"

lemma lit_legal [simp]: "legal_expr C V (lit v)"
  using uint_lt2p [of "to_u32 v"] by (simp add: lit_def word_range_def)

lemma shift_safe_form:
  "shift_safe op e = e \<or> (\<exists>v. shift_safe op e = lit v) \<or> shift_safe op e = BinaryExpression Amp e (lit 31)"
proof (cases e)
  case (BinaryExpression o' l r)
  then show ?thesis by (cases o'; cases r) (simp_all add: shift_safe_def)
qed (auto simp: shift_safe_def)

lemma shift_safe_legal: "legal_expr C V e \<Longrightarrow> legal_expr C V (shift_safe op e)"
  using shift_safe_form [of op e] by (auto simp: division_def)

lemma boundary_legal: "yields boundary_lit (legal_expr C V)"
  unfolding boundary_lit_def
  by (rule yields_bindc [OF yields_pick]) (simp_all add: boundary_def yields_retc)

lemma yields_maybe:
  assumes "yields n Q" and "\<And>x. x \<in> set xs \<Longrightarrow> yields (f x) Q"
  shows "yields (bindc (drawn (maybe_pick xs)) (\<lambda>v. case v of None \<Rightarrow> n | Some x \<Rightarrow> f x)) Q"
proof (rule yields_bindc [OF yields_draw(2)])
  fix v assume "set_option v \<subseteq> set xs \<and> (v = None \<longleftrightarrow> xs = [])"
  with assms show "yields (case v of None \<Rightarrow> n | Some x \<Rightarrow> f x) Q" by (cases v) auto
qed

lemma picked_var: "set_option v \<subseteq> set (vars sc) \<Longrightarrow> v = Some x \<Longrightarrow> scope_in sc V \<Longrightarrow> var_name x \<in> V"
  by (auto simp: scope_in_def)

lemma var_or_boundary:
  assumes "scope_in sc V" and "set_option v \<subseteq> set (vars sc)"
  shows "yields (case v of None \<Rightarrow> boundary_lit | Some x \<Rightarrow> retc (Identifier (var_name x))) (legal_expr C V)"
  using picked_var [OF assms(2) _ assms(1)] by (cases v) (auto simp: boundary_legal intro: yields_retc)

lemma leaf_legal:
  assumes "scope_in sc V"
  shows "yields (leaf sc) (legal_expr C V)"
  unfolding leaf_def
proof (rule yields_bind_draw [OF draws_chance])
  fix b
  have "yields (if b then drawn (maybe_pick (vars sc)) else retc None) (\<lambda>v. set_option v \<subseteq> set (vars sc))"
    by (auto intro: yields_retc yields_weaken [OF yields_draw(2)])
  then show "yields (bindc (if b then drawn (maybe_pick (vars sc)) else retc None)
     (\<lambda>v. case v of None \<Rightarrow> boundary_lit | Some x \<Rightarrow> retc (Identifier (var_name x)))) (legal_expr C V)"
    by (rule yields_bindc) (rule var_or_boundary [OF assms])
qed

lemma pick_binary_legal: "yields pick_binary (\<lambda>op. \<not> division op)"
proof -
  have "\<forall>c \<in> set binary_classes. c \<noteq> [] \<and> (\<forall>op \<in> set c. \<not> division op)" by code_simp
  then show ?thesis
    unfolding pick_binary_def
    by (intro yields_bindc [OF yields_pick] yields_weaken [OF yields_pick]) (auto simp: binary_classes_def)
qed

lemma build_legal:
  assumes "scope_in sc V" and "\<And>f k. builtin_ok f k \<Longrightarrow> C f k"
  shows "yields (build sc d) (legal_expr C V)"
proof (induction d)
  case 0
  then show ?case using leaf_legal assms by (simp add: build.simps)
next
  case (Suc d)
  have b: "C f (Suc 0)" if "f \<in> set (unary_builtins @ load_builtins)" for f
  proof -
    have "\<forall>f \<in> set (unary_builtins @ load_builtins). (f \<in> set [''trap'', ''clz'', ''revbits'']) \<or> (f \<in> set ext_ops \<and> 1 = ext_arity f)"
      by code_simp
    with that assms(2) show ?thesis by (auto simp: builtin_ok_def)
  qed
  have ne: "prefix_ops \<noteq> []" "narrow_types \<noteq> []" "unary_builtins \<noteq> []" "load_builtins \<noteq> []"
    by (simp_all add: prefix_ops_def narrow_types_def unary_builtins_def load_builtins_def)
  show ?case unfolding build.simps
    by (intro yields_bind_draw [OF draws_chance] yields_if yields_bind_any [OF yields_weaken [OF yields_drawn [OF draws_int]]]
        leaf_legal assms(1) yields_bindc [OF pick_binary_legal] yields_bindc [OF Suc.IH]
        yields_bindc [OF yields_pick [OF ne(1)]] yields_bindc [OF yields_pick [OF ne(2)]]
        yields_bindc [OF yields_pick [OF ne(3)]] yields_bindc [OF yields_pick [OF ne(4)]])
      (auto intro!: yields_retc b shift_safe_legal)
qed

subsection \<open>Splicing\<close>

text \<open>What a new set of operands leaves to be checked.\<close>

fun root_ok :: "callees \<Rightarrow> string set \<Rightarrow> expr \<Rightarrow> bool" where
  "root_ok D W (Identifier n) \<longleftrightarrow> n \<in> W"
| "root_ok D W (AssignmentExpression op n x) \<longleftrightarrow> n \<in> W"
| "root_ok D W (UpdateExpression op pre x) \<longleftrightarrow> False"
| "root_ok D W (CallExpression f args) \<longleftrightarrow> D f (length args)"
| "root_ok D W e \<longleftrightarrow> True"

lemma rebuild_legal:
  assumes "legal_expr C V e" and "list_all2 (\<lambda>k x. legal_expr D W x) (operands e) ks" and "root_ok D W e"
  shows "legal_expr D W (rebuild e ks)"
  using assms by (cases e) (auto simp: list_all2_1 list_all2_2 list_all2_3 list_all2_conv_all_nth list_all_length)

text \<open>A donor may use any name and any procedure.\<close>

definition any_callee :: callees where
  "any_callee f k \<longleftrightarrow> proc_index f \<noteq> None \<or> builtin_ok f k"

definition donor_ok :: "expr \<Rightarrow> bool" where
  "donor_ok e \<longleftrightarrow> legal_expr any_callee UNIV e"

lemma donor_operand: "donor_ok e \<Longrightarrow> k \<in> set (operands e) \<Longrightarrow> donor_ok k"
  unfolding donor_ok_def using legal_sub [OF sub_step [OF _ sub_refl]] by blast

context mapper
begin

lemma maps_legal:
  assumes e: "legal_expr C V e" and f: "\<And>k. k \<in> set (operands e) \<Longrightarrow> yields (f k) (legal_expr D W)"
    and r: "root_ok D W e"
  shows "yields (map_over f e) (legal_expr D W)"
proof (rule yields_weaken [OF maps])
  show "yields (f k) (legal_expr D W)" if "k \<in> set (operands e)" for k using f that .
  fix x assume "\<exists>ks. list_all2 (\<lambda>k. legal_expr D W) (operands e) ks \<and> x = rebuild e ks"
  then show "legal_expr D W x" using rebuild_legal [OF e _ r] by blast
qed

lemma rebind_legal:
  assumes "scope_in sc V" and C: "callees_ok C ctx"
  shows "donor_ok e \<Longrightarrow> depth e \<le> n \<Longrightarrow> yields (rebind map_over ctx sc n e) (legal_expr C V)"
proof (induction n arbitrary: e)
  case 0
  then show ?case using depth_pos [of e] by simp
next
  case (Suc n)
  have b: "\<And>f k. builtin_ok f k \<Longrightarrow> C f k" using C by (simp add: callees_ok_def)
  have bl: "yields (build sc d) (legal_expr C V)" for d by (rule build_legal [OF assms(1)]) (rule b)
  have sub: "yields (rebind map_over ctx sc n k) (legal_expr C V)" if "k \<in> set (operands e)" for k
    using Suc.IH [OF donor_operand [OF Suc.prems(1) that]] operands_depth [OF that] Suc.prems(2) by simp
  have over: "yields (map_over (rebind map_over ctx sc n) e) (legal_expr C V)" if "root_ok C V e"
    by (rule maps_legal [OF Suc.prems(1) [unfolded donor_ok_def] sub that])
  show ?case
  proof (cases e)
    case (Identifier m)
    then show ?thesis using assms(1) by (auto intro!: yields_maybe boundary_legal yields_retc simp: scope_in_def)
  next
    case (AssignmentExpression op m r)
    have "no_division op" using Suc.prems(1) AssignmentExpression by (simp add: donor_ok_def)
    then show ?thesis using AssignmentExpression sub [of r] assms(1)
      by (auto intro!: yields_maybe yields_bindc [OF sub] yields_retc simp: scope_in_def)
  next
    case (UpdateExpression op pre x)
    then show ?thesis using assms(1) by (auto intro!: yields_maybe yields_retc simp: scope_in_def)
  next
    case (CallExpression f args)
    then show ?thesis
      using bl over Suc.prems(1) C b
      by (auto simp: donor_ok_def any_callee_def callees_ok_def)
  qed (use over in simp_all)
qed

end

subsection \<open>One site\<close>

lemma class_of_props: "class_of op \<noteq> [] \<and> (\<forall>o' \<in> set (class_of op). \<not> division o')"
proof -
  have all: "\<forall>c \<in> set (arith_ops # binary_classes). c \<noteq> [] \<and> (\<forall>o' \<in> set c. \<not> division o')" by code_simp
  have "class_of op \<in> set (arith_ops # binary_classes)"
    by (auto simp: class_of_def find_Some_iff in_set_conv_nth split: option.split)
  with all show ?thesis by blast
qed

lemma small_legal:
  assumes "scope_in sc V" and e: "legal_expr C V e" and "m \<in> set (small_options sc e)"
  shows "yields m (legal_expr C V)"
proof -
  have ne: "prefix_ops \<noteq> []" "narrow_types \<noteq> []" by (simp_all add: prefix_ops_def narrow_types_def)
  note ops = yields_weaken [OF yields_pick [OF class_of_props [THEN conjunct1]]]
  have cls: "yields (drawn (pick (class_of op))) (\<lambda>o'. \<not> division o')" for op
    by (rule ops) (use class_of_props in blast)
  show ?thesis
    using assms
    by (cases e) (auto simp: small_options_def
        intro!: yields_retc boundary_legal leaf_legal [OF assms(1)] shift_safe_legal yields_bindc [OF cls]
          yields_bindc [OF pick_binary_legal] yields_bindc [OF yields_pick [OF ne(1)]] yields_bindc [OF yields_pick [OF ne(2)]]
          yields_bindc [OF yields_drawn [OF draws_between]])
qed

text \<open>The context of a site.\<close>

definition site_ok :: "callees \<Rightarrow> string set \<Rightarrow> mctx \<Rightarrow> mscope \<Rightarrow> bool" where
  "site_ok C V ctx sc \<longleftrightarrow> scope_in sc V \<and> callees_ok C ctx \<and> list_all donor_ok (donors ctx)"

lemma site_build: "site_ok C V ctx sc \<Longrightarrow> yields (build sc d) (legal_expr C V)"
  by (rule build_legal) (auto simp: site_ok_def callees_ok_def)

lemma builtin_calls:
  assumes "callees_ok C ctx" and "f \<in> set (unary_builtins @ load_builtins)"
  shows "C f (Suc 0)"
proof -
  have "\<forall>f \<in> set (unary_builtins @ load_builtins). (f \<in> set [''trap'', ''clz'', ''revbits'']) \<or> (f \<in> set ext_ops \<and> 1 = ext_arity f)"
    by code_simp
  with assms(2) have "builtin_ok f (Suc 0)" by (simp only: builtin_ok_def One_nat_def set_simps) blast
  with assms(1) show ?thesis by (simp add: callees_ok_def)
qed

lemma growing_legal:
  assumes s: "site_ok C V ctx sc" and e: "legal_expr C V e" and "m \<in> set (growing_options sc e)"
  shows "yields m (legal_expr C V)"
proof -
  have ne: "prefix_ops \<noteq> []" "narrow_types \<noteq> []" "unary_builtins \<noteq> []" "load_builtins \<noteq> []" "[AndAnd, OrOr] \<noteq> []"
    by (simp_all add: prefix_ops_def narrow_types_def unary_builtins_def load_builtins_def)
  have c: "C f (Suc 0)" if "f \<in> set unary_builtins \<or> f \<in> set load_builtins" for f
    using builtin_calls [of C ctx f] that s by (auto simp: site_ok_def)
  note picks = ne [THEN yields_pick, THEN yields_bindc]
  have "list_all (\<lambda>m. yields m (legal_expr C V)) (growing_options sc e)"
    unfolding growing_options_def list.pred_inject
    by (intro conjI TrueI picks yields_bindc [OF pick_binary_legal] yields_bindc [OF site_build [OF s]] site_build [OF s]
         yields_retc) (auto simp: e c shift_safe_legal)
  with assms(3) show ?thesis by (simp add: list_all_iff)
qed

lemma write_legal:
  assumes "site_ok C V ctx sc" and e: "legal_expr C V e" and "m \<in> set (write_options e v)" and "set_option v \<subseteq> set (vars sc)"
  shows "yields m (legal_expr C V)"
proof -
  have ne: "[Incr, Decr] \<noteq> []" by simp
  show ?thesis
    using assms by (cases v) (auto simp: write_options_def site_ok_def scope_in_def no_division_def
        intro!: yields_retc yields_bindc [OF yields_pick [OF ne]] yields_bind_draw [OF draws_chance])
qed

lemma call_options_legal:
  assumes s: "site_ok C V ctx sc" and "m \<in> set (call_options sc c)" and "set_option c \<subseteq> set (callable ctx)"
  shows "yields m (legal_expr C V)"
proof -
  from assms obtain f k where "c = Some (f, k)" "C f k" "m = bindc (times k (build sc 1)) (\<lambda>args. retc (CallExpression f args))"
    by (cases c) (auto simp: call_options_def site_ok_def callees_ok_def simp del: retc_apply)
  then show ?thesis
    using yields_bindc [OF yields_times [OF site_build [OF s]]] by (auto intro!: yields_bindc [OF yields_times [OF site_build [OF s]]] yields_retc)
qed

context mapper
begin

lemma donor_options_legal:
  assumes s: "site_ok C V ctx sc" and "m \<in> set (donor_options map_over kids ctx sc d)" and "set_option d \<subseteq> set (donors ctx)"
  shows "yields m (legal_expr C V)"
proof -
  from assms obtain e where "e \<in> set (donors ctx)" "m = rebind map_over ctx sc (depth e) e"
    by (cases d) (auto simp: donor_options_def split: if_splits)
  with s show ?thesis by (auto simp: site_ok_def list_all_iff intro!: rebind_legal)
qed

lemma site_legal:
  assumes s: "site_ok C V ctx sc" and e: "legal_expr C V e"
  shows "yields (mutate_site map_over kids ctx sc e) (legal_expr C V)"
proof -
  have sc: "scope_in sc V" using s by (simp add: site_ok_def)
  note small = small_legal [OF sc e]
  have stay: "yields (bindc (drawn (pick (if small_options sc e \<noteq> [] then small_options sc e else [retc e]))) (\<lambda>opt. opt)) (legal_expr C V)"
    by (rule yields_choice) (use small e in \<open>auto intro: yields_retc split: if_splits\<close>)
  have ne: "growing_options sc e \<noteq> []" by (simp add: growing_options_def)
  have grow: "yields (bindc (drawn (maybe_pick (callable ctx))) (\<lambda>callee.
           bindc (drawn (maybe_pick (donors ctx))) (\<lambda>donor.
           bindc (drawn (maybe_pick (vars sc))) (\<lambda>target.
           bindc (drawn (pick (small_options sc e @ growing_options sc e @ call_options sc callee
             @ donor_options map_over kids ctx sc donor @ write_options e target))) (\<lambda>opt. opt))))) (legal_expr C V)"
  proof (intro yields_bindc [OF yields_draw(2)] yields_choice)
    fix callee donor target m
    assume *: "set_option callee \<subseteq> set (callable ctx) \<and> (callee = None \<longleftrightarrow> callable ctx = [])"
      "set_option donor \<subseteq> set (donors ctx) \<and> (donor = None \<longleftrightarrow> donors ctx = [])"
      "set_option target \<subseteq> set (vars sc) \<and> (target = None \<longleftrightarrow> vars sc = [])"
      "m \<in> set (small_options sc e @ growing_options sc e @ call_options sc callee
             @ donor_options map_over kids ctx sc donor @ write_options e target)"
    from *(4) consider "m \<in> set (small_options sc e)" | "m \<in> set (growing_options sc e)" | "m \<in> set (call_options sc callee)"
      | "m \<in> set (donor_options map_over kids ctx sc donor)" | "m \<in> set (write_options e target)"
      by auto
    then show "yields m (legal_expr C V)"
    proof cases
      case 1
      then show ?thesis by (rule small)
    next
      case 2
      then show ?thesis by (rule growing_legal [OF s e])
    next
      case 3
      then show ?thesis by (rule call_options_legal [OF s]) (use * in blast)
    next
      case 4
      then show ?thesis by (rule donor_options_legal [OF s]) (use * in blast)
    next
      case 5
      then show ?thesis by (rule write_legal [OF s e]) (use * in blast)
    qed
  qed (use ne in simp)
  from stay grow show ?thesis unfolding mutate_site_def Let_def by simp
qed

lemma mask_shift_legal: "legal_expr C V e \<Longrightarrow> legal_expr C V (mask_shift e)"
  by (auto simp: mask_shift_def shift_safe_legal split: expr.split)

lemma mutate_fuel_legal:
  assumes s: "site_ok C V ctx sc"
  shows "legal_expr C V e \<Longrightarrow> yields (mutate_expr_fuel map_over kids ctx sc n e) (legal_expr C V)"
proof (induction n arbitrary: e)
  case 0
  then show ?case by (simp add: yields_retc del: retc_apply)
next
  case (Suc n)
  have sub: "yields (mutate_expr_fuel map_over kids ctx sc n k) (legal_expr C V)" if "k \<in> set (operands e)" for k
    using Suc.IH [OF legal_sub [OF sub_step [OF that sub_refl] Suc.prems]] .
  have "yields (case e of UpdateExpression _ _ _ \<Rightarrow> retc e
     | _ \<Rightarrow> map_over (mutate_expr_fuel map_over kids ctx sc n) e) (legal_expr C V)"
    using maps_legal [OF Suc.prems sub] Suc.prems by (cases e) (auto intro: yields_retc simp del: retc_apply)
  then have "yields (bindc (case e of UpdateExpression _ _ _ \<Rightarrow> retc e
      | _ \<Rightarrow> map_over (mutate_expr_fuel map_over kids ctx sc n) e) (\<lambda>recursed.
        bindc (drawn (chance (rate ctx))) (\<lambda>b.
        if \<not> b then retc (mask_shift recursed)
        else bindc count_applied (\<lambda>_. mutate_site map_over kids ctx sc (mask_shift recursed))))) (legal_expr C V)"
    by (rule yields_bindc)
      (intro yields_bindc [OF yields_draw(1)] yields_if yields_retc yields_bindc [OF yields_count] site_legal [OF s] mask_shift_legal)
  with Suc.prems show ?case by (simp add: yields_retc del: retc_apply)
qed

lemma mutate_expr_legal:
  "site_ok C V ctx sc \<Longrightarrow> legal_expr C V e \<Longrightarrow> yields (mutate_expr map_over kids ctx sc e) (legal_expr C V)"
  unfolding mutate_expr_def by (rule mutate_fuel_legal)

text \<open>The fuel is never met: any amount above the depth gives the same walk.\<close>

lemma mutate_fuel_enough:
  "depth e \<le> n \<Longrightarrow> mutate_expr_fuel map_over kids ctx sc n e = mutate_expr map_over kids ctx sc e"
  unfolding mutate_expr_def
proof (induction "depth e" arbitrary: e n rule: less_induct)
  case less
  obtain j k where n: "n = Suc j" "depth e = Suc k"
    using less.prems depth_pos [of e] by (metis Suc_le_D less_numeral_extra(3) not0_implies_Suc)
  have "mutate_expr_fuel map_over kids ctx sc j x = mutate_expr_fuel map_over kids ctx sc k x" if "x \<in> set (operands e)" for x
  proof -
    from operands_depth [OF that] less.prems n have "depth x < depth e" "depth x \<le> j" "depth x \<le> k" by auto
    with less.hyps [of x j] less.hyps [of x k] show ?thesis by simp
  qed
  then have "map_over (mutate_expr_fuel map_over kids ctx sc j) e = map_over (mutate_expr_fuel map_over kids ctx sc k) e"
    by (rule map_cong)
  then show ?case unfolding n mutate_expr_fuel.simps by (cases e) simp_all
qed

end

end
