(* ===== verification/Mutate_Scope.thy ===== *)
theory Mutate_Scope
  imports Mutate_Legal
begin

section \<open>Mutation of statements keeps scopes\<close>

text \<open>
  The second half of the proof that a mutant is legal. A statement list is mutated in a set of
  visible names that grows with every declaration the walk inserts; the names in use, which
  \<^verbatim>\<open>fresh\<close> avoids, cover the visible names and every name the rest of the program declares, so
  nothing is declared twice.
\<close>

subsection \<open>Declared names\<close>

definition dset :: "stmt list \<Rightarrow> string set" where
  "dset ss = set (declared_names ss)"

lemma dset_alt: "dset ss = (\<Union>s \<in> set (each_statement ss). set (declared_of s))"
  by (auto simp: dset_def declared_names_def)

lemma dset_Nil [simp]: "dset [] = {}"
  by (simp add: dset_alt)

lemma dset_append [simp]: "dset (xs @ ys) = dset xs \<union> dset ys"
  by (simp add: dset_alt)

lemma dset_Cons: "dset (s # ss) = dset [s] \<union> dset ss"
  using dset_append [of "[s]" ss] by simp

lemma dset_one: "dset [s] = set (declared_of s) \<union> (\<Union>b \<in> set (child_bodies s). dset b)"
  by (auto simp: dset_alt set_each_of)

lemma dset_simps [simp]:
  "dset [BlockStatement ss] = dset ss" "dset [BreakStatement] = {}" "dset [ExpressionStatement e] = {}"
  "dset [ReturnStatement a] = {}" "dset [VariableDeclaration ds] = declares ds"
  "dset [IfStatement t c x] = dset (as_list c) \<union> (case x of None \<Rightarrow> {} | Some b \<Rightarrow> dset (as_list b))"
  "dset [WhileStatement t b] = dset (as_list b)" "dset [DoWhileStatement b t] = dset (as_list b)"
  "dset [ForStatement i tt u b] = init_names i \<union> dset (as_list b)"
  "dset [SwitchStatement d cs] = (\<Union>c \<in> set cs. dset (case_body c))"
  by (auto simp: dset_one declared_of_def declares_def init_names_def split: option.splits for_init.splits)

lemma dset_closer [simp]: "dset (without_closer ss) = dset ss"
proof (cases "ss \<noteq> [] \<and> last ss = BreakStatement")
  case True
  then have "ss = butlast ss @ [BreakStatement]" by (metis append_butlast_last_id)
  then have "dset ss = dset (butlast ss)" by (metis dset_append dset_simps(2) Un_empty_right)
  with True show ?thesis by (simp add: without_closer_def)
qed (auto simp: without_closer_def)

lemma names_after_dset: "names_after s \<subseteq> dset [s]"
  by (cases s) (auto simp: names_after_def)

lemma declares_Cons: "declares (d # ds) = insert (decl_name d) (declares ds)"
  by (simp add: declares_def)

lemma legal_decls_disjoint: "legal_decls C V ds \<Longrightarrow> V \<inter> declares ds = {}"
  by (induction ds arbitrary: V) (auto simp: declares_def)

lemma legal_init_disjoint: "legal_init C V i \<Longrightarrow> V \<inter> init_names i = {}"
  using legal_decls_disjoint by (auto simp: legal_init_def init_names_def split: option.splits for_init.splits)

lemma legal_disjoint:
  "legal_stmt C V s \<Longrightarrow> V \<inter> dset [s] = {}"
  "legal_list C V ss \<Longrightarrow> V \<inter> dset ss = {}"
  "legal_cases C V cs \<Longrightarrow> \<forall>c \<in> set cs. V \<inter> dset (case_body c) = {}"
proof (induction C V s and C V ss and C V cs rule: legal_stmt_legal_list_legal_cases.induct)
  case (9 C V i t u b)
  then show ?case using legal_init_disjoint [of C V i] by auto
next
  case (12 C V s ss)
  then show ?case unfolding dset_Cons [of s ss] by auto
qed (auto dest: legal_decls_disjoint split: option.splits)

subsection \<open>More visible names\<close>

lemma legal_expr_mono: "legal_expr C V e \<Longrightarrow> V \<subseteq> W \<Longrightarrow> legal_expr C W e"
proof (induction e)
  case (UpdateExpression op pre e)
  then show ?case by (cases e) auto
qed (auto simp: list_all_iff)

lemma legal_opt_mono: "legal_opt C V x \<Longrightarrow> V \<subseteq> W \<Longrightarrow> legal_opt C W x"
  by (auto simp: legal_opt_def intro: legal_expr_mono split: option.splits)

lemma legal_decls_mono: "legal_decls C V ds \<Longrightarrow> V \<subseteq> W \<Longrightarrow> W \<inter> declares ds = {} \<Longrightarrow> legal_decls C W ds"
proof (induction ds arbitrary: V W)
  case (Cons d ds)
  have "decl_name d \<notin> declares ds"
    using Cons.prems(1) legal_decls_disjoint [of C "insert (decl_name d) V" ds] by auto
  with Cons.prems(3) have "insert (decl_name d) W \<inter> declares ds = {}" by (simp add: declares_Cons)
  then have "legal_decls C (insert (decl_name d) W) ds"
    by - (rule Cons.IH [of "insert (decl_name d) V"], use Cons.prems(1,2) in auto)
  moreover have "legal_opt C W (decl_init d)"
    by (rule legal_opt_mono [of C V]) (use Cons.prems in auto)
  ultimately show ?case using Cons.prems(3) by (simp add: declares_Cons)
qed simp

lemma legal_init_mono: "legal_init C V i \<Longrightarrow> V \<subseteq> W \<Longrightarrow> W \<inter> init_names i = {} \<Longrightarrow> legal_init C W i"
  by (auto simp: legal_init_def init_names_def split: option.splits for_init.splits
      intro: legal_decls_mono legal_expr_mono)

lemma legal_mono:
  "legal_stmt C V s \<Longrightarrow> V \<subseteq> W \<Longrightarrow> W \<inter> dset [s] = {} \<Longrightarrow> legal_stmt C W s"
  "legal_list C V ss \<Longrightarrow> V \<subseteq> W \<Longrightarrow> W \<inter> dset ss = {} \<Longrightarrow> legal_list C W ss"
  "legal_cases C V cs \<Longrightarrow> V \<subseteq> W \<Longrightarrow> (\<forall>c \<in> set cs. W \<inter> dset (case_body c) = {}) \<Longrightarrow> legal_cases C W cs"
proof (induction C V s and C V ss and C V cs arbitrary: W and W and W rule: legal_stmt_legal_list_legal_cases.induct)
  case (9 C V i t u b)
  have "init_names i \<inter> dset (as_list b) = {}"
    using 9(2) legal_disjoint(2) [of C "V \<union> init_names i" "as_list b"] by auto
  then have "(W \<union> init_names i) \<inter> dset (as_list b) = {}" using 9(4) by auto
  then have "legal_list C (W \<union> init_names i) (as_list b)"
    by - (rule 9(1), use 9(2,3) in auto)
  moreover have "legal_opt C (W \<union> init_names i) x" if "legal_opt C (V \<union> init_names i) x" for x
    using legal_opt_mono [OF that] 9(3) by blast
  moreover have "legal_init C W i" using 9(2-4) by (auto intro: legal_init_mono)
  ultimately show ?case using 9(2) by simp
next
  case (12 C V s ss)
  have "names_after s \<inter> dset ss = {}"
    using 12(3) legal_disjoint(2) [of C "V \<union> names_after s" ss] by auto
  then have "legal_list C (W \<union> names_after s) ss"
    by - (rule 12(2), use 12(3-5) [unfolded dset_Cons [of s ss]] in auto)
  moreover have "legal_stmt C W s"
    by - (rule 12(1), use 12(3-5) [unfolded dset_Cons [of s ss]] in auto)
  ultimately show ?case by simp
next
  case (3 C V e)
  then show ?case using legal_expr_mono [of C V e W] by simp
next
  case (4 C V a)
  then show ?case using legal_expr_mono [of C V _ W] by (auto split: option.splits)
next
  case (5 C V ds)
  then show ?case using legal_decls_mono [of C V ds W] by simp
next
  case (6 C V t c a)
  then have "legal_list C W (as_list c)" by (intro 6(1) [of W]) auto
  moreover have "legal_list C W (as_list b)" if "a = Some b" for b
    by (rule 6(2) [OF that]) (use 6(3-5) that in auto)
  moreover have "legal_expr C W t" using 6(3,4) legal_expr_mono [of C V t W] by simp
  ultimately show ?case by (simp split: option.splits)
next
  case (7 C V t b)
  then show ?case using legal_expr_mono [of C V t W] by simp
next
  case (8 C V b t)
  then show ?case using legal_expr_mono [of C V t W] by simp
next
  case (10 C V d cs)
  then show ?case using legal_expr_mono [of C V d W] by auto
qed simp_all

subsection \<open>Names that are not in use\<close>

lemma show_nat_inj: "show_nat i = show_nat j \<Longrightarrow> i = j"
  by (metis option.inject read_digits_show)

text \<open>Of one more candidate than there are names taken, one is free.\<close>

lemma free_candidate:
  assumes "inj f"
  shows "\<exists>k \<in> set [c ..< Suc (c + length xs)]. f k \<notin> set xs"
proof (rule ccontr)
  assume "\<not> ?thesis"
  then have "f ` set [c ..< Suc (c + length xs)] \<subseteq> set xs" by auto
  then have "card (f ` set [c ..< Suc (c + length xs)]) \<le> card (set xs)" by (intro card_mono) auto
  also have "\<dots> \<le> length xs" by (rule card_length)
  also have "card (f ` set [c ..< Suc (c + length xs)]) = Suc (length xs)"
    by (simp add: card_image [OF inj_on_subset [OF assms subset_UNIV]] del: upt_Suc)
  finally show False by simp
qed

lemma find_Some_in: "find P xs = Some x \<Longrightarrow> x \<in> set xs \<and> P x"
  by (auto simp: find_Some_iff)

lemma fresh_index_free: "p # show_nat (fresh_index p used c) \<notin> set used"
proof -
  have "inj (\<lambda>k. p # show_nat k)" by (auto intro: injI dest: show_nat_inj)
  from free_candidate [OF this, of c used]
  have "find (\<lambda>k. p # show_nat k \<notin> set used) [c ..< Suc (c + length used)] \<noteq> None"
    by (simp only: find_None_iff) blast
  then show ?thesis unfolding fresh_index_def by (auto split: option.split dest: find_Some_in)
qed

text \<open>A computation that runs with at least the names \<open>U\<close> in use, and may take more.\<close>

definition makes :: "string set \<Rightarrow> 'a gen \<Rightarrow> (string set \<Rightarrow> 'a \<Rightarrow> bool) \<Rightarrow> bool" where
  "makes U m Q \<longleftrightarrow> (\<forall>s. U \<subseteq> set (g_used s) \<longrightarrow>
     (\<exists>v t. m s = (Inr v, t) \<and> set (g_used s) \<subseteq> set (g_used t) \<and> Q (set (g_used t)) v))"

lemma makesD:
  "makes U m Q \<Longrightarrow> U \<subseteq> set (g_used s) \<Longrightarrow>
    \<exists>v t. m s = (Inr v, t) \<and> set (g_used s) \<subseteq> set (g_used t) \<and> Q (set (g_used t)) v"
  unfolding makes_def by blast

lemma makes_retc: "(\<And>W. U \<subseteq> W \<Longrightarrow> Q W v) \<Longrightarrow> makes U (retc v) Q"
  by (simp add: makes_def)

lemma makes_bindc:
  assumes "makes U m R" and "\<And>v W. U \<subseteq> W \<Longrightarrow> R W v \<Longrightarrow> makes W (f v) Q"
  shows "makes U (bindc m f) Q"
  unfolding makes_def
proof (intro allI impI)
  fix s :: gstate assume U: "U \<subseteq> set (g_used s)"
  from makesD [OF assms(1) U] obtain v t where
    m: "m s = (Inr v, t)" "set (g_used s) \<subseteq> set (g_used t)" "R (set (g_used t)) v" by blast
  from U m(2) have "U \<subseteq> set (g_used t)" by blast
  from makesD [OF assms(2) [OF this m(3)] order_refl] m
  show "\<exists>v t. bindc m f s = (Inr v, t) \<and> set (g_used s) \<subseteq> set (g_used t) \<and> Q (set (g_used t)) v"
    by (metis bindc_Inr subset_trans)
qed

lemma makes_weaken: "makes U m R \<Longrightarrow> (\<And>W v. U \<subseteq> W \<Longrightarrow> R W v \<Longrightarrow> Q W v) \<Longrightarrow> makes U m Q"
  unfolding makes_def by (meson subset_trans)

lemma makes_yields: "yields m Q \<Longrightarrow> makes U m (\<lambda>W v. Q v)"
  unfolding yields_def makes_def by (metis order_refl)

lemma makes_bind_yields: "yields m R \<Longrightarrow> (\<And>v W. U \<subseteq> W \<Longrightarrow> R v \<Longrightarrow> makes W (f v) Q) \<Longrightarrow> makes U (bindc m f) Q"
  by (rule makes_bindc [OF makes_yields])

lemma makes_if: "(b \<Longrightarrow> makes U m Q) \<Longrightarrow> (\<not> b \<Longrightarrow> makes U n Q) \<Longrightarrow> makes U (if b then m else n) Q"
  by simp

lemma fresh_makes: "makes U (fresh ctx) (\<lambda>W n. n \<notin> U \<and> n \<in> W)"
  unfolding makes_def
proof (intro allI impI)
  fix s :: gstate assume "U \<subseteq> set (g_used s)"
  with fresh_index_free [of "name_prefix ctx" "g_used s" "g_counter s"]
  show "\<exists>v t. fresh ctx s = (Inr v, t) \<and> set (g_used s) \<subseteq> set (g_used t) \<and> v \<notin> U \<and> v \<in> set (g_used t)"
    by (auto simp: fresh_def bindc_def)
qed

subsection \<open>Statements that are built\<close>

text \<open>A legal statement that declares nothing around it, its inner names all in use.\<close>

definition stands :: "callees \<Rightarrow> string set \<Rightarrow> string set \<Rightarrow> stmt \<Rightarrow> bool" where
  "stands C V W s \<longleftrightarrow> legal_stmt C V s \<and> dset [s] \<subseteq> W \<and> names_after s = {}"

lemma site_child: "site_ok C V ctx sc \<Longrightarrow> site_ok C V ctx (child_scope sc c l)"
  by (simp add: site_ok_def scope_in_def child_scope_def)

lemma site_mono: "site_ok C V ctx sc \<Longrightarrow> V \<subseteq> W \<Longrightarrow> site_ok C W ctx sc"
  by (auto simp: site_ok_def scope_in_def)

lemma store_calls:
  assumes "callees_ok C ctx" and "f \<in> set store_builtins"
  shows "C f (Suc (Suc 0))"
proof -
  have "\<forall>f \<in> set store_builtins. f \<in> set ext_ops \<and> 2 = ext_arity f" by code_simp
  with assms(2) have "builtin_ok f (Suc (Suc 0))" by (simp only: builtin_ok_def numeral_2_eq_2) blast
  with assms(1) show ?thesis by (simp add: callees_ok_def)
qed

lemma expr_stands: "legal_expr C V e \<Longrightarrow> stands C V W (ExpressionStatement e)"
  by (simp add: stands_def names_after_def)

lemma side_effect_stands:
  assumes s: "site_ok C V ctx sc"
  shows "yields (side_effect sc) (stands C V W)"
proof -
  have ne: "store_builtins \<noteq> []" by (simp add: store_builtins_def)
  have assign: "yields (bindc (build sc 2) (\<lambda>e. retc (ExpressionStatement (AssignmentExpression Assign (var_name x) e)))) (stands C V W)"
    if "x \<in> set (vars sc)" for x
    using s that by (intro yields_bindc [OF site_build [OF s]] yields_retc expr_stands)
      (auto simp: site_ok_def scope_in_def no_division_def)
  have store: "yields (bindc (drawn (pick store_builtins)) (\<lambda>f.
       bindc (build sc 1) (\<lambda>a. bindc (build sc 1) (\<lambda>b. retc (ExpressionStatement (CallExpression f [a, b])))))) (stands C V W)"
    using s by (intro yields_bindc [OF yields_pick [OF ne]] yields_bindc [OF site_build [OF s]] yields_retc expr_stands)
      (auto simp: site_ok_def intro: store_calls)
  have coin: "yields (if v = None then retc False else drawn (chance (6, 10))) (\<lambda>b. b \<longrightarrow> v \<noteq> None)" for v :: "var option"
    by (auto intro!: yields_retc yields_weaken [OF yields_draw(1)])
  show ?thesis unfolding side_effect_def
    by (rule yields_bindc [OF yields_draw(2)], rule yields_bindc [OF coin], rule yields_if)
      (auto intro!: assign store simp del: retc_apply One_nat_def)
qed

lemma empty_if_stands:
  assumes s: "site_ok C V ctx sc"
  shows "yields (empty_if sc) (stands C V W)"
  unfolding empty_if_def
  by (rule yields_bindc [OF site_build [OF s]], rule yields_bindc [OF yields_draw(1)], rule yields_retc)
    (simp add: stands_def names_after_def)

lemma declare_makes:
  assumes s: "site_ok C V ctx sc" and U: "V \<subseteq> U"
  shows "makes U (declare_stmt ctx sc) (\<lambda>W (d, sc'). \<exists>n. n \<notin> U \<and> n \<in> W \<and> legal_stmt C V d \<and> dset [d] = {n}
    \<and> names_after d = {n} \<and> site_ok C (insert n V) ctx sc' \<and> in_loop sc' = in_loop sc)"
proof -
  have ne: "all_types \<noteq> []" by (simp add: all_types_def)
  have facts: "legal_stmt C V (VariableDeclaration [Declarator t n (Some e)])" "dset [VariableDeclaration [Declarator t n (Some e)]] = {n}"
    "names_after (VariableDeclaration [Declarator t n (Some e)]) = {n}"
    "site_ok C (insert n V) ctx (sc\<lparr>vars := vars sc @ [\<lparr>var_name = n, var_prim = t\<rparr>]\<rparr>)"
    if "n \<notin> U" "legal_expr C V e" for t n e
    using that s U by (auto simp: legal_opt_def names_after_def declares_def site_ok_def scope_in_def)
  show ?thesis unfolding declare_stmt_def
  proof (rule makes_bind_yields [OF yields_pick [OF ne]], rule makes_bindc [OF fresh_makes], rule makes_bind_yields [OF site_build [OF s]], rule makes_retc)
    fix t W n W1 e W2 W3
    assume "U \<subseteq> W" "n \<notin> W \<and> n \<in> W1" "legal_expr C V e" and W: "W1 \<subseteq> W2" "W2 \<subseteq> W3"
    then have n: "n \<notin> U" "n \<in> W3" "legal_expr C V e" by auto
    show "case (VariableDeclaration [Declarator t n (Some e)], sc\<lparr>vars := vars sc @ [\<lparr>var_name = n, var_prim = t\<rparr>]\<rparr>) of
      (d, sc') \<Rightarrow> \<exists>n. n \<notin> U \<and> n \<in> W3 \<and> legal_stmt C V d \<and> dset [d] = {n}
        \<and> names_after d = {n} \<and> site_ok C (insert n V) ctx sc' \<and> in_loop sc' = in_loop sc"
      unfolding prod.case using n facts [OF n(1,3)] by (intro exI [of _ n]) simp
  qed
qed

lemma bump_legal: "n \<in> V \<Longrightarrow> legal_expr C V (bump n)"
  by (simp add: bump_def division_def no_division_def)

lemma counter_legal: "n \<notin> V \<Longrightarrow> legal_decls C V (counter_decl n)"
  by (simp add: counter_decl_def legal_opt_def)

lemma counter_declares [simp]: "declares (counter_decl n) = {n}"
  by (simp add: counter_decl_def declares_def)

lemma list_with_name:
  assumes "legal_list C V body" and "n \<notin> dset body"
  shows "legal_list C (insert n V) body"
  by (rule legal_mono(2) [OF assms(1)]) (use assms legal_disjoint(2) in auto)

lemma counted_loop_stands:
  assumes "legal_list C V body" and "V \<union> dset body \<subseteq> U"
  shows "makes U (counted_loop ctx body) (stands C V)"
  unfolding counted_loop_def
proof (rule makes_bindc [OF fresh_makes], rule makes_bind_yields [OF yields_drawn [OF draws_between]])
  fix W n W' k assume n: "n \<notin> U \<and> n \<in> W" and W: "U \<subseteq> W" "W \<subseteq> W'"
  from n assms have "n \<notin> V" "n \<notin> dset body" by auto
  moreover from this assms(1) have "legal_list C (insert n V) body" by (simp add: list_with_name)
  moreover have "n \<in> W'" "dset body \<subseteq> W'" using n W assms(2) by auto
  ultimately show "makes W' (retc (ForStatement (Some (InitDecl (counter_decl n)))
       (Some (BinaryExpression Less (Identifier n) (lit k))) (Some (bump n)) (BlockStatement body))) (stands C V)"
    by (intro makes_retc) (auto simp: stands_def legal_init_def init_names_def legal_opt_def bump_legal counter_legal
        names_after_def division_def)
qed simp

lemma counted_do_while_stands:
  assumes "legal_list C V body" and "V \<union> dset body \<subseteq> U"
  shows "makes U (counted_do_while ctx body) (stands C V)"
  unfolding counted_do_while_def
proof (rule makes_bindc [OF fresh_makes], rule makes_bind_yields [OF yields_drawn [OF draws_between]])
  fix W n W' k assume n: "n \<notin> U \<and> n \<in> W" and W: "U \<subseteq> W" "W \<subseteq> W'"
  from n assms have "n \<notin> V" "n \<notin> dset body" by auto
  moreover from this assms(1) have "legal_list C (insert n V) body" by (simp add: list_with_name)
  moreover have "n \<in> W'" "dset body \<subseteq> W'" using n W assms(2) by auto
  ultimately show "makes W' (retc (BlockStatement
       [VariableDeclaration (counter_decl n),
        DoWhileStatement (BlockStatement (body @ [ExpressionStatement (bump n)]))
          (BinaryExpression Less (Identifier n) (lit k))])) (stands C V)"
    by (intro makes_retc) (auto simp: stands_def bump_legal counter_legal names_after_def division_def legal_list_append
        dset_Cons [of _ "[_]"])
qed simp

lemma lit_small: "k < 2 ^ 32 \<Longrightarrow> lit (int k) = Literal (int k)"
  by (simp add: lit_def to_u32_def unsigned_of_nat take_bit_nat_eq_self)

lemma without_closer_break [simp]: "without_closer (ss @ [BreakStatement]) = ss"
  by (simp add: without_closer_def)

lemma without_closer_pair [simp]: "without_closer [s, BreakStatement] = [s]" "without_closer [BreakStatement] = []"
  by (simp_all add: without_closer_def)

lemma legal_test_lit [simp]: "legal_test (Some (lit v))"
  using lit_legal [of any_callee UNIV v] by (simp add: legal_test_def lit_def)

lemma legal_test_None [simp]: "legal_test None"
  by (simp add: legal_test_def)

lemma legal_cases_append: "legal_cases C V (xs @ ys) \<longleftrightarrow> legal_cases C V xs \<and> legal_cases C V ys"
proof (induction xs)
  case (Cons c xs)
  then show ?case by (cases c) auto
qed simp

lemma more_cases_legal:
  assumes s: "site_ok C V ctx sc"
  shows "yields (more_cases sc i k) (\<lambda>cs. legal_cases C V cs \<and> (\<forall>c \<in> set cs. dset (case_body c) \<subseteq> W)
    \<and> map case_test cs = map (\<lambda>j. Some (lit (int j))) [i ..< i + k])"
proof (induction k arbitrary: i)
  case (Suc k)
  show ?case unfolding more_cases.simps
    by (rule yields_bindc [OF side_effect_stands [OF site_child [OF s], where W = W]],
        rule yields_bindc [OF Suc.IH], rule yields_retc)
      (auto simp: stands_def dset_Cons [of _ "[_]"] upt_conv_Cons simp del: upt_Suc)
qed (simp add: yields_retc del: retc_apply)

lemma switch_over_stands:
  assumes s: "site_ok C V ctx sc" and "legal_list C V body" and "dset body \<subseteq> W"
  shows "yields (switch_over sc body) (stands C V W)"
  unfolding switch_over_def
proof (rule yields_bindc [OF yields_drawn [OF draws_between]], simp, rule yields_bindc [OF more_cases_legal [OF s, where W = W]],
    rule yields_bindc [OF yields_draw(1)], rule yields_bindc [OF site_build [OF s]], rule yields_retc)
  fix count :: int and cs and b :: bool and d
  assume count: "1 \<le> count \<and> count \<le> 3" and d: "legal_expr C V d"
    and cs: "legal_cases C V cs \<and> (\<forall>c \<in> set cs. dset (case_body c) \<subseteq> W)
      \<and> map case_test cs = map (\<lambda>j. Some (lit (int j))) [1 ..< 1 + (nat count - 1)]"
  have "distinct (map (\<lambda>j. Some (lit (int j))) [0 ..< Suc (nat count - 1)])"
    using count by (auto simp: distinct_map inj_on_def lit_small)
  then have "distinct (Some (lit 0) # map case_test cs)"
    using cs by (simp add: upt_conv_Cons del: upt_Suc)
  moreover have "None \<notin> set (map case_test cs)" using cs by auto
  ultimately have "labels_ok (SwitchCase (Some (lit 0)) (body @ [BreakStatement]) # cs @ (if b then [SwitchCase None [BreakStatement]] else []))"
    by (auto simp: labels_ok_def labelled_def image_iff)
  with cs d assms show "stands C V W (SwitchStatement (BinaryExpression Amp d (lit 3))
       (SwitchCase (Some (lit 0)) (body @ [BreakStatement]) # cs @ (if b then [SwitchCase None [BreakStatement]] else [])))"
    by (auto simp: stands_def names_after_def division_def legal_cases_append)
qed

lemma movable_names: "movable s \<Longrightarrow> names_after s = {}"
  by (cases s) (simp_all add: names_after_def)

lemma not_movable: "\<not> movable s \<longleftrightarrow> (\<exists>ds. s = VariableDeclaration ds)"
  by (cases s) simp_all

lemma wrap_stands:
  assumes s: "site_ok C V ctx sc" and "legal_stmt C V x" and "V \<union> dset [x] \<subseteq> U"
  shows "makes U (wrap_stmt ctx sc x) (stands C V)"
proof -
  have body: "legal_list C V [x]" using assms(2) by simp
  have one: "makes W (bindc (build sc 2) (\<lambda>t. retc (IfStatement t (BlockStatement [x]) None))) (stands C V)" if "U \<subseteq> W" for W
    by (rule makes_bind_yields [OF site_build [OF s]], rule makes_retc)
      (use assms that in \<open>auto simp: stands_def names_after_def\<close>; blast)
  have two: "makes W (bindc (build sc 2) (\<lambda>t. bindc (side_effect (child_scope sc False (in_loop sc))) (\<lambda>e.
       retc (IfStatement t (BlockStatement [x]) (Some (BlockStatement [e])))))) (stands C V)" if "U \<subseteq> W" for W
    by (rule makes_bind_yields [OF site_build [OF s]],
        rule makes_bind_yields [OF side_effect_stands [OF site_child [OF s], where W = "{}"]], rule makes_retc)
      (use assms that in \<open>auto simp: stands_def names_after_def\<close>; blast)
  have block: "makes W (retc (BlockStatement [x])) (stands C V)" if "U \<subseteq> W" for W
    by (rule makes_retc) (use assms that in \<open>auto simp: stands_def names_after_def\<close>)
  have switch: "makes W (switch_over sc [x]) (stands C V)" if "U \<subseteq> W" for W
    by (rule makes_weaken [OF makes_yields [OF switch_over_stands [OF s body, where W = W]]])
      (use assms that in \<open>auto simp: stands_def\<close>)
  show ?thesis unfolding wrap_stmt_def
    by (rule makes_bind_yields [OF yields_drawn [OF draws_int]])
      (use assms in \<open>auto intro!: one two block switch counted_loop_stands body simp del: retc_apply\<close>)
qed

end
