(* ===== verification/Mutate_Walk.thy ===== *)
theory Mutate_Walk
  imports Mutate_Scope
begin

section \<open>A mutant is a legal program\<close>

subsection \<open>Edits of a \<^verbatim>\<open>switch\<close>\<close>

text \<open>Lists hold fewer than \<open>2^32\<close> elements in JavaScript; the label of an added case relies on it.\<close>

definition fits :: "stmt list \<Rightarrow> bool" where
  "fits ss \<longleftrightarrow>
     list_all (\<lambda>s. case s of SwitchStatement d cs \<Rightarrow> length cs < 2 ^ 32 | _ \<Rightarrow> True) (each_statement ss)"

lemma fits_append [simp]: "fits (xs @ ys) \<longleftrightarrow> fits xs \<and> fits ys"
  by (simp add: fits_def)

lemma fits_Nil [simp]: "fits []"
  by (simp add: fits_def)

lemma fits_Cons: "fits (s # ss) \<longleftrightarrow> fits [s] \<and> fits ss"
  using fits_append [of "[s]" ss] by simp

lemma fits_child: "fits [s] \<Longrightarrow> b \<in> set (child_bodies s) \<Longrightarrow> fits b"
  by (auto simp: fits_def set_each_of list_all_iff)

lemma fits_switch: "fits [SwitchStatement d cs] \<Longrightarrow> length cs < 2 ^ 32"
  by (simp add: fits_def list_all_iff set_each_of)

lemma fits_source: "fits ss \<Longrightarrow> fits (source_of sc ss)"
  by (metis append_butlast_last_id butlast.simps(1) fits_append source_of_def)

definition cases_in :: "callees \<Rightarrow> string set \<Rightarrow> string set \<Rightarrow> switch_case list \<Rightarrow> bool" where
  "cases_in C V W cs \<longleftrightarrow> legal_cases C V cs \<and> (\<forall>c \<in> set cs. dset (case_body c) \<subseteq> W)"

lemma legal_cases_iff:
  "legal_cases C V cs \<longleftrightarrow> (\<forall>c \<in> set cs. legal_test (case_test c) \<and> legal_list C V (without_closer (case_body c)))"
proof (induction cs)
  case (Cons c cs)
  then show ?case by (cases c) auto
qed simp

lemma cases_in_iff: "cases_in C V W cs \<longleftrightarrow> (\<forall>c \<in> set cs. cases_in C V W [c])"
  by (auto simp: cases_in_def legal_cases_iff)

lemma cases_in_subset: "cases_in C V W cs \<Longrightarrow> set ds \<subseteq> set cs \<Longrightarrow> cases_in C V W ds"
  unfolding cases_in_iff [of C V W cs] cases_in_iff [of C V W ds] by blast

lemma next_label_free: "int (next_label cs) \<notin> set (map label_of cs)" "next_label cs \<le> length cs"
proof -
  have "inj int" by (simp add: inj_def)
  from free_candidate [OF this, of 0 "map label_of cs"]
  have "find (\<lambda>k. int k \<notin> set (map label_of cs)) [0 ..< Suc (length cs)] \<noteq> None"
    by (simp only: find_None_iff length_map add_0) blast
  then obtain k where k: "find (\<lambda>k. int k \<notin> set (map label_of cs)) [0 ..< Suc (length cs)] = Some k" by blast
  from find_Some_in [OF k] k show "int (next_label cs) \<notin> set (map label_of cs)" "next_label cs \<le> length cs"
    by (simp_all add: next_label_def del: upt_Suc)
qed

lemma new_label:
  assumes "length cs < 2 ^ 32"
  shows "Some (lit (int (next_label cs))) \<notin> set (map case_test cs)"
proof
  assume "Some (lit (int (next_label cs))) \<in> set (map case_test cs)"
  moreover have "lit (int (next_label cs)) = Literal (int (next_label cs))"
    using next_label_free(2) [of cs] assms by (intro lit_small) simp
  ultimately obtain c where "c \<in> set cs" "case_test c = Some (Literal (int (next_label cs)))" by auto
  then have "c \<in> set cs" "label_of c = int (next_label cs)" by (simp_all add: label_of_def)
  with next_label_free(1) [of cs] show False by (metis in_set_conv_nth length_map nth_map)
qed

lemma set_insert_at: "set (insert_at i x xs) = insert x (set xs)"
  unfolding insert_at_def by (metis append_take_drop_id list.simps(15) set_append Un_insert_right)

lemma map_insert_at: "map f (insert_at i x xs) = insert_at i (f x) (map f xs)"
  by (simp add: insert_at_def take_map drop_map)

lemma distinct_insert_at: "distinct (insert_at i x xs) \<longleftrightarrow> x \<notin> set xs \<and> distinct xs"
proof -
  have "mset (insert_at i x xs) = mset (x # xs)"
    unfolding insert_at_def by (metis append_take_drop_id mset.simps(2) mset_append union_mset_add_mset_right)
  then have "distinct (insert_at i x xs) \<longleftrightarrow> distinct (x # xs)" by (rule mset_eq_imp_distinct_iff)
  then show ?thesis by simp
qed

lemma set_remove_at: "set (remove_at i xs) \<subseteq> set xs"
  unfolding remove_at_def using set_take_subset set_drop_subset by fastforce

lemma distinct_remove_at: "distinct xs \<Longrightarrow> distinct (remove_at i xs)"
  unfolding remove_at_def by (simp add: set_take_disj_set_drop_if_distinct)

lemma add_case_legal:
  assumes s: "site_ok C V ctx sc" and cs: "cases_in C V W cs" "labels_ok cs" and n: "length cs < 2 ^ 32"
  shows "yields (add_case ctx sc cs) (\<lambda>ds. cases_in C V W ds \<and> labels_ok ds)"
proof -
  define at where "at = (case find_index (\<lambda>c. case_test c = None) cs of None \<Rightarrow> length cs | Some i \<Rightarrow> i)"
  have new: "cases_in C V W (insert_at at (SwitchCase (Some (lit (int (next_label cs)))) [e, BreakStatement]) cs)
      \<and> labels_ok (insert_at at (SwitchCase (Some (lit (int (next_label cs)))) [e, BreakStatement]) cs)"
    if "stands C V W e" for e
  proof
    have "cases_in C V W [SwitchCase (Some (lit (int (next_label cs)))) [e, BreakStatement]]"
      using that by (auto simp: cases_in_def stands_def dset_Cons [of _ "[_]"])
    with cs(1) show "cases_in C V W (insert_at at (SwitchCase (Some (lit (int (next_label cs)))) [e, BreakStatement]) cs)"
      unfolding cases_in_iff [of C V W cs] cases_in_iff [of C V W "insert_at _ _ _"] set_insert_at by blast
    show "labels_ok (insert_at at (SwitchCase (Some (lit (int (next_label cs)))) [e, BreakStatement]) cs)"
      using cs(2) new_label [OF n] by (auto simp: labels_ok_def map_insert_at distinct_insert_at set_insert_at)
  qed
  show ?thesis unfolding add_case_def Let_def at_def [symmetric]
    by (rule yields_bindc [OF yields_draw(1)], rule yields_if, rule yields_retc, use cs in blast,
        rule yields_bindc [OF yields_count], rule yields_bindc [OF side_effect_stands [OF site_child [OF s], where W = W]], rule yields_retc)
      (use new cs in auto)
qed

lemma legal_list_butlast: "legal_list C V ss \<Longrightarrow> legal_list C V (butlast ss)"
  by (induction ss arbitrary: V) auto

lemma legal_list_no_break: "legal_list C V ss \<Longrightarrow> without_closer ss = ss"
proof -
  have "BreakStatement \<notin> set ss" if "legal_list C V ss"
    using that by (induction ss arbitrary: V) auto
  then show "legal_list C V ss \<Longrightarrow> ?thesis" by (metis last_in_set without_closer_def)
qed

lemma dset_butlast: "dset (butlast ss) \<subseteq> dset ss"
  by (metis append_butlast_last_id butlast.simps(1) dset_append order_refl sup_ge1)

lemma opened_legal: "legal_list C V (without_closer b) \<Longrightarrow> legal_list C V (without_closer (butlast b))"
proof (cases "b \<noteq> [] \<and> last b = BreakStatement")
  case True
  assume "legal_list C V (without_closer b)"
  with True legal_list_no_break [of C V "butlast b"] show ?thesis by (simp add: without_closer_def)
next
  case False
  assume "legal_list C V (without_closer b)"
  with False have "legal_list C V (butlast b)" by (auto simp: without_closer_def intro: legal_list_butlast)
  then show ?thesis using legal_list_no_break by metis
qed

lemma labels_ok_tests: "labels_ok cs \<longleftrightarrow> distinct (map case_test cs) \<and> (\<exists>t \<in> set (map case_test cs). t \<noteq> None)"
  by (simp add: labels_ok_def labelled_def)

lemma open_case_legal:
  assumes cs: "cases_in C V W cs" "labels_ok cs"
  shows "yields (open_case ctx cs) (\<lambda>ds. cases_in C V W ds \<and> labels_ok ds)"
proof -
  have opened: "cases_in C V W ds \<and> labels_ok ds"
    if i: "i < length cs" and ds: "ds = cs[i := SwitchCase (case_test (cs ! i)) (butlast (case_body (cs ! i)))]" for i ds
  proof
    have "cases_in C V W [cs ! i]" using cs(1) i unfolding cases_in_iff [of C V W cs] by simp
    then have "cases_in C V W [SwitchCase (case_test (cs ! i)) (butlast (case_body (cs ! i)))]"
      using dset_butlast [of "case_body (cs ! i)"] by (auto simp: cases_in_def legal_cases_iff intro: opened_legal)
    with cs(1) show "cases_in C V W ds"
      unfolding ds cases_in_iff [of C V W cs] cases_in_iff [of C V W "cs[i := _]"] using set_update_subset_insert by fast
    have tests: "map case_test ds = map case_test cs"
      unfolding ds map_update using list_update_id [of "map case_test cs" i] i by simp
    from cs(2) show "labels_ok ds" unfolding labels_ok_tests tests .
  qed
  have some: "set_option v \<subseteq> set (filter P [0 ..< length cs]) \<Longrightarrow> v = Some i \<Longrightarrow> i < length cs" for v i P by auto
  show ?thesis unfolding open_case_def
  proof (rule yields_bindc [OF yields_draw(1)], rule yields_if, rule yields_retc, use cs in blast,
        rule yields_bindc [OF yields_draw(2)])
    fix v assume v: "set_option v \<subseteq> set (filter (openable cs) [0 ..< length cs]) \<and> (v = None \<longleftrightarrow> filter (openable cs) [0 ..< length cs] = [])"
    show "yields (case v of None \<Rightarrow> retc cs | Some i \<Rightarrow> bindc count_applied (\<lambda>_.
           retc (cs[i := SwitchCase (case_test (cs ! i)) (butlast (case_body (cs ! i)))])))
         (\<lambda>ds. cases_in C V W ds \<and> labels_ok ds)"
    proof (cases v)
      case None
      then show ?thesis using cs by (simp add: yields_retc del: retc_apply)
    next
      case (Some i)
      have "i < length cs" using some v Some by blast
      then show ?thesis unfolding Some option.case
        by (intro yields_bindc [OF yields_count] yields_retc opened [OF _ refl])
    qed
  qed
qed

lemma remove_case_legal:
  assumes cs: "cases_in C V W cs" "labels_ok cs"
  shows "yields (remove_case ctx cs) (\<lambda>ds. cases_in C V W ds \<and> labels_ok ds)"
proof -
  have removed: "cases_in C V W (remove_at i cs) \<and> labels_ok (remove_at i cs)"
    if i: "i < length cs" and r: "removable cs i" for i
  proof
    show "cases_in C V W (remove_at i cs)" by (rule cases_in_subset [OF cs(1) set_remove_at])
    have d: "distinct (map case_test (remove_at i cs))"
      using distinct_remove_at [of "map case_test cs" i] cs(2) by (simp add: labels_ok_def remove_at_def take_map drop_map)
    have split: "cs = take i cs @ cs ! i # drop (Suc i) cs" using i by (simp add: id_take_nth_drop)
    have "\<exists>c \<in> set (remove_at i cs). labelled c"
    proof (cases "case_test (cs ! i) = None")
      case True
      obtain c where "c \<in> set cs" "labelled c" using cs(2) by (auto simp: labels_ok_def)
      with True split show ?thesis by (metis Un_iff labelled_def remove_at_def set_ConsD set_append)
    next
      case False
      with r have "1 < length (filter (\<lambda>c. case_test c \<noteq> None) cs)" by (auto simp: removable_def)
      then have "1 < length (filter (\<lambda>c. case_test c \<noteq> None) (take i cs @ cs ! i # drop (Suc i) cs))" using split by simp
      then have "filter (\<lambda>c. case_test c \<noteq> None) (remove_at i cs) \<noteq> []"
        using False by (auto simp: remove_at_def)
      then show ?thesis by (auto simp: labelled_def filter_empty_conv)
    qed
    with d show "labels_ok (remove_at i cs)" by (simp add: labels_ok_def)
  qed
  show ?thesis unfolding remove_case_def
  proof (rule yields_bindc [OF yields_draw(1)], rule yields_if, rule yields_retc, use cs in blast,
        rule yields_bindc [OF yields_draw(2)])
    fix v assume v: "set_option v \<subseteq> set (filter (removable cs) [0 ..< length cs]) \<and> (v = None \<longleftrightarrow> filter (removable cs) [0 ..< length cs] = [])"
    show "yields (case v of None \<Rightarrow> retc cs | Some i \<Rightarrow> bindc count_applied (\<lambda>_. retc (remove_at i cs)))
         (\<lambda>ds. cases_in C V W ds \<and> labels_ok ds)"
    proof (cases v)
      case None
      then show ?thesis using cs by (simp add: yields_retc del: retc_apply)
    next
      case (Some i)
      have "i < length cs" "removable cs i" using v Some by auto
      then show ?thesis unfolding Some option.case
        by (intro yields_bindc [OF yields_count] yields_retc removed)
    qed
  qed
qed

subsection \<open>The pieces of a list\<close>

definition lnames :: "stmt list \<Rightarrow> string set" where
  "lnames ss = \<Union> (names_after ` set ss)"

lemma lnames_simps [simp]: "lnames [] = {}" "lnames (s # ss) = names_after s \<union> lnames ss"
  "lnames (xs @ ys) = lnames xs \<union> lnames ys"
  by (auto simp: lnames_def)

lemma lnames_dset: "lnames ss \<subseteq> dset ss"
proof (induction ss)
  case (Cons s ss)
  then show ?case using names_after_dset [of s] dset_Cons [of s ss] by auto
qed simp

lemma legal_list_app: "legal_list C V (xs @ ys) \<longleftrightarrow> legal_list C V xs \<and> legal_list C (V \<union> lnames xs) ys"
  by (simp add: legal_list_append lnames_def)

lemma stands_list: "stands C V W s \<Longrightarrow> legal_list C V [s] \<and> dset [s] \<subseteq> W \<and> lnames [s] = {}"
  by (simp add: stands_def)

lemma insert_before_makes:
  assumes s: "site_ok C V ctx sc" and U: "V \<subseteq> U"
  shows "makes U (insert_before ctx sc) (\<lambda>W (pre, sc'). legal_list C V pre \<and> dset pre \<subseteq> W \<and> dset pre \<inter> U = {}
    \<and> site_ok C (V \<union> lnames pre) ctx sc')"
proof -
  have none: "makes W (retc ([], sc)) (\<lambda>W (pre, sc'). legal_list C V pre \<and> dset pre \<subseteq> W \<and> dset pre \<inter> U = {}
    \<and> site_ok C (V \<union> lnames pre) ctx sc')" for W
    by (rule makes_retc) (simp add: s)
  have single: "makes W (retc ([x], sc)) (\<lambda>W (pre, sc'). legal_list C V pre \<and> dset pre \<subseteq> W \<and> dset pre \<inter> U = {}
    \<and> site_ok C (V \<union> lnames pre) ctx sc')" if "stands C V {} x" for W x
    by (rule makes_retc) (use stands_list [OF that] s in auto)
  have decl: "makes W (bindc (declare_stmt ctx sc) (\<lambda>(s, sc'). retc ([s], sc'))) (\<lambda>W (pre, sc'). legal_list C V pre
    \<and> dset pre \<subseteq> W \<and> dset pre \<inter> U = {} \<and> site_ok C (V \<union> lnames pre) ctx sc')" if "U \<subseteq> W" for W
  proof (rule makes_bindc [OF declare_makes [OF s]])
    show "V \<subseteq> W" using U that by blast
    fix v W' assume "W \<subseteq> W'" and v: "case v of (d, sc') \<Rightarrow> \<exists>n. n \<notin> W \<and> n \<in> W' \<and> legal_stmt C V d \<and> dset [d] = {n}
      \<and> names_after d = {n} \<and> site_ok C (insert n V) ctx sc' \<and> in_loop sc' = in_loop sc"
    obtain d sc' where "v = (d, sc')" by (cases v)
    with v that show "makes W' (case v of (s, sc') \<Rightarrow> retc ([s], sc')) (\<lambda>W (pre, sc'). legal_list C V pre
      \<and> dset pre \<subseteq> W \<and> dset pre \<inter> U = {} \<and> site_ok C (V \<union> lnames pre) ctx sc')"
      by (auto intro!: makes_retc simp del: retc_apply)
  qed
  show ?thesis unfolding insert_before_def
  proof (rule makes_bind_yields [OF yields_draw(1)], rule makes_if, rule none, rule makes_bind_yields [OF yields_count],
      rule makes_bind_yields [OF yields_draw(1)], rule makes_if, rule makes_bind_yields [OF empty_if_stands [OF s, where W = "{}"]],
      rule single, assumption, rule makes_bind_yields [OF yields_draw(1)], rule makes_if, rule decl)
  qed (blast | rule makes_bind_yields [OF side_effect_stands [OF s, where W = "{}"]], rule single, assumption)+
qed

lemma guarded_yields: "yields (guarded_chance ctx g p) (\<lambda>b. b \<longrightarrow> g)"
  unfolding guarded_chance_def
  by (auto intro!: yields_retc yields_bindc [OF yields_draw(1)] yields_bindc [OF yields_count] simp del: retc_apply)

context mapper
begin

lemma mutate_inits_legal:
  assumes s: "site_ok C V ctx sc"
  shows "legal_decls C W ds \<Longrightarrow> V \<subseteq> W \<Longrightarrow>
    yields (mutate_inits map_over kids ctx sc ds) (\<lambda>es. legal_decls C W es \<and> map decl_name es = map decl_name ds)"
proof (induction ds arbitrary: W)
  case Nil
  then show ?case by (simp add: yields_retc del: retc_apply)
next
  case (Cons d ds)
  have init: "yields (case decl_init d of None \<Rightarrow> retc None
      | Some e \<Rightarrow> bindc (mutate_expr map_over kids ctx sc e) (\<lambda>e'. retc (Some e'))) (legal_opt C W)"
  proof (cases "decl_init d")
    case (Some e)
    with Cons.prems have "legal_expr C W e" by (simp add: legal_opt_def)
    from mutate_expr_legal [OF site_mono [OF s Cons.prems(2)] this] show ?thesis
      unfolding Some option.case by (rule yields_bindc) (simp add: yields_retc legal_opt_def del: retc_apply)
  qed (simp add: yields_retc legal_opt_def del: retc_apply)
  have rest: "yields (mutate_inits map_over kids ctx sc ds) (\<lambda>es. legal_decls C (insert (decl_name d) W) es \<and> map decl_name es = map decl_name ds)"
    by (rule Cons.IH) (use Cons.prems in auto)
  show ?case unfolding mutate_inits.simps
    by (rule yields_bindc [OF init], rule yields_bindc [OF rest], rule yields_retc) (use Cons.prems in auto)
qed

end

lemma legal_retype: "legal_decls C V (map (retype t) ds) = legal_decls C V ds"
  by (induction ds arbitrary: V) (simp_all add: retype_def)

lemma declares_retype: "declares (map (retype t) ds) = declares ds"
  by (simp add: declares_def retype_def image_image)

lemma declares_map: "declares ds = set (map decl_name ds)"
  by (simp add: declares_def)

lemma push_site: "site_ok C V ctx sc \<Longrightarrow> site_ok C (V \<union> declares ds) ctx (push_vars sc ds)"
  by (auto simp: site_ok_def scope_in_def push_vars_def vars_of_def declares_def)

subsection \<open>The walk\<close>

definition stmt_walks :: "map_over \<Rightarrow> recurse \<Rightarrow> mctx \<Rightarrow> mscope \<Rightarrow> stmt \<Rightarrow> bool" where
  "stmt_walks map_over kids ctx sc s \<longleftrightarrow>
     (\<forall>C V U. site_ok C V ctx sc \<longrightarrow> legal_stmt C V s \<longrightarrow> V \<union> dset [s] \<subseteq> U \<longrightarrow> fits [s] \<longrightarrow>
        makes U (mutate_stmt map_over kids ctx sc s) (\<lambda>W (s', sc').
          legal_stmt C V s' \<and> dset [s'] \<subseteq> W \<and> names_after s' = names_after s \<and> site_ok C (V \<union> names_after s) ctx sc'))"

definition list_walks :: "map_over \<Rightarrow> recurse \<Rightarrow> mctx \<Rightarrow> bool \<Rightarrow> mscope \<Rightarrow> stmt list \<Rightarrow> bool" where
  "list_walks map_over kids ctx several sc ss \<longleftrightarrow>
     (\<forall>C V U. site_ok C V ctx sc \<longrightarrow> legal_list C V ss \<longrightarrow> V \<union> dset ss \<subseteq> U \<longrightarrow> fits ss \<longrightarrow>
        makes U (mutate_list map_over kids ctx several sc ss) (\<lambda>W (out, sc').
          legal_list C V out \<and> dset out \<subseteq> W \<and> site_ok C (V \<union> lnames out) ctx sc'))"

definition body_walks :: "map_over \<Rightarrow> recurse \<Rightarrow> mctx \<Rightarrow> mscope \<Rightarrow> stmt list \<Rightarrow> bool" where
  "body_walks map_over kids ctx sc ss \<longleftrightarrow>
     (\<forall>C V U. site_ok C V ctx sc \<longrightarrow> legal_list C V (source_of sc ss) \<longrightarrow> V \<union> dset ss \<subseteq> U \<longrightarrow> fits ss \<longrightarrow>
        makes U (mutate_statements map_over kids ctx sc ss) (\<lambda>W (out, sc').
          \<exists>xs. out = xs @ (if has_closer sc ss then [BreakStatement] else [])
            \<and> legal_list C V xs \<and> dset xs \<subseteq> W \<and> site_ok C (V \<union> lnames xs) ctx sc'))"

definition cases_walk :: "map_over \<Rightarrow> recurse \<Rightarrow> mctx \<Rightarrow> mscope \<Rightarrow> switch_case list \<Rightarrow> bool" where
  "cases_walk map_over kids ctx sc cs \<longleftrightarrow>
     (\<forall>C V U. site_ok C V ctx sc \<longrightarrow> legal_cases C V cs \<longrightarrow> V \<union> (\<Union>c \<in> set cs. dset (case_body c)) \<subseteq> U
        \<longrightarrow> (\<forall>c \<in> set cs. fits (case_body c)) \<longrightarrow>
        makes U (mutate_cases map_over kids ctx sc cs) (\<lambda>W ds. cases_in C V W ds \<and> map case_test ds = map case_test cs))"

lemma stmt_walksD: "stmt_walks map_over kids ctx sc s \<Longrightarrow> site_ok C V ctx sc \<Longrightarrow> legal_stmt C V s \<Longrightarrow> V \<union> dset [s] \<subseteq> U \<Longrightarrow>
  fits [s] \<Longrightarrow> makes U (mutate_stmt map_over kids ctx sc s) (\<lambda>W (s', sc').
          legal_stmt C V s' \<and> dset [s'] \<subseteq> W \<and> names_after s' = names_after s \<and> site_ok C (V \<union> names_after s) ctx sc')"
  unfolding stmt_walks_def by blast

lemma list_walksD: "list_walks map_over kids ctx several sc ss \<Longrightarrow> site_ok C V ctx sc \<Longrightarrow> legal_list C V ss \<Longrightarrow>
  V \<union> dset ss \<subseteq> U \<Longrightarrow> fits ss \<Longrightarrow> makes U (mutate_list map_over kids ctx several sc ss) (\<lambda>W (out, sc').
          legal_list C V out \<and> dset out \<subseteq> W \<and> site_ok C (V \<union> lnames out) ctx sc')"
  unfolding list_walks_def by blast

lemma body_walksD: "body_walks map_over kids ctx sc ss \<Longrightarrow> site_ok C V ctx sc \<Longrightarrow> legal_list C V (source_of sc ss) \<Longrightarrow>
  V \<union> dset ss \<subseteq> U \<Longrightarrow> fits ss \<Longrightarrow> makes U (mutate_statements map_over kids ctx sc ss) (\<lambda>W (out, sc').
          \<exists>xs. out = xs @ (if has_closer sc ss then [BreakStatement] else [])
            \<and> legal_list C V xs \<and> dset xs \<subseteq> W \<and> site_ok C (V \<union> lnames xs) ctx sc')"
  unfolding body_walks_def by blast

lemma cases_walkD: "cases_walk map_over kids ctx sc cs \<Longrightarrow> site_ok C V ctx sc \<Longrightarrow> legal_cases C V cs \<Longrightarrow>
  V \<union> (\<Union>c \<in> set cs. dset (case_body c)) \<subseteq> U \<Longrightarrow> \<forall>c \<in> set cs. fits (case_body c) \<Longrightarrow>
  makes U (mutate_cases map_over kids ctx sc cs) (\<lambda>W ds. cases_in C V W ds \<and> map case_test ds = map case_test cs)"
  unfolding cases_walk_def by blast

lemma keeping_makes:
  assumes "makes U m (\<lambda>W s'. legal_stmt C V s' \<and> dset [s'] \<subseteq> W \<and> names_after s' = {})"
    and "site_ok C V ctx sc" and "names_after s = {}"
  shows "makes U (keeping sc m) (\<lambda>W (s', sc').
          legal_stmt C V s' \<and> dset [s'] \<subseteq> W \<and> names_after s' = names_after s \<and> site_ok C (V \<union> names_after s) ctx sc')"
  unfolding keeping_def by (rule makes_bindc [OF assms(1)], rule makes_retc) (use assms in auto)

text \<open>A body outside a \<^verbatim>\<open>switch\<close>, put in a block.\<close>

lemma block_makes:
  assumes "body_walks map_over kids ctx sc ss" and "site_ok C V ctx sc" and "\<not> in_case sc" and "legal_list C V ss"
    and "V \<union> dset ss \<subseteq> U" and "fits ss"
  shows "makes U (block_of (mutate_statements map_over kids ctx sc ss)) (\<lambda>W b. legal_list C V (as_list b) \<and> dset (as_list b) \<subseteq> W
    \<and> names_after b = {} \<and> legal_stmt C V b \<and> dset [b] \<subseteq> W)"
proof -
  have out: "has_closer sc ss = False" "source_of sc ss = ss" using assms(3) by (simp_all add: has_closer_def source_of_def)
  have "makes U (mutate_statements map_over kids ctx sc ss) (\<lambda>W (out, sc'). legal_list C V out \<and> dset out \<subseteq> W)"
    by (rule makes_weaken [OF body_walksD [OF assms(1,2)]]) (use assms(4-6) out in \<open>auto split: prod.splits\<close>)
  then show ?thesis unfolding block_of_def
    by (rule makes_bindc) (auto intro!: makes_retc simp: names_after_def split: prod.splits simp del: retc_apply)
qed

lemma finish_makes:
  assumes "makes U m (\<lambda>W (out, sc'). legal_list C V out \<and> dset out \<subseteq> W \<and> site_ok C (V \<union> lnames out) ctx sc')"
  shows "makes U (finish_list closer m) (\<lambda>W (out, sc').
          \<exists>xs. out = xs @ (if closer then [BreakStatement] else [])
            \<and> legal_list C V xs \<and> dset xs \<subseteq> W \<and> site_ok C (V \<union> lnames xs) ctx sc')"
  unfolding finish_list_def
proof (rule makes_bindc [OF assms])
  fix v W assume v: "case v of (out, sc') \<Rightarrow> legal_list C V out \<and> dset out \<subseteq> W \<and> site_ok C (V \<union> lnames out) ctx sc'"
  obtain out sc where [simp]: "v = (out, sc)" by (cases v)
  have tail: "makes W (bindc (if out = [] then bindc (side_effect sc) (\<lambda>s. retc [s]) else retc out) (\<lambda>out'.
      retc (out' @ (if closer then [BreakStatement] else []), sc)))
    (\<lambda>W (out, sc'). \<exists>xs. out = xs @ (if closer then [BreakStatement] else [])
      \<and> legal_list C V xs \<and> dset xs \<subseteq> W \<and> site_ok C (V \<union> lnames xs) ctx sc')"
  proof (rule makes_bindc)
    show "makes W (if out = [] then bindc (side_effect sc) (\<lambda>s. retc [s]) else retc out)
      (\<lambda>W xs. legal_list C V xs \<and> dset xs \<subseteq> W \<and> site_ok C (V \<union> lnames xs) ctx sc)"
    proof (rule makes_if)
      assume "out = []"
      with v have s: "site_ok C V ctx sc" by simp
      show "makes W (bindc (side_effect sc) (\<lambda>s. retc [s])) (\<lambda>W xs. legal_list C V xs \<and> dset xs \<subseteq> W \<and> site_ok C (V \<union> lnames xs) ctx sc)"
        by (rule makes_bind_yields [OF side_effect_stands [OF s, where W = "{}"]], rule makes_retc)
          (auto dest!: stands_list simp: s)
    qed (rule makes_retc, use v in auto)
  qed (auto intro!: makes_retc simp del: retc_apply)
  then show "makes W (case v of (out, sc) \<Rightarrow> bindc (if out = [] then bindc (side_effect sc) (\<lambda>s. retc [s]) else retc out) (\<lambda>out'.
      retc (out' @ (if closer then [BreakStatement] else []), sc)))
    (\<lambda>W (out, sc'). \<exists>xs. out = xs @ (if closer then [BreakStatement] else [])
      \<and> legal_list C V xs \<and> dset xs \<subseteq> W \<and> site_ok C (V \<union> lnames xs) ctx sc')"
    by simp
qed

lemma dset_source: "dset (source_of sc ss) \<subseteq> dset ss"
  using dset_butlast by (auto simp: source_of_def)

text \<open>One statement of a list: mutated, perhaps wrapped, perhaps followed by a second mutant of itself.\<close>

lemma here_makes:
  assumes walks: "\<And>sc. stmt_walks map_over kids ctx sc s"
    and site: "site_ok C V ctx sc" and legal: "legal_stmt C V s" and U: "V \<union> dset [s] \<subseteq> U" and fit: "fits [s]"
  shows "makes U
     (bindc (mutate_stmt map_over kids ctx sc s) (\<lambda>(mutated, sc2).
      bindc (guarded_chance ctx (movable s) p) (\<lambda>w.
      bindc (if w then wrap_stmt ctx sc2 mutated else retc mutated) (\<lambda>wrapped.
      bindc (guarded_chance ctx (movable s) q) (\<lambda>again.
      bindc (if again
             then bindc (mutate_stmt map_over kids ctx (child_scope sc2 False (in_loop sc2)) s) (\<lambda>(m, _). retc [m])
             else retc []) (\<lambda>twin.
      retc (wrapped # twin, sc2)))))))
     (\<lambda>W (here, sc3). legal_list C V here \<and> dset here \<subseteq> W \<and> lnames here = names_after s
        \<and> site_ok C (V \<union> names_after s) ctx sc3)"
proof (rule makes_bindc [OF stmt_walksD [OF walks site legal U fit]])
  fix v W0 assume W0: "U \<subseteq> W0" and v: "case v of (s', sc') \<Rightarrow>
    legal_stmt C V s' \<and> dset [s'] \<subseteq> W0 \<and> names_after s' = names_after s \<and> site_ok C (V \<union> names_after s) ctx sc'"
  obtain x sc2 where [simp]: "v = (x, sc2)" by (cases v)
  from v have x: "legal_stmt C V x" "dset [x] \<subseteq> W0" "names_after x = names_after s" and sc2: "site_ok C (V \<union> names_after s) ctx sc2"
    by simp_all
  have mov: "site_ok C V ctx sc2" "names_after s = {}" if "movable s"
    using movable_names [OF that] sc2 by simp_all
  have wrapped: "makes W (if w then wrap_stmt ctx sc2 x else retc x)
      (\<lambda>W y. legal_stmt C V y \<and> dset [y] \<subseteq> W \<and> names_after y = names_after s)"
    if "W0 \<subseteq> W" "w \<longrightarrow> movable s" for W w
  proof (rule makes_if)
    assume "w"
    with that have m: "movable s" by simp
    have "makes W (wrap_stmt ctx sc2 x) (stands C V)"
      by (rule wrap_stands [OF mov(1) [OF m] x(1)]) (use U W0 x(2) that(1) in blast)
    then show "makes W (wrap_stmt ctx sc2 x) (\<lambda>W y. legal_stmt C V y \<and> dset [y] \<subseteq> W \<and> names_after y = names_after s)"
      by (rule makes_weaken) (simp add: stands_def mov(2) [OF m])
  next
    show "makes W (retc x) (\<lambda>W y. legal_stmt C V y \<and> dset [y] \<subseteq> W \<and> names_after y = names_after s)"
      by (rule makes_retc) (use x that(1) in auto)
  qed
  have twin: "makes W (if again
             then bindc (mutate_stmt map_over kids ctx (child_scope sc2 False (in_loop sc2)) s) (\<lambda>(m, _). retc [m])
             else retc [])
      (\<lambda>W ys. legal_list C (V \<union> names_after s) ys \<and> dset ys \<subseteq> W \<and> lnames ys = {})" if "W0 \<subseteq> W" "again \<longrightarrow> movable s" for W again
  proof (rule makes_if)
    assume "again"
    with that have m: "movable s" by simp
    have "makes W (mutate_stmt map_over kids ctx (child_scope sc2 False (in_loop sc2)) s) (\<lambda>W (s', sc').
          legal_stmt C V s' \<and> dset [s'] \<subseteq> W \<and> names_after s' = names_after s \<and> site_ok C (V \<union> names_after s) ctx sc')"
      by (rule stmt_walksD [OF walks site_child [OF mov(1) [OF m]] legal _ fit]) (use U W0 that(1) in blast)
    then show "makes W (bindc (mutate_stmt map_over kids ctx (child_scope sc2 False (in_loop sc2)) s) (\<lambda>(m, _). retc [m]))
      (\<lambda>W ys. legal_list C (V \<union> names_after s) ys \<and> dset ys \<subseteq> W \<and> lnames ys = {})"
      by (rule makes_bindc) (auto intro!: makes_retc simp: mov(2) [OF m] split: prod.splits simp del: retc_apply)
  qed (rule makes_retc, simp)
  have "makes W0 (bindc (guarded_chance ctx (movable s) p) (\<lambda>w.
      bindc (if w then wrap_stmt ctx sc2 x else retc x) (\<lambda>wrapped.
      bindc (guarded_chance ctx (movable s) q) (\<lambda>again.
      bindc (if again
             then bindc (mutate_stmt map_over kids ctx (child_scope sc2 False (in_loop sc2)) s) (\<lambda>(m, _). retc [m])
             else retc []) (\<lambda>twin.
      retc (wrapped # twin, sc2))))))
     (\<lambda>W (here, sc3). legal_list C V here \<and> dset here \<subseteq> W \<and> lnames here = names_after s
        \<and> site_ok C (V \<union> names_after s) ctx sc3)"
  proof (rule makes_bind_yields [OF guarded_yields], rule makes_bindc [OF wrapped], assumption, assumption,
      rule makes_bind_yields [OF guarded_yields], rule makes_bindc [OF twin])
    fix w W1 y W2 again W3 ys W4
    assume W: "W0 \<subseteq> W1" "W1 \<subseteq> W2" "W2 \<subseteq> W3" "W3 \<subseteq> W4"
      and y: "legal_stmt C V y \<and> dset [y] \<subseteq> W2 \<and> names_after y = names_after s"
      and ys: "legal_list C (V \<union> names_after s) ys \<and> dset ys \<subseteq> W4 \<and> lnames ys = {}"
    from W y have "dset [y] \<subseteq> W4" by blast
    then have "dset (y # ys) \<subseteq> W4" using ys dset_Cons [of y ys] by blast
    then show "makes W4 (retc (y # ys, sc2)) (\<lambda>W (here, sc3). legal_list C V here \<and> dset here \<subseteq> W \<and> lnames here = names_after s
        \<and> site_ok C (V \<union> names_after s) ctx sc3)"
      using y ys sc2 by (intro makes_retc) auto
  qed auto
  then show "makes W0 (case v of (mutated, sc2) \<Rightarrow> bindc (guarded_chance ctx (movable s) p) (\<lambda>w.
      bindc (if w then wrap_stmt ctx sc2 mutated else retc mutated) (\<lambda>wrapped.
      bindc (guarded_chance ctx (movable s) q) (\<lambda>again.
      bindc (if again
             then bindc (mutate_stmt map_over kids ctx (child_scope sc2 False (in_loop sc2)) s) (\<lambda>(m, _). retc [m])
             else retc []) (\<lambda>twin.
      retc (wrapped # twin, sc2))))))
     (\<lambda>W (here, sc3). legal_list C V here \<and> dset here \<subseteq> W \<and> lnames here = names_after s
        \<and> site_ok C (V \<union> names_after s) ctx sc3)"
    by simp
qed

text \<open>A list: something in front of its first statement, the statement, the rest.\<close>

lemma list_step:
  assumes walks: "\<And>sc. stmt_walks map_over kids ctx sc s" and rest: "\<And>sc. list_walks map_over kids ctx several sc ss"
  shows "list_walks map_over kids ctx several sc (s # ss)"
  unfolding list_walks_def
proof (intro allI impI)
  fix C V U
  assume site: "site_ok C V ctx sc" and legal: "legal_list C V (s # ss)" and U: "V \<union> dset (s # ss) \<subseteq> U" and fit: "fits (s # ss)"
  define post where "post = (\<lambda>W (out, sc'). legal_list C V out \<and> dset out \<subseteq> W \<and> site_ok C (V \<union> lnames out) ctx sc')"
  show "makes U (mutate_list map_over kids ctx several sc (s # ss)) (\<lambda>W (out, sc').
          legal_list C V out \<and> dset out \<subseteq> W \<and> site_ok C (V \<union> lnames out) ctx sc')"
    unfolding mutate_list.simps post_def [symmetric]
  proof (rule makes_bindc [OF insert_before_makes [OF site]])
    show "V \<subseteq> U" using U by blast
    fix v W1 assume W1: "U \<subseteq> W1" and v: "case v of (pre, sc') \<Rightarrow> legal_list C V pre \<and> dset pre \<subseteq> W1 \<and> dset pre \<inter> U = {}
      \<and> site_ok C (V \<union> lnames pre) ctx sc'"
    obtain pre sc1 where v_eq: "v = (pre, sc1)" by (cases v)
    from v v_eq have pre: "legal_list C V pre" "dset pre \<subseteq> W1" "dset pre \<inter> U = {}" and site1: "site_ok C (V \<union> lnames pre) ctx sc1"
      by simp_all
    define V1 where "V1 = V \<union> lnames pre"
    have "V1 \<inter> dset (s # ss) = {}"
      using legal_disjoint(2) [OF legal] lnames_dset [of pre] pre(3) U by (auto simp: V1_def)
    then have legal1: "legal_list C V1 (s # ss)"
      by - (rule legal_mono(2) [OF legal], simp_all add: V1_def)
    have U1: "V1 \<union> dset (s # ss) \<subseteq> W1" using U W1 lnames_dset [of pre] pre(2) by (auto simp: V1_def)
    have Us: "V1 \<union> dset [s] \<subseteq> W1" "dset ss \<subseteq> W1" using U1 dset_Cons [of s ss] by auto
    have fits: "fits [s]" "fits ss" using fit fits_Cons [of s ss] by simp_all
    have legal_s: "legal_stmt C V1 s" and legal_ss: "legal_list C (V1 \<union> names_after s) ss" using legal1 by simp_all
    have here: "makes W (if dropped then retc ([], sc1)
            else
              bindc (mutate_stmt map_over kids ctx sc1 s) (\<lambda>(mutated, sc2).
              bindc (guarded_chance ctx (movable s) p) (\<lambda>w.
              bindc (if w then wrap_stmt ctx sc2 mutated else retc mutated) (\<lambda>wrapped.
              bindc (guarded_chance ctx (movable s) q) (\<lambda>again.
              bindc (if again
                     then bindc (mutate_stmt map_over kids ctx (child_scope sc2 False (in_loop sc2)) s) (\<lambda>(m, _). retc [m])
                     else retc []) (\<lambda>twin.
              retc (wrapped # twin, sc2)))))))
         (\<lambda>W (here, sc3). legal_list C V1 here \<and> dset here \<subseteq> W \<and> lnames here = names_after s
            \<and> site_ok C (V1 \<union> names_after s) ctx sc3)"
      if "W1 \<subseteq> W" "dropped \<longrightarrow> movable s \<and> \<not> in_loop sc1 \<and> several" for W dropped p q
    proof (rule makes_if)
      assume dropped
      with that have "names_after s = {}" using movable_names by blast
      then show "makes W (retc ([], sc1)) (\<lambda>W (here, sc3). legal_list C V1 here \<and> dset here \<subseteq> W \<and> lnames here = names_after s
            \<and> site_ok C (V1 \<union> names_after s) ctx sc3)"
        using site1 by (intro makes_retc) (simp add: V1_def)
    next
      show "makes W (bindc (mutate_stmt map_over kids ctx sc1 s) (\<lambda>(mutated, sc2).
              bindc (guarded_chance ctx (movable s) p) (\<lambda>w.
              bindc (if w then wrap_stmt ctx sc2 mutated else retc mutated) (\<lambda>wrapped.
              bindc (guarded_chance ctx (movable s) q) (\<lambda>again.
              bindc (if again
                     then bindc (mutate_stmt map_over kids ctx (child_scope sc2 False (in_loop sc2)) s) (\<lambda>(m, _). retc [m])
                     else retc []) (\<lambda>twin.
              retc (wrapped # twin, sc2)))))))
         (\<lambda>W (here, sc3). legal_list C V1 here \<and> dset here \<subseteq> W \<and> lnames here = names_after s
            \<and> site_ok C (V1 \<union> names_after s) ctx sc3)"
        by (rule here_makes [OF walks _ legal_s _ fits(1)]) (use site1 Us(1) that(1) in \<open>auto simp: V1_def\<close>)
    qed
    show "makes W1 (case v of (pre, sc1) \<Rightarrow>
       bindc (guarded_chance ctx (movable s \<and> \<not> in_loop sc1 \<and> several) (scaled (rate ctx) 25 100)) (\<lambda>dropped.
       bindc (if dropped then retc ([], sc1)
            else
              bindc (mutate_stmt map_over kids ctx sc1 s) (\<lambda>(mutated, sc2).
              bindc (guarded_chance ctx (movable s) (scaled (rate ctx) 35 100)) (\<lambda>w.
              bindc (if w then wrap_stmt ctx sc2 mutated else retc mutated) (\<lambda>wrapped.
              bindc (guarded_chance ctx (movable s) (scaled (rate ctx) 15 100)) (\<lambda>again.
              bindc (if again
                     then bindc (mutate_stmt map_over kids ctx (child_scope sc2 False (in_loop sc2)) s) (\<lambda>(m, _). retc [m])
                     else retc []) (\<lambda>twin.
              retc (wrapped # twin, sc2))))))) (\<lambda>(here, sc3).
       bindc (mutate_list map_over kids ctx several sc3 ss) (\<lambda>(rest, sc4). retc (pre @ here @ rest, sc4))))) post"
      unfolding v_eq prod.case
    proof (rule makes_bind_yields [OF guarded_yields], rule makes_bindc [OF here], assumption, assumption)
      fix dropped W2 u W3
      assume W: "W1 \<subseteq> W2" "W2 \<subseteq> W3" and u: "case u of (here, sc3) \<Rightarrow> legal_list C V1 here \<and> dset here \<subseteq> W3
        \<and> lnames here = names_after s \<and> site_ok C (V1 \<union> names_after s) ctx sc3"
      obtain here sc3 where u_eq: "u = (here, sc3)" by (cases u)
      from u u_eq have h: "legal_list C V1 here" "dset here \<subseteq> W3" "lnames here = names_after s" "site_ok C (V1 \<union> names_after s) ctx sc3"
        by simp_all
      have "V1 \<union> names_after s \<union> dset ss \<subseteq> W1" using Us names_after_dset [of s] by auto
      with W have "V1 \<union> names_after s \<union> dset ss \<subseteq> W3" by blast
      from list_walksD [OF rest h(4) legal_ss this fits(2)]
      have "makes W3 (mutate_list map_over kids ctx several sc3 ss) (\<lambda>W (out, sc').
          legal_list C (V1 \<union> names_after s) out \<and> dset out \<subseteq> W \<and> site_ok C (V1 \<union> names_after s \<union> lnames out) ctx sc')" .
      then show "makes W3 (case u of (here, sc3) \<Rightarrow> bindc (mutate_list map_over kids ctx several sc3 ss) (\<lambda>(rest, sc4). retc (pre @ here @ rest, sc4))) post"
        unfolding u_eq prod.case
      proof (rule makes_bindc)
        fix y W4 assume W4: "W3 \<subseteq> W4" and y: "case y of (out, sc') \<Rightarrow> legal_list C (V1 \<union> names_after s) out \<and> dset out \<subseteq> W4
          \<and> site_ok C (V1 \<union> names_after s \<union> lnames out) ctx sc'"
        obtain out sc4 where y_eq: "y = (out, sc4)" by (cases y)
        have "dset pre \<subseteq> W4" "dset here \<subseteq> W4" using pre(2) h(2) W W4 by auto
        then have "post X (pre @ here @ out, sc4)" if "W4 \<subseteq> X" for X
          using y y_eq pre(1) h that by (auto simp: post_def legal_list_app V1_def Un_assoc)
        then show "makes W4 (case y of (rest, sc4) \<Rightarrow> retc (pre @ here @ rest, sc4)) post"
          unfolding y_eq prod.case by (rule makes_retc)
      qed
    qed
  qed
qed

subsection \<open>Every statement\<close>

lemma stmt_plain:
  assumes "\<And>C V. site_ok C V ctx sc \<Longrightarrow> legal_stmt C V s \<Longrightarrow> yields m (\<lambda>x. legal_stmt C V x \<and> dset [x] = {} \<and> names_after x = {})"
    and "mutate_stmt map_over kids ctx sc s = keeping sc m" and "names_after s = {}"
  shows "stmt_walks map_over kids ctx sc s"
  unfolding stmt_walks_def assms(2)
proof (intro allI impI)
  fix C V U assume s: "site_ok C V ctx sc" "legal_stmt C V s"
  show "makes U (keeping sc m) (\<lambda>W (s', sc').
          legal_stmt C V s' \<and> dset [s'] \<subseteq> W \<and> names_after s' = names_after s \<and> site_ok C (V \<union> names_after s) ctx sc')"
    by (rule keeping_makes [OF makes_weaken [OF makes_yields [OF assms(1) [OF s]]] s(1) assms(3)]) simp
qed

lemma in_case_child [simp]: "\<not> in_case (child_scope sc False l)" "in_case (child_scope sc True l)"
  by (simp_all add: child_scope_def)

lemma for_scope_site:
  assumes "site_ok C V ctx sc"
  shows "site_ok C (V \<union> init_names i) ctx (for_scope sc i)" and "\<not> in_case (for_scope sc i)"
proof -
  show "site_ok C (V \<union> init_names i) ctx (for_scope sc i)"
    using push_site [OF site_child [OF assms]] site_child [OF assms]
    by (auto simp: for_scope_def init_names_def split: option.split for_init.split)
  show "\<not> in_case (for_scope sc i)"
    by (simp add: for_scope_def push_vars_def child_scope_def split: option.split for_init.split)
qed

lemma loop_walks:
  assumes "body_walks map_over kids ctx (child_scope sc False True) (as_list b)"
    and eq: "mutate_stmt map_over kids ctx sc s =
      keeping sc (bindc (block_of (mutate_statements map_over kids ctx (child_scope sc False True) (as_list b))) (\<lambda>b'. retc (f b')))"
    and s: "\<And>C V. legal_stmt C V s \<Longrightarrow> legal_list C V (as_list b)" "dset [s] = dset (as_list b)" "names_after s = {}"
      "fits [s] \<Longrightarrow> fits (as_list b)"
    and f: "\<And>C V x. legal_stmt C V s \<Longrightarrow> legal_list C V (as_list x) \<Longrightarrow> legal_stmt C V (f x)"
      "\<And>x. dset [f x] = dset (as_list x)" "\<And>x. names_after (f x) = {}"
  shows "stmt_walks map_over kids ctx sc s"
  unfolding stmt_walks_def eq
proof (intro allI impI)
  fix C V U assume *: "site_ok C V ctx sc" "legal_stmt C V s" "V \<union> dset [s] \<subseteq> U" "fits [s]"
  show "makes U (keeping sc (bindc (block_of (mutate_statements map_over kids ctx (child_scope sc False True) (as_list b))) (\<lambda>b'. retc (f b'))))
    (\<lambda>W (s', sc'). legal_stmt C V s' \<and> dset [s'] \<subseteq> W \<and> names_after s' = names_after s \<and> site_ok C (V \<union> names_after s) ctx sc')"
  proof (rule keeping_makes [OF _ *(1) s(3)], rule makes_bindc [OF block_makes [OF assms(1) site_child [OF *(1)]]])
    fix x W assume "legal_list C V (as_list x) \<and> dset (as_list x) \<subseteq> W \<and> names_after x = {} \<and> legal_stmt C V x \<and> dset [x] \<subseteq> W"
    then show "makes W (retc (f x)) (\<lambda>W s'. legal_stmt C V s' \<and> dset [s'] \<subseteq> W \<and> names_after s' = {})"
      using f *(2) by (intro makes_retc) auto
  qed (use * s in auto)
qed

context mapper
begin

lemma if_walks:
  assumes c: "body_walks map_over kids ctx (child_scope sc False (in_loop sc)) (as_list c)"
    and a: "\<And>x. a = Some x \<Longrightarrow> body_walks map_over kids ctx (child_scope sc False (in_loop sc)) (as_list x)"
  shows "stmt_walks map_over kids ctx sc (IfStatement t c a)"
  unfolding stmt_walks_def mutate_stmt.simps
proof (intro allI impI, rule keeping_makes)
  fix C V U assume s: "site_ok C V ctx sc" and l: "legal_stmt C V (IfStatement t c a)"
    and U: "V \<union> dset [IfStatement t c a] \<subseteq> U" and fit: "fits [IfStatement t c a]"
  note ch = site_child [OF s, where c = False and l = "in_loop sc"]
  let ?ok = "\<lambda>W x. case x of None \<Rightarrow> True | Some b \<Rightarrow> legal_list C V (as_list b) \<and> dset (as_list b) \<subseteq> W"
  have alt: "makes W (case a of
                 None \<Rightarrow>
                   bindc (drawn (chance (scaled (rate ctx) 3 10))) (\<lambda>b.
                   if b then bindc (side_effect (child_scope sc False (in_loop sc))) (\<lambda>s. retc (Some (BlockStatement [s])))
                   else retc None)
               | Some x \<Rightarrow>
                   bindc (block_of (mutate_statements map_over kids ctx (child_scope sc False (in_loop sc)) (as_list x)))
                     (\<lambda>x'. retc (Some x'))) ?ok" if "U \<subseteq> W" for W
  proof (cases a)
    case None
    have "makes W (bindc (drawn (chance (scaled (rate ctx) 3 10))) (\<lambda>b.
                   if b then bindc (side_effect (child_scope sc False (in_loop sc))) (\<lambda>s. retc (Some (BlockStatement [s])))
                   else retc None)) ?ok"
      by (rule makes_bind_yields [OF yields_draw(1)], rule makes_if,
          rule makes_bind_yields [OF side_effect_stands [OF ch, where W = "{}"]])
        (auto intro!: makes_retc simp: stands_def simp del: retc_apply)
    with None show ?thesis by simp
  next
    case (Some x)
    have "makes W (bindc (block_of (mutate_statements map_over kids ctx (child_scope sc False (in_loop sc)) (as_list x)))
                     (\<lambda>x'. retc (Some x'))) ?ok"
    proof (rule makes_bindc [OF block_makes [OF a [OF Some] ch]])
      show "V \<union> dset (as_list x) \<subseteq> W" using U that Some by auto
      show "fits (as_list x)" by (rule fits_child [OF fit]) (simp add: Some)
      show "legal_list C V (as_list x)" using l Some by simp
    qed (auto intro!: makes_retc simp del: retc_apply)
    with Some show ?thesis by simp
  qed
  have "fits (as_list c)" by (rule fits_child [OF fit]) (cases a; simp)
  have lc: "legal_list C V (as_list c)" and lt: "legal_expr C V t" using l by simp_all
  show "makes U (bindc (mutate_expr map_over kids ctx sc t) (\<lambda>t'.
        bindc (block_of (mutate_statements map_over kids ctx (child_scope sc False (in_loop sc)) (as_list c))) (\<lambda>c'.
        bindc (case a of
                 None \<Rightarrow>
                   bindc (drawn (chance (scaled (rate ctx) 3 10))) (\<lambda>b.
                   if b then bindc (side_effect (child_scope sc False (in_loop sc))) (\<lambda>s. retc (Some (BlockStatement [s])))
                   else retc None)
               | Some x \<Rightarrow>
                   bindc (block_of (mutate_statements map_over kids ctx (child_scope sc False (in_loop sc)) (as_list x)))
                     (\<lambda>x'. retc (Some x'))) (\<lambda>a'.
        retc (IfStatement t' c' a'))))) (\<lambda>W s'. legal_stmt C V s' \<and> dset [s'] \<subseteq> W \<and> names_after s' = {})"
  proof (rule makes_bind_yields [OF mutate_expr_legal [OF s lt]],
      rule makes_bindc [OF block_makes [OF c ch _ lc _ \<open>fits (as_list c)\<close>]], simp, use U in auto, rule makes_bindc [OF alt])
    fix W1 W2 t' c' a' W3
    assume W: "U \<subseteq> W1" "W1 \<subseteq> W2" "W2 \<subseteq> W3" and t': "legal_expr C V t'" and c': "legal_list C V (as_list c')" "dset (as_list c') \<subseteq> W2"
      and a': "?ok W3 a'"
    have "dset (as_list c') \<subseteq> W3" using c'(2) W(3) by blast
    with t' c' a' show "makes W3 (retc (IfStatement t' c' a')) (\<lambda>W s'. legal_stmt C V s' \<and> dset [s'] \<subseteq> W \<and> names_after s' = {})"
      by (intro makes_retc) (auto simp: names_after_def split: option.splits)
  qed auto
qed (auto simp: names_after_def)

end

context mapper
begin

lemma decl_walks: "stmt_walks map_over kids ctx sc (VariableDeclaration ds)"
  unfolding stmt_walks_def mutate_stmt.simps
proof (intro allI impI)
  fix C V U assume s: "site_ok C V ctx sc" and l: "legal_stmt C V (VariableDeclaration ds)"
    and U: "V \<union> dset [VariableDeclaration ds] \<subseteq> U"
  from l have ld: "legal_decls C V ds" by simp
  have ne: "all_types \<noteq> []" by (simp add: all_types_def)
  have same: "names_after (VariableDeclaration ds) = declares ds" by (simp add: names_after_def)
  show "makes U (bindc (mutate_inits map_over kids ctx sc ds) (\<lambda>ds'.
     bindc (guarded_chance ctx True (scaled (rate ctx) 3 10)) (\<lambda>b.
     bindc (if b then bindc (drawn (pick all_types)) (\<lambda>t. retc (map (retype t) ds')) else retc ds') (\<lambda>ds''.
     retc (VariableDeclaration ds'', push_vars sc ds')))))
    (\<lambda>W (s', sc'). legal_stmt C V s' \<and> dset [s'] \<subseteq> W \<and> names_after s' = names_after (VariableDeclaration ds)
      \<and> site_ok C (V \<union> names_after (VariableDeclaration ds)) ctx sc')"
  proof (rule makes_bind_yields [OF mutate_inits_legal [OF s ld order_refl]], rule makes_bind_yields [OF guarded_yields])
    fix es b W1 W2 assume W: "U \<subseteq> W1" "W1 \<subseteq> W2" and es: "legal_decls C V es \<and> map decl_name es = map decl_name ds"
    have names: "declares es = declares ds" using es by (simp add: declares_map)
    have "yields (if b then bindc (drawn (pick all_types)) (\<lambda>t. retc (map (retype t) es)) else retc es)
      (\<lambda>fs. legal_decls C V fs \<and> declares fs = declares ds)"
    proof (rule yields_if)
      show "yields (bindc (drawn (pick all_types)) (\<lambda>t. retc (map (retype t) es))) (\<lambda>fs. legal_decls C V fs \<and> declares fs = declares ds)"
        by (rule yields_bindc [OF yields_pick [OF ne]], rule yields_retc) (simp add: legal_retype declares_retype es names)
    qed (rule yields_retc, simp add: es names)
    then show "makes W2 (bindc (if b then bindc (drawn (pick all_types)) (\<lambda>t. retc (map (retype t) es)) else retc es) (\<lambda>ds''.
       retc (VariableDeclaration ds'', push_vars sc es)))
      (\<lambda>W (s', sc'). legal_stmt C V s' \<and> dset [s'] \<subseteq> W \<and> names_after s' = names_after (VariableDeclaration ds)
        \<and> site_ok C (V \<union> names_after (VariableDeclaration ds)) ctx sc')"
    proof (rule makes_bind_yields)
      fix fs W3 assume W3: "W2 \<subseteq> W3" and fs: "legal_decls C V fs \<and> declares fs = declares ds"
      have "declares ds \<subseteq> U" using U by simp
      with W W3 have "declares ds \<subseteq> W3" by blast
      with fs push_site [OF s, of es] show "makes W3 (retc (VariableDeclaration fs, push_vars sc es))
        (\<lambda>W (s', sc'). legal_stmt C V s' \<and> dset [s'] \<subseteq> W \<and> names_after s' = names_after (VariableDeclaration ds)
          \<and> site_ok C (V \<union> names_after (VariableDeclaration ds)) ctx sc')"
        by (intro makes_retc) (auto simp: names names_after_def)
    qed
  qed
qed

lemma for_walks:
  assumes b: "body_walks map_over kids ctx (for_scope sc i) (as_list b)"
  shows "stmt_walks map_over kids ctx sc (ForStatement i t u b)"
  unfolding stmt_walks_def mutate_stmt.simps
proof (intro allI impI, rule keeping_makes)
  fix C V U assume s: "site_ok C V ctx sc" and l: "legal_stmt C V (ForStatement i t u b)"
    and U: "V \<union> dset [ForStatement i t u b] \<subseteq> U" and fit: "fits [ForStatement i t u b]"
  have "fits (as_list b)" by (rule fits_child [OF fit]) simp
  with block_makes [OF b for_scope_site [OF s], of U] l U
  have "makes U (block_of (mutate_statements map_over kids ctx (for_scope sc i) (as_list b)))
    (\<lambda>W x. legal_list C (V \<union> init_names i) (as_list x) \<and> dset (as_list x) \<subseteq> W \<and> names_after x = {}
      \<and> legal_stmt C (V \<union> init_names i) x \<and> dset [x] \<subseteq> W)" by simp
  then show "makes U (bindc (block_of (mutate_statements map_over kids ctx (for_scope sc i) (as_list b))) (\<lambda>b'.
        retc (ForStatement i t u b'))) (\<lambda>W s'. legal_stmt C V s' \<and> dset [s'] \<subseteq> W \<and> names_after s' = {})"
  proof (rule makes_bindc)
    fix x W assume W: "U \<subseteq> W" and x: "legal_list C (V \<union> init_names i) (as_list x) \<and> dset (as_list x) \<subseteq> W \<and> names_after x = {}
      \<and> legal_stmt C (V \<union> init_names i) x \<and> dset [x] \<subseteq> W"
    have "init_names i \<subseteq> W" using U W by auto
    then show "makes W (retc (ForStatement i t u x)) (\<lambda>W s'. legal_stmt C V s' \<and> dset [s'] \<subseteq> W \<and> names_after s' = {})"
      using l x by (intro makes_retc) (auto simp: names_after_def)
  qed
qed (simp_all add: names_after_def)

lemma switch_walks:
  assumes c: "cases_walk map_over kids ctx sc cs"
  shows "stmt_walks map_over kids ctx sc (SwitchStatement d cs)"
  unfolding stmt_walks_def mutate_stmt.simps
proof (intro allI impI, rule keeping_makes)
  fix C V U assume s: "site_ok C V ctx sc" and l: "legal_stmt C V (SwitchStatement d cs)"
    and U: "V \<union> dset [SwitchStatement d cs] \<subseteq> U" and fit: "fits [SwitchStatement d cs]"
  from l have d: "legal_expr C V d" and lc: "legal_cases C V cs" and lab: "labels_ok cs" by simp_all
  have "\<forall>x \<in> set cs. fits (case_body x)" using fits_child [OF fit] by simp
  with cases_walkD [OF c s lc, of U] U
  have cs: "makes U (mutate_cases map_over kids ctx sc cs) (\<lambda>W ds. cases_in C V W ds \<and> map case_test ds = map case_test cs)" by simp
  show "makes U (bindc (mutate_cases map_over kids ctx sc cs) (\<lambda>cs1.
        bindc (add_case ctx sc cs1) (\<lambda>cs2.
        bindc (open_case ctx cs2) (\<lambda>cs3.
        bindc (remove_case ctx cs3) (\<lambda>cs4.
        bindc (mutate_expr map_over kids ctx sc d) (\<lambda>d'.
        retc (SwitchStatement d' cs4))))))) (\<lambda>W s'. legal_stmt C V s' \<and> dset [s'] \<subseteq> W \<and> names_after s' = {})"
  proof (rule makes_bindc [OF cs])
    fix ds W assume ds: "cases_in C V W ds \<and> map case_test ds = map case_test cs"
    have "length ds = length cs" using ds by (metis length_map)
    then have n: "length ds < 2 ^ 32" using fits_switch [OF fit] by simp
    have labs: "labels_ok ds" using lab ds by (simp add: labels_ok_tests)
    have "yields (bindc (add_case ctx sc ds) (\<lambda>cs2.
        bindc (open_case ctx cs2) (\<lambda>cs3.
        bindc (remove_case ctx cs3) (\<lambda>cs4.
        bindc (mutate_expr map_over kids ctx sc d) (\<lambda>d'.
        retc (SwitchStatement d' cs4)))))) (\<lambda>s'. legal_stmt C V s' \<and> dset [s'] \<subseteq> W \<and> names_after s' = {})"
      by (rule yields_bindc [OF add_case_legal [OF s conjunct1 [OF ds] labs n]], rule yields_bindc [OF open_case_legal], blast, blast,
          rule yields_bindc [OF remove_case_legal], blast, blast, rule yields_bindc [OF mutate_expr_legal [OF s d]], rule yields_retc)
        (auto simp: cases_in_def names_after_def)
    then show "makes W (bindc (add_case ctx sc ds) (\<lambda>cs2.
        bindc (open_case ctx cs2) (\<lambda>cs3.
        bindc (remove_case ctx cs3) (\<lambda>cs4.
        bindc (mutate_expr map_over kids ctx sc d) (\<lambda>d'.
        retc (SwitchStatement d' cs4)))))) (\<lambda>W s'. legal_stmt C V s' \<and> dset [s'] \<subseteq> W \<and> names_after s' = {})"
      by (rule makes_weaken [OF makes_yields]) auto
  qed
qed (simp_all add: names_after_def)

lemma cases_step:
  assumes b: "body_walks map_over kids ctx (child_scope sc True (in_loop sc)) b" and cs: "cases_walk map_over kids ctx sc cs"
  shows "cases_walk map_over kids ctx sc (SwitchCase t b # cs)"
  unfolding cases_walk_def mutate_cases.simps
proof (intro allI impI)
  fix C V U assume s: "site_ok C V ctx sc" and l: "legal_cases C V (SwitchCase t b # cs)"
    and U: "V \<union> (\<Union>c \<in> set (SwitchCase t b # cs). dset (case_body c)) \<subseteq> U"
    and fit: "\<forall>c \<in> set (SwitchCase t b # cs). fits (case_body c)"
  have src: "source_of (child_scope sc True l) b = without_closer b" for l
    by (simp add: source_of_def has_closer_def without_closer_def)
  have lb: "legal_list C V (source_of (child_scope sc True (in_loop sc)) b)" using l by (simp add: src)
  show "makes U (bindc (mutate_statements map_over kids ctx (child_scope sc True (in_loop sc)) b) (\<lambda>(b', _).
     bindc (mutate_cases map_over kids ctx sc cs) (\<lambda>cs'. retc (SwitchCase t b' # cs'))))
    (\<lambda>W ds. cases_in C V W ds \<and> map case_test ds = map case_test (SwitchCase t b # cs))"
  proof (rule makes_bindc [OF body_walksD [OF b site_child [OF s] lb]])
    show "V \<union> dset b \<subseteq> U" using U by simp
    show "fits b" using fit by simp
    fix v W1 assume W1: "U \<subseteq> W1" and v: "case v of (out, sc') \<Rightarrow> \<exists>xs. out = xs @ (if has_closer (child_scope sc True (in_loop sc)) b then [BreakStatement] else [])
            \<and> legal_list C V xs \<and> dset xs \<subseteq> W1 \<and> site_ok C (V \<union> lnames xs) ctx sc'"
    obtain b' sc' where v_eq: "v = (b', sc')" by (cases v)
    from v v_eq obtain xs where xs: "b' = xs @ (if has_closer (child_scope sc True (in_loop sc)) b then [BreakStatement] else [])"
      "legal_list C V xs" "dset xs \<subseteq> W1" by auto
    have b': "legal_list C V (without_closer b')" "dset b' \<subseteq> W1"
      using xs legal_list_no_break [OF xs(2)] by auto
    have "makes W1 (mutate_cases map_over kids ctx sc cs) (\<lambda>W ds. cases_in C V W ds \<and> map case_test ds = map case_test cs)"
      by (rule cases_walkD [OF cs s]) (use l U W1 fit in auto)
    then show "makes W1 (case v of (b', _) \<Rightarrow> bindc (mutate_cases map_over kids ctx sc cs) (\<lambda>cs'. retc (SwitchCase t b' # cs')))
      (\<lambda>W ds. cases_in C V W ds \<and> map case_test ds = map case_test (SwitchCase t b # cs))"
      unfolding v_eq prod.case
    proof (rule makes_bindc)
      fix ds W2 assume W2: "W1 \<subseteq> W2" and ds: "cases_in C V W2 ds \<and> map case_test ds = map case_test cs"
      have "dset b' \<subseteq> W2" using b'(2) W2 by blast
      then have "cases_in C V X (SwitchCase t b' # ds)" if "W2 \<subseteq> X" for X
        using ds b'(1) l that by (auto simp: cases_in_def)
      with ds show "makes W2 (retc (SwitchCase t b' # ds)) (\<lambda>W ds. cases_in C V W ds \<and> map case_test ds = map case_test (SwitchCase t b # cs))"
        by (intro makes_retc) simp
    qed
  qed
qed

end

lemma walks:
  "mapper map_over \<Longrightarrow> stmt_walks map_over kids ctx sc s"
  "mapper map_over \<Longrightarrow> body_walks map_over kids ctx sc ss"
  "mapper map_over \<Longrightarrow> list_walks map_over kids ctx several sc ss"
  "mapper map_over \<Longrightarrow> cases_walk map_over kids ctx sc cs"
proof (induction map_over kids ctx sc s and map_over kids ctx sc ss and map_over kids ctx several sc ss and map_over kids ctx sc cs
    rule: mutate_stmt_mutate_statements_mutate_list_mutate_cases.induct)
  case (1 map_over kids ctx sc)
  then show ?case by (simp add: stmt_walks_def)
next
  case (2 map_over kids ctx sc b)
  show ?case unfolding stmt_walks_def mutate_stmt.simps
  proof (intro allI impI, rule keeping_makes)
    fix C V U assume s: "site_ok C V ctx sc" "legal_stmt C V (BlockStatement b)" "V \<union> dset [BlockStatement b] \<subseteq> U" "fits [BlockStatement b]"
    have "fits b" by (rule fits_child [OF s(4)]) simp
    with s show "makes U (block_of (mutate_statements map_over kids ctx (child_scope sc False (in_loop sc)) b))
      (\<lambda>W s'. legal_stmt C V s' \<and> dset [s'] \<subseteq> W \<and> names_after s' = {})"
      by (intro makes_weaken [OF block_makes [OF 2(1) [OF 2(2)] site_child [OF s(1)]]]) auto
  qed (simp_all add: names_after_def)
next
  case (3 map_over kids ctx sc t c a)
  show ?case by (rule mapper.if_walks [OF 3(3) 3(1) [OF 3(3)] 3(2)]) (use 3(3) in auto)
next
  case (4 map_over kids ctx sc t b)
  show ?case
    by (rule loop_walks [OF 4(1) [OF 4(2)] mutate_stmt.simps(4)])
      (auto simp: names_after_def intro: fits_child)
next
  case (5 map_over kids ctx sc b t)
  show ?case
    by (rule loop_walks [OF 5(1) [OF 5(2)] mutate_stmt.simps(5)])
      (auto simp: names_after_def intro: fits_child)
next
  case (6 map_over kids ctx sc i t u b)
  then show ?case by (simp add: mapper.for_walks)
next
  case (7 map_over kids ctx sc d cs)
  then show ?case by (simp add: mapper.switch_walks)
next
  case (8 map_over kids ctx sc ds)
  then show ?case by (simp add: mapper.decl_walks)
next
  case (9 map_over kids ctx sc a)
  show ?case
  proof (rule stmt_plain [OF _ mutate_stmt.simps(9)])
    fix C V assume s: "site_ok C V ctx sc" and l: "legal_stmt C V (ReturnStatement a)"
    from l obtain e where a: "a = Some e" "legal_expr C V e" by (cases a) auto
    show "yields (bindc (case a of None \<Rightarrow> build sc 2 | Some e \<Rightarrow> mutate_expr map_over kids ctx sc e) (\<lambda>e'. retc (ReturnStatement (Some e'))))
      (\<lambda>x. legal_stmt C V x \<and> dset [x] = {} \<and> names_after x = {})"
      unfolding a(1) option.case
      by (rule yields_bindc [OF mapper.mutate_expr_legal [OF 9 s a(2)]], rule yields_retc) (simp add: names_after_def)
  qed (simp add: names_after_def)
next
  case (10 map_over kids ctx sc e)
  show ?case
  proof (rule stmt_plain [OF _ mutate_stmt.simps(10)])
    fix C V assume s: "site_ok C V ctx sc" and l: "legal_stmt C V (ExpressionStatement e)"
    then have e: "legal_expr C V e" by simp
    show "yields (bindc (mutate_expr map_over kids ctx sc e) (\<lambda>e'. retc (ExpressionStatement e')))
      (\<lambda>x. legal_stmt C V x \<and> dset [x] = {} \<and> names_after x = {})"
      by (rule yields_bindc [OF mapper.mutate_expr_legal [OF 10 s e]], rule yields_retc) (simp add: names_after_def)
  qed (simp add: names_after_def)
next
  case (11 map_over kids ctx sc ss)
  show ?case unfolding body_walks_def mutate_statements.simps
  proof (intro allI impI, rule finish_makes, rule list_walksD [OF 11(1) [OF 11(2)]])
    fix C V U assume "V \<union> dset ss \<subseteq> U" "fits ss"
    then show "V \<union> dset (source_of sc ss) \<subseteq> U" "fits (source_of sc ss)"
      using dset_source [of sc ss] fits_source by auto
  qed
next
  case (12 map_over kids ctx several sc)
  show ?case unfolding list_walks_def mutate_list.simps by (auto intro: makes_retc)
next
  case (13 map_over kids ctx several sc s ss)
  show ?case by (rule list_step) (use 13 in auto)
next
  case (14 map_over kids ctx sc)
  show ?case unfolding cases_walk_def mutate_cases.simps by (auto intro!: makes_retc simp: cases_in_def simp del: retc_apply)
next
  case (15 map_over kids ctx sc t b cs)
  then show ?case by (simp add: mapper.cases_step)
qed

subsection \<open>Whole programs\<close>

definition more_callees :: "callees \<Rightarrow> callees \<Rightarrow> bool" where
  "more_callees C D \<longleftrightarrow> (\<forall>f k. C f k \<longrightarrow> D f k)"

lemma legal_expr_callees: "legal_expr C V e \<Longrightarrow> more_callees C D \<Longrightarrow> legal_expr D V e"
  by (induction e) (auto simp: list_all_iff more_callees_def)

lemma legal_opt_callees: "legal_opt C V x \<Longrightarrow> more_callees C D \<Longrightarrow> legal_opt D V x"
  by (auto simp: legal_opt_def legal_expr_callees split: option.splits)

lemma legal_decls_callees: "legal_decls C V ds \<Longrightarrow> more_callees C D \<Longrightarrow> legal_decls D V ds"
  by (induction ds arbitrary: V) (auto intro: legal_opt_callees)

lemma legal_init_callees: "legal_init C V i \<Longrightarrow> more_callees C D \<Longrightarrow> legal_init D V i"
  by (auto simp: legal_init_def legal_decls_callees legal_expr_callees split: option.splits for_init.splits)

lemma legal_callees:
  "legal_stmt C V s \<Longrightarrow> more_callees C D \<Longrightarrow> legal_stmt D V s"
  "legal_list C V ss \<Longrightarrow> more_callees C D \<Longrightarrow> legal_list D V ss"
  "legal_cases C V cs \<Longrightarrow> more_callees C D \<Longrightarrow> legal_cases D V cs"
  by (induction C V s and C V ss and C V cs rule: legal_stmt_legal_list_legal_cases.induct)
    (auto intro: legal_expr_callees legal_opt_callees legal_init_callees legal_decls_callees split: option.splits)

lemma may_call_any: "more_callees (may_call gen i) any_callee"
  by (auto simp: more_callees_def any_callee_def may_call_def in_callable_from)

lemma legal_donor: "legal_expr (may_call gen i) V e \<Longrightarrow> donor_ok e"
  unfolding donor_ok_def using legal_expr_mono [OF legal_expr_callees [OF _ may_call_any] subset_UNIV] .

lemma harvest_donors:
  assumes "walker kids" and "legal_program gen"
  shows "list_all donor_ok (harvest kids gen)"
proof -
  have "donor_ok e" if p: "p \<in> set gen" and e: "e \<in> set (each_expression kids (proc_body p))" "donates e" for p e
  proof -
    from p obtain i where i: "i < length gen" "p = gen ! i" by (metis in_set_conv_nth)
    with assms(2) have "all_legal (may_call gen i) (proc_body p)"
      by (auto simp: legal_program_def intro: legal_all)
    moreover from e(1) obtain s x where "s \<in> set (each_statement (proc_body p))" "x \<in> set (child_expressions s)"
      "e \<in> set (each_sub_expression kids x)" by (auto simp: each_expression_def)
    ultimately obtain V where V: "legal_expr (may_call gen i) V x" "e \<in> set (each_sub_expression kids x)"
      by (auto simp: all_legal_def)
    from walker.each_sub_expression_only [OF assms(1) V(2)] e(2) have "sub_expr e x" by (auto simp: donates_def)
    from legal_donor [OF legal_sub [OF this V(1)]] show ?thesis .
  qed
  then show ?thesis by (auto simp: list_all_iff harvest_def)
qed

definition closed_body :: "stmt list \<Rightarrow> bool" where
  "closed_body b \<longleftrightarrow> b \<noteq> [] \<and> (valued_return (last b) \<or> is_trap_call (last b))"

lemma close_legal:
  assumes s: "site_ok C (V \<union> lnames body) ctx sc" and l: "legal_list C V body"
  shows "yields (close_with_return body sc) (\<lambda>b. legal_list C V b \<and> closed_body b)"
  unfolding close_with_return_def
proof (rule yields_if)
  show "yields (bindc (build sc 2) (\<lambda>e. retc (body @ [ReturnStatement (Some e)]))) (\<lambda>b. legal_list C V b \<and> closed_body b)"
    by (rule yields_bindc [OF site_build [OF s]], rule yields_retc) (use l in \<open>simp add: legal_list_app closed_body_def\<close>)
qed (auto intro: yields_retc simp: l closed_body_def)

lemma proc_site:
  assumes "callees_ok C ctx" and "list_all donor_ok (donors ctx)"
  shows "site_ok C (set args) ctx (proc_scope args)"
  using assms by (auto simp: site_ok_def scope_in_def proc_scope_def arg_vars_def)

lemma may_call_callees: "callees_ok (may_call gen i) \<lparr>callable = callable_from gen i, donors = ds, rate = r, name_prefix = p\<rparr>"
  by (auto simp: callees_ok_def may_call_def)

lemma names_of_proc: "p \<in> set gen \<Longrightarrow> set (proc_args p) \<union> dset (proc_body p) \<subseteq> set (names_of kids gen)"
  by (auto simp: names_of_def dset_def)

text \<open>A procedure of the mutant: the same parameters, a legal and closed body.\<close>

definition mutant_of :: "gen_program \<Rightarrow> nat \<Rightarrow> gen_proc \<Rightarrow> bool" where
  "mutant_of gen i p \<longleftrightarrow> proc_args p = proc_args (gen ! i)
     \<and> legal_list (may_call gen i) (set (proc_args p)) (proc_body p) \<and> closed_body (proc_body p)"

lemma mutate_proc_makes:
  assumes m: "mapper map_over" and legal: "legal_program gen" and ds: "list_all donor_ok ds"
    and i: "i < length gen" and fit: "fits (proc_body (gen ! i))" and U: "set (names_of kids gen) \<subseteq> U"
  shows "makes U (mutate_proc map_over kids gen r ds i) (\<lambda>W. mutant_of gen i)"
  unfolding mutate_proc_def Let_def
proof (rule makes_bind_yields [OF yields_new_ctx])
  let ?p = "gen ! i" and ?ctx = "\<lparr>callable = callable_from gen i, donors = ds, rate = r, name_prefix = CHR ''v''\<rparr>"
  fix W0 assume W0: "U \<subseteq> W0"
  have site: "site_ok (may_call gen i) (set (proc_args ?p)) ?ctx (proc_scope (proc_args ?p))"
    by (rule proc_site [OF may_call_callees]) (simp add: ds)
  have out: "source_of (proc_scope args) b = b" "has_closer (proc_scope args) b = False" for args b
    by (simp_all add: source_of_def has_closer_def proc_scope_def)
  have body: "legal_list (may_call gen i) (set (proc_args ?p)) (source_of (proc_scope (proc_args ?p)) (proc_body ?p))"
    using legal i by (simp add: out legal_program_def)
  have U0: "set (proc_args ?p) \<union> dset (proc_body ?p) \<subseteq> W0"
    using names_of_proc [OF nth_mem [OF i], of kids] U W0 by blast
  show "makes W0 (bindc (mutate_statements map_over kids ?ctx (proc_scope (proc_args ?p)) (proc_body ?p)) (\<lambda>(body, sc).
         bindc (close_with_return body sc) (\<lambda>body'. retc \<lparr>proc_args = proc_args ?p, proc_body = body'\<rparr>))) (\<lambda>W. mutant_of gen i)"
  proof (rule makes_bindc [OF body_walksD [OF walks(2) [OF m] site body U0 fit]])
    fix v W assume "case v of (out, sc') \<Rightarrow> \<exists>xs. out = xs @ (if has_closer (proc_scope (proc_args ?p)) (proc_body ?p) then [BreakStatement] else [])
       \<and> legal_list (may_call gen i) (set (proc_args ?p)) xs \<and> dset xs \<subseteq> W
       \<and> site_ok (may_call gen i) (set (proc_args ?p) \<union> lnames xs) ?ctx sc'"
    then obtain b sc where v: "v = (b, sc)" and b: "legal_list (may_call gen i) (set (proc_args ?p)) b"
      "site_ok (may_call gen i) (set (proc_args ?p) \<union> lnames b) ?ctx sc"
      by (cases v) (auto simp: out)
    have "yields (bindc (close_with_return b sc) (\<lambda>body'. retc \<lparr>proc_args = proc_args ?p, proc_body = body'\<rparr>)) (mutant_of gen i)"
      by (rule yields_bindc [OF close_legal [OF b(2,1)]], rule yields_retc) (simp add: mutant_of_def)
    then show "makes W (case v of (body, sc) \<Rightarrow> bindc (close_with_return body sc)
       (\<lambda>body'. retc \<lparr>proc_args = proc_args ?p, proc_body = body'\<rparr>)) (\<lambda>W. mutant_of gen i)"
      unfolding v prod.case by (rule makes_yields)
  qed
qed

lemma makes_seqc:
  assumes "\<And>i W. i \<in> set is \<Longrightarrow> U \<subseteq> W \<Longrightarrow> makes W (m i) (\<lambda>W. P i)"
  shows "makes U (seqc (map m is)) (\<lambda>W. list_all2 P is)"
  using assms
proof (induction "is" arbitrary: U)
  case (Cons i "is")
  show ?case unfolding list.map seqc.simps
  proof (rule makes_bindc [OF Cons.prems])
    fix x W assume W: "U \<subseteq> W" and x: "P i x"
    have "makes W (seqc (map m is)) (\<lambda>W. list_all2 P is)"
      by (rule Cons.IH) (use Cons.prems W in auto)
    then show "makes W (bindc (seqc (map m is)) (\<lambda>xs. retc (x # xs))) (\<lambda>W. list_all2 P (i # is))"
      by (rule makes_bindc) (use x in \<open>auto intro!: makes_retc simp del: retc_apply\<close>)
  qed simp_all
qed (simp add: makes_retc del: retc_apply)

lemma callable_same:
  assumes "map proc_args ps = map proc_args qs"
  shows "callable_from ps i = callable_from qs i"
proof -
  have len: "length ps = length qs" using assms by (metis length_map)
  have "length (proc_args (ps ! k)) = length (proc_args (qs ! k))" if "k < length qs" for k
    using arg_cong [OF assms, of "\<lambda>xs. length (xs ! k)"] that len by simp
  with len show ?thesis by (auto simp: callable_from_def)
qed

lemma may_call_same: "map proc_args ps = map proc_args qs \<Longrightarrow> may_call ps i = may_call qs i"
  using callable_same [of ps qs i] by (simp add: may_call_def fun_eq_iff)

lemma may_call_append: "more_callees (may_call ps i) (may_call (ps @ [q]) i)"
  unfolding more_callees_def may_call_def
proof (intro allI impI, elim disjE)
  fix f k assume "(f, k) \<in> set (callable_from ps i)"
  then obtain j where "i < j" "j < length ps" "f = proc_name j" "k = length (proc_args (ps ! j))"
    by (auto simp: in_callable_from)
  then have "(f, k) \<in> set (callable_from (ps @ [q]) i)"
    by (auto simp: in_callable_from nth_append intro!: exI [of _ j])
  then show "builtin_ok f k \<or> (f, k) \<in> set (callable_from (ps @ [q]) i)" ..
qed simp

definition good_program :: "gen_program \<Rightarrow> bool" where
  "good_program gen \<longleftrightarrow> legal_program gen \<and> (\<forall>p \<in> set gen. closed_body (proc_body p))"

lemma good_program_iff: "good_program gen \<longleftrightarrow> gen \<noteq> [] \<and> (\<forall>i < length gen. mutant_of gen i (gen ! i))"
  by (auto simp: good_program_def legal_program_def mutant_of_def all_set_conv_all_nth)

lemma mutants_good:
  assumes gen: "gen \<noteq> []" and ps: "list_all2 (mutant_of gen) [0 ..< length gen] ps"
  shows "good_program ps"
proof -
  have len: "length ps = length gen" using list_all2_lengthD [OF ps] by simp
  have each: "mutant_of gen i (ps ! i)" if "i < length gen" for i
    using list_all2_nthD [OF ps, of i] that by simp
  then have "map proc_args ps = map proc_args gen"
    by (intro nth_equalityI) (simp_all add: len mutant_of_def)
  note same = may_call_same [OF this]
  have "mutant_of ps i (ps ! i)" if "i < length gen" for i
    using each [OF that] by (metis mutant_of_def same)
  with gen len show ?thesis unfolding good_program_iff by auto
qed

lemma unshift_good:
  assumes good: "good_program gen" and i: "i < length gen" and s: "legal_stmt (may_call gen i) (set (proc_args (gen ! i))) s"
    "names_after s = {}"
  shows "good_program (gen[i := unshift s (gen ! i)])"
proof -
  let ?new = "gen[i := unshift s (gen ! i)]"
  have same: "map proc_args ?new = map proc_args gen"
    by (simp add: map_update unshift_def list_update_same_conv i)
  have "mutant_of ?new j (?new ! j)" if "j < length gen" for j
    using good that s i unfolding good_program_iff mutant_of_def may_call_same [OF same]
    by (cases "i = j") (auto simp: unshift_def closed_body_def)
  with good show ?thesis by (auto simp: good_program_iff)
qed

lemma append_good:
  assumes good: "good_program gen" and l: "legal_list builtin_ok (set (proc_args q)) (proc_body q)" "closed_body (proc_body q)"
  shows "good_program (gen @ [q])"
proof -
  have "mutant_of (gen @ [q]) j ((gen @ [q]) ! j)" if j: "j < Suc (length gen)" for j
  proof (cases "j < length gen")
    case True
    with good have "legal_list (may_call gen j) (set (proc_args (gen ! j))) (proc_body (gen ! j))" "closed_body (proc_body (gen ! j))"
      by (auto simp: good_program_iff mutant_of_def)
    with True legal_callees(2) [OF _ may_call_append [of gen j q]] show ?thesis by (simp add: mutant_of_def nth_append)
  next
    case False
    with j have "j = length gen" by simp
    moreover have "more_callees builtin_ok (may_call (gen @ [q]) j)" by (simp add: more_callees_def may_call_def)
    ultimately show ?thesis using l legal_callees(2) [OF l(1)] by (simp add: mutant_of_def)
  qed
  then show ?thesis by (simp add: good_program_iff)
qed

lemma times_fresh: "makes U (times k (fresh ctx)) (\<lambda>W xs. length xs = k)"
proof (induction k arbitrary: U)
  case (Suc k)
  show ?case unfolding times.simps
    by (rule makes_bindc [OF fresh_makes], rule makes_bindc [OF Suc.IH], rule makes_retc) simp
qed (simp add: makes_retc del: retc_apply)

lemma grow_makes:
  assumes good: "good_program ps"
  shows "makes U (grow_graph r ds ps) (\<lambda>W. good_program)"
  unfolding grow_graph_def Let_def
proof (rule makes_bind_yields [OF yields_drawn [OF draws_between]], simp, rule makes_bindc [OF times_fresh])
  fix arity :: int and W1 W2 and args :: "string list" assume args: "length args = nat arity"
  let ?ctx = "\<lparr>callable = [], donors = [], rate = r, name_prefix = CHR ''v''\<rparr>"
  let ?n = "length ps"
  have site: "site_ok builtin_ok (set as) ?ctx (proc_scope as)" for as
    by (rule proc_site) (auto simp: callees_ok_def)
  have n: "0 < int ?n" using good by (auto simp: good_program_iff)
  show "makes W2 (bindc (build (proc_scope args) 2) (\<lambda>e. bindc (drawn (rng_int (int ?n))) (\<lambda>from.
      bindc (times (nat arity) (build (proc_scope (proc_args ((ps @ [\<lparr>proc_args = args, proc_body = [ReturnStatement (Some e)]\<rparr>]) ! nat from))) 1)) (\<lambda>vals.
        retc ((ps @ [\<lparr>proc_args = args, proc_body = [ReturnStatement (Some e)]\<rparr>])[nat from :=
          unshift (ExpressionStatement (CallExpression (proc_name ?n) vals)) ((ps @ [\<lparr>proc_args = args, proc_body = [ReturnStatement (Some e)]\<rparr>]) ! nat from)])))))
      (\<lambda>W. good_program)"
  proof (rule makes_bind_yields [OF site_build [OF site]], rule makes_bind_yields [OF yields_drawn [OF draws_int [OF n]]],
      rule makes_bind_yields [OF yields_times [OF site_build [OF site]]], rule makes_retc)
    fix e and at :: int and vals
    assume e: "legal_expr builtin_ok (set args) e" and f: "0 \<le> at \<and> at < int ?n"
    let ?grown = "ps @ [\<lparr>proc_args = args, proc_body = [ReturnStatement (Some e)]\<rparr>]"
    assume vals: "length vals = nat arity \<and> list_all (legal_expr builtin_ok (set (proc_args (?grown ! nat at)))) vals"
    have "good_program ?grown" by (rule append_good [OF good]) (use e in \<open>simp_all add: closed_body_def\<close>)
    moreover have "nat at < ?n" using f by linarith
    moreover have "legal_stmt (may_call ?grown (nat at)) (set (proc_args (?grown ! nat at))) (ExpressionStatement (CallExpression (proc_name ?n) vals))"
    proof -
      have "more_callees builtin_ok (may_call ?grown (nat at))" by (simp add: more_callees_def may_call_def)
      then have "list_all (legal_expr (may_call ?grown (nat at)) (set (proc_args (?grown ! nat at)))) vals"
        using vals legal_expr_callees by (auto simp: list_all_iff)
      moreover have "(proc_name ?n, length vals) \<in> set (callable_from ?grown (nat at))"
        using \<open>nat at < ?n\<close> vals args by (auto simp: in_callable_from intro: exI [of _ ?n])
      ultimately show ?thesis by (simp add: may_call_def)
    qed
    ultimately show "good_program (?grown[nat at := unshift (ExpressionStatement (CallExpression (proc_name ?n) vals)) (?grown ! nat at)])"
      by (intro unshift_good) (simp_all add: names_after_def)
  qed
qed

lemma mutate_good:
  assumes w: "walker kids" and m: "mapper map_over" and legal: "legal_program gen"
    and fit: "\<forall>p \<in> set gen. fits (proc_body p)" and extra: "list_all donor_ok extra"
  shows "\<exists>p. mutate map_over kids gen seed r extra = Inr p \<and> good_program p"
proof -
  let ?r = "case r of None \<Rightarrow> default_rate | Some x \<Rightarrow> x" and ?U = "set (names_of kids gen)"
  have ds: "list_all donor_ok (harvest kids gen @ extra)" using harvest_donors [OF w legal] extra by simp
  have procs: "makes ?U (seqc (map (mutate_proc map_over kids gen ?r (harvest kids gen @ extra)) [0 ..< length gen]))
    (\<lambda>W. list_all2 (mutant_of gen) [0 ..< length gen])"
    by (rule makes_seqc, rule mutate_proc_makes [OF m legal ds]) (use fit in auto)
  have gen: "gen \<noteq> []" using legal by (simp add: legal_program_def)
  have "makes ?U (mutate_run map_over kids gen ?r extra) (\<lambda>W. good_program)"
    unfolding mutate_run_def Let_def
    by (rule makes_bindc [OF procs], rule makes_bind_yields [OF yields_draw(1)], rule makes_if,
        rule grow_makes [OF mutants_good [OF gen]], assumption, rule makes_retc, rule mutants_good [OF gen])
  from makesD [OF this, of "gen_start kids gen seed"] show ?thesis
    by (auto simp: mutate_def gen_start_def)
qed



end
