(* ===== verification/Mutate_Filter.thy ===== *)
theory Mutate_Filter
  imports Mutate_Walk
begin

section \<open>Filtered mutants, inflated programs\<close>

text \<open>
  The two generators the fuzzer calls, \<^verbatim>\<open>mutateSequenced\<close> and \<^verbatim>\<open>inflateSequenced\<close>: the
  re-rolling loop over the unsequenced-effect filter never throws on legal candidates and
  returns the first that passes, and inflating a program keeps it legal.
\<close>

subsection \<open>The filter does not throw\<close>

lemma legal_prints: "legal_expr C V e \<Longrightarrow> \<exists>t. print_expr e = Inr t"
proof (induction e)
  case (Literal v)
  then show ?case by (simp add: print_literal_def word_range_def Let_def)
next
  case (UpdateExpression op pre e)
  then show ?case by (cases e) auto
next
  case (CallExpression f args)
  then have "\<forall>x \<in> set args. \<exists>t. print_expr x = Inr t" by (simp add: list_all_iff)
  then have "map_r print_expr args = Inr (map (\<lambda>x. SOME t. print_expr x = Inr t) args)"
    by (intro map_r_total) (auto intro: someI_ex)
  then show ?case by simp
qed auto

definition reported :: "ub_error + 'a \<Rightarrow> bool" where
  "reported r \<longleftrightarrow> (\<forall>msg. r \<noteq> Inl (PrintError msg))"

lemma reported_simps [simp]: "reported (Inr v)" "reported (Inl (Unsequenced t))" "\<not> reported (Inl (PrintError m))"
  by (simp_all add: reported_def)

lemma reported_bindr: "reported r \<Longrightarrow> (\<And>v. r = Inr v \<Longrightarrow> reported (f v)) \<Longrightarrow> reported (bindr r f)"
  by (cases r) (auto simp: reported_def)

lemma reported_map_r: "(\<And>x. x \<in> set xs \<Longrightarrow> reported (f x)) \<Longrightarrow> reported (map_r f xs)"
  by (induction xs) (auto intro!: reported_bindr)

lemma legal_unsequenced: "legal_expr C V e \<Longrightarrow> reported (Inl (unsequenced e))"
  using legal_prints [of C V e] by (auto simp: unsequenced_def)

lemma legal_reported: "legal_expr C V e \<Longrightarrow> reported (analyze_expr sums e)"
proof (induction e)
  case (UpdateExpression op pre e)
  then show ?case by (cases e) auto
next
  case (BinaryExpression op l r)
  then show ?case using legal_unsequenced [OF BinaryExpression.prems] by (auto intro!: reported_bindr)
next
  case (CallExpression f args)
  then have "reported (map_r (analyze_expr sums) args)"
    by (intro reported_map_r) (simp add: list_all_iff)
  then show ?case using legal_unsequenced [OF CallExpression.prems] by (auto intro!: reported_bindr)
qed (auto intro!: reported_bindr)

lemma body_reported: "all_legal C body \<Longrightarrow> reported (analyze_body sums body)"
  unfolding analyze_body_def all_legal_def
  by (intro reported_bindr reported_map_r) (auto intro: legal_reported)

lemma summarize_reported:
  assumes "\<And>i. i < length gen \<Longrightarrow> all_legal (C i) (proc_body (gen ! i))"
  shows "n \<le> length gen \<Longrightarrow> reported (summarize_down kids gen n sums)"
proof (induction n arbitrary: sums)
  case (Suc n)
  have "reported (analyze_body sums (proc_body (gen ! n)))"
    by (rule body_reported [OF assms]) (use Suc.prems in simp)
  then have "reported (summarize_proc kids sums (proc_body (gen ! n)))"
    unfolding summarize_proc_def
    by (intro reported_bindr) (auto split: sum.splits ub_error.splits)
  then show ?case unfolding summarize_down.simps using Suc by (intro reported_bindr) auto
qed simp

lemma analyze_returns:
  assumes "legal_program gen"
  shows "\<exists>site. analyze kids gen = Inr site"
proof -
  have all: "all_legal (may_call gen i) (proc_body (gen ! i))" if "i < length gen" for i
    using assms that by (auto simp: legal_program_def intro: legal_all)
  have "reported (bindr (summarize kids gen) (\<lambda>sums. map_r (\<lambda>p. analyze_body sums (proc_body p)) gen))"
    unfolding summarize_def using summarize_reported [OF all order_refl]
    by (intro reported_bindr reported_map_r) (auto simp: in_set_conv_nth intro: body_reported [OF all])
  then show ?thesis
    by (auto simp: analyze_def reported_def split: sum.splits ub_error.splits)
qed

lemma re_roll_returns:
  assumes "\<And>a. a \<in> set as \<Longrightarrow> \<exists>p. candidate a = Inr p \<and> legal_program p"
  shows "\<exists>res. re_roll kids candidate as = Inr res
    \<and> (\<forall>p. res = Some p \<longrightarrow> (\<exists>a \<in> set as. candidate a = Inr p) \<and> analyze kids p = Inr None)
    \<and> (res = None \<longrightarrow> (\<forall>a \<in> set as. \<exists>p site. candidate a = Inr p \<and> analyze kids p = Inr (Some site)))"
  using assms
proof (induction as)
  case (Cons a as)
  obtain p where p: "candidate a = Inr p" "legal_program p" using Cons.prems by auto
  obtain site where site: "analyze kids p = Inr site" using analyze_returns [OF p(2)] by blast
  show ?case
  proof (cases site)
    case None
    with p(1) site show ?thesis by simp
  next
    case (Some t)
    from Cons obtain res where "re_roll kids candidate as = Inr res"
      "\<forall>p. res = Some p \<longrightarrow> (\<exists>a \<in> set as. candidate a = Inr p) \<and> analyze kids p = Inr None"
      "res = None \<longrightarrow> (\<forall>a \<in> set as. \<exists>p site. candidate a = Inr p \<and> analyze kids p = Inr (Some site))"
      by auto
    with p(1) site Some show ?thesis by auto
  qed
qed simp

lemma below_six:
  "(\<exists>a < 6. P a) \<longleftrightarrow> (\<exists>a \<in> set [0 ..< 6]. P a)" "(\<forall>a < 6. P a) \<longleftrightarrow> (\<forall>a \<in> set [0 ..< 6]. P a)" for P :: "nat \<Rightarrow> bool"
  by (simp_all del: upt_rec_numeral add: Bex_def Ball_def)

text \<open>
  C9. \<^verbatim>\<open>mutateSequenced\<close> on a legal program throws nothing: it returns a legal program whose operands
  are sequenced, one of the six mutants its seed derives, or \<^verbatim>\<open>undefined\<close>, and then only when every
  one of the six is unsequenced.
\<close>
theorem mutate_sequenced_correct:
  assumes "walker kids" and "mapper map_over" and "legal_program gen"
    and "\<forall>p \<in> set gen. fits (proc_body p)" and "list_all donor_ok extra"
  shows "\<exists>res. mutate_sequenced map_over kids gen seed r extra = Inr res
    \<and> (\<forall>p. res = Some p \<longrightarrow> legal_program p \<and> analyze kids p = Inr None
         \<and> (\<exists>a < 6. mutate map_over kids gen (derived_seed 0x9e3779b1 seed a) r extra = Inr p))
    \<and> (res = None \<longrightarrow> (\<forall>a < 6. \<exists>p site. mutate map_over kids gen (derived_seed 0x9e3779b1 seed a) r extra = Inr p
         \<and> analyze kids p = Inr (Some site)))"
proof -
  let ?c = "\<lambda>a. mutate map_over kids gen (derived_seed 0x9e3779b1 seed a) r extra"
  have c: "\<exists>p. ?c a = Inr p \<and> legal_program p" for a
    using mutate_good [OF assms] unfolding good_program_def by blast
  from re_roll_returns [of "[0 ..< 6]" ?c kids, OF c] obtain res where res: "re_roll kids ?c [0 ..< 6] = Inr res"
    "\<forall>p. res = Some p \<longrightarrow> (\<exists>a \<in> set [0 ..< 6]. ?c a = Inr p) \<and> analyze kids p = Inr None"
    "res = None \<longrightarrow> (\<forall>a \<in> set [0 ..< 6]. \<exists>p site. ?c a = Inr p \<and> analyze kids p = Inr (Some site))"
    by blast
  have "legal_program p" if "res = Some p" for p
    using res(2) that c by (metis sum.inject(2))
  with res show ?thesis unfolding mutate_sequenced_def below_six by blast
qed

lemma mutate_sequenced_correct_witness:
  "\<exists>res. mutate_sequenced map_operands operands two_procs 7 None [] = Inr res
    \<and> (case res of None \<Rightarrow> True | Some p \<Rightarrow> analyze operands p = Inr None)"
proof -
  have l: "legal_program two_procs" by code_simp
  have f: "\<forall>p \<in> set two_procs. fits (proc_body p)" by (simp add: two_procs_def fits_def each_of.simps)
  have d: "list_all donor_ok []" by simp
  from mutate_sequenced_correct [OF operand_walk.walker_axioms lr.mapper_axioms l f d, of 7 None]
  show ?thesis by (auto split: option.split)
qed

text \<open>
  C18. The pipeline from the mutator to the evaluator: every mutant of a legal program, whatever the
  seed, evaluates to one of the four outcomes for all arguments and step limits; the evaluator
  never raises a host exception on it.
\<close>
theorem mutant_answers:
  assumes "walker kids" and "mapper map_over" and "legal_program gen"
    and "\<forall>p \<in> set gen. fits (proc_body p)" and "sandbox_ok box"
  shows "\<exists>p. mutate map_over kids gen seed r [] = Inr p \<and>
    (case evaluate (rawmem_config p k) args box of (out, steps, box') \<Rightarrow> (\<exists>v. out = Inr v) \<and> sandbox_ok box')"
proof -
  have "list_all donor_ok []" by simp
  from mutate_good [OF assms(1-4) this] obtain p where "mutate map_over kids gen seed r [] = Inr p" "good_program p" by blast
  with evaluate_total [OF legal_program_wf assms(5), of p k args] show ?thesis
    by (auto simp: good_program_def split: prod.splits)
qed

lemma mutant_answers_witness:
  "\<exists>p. mutate map_operands operands two_procs 7 None [] = Inr p
    \<and> (\<exists>v. fst (evaluate (rawmem_config p 50) [1] rawmem_new) = Inr v)"
proof -
  have l: "legal_program two_procs" and m: "sandbox_ok rawmem_new" by code_simp+
  have f: "\<forall>p \<in> set two_procs. fits (proc_body p)" by (simp add: two_procs_def fits_def each_of.simps)
  from mutant_answers [OF operand_walk.walker_axioms lr.mapper_axioms l f m, of 7 None 50 "[1]"]
  obtain p where "mutate map_operands operands two_procs 7 None [] = Inr p"
    "case evaluate (rawmem_config p 50) [1] rawmem_new of (out, steps, box') \<Rightarrow> (\<exists>v. out = Inr v) \<and> sandbox_ok box'"
    by (elim exE conjE)
  then show ?thesis by (auto split: prod.splits)
qed

subsection \<open>Inflation\<close>

lemma lnames_alone: "lnames [x] = names_after x" by simp

lemma declare_run_makes:
  "site_ok C V ctx sc \<Longrightarrow> V \<subseteq> U \<Longrightarrow> makes U (declare_run ctx k sc) (\<lambda>W (ds, sc'). legal_list C V ds \<and> dset ds \<subseteq> W
    \<and> dset ds \<inter> U = {} \<and> lnames ds = dset ds \<and> site_ok C (V \<union> lnames ds) ctx sc')"
proof (induction k arbitrary: V U sc)
  case 0
  then show ?case by (auto intro!: makes_retc simp del: retc_apply)
next
  case (Suc k)
  show ?case unfolding declare_run.simps
  proof (rule makes_bindc [OF declare_makes [OF Suc.prems]])
    fix v W assume W: "U \<subseteq> W" and v: "case v of (d, sc') \<Rightarrow> \<exists>n. n \<notin> U \<and> n \<in> W \<and> legal_stmt C V d \<and> dset [d] = {n}
      \<and> names_after d = {n} \<and> site_ok C (insert n V) ctx sc' \<and> in_loop sc' = in_loop sc"
    obtain d sc1 where v_eq: "v = (d, sc1)" by (cases v)
    from v v_eq obtain n where n: "n \<notin> U" "n \<in> W" "legal_stmt C V d" "dset [d] = {n}" "names_after d = {n}" "site_ok C (insert n V) ctx sc1"
      by auto
    have "insert n V \<subseteq> W" using n W Suc.prems(2) by auto
    from Suc.IH [OF n(6) this]
    show "makes W (case v of (s, sc1) \<Rightarrow> bindc (declare_run ctx k sc1) (\<lambda>(ss, sc2). retc (s # ss, sc2)))
      (\<lambda>W (ds, sc'). legal_list C V ds \<and> dset ds \<subseteq> W \<and> dset ds \<inter> U = {} \<and> lnames ds = dset ds \<and> site_ok C (V \<union> lnames ds) ctx sc')"
      unfolding v_eq prod.case
    proof (rule makes_bindc)
      fix u W' assume W': "W \<subseteq> W'" and u: "case u of (ds, sc') \<Rightarrow> legal_list C (insert n V) ds \<and> dset ds \<subseteq> W' \<and> dset ds \<inter> W = {}
        \<and> lnames ds = dset ds \<and> site_ok C (insert n V \<union> lnames ds) ctx sc'"
      obtain ds sc2 where u_eq: "u = (ds, sc2)" by (cases u)
      have eq: "dset (d # ds) = insert n (dset ds)" using dset_Cons [of d ds] n(4) by simp
      show "makes W' (case u of (ss, sc2) \<Rightarrow> retc (d # ss, sc2))
        (\<lambda>W (ds, sc'). legal_list C V ds \<and> dset ds \<subseteq> W \<and> dset ds \<inter> U = {} \<and> lnames ds = dset ds \<and> site_ok C (V \<union> lnames ds) ctx sc')"
        unfolding u_eq prod.case
        by (rule makes_retc) (use u u_eq n W W' in \<open>auto simp: eq\<close>)
    qed
  qed
qed

lemma standing_list: "list_all (stands C V {}) ss \<Longrightarrow> legal_list C V ss \<and> dset ss = {} \<and> lnames ss = {}"
proof (induction ss)
  case (Cons s ss)
  then show ?case using dset_Cons [of s ss] by (auto simp: stands_def)
qed simp

lemma inflate_makes:
  assumes legal: "legal_program (entry # others)" and U: "set (names_of kids (entry # others)) \<subseteq> U"
  shows "makes U (inflate_run (entry # others) n) (\<lambda>W p. legal_program p \<and> closed_body (proc_body (hd p)) \<and> length p = Suc (length others))"
proof -
  let ?gen = "entry # others" and ?ctx = "\<lparr>callable = [], donors = [], rate = (0, 1), name_prefix = CHR ''w''\<rparr>"
  let ?C = "may_call ?gen 0" and ?V = "set (proc_args entry)"
  have site: "site_ok ?C ?V ?ctx (proc_scope (proc_args entry))"
    by (rule proc_site) (auto simp: callees_ok_def may_call_def)
  have own: "?V \<union> dset (proc_body entry) \<subseteq> U" using names_of_proc [of entry ?gen kids] U by auto
  have body: "legal_list ?C ?V (proc_body entry)" using legal by (auto simp: legal_program_def)
  have result: "legal_program (\<lparr>proc_args = proc_args entry, proc_body = b\<rparr> # others)" if "legal_list ?C ?V b" for b
  proof -
    have same: "may_call (\<lparr>proc_args = proc_args entry, proc_body = b\<rparr> # others) i = may_call ?gen i" for i
      by (rule may_call_same) simp
    show ?thesis using legal that by (auto simp: legal_program_def same nth_Cons split: nat.split)
  qed
  show ?thesis unfolding inflate_run_def list.case Let_def
  proof (rule makes_bindc [OF declare_run_makes [OF site]])
    show "?V \<subseteq> U" using own by blast
    fix v W assume W: "U \<subseteq> W" and v: "case v of (ds, sc') \<Rightarrow> legal_list ?C ?V ds \<and> dset ds \<subseteq> W
      \<and> dset ds \<inter> U = {} \<and> lnames ds = dset ds \<and> site_ok ?C (?V \<union> lnames ds) ?ctx sc'"
    obtain ds outer where v_eq: "v = (ds, outer)" by (cases v)
    have ds: "legal_list ?C ?V ds" "dset ds \<subseteq> W" "dset ds \<inter> U = {}" "lnames ds = dset ds"
      and site1: "site_ok ?C (?V \<union> lnames ds) ?ctx outer"
      using v unfolding v_eq prod.case by blast+
    let ?V1 = "?V \<union> lnames ds"
    have body1: "legal_list ?C ?V1 (proc_body entry)"
    proof (rule legal_mono(2) [OF body])
      show "?V1 \<inter> dset (proc_body entry) = {}" using legal_disjoint(2) [OF body] ds(3,4) own by auto
    qed simp
    have V1: "?V1 \<subseteq> W" using own W ds(2,4) by auto
    have span: "makes X (bindc (drawn (rng_int 3)) (\<lambda>k.
          bindc (if k = 0 then bindc (build outer 1) (\<lambda>t. retc (IfStatement t (BlockStatement filler) None))
                    else if k = 1 then counted_loop ?ctx filler else counted_do_while ?ctx filler) (\<lambda>span.
             bindc (close_with_return (ds @ span # proc_body entry) outer) (\<lambda>body.
             retc (\<lparr>proc_args = proc_args entry, proc_body = body\<rparr> # others)))))
        (\<lambda>W p. legal_program p \<and> closed_body (proc_body (hd p)) \<and> length p = Suc (length others))"
      if "W \<subseteq> X" and filler: "list_all (stands ?C ?V1 {}) filler" for X filler
    proof (rule makes_bind_yields [OF yields_drawn [OF draws_int]], simp, rule makes_bindc)
      fix k :: int and Y assume Y: "X \<subseteq> Y"
      note fill = standing_list [OF filler]
      have sub: "?V1 \<union> dset filler \<subseteq> Y" using fill V1 \<open>W \<subseteq> X\<close> Y by auto
      have "makes Y (bindc (build outer 1) (\<lambda>t. retc (IfStatement t (BlockStatement filler) None))) (stands ?C ?V1)"
        by (rule makes_bind_yields [OF site_build [OF site1]], rule makes_retc) (use fill in \<open>simp add: stands_def names_after_def\<close>)
      moreover have "makes Y (counted_loop ?ctx filler) (stands ?C ?V1)" by (rule counted_loop_stands) (use fill sub in simp_all)
      moreover have "makes Y (counted_do_while ?ctx filler) (stands ?C ?V1)" by (rule counted_do_while_stands) (use fill sub in simp_all)
      ultimately show "makes Y (if k = 0 then bindc (build outer 1) (\<lambda>t. retc (IfStatement t (BlockStatement filler) None))
                    else if k = 1 then counted_loop ?ctx filler else counted_do_while ?ctx filler) (stands ?C ?V1)" by simp
    next
      fix k Y span Z assume "stands ?C ?V1 Z span"
      then have legal_all: "legal_list ?C ?V (ds @ span # proc_body entry)"
        using ds(1) body1 by (simp add: legal_list_app stands_def)
      have out: "site_ok ?C (?V \<union> lnames (ds @ span # proc_body entry)) ?ctx outer" by (rule site_mono [OF site1]) auto
      have "yields (bindc (close_with_return (ds @ span # proc_body entry) outer) (\<lambda>body.
             retc (\<lparr>proc_args = proc_args entry, proc_body = body\<rparr> # others)))
          (\<lambda>p. legal_program p \<and> closed_body (proc_body (hd p)) \<and> length p = Suc (length others))"
        by (rule yields_bindc [OF close_legal [OF out legal_all]])
          (rule yields_retc, simp add: result)
      then show "makes Z (bindc (close_with_return (ds @ span # proc_body entry) outer) (\<lambda>body.
             retc (\<lparr>proc_args = proc_args entry, proc_body = body\<rparr> # others)))
          (\<lambda>W p. legal_program p \<and> closed_body (proc_body (hd p)) \<and> length p = Suc (length others))"
        by (rule makes_yields)
    qed
    show "makes W (case v of (prologue, outer) \<Rightarrow>
             bindc (times n (side_effect (child_scope outer False (in_loop outer)))) (\<lambda>filler.
             bindc (drawn (rng_int 3)) (\<lambda>k.
             bindc (if k = 0 then bindc (build outer 1) (\<lambda>t. retc (IfStatement t (BlockStatement filler) None))
                    else if k = 1 then counted_loop ?ctx filler
                    else counted_do_while ?ctx filler) (\<lambda>span.
             bindc (close_with_return (prologue @ span # proc_body entry) outer) (\<lambda>body.
             retc (\<lparr>proc_args = proc_args entry, proc_body = body\<rparr> # others))))))
      (\<lambda>W p. legal_program p \<and> closed_body (proc_body (hd p)) \<and> length p = Suc (length others))"
      unfolding v_eq prod.case
      by (rule makes_bind_yields [OF yields_times [OF side_effect_stands [OF site_child [OF site1], where W = "{}"]]]) (rule span; simp)
  qed
qed

lemma inflate_good:
  assumes "legal_program gen"
  shows "\<exists>p. inflate kids gen seed n = Inr p \<and> legal_program p \<and> closed_body (proc_body (hd p)) \<and> length p = length gen"
proof -
  obtain entry others where gen: "gen = entry # others" using assms by (cases gen) (auto simp: legal_program_def)
  from makesD [OF inflate_makes [OF assms [unfolded gen] order_refl [of "set (names_of kids (entry # others))"], of n], of "gen_start kids gen seed"]
  show ?thesis by (auto simp: inflate_def gen_start_def gen)
qed

text \<open>
  C26. \<^verbatim>\<open>inflateSequenced\<close> keeps a program legal: the padded construct, the fresh locals in front of it
  and the closing return leave every name declared before use and every call upward, with a body of
  any length, and what it returns is sequenced.
\<close>
theorem inflate_sequenced_correct:
  assumes "legal_program gen"
  shows "\<exists>res. inflate_sequenced kids gen seed n = Inr res
    \<and> (case res of None \<Rightarrow> True | Some p \<Rightarrow> legal_program p \<and> closed_body (proc_body (hd p)) \<and> length p = length gen
         \<and> analyze kids p = Inr None)"
proof -
  let ?c = "\<lambda>a. inflate kids gen (derived_seed 0x85ebca6b seed a) n"
  have c: "\<exists>p. ?c a = Inr p \<and> legal_program p" for a using inflate_good [OF assms] by blast
  from re_roll_returns [of "[0 ..< 6]" ?c kids, OF c] obtain res where res: "re_roll kids ?c [0 ..< 6] = Inr res"
    "\<forall>p. res = Some p \<longrightarrow> (\<exists>a \<in> set [0 ..< 6]. ?c a = Inr p) \<and> analyze kids p = Inr None"
    by blast
  have "legal_program p \<and> closed_body (proc_body (hd p)) \<and> length p = length gen" if "res = Some p" for p
    using res(2) that inflate_good [OF assms] by (metis sum.inject(2))
  with res show ?thesis unfolding inflate_sequenced_def by (auto split: option.split)
qed

lemma inflate_sequenced_correct_witness:
  "\<exists>res. inflate_sequenced operands two_procs 3 40 = Inr res
    \<and> (case res of None \<Rightarrow> True | Some p \<Rightarrow> legal_program p \<and> analyze operands p = Inr None)"
proof -
  have "legal_program two_procs" by code_simp
  from inflate_sequenced_correct [OF this, of operands 3 40] show ?thesis by (auto split: option.splits)
qed

end
