(* ===== verification/Mutate_Edges.thy ===== *)
theory Mutate_Edges
  imports Mutate_Filter
begin

section \<open>The mutator's fall-throughs and caps\<close>

text \<open>
  What the three edits of a \<^verbatim>\<open>switch\<close> guarantee about fall-through, and two places where the
  walk falls short of what its comments say, each shown on a concrete run: a case closed by
  a \<^verbatim>\<open>return\<close> can lose it, and the height cap does not bound the result.
\<close>

subsection \<open>Fall-through\<close>

text \<open>A clause that runs on must be a labelled one followed by the default or the next label up.\<close>

definition may_run_into :: "switch_case \<Rightarrow> switch_case \<Rightarrow> bool" where
  "may_run_into a b \<longleftrightarrow> case_test a \<noteq> None \<and>
     (case case_test b of
        None \<Rightarrow> True
      | Some (Literal v) \<Rightarrow> (case case_test a of Some (Literal u) \<Rightarrow> v = u + 1 | _ \<Rightarrow> False)
      | Some _ \<Rightarrow> False)"

definition runs_on :: "switch_case \<Rightarrow> switch_case \<Rightarrow> bool" where
  "runs_on a b \<longleftrightarrow> (if falls_into (case_body a) then may_run_into a b else True)"

definition chain_ok :: "switch_case list \<Rightarrow> bool" where
  "chain_ok cs \<longleftrightarrow> successively runs_on cs"

lemma nth_last_take: "0 < i \<Longrightarrow> i \<le> length xs \<Longrightarrow> last (take i xs) = xs ! (i - 1)"
  by (cases i) (simp_all add: take_Suc_conv_app_nth)

lemma chain_split:
  "chain_ok (xs @ ys) \<longleftrightarrow> chain_ok xs \<and> chain_ok ys \<and> (xs = [] \<or> ys = [] \<or> runs_on (last xs) (hd ys))"
  by (simp add: chain_ok_def successively_append_iff)

lemma chain_Cons: "chain_ok (c # cs) \<longleftrightarrow> chain_ok cs \<and> (cs = [] \<or> runs_on c (hd cs))"
  by (cases cs) (auto simp: chain_ok_def)

lemma closed_runs_on: "\<not> falls_into (case_body a) \<Longrightarrow> runs_on a b"
  by (simp add: runs_on_def)

lemma chain_insert:
  assumes "chain_ok cs" and i: "i \<le> length cs" and "i = 0 \<or> \<not> falls_into (case_body (cs ! (i - 1)))" and "\<not> falls_into (case_body c)"
  shows "chain_ok (insert_at i c cs)"
proof -
  have "chain_ok (take i cs)" "chain_ok (drop i cs)"
    using assms(1) chain_split [of "take i cs" "drop i cs"] by simp_all
  moreover have "take i cs = [] \<or> runs_on (last (take i cs)) c"
    using assms(3) i by (cases "i = 0") (auto simp: nth_last_take closed_runs_on)
  ultimately show ?thesis
    using assms(4) by (auto simp: insert_at_def chain_split chain_Cons closed_runs_on)
qed

lemma chain_remove:
  assumes "chain_ok cs" and i: "i < length cs" and "i = 0 \<or> \<not> falls_into (case_body (cs ! (i - 1)))"
  shows "chain_ok (remove_at i cs)"
proof -
  have "cs = take i cs @ cs ! i # drop (Suc i) cs" using i by (simp add: id_take_nth_drop)
  then have "chain_ok (take i cs)" "chain_ok (drop (Suc i) cs)"
    using assms(1) chain_split [of "take i cs" "cs ! i # drop (Suc i) cs"] chain_Cons by metis+
  moreover have "take i cs = [] \<or> runs_on (last (take i cs)) x" for x
    using assms(3) i by (cases "i = 0") (auto simp: nth_last_take closed_runs_on)
  ultimately show ?thesis by (auto simp: remove_at_def chain_split)
qed

lemma chain_open:
  assumes "chain_ok cs" and o: "openable cs i"
  shows "chain_ok (cs[i := SwitchCase (case_test (cs ! i)) (butlast (case_body (cs ! i)))])"
proof -
  let ?c = "SwitchCase (case_test (cs ! i)) (butlast (case_body (cs ! i)))"
  have i: "Suc i < length cs" using o by (simp add: openable_def)
  then have split: "cs = take i cs @ cs ! i # drop (Suc i) cs" and new: "cs[i := ?c] = take i cs @ ?c # drop (Suc i) cs"
    by (simp_all add: id_take_nth_drop upd_conv_take_nth_drop)
  have "runs_on a (cs ! i) = runs_on a ?c" for a by (simp add: runs_on_def may_run_into_def)
  moreover have "runs_on ?c (hd (drop (Suc i) cs))"
    using o i by (auto simp: runs_on_def may_run_into_def openable_def hd_drop_conv_nth split: option.splits expr.splits)
  moreover have "chain_ok (take i cs)" "chain_ok (drop (Suc i) cs)" "take i cs = [] \<or> runs_on (last (take i cs)) (cs ! i)"
    using assms(1) arg_cong [OF split, of chain_ok] by (auto simp: chain_split chain_Cons)
  ultimately show ?thesis unfolding new by (auto simp: chain_split chain_Cons)
qed

lemma side_effect_runs: "yields (side_effect sc) (\<lambda>_. True)"
proof -
  have "site_ok (\<lambda>_ _. True) UNIV \<lparr>callable = [], donors = [], rate = (0, 1), name_prefix = CHR ''v''\<rparr> sc"
    by (simp add: site_ok_def scope_in_def callees_ok_def)
  from yields_weaken [OF side_effect_stands [OF this, where W = UNIV]] show ?thesis by simp
qed

lemma add_case_chain: "chain_ok cs \<Longrightarrow> yields (add_case ctx sc cs) chain_ok"
  unfolding add_case_def Let_def
proof (rule yields_bindc [OF yields_draw(1)], rule yields_if, erule yields_retc, rule yields_bindc [OF yields_count],
    rule yields_bindc [OF side_effect_runs], rule yields_retc)
  fix s
  let ?at = "case find_index (\<lambda>c. case_test c = None) cs of None \<Rightarrow> length cs | Some i \<Rightarrow> i"
  assume "chain_ok cs"
  moreover have "?at \<le> length cs" by (auto split: option.split dest: find_index_Some)
  ultimately show "chain_ok (if ?at = 0 \<or> \<not> falls_into (case_body (cs ! (?at - 1)))
      then insert_at ?at (SwitchCase (Some (lit (int (next_label cs)))) [s, BreakStatement]) cs else cs)"
    by (auto intro!: chain_insert simp: falls_into_def)
qed

lemma yields_picked:
  assumes "yields m Q" and "\<And>i. i < n \<Longrightarrow> P i \<Longrightarrow> yields (f i) Q"
  shows "yields (bindc (drawn (maybe_pick (filter P [0 ..< n]))) (\<lambda>v. case v of None \<Rightarrow> m | Some i \<Rightarrow> f i)) Q"
  by (rule yields_maybe [OF assms(1)]) (use assms(2) in auto)

lemma open_case_chain: "chain_ok cs \<Longrightarrow> yields (open_case ctx cs) chain_ok"
  unfolding open_case_def
  by (rule yields_bindc [OF yields_draw(1)], rule yields_if, erule yields_retc, rule yields_picked, erule yields_retc,
      rule yields_bindc [OF yields_count], rule yields_retc, rule chain_open)

lemma remove_case_chain: "chain_ok cs \<Longrightarrow> yields (remove_case ctx cs) chain_ok"
  unfolding remove_case_def
  by (rule yields_bindc [OF yields_draw(1)], rule yields_if, erule yields_retc, rule yields_picked, erule yields_retc,
      rule yields_bindc [OF yields_count], rule yields_retc, rule chain_remove) (auto simp: removable_def)

text \<open>
  C25. The three edits a mutation makes to the clauses of a \<^verbatim>\<open>switch\<close>, adding a case, opening one and
  removing one, in that order and whatever is drawn, leave a table in which every clause that runs on
  is followed by the default or by the next label up, if it was so before.
\<close>
theorem switch_edits_keep_chain:
  assumes "chain_ok cs"
  shows "\<exists>ds t. bindc (add_case ctx sc cs) (\<lambda>cs2. bindc (open_case ctx cs2) (remove_case ctx)) s = (Inr ds, t) \<and> chain_ok ds"
proof -
  have "yields (bindc (add_case ctx sc cs) (\<lambda>cs2. bindc (open_case ctx cs2) (remove_case ctx))) chain_ok"
    by (rule yields_bindc [OF add_case_chain [OF assms]], rule yields_bindc [OF open_case_chain], assumption,
        rule remove_case_chain)
  then show ?thesis unfolding yields_def by blast
qed

definition two_cases :: "switch_case list" where
  "two_cases = [SwitchCase (Some (Literal 0)) [ExpressionStatement (Literal 1), BreakStatement],
     SwitchCase None [ExpressionStatement (Literal 2), BreakStatement]]"

definition busy_ctx :: mctx where
  "busy_ctx = \<lparr>callable = [], donors = [], rate = (9, 1), name_prefix = CHR ''v''\<rparr>"

lemma switch_edits_keep_chain_witness:
  "\<exists>ds t. bindc (add_case busy_ctx (proc_scope [''a'']) two_cases) (\<lambda>cs2. bindc (open_case busy_ctx cs2) (remove_case busy_ctx))
     (gen_start operands [] 3) = (Inr ds, t) \<and> chain_ok ds"
proof (rule switch_edits_keep_chain)
  show "chain_ok two_cases" by code_simp
qed

subsection \<open>A closer that is not a \<^verbatim>\<open>break\<close>\<close>

text \<open>
  Only a trailing \<^verbatim>\<open>break\<close> is kept in its place. A case that ends in a \<^verbatim>\<open>return\<close> can have it wrapped
  in an \<^verbatim>\<open>if\<close> or dropped, and then it runs on into a case with another label.
\<close>

definition returning_case :: "stmt list" where
  "returning_case = [ReturnStatement (Some (Literal 1))]"

definition plain_ctx :: "expr list \<Rightarrow> mctx" where
  "plain_ctx ds = \<lparr>callable = [], donors = ds, rate = default_rate, name_prefix = CHR ''v''\<rparr>"

lemma return_closer_lost:
  "\<not> falls_into returning_case
    \<and> fst (mutate_statements map_operands operands (plain_ctx []) (child_scope (proc_scope []) True False) returning_case
        (gen_start operands [] 266))
      = Inr ([IfStatement (UnaryExpression Negate (Literal 2)) (BlockStatement returning_case) None],
             child_scope (proc_scope []) True False)
    \<and> falls_into [IfStatement (UnaryExpression Negate (Literal 2)) (BlockStatement returning_case) None]"
proof (intro conjI)
  show "\<not> falls_into returning_case" by (simp add: returning_case_def falls_into_def)
  show "fst (mutate_statements map_operands operands (plain_ctx []) (child_scope (proc_scope []) True False) returning_case
        (gen_start operands [] 266))
      = Inr ([IfStatement (UnaryExpression Negate (Literal 2)) (BlockStatement returning_case) None],
             child_scope (proc_scope []) True False)" by code_simp
  show "falls_into [IfStatement (UnaryExpression Negate (Literal 2)) (BlockStatement returning_case) None]"
    by (simp add: falls_into_def is_trap_call_def)
qed

subsection \<open>The height cap\<close>

text \<open>
  The comment says that both terms of \<^verbatim>\<open>depth + heightOf(inner)\<close> matter, since a short subtree grafted
  deep still makes the whole tree taller. But the recursive call passes no depth, so the term is 0 at
  every site: grafting a donor within the cap two levels down gives an expression above it.
\<close>

definition tower :: "nat \<Rightarrow> expr" where
  "tower n = (UnaryExpression Bang ^^ n) (Identifier ''x'')"

lemma height_cap_exceeded:
  "height_of operands (tower 30) < max_expr_height
    \<and> (case mutate_expr map_operands operands (plain_ctx [tower 30]) (proc_scope [''x'']) (tower 2) (gen_start operands [] 19) of
         (Inl e, t) \<Rightarrow> False | (Inr e, t) \<Rightarrow> max_expr_height < height_of operands e)"
proof
  show "height_of operands (tower 30) < max_expr_height" by code_simp
  show "case mutate_expr map_operands operands (plain_ctx [tower 30]) (proc_scope [''x'']) (tower 2) (gen_start operands [] 19) of
         (Inl e, t) \<Rightarrow> False | (Inr e, t) \<Rightarrow> max_expr_height < height_of operands e" by code_simp
qed

end
