(* ===== verification/Invalid.thy ===== *)
theory Invalid
  imports Legal
begin

section \<open>The invalid lane's breakers (\<^verbatim>\<open>fuzz/ts/gen/invalid.ts\<close>)\<close>

text \<open>
  A breaker takes a program the other lanes accept and violates one named invariant. The code
  clones the program, collects references to the nodes it is after and writes into them; here
  each edit is a function on trees that rewrites the same nodes. Sites are looked for in code
  that can run: in the procedures the entry reaches, and in each list up to the first
  statement that always terminates.
\<close>

subsection \<open>Where a breaker may strike\<close>

definition is_trap :: "stmt \<Rightarrow> bool" where
  "is_trap s = (case s of ExpressionStatement (CallExpression f args) \<Rightarrow> f = ''trap'' | _ \<Rightarrow> False)"

text \<open>
  \<^verbatim>\<open>reachableProcs\<close>: a queue of indices from the entry on. A callee the graph has not got is
  remembered and later dropped.
\<close>

definition callees_at :: "recurse \<Rightarrow> gen_program \<Rightarrow> nat \<Rightarrow> nat list" where
  "callees_at kids gen i = (if i < length gen then callees_of kids (proc_body (gen ! i)) else [])"

definition mentioned :: "recurse \<Rightarrow> gen_program \<Rightarrow> nat set" where
  "mentioned kids gen = (\<Union>p \<in> set gen. set (callees_of kids (proc_body p)))"

lemma callees_at_mentioned: "set (callees_at kids gen i) \<subseteq> mentioned kids gen"
  unfolding callees_at_def mentioned_def using nth_mem by fastforce

lemma finite_mentioned [simp]: "finite (mentioned kids gen)"
  by (simp add: mentioned_def)

function visit_procs :: "recurse \<Rightarrow> gen_program \<Rightarrow> nat list \<Rightarrow> nat list \<Rightarrow> nat list" where
  "visit_procs kids gen seen [] = seen"
| "visit_procs kids gen seen (i # queue) =
     (let new = filter (\<lambda>c. c \<notin> set seen) (callees_at kids gen i)
      in visit_procs kids gen (seen @ new) (queue @ new))"
  by pat_completeness auto

termination
proof (relation "measures [\<lambda>(kids, gen, seen, queue). card (mentioned kids gen - set seen),
    \<lambda>(kids, gen, seen, queue). length queue]")
  fix kids gen and seen queue new :: "nat list" and i
  assume new: "new = filter (\<lambda>c. c \<notin> set seen) (callees_at kids gen i)"
  then have new_in: "set new \<subseteq> mentioned kids gen - set seen" using callees_at_mentioned by fastforce
  show "((kids, gen, seen @ new, queue @ new), (kids, gen, seen, i # queue))
    \<in> measures [\<lambda>(kids, gen, seen, queue). card (mentioned kids gen - set seen),
        \<lambda>(kids, gen, seen, queue). length queue]"
  proof (cases "new = []")
    case False
    with new_in have "mentioned kids gen - set (seen @ new) \<subset> mentioned kids gen - set seen"
      by (cases new) auto
    then have "card (mentioned kids gen - set (seen @ new)) < card (mentioned kids gen - set seen)"
      by (intro psubset_card_mono) simp_all
    then show ?thesis by simp
  qed simp
qed simp

definition reachable_procs :: "recurse \<Rightarrow> gen_program \<Rightarrow> nat list" where
  "reachable_procs kids gen = filter (\<lambda>i. i < length gen) (sort (visit_procs kids gen [0] [0]))"

text \<open>\<^verbatim>\<open>alwaysTerminates\<close> and \<^verbatim>\<open>livePrefix\<close>, whose \<^verbatim>\<open>some\<close> is \<open>some_terminates\<close> (\<open>live_prefix_some\<close>).\<close>

fun always_terminates :: "stmt \<Rightarrow> bool"
  and some_terminates :: "stmt list \<Rightarrow> bool" where
  "always_terminates (ReturnStatement a) = True"
| "always_terminates (BlockStatement b) = some_terminates b"
| "always_terminates (IfStatement t c (Some a)) = (always_terminates c \<and> always_terminates a)"
| "always_terminates s = is_trap s"
| "some_terminates [] = False"
| "some_terminates (s # ss) = (always_terminates s \<or> some_terminates ss)"

fun live_prefix :: "stmt list \<Rightarrow> stmt list" where
  "live_prefix [] = []"
| "live_prefix (s # ss) = s # (if always_terminates s then [] else live_prefix ss)"

lemma live_prefix_some: "some_terminates ss \<longleftrightarrow> list_ex always_terminates (live_prefix ss)"
  by (induction ss) auto

lemma live_prefix_subset: "s \<in> set (live_prefix ss) \<Longrightarrow> s \<in> set ss"
  by (induction ss) (auto split: if_splits)

function live_statements :: "stmt list \<Rightarrow> stmt list" where
  "live_statements body =
     concat (map (\<lambda>s. s # concat (map live_statements (child_bodies s))) (live_prefix body))"
  by pat_completeness auto

termination
proof (relation "measure (size_list size)")
  fix body b s assume "s \<in> set (live_prefix body)" "b \<in> set (child_bodies s)"
  then have "s \<in> set body" "size_list size b \<le> size s"
    using live_prefix_subset size_child_bodies [of b s] by (blast, simp)
  moreover have "s \<in> set body \<Longrightarrow> size s < size_list size body" by (induction body) auto
  ultimately show "(b, body) \<in> measure (size_list size)" by simp
qed simp

declare live_statements.simps [simp del]

text \<open>
  \<^verbatim>\<open>walkExpr\<close>, pre-order; \<open>certain\<close> leaves out operands an evaluation may never reach. The left
  side of an assignment is visited as the identifier it is.
\<close>

fun walk_expr :: "bool \<Rightarrow> expr \<Rightarrow> expr list" where
  "walk_expr certain (BinaryExpression op l r) =
     BinaryExpression op l r # walk_expr certain l @ walk_expr certain r"
| "walk_expr certain (AssignmentExpression op n r) =
     AssignmentExpression op n r # Identifier n # walk_expr certain r"
| "walk_expr certain (LogicalExpression op l r) =
     LogicalExpression op l r # walk_expr certain l @ (if certain then [] else walk_expr certain r)"
| "walk_expr certain (UnaryExpression op a) = UnaryExpression op a # walk_expr certain a"
| "walk_expr certain (CastExpression t a) = CastExpression t a # walk_expr certain a"
| "walk_expr certain (UpdateExpression op pre a) = UpdateExpression op pre a # walk_expr certain a"
| "walk_expr certain (ConditionalExpression t c a) =
     ConditionalExpression t c a # walk_expr certain t
       @ (if certain then [] else walk_expr certain c @ walk_expr certain a)"
| "walk_expr certain (CallExpression f args) =
     CallExpression f args # concat (map (walk_expr certain) args)"
| "walk_expr certain e = [e]"

text \<open>What \<^verbatim>\<open>allExpressions\<close> takes of one statement, in its order.\<close>

definition live_update :: "stmt \<Rightarrow> expr option \<Rightarrow> expr list" where
  "live_update body u = (if always_terminates body then [] else opt_list u)"

fun taken :: "stmt \<Rightarrow> expr list" where
  "taken (ExpressionStatement e) = [e]"
| "taken (IfStatement t c a) = [t]"
| "taken (WhileStatement t b) = [t]"
| "taken (DoWhileStatement b t) = [t]"
| "taken (ForStatement i t u b) =
     opt_list t @ live_update b u @ (case i of Some (InitDecl ds) \<Rightarrow> decl_inits ds | _ \<Rightarrow> [])"
| "taken (ReturnStatement a) = opt_list a"
| "taken (SwitchStatement d cs) = [d]"
| "taken (VariableDeclaration ds) = decl_inits ds"
| "taken s = []"

definition all_expressions :: "bool \<Rightarrow> stmt list \<Rightarrow> expr list" where
  "all_expressions certain body =
     concat (map (\<lambda>s. concat (map (walk_expr certain) (taken s))) (live_statements body))"

definition live_procs :: "recurse \<Rightarrow> gen_program \<Rightarrow> gen_proc list" where
  "live_procs kids gen = map (\<lambda>i. gen ! i) (reachable_procs kids gen)"

definition pick_proc :: "recurse \<Rightarrow> gen_program \<Rightarrow> nat draw" where
  "pick_proc kids gen =
     (let live = reachable_procs kids gen
      in bindc (rng_int (int (length live))) (\<lambda>k. retc (nth_default 0 live (nat k))))"

subsection \<open>Writing into every site\<close>

text \<open>The expressions \<^verbatim>\<open>walkExpr\<close> visits, each rewritten in place.\<close>

fun edit_expr :: "(expr \<Rightarrow> expr) \<Rightarrow> bool \<Rightarrow> expr \<Rightarrow> expr" where
  "edit_expr f certain (BinaryExpression op l r) =
     f (BinaryExpression op (edit_expr f certain l) (edit_expr f certain r))"
| "edit_expr f certain (AssignmentExpression op n r) = f (AssignmentExpression op n (edit_expr f certain r))"
| "edit_expr f certain (LogicalExpression op l r) =
     f (LogicalExpression op (edit_expr f certain l) (if certain then r else edit_expr f certain r))"
| "edit_expr f certain (UnaryExpression op a) = f (UnaryExpression op (edit_expr f certain a))"
| "edit_expr f certain (CastExpression t a) = f (CastExpression t (edit_expr f certain a))"
| "edit_expr f certain (UpdateExpression op pre a) = f (UpdateExpression op pre (edit_expr f certain a))"
| "edit_expr f certain (ConditionalExpression t c a) =
     f (ConditionalExpression (edit_expr f certain t)
         (if certain then c else edit_expr f certain c) (if certain then a else edit_expr f certain a))"
| "edit_expr f certain (CallExpression p args) = f (CallExpression p (map (edit_expr f certain) args))"
| "edit_expr f certain e = f e"

definition edit_decl :: "(expr \<Rightarrow> expr) \<Rightarrow> declarator \<Rightarrow> declarator" where
  "edit_decl g d = Declarator (var_type d) (decl_name d) (map_option g (decl_init d))"

fun edit_init :: "(expr \<Rightarrow> expr) \<Rightarrow> for_init option \<Rightarrow> for_init option" where
  "edit_init g (Some (InitDecl ds)) = Some (InitDecl (map (edit_decl g) ds))"
| "edit_init g i = i"

fun edit_stmt :: "(expr \<Rightarrow> expr) \<Rightarrow> stmt \<Rightarrow> stmt"
  and edit_list :: "(expr \<Rightarrow> expr) \<Rightarrow> stmt list \<Rightarrow> stmt list"
  and edit_case :: "(expr \<Rightarrow> expr) \<Rightarrow> switch_case \<Rightarrow> switch_case" where
  "edit_stmt g (BlockStatement b) = BlockStatement (edit_list g b)"
| "edit_stmt g (ExpressionStatement e) = ExpressionStatement (g e)"
| "edit_stmt g (ReturnStatement a) = ReturnStatement (map_option g a)"
| "edit_stmt g (VariableDeclaration ds) = VariableDeclaration (map (edit_decl g) ds)"
| "edit_stmt g (IfStatement t c a) = IfStatement (g t) (edit_stmt g c) (map_option (edit_stmt g) a)"
| "edit_stmt g (WhileStatement t b) = WhileStatement (g t) (edit_stmt g b)"
| "edit_stmt g (DoWhileStatement b t) = DoWhileStatement (edit_stmt g b) (g t)"
| "edit_stmt g (ForStatement i t u b) =
     ForStatement (edit_init g i) (map_option g t)
       (if always_terminates b then u else map_option g u) (edit_stmt g b)"
| "edit_stmt g (SwitchStatement d cs) = SwitchStatement (g d) (map (edit_case g) cs)"
| "edit_stmt g BreakStatement = BreakStatement"
| "edit_list g [] = []"
| "edit_list g (s # ss) = edit_stmt g s # (if always_terminates s then ss else edit_list g ss)"
| "edit_case g (SwitchCase t b) = SwitchCase t (edit_list g b)"

text \<open>The loop of the breakers that write into every site the entry reaches.\<close>

definition edit_program :: "recurse \<Rightarrow> (expr \<Rightarrow> bool) \<Rightarrow> (expr \<Rightarrow> expr) \<Rightarrow> bool \<Rightarrow> gen_program \<Rightarrow> gen_program option" where
  "edit_program kids site f certain gen =
     (if list_ex (\<lambda>p. list_ex site (all_expressions certain (proc_body p))) (live_procs kids gen)
      then Some (map (\<lambda>i. if i \<in> set (reachable_procs kids gen)
          then (gen ! i)\<lparr>proc_body :=
            edit_list (edit_expr (\<lambda>e. if site e then f e else e) certain) (proc_body (gen ! i))\<rparr>
          else gen ! i) [0 ..< length gen])
      else None)"

subsection \<open>Writing into one site\<close>

text \<open>
  The victim of the third breaker is one of the identifiers the walk collects. Its number
  counts down along the same walk; \<open>None\<close> is past it.
\<close>

definition unbound_name :: string where
  "unbound_name = ''zzz_unbound''"

definition rename_name :: "string list \<Rightarrow> string \<Rightarrow> nat option \<Rightarrow> string \<times> nat option" where
  "rename_name ns n k =
     (if n \<notin> set ns then (n, k)
      else case k of None \<Rightarrow> (n, None) | Some 0 \<Rightarrow> (unbound_name, None) | Some (Suc j) \<Rightarrow> (n, Some j))"

fun rename_expr :: "string list \<Rightarrow> expr \<Rightarrow> nat option \<Rightarrow> expr \<times> nat option"
  and rename_args :: "string list \<Rightarrow> expr list \<Rightarrow> nat option \<Rightarrow> expr list \<times> nat option" where
  "rename_expr ns (Identifier n) k = (let (n', k1) = rename_name ns n k in (Identifier n', k1))"
| "rename_expr ns (Literal v) k = (Literal v, k)"
| "rename_expr ns (BinaryExpression op l r) k =
     (let (l', k1) = rename_expr ns l k; (r', k2) = rename_expr ns r k1 in (BinaryExpression op l' r', k2))"
| "rename_expr ns (AssignmentExpression op n r) k =
     (let (n', k1) = rename_name ns n k; (r', k2) = rename_expr ns r k1 in (AssignmentExpression op n' r', k2))"
| "rename_expr ns (LogicalExpression op l r) k =
     (let (l', k1) = rename_expr ns l k; (r', k2) = rename_expr ns r k1 in (LogicalExpression op l' r', k2))"
| "rename_expr ns (UnaryExpression op a) k = (let (a', k1) = rename_expr ns a k in (UnaryExpression op a', k1))"
| "rename_expr ns (CastExpression t a) k = (let (a', k1) = rename_expr ns a k in (CastExpression t a', k1))"
| "rename_expr ns (UpdateExpression op pre a) k =
     (let (a', k1) = rename_expr ns a k in (UpdateExpression op pre a', k1))"
| "rename_expr ns (ConditionalExpression t c a) k =
     (let (t', k1) = rename_expr ns t k; (c', k2) = rename_expr ns c k1; (a', k3) = rename_expr ns a k2
      in (ConditionalExpression t' c' a', k3))"
| "rename_expr ns (CallExpression f args) k =
     (let (args', k1) = rename_args ns args k in (CallExpression f args', k1))"
| "rename_args ns [] k = ([], k)"
| "rename_args ns (e # es) k =
     (let (e', k1) = rename_expr ns e k; (es', k2) = rename_args ns es k1 in (e' # es', k2))"

definition rename_opt :: "string list \<Rightarrow> expr option \<Rightarrow> nat option \<Rightarrow> expr option \<times> nat option" where
  "rename_opt ns x k = (case x of None \<Rightarrow> (None, k) | Some e \<Rightarrow> let (e', k1) = rename_expr ns e k in (Some e', k1))"

fun rename_decls :: "string list \<Rightarrow> declarator list \<Rightarrow> nat option \<Rightarrow> declarator list \<times> nat option" where
  "rename_decls ns [] k = ([], k)"
| "rename_decls ns (d # ds) k =
     (let (i, k1) = rename_opt ns (decl_init d) k; (ds', k2) = rename_decls ns ds k1
      in (Declarator (var_type d) (decl_name d) i # ds', k2))"

fun rename_init :: "string list \<Rightarrow> for_init option \<Rightarrow> nat option \<Rightarrow> for_init option \<times> nat option" where
  "rename_init ns (Some (InitDecl ds)) k = (let (ds', k1) = rename_decls ns ds k in (Some (InitDecl ds'), k1))"
| "rename_init ns i k = (i, k)"

fun rename_stmt :: "string list \<Rightarrow> stmt \<Rightarrow> nat option \<Rightarrow> stmt \<times> nat option"
  and rename_list :: "string list \<Rightarrow> stmt list \<Rightarrow> nat option \<Rightarrow> stmt list \<times> nat option"
  and rename_cases :: "string list \<Rightarrow> switch_case list \<Rightarrow> nat option \<Rightarrow> switch_case list \<times> nat option" where
  "rename_stmt ns (BlockStatement b) k = (let (b', k1) = rename_list ns b k in (BlockStatement b', k1))"
| "rename_stmt ns (ExpressionStatement e) k = (let (e', k1) = rename_expr ns e k in (ExpressionStatement e', k1))"
| "rename_stmt ns (ReturnStatement a) k = (let (a', k1) = rename_opt ns a k in (ReturnStatement a', k1))"
| "rename_stmt ns (VariableDeclaration ds) k =
     (let (ds', k1) = rename_decls ns ds k in (VariableDeclaration ds', k1))"
| "rename_stmt ns (IfStatement t c a) k =
     (let (t', k1) = rename_expr ns t k; (c', k2) = rename_stmt ns c k1;
          (a', k3) = (case a of None \<Rightarrow> (None, k2) | Some x \<Rightarrow> let (x', k4) = rename_stmt ns x k2 in (Some x', k4))
      in (IfStatement t' c' a', k3))"
| "rename_stmt ns (WhileStatement t b) k =
     (let (t', k1) = rename_expr ns t k; (b', k2) = rename_stmt ns b k1 in (WhileStatement t' b', k2))"
| "rename_stmt ns (DoWhileStatement b t) k =
     (let (t', k1) = rename_expr ns t k; (b', k2) = rename_stmt ns b k1 in (DoWhileStatement b' t', k2))"
| "rename_stmt ns (ForStatement i t u b) k =
     (let (t', k1) = rename_opt ns t k;
          (u', k2) = (if always_terminates b then (u, k1) else rename_opt ns u k1);
          (i', k3) = rename_init ns i k2; (b', k4) = rename_stmt ns b k3
      in (ForStatement i' t' u' b', k4))"
| "rename_stmt ns (SwitchStatement d cs) k =
     (let (d', k1) = rename_expr ns d k; (cs', k2) = rename_cases ns cs k1 in (SwitchStatement d' cs', k2))"
| "rename_stmt ns BreakStatement k = (BreakStatement, k)"
| "rename_list ns [] k = ([], k)"
| "rename_list ns (s # ss) k =
     (let (s', k1) = rename_stmt ns s k;
          (ss', k2) = (if always_terminates s then (ss, k1) else rename_list ns ss k1)
      in (s' # ss', k2))"
| "rename_cases ns [] k = ([], k)"
| "rename_cases ns (SwitchCase t b # cs) k =
     (let (b', k1) = rename_list ns b k; (cs', k2) = rename_cases ns cs k1 in (SwitchCase t b' # cs', k2))"

text \<open>
  The breakers of a \<^verbatim>\<open>switch\<close> look at every statement in pre-order and edit the first
  \<^verbatim>\<open>switch\<close> that has what they need.
\<close>

type_synonym switch_edit = "switch_case list \<Rightarrow> switch_case list option"

fun edit_switch :: "switch_edit \<Rightarrow> stmt \<Rightarrow> stmt option"
  and edit_switch_in :: "switch_edit \<Rightarrow> stmt list \<Rightarrow> stmt list option"
  and edit_switch_cases :: "switch_edit \<Rightarrow> switch_case list \<Rightarrow> switch_case list option" where
  "edit_switch f (SwitchStatement d cs) =
     (case f cs of
        Some cs' \<Rightarrow> Some (SwitchStatement d cs')
      | None \<Rightarrow> map_option (SwitchStatement d) (edit_switch_cases f cs))"
| "edit_switch f (BlockStatement b) = map_option BlockStatement (edit_switch_in f b)"
| "edit_switch f (IfStatement t c a) =
     (case edit_switch f c of
        Some c' \<Rightarrow> Some (IfStatement t c' a)
      | None \<Rightarrow>
          (case a of None \<Rightarrow> None | Some x \<Rightarrow> map_option (\<lambda>x'. IfStatement t c (Some x')) (edit_switch f x)))"
| "edit_switch f (WhileStatement t b) = map_option (WhileStatement t) (edit_switch f b)"
| "edit_switch f (DoWhileStatement b t) = map_option (\<lambda>b'. DoWhileStatement b' t) (edit_switch f b)"
| "edit_switch f (ForStatement i t u b) = map_option (ForStatement i t u) (edit_switch f b)"
| "edit_switch f s = None"
| "edit_switch_in f [] = None"
| "edit_switch_in f (s # ss) =
     (case edit_switch f s of
        Some s' \<Rightarrow> Some (s' # ss)
      | None \<Rightarrow> map_option (Cons s) (edit_switch_in f ss))"
| "edit_switch_cases f [] = None"
| "edit_switch_cases f (SwitchCase t b # cs) =
     (case edit_switch_in f b of
        Some b' \<Rightarrow> Some (SwitchCase t b' # cs)
      | None \<Rightarrow> map_option (Cons (SwitchCase t b)) (edit_switch_cases f cs))"

text \<open>The loop over the procedures: the first that has a site is edited.\<close>

fun edit_first :: "(stmt list \<Rightarrow> stmt list option) \<Rightarrow> gen_program \<Rightarrow> nat list \<Rightarrow> gen_program option" where
  "edit_first f gen [] = None"
| "edit_first f gen (i # is) =
     (case f (proc_body (gen ! i)) of
        Some b \<Rightarrow> Some (gen[i := (gen ! i)\<lparr>proc_body := b\<rparr>])
      | None \<Rightarrow> edit_first f gen is)"

definition edit_switches :: "recurse \<Rightarrow> switch_edit \<Rightarrow> gen_program \<Rightarrow> gen_program option" where
  "edit_switches kids f gen = edit_first (edit_switch_in f) gen (reachable_procs kids gen)"

definition labelled_at :: "switch_case list \<Rightarrow> nat list" where
  "labelled_at cs = filter (\<lambda>i. case_test (cs ! i) \<noteq> None) [0 ..< length cs]"

definition repeat_label :: switch_edit where
  "repeat_label cs =
     (case labelled_at cs of
        i # j # _ \<Rightarrow> Some (cs[j := SwitchCase (case_test (cs ! i)) (case_body (cs ! j))])
      | _ \<Rightarrow> None)"

fun is_return :: "stmt \<Rightarrow> bool" where
  "is_return (ReturnStatement a) = True"
| "is_return s = False"

definition open_first :: "int \<Rightarrow> switch_edit" where
  "open_first label cs =
     (case labelled_at cs of
        i # j # _ \<Rightarrow>
          (let b = case_body (cs ! i)
           in if b = [] \<or> last b \<noteq> BreakStatement \<or> length b < 2 \<or> is_return (last (butlast b)) then None
              else Some (cs[i := SwitchCase (case_test (cs ! i)) (butlast b),
                            j := SwitchCase (Some (Literal label)) (case_body (cs ! j))]))
      | _ \<Rightarrow> None)"

definition default_runs_on :: switch_edit where
  "default_runs_on cs =
     (case find_index (\<lambda>c. case_test c = None) cs of
        None \<Rightarrow> None
      | Some at \<Rightarrow>
          (let b = case_body (cs ! at); others = remove_at at cs
           in if length cs < 2 \<or> b = [] \<or> last b \<noteq> BreakStatement then None
              else Some (insert_at (length others - 1) (SwitchCase None (butlast b)) others)))"

subsection \<open>The breakers\<close>

definition push_front :: "stmt \<Rightarrow> nat \<Rightarrow> gen_program \<Rightarrow> gen_program" where
  "push_front s i gen = gen[i := (gen ! i)\<lparr>proc_body := s # proc_body (gen ! i)\<rparr>]"

text \<open>\<^verbatim>\<open>g.procs[pickProc(g, rng)]!\<close>, read by all who use it.\<close>

definition at_proc :: "recurse \<Rightarrow> gen_program \<Rightarrow> (nat \<Rightarrow> gen_program option draw) \<Rightarrow> gen_program option draw" where
  "at_proc kids gen f =
     bindc (pick_proc kids gen) (\<lambda>i.
     if i < length gen then f i else throwc ''Cannot read properties of undefined'')"

type_synonym breaker = "recurse \<Rightarrow> gen_program \<Rightarrow> gen_program option draw"

definition mixed_return :: breaker where
  "mixed_return kids gen = at_proc kids gen (\<lambda>i.
     retc (Some (push_front (IfStatement (Literal 1) (BlockStatement [ReturnStatement None]) None) i gen)))"

definition recursive_call :: breaker where
  "recursive_call kids gen = at_proc kids gen (\<lambda>i.
     retc (Some (push_front (ExpressionStatement (CallExpression (proc_name i)
       (map (\<lambda>_. Literal 1) (proc_args (gen ! i))))) i gen)))"

definition known_names :: "gen_proc \<Rightarrow> string list" where
  "known_names p = proc_args p @ declared_names (proc_body p)"

definition known_identifier :: "string list \<Rightarrow> expr \<Rightarrow> bool" where
  "known_identifier ns e = (case e of Identifier n \<Rightarrow> n \<in> set ns | _ \<Rightarrow> False)"

definition unbound_identifier :: breaker where
  "unbound_identifier kids gen = at_proc kids gen (\<lambda>i.
     let p = gen ! i; ns = known_names p;
         idents = filter (known_identifier ns) (all_expressions False (proc_body p))
     in bindc (maybe_pick [0 ..< length idents]) (\<lambda>victim.
        case victim of
          None \<Rightarrow> retc None
        | Some k \<Rightarrow> retc (Some (gen[i := p\<lparr>proc_body := fst (rename_list ns (proc_body p) (Some k))\<rparr>]))))"

definition stray_break :: breaker where
  "stray_break kids gen = at_proc kids gen (\<lambda>i. retc (Some (push_front BreakStatement i gen)))"

definition proc_call :: "expr \<Rightarrow> bool" where
  "proc_call e = (case e of CallExpression f args \<Rightarrow> proc_index f \<noteq> None | _ \<Rightarrow> False)"

fun wrong_arity :: "expr \<Rightarrow> expr" where
  "wrong_arity (CallExpression f args) = CallExpression f (if args \<noteq> [] then butlast args else [Literal 1])"
| "wrong_arity e = e"

definition arity_mismatch :: breaker where
  "arity_mismatch kids gen = retc (edit_program kids proc_call wrong_arity False gen)"

definition any_binary :: "expr \<Rightarrow> bool" where
  "any_binary e = (case e of BinaryExpression op l r \<Rightarrow> True | _ \<Rightarrow> False)"

fun with_operator :: "bin_op \<Rightarrow> expr \<Rightarrow> expr" where
  "with_operator o' (BinaryExpression op l r) = BinaryExpression o' l r"
| "with_operator o' e = e"

definition division_operator :: breaker where
  "division_operator kids gen =
     bindc (chance (5, 10)) (\<lambda>b.
     retc (edit_program kids any_binary (with_operator (if b then Slash else Percent)) False gen))"

definition shift_expr :: "expr \<Rightarrow> bool" where
  "shift_expr e = (case e of BinaryExpression op l r \<Rightarrow> op = Shl \<or> op = Shr | _ \<Rightarrow> False)"

fun with_amount :: "int \<Rightarrow> expr \<Rightarrow> expr" where
  "with_amount v (BinaryExpression op l r) = BinaryExpression op l (Literal v)"
| "with_amount v e = e"

definition shift_amounts :: "int list" where
  "shift_amounts = [32, 33, 64, 255, 0xffffffff]"

definition wide_shift :: breaker where
  "wide_shift kids gen =
     bindc (pick shift_amounts) (\<lambda>v. retc (edit_program kids shift_expr (with_amount v) True gen))"

definition duplicate_label :: breaker where
  "duplicate_label kids gen = retc (edit_switches kids repeat_label gen)"

definition far_fall_through :: breaker where
  "far_fall_through kids gen =
     (if edit_switches kids (open_first 900) gen = None then retc None
      else bindc (rng_int 50) (\<lambda>k. retc (edit_switches kids (open_first (900 + k)) gen)))"

definition default_falls :: breaker where
  "default_falls kids gen = retc (edit_switches kids default_runs_on gen)"

fun call_nobody :: "nat \<Rightarrow> expr \<Rightarrow> expr" where
  "call_nobody n (CallExpression f args) = CallExpression (proc_name (n + 3)) args"
| "call_nobody n e = e"

definition missing_callee :: breaker where
  "missing_callee kids gen = retc (edit_program kids proc_call (call_nobody (length gen)) False gen)"

definition breakers :: "(string \<times> breaker) list" where
  "breakers =
     [(''mixed return arity'', mixed_return),
      (''recursive call'', recursive_call),
      (''unbound identifier'', unbound_identifier),
      (''break outside a switch'', stray_break),
      (''call arity mismatch'', arity_mismatch),
      (''division operator'', division_operator),
      (''shift amount of 32 or more'', wide_shift),
      (''duplicate case label'', duplicate_label),
      (''fall-through to a non-adjacent label'', far_fall_through),
      (''default falls through into a case'', default_falls),
      (''call to a procedure that does not exist'', missing_callee)]"

end
