(* ===== verification/Invalid_Sites.thy ===== *)
theory Invalid_Sites
  imports Invalid
begin

section \<open>The procedures the entry reaches\<close>

text \<open>
  The procedures a breaker may strike are the ones the entry reaches: the worklist of
  \<^verbatim>\<open>reachableProcs\<close> ends with exactly those, each once.
\<close>

subsection \<open>Reachable procedures\<close>

lemma visit_procs_step:
  "visit_procs kids gen seen (i # queue) =
     visit_procs kids gen (seen @ filter (\<lambda>c. c \<notin> set seen) (callees_at kids gen i))
       (queue @ filter (\<lambda>c. c \<notin> set seen) (callees_at kids gen i))"
  by (simp add: Let_def)

declare visit_procs.simps(2) [simp del]

definition calls_at :: "recurse \<Rightarrow> gen_program \<Rightarrow> (nat \<times> nat) set" where
  "calls_at kids gen = {(i, j). j \<in> set (callees_at kids gen i)}"

lemma visit_procs_closed:
  assumes "\<And>i j. i \<in> set seen \<Longrightarrow> i \<notin> set queue \<Longrightarrow> (i, j) \<in> calls_at kids gen \<Longrightarrow> j \<in> set seen"
    and "set queue \<subseteq> set seen"
    and "i \<in> set (visit_procs kids gen seen queue)" and "(i, j) \<in> calls_at kids gen"
  shows "j \<in> set (visit_procs kids gen seen queue)"
  using assms
proof (induction kids gen seen queue arbitrary: i j rule: visit_procs.induct)
  case (2 kids gen seen k queue)
  define new where "new = filter (\<lambda>c. c \<notin> set seen) (callees_at kids gen k)"
  have step: "visit_procs kids gen seen (k # queue) = visit_procs kids gen (seen @ new) (queue @ new)"
    by (simp add: new_def visit_procs_step)
  have "j' \<in> set (seen @ new)" if "i' \<in> set (seen @ new)" "i' \<notin> set (queue @ new)" "(i', j') \<in> calls_at kids gen" for i' j'
  proof (cases "i' = k")
    case True
    with that(3) show ?thesis by (auto simp: calls_at_def new_def)
  next
    case False
    with that 2(2) [of i' j'] show ?thesis by auto
  qed
  moreover have "set (queue @ new) \<subseteq> set (seen @ new)" using 2(3) by auto
  ultimately show ?case
    using 2(1) [OF new_def, of i j] 2(4,5) unfolding step by blast
qed auto

lemma visit_procs_sound:
  "j \<in> set (visit_procs kids gen seen queue) \<Longrightarrow> set queue \<subseteq> set seen \<Longrightarrow>
    \<exists>i \<in> set seen. (i, j) \<in> (calls_at kids gen)\<^sup>*"
proof (induction kids gen seen queue rule: visit_procs.induct)
  case (2 kids gen seen k queue)
  define new where "new = filter (\<lambda>c. c \<notin> set seen) (callees_at kids gen k)"
  have "set (queue @ new) \<subseteq> set (seen @ new)" using 2(3) by auto
  moreover have "j \<in> set (visit_procs kids gen (seen @ new) (queue @ new))"
    using 2(2) by (simp add: new_def visit_procs_step)
  ultimately obtain i where i: "i \<in> set (seen @ new)" "(i, j) \<in> (calls_at kids gen)\<^sup>*"
    using 2(1) [OF new_def] by blast
  show ?case
  proof (cases "i \<in> set seen")
    case False
    with i(1) have "(k, i) \<in> calls_at kids gen" by (auto simp: new_def calls_at_def)
    from converse_rtrancl_into_rtrancl [OF this i(2)]
    have "(k, j) \<in> (calls_at kids gen)\<^sup>*" .
    with 2(3) show ?thesis by auto
  qed (use i in blast)
qed auto

lemma visit_procs_seen: "set seen \<subseteq> set (visit_procs kids gen seen queue)"
proof (induction kids gen seen queue rule: visit_procs.induct)
  case (2 kids gen seen k queue)
  then show ?case by (simp add: visit_procs_step)
qed simp

lemma visit_procs_distinct: "distinct seen \<Longrightarrow> distinct (visit_procs kids gen seen queue)"
proof (induction kids gen seen queue rule: visit_procs.induct)
  case (2 kids gen seen k queue)
  define new where "new = filter (\<lambda>c. c \<notin> set seen) (callees_at kids gen k)"
  have "distinct (callees_at kids gen k)" by (simp add: callees_at_def distinct_callees)
  with 2(2) have "distinct (seen @ new)" by (auto simp: new_def)
  from 2(1) [OF new_def this] show ?case by (simp add: new_def visit_procs_step)
qed simp

lemma calls_at_graph: "walker kids \<Longrightarrow> calls_at kids gen = call_graph gen"
  by (auto simp: calls_at_def callees_at_def call_graph_def callees_of_calls)

lemma set_reachable_procs:
  "set (reachable_procs kids gen) = {j. j < length gen \<and> (0, j) \<in> (calls_at kids gen)\<^sup>*}"
proof -
  have "j \<in> set (visit_procs kids gen [0] [0])" if "(0, j) \<in> (calls_at kids gen)\<^sup>*" for j
    using that
  proof (induction rule: rtrancl_induct)
    case base
    then show ?case using visit_procs_seen [of "[0]"] by simp
  next
    case (step i j)
    show ?case by (rule visit_procs_closed [OF _ _ step.IH step.hyps(2)]) simp_all
  qed
  moreover have "(0, j) \<in> (calls_at kids gen)\<^sup>*" if "j \<in> set (visit_procs kids gen [0] [0])" for j
    using visit_procs_sound [OF that] by simp
  ultimately show ?thesis by (auto simp: reachable_procs_def)
qed

text \<open>
  \<^verbatim>\<open>reachableProcs\<close> ends with exactly the procedures of the graph that some chain of calls
  leads to from the entry, in increasing order and each once, whatever the calls are: cycles
  and calls to procedures that do not exist included.
\<close>

theorem reachable_procs_correct:
  assumes "walker kids"
  shows "set (reachable_procs kids gen) = {j. j < length gen \<and> (0, j) \<in> (call_graph gen)\<^sup>*}
    \<and> sorted (reachable_procs kids gen) \<and> distinct (reachable_procs kids gen)"
proof -
  have "sorted (reachable_procs kids gen)" "distinct (reachable_procs kids gen)"
    unfolding reachable_procs_def using visit_procs_distinct [of "[0]"]
    by (simp_all add: sorted_wrt_filter)
  then show ?thesis using set_reachable_procs calls_at_graph [OF assms] by simp
qed

definition looped_procs :: gen_program where
  "looped_procs =
     [\<lparr>proc_args = [], proc_body = [ReturnStatement (Some (CallExpression ''p2'' []))]\<rparr>,
      \<lparr>proc_args = [], proc_body = [ReturnStatement (Some (Literal 1))]\<rparr>,
      \<lparr>proc_args = [], proc_body = [ReturnStatement (Some (BinaryExpression Plus
         (CallExpression ''p0'' []) (CallExpression ''p9'' [])))]\<rparr>]"

lemma reachable_procs_correct_witness:
  "reachable_procs operands looped_procs = [0, 2] \<and> (0, 1) \<notin> (call_graph looped_procs)\<^sup>*"
proof -
  have run: "reachable_procs operands looped_procs = [0, 2]" by code_simp
  from reachable_procs_correct [OF operand_walk.walker_axioms, of looped_procs]
  have "1 \<in> {j. j < length looped_procs \<and> (0, j) \<in> (call_graph looped_procs)\<^sup>*} \<longleftrightarrow> 1 \<in> {0, 2 :: nat}"
    unfolding run by simp
  moreover have "1 < length looped_procs" by (simp add: looped_procs_def)
  ultimately have "(0, 1) \<notin> (call_graph looped_procs)\<^sup>*" by (simp only: mem_Collect_eq) simp
  with run show ?thesis by blast
qed

end
