(* ===== verification/Invalid_Breaks.thy ===== *)
theory Invalid_Breaks
  imports Invalid_Sites Mutate_Walk
begin

section \<open>A broken program is not legal\<close>

text \<open>
  For each of the static breakers, that its write cannot be hidden: by rule induction over the
  judgement of \<open>Legal\<close>, a list that holds the rewritten node anywhere the walk reaches is no
  longer legal. The contract a rewrite of every site must meet is the locale \<open>breaks_sites\<close>; it
  is interpreted on the three rewrites of the source.
\<close>

subsection \<open>Sites of a list\<close>

definition site_in :: "(expr \<Rightarrow> bool) \<Rightarrow> bool \<Rightarrow> expr list \<Rightarrow> bool" where
  "site_in site certain es \<longleftrightarrow> (\<exists>e \<in> set es. \<exists>x \<in> set (walk_expr certain e). site x)"

definition site_of :: "(expr \<Rightarrow> bool) \<Rightarrow> bool \<Rightarrow> stmt list \<Rightarrow> bool" where
  "site_of site certain ss \<longleftrightarrow> list_ex site (all_expressions certain ss)"

lemma site_in_simps [simp]:
  "\<not> site_in site certain []"
  "site_in site certain (e # es) \<longleftrightarrow> (\<exists>x \<in> set (walk_expr certain e). site x) \<or> site_in site certain es"
  "site_in site certain (es @ fs) \<longleftrightarrow> site_in site certain es \<or> site_in site certain fs"
  by (auto simp: site_in_def)

lemma set_live_statements:
  "set (live_statements b) = (\<Union>s \<in> set (live_prefix b). insert s (\<Union>c \<in> set (child_bodies s). set (live_statements c)))"
  by (subst live_statements.simps) auto

lemma site_of_alt: "site_of site certain b \<longleftrightarrow> (\<exists>s \<in> set (live_statements b). site_in site certain (taken s))"
  by (auto simp: site_of_def all_expressions_def list_ex_iff site_in_def)

lemma site_of_step:
  "site_of site certain b \<longleftrightarrow> (\<exists>s \<in> set (live_prefix b). site_of site certain [s])"
  unfolding site_of_alt by (subst set_live_statements) (auto simp: set_live_statements [of "[_]"])

lemma site_of_Nil [simp]: "\<not> site_of site certain []"
  by (subst site_of_step) simp

lemma site_of_one:
  "site_of site certain [s] \<longleftrightarrow>
     site_in site certain (taken s) \<or> (\<exists>b \<in> set (child_bodies s). site_of site certain b)"
  unfolding site_of_alt by (auto simp: set_live_statements [of "[_]"])

lemma site_of_Cons:
  "site_of site certain (s # ss) \<longleftrightarrow> site_of site certain [s] \<or> (\<not> always_terminates s \<and> site_of site certain ss)"
  by (subst (1 3) site_of_step) auto

lemma site_of_break [simp]: "\<not> site_of site certain [BreakStatement]"
  by (simp add: site_of_one)

lemma site_of_append_break: "site_of site certain (ss @ [BreakStatement]) \<longleftrightarrow> site_of site certain ss"
proof (induction ss)
  case (Cons s ss)
  show ?case
    unfolding append_Cons site_of_Cons [of site certain s ss] site_of_Cons [of site certain s "ss @ [BreakStatement]"] Cons.IH ..
qed simp

lemma site_of_closer: "site_of site certain (without_closer ss) \<longleftrightarrow> site_of site certain ss"
proof (cases "ss \<noteq> [] \<and> last ss = BreakStatement")
  case True
  then have "ss = butlast ss @ [BreakStatement]" by (metis append_butlast_last_id)
  with True show ?thesis using site_of_append_break [of site certain "butlast ss"] by (simp add: without_closer_def)
qed (auto simp: without_closer_def)

subsection \<open>The edit keeps the shape\<close>

lemma as_list_edit: "as_list (edit_stmt g b) = edit_list g (as_list b)"
  by (cases b) simp_all

lemma edit_stmt_break: "edit_stmt g s = BreakStatement \<longleftrightarrow> s = BreakStatement"
  by (cases s) simp_all

lemma decl_name_edit: "decl_name (edit_decl g d) = decl_name d"
  by (simp add: edit_decl_def)

lemma declares_edit: "declares (map (edit_decl g) ds) = declares ds"
  by (simp add: declares_def image_image decl_name_edit)

lemma names_after_edit: "names_after (edit_stmt g s) = names_after s"
  by (cases s) (simp_all add: names_after_def declares_edit)

lemma init_names_edit: "init_names (edit_init g i) = init_names i"
  by (cases "(g, i)" rule: edit_init.cases) (simp_all add: init_names_def declares_edit)

lemma edit_list_Nil_iff: "edit_list g ss = [] \<longleftrightarrow> ss = []"
  by (cases ss) simp_all

lemma last_edit_list: "ss \<noteq> [] \<Longrightarrow> last (edit_list g ss) = BreakStatement \<longleftrightarrow> last ss = BreakStatement"
  by (induction ss) (auto simp: edit_list_Nil_iff edit_stmt_break)

lemma edit_list_append_break: "edit_list g (ss @ [BreakStatement]) = edit_list g ss @ [BreakStatement]"
  by (induction ss) simp_all

lemma closer_edit: "without_closer (edit_list g ss) = edit_list g (without_closer ss)"
proof (cases "ss \<noteq> [] \<and> last ss = BreakStatement")
  case True
  then have "ss = butlast ss @ [BreakStatement]" by (metis append_butlast_last_id)
  then have "edit_list g ss = edit_list g (butlast ss) @ [BreakStatement]"
    by (metis edit_list_append_break)
  with True show ?thesis by (simp add: without_closer_def)
next
  case False
  then show ?thesis using last_edit_list [of ss g] by (auto simp: without_closer_def edit_list_Nil_iff)
qed

subsection \<open>Rewriting every site\<close>

locale breaks_sites =
  fixes site :: "expr \<Rightarrow> bool" and f :: "expr \<Rightarrow> expr" and C :: callees
  assumes heads: "site e \<Longrightarrow> (\<exists>op l r. e = BinaryExpression op l r) \<or> (\<exists>p args. e = CallExpression p args)"
    and site_binary: "site (BinaryExpression op l r) \<longleftrightarrow> site (BinaryExpression op l' r')"
    and site_call: "length args = length args' \<Longrightarrow>
      site (CallExpression p args) \<longleftrightarrow> site (CallExpression p args')"
    and bad_binary: "site (BinaryExpression op l r) \<Longrightarrow> \<not> legal_expr C V (f (BinaryExpression op l r))"
    and bad_call: "site (CallExpression p args) \<Longrightarrow> C p (length args) \<Longrightarrow> \<not> legal_expr C V (f (CallExpression p args))"
begin

definition rewrite :: "bool \<Rightarrow> expr \<Rightarrow> expr" where
  "rewrite certain = edit_expr (\<lambda>e. if site e then f e else e) certain"

lemma no_site [simp]:
  "\<not> site (Literal v)" "\<not> site (Identifier n)" "\<not> site (CastExpression t e)" "\<not> site (UnaryExpression uo e)"
  "\<not> site (LogicalExpression lo l r)" "\<not> site (ConditionalExpression c a b)"
  "\<not> site (AssignmentExpression ao n e)" "\<not> site (UpdateExpression po pre e)"
  using heads by blast+

lemma rewrite_illegal:
  "\<exists>x \<in> set (walk_expr certain e). site x \<Longrightarrow> legal_expr C V e \<Longrightarrow> \<not> legal_expr C V (rewrite certain e)"
  unfolding rewrite_def
proof (induction e)
  case (BinaryExpression op l r)
  show ?case
  proof (cases "site (BinaryExpression op l r)")
    case True
    then have "site (BinaryExpression op l' r')" for l' r' using site_binary by blast
    then show ?thesis using bad_binary by simp
  next
    case False
    then have "\<not> site (BinaryExpression op l' r')" for l' r' using site_binary by blast
    with BinaryExpression show ?thesis by auto
  qed
next
  case (CallExpression p args)
  define args' where "args' = map (edit_expr (\<lambda>e. if site e then f e else e) certain) args"
  have len: "length args' = length args" by (simp add: args'_def)
  show ?case
  proof (cases "site (CallExpression p args)")
    case True
    then have "site (CallExpression p args')" using site_call [OF len] by simp
    moreover have "C p (length args')" using CallExpression.prems(2) len by simp
    ultimately show ?thesis using bad_call by (simp add: args'_def)
  next
    case False
    then have "\<not> site (CallExpression p args')" using site_call [OF len] by simp
    then have "edit_expr (\<lambda>e. if site e then f e else e) certain (CallExpression p args) = CallExpression p args'"
      by (simp add: args'_def)
    moreover from CallExpression.prems(1) False obtain a where "a \<in> set args" "\<exists>x \<in> set (walk_expr certain a). site x"
      by auto
    with CallExpression.IH CallExpression.prems(2) have "\<not> list_all (legal_expr C V) args'"
      unfolding args'_def by (auto simp: list_all_iff)
    ultimately show ?thesis by simp
  qed
next
  case (UpdateExpression op pre a)
  then show ?case by (cases a) auto
qed (auto split: if_splits)

lemma opt_illegal:
  "site_in site certain (opt_list x) \<Longrightarrow> legal_opt C V x \<Longrightarrow> \<not> legal_opt C V (map_option (rewrite certain) x)"
  using rewrite_illegal by (cases x) (auto simp: legal_opt_def opt_list_def)

lemma decls_illegal:
  "site_in site certain (decl_inits ds) \<Longrightarrow> legal_decls C V ds \<Longrightarrow>
    \<not> legal_decls C V (map (edit_decl (rewrite certain)) ds)"
proof (induction ds arbitrary: V)
  case (Cons d ds)
  then show ?case using opt_illegal [of certain "decl_init d" V]
    by (auto simp: decl_inits_def edit_decl_def)
qed (simp add: decl_inits_def)

lemma stmts_illegal:
  "legal_stmt C V s \<Longrightarrow> site_of site certain [s] \<Longrightarrow> \<not> legal_stmt C V (edit_stmt (rewrite certain) s)"
  "legal_list C V ss \<Longrightarrow> site_of site certain ss \<Longrightarrow> \<not> legal_list C V (edit_list (rewrite certain) ss)"
  "legal_cases C V cs \<Longrightarrow> \<exists>c \<in> set cs. site_of site certain (case_body c) \<Longrightarrow>
    \<not> legal_cases C V (map (edit_case (rewrite certain)) cs)"
proof (induction C\<equiv>C V s and C\<equiv>C V ss and C\<equiv>C V cs rule: legal_stmt_legal_list_legal_cases.induct)
  case (4 V a)
  then show ?case using rewrite_illegal by (auto simp: site_of_one opt_list_def split: option.splits)
next
  case (5 V ds)
  then show ?case using decls_illegal by (simp add: site_of_one)
next
  case (6 V t c a)
  then show ?case using rewrite_illegal
    by (cases a) (auto simp: site_of_one as_list_edit)
next
  case (9 V i t u b)
  from 9(3) consider "site_in site certain (opt_list t)" | "\<not> always_terminates b" "site_in site certain (opt_list u)"
    | ds where "i = Some (InitDecl ds)" "site_in site certain (decl_inits ds)" | "site_of site certain (as_list b)"
    by (auto simp: site_of_one live_update_def split: if_splits option.splits for_init.splits)
  then show ?case
  proof cases
    case 3
    then show ?thesis using 9(2) decls_illegal by (auto simp: legal_init_def)
  qed (use 9(1,2) opt_illegal in \<open>auto simp: init_names_edit as_list_edit\<close>)
next
  case (10 V d cs)
  from 10(3) consider "\<exists>x \<in> set (walk_expr certain d). site x" | "\<exists>c \<in> set cs. site_of site certain (case_body c)"
    by (auto simp: site_of_one)
  then show ?case
  proof cases
    case 1
    with 10(2) have "\<not> legal_expr C V (rewrite certain d)" by (intro rewrite_illegal) simp_all
    then show ?thesis by simp
  next
    case 2
    with 10(1,2) show ?thesis by simp
  qed
next
  case (12 V s ss)
  then show ?case by (subst (asm) site_of_Cons) (auto simp: names_after_edit)
next
  case (14 V t b cs)
  then show ?case by (auto simp: closer_edit site_of_closer)
qed (use rewrite_illegal in \<open>auto simp: site_of_one as_list_edit\<close>)

end

subsection \<open>Writing into one site\<close>

text \<open>A list with a broken statement, its closer counted or not.\<close>

definition spoilt :: "callees \<Rightarrow> string set \<Rightarrow> stmt list \<Rightarrow> bool" where
  "spoilt C V ss \<longleftrightarrow> \<not> legal_list C V ss \<and> \<not> legal_list C V (without_closer ss)"

lemma spoilt_head: "\<not> legal_stmt C V s \<Longrightarrow> s \<noteq> BreakStatement \<Longrightarrow> spoilt C V (s # ss)"
  by (cases ss) (auto simp: spoilt_def without_closer_def)

lemma spoilt_tail: "spoilt C (V \<union> names_after s) ss \<Longrightarrow> spoilt C V (s # ss)"
  by (cases ss) (auto simp: spoilt_def without_closer_def split: if_splits)

lemma legal_as_list: "legal_list C V (as_list s) \<longleftrightarrow> legal_stmt C V s"
  by (cases s) simp_all

text \<open>How far a walk takes the count.\<close>

definition skip :: "nat \<Rightarrow> nat option \<Rightarrow> nat option" where
  "skip n k = (case k of None \<Rightarrow> None | Some j \<Rightarrow> if j < n then None else Some (j - n))"

lemma skip_simps [simp]: "skip n None = None" "skip 0 k = k" "skip m (skip n k) = skip (n + m) k"
  by (auto simp: skip_def split: option.splits)

lemma skip_None: "skip n (Some j) = None \<longleftrightarrow> j < n"
  by (simp add: skip_def)

definition ids :: "string list \<Rightarrow> expr \<Rightarrow> nat" where
  "ids ns e = length (filter (known_identifier ns) (walk_expr False e))"

definition ids_in :: "string list \<Rightarrow> stmt list \<Rightarrow> nat" where
  "ids_in ns ss = length (filter (known_identifier ns) (all_expressions False ss))"

definition ids_stmt :: "string list \<Rightarrow> stmt \<Rightarrow> nat" where
  "ids_stmt ns s = sum_list (map (ids ns) (taken s)) + sum_list (map (ids_in ns) (child_bodies s))"

lemma rename_name_count: "snd (rename_name ns n k) = skip (if n \<in> set ns then 1 else 0) k"
  by (auto simp: rename_name_def skip_def split: option.splits nat.splits)

lemma length_filter_concat:
  "length (filter P (concat xss)) = sum_list (map (\<lambda>xs. length (filter P xs)) xss)"
  by (induction xss) simp_all

lemma ids_simps [simp]:
  "ids ns (Identifier n) = (if n \<in> set ns then 1 else 0)"
  "ids ns (Literal v) = 0"
  "ids ns (BinaryExpression op l r) = ids ns l + ids ns r"
  "ids ns (AssignmentExpression ao n r) = (if n \<in> set ns then 1 else 0) + ids ns r"
  "ids ns (LogicalExpression lo l r) = ids ns l + ids ns r"
  "ids ns (UnaryExpression uo a) = ids ns a" "ids ns (CastExpression t a) = ids ns a"
  "ids ns (UpdateExpression po pre a) = ids ns a"
  "ids ns (ConditionalExpression c a b) = ids ns c + (ids ns a + ids ns b)"
  "ids ns (CallExpression f args) = sum_list (map (ids ns) args)"
  by (simp_all add: ids_def [abs_def] known_identifier_def length_filter_concat o_def)

lemma rename_args_count:
  assumes "\<And>e j. e \<in> set es \<Longrightarrow> snd (rename_expr ns e j) = skip (ids ns e) j"
  shows "snd (rename_args ns es k) = skip (sum_list (map (ids ns) es)) k"
  using assms by (induction es arbitrary: k) (simp_all add: split_beta)

lemma rename_expr_count: "snd (rename_expr ns e k) = skip (ids ns e) k"
  by (induction e arbitrary: k)
    (simp_all add: split_beta rename_name_count rename_args_count add.assoc del: One_nat_def)

lemma rename_opt_count: "snd (rename_opt ns x k) = skip (sum_list (map (ids ns) (opt_list x))) k"
  by (cases x) (simp_all add: rename_opt_def opt_list_def split_beta rename_expr_count)

lemma rename_decls_count: "snd (rename_decls ns ds k) = skip (sum_list (map (ids ns) (decl_inits ds))) k"
  by (induction ds arbitrary: k) (simp_all add: split_beta rename_opt_count decl_inits_def)

lemma rename_init_count:
  "snd (rename_init ns i k) =
     skip (sum_list (map (ids ns) (case i of Some (InitDecl ds) \<Rightarrow> decl_inits ds | _ \<Rightarrow> []))) k"
  by (cases "(ns, i, k)" rule: rename_init.cases) (simp_all add: split_beta rename_decls_count)

lemma sum_list_concat_map: "sum_list (concat (map f xs)) = sum_list (map (\<lambda>x. sum_list (f x)) xs)"
  for f :: "'a \<Rightarrow> nat list"
  by (induction xs) simp_all

lemma live_statements_Nil [simp]: "live_statements [] = []"
  by (subst live_statements.simps) simp

lemma live_statements_Cons:
  "live_statements (s # ss) =
     s # concat (map live_statements (child_bodies s)) @ (if always_terminates s then [] else live_statements ss)"
  by (subst live_statements.simps) (simp add: live_statements.simps [of ss])

lemma ids_in_Nil [simp]: "ids_in ns [] = 0"
  by (simp add: ids_in_def all_expressions_def)

lemma ids_in_Cons [simp]:
  "ids_in ns (s # ss) = ids_stmt ns s + (if always_terminates s then 0 else ids_in ns ss)"
  by (simp add: ids_in_def [abs_def] ids_stmt_def all_expressions_def live_statements_Cons ids_def [abs_def]
    length_filter_concat map_concat o_def sum_list_concat_map)

lemma ids_in_as_list: "ids_in ns (as_list s) = ids_stmt ns s"
  by (cases s) (simp_all add: ids_stmt_def)

lemma rename_cases_count:
  assumes "\<And>c j. c \<in> set cs \<Longrightarrow> snd (rename_list ns (case_body c) j) = skip (ids_in ns (case_body c)) j"
  shows "snd (rename_cases ns cs k) = skip (sum_list (map (ids_in ns \<circ> case_body) cs)) k"
  using assms
proof (induction cs arbitrary: k)
  case (Cons c cs)
  then show ?case using Cons.prems [of c] by (cases c) (simp add: split_beta)
qed simp

lemmas walk_induct = edit_stmt_edit_list_edit_case.induct
  [where P = "\<lambda>_. P" and Q = "\<lambda>_. Q" and R = "\<lambda>_. R" for P Q R, case_names block expr_stmt return decl if_stmt
    while do_while for_stmt switch break Nil Cons clause]

lemma rename_stmt_count:
  "snd (rename_stmt ns s k) = skip (ids_stmt ns s) k"
  "snd (rename_list ns ss k) = skip (ids_in ns ss) k"
  "snd (rename_list ns (case_body c) k) = skip (ids_in ns (case_body c)) k"
proof (induction s and ss and c arbitrary: k and k and k rule: walk_induct)
  case (if_stmt g t c a)
  then show ?case
    by (cases a) (simp_all add: split_beta rename_expr_count ids_stmt_def ids_in_as_list add.assoc)
next
  case (for_stmt g i t u b)
  then show ?case
    by (simp add: split_beta rename_init_count rename_opt_count live_update_def ids_stmt_def ids_in_as_list add.assoc)
next
  case (switch g d cs)
  have "snd (rename_cases ns cs j) = skip (sum_list (map (ids_in ns \<circ> case_body) cs)) j" for j
    by (rule rename_cases_count) (rule switch)
  then show ?case by (simp add: split_beta rename_expr_count ids_stmt_def)
qed (simp_all add: split_beta rename_expr_count rename_opt_count rename_decls_count ids_in_as_list ids_stmt_def)

text \<open>Where the count runs out, the name at hand is the unbound one.\<close>

lemma rename_name_hit: "k \<noteq> None \<Longrightarrow> snd (rename_name ns n k) = None \<Longrightarrow> fst (rename_name ns n k) = unbound_name"
  by (auto simp: rename_name_def split: option.splits nat.splits if_splits)

lemma rename_args_hit:
  assumes "\<And>e j. e \<in> set es \<Longrightarrow> j \<noteq> None \<Longrightarrow> snd (rename_expr ns e j) = None \<Longrightarrow> \<not> legal_expr C V (fst (rename_expr ns e j))"
    and "k \<noteq> None" and "snd (rename_args ns es k) = None"
  shows "\<not> list_all (legal_expr C V) (fst (rename_args ns es k))"
  using assms
proof (induction es arbitrary: k)
  case (Cons e es)
  then show ?case by (cases "snd (rename_expr ns e k)") (auto simp: split_beta)
qed simp

lemma rename_expr_hit:
  "k \<noteq> None \<Longrightarrow> snd (rename_expr ns e k) = None \<Longrightarrow> unbound_name \<notin> V \<Longrightarrow> \<not> legal_expr C V (fst (rename_expr ns e k))"
proof (induction e arbitrary: k)
  case (CallExpression f args)
  then show ?case using rename_args_hit [of args ns C V k] by (simp add: split_beta)
next
  case (Identifier n)
  then show ?case using rename_name_hit [of k ns n] by (simp add: split_beta)
next
  case (BinaryExpression op l r)
  then show ?case by (cases "snd (rename_expr ns l k)") (auto simp: split_beta)
next
  case (LogicalExpression op l r)
  then show ?case by (cases "snd (rename_expr ns l k)") (auto simp: split_beta)
next
  case (AssignmentExpression op n r)
  then show ?case using rename_name_hit [of k ns n] by (cases "snd (rename_name ns n k)") (auto simp: split_beta)
next
  case (UpdateExpression op pre a)
  then show ?case by (cases a) (auto simp: split_beta)
next
  case (ConditionalExpression c a b)
  then show ?case
    by (cases "snd (rename_expr ns c k)"; cases "snd (rename_expr ns a (snd (rename_expr ns c k)))")
      (auto simp: split_beta)
qed (auto simp: split_beta)

lemma rename_opt_hit:
  "k \<noteq> None \<Longrightarrow> snd (rename_opt ns x k) = None \<Longrightarrow> unbound_name \<notin> V \<Longrightarrow> \<not> legal_opt C V (fst (rename_opt ns x k))"
  using rename_expr_hit by (cases x) (auto simp: rename_opt_def legal_opt_def split_beta)

lemma rename_decls_hit:
  "k \<noteq> None \<Longrightarrow> snd (rename_decls ns ds k) = None \<Longrightarrow> unbound_name \<notin> V \<Longrightarrow> unbound_name \<notin> declares ds \<Longrightarrow>
    \<not> legal_decls C V (fst (rename_decls ns ds k))"
proof (induction ds arbitrary: k V)
  case (Cons d ds)
  then show ?case using rename_opt_hit [of k ns "decl_init d" V C]
    by (cases "snd (rename_opt ns (decl_init d) k)") (auto simp: split_beta declares_def)
qed simp

lemma declares_rename: "declares (fst (rename_decls ns ds k)) = declares ds"
  by (induction ds arbitrary: k) (simp_all add: split_beta declares_def)

lemma init_names_rename: "init_names (fst (rename_init ns i k)) = init_names i"
  by (cases "(ns, i, k)" rule: rename_init.cases) (simp_all add: split_beta init_names_def declares_rename)

lemma names_after_rename: "names_after (fst (rename_stmt ns s k)) = names_after s"
  by (cases s) (simp_all add: split_beta names_after_def declares_rename split: option.splits)

lemma rename_stmt_break: "fst (rename_stmt ns s k) = BreakStatement \<longleftrightarrow> s = BreakStatement"
  by (cases s) (simp_all add: split_beta split: option.splits)

lemma rename_init_hit:
  "k \<noteq> None \<Longrightarrow> snd (rename_init ns i k) = None \<Longrightarrow> unbound_name \<notin> V \<Longrightarrow> unbound_name \<notin> init_names i \<Longrightarrow>
    \<not> legal_init C V (fst (rename_init ns i k))"
  using rename_decls_hit
  by (cases "(ns, i, k)" rule: rename_init.cases) (auto simp: split_beta init_names_def legal_init_def)

lemma dset_as_list: "dset (as_list s) = dset [s]"
  by (cases s) simp_all

lemma rename_cases_hit:
  assumes "\<And>c j. c \<in> set cs \<Longrightarrow> j \<noteq> None \<Longrightarrow> snd (rename_list ns (case_body c) j) = None
      \<Longrightarrow> spoilt C V (fst (rename_list ns (case_body c) j))"
    and "k \<noteq> None" and "snd (rename_cases ns cs k) = None"
  shows "\<not> legal_cases C V (fst (rename_cases ns cs k))"
  using assms
proof (induction cs arbitrary: k)
  case (Cons c cs)
  obtain t b where c: "c = SwitchCase t b" by (cases c)
  show ?case
  proof (cases "snd (rename_list ns b k)")
    case None
    with Cons.prems(1) [of c k] Cons.prems(2) c show ?thesis by (simp add: split_beta spoilt_def)
  next
    case (Some j)
    with Cons c show ?thesis by (simp add: split_beta)
  qed
qed simp

lemma rename_hit:
  "k \<noteq> None \<Longrightarrow> snd (rename_stmt ns s k) = None \<Longrightarrow> unbound_name \<notin> V \<union> dset [s] \<Longrightarrow>
    \<not> legal_stmt C V (fst (rename_stmt ns s k))"
  "k \<noteq> None \<Longrightarrow> snd (rename_list ns ss k) = None \<Longrightarrow> unbound_name \<notin> V \<union> dset ss \<Longrightarrow>
    spoilt C V (fst (rename_list ns ss k))"
  "k \<noteq> None \<Longrightarrow> snd (rename_list ns (case_body c) k) = None \<Longrightarrow> unbound_name \<notin> V \<union> dset (case_body c) \<Longrightarrow>
    spoilt C V (fst (rename_list ns (case_body c) k))"
proof (induction s and ss and c arbitrary: V k and V k and V k rule: walk_induct)
  case (block g b)
  then show ?case by (simp add: split_beta spoilt_def)
next
  case (return g a)
  then show ?case using rename_opt_hit [of k ns a V C]
    by (auto simp: split_beta legal_opt_def split: option.splits)
next
  case (if_stmt g t c a)
  show ?case
  proof (cases "snd (rename_expr ns t k)")
    case None
    with if_stmt.prems rename_expr_hit [of k ns t V C] show ?thesis by (simp add: split_beta)
  next
    case t: (Some j)
    show ?thesis
    proof (cases "snd (rename_stmt ns c (Some j))")
      case None
      with if_stmt.IH(1) [of "Some j" V] if_stmt.prems t show ?thesis
        by (simp add: split_beta legal_as_list dset_as_list)
    next
      case (Some i)
      with if_stmt.IH(2) [of _ "Some i" V] if_stmt.prems t show ?thesis
        by (cases a) (simp_all add: split_beta legal_as_list dset_as_list)
    qed
  qed
next
  case (for_stmt g i t u b)
  define k1 where "k1 = snd (rename_opt ns t k)"
  define k2 where "k2 = (if always_terminates b then k1 else snd (rename_opt ns u k1))"
  define k3 where "k3 = snd (rename_init ns i k2)"
  let ?V = "V \<union> init_names i"
  have new: "unbound_name \<notin> ?V" "unbound_name \<notin> init_names i" "unbound_name \<notin> V"
    using for_stmt.prems(3) by auto
  have run: "rename_stmt ns (ForStatement i t u b) k =
      (ForStatement (fst (rename_init ns i k2)) (fst (rename_opt ns t k))
         (if always_terminates b then u else fst (rename_opt ns u k1)) (fst (rename_stmt ns b k3)),
       snd (rename_stmt ns b k3))"
    by (simp add: split_beta k1_def k2_def k3_def)
  consider "k1 = None" | "k1 \<noteq> None" "k2 = None" | "k2 \<noteq> None" "k3 = None"
    | "k3 \<noteq> None" "snd (rename_stmt ns b k3) = None"
    using for_stmt.prems(2) unfolding run snd_conv by blast
  then show ?case
  proof cases
    case 1
    with rename_opt_hit [OF for_stmt.prems(1), of ns t ?V C] new show ?thesis
      unfolding run fst_conv by (auto simp: k1_def init_names_rename)
  next
    case 2
    then have "\<not> always_terminates b" "snd (rename_opt ns u k1) = None" by (auto simp: k2_def split: if_splits)
    with rename_opt_hit [OF 2(1), of ns u ?V C] new show ?thesis
      unfolding run fst_conv by (auto simp: init_names_rename)
  next
    case 3
    with rename_init_hit [of k2 ns i V C] new show ?thesis
      unfolding run fst_conv by (auto simp: k3_def)
  next
    case 4
    with for_stmt.IH [of k3 ?V] for_stmt.prems(3) show ?thesis
      unfolding run fst_conv by (auto simp: init_names_rename legal_as_list dset_as_list)
  qed
next
  case (switch g d cs)
  show ?case
  proof (cases "snd (rename_expr ns d k)")
    case None
    with switch.prems rename_expr_hit [of k ns d V C] show ?thesis by (simp add: split_beta)
  next
    case (Some j)
    have "\<not> legal_cases C V (fst (rename_cases ns cs (Some j)))"
      by (rule rename_cases_hit) (use switch Some in \<open>auto simp: split_beta\<close>)
    with Some show ?thesis by (simp add: split_beta)
  qed
next
  case (Cons g s ss)
  show ?case
  proof (cases "snd (rename_stmt ns s k)")
    case None
    have "\<not> legal_stmt C V (fst (rename_stmt ns s k))"
      by (rule Cons.IH(1)) (use Cons.prems None dset_Cons [of s ss] in auto)
    moreover have "s \<noteq> BreakStatement" using None Cons.prems(1) by auto
    ultimately show ?thesis by (simp add: split_beta spoilt_head rename_stmt_break)
  next
    case (Some j)
    with Cons.prems(2) have "\<not> always_terminates s" "snd (rename_list ns ss (Some j)) = None"
      by (auto simp: split_beta split: if_splits)
    moreover have "unbound_name \<notin> (V \<union> names_after s) \<union> dset ss"
      using Cons.prems(3) dset_Cons [of s ss] names_after_dset [of s] by auto
    ultimately have "spoilt C (V \<union> names_after s) (fst (rename_list ns ss (Some j)))"
      using Cons.IH(2) [of "Some j" "V \<union> names_after s"] by simp
    with Some \<open>\<not> always_terminates s\<close> show ?thesis
      by (simp add: split_beta) (rule spoilt_tail, simp add: names_after_rename)
  qed
next
  case (while g t b)
  then show ?case using rename_expr_hit [of k ns t V C]
    by (cases "snd (rename_expr ns t k)") (simp_all add: split_beta legal_as_list dset_as_list)
next
  case (do_while g b t)
  then show ?case using rename_expr_hit [of k ns t V C]
    by (cases "snd (rename_expr ns t k)") (simp_all add: split_beta legal_as_list dset_as_list)
qed (use rename_expr_hit rename_decls_hit in \<open>auto simp: split_beta\<close>)

subsection \<open>The first switch\<close>

lemma edit_switch_spoils:
  assumes "\<And>cs cs'. f cs = Some cs' \<Longrightarrow> \<not> labels_ok cs'"
  shows "edit_switch f s = Some s' \<Longrightarrow> \<not> legal_stmt C V s' \<and> s' \<noteq> BreakStatement"
    and "edit_switch_in f ss = Some ss' \<Longrightarrow> spoilt C V ss'"
    and "edit_switch_cases f cs = Some cs' \<Longrightarrow> \<not> legal_cases C V cs'"
  using assms
proof (induction f s and f ss and f cs arbitrary: s' V and ss' V and cs' V
    rule: edit_switch_edit_switch_in_edit_switch_cases.induct)
  case (2 f b)
  then show ?case by (auto simp: spoilt_def)
next
  case (9 f s ss)
  then show ?case by (auto split: option.splits intro: spoilt_head spoilt_tail)
next
  case (11 f t b cs)
  then show ?case by (auto simp: spoilt_def split: option.splits)
qed (auto simp: legal_as_list split: option.splits)

lemma labelled_pair:
  assumes "labelled_at cs = i # j # ks"
  shows "i < j" "j < length cs"
proof -
  have "sorted_wrt (<) (labelled_at cs)" unfolding labelled_at_def by (intro sorted_wrt_filter) simp
  moreover have "set (labelled_at cs) \<subseteq> {..< length cs}" by (auto simp: labelled_at_def)
  ultimately show "i < j" "j < length cs" unfolding assms by simp_all
qed

lemma repeat_label_bad: "repeat_label cs = Some cs' \<Longrightarrow> \<not> labels_ok cs'"
proof -
  assume "repeat_label cs = Some cs'"
  then obtain i j ks where l: "labelled_at cs = i # j # ks"
    and cs': "cs' = cs[j := SwitchCase (case_test (cs ! i)) (case_body (cs ! j))]"
    by (auto simp: repeat_label_def split: list.splits)
  note ij = labelled_pair [OF l]
  then have "map case_test cs' ! i = map case_test cs' ! j" by (simp add: cs')
  moreover have "i < length (map case_test cs')" "j < length (map case_test cs')" using ij by (simp_all add: cs')
  ultimately have "\<not> distinct (map case_test cs')" using ij nth_eq_iff_index_eq by fastforce
  then show "\<not> labels_ok cs'" by (simp add: labels_ok_def)
qed

lemma edit_first_Some:
  "edit_first f gen is = Some g \<Longrightarrow>
    \<exists>i b. i \<in> set is \<and> f (proc_body (gen ! i)) = Some b \<and> g = gen[i := (gen ! i)\<lparr>proc_body := b\<rparr>]"
  by (induction f gen "is" rule: edit_first.induct) (auto split: option.splits)

subsection \<open>Programs with a broken procedure\<close>

lemma broken_program:
  assumes "map proc_args g = map proc_args gen" "i < length gen"
    and "\<not> legal_list (may_call gen i) (set (proc_args (gen ! i))) (proc_body (g ! i))"
  shows "\<not> legal_program g"
proof -
  have "length g = length gen" using assms(1) by (metis length_map)
  moreover from this assms(2) have "proc_args (g ! i) = proc_args (gen ! i)"
    using arg_cong [OF assms(1), of "\<lambda>xs. xs ! i"] by simp
  ultimately show ?thesis
    using assms(2,3) may_call_same [OF assms(1)] by (auto simp: legal_program_def)
qed

lemma broken_at:
  assumes "i < length gen"
    and "\<not> legal_list (may_call gen i) (set (proc_args (gen ! i))) b"
  shows "\<not> legal_program (gen[i := (gen ! i)\<lparr>proc_body := b\<rparr>])"
proof (rule broken_program [of _ gen i])
  show "map proc_args (gen[i := (gen ! i)\<lparr>proc_body := b\<rparr>]) = map proc_args gen"
    using assms(1) by (simp add: map_update list_update_same_conv)
qed (use assms in simp_all)

context breaks_sites
begin

lemma edit_breaks:
  assumes "legal_program gen" and "i \<in> set (reachable_procs kids gen)"
    and "C = may_call gen i" and "site_of site certain (proc_body (gen ! i))"
    and "edit_program kids site f certain gen = Some g"
  shows "\<not> legal_program g"
proof -
  have i: "i < length gen" using assms(2) by (simp add: set_reachable_procs)
  have g: "g = map (\<lambda>i. if i \<in> set (reachable_procs kids gen)
      then (gen ! i)\<lparr>proc_body := edit_list (rewrite certain) (proc_body (gen ! i))\<rparr> else gen ! i) [0 ..< length gen]"
    using assms(5) by (auto simp: edit_program_def rewrite_def split: if_splits)
  show ?thesis
  proof (rule broken_program [of _ gen i])
    show "map proc_args g = map proc_args gen" unfolding g by (rule nth_equalityI) simp_all
    have "legal_list C (set (proc_args (gen ! i))) (proc_body (gen ! i))"
      using assms(1,3) i by (simp add: legal_program_def)
    from stmts_illegal(2) [OF this assms(4)]
    show "\<not> legal_list (may_call gen i) (set (proc_args (gen ! i))) (proc_body (g ! i))"
      using i assms(2,3) by (simp add: g)
  qed (rule i)
qed

end

lemma edit_program_site:
  "edit_program kids site f certain gen = Some g \<Longrightarrow>
    \<exists>i \<in> set (reachable_procs kids gen). site_of site certain (proc_body (gen ! i))"
  by (auto simp: edit_program_def list_ex_iff live_procs_def site_of_def split: if_splits)

lemma may_call_proc:
  assumes "proc_index f \<noteq> None"
  shows "may_call gen i f k \<longleftrightarrow> (\<exists>j. i < j \<and> j < length gen \<and> f = proc_name j \<and> k = length (proc_args (gen ! j)))"
proof -
  have "\<forall>f \<in> set (''trap'' # ''clz'' # ''revbits'' # ext_ops). proc_index f = None" by code_simp
  with assms have "\<not> builtin_ok f k" by (auto simp: builtin_ok_def)
  then show ?thesis by (simp add: may_call_def in_callable_from)
qed

interpretation arity: breaks_sites proc_call wrong_arity "may_call gen i" for gen i
proof
  fix f args V
  assume "proc_call (CallExpression f args)" and "may_call gen i f (length args)"
  then have "\<not> may_call gen i f (length (if args \<noteq> [] then butlast args else [Literal 1]))"
    by (cases args) (auto simp: proc_call_def may_call_proc proc_name_inj)
  then show "\<not> legal_expr (may_call gen i) V (wrong_arity (CallExpression f args))"
    by (simp del: length_butlast)
qed (auto simp: proc_call_def split: expr.splits)

interpretation divided: breaks_sites any_binary "with_operator (if b then Slash else Percent)" "may_call gen i" for b gen i
  by unfold_locales (auto simp: any_binary_def division_def split: expr.splits)

interpretation missing: breaks_sites proc_call "call_nobody (length gen)" "may_call gen i" for gen i
proof
  fix f V and args :: "expr list"
  have "\<not> may_call gen i (proc_name (length gen + 3)) (length args)"
    by (simp add: may_call_proc proc_name_inj)
  then show "\<not> legal_expr (may_call gen i) V (call_nobody (length gen) (CallExpression f args))" by simp
qed (auto simp: proc_call_def split: expr.splits)

subsection \<open>The static breakers\<close>

lemma at_procD:
  assumes "at_proc kids gen f s = (Inr r, t)"
  obtains i u where "i < length gen" "f i u = (Inr r, t)"
  using assms by (auto simp: at_proc_def bindc_eq_Inr split: if_splits)

lemma push_front_breaks:
  assumes "i < length gen" and "\<And>V. \<not> legal_stmt (may_call gen i) V s"
  shows "\<not> legal_program (push_front s i gen)"
  unfolding push_front_def by (rule broken_at [OF assms(1)]) (simp add: assms(2))

lemma stray_bodies:
  "\<not> legal_stmt C V (IfStatement (Literal 1) (BlockStatement [ReturnStatement None]) None)"
  "\<not> legal_stmt C V BreakStatement"
  "\<not> legal_stmt (may_call gen i) V (ExpressionStatement (CallExpression (proc_name i) args))"
  by (simp_all add: may_call_proc proc_name_inj)

lemma unbound_breaks:
  assumes "legal_program gen" and fresh: "\<forall>p \<in> set gen. unbound_name \<notin> set (known_names p)"
    and "unbound_identifier kids gen s = (Inr (Some g), t)"
  shows "\<not> legal_program g"
proof -
  from assms(3) [unfolded unbound_identifier_def] obtain i u where i: "i < length gen" and run:
    "(let p = gen ! i; ns = known_names p;
          idents = filter (known_identifier ns) (all_expressions False (proc_body p))
      in bindc (maybe_pick [0 ..< length idents]) (\<lambda>victim.
         case victim of
           None \<Rightarrow> retc None
         | Some k \<Rightarrow> retc (Some (gen[i := p\<lparr>proc_body := fst (rename_list ns (proc_body p) (Some k))\<rparr>])))) u
      = (Inr (Some g), t)"
    by (rule at_procD)
  define ns where "ns = known_names (gen ! i)"
  define body where "body = proc_body (gen ! i)"
  from run obtain k v where k: "maybe_pick [0 ..< ids_in ns body] u = (Inr (Some k), v)"
    and g: "g = gen[i := (gen ! i)\<lparr>proc_body := fst (rename_list ns body (Some k))\<rparr>]"
    by (auto simp: Let_def bindc_eq_Inr ids_in_def ns_def body_def split: option.splits)
  from draws_run [OF draws_maybe_pick k] have "k < ids_in ns body" by simp
  then have "snd (rename_list ns body (Some k)) = None" by (simp add: rename_stmt_count skip_None)
  moreover have "unbound_name \<notin> set (proc_args (gen ! i)) \<union> dset body"
    using fresh i by (auto simp: known_names_def dset_def body_def)
  ultimately have "spoilt (may_call gen i) (set (proc_args (gen ! i))) (fst (rename_list ns body (Some k)))"
    by (intro rename_hit(2)) simp_all
  then show ?thesis unfolding g by (intro broken_at [OF i]) (simp add: spoilt_def)
qed

lemma duplicate_breaks:
  assumes "edit_switches kids repeat_label gen = Some g"
  shows "\<not> legal_program g"
proof -
  from edit_first_Some [OF assms [unfolded edit_switches_def]] obtain i b where
    i: "i \<in> set (reachable_procs kids gen)" "edit_switch_in repeat_label (proc_body (gen ! i)) = Some b"
      "g = gen[i := (gen ! i)\<lparr>proc_body := b\<rparr>]" by blast
  from edit_switch_spoils(2) [OF repeat_label_bad i(2)]
  have "\<not> legal_list (may_call gen i) (set (proc_args (gen ! i))) b" by (simp add: spoilt_def)
  with i(1) show ?thesis unfolding i(3) by (intro broken_at) (simp_all add: set_reachable_procs)
qed

lemma breakers_break:
  assumes "legal_program gen" and "\<forall>p \<in> set gen. unbound_name \<notin> set (known_names p)"
    and "(name, b) \<in> set breakers"
    and "name \<notin> {''shift amount of 32 or more'', ''fall-through to a non-adjacent label'', ''default falls through into a case''}"
    and "b kids gen s = (Inr (Some g), t)"
  shows "\<not> legal_program g"
proof -
  from assms(3,4) have "b \<in> {mixed_return, recursive_call, stray_break, unbound_identifier, arity_mismatch,
      division_operator, duplicate_label, missing_callee}"
    by (auto simp: breakers_def)
  with assms(5) consider
      i where "i < length gen" "g = push_front (IfStatement (Literal 1) (BlockStatement [ReturnStatement None]) None) i gen"
    | i args where "i < length gen" "g = push_front (ExpressionStatement (CallExpression (proc_name i) args)) i gen"
    | i where "i < length gen" "g = push_front BreakStatement i gen"
    | "unbound_identifier kids gen s = (Inr (Some g), t)"
    | "edit_program kids proc_call wrong_arity False gen = Some g"
    | c where "edit_program kids any_binary (with_operator (if c then Slash else Percent)) False gen = Some g"
    | "edit_switches kids repeat_label gen = Some g"
    | "edit_program kids proc_call (call_nobody (length gen)) False gen = Some g"
    by (auto simp: mixed_return_def recursive_call_def stray_break_def arity_mismatch_def division_operator_def
      duplicate_label_def missing_callee_def bindc_eq_Inr elim!: at_procD)
  then show ?thesis
  proof cases
    case 4
    then show ?thesis by (rule unbound_breaks [OF assms(1,2)])
  next
    case 5
    then show ?thesis using arity.edit_breaks [OF assms(1) _ refl] edit_program_site by blast
  next
    case (6 c)
    then show ?thesis using divided.edit_breaks [OF assms(1) _ refl] edit_program_site by blast
  next
    case 7
    then show ?thesis by (rule duplicate_breaks)
  next
    case 8
    then show ?thesis using missing.edit_breaks [OF assms(1) _ refl] edit_program_site by blast
  qed (use push_front_breaks stray_bodies in simp_all)
qed


text \<open>A legal program with every kind of site, two of the writes into it, and their rejection.\<close>

definition victim_program :: gen_program where
  "victim_program =
     [\<lparr>proc_args = [''a''], proc_body =
        [SwitchStatement (Identifier ''a'')
           [SwitchCase (Some (Literal 0)) [ExpressionStatement (CallExpression ''p1'' [Identifier ''a'']), BreakStatement],
            SwitchCase (Some (Literal 1)) [BreakStatement]],
         ReturnStatement (Some (BinaryExpression Plus (Identifier ''a'') (Literal 2)))]\<rparr>,
      \<lparr>proc_args = [''x''], proc_body = [ReturnStatement (Some (Identifier ''x''))]\<rparr>]"


end
