(* ===== verification/Invalid_Misses.thy ===== *)
theory Invalid_Misses
  imports Invalid_Breaks Mutate_Edges
begin

section \<open>Breakers that can miss\<close>

text \<open>
  Three breakers of a \<^verbatim>\<open>switch\<close> can return a program with nothing wrong in it, which the lane
  would report as an escape: each on a concrete legal program.
\<close>

definition one_switch :: "switch_case list \<Rightarrow> gen_program" where
  "one_switch cs =
     [\<lparr>proc_args = [''a''], proc_body =
        [SwitchStatement (Identifier ''a'') cs, ReturnStatement (Some (Identifier ''a''))]\<rparr>]"

definition store_one :: stmt where
  "store_one = ExpressionStatement (CallExpression ''st8'' [Literal 0, Literal 1])"

text \<open>
  The fall-through breaker opens the first labelled case and moves the second label away. With
  the default written between them, the case runs on into the default, which is allowed.
\<close>

lemma far_fall_through_misses:
  "edit_switches operands (open_first 907)
      (one_switch [SwitchCase (Some (Literal 0)) [store_one, BreakStatement],
                   SwitchCase None [BreakStatement], SwitchCase (Some (Literal 1)) [BreakStatement]])
    = Some (one_switch [SwitchCase (Some (Literal 0)) [store_one],
                   SwitchCase None [BreakStatement], SwitchCase (Some (Literal 907)) [BreakStatement]])
   \<and> legal_program (one_switch [SwitchCase (Some (Literal 0)) [store_one],
                   SwitchCase None [BreakStatement], SwitchCase (Some (Literal 907)) [BreakStatement]])
   \<and> chain_ok [SwitchCase (Some (Literal 0)) [store_one],
                   SwitchCase None [BreakStatement], SwitchCase (Some (Literal 907)) [BreakStatement]]"
proof (intro conjI)
  show "chain_ok [SwitchCase (Some (Literal 0)) [store_one],
      SwitchCase None [BreakStatement], SwitchCase (Some (Literal 907)) [BreakStatement]]"
    by (simp add: chain_ok_def runs_on_def may_run_into_def falls_into_def)
qed code_simp+

text \<open>
  The default breaker drops the default's \<^verbatim>\<open>break\<close> without looking at what is left. A default
  that returns before its \<^verbatim>\<open>break\<close> still does not run on.
\<close>

lemma default_falls_misses:
  "edit_switches operands default_runs_on
      (one_switch [SwitchCase (Some (Literal 0)) [BreakStatement],
                   SwitchCase None [ReturnStatement (Some (Literal 2)), BreakStatement]])
    = Some (one_switch [SwitchCase None [ReturnStatement (Some (Literal 2))],
                   SwitchCase (Some (Literal 0)) [BreakStatement]])
   \<and> legal_program (one_switch [SwitchCase None [ReturnStatement (Some (Literal 2))],
                   SwitchCase (Some (Literal 0)) [BreakStatement]])
   \<and> chain_ok [SwitchCase None [ReturnStatement (Some (Literal 2))], SwitchCase (Some (Literal 0)) [BreakStatement]]"
proof (intro conjI)
  show "chain_ok [SwitchCase None [ReturnStatement (Some (Literal 2))], SwitchCase (Some (Literal 0)) [BreakStatement]]"
    by (simp add: chain_ok_def runs_on_def may_run_into_def falls_into_def)
qed code_simp+

text \<open>
  The three look at every statement of a body, not at the live ones: a \<^verbatim>\<open>switch\<close> after a
  \<^verbatim>\<open>return\<close> is edited, and no statement that can run has changed.
\<close>

definition dead_switch :: "switch_case list \<Rightarrow> stmt list" where
  "dead_switch cs = [ReturnStatement (Some (Literal 1)), SwitchStatement (Literal 0) cs]"

lemma duplicate_label_in_dead_code:
  "edit_switches operands repeat_label
      [\<lparr>proc_args = [], proc_body = dead_switch
          [SwitchCase (Some (Literal 0)) [BreakStatement], SwitchCase (Some (Literal 1)) [BreakStatement]]\<rparr>]
    = Some [\<lparr>proc_args = [], proc_body = dead_switch
          [SwitchCase (Some (Literal 0)) [BreakStatement], SwitchCase (Some (Literal 0)) [BreakStatement]]\<rparr>]
   \<and> live_statements (dead_switch cs) = [ReturnStatement (Some (Literal 1))]"
proof (intro conjI)
  show "live_statements (dead_switch cs) = [ReturnStatement (Some (Literal 1))]"
    by (simp add: dead_switch_def live_statements_Cons)
qed code_simp

end
