(* ===== verification/Minimize.thy ===== *)
theory Minimize
  imports Prelude
begin

section \<open>Shrinking a finding (\<^verbatim>\<open>fuzz/ts/gen/minimize.ts\<close>)\<close>

text \<open>
  The reductions work on the program as JSON, whatever the shapes of its nodes, so the tree here
  is JSON: an object is the list of its entries, in the order \<^verbatim>\<open>Object.keys\<close> gives them. What a
  program read from a file or cloned has, and every reduction keeps, is that no object has a key
  twice (\<open>json_ok\<close>). A reduction reads from \<^verbatim>\<open>best\<close> and writes into a clone of it, so a write
  is an update of the tree at a path. Whether a candidate still shows the finding is the
  parameter \<open>fails\<close>; the code's own decision is \<open>still_fails\<close> of \<open>Verify\<close>, over programs. The statements are read as the parser builds them: where a
  field the code follows is missing it would throw, and the model reads an empty list.
\<close>

subsection \<open>Trees and paths\<close>

datatype json =
    JNull
  | JBool bool
  | JNum int
  | JStr string
  | JArr "json list"
  | JObj "(string \<times> json) list"

datatype key = Key string | Idx nat

type_synonym path = "key list"

fun json_ok :: "json \<Rightarrow> bool" where
  "json_ok (JArr xs) = list_all json_ok xs"
| "json_ok (JObj kvs) = (distinct (map fst kvs) \<and> list_all json_ok (map snd kvs))"
| "json_ok _ = True"

text \<open>\<^verbatim>\<open>node[key]\<close>; \<open>None\<close> is \<^verbatim>\<open>undefined\<close>.\<close>

fun child :: "json \<Rightarrow> key \<Rightarrow> json option" where
  "child (JObj kvs) (Key k) = map_of kvs k"
| "child (JArr xs) (Idx i) = (if i < length xs then Some (xs ! i) else None)"
| "child _ _ = None"

text \<open>\<^verbatim>\<open>getAt\<close>: reading a property of \<^verbatim>\<open>undefined\<close> or of \<^verbatim>\<open>null\<close> throws.\<close>

fun get_at :: "json \<Rightarrow> path \<Rightarrow> string + json option" where
  "get_at j [] = Inr (Some j)"
| "get_at j (k # ks) =
     (if j = JNull then Inl ''Cannot read properties of null''
      else case child j k of
             None \<Rightarrow> if ks = [] then Inr None else Inl ''Cannot read properties of undefined''
           | Some c \<Rightarrow> get_at c ks)"

text \<open>\<^verbatim>\<open>setAt\<close> where the path exists, which is the only place it is used (\<open>replace_keeps_paths\<close>).\<close>

fun set_entry :: "string \<Rightarrow> json \<Rightarrow> (string \<times> json) list \<Rightarrow> (string \<times> json) list" where
  "set_entry k v [] = []"
| "set_entry k v ((k', w) # kvs) = (if k' = k then (k', v) # kvs else (k', w) # set_entry k v kvs)"

definition set_child :: "json \<Rightarrow> key \<Rightarrow> json \<Rightarrow> json" where
  "set_child j k v =
     (case (j, k) of
        (JObj kvs, Key n) \<Rightarrow> JObj (set_entry n v kvs)
      | (JArr xs, Idx i) \<Rightarrow> JArr (xs[i := v])
      | _ \<Rightarrow> j)"

fun set_at :: "json \<Rightarrow> path \<Rightarrow> json \<Rightarrow> json" where
  "set_at j [] v = v"
| "set_at j (k # ks) v = (case child j k of None \<Rightarrow> j | Some c \<Rightarrow> set_child j k (set_at c ks v))"

text \<open>\<^verbatim>\<open>size\<close>: the objects of a tree.\<close>

fun node_count :: "json \<Rightarrow> nat" where
  "node_count (JArr xs) = sum_list (map node_count xs)"
| "node_count (JObj kvs) = 1 + sum_list (map node_count (map snd kvs))"
| "node_count _ = 0"

subsection \<open>Statement lists\<close>

definition field :: "string \<Rightarrow> json \<Rightarrow> json" where
  "field k j = (case child j (Key k) of None \<Rightarrow> JNull | Some v \<Rightarrow> v)"

fun elements :: "json \<Rightarrow> json list" where
  "elements (JArr xs) = xs"
| "elements _ = []"

text \<open>
  A list \<^verbatim>\<open>lists\<close> addresses: where its array stands in the tree, and its statements with their
  places. A control body that is no block is handed over in a fresh array, which stands nowhere.
\<close>

type_synonym addressed = "path option \<times> (path \<times> json) list"

definition array_at :: "path \<Rightarrow> json \<Rightarrow> addressed" where
  "array_at p j = (Some p, map (\<lambda>(i, x). (p @ [Idx i], x)) (enumerate 0 (elements j)))"

definition body_at :: "path \<Rightarrow> json \<Rightarrow> addressed" where
  "body_at p b =
     (if field ''type'' b = JStr ''BlockStatement'' then array_at (p @ [Key ''body'']) (field ''body'' b)
      else (None, [(p, b)]))"

definition nested_lists :: "path \<times> json \<Rightarrow> addressed list" where
  "nested_lists = (\<lambda>(p, s).
     let t = field ''type'' s
     in if t = JStr ''BlockStatement'' then [array_at (p @ [Key ''body'']) (field ''body'' s)]
        else if t = JStr ''IfStatement'' then
          body_at (p @ [Key ''consequent'']) (field ''consequent'' s)
            # (if field ''alternate'' s = JNull then []
               else [body_at (p @ [Key ''alternate'']) (field ''alternate'' s)])
        else if t \<in> {JStr ''WhileStatement'', JStr ''DoWhileStatement'', JStr ''ForStatement''} then
          [body_at (p @ [Key ''body'']) (field ''body'' s)]
        else if t = JStr ''SwitchStatement'' then
          map (\<lambda>(i, c). array_at (p @ [Key ''cases'', Idx i, Key ''consequent'']) (field ''consequent'' c))
            (enumerate 0 (elements (field ''cases'' s)))
        else [])"

lemma size_child: "child j k = Some c \<Longrightarrow> size c < size j"
proof (cases "(j, k)" rule: child.cases)
  case (1 kvs n)
  assume "child j k = Some c"
  with 1 have "(n, c) \<in> set kvs" by (simp add: map_of_SomeD)
  then have "size c < size_list (size_prod (\<lambda>_. 0) size) kvs"
    by (induction kvs) auto
  with 1 show ?thesis by simp
next
  case (2 xs i)
  assume "child j k = Some c"
  with 2 have "c \<in> set xs" by (auto split: if_splits)
  then have "size c < size_list size xs" by (induction xs) auto
  with 2 show ?thesis by simp
qed simp_all

lemma size_field: "size (field k j) \<le> size j"
proof (cases "child j (Key k)")
  case (Some c)
  with size_child [OF Some] show ?thesis by (simp add: field_def)
qed (simp add: field_def)

lemma size_field_less: "field k j \<noteq> JNull \<Longrightarrow> size (field k j) < size j"
  by (auto simp: field_def split: option.splits dest: size_child)

definition items_size :: "addressed \<Rightarrow> nat" where
  "items_size a = size_list size (map snd (snd a))"

lemma size_list_less: "x \<in> set xs \<Longrightarrow> size x < size_list size xs"
  by (induction xs) auto

lemma in_enumerate: "(i, x) \<in> set (enumerate 0 xs) \<longleftrightarrow> i < length xs \<and> x = xs ! i"
  by (auto simp: in_set_enumerate_eq)

lemma size_enumerate [termination_simp]: "(i, x) \<in> set (enumerate 0 xs) \<Longrightarrow> size x < Suc (size_list size xs)"
  using size_list_less [of x xs] by (auto simp: in_enumerate)

lemma size_pairs [termination_simp]:
  "(k, v) \<in> set kvs \<Longrightarrow> size v < Suc (size_list (size_prod (\<lambda>_. 0) size) kvs)"
  by (induction kvs) auto

lemma items_size_array: "items_size (array_at p j) \<le> size j"
proof -
  have "map snd (snd (array_at p j)) = elements j"
    by (simp add: array_at_def enumerate_eq_zip split_beta o_def)
  then show ?thesis by (cases j) (simp_all add: items_size_def)
qed

lemma size_elements: "x \<in> set (elements j) \<Longrightarrow> size x < size j"
proof (cases j)
  case (JArr xs)
  assume "x \<in> set (elements j)"
  with JArr have "x \<in> set xs" by simp
  with size_list_less have "size x < size_list size xs" .
  with JArr show ?thesis by simp
qed simp_all

lemma size_field_typed: "field ''type'' s = JStr t \<Longrightarrow> size (field k s) < size s"
proof -
  assume "field ''type'' s = JStr t"
  then have "0 < size s" by (cases s) (simp_all add: field_def)
  then show ?thesis using size_child [of s "Key k"] by (auto simp: field_def split: option.splits)
qed

lemma items_size_body: "size b < n \<Longrightarrow> items_size (body_at p b) \<le> n"
  using items_size_array [of "p @ [Key ''body'']" "field ''body'' b"] size_field [of "''body''" b]
  by (auto simp: body_at_def items_size_def)

lemma nested_lists_cases:
  assumes "a \<in> set (nested_lists (p, s))"
  obtains q k where "a = array_at q (field k s)" | q k where "a = body_at q (field k s)"
    | q k i c where "(i, c) \<in> set (enumerate 0 (elements (field ''cases'' s)))" "a = array_at q (field k c)"
  using assms by (fastforce simp: nested_lists_def Let_def split: if_splits)

lemma items_size_nested: "a \<in> set (nested_lists (p, s)) \<Longrightarrow> items_size a \<le> size s"
proof -
  assume a: "a \<in> set (nested_lists (p, s))"
  then obtain t where t: "field ''type'' s = JStr t"
    by (auto simp: nested_lists_def Let_def split: if_splits)
  note typed = size_field_typed [OF t]
  from a show ?thesis
  proof (cases rule: nested_lists_cases)
    case (1 q k)
    with items_size_array [of q "field k s"] typed [of k] show ?thesis by simp
  next
    case (2 q k)
    with items_size_body [OF typed] show ?thesis by simp
  next
    case (3 q k i c)
    then have "c \<in> set (elements (field ''cases'' s))" by (auto simp: in_enumerate)
    from size_elements [OF this] typed [of "''cases''"] items_size_array [of q "field k c"] size_field [of k c]
    show ?thesis unfolding 3(2) by linarith
  qed
qed

text \<open>\<^verbatim>\<open>lists\<close>: every statement list of the program.\<close>

function walk_lists :: "addressed \<Rightarrow> addressed list" where
  "walk_lists a = a # concat (map (\<lambda>x. concat (map walk_lists (nested_lists x))) (snd a))"
  by pat_completeness auto

termination
proof (relation "measure items_size")
  fix a :: addressed and x b
  assume x: "x \<in> set (snd a)" and b: "b \<in> set (nested_lists x)"
  obtain p s where "x = (p, s)" by (cases x)
  with b have "items_size b \<le> size s" using items_size_nested by blast
  moreover have "s \<in> set (map snd (snd a))" using x \<open>x = (p, s)\<close> by force
  then have "size s < items_size a" unfolding items_size_def by (rule size_list_less)
  ultimately show "(b, a) \<in> measure items_size" by simp
qed simp

declare walk_lists.simps [simp del]

definition procs_of :: "json \<Rightarrow> json list" where
  "procs_of gen = elements (field ''procs'' gen)"

definition lists :: "json \<Rightarrow> addressed list" where
  "lists gen = concat (map (\<lambda>(i, p). walk_lists (array_at [Key ''procs'', Idx i, Key ''body''] (field ''body'' p)))
     (enumerate 0 (procs_of gen)))"

text \<open>\<^verbatim>\<open>withoutOne\<close>, and the candidates made of one list: a fresh array's are the program itself.\<close>

definition without_one :: "'a list \<Rightarrow> 'a list list" where
  "without_one xs = map (\<lambda>i. take i xs @ drop (Suc i) xs) [0 ..< length xs]"

definition with_list :: "json \<Rightarrow> path option \<Rightarrow> json list \<Rightarrow> json" where
  "with_list gen loc xs = (case loc of None \<Rightarrow> gen | Some p \<Rightarrow> set_at gen p (JArr xs))"

definition removals :: "json \<Rightarrow> addressed \<Rightarrow> json list" where
  "removals gen a = map (with_list gen (fst a)) (without_one (map snd (snd a)))"

subsection \<open>Expressions\<close>

definition expression_types :: "string list" where
  "expression_types =
     [''CastExpression'', ''AssignmentExpression'', ''ConditionalExpression'', ''LogicalExpression'',
      ''BinaryExpression'', ''UnaryExpression'', ''UpdateExpression'', ''CallExpression'', ''Literal'', ''Identifier'']"

definition is_expression :: "json \<Rightarrow> bool" where
  "is_expression j = (case field ''type'' j of JStr t \<Rightarrow> t \<in> set expression_types | _ \<Rightarrow> False)"

fun expression_paths :: "json \<Rightarrow> path \<Rightarrow> path list" where
  "expression_paths (JArr xs) at =
     concat (map (\<lambda>(i, x). expression_paths x (at @ [Idx i])) (enumerate 0 xs))"
| "expression_paths (JObj kvs) at =
     (if is_expression (JObj kvs) \<and> at \<noteq> [] then [at] else [])
       @ concat (map (\<lambda>(k, v). expression_paths v (at @ [Key k])) kvs)"
| "expression_paths _ at = []"

definition json_lit :: "nat \<Rightarrow> json" where
  "json_lit v = JObj [(''type'', JStr ''Literal''), (''value'', JNum (int v)), (''raw'', JStr (if v = 0 then ''0'' else ''1''))]"

definition child_list :: "json \<Rightarrow> json list" where
  "child_list j = (case j of JObj kvs \<Rightarrow> map snd kvs | JArr xs \<Rightarrow> xs | _ \<Rightarrow> [])"

definition replacements :: "json \<Rightarrow> json list" where
  "replacements node = [json_lit 0, json_lit 1] @ filter is_expression (child_list node)"

subsection \<open>\<^verbatim>\<open>shrink\<close>\<close>

definition drop_proc :: "nat \<Rightarrow> json \<Rightarrow> json" where
  "drop_proc i gen = set_at gen [Key ''procs''] (JArr (take i (procs_of gen) @ drop (Suc i) (procs_of gen)))"

definition drop_procs :: "(json \<Rightarrow> bool) \<Rightarrow> json \<Rightarrow> json \<times> bool" where
  "drop_procs fails gen =
     foldl (\<lambda>(best, progress) i. if fails (drop_proc i best) then (drop_proc i best, True) else (best, progress))
       (gen, False) (rev [1 ..< length (procs_of gen)])"

text \<open>The first candidate that is smaller and still shows the finding.\<close>

definition accepted :: "(json \<Rightarrow> bool) \<Rightarrow> json \<Rightarrow> json list \<Rightarrow> json option" where
  "accepted fails best cs = find (\<lambda>c. node_count c < node_count best \<and> fails c) cs"

lemma accepted_Some: "accepted fails best cs = Some c \<Longrightarrow> c \<in> set cs \<and> node_count c < node_count best \<and> fails c"
  by (auto simp: accepted_def find_Some_iff)

lemma accepted_None: "accepted fails best cs = None \<longleftrightarrow> (\<forall>c \<in> set cs. node_count c < node_count best \<longrightarrow> \<not> fails c)"
  by (auto simp: accepted_def find_None_iff)

function remove_stmts :: "(json \<Rightarrow> bool) \<Rightarrow> nat \<Rightarrow> json \<Rightarrow> bool \<Rightarrow> json \<times> bool" where
  "remove_stmts fails at best progress =
     (if at < length (lists best) then
        (case accepted fails best (removals best (lists best ! at)) of
           Some c \<Rightarrow> remove_stmts fails (Suc at) c True
         | None \<Rightarrow> remove_stmts fails (Suc at) best progress)
      else (best, progress))"
  by pat_completeness auto

termination
  by (relation "measures [\<lambda>(fails, at, best, progress). node_count best, \<lambda>(fails, at, best, progress). length (lists best) - at]")
    (auto dest: accepted_Some)

declare remove_stmts.simps [simp del]

fun replace_exprs :: "(json \<Rightarrow> bool) \<Rightarrow> path list \<Rightarrow> json \<Rightarrow> bool \<Rightarrow> string + json \<times> bool" where
  "replace_exprs fails [] best progress = Inr (best, progress)"
| "replace_exprs fails (at # paths) best progress =
     bindr (get_at best at) (\<lambda>node.
     case node of
       None \<Rightarrow> replace_exprs fails paths best progress
     | Some n \<Rightarrow>
         (case accepted fails best (map (set_at best at) (replacements n)) of
            Some c \<Rightarrow> replace_exprs fails paths c True
          | None \<Rightarrow> replace_exprs fails paths best progress))"

definition deepest_first :: "path list \<Rightarrow> path list" where
  "deepest_first ps = sort_key (\<lambda>p. - int (length p)) ps"

definition shrink_pass :: "(json \<Rightarrow> bool) \<Rightarrow> json \<Rightarrow> string + json \<times> bool" where
  "shrink_pass fails best =
     (let (b1, p1) = drop_procs fails best; (b2, p2) = remove_stmts fails 0 b1 p1
      in replace_exprs fails (deepest_first (expression_paths b2 [])) b2 p2)"

end
