(* ===== verification/Shrink.thy ===== *)
theory Shrink
  imports Minimize
begin

section \<open>Shrinking ends, on a smaller program that still fails\<close>

text \<open>
  The outer loop of \<^verbatim>\<open>shrink\<close> and its correctness. A write at a path that exists changes the
  number of nodes by the difference of the subtrees, and leaves every path in place that does
  not go through it. Trying the deepest paths first is then what keeps the collected paths
  valid, and the number of nodes, with the number of procedures, is what makes the loop end.
\<close>

subsection \<open>Writing into a tree\<close>

definition has_path :: "json \<Rightarrow> path \<Rightarrow> bool" where
  "has_path j p \<longleftrightarrow> (\<exists>c. get_at j p = Inr (Some c))"

lemma has_path_Nil [simp]: "has_path j []"
  by (simp add: has_path_def)

lemma has_path_Cons: "has_path j (k # p) \<longleftrightarrow> (\<exists>c. child j k = Some c \<and> has_path c p)"
  by (cases j) (auto simp: has_path_def split: option.splits if_splits)

lemma get_at_Cons: "child j k = Some c \<Longrightarrow> get_at j (k # p) = get_at c p"
  by (cases j) auto

lemma map_of_set_entry: "map_of kvs k = Some c \<Longrightarrow> map_of (set_entry k v kvs) k' = (if k' = k then Some v else map_of kvs k')"
  by (induction kvs) auto

lemma child_set_child: "child j k = Some c \<Longrightarrow> child (set_child j k v) k' = (if k' = k then Some v else child j k')"
  by (cases "(j, k)" rule: child.cases; cases k')
    (auto simp: set_child_def map_of_set_entry split: if_splits)

lemma node_count_set_entry:
  "map_of kvs k = Some c \<Longrightarrow>
    sum_list (map node_count (map snd (set_entry k v kvs))) + node_count c = sum_list (map node_count (map snd kvs)) + node_count v"
  by (induction kvs) auto

lemma node_count_update:
  "i < length xs \<Longrightarrow> sum_list (map node_count (xs[i := v])) + node_count (xs ! i) = sum_list (map node_count xs) + node_count v"
  by (induction xs arbitrary: i) (auto split: nat.splits)

lemma node_count_set_child:
  "child j k = Some c \<Longrightarrow> node_count (set_child j k v) + node_count c = node_count j + node_count v"
  using node_count_set_entry node_count_update
  by (cases "(j, k)" rule: child.cases) (fastforce simp: set_child_def split: if_splits)+

lemma node_count_set_at:
  "get_at j p = Inr (Some c) \<Longrightarrow> node_count (set_at j p v) + node_count c = node_count j + node_count v"
proof (induction p arbitrary: j)
  case (Cons k p)
  then obtain d where d: "child j k = Some d" using has_path_Cons [of j k p] by (auto simp: has_path_def)
  with Cons have "node_count (set_at d p v) + node_count c = node_count d + node_count v"
    by (simp add: get_at_Cons del: get_at.simps)
  with node_count_set_child [OF d, of "set_at d p v"] d show ?case by simp
qed simp

lemma map_fst_set_entry: "map fst (set_entry k v kvs) = map fst kvs"
  by (induction kvs) auto

lemma json_ok_set_entry: "list_all json_ok (map snd kvs) \<Longrightarrow> json_ok v \<Longrightarrow> list_all json_ok (map snd (set_entry k v kvs))"
  by (induction kvs) auto

lemma json_ok_update: "list_all json_ok xs \<Longrightarrow> json_ok v \<Longrightarrow> list_all json_ok (xs[i := v])"
  by (induction xs arbitrary: i) (auto split: nat.splits)

lemma json_ok_set_child: "json_ok j \<Longrightarrow> json_ok v \<Longrightarrow> json_ok (set_child j k v)"
  by (cases j; cases k) (simp_all add: set_child_def map_fst_set_entry json_ok_set_entry json_ok_update)

lemma json_ok_child: "json_ok j \<Longrightarrow> child j k = Some c \<Longrightarrow> json_ok c"
  by (cases "(j, k)" rule: child.cases) (auto simp: list_all_iff dest: map_of_SomeD split: if_splits)

lemma json_ok_set_at: "json_ok j \<Longrightarrow> json_ok v \<Longrightarrow> json_ok (set_at j p v)"
  by (induction p arbitrary: j) (auto split: option.splits intro: json_ok_set_child json_ok_child)

lemma json_ok_get_at: "json_ok j \<Longrightarrow> get_at j p = Inr (Some c) \<Longrightarrow> json_ok c"
  by (induction p arbitrary: j) (auto split: option.splits if_splits dest: json_ok_child)

lemma json_ok_field: "json_ok j \<Longrightarrow> json_ok (field k j)"
  by (auto simp: field_def split: option.splits dest: json_ok_child)

lemma json_ok_elements: "json_ok j \<Longrightarrow> list_all json_ok (elements j)"
  by (cases j) simp_all

text \<open>A write disturbs no path but those strictly below it.\<close>

lemma set_at_keeps_path:
  "has_path j p \<Longrightarrow> has_path j q \<Longrightarrow> length q \<le> length p \<Longrightarrow> has_path (set_at j p v) q"
proof (induction p arbitrary: j q)
  case (Cons k p)
  then obtain c where c: "child j k = Some c" "has_path c p" by (auto simp: has_path_Cons)
  show ?case
  proof (cases q)
    case (Cons k' q')
    with Cons.prems(2) obtain d where d: "child j k' = Some d" "has_path d q'" by (auto simp: has_path_Cons)
    have "child (set_at j (k # p) v) k' = (if k' = k then Some (set_at c p v) else child j k')"
      using c(1) by (simp add: child_set_child)
    moreover have "k' = k \<Longrightarrow> has_path (set_at c p v) q'"
      using Cons.IH [OF c(2)] Cons.prems(3) c(1) d Cons by simp
    ultimately show ?thesis using d Cons by (auto simp: has_path_Cons)
  qed simp
qed simp

subsection \<open>The collected paths exist\<close>

lemma expression_paths_exist:
  "q \<in> set (expression_paths j at) \<Longrightarrow> json_ok j \<Longrightarrow> \<exists>p. q = at @ p \<and> has_path j p"
proof (induction j at arbitrary: q rule: expression_paths.induct)
  case (1 xs at)
  then obtain i where i: "i < length xs" "q \<in> set (expression_paths (xs ! i) (at @ [Idx i]))"
    by (auto simp: in_enumerate)
  with 1(1) [of "(i, xs ! i)" i "xs ! i" q] 1(3) obtain p where "q = (at @ [Idx i]) @ p" "has_path (xs ! i) p"
    by (auto simp: in_enumerate list_all_length)
  with i(1) show ?case by (intro exI [of _ "Idx i # p"]) (simp add: has_path_Cons)
next
  case (2 kvs at)
  show ?case
  proof (cases "q = at")
    case False
    with 2(2) obtain k v where kv: "(k, v) \<in> set kvs" "q \<in> set (expression_paths v (at @ [Key k]))"
      by (auto split: if_splits)
    with 2(3) have "json_ok v" "map_of kvs k = Some v" by (auto simp: list_all_iff)
    with 2(1) [of "(k, v)" k v q] kv obtain p where "q = (at @ [Key k]) @ p" "has_path v p" by auto
    with \<open>map_of kvs k = Some v\<close> show ?thesis by (intro exI [of _ "Key k # p"]) (simp add: has_path_Cons)
  qed (auto intro: exI [of _ "[]"])
qed simp_all

subsection \<open>The statement lists are parts of the program\<close>

lemma array_items_ok: "json_ok j \<Longrightarrow> (q, x) \<in> set (snd (array_at p j)) \<Longrightarrow> json_ok x"
  using json_ok_elements [of j] by (auto simp: array_at_def in_enumerate list_all_length)

lemma body_items_ok: "json_ok b \<Longrightarrow> (q, x) \<in> set (snd (body_at p b)) \<Longrightarrow> json_ok x"
  using array_items_ok [OF json_ok_field] by (auto simp: body_at_def split: if_splits)

lemma nested_items_ok:
  assumes "json_ok s" and "a \<in> set (nested_lists (p, s))" and "(q, x) \<in> set (snd a)"
  shows "json_ok x"
  using assms(2)
proof (cases rule: nested_lists_cases)
  case (3 r k i c)
  then have "json_ok c"
    using json_ok_elements [OF json_ok_field [OF assms(1)], of "''cases''"] by (auto simp: in_enumerate list_all_length)
  with 3(2) assms(3) array_items_ok [OF json_ok_field] show ?thesis by blast
qed (use assms(1,3) array_items_ok [OF json_ok_field] body_items_ok [OF json_ok_field] in blast)+

lemma walk_lists_ok:
  "a \<in> set (walk_lists b) \<Longrightarrow> (\<And>q x. (q, x) \<in> set (snd b) \<Longrightarrow> json_ok x) \<Longrightarrow> (q, x) \<in> set (snd a) \<Longrightarrow> json_ok x"
proof (induction b rule: walk_lists.induct)
  case (1 b)
  show ?case
  proof (cases "a = b")
    case False
    with 1(2) obtain y c where y: "y \<in> set (snd b)" "c \<in> set (nested_lists y)" "a \<in> set (walk_lists c)"
      by (subst (asm) walk_lists.simps) auto
    obtain p s where ps: "y = (p, s)" by (cases y)
    with 1(3) y(1) have "json_ok s" by blast
    show ?thesis
      by (rule 1(1) [OF y(1,2,3) _ 1(4)]) (use nested_items_ok [OF \<open>json_ok s\<close>] y(2) ps in blast)
  qed (use 1 in blast)
qed

lemma lists_ok: "json_ok gen \<Longrightarrow> a \<in> set (lists gen) \<Longrightarrow> (q, x) \<in> set (snd a) \<Longrightarrow> json_ok x"
proof -
  assume gen: "json_ok gen" and a: "a \<in> set (lists gen)" and x: "(q, x) \<in> set (snd a)"
  from a obtain i p where p: "(i, p) \<in> set (enumerate 0 (procs_of gen))"
    "a \<in> set (walk_lists (array_at [Key ''procs'', Idx i, Key ''body''] (field ''body'' p)))"
    by (auto simp: lists_def)
  have "json_ok p"
    using p(1) json_ok_elements [OF json_ok_field [OF gen]] by (auto simp: procs_of_def in_enumerate list_all_length)
  from array_items_ok [OF json_ok_field [OF this]] have "\<And>r y. (r, y) \<in> set (snd (array_at [Key ''procs'', Idx i, Key ''body''] (field ''body'' p))) \<Longrightarrow> json_ok y" .
  from walk_lists_ok [OF p(2) this x] show "json_ok x" .
qed

lemma list_all_without: "list_all P xs \<Longrightarrow> list_all P (take i xs @ drop (Suc i) xs)"
  by (auto simp: list_all_iff dest: in_set_takeD in_set_dropD)

lemma json_ok_lit: "json_ok (json_lit v)"
  by (simp add: json_lit_def)

lemma json_ok_replacements: "json_ok n \<Longrightarrow> c \<in> set (replacements n) \<Longrightarrow> json_ok c"
  by (cases n) (auto simp: replacements_def child_list_def json_ok_lit list_all_iff)

lemma json_ok_removals: "json_ok gen \<Longrightarrow> a \<in> set (lists gen) \<Longrightarrow> c \<in> set (removals gen a) \<Longrightarrow> json_ok c"
proof -
  assume gen: "json_ok gen" and a: "a \<in> set (lists gen)" and c: "c \<in> set (removals gen a)"
  then obtain i where i: "c = with_list gen (fst a) (take i (map snd (snd a)) @ drop (Suc i) (map snd (snd a)))"
    by (auto simp: removals_def without_one_def)
  have "list_all json_ok (map snd (snd a))" using lists_ok [OF gen a] by (auto simp: list_all_iff)
  from list_all_without [OF this] have "json_ok (JArr (take i (map snd (snd a)) @ drop (Suc i) (map snd (snd a))))" by simp
  then show "json_ok c" unfolding i using gen by (auto simp: with_list_def json_ok_set_at simp del: json_ok.simps split: option.splits)
qed

lemma json_ok_drop_proc: "json_ok gen \<Longrightarrow> json_ok (drop_proc i gen)"
proof -
  assume gen: "json_ok gen"
  have "list_all json_ok (procs_of gen)" unfolding procs_of_def by (rule json_ok_elements [OF json_ok_field [OF gen]])
  from list_all_without [OF this] have "json_ok (JArr (take i (procs_of gen) @ drop (Suc i) (procs_of gen)))" by simp
  with gen show ?thesis unfolding drop_proc_def by (rule json_ok_set_at)
qed

subsection \<open>The size of a candidate\<close>

lemma procs_of_drop: "i < length (procs_of gen) \<Longrightarrow> procs_of (drop_proc i gen) = take i (procs_of gen) @ drop (Suc i) (procs_of gen)"
  by (cases "child gen (Key ''procs'')") (auto simp: procs_of_def drop_proc_def field_def child_set_child)

lemma sum_list_drop: "sum_list (map f (take i xs @ drop (Suc i) xs)) \<le> (sum_list (map f xs) :: nat)"
proof -
  have "sum_list (map f (tl ys)) \<le> sum_list (map f ys)" for ys by (cases ys) simp_all
  moreover have "drop (Suc i) xs = tl (drop i xs)" by (simp add: drop_Suc tl_drop)
  moreover have "sum_list (map f xs) = sum_list (map f (take i xs)) + sum_list (map f (drop i xs))"
    by (metis append_take_drop_id map_append sum_list_append)
  ultimately show ?thesis by simp
qed

lemma node_count_drop: "node_count (drop_proc i gen) \<le> node_count gen"
proof (cases "child gen (Key ''procs'')")
  case (Some c)
  define ps where "ps = take i (procs_of gen) @ drop (Suc i) (procs_of gen)"
  have "sum_list (map node_count (elements c)) \<le> node_count c" by (cases c) simp_all
  moreover have "procs_of gen = elements c" using Some by (simp add: procs_of_def field_def)
  ultimately have "node_count (JArr ps) \<le> node_count c"
    using sum_list_drop [of node_count i "procs_of gen"] by (simp add: ps_def)
  moreover have "node_count (drop_proc i gen) + node_count c = node_count gen + node_count (JArr ps)"
    unfolding drop_proc_def ps_def [symmetric] using node_count_set_child [OF Some] Some by simp
  ultimately show ?thesis by linarith
qed (simp add: drop_proc_def)

subsection \<open>What a pass does\<close>

text \<open>
  A step from one program to the next: it keeps what a tree is and the finding, and it is
  progress exactly when the number of nodes, or with it the number of procedures, goes down.
\<close>

definition measured :: "json \<Rightarrow> nat \<times> nat" where
  "measured j = (node_count j, length (procs_of j))"

definition smaller :: "json \<Rightarrow> json \<Rightarrow> bool" where
  "smaller c b \<longleftrightarrow> node_count c < node_count b
     \<or> (node_count c = node_count b \<and> length (procs_of c) < length (procs_of b))"

definition step :: "(json \<Rightarrow> bool) \<Rightarrow> json \<Rightarrow> json \<Rightarrow> bool" where
  "step fails b c \<longleftrightarrow> (json_ok b \<longrightarrow> json_ok c) \<and> (c = b \<or> (smaller c b \<and> fails c))"

lemma smaller_trans: "smaller c b \<Longrightarrow> smaller d c \<Longrightarrow> smaller d b"
  by (auto simp: smaller_def)

lemma step_refl [simp]: "step fails b b"
  by (simp add: step_def)

lemma step_trans: "step fails b c \<Longrightarrow> step fails c d \<Longrightarrow> step fails b d"
  by (auto simp: step_def dest: smaller_trans)

definition passes :: "(json \<Rightarrow> bool) \<Rightarrow> json \<Rightarrow> json \<times> bool \<Rightarrow> bool" where
  "passes fails b r \<longleftrightarrow> step fails b (fst r) \<and> (snd r \<longleftrightarrow> smaller (fst r) b)"

lemma not_smaller_refl [simp]: "\<not> smaller b b"
  by (simp add: smaller_def)

lemma passes_start [simp]: "passes fails b (b, False)"
  by (simp add: passes_def)

lemma passes_accept:
  assumes "passes fails b (c, p)" and "json_ok c \<Longrightarrow> json_ok d" and "smaller d c" and "fails d"
  shows "passes fails b (d, True)"
proof -
  have "step fails c d" using assms(2-4) by (simp add: step_def)
  moreover have "smaller d b" using assms(1,3) smaller_trans by (auto simp: passes_def step_def)
  ultimately show ?thesis using assms(1) step_trans by (auto simp: passes_def)
qed

lemma drop_smaller: "i < length (procs_of b) \<Longrightarrow> smaller (drop_proc i b) b"
  using node_count_drop [of i b] procs_of_drop [of i b] by (auto simp: smaller_def)

lemma drop_loop:
  assumes "\<forall>i \<in> set is. i < length (procs_of b)" and "sorted_wrt (>) is" and "passes fails g (b, p)"
  shows "passes fails g (foldl (\<lambda>(best, progress) i. if fails (drop_proc i best) then (drop_proc i best, True) else (best, progress)) (b, p) is)"
  using assms
proof (induction "is" arbitrary: b p)
  case (Cons i js)
  have i: "i < length (procs_of b)" using Cons.prems(1) by simp
  show ?case
  proof (cases "fails (drop_proc i b)")
    case True
    have "passes fails g (drop_proc i b, True)"
      by (rule passes_accept [OF Cons.prems(3) json_ok_drop_proc drop_smaller [OF i] True])
    moreover have "\<forall>j \<in> set js. j < length (procs_of (drop_proc i b))"
      using Cons.prems(2) i by (auto simp: procs_of_drop)
    ultimately show ?thesis using Cons.IH [of "drop_proc i b" True] Cons.prems(2) True by simp
  next
    case False
    then show ?thesis using Cons.IH [of b p] Cons.prems by simp
  qed
qed simp

lemma drop_procs_passes: "passes fails b (drop_procs fails b)"
  unfolding drop_procs_def by (rule drop_loop) (simp_all add: sorted_wrt_rev)

lemma accepted_smaller: "accepted fails b cs = Some c \<Longrightarrow> smaller c b \<and> fails c \<and> c \<in> set cs"
  using accepted_Some [of fails b cs c] by (simp add: smaller_def)

lemma remove_stmts_passes: "passes fails g (b, p) \<Longrightarrow> passes fails g (remove_stmts fails at b p)"
proof (induction fails at b p rule: remove_stmts.induct)
  case (1 fails at b p)
  show ?case
  proof (cases "at < length (lists b)")
    case True
    show ?thesis
    proof (cases "accepted fails b (removals b (lists b ! at))")
      case None
      with 1(1) [OF True None] 1(3) True show ?thesis by (subst remove_stmts.simps) simp
    next
      case (Some c)
      note acc = accepted_smaller [OF Some]
      have "json_ok b \<Longrightarrow> json_ok c" using json_ok_removals [of b "lists b ! at" c] True acc by simp
      from passes_accept [OF 1(3) this] acc have "passes fails g (c, True)" by blast
      with 1(2) [OF True Some] True Some show ?thesis by (subst remove_stmts.simps) simp
    qed
  next
    case False
    with 1(3) show ?thesis by (subst remove_stmts.simps) simp
  qed
qed

text \<open>No read of the third loop fails: the paths still to be tried are as short as the last or shorter.\<close>

lemma replace_exprs_passes:
  assumes "sorted_wrt (\<lambda>p q. length q \<le> length p) ps" and "\<forall>p \<in> set ps. has_path b p"
    and "passes fails g (b, prog)" and "json_ok b"
  shows "\<exists>r. replace_exprs fails ps b prog = Inr r \<and> passes fails g r"
  using assms
proof (induction ps arbitrary: b prog)
  case (Cons p ps)
  obtain n where n: "get_at b p = Inr (Some n)" using Cons.prems(2) by (auto simp: has_path_def)
  show ?case
  proof (cases "accepted fails b (map (set_at b p) (replacements n))")
    case None
    with Cons n show ?thesis by simp
  next
    case (Some c)
    note acc = accepted_smaller [OF Some]
    then obtain v where v: "c = set_at b p v" "v \<in> set (replacements n)" by auto
    have "json_ok c"
      unfolding v(1) by (rule json_ok_set_at [OF Cons.prems(4) json_ok_replacements [OF json_ok_get_at [OF Cons.prems(4) n] v(2)]])
    moreover have "\<forall>q \<in> set ps. has_path c q"
      unfolding v(1) using Cons.prems(1,2) by (auto intro: set_at_keeps_path)
    moreover have "passes fails g (c, True)"
      by (rule passes_accept [OF Cons.prems(3)]) (use acc \<open>json_ok c\<close> in simp_all)
    ultimately show ?thesis using Cons.IH [of c True] Cons.prems(1) Some n by simp
  qed
qed simp

lemma deepest_first_sorted: "sorted_wrt (\<lambda>p q. length q \<le> length p) (deepest_first ps)"
proof -
  have "sorted (map (\<lambda>p. - int (length p)) (deepest_first ps))" unfolding deepest_first_def by (rule sorted_sort_key)
  then show ?thesis by (simp add: sorted_map)
qed

lemma shrink_pass_passes:
  assumes "json_ok b"
  shows "\<exists>r. shrink_pass fails b = Inr r \<and> passes fails b r"
proof -
  obtain b1 p1 where 1: "drop_procs fails b = (b1, p1)" by (cases "drop_procs fails b")
  obtain b2 p2 where 2: "remove_stmts fails 0 b1 p1 = (b2, p2)" by (cases "remove_stmts fails 0 b1 p1")
  have "passes fails b (b2, p2)"
    using drop_procs_passes [of fails b] remove_stmts_passes [of fails b b1 p1 0] 1 2 by simp
  moreover from this have "json_ok b2" using assms by (simp add: passes_def step_def)
  moreover have "\<forall>p \<in> set (deepest_first (expression_paths b2 [])). has_path b2 p"
    using expression_paths_exist [OF _ \<open>json_ok b2\<close>] by (fastforce simp: deepest_first_def)
  ultimately obtain r where "replace_exprs fails (deepest_first (expression_paths b2 [])) b2 p2 = Inr r" "passes fails b r"
    using replace_exprs_passes [OF deepest_first_sorted] by blast
  then show ?thesis by (intro exI [of _ r]) (simp add: shrink_pass_def 1 2)
qed

text \<open>The outer loop.\<close>

lemma replace_exprs_smaller:
  "replace_exprs fails ps b p = Inr (c, q) \<Longrightarrow> c = b \<and> q = p \<or> smaller c b \<and> q"
proof (induction fails ps b p rule: replace_exprs.induct)
  case (2 fails p ps b prog)
  then obtain x where x: "get_at b p = Inr x" by (auto simp: bindr_eq_Inr)
  show ?case
  proof (cases x)
    case None
    with 2 x show ?thesis by simp
  next
    case (Some n)
    show ?thesis
    proof (cases "accepted fails b (map (set_at b p) (replacements n))")
      case None
      with 2(2) [OF x Some None] 2(4) x Some show ?thesis by simp
    next
      case acc: (Some d)
      with 2(3) [OF x Some acc] 2(4) x Some have "c = d \<and> q \<or> smaller c d \<and> q" by simp
      with accepted_smaller [OF acc] show ?thesis by (auto intro: smaller_trans)
    qed
  qed
qed simp

lemma shrink_pass_smaller: "shrink_pass fails b = Inr (c, True) \<Longrightarrow> smaller c b"
proof -
  assume pass: "shrink_pass fails b = Inr (c, True)"
  obtain b1 p1 where 1: "drop_procs fails b = (b1, p1)" by (cases "drop_procs fails b")
  obtain b2 p2 where 2: "remove_stmts fails 0 b1 p1 = (b2, p2)" by (cases "remove_stmts fails 0 b1 p1")
  have "passes fails b (b2, p2)"
    using drop_procs_passes [of fails b] remove_stmts_passes [of fails b b1 p1 0] 1 2 by simp
  moreover have "replace_exprs fails (deepest_first (expression_paths b2 [])) b2 p2 = Inr (c, True)"
    using pass by (simp add: shrink_pass_def 1 2)
  from replace_exprs_smaller [OF this] have "c = b2 \<and> p2 \<or> smaller c b2" by auto
  ultimately show ?thesis by (auto simp: passes_def step_def intro: smaller_trans)
qed

function shrink :: "(json \<Rightarrow> bool) \<Rightarrow> json \<Rightarrow> string + json" where
  "shrink fails best =
     (case shrink_pass fails best of
        Inl e \<Rightarrow> Inl e
      | Inr (b, progress) \<Rightarrow> if progress then shrink fails b else Inr b)"
  by pat_completeness auto

termination
  by (relation "measures [\<lambda>(fails, b). node_count b, \<lambda>(fails, b). length (procs_of b)]")
    (auto simp: smaller_def dest!: shrink_pass_smaller)

declare shrink.simps [simp del]

subsection \<open>Nothing more comes off\<close>

definition minimal :: "(json \<Rightarrow> bool) \<Rightarrow> json \<Rightarrow> bool" where
  "minimal fails b \<longleftrightarrow>
     (\<forall>i. 1 \<le> i \<and> i < length (procs_of b) \<longrightarrow> \<not> fails (drop_proc i b))
     \<and> (\<forall>a \<in> set (lists b). \<forall>c \<in> set (removals b a). node_count c < node_count b \<longrightarrow> \<not> fails c)
     \<and> (\<forall>p \<in> set (expression_paths b []). \<forall>n. get_at b p = Inr (Some n) \<longrightarrow>
          (\<forall>v \<in> set (replacements n). node_count (set_at b p v) < node_count b \<longrightarrow> \<not> fails (set_at b p v)))"

lemma drop_loop_quiet:
  "foldl (\<lambda>(best, progress) i. if fails (drop_proc i best) then (drop_proc i best, True) else (best, progress)) (b, p) is = (c, False)
    \<Longrightarrow> \<not> p \<and> c = b \<and> (\<forall>i \<in> set is. \<not> fails (drop_proc i b))"
proof (induction "is" arbitrary: b p)
  case (Cons i js)
  show ?case
  proof (cases "fails (drop_proc i b)")
    case True
    with Cons.IH [of "drop_proc i b" True] Cons.prems show ?thesis by simp
  next
    case False
    with Cons.IH [of b p] Cons.prems show ?thesis by simp
  qed
qed simp

lemma remove_stmts_quiet:
  "remove_stmts fails at b p = (c, False) \<Longrightarrow>
    \<not> p \<and> c = b \<and> (\<forall>j. at \<le> j \<and> j < length (lists b) \<longrightarrow> accepted fails b (removals b (lists b ! j)) = None)"
proof (induction fails at b p rule: remove_stmts.induct)
  case (1 fails at b p)
  show ?case
  proof (cases "at < length (lists b)")
    case True
    show ?thesis
    proof (cases "accepted fails b (removals b (lists b ! at))")
      case None
      have "remove_stmts fails (Suc at) b p = (c, False)"
        using 1(3) True None by (subst (asm) remove_stmts.simps) simp
      from 1(1) [OF True None this] None show ?thesis by (metis le_neq_implies_less Suc_leI)
    next
      case (Some d)
      have "remove_stmts fails (Suc at) d True = (c, False)"
        using 1(3) True Some by (subst (asm) remove_stmts.simps) simp
      from 1(2) [OF True Some this] show ?thesis by simp
    qed
  next
    case False
    with 1(3) show ?thesis by (subst (asm) remove_stmts.simps) auto
  qed
qed

lemma replace_exprs_quiet:
  "replace_exprs fails ps b p = Inr (c, False) \<Longrightarrow> \<not> p \<and> c = b \<and>
    (\<forall>q \<in> set ps. \<forall>n. get_at b q = Inr (Some n) \<longrightarrow> accepted fails b (map (set_at b q) (replacements n)) = None)"
proof (induction ps arbitrary: b p)
  case (Cons q ps)
  then obtain x where x: "get_at b q = Inr x" by (auto simp: bindr_eq_Inr)
  show ?case
  proof (cases x)
    case None
    with Cons.IH [of b p] Cons.prems x show ?thesis by simp
  next
    case (Some n)
    show ?thesis
    proof (cases "accepted fails b (map (set_at b q) (replacements n))")
      case None
      with Cons.IH [of b p] Cons.prems x Some show ?thesis by simp
    next
      case acc: (Some d)
      with Cons.IH [of d True] Cons.prems x Some show ?thesis by simp
    qed
  qed
qed simp

lemma shrink_pass_quiet: "shrink_pass fails b = Inr (c, False) \<Longrightarrow> c = b \<and> minimal fails b"
proof -
  assume pass: "shrink_pass fails b = Inr (c, False)"
  obtain b1 p1 where 1: "drop_procs fails b = (b1, p1)" by (cases "drop_procs fails b")
  obtain b2 p2 where 2: "remove_stmts fails 0 b1 p1 = (b2, p2)" by (cases "remove_stmts fails 0 b1 p1")
  have 3: "replace_exprs fails (deepest_first (expression_paths b2 [])) b2 p2 = Inr (c, False)"
    using pass by (simp add: shrink_pass_def 1 2)
  note q3 = replace_exprs_quiet [OF this]
  with 2 have "remove_stmts fails 0 b1 p1 = (b2, False)" by simp
  note q2 = remove_stmts_quiet [OF this]
  with 1 have "drop_procs fails b = (b1, False)" by simp
  note q1 = drop_loop_quiet [OF this [unfolded drop_procs_def]]
  have eq: "b1 = b" "b2 = b" "c = b" using q1 q2 q3 by simp_all
  have "minimal fails b"
    unfolding minimal_def
  proof (intro conjI allI impI ballI)
    fix a d assume "a \<in> set (lists b)" "d \<in> set (removals b a)" "node_count d < node_count b"
    moreover from this(1) q2 eq have "accepted fails b (removals b a) = None" by (auto simp: in_set_conv_nth)
    ultimately show "\<not> fails d" by (simp add: accepted_None)
  next
    fix q n v assume "q \<in> set (expression_paths b [])" "get_at b q = Inr (Some n)" "v \<in> set (replacements n)"
      "node_count (set_at b q v) < node_count b"
    moreover from this(1,2) q3 eq have "accepted fails b (map (set_at b q) (replacements n)) = None"
      by (simp add: deepest_first_def)
    ultimately show "\<not> fails (set_at b q v)" by (simp add: accepted_None)
  qed (use q1 eq in auto)
  with eq show ?thesis by simp
qed

text \<open>
  C17. Whatever the predicate, \<^verbatim>\<open>shrink\<close> of a well-formed tree ends without reading a path that
  is gone. What it returns still shows the finding if the start did, has no more nodes, and is
  minimal: no procedure but the entry, no statement and no expression of it can be taken away
  by one of the reductions without losing the finding.
\<close>

theorem shrink_correct:
  assumes "json_ok gen"
  shows "\<exists>b. shrink fails gen = Inr b \<and> (fails gen \<longrightarrow> fails b) \<and> node_count b \<le> node_count gen
    \<and> json_ok b \<and> minimal fails b"
  using assms
proof (induction fails gen rule: shrink.induct)
  case (1 fails gen)
  from shrink_pass_passes [OF 1(2)] obtain c p where pass: "shrink_pass fails gen = Inr (c, p)" "passes fails gen (c, p)"
    by fastforce
  from pass(2) 1(2) have c: "json_ok c" "fails gen \<longrightarrow> fails c" "node_count c \<le> node_count gen"
    by (auto simp: passes_def step_def smaller_def)
  show ?case
  proof (cases p)
    case True
    with 1(1) [OF pass(1) refl] c(1) obtain b where b: "shrink fails c = Inr b" "fails c \<longrightarrow> fails b"
      "node_count b \<le> node_count c" "json_ok b" "minimal fails b" by blast
    have "shrink fails gen = Inr b" using pass(1) True b(1) by (subst shrink.simps) simp
    with b c show ?thesis by (intro exI [of _ b]) auto
  next
    case False
    then have "shrink fails gen = Inr c" using pass(1) by (subst shrink.simps) simp
    moreover have "c = gen" "minimal fails gen" using shrink_pass_quiet [of fails gen c] pass(1) False by simp_all
    ultimately show ?thesis using 1(2) by simp
  qed
qed

text \<open>A procedure that traps behind an addition, with a second procedure nothing needs.\<close>

fun mentions_trap :: "json \<Rightarrow> bool" where
  "mentions_trap (JArr xs) = list_ex mentions_trap xs"
| "mentions_trap (JObj kvs) = list_ex mentions_trap (map snd kvs)"
| "mentions_trap (JStr s) = (s = ''trap'')"
| "mentions_trap _ = False"

definition sample_json :: json where
  "sample_json = JObj [(''procs'', JArr
     [JObj [(''args'', JArr []), (''body'', JArr
        [JObj [(''type'', JStr ''ExpressionStatement''), (''expression'',
           JObj [(''type'', JStr ''BinaryExpression''), (''left'', JObj [(''type'', JStr ''Identifier''), (''name'', JStr ''x'')]),
             (''right'', JObj [(''type'', JStr ''CallExpression''), (''name'', JStr ''trap'')])])]])],
      JObj [(''args'', JArr []), (''body'', JArr [])]])]"

lemma shrink_correct_witness:
  "\<exists>b. shrink mentions_trap sample_json = Inr b \<and> mentions_trap b \<and> node_count b \<le> 7 \<and> minimal mentions_trap b"
proof -
  have "json_ok sample_json" by (simp add: sample_json_def)
  moreover have "mentions_trap sample_json" "node_count sample_json = 7" by (simp_all add: sample_json_def)
  ultimately show ?thesis using shrink_correct [of sample_json mentions_trap] by auto
qed

end
