(* ===== verification/Verify.thy ===== *)
theory Verify
  imports Batch Mutate_Filter
begin

section \<open>Two engines, one program\<close>

text \<open>
  What the harness does with one candidate: \<^verbatim>\<open>verify\<close> of \<^verbatim>\<open>fuzz/ts/driver.ts\<close>, the loop body of
  \<^verbatim>\<open>eval/diff.ts\<close>, \<^verbatim>\<open>stillFails\<close> of \<^verbatim>\<open>gen/minimize.ts\<close> and the argument vector all three share
  (\<^verbatim>\<open>lib/entry_args.ts\<close>). The AST evaluator is the one of \<open>Eval\<close>; the lowerer, the validator, the
  profile check, the encoder and the reference VM are mog-core's, so they are the fields of
  \<open>toolchain\<close>, over a type \<open>'r\<close> of lowered programs. Its \<open>tc_lower\<close> is \<^verbatim>\<open>lowerGen\<close>: \<open>to_procedures\<close>
  of \<open>Corpus\<close> followed by mog-core's \<^verbatim>\<open>lowerProgram\<close>, with or without the round trip through
  the parser. \<^verbatim>\<open>EXT.reset()\<close> before a run leaves the zero buffer, \<open>rawmem_new\<close>. The text of a
  report is not modelled.
\<close>

definition entry_args_for :: "nat \<Rightarrow> u32 list" where
  "entry_args_for n = map (\<lambda>i. of_nat (0x11 * (i + 1))) [0 ..< n]"

definition max_steps :: nat where "max_steps = 200000"

record vm_result =
  vm_ok :: bool
  vm_acc_live :: bool
  vm_acc :: u32
  vm_trap_code :: "u32 option"

datatype vm_answer = Answered vm_result | VmStepLimit | VmUnspecified | VmThrew

record stats =
  total_depth :: nat
  max_call_depth :: nat

record 'r toolchain =
  tc_lower :: "gen_program \<Rightarrow> bool \<Rightarrow> string + 'r"
  tc_validate :: "'r \<Rightarrow> string + stats"
  tc_profile :: "'r \<Rightarrow> stats \<Rightarrow> string list"
  tc_arg_counts :: "'r \<Rightarrow> nat list"
  tc_body_lengths :: "'r \<Rightarrow> nat list"
  tc_encode :: "'r \<Rightarrow> string + u8 list"
  tc_run :: "'r \<Rightarrow> u32 list \<Rightarrow> nat \<Rightarrow> sandbox \<Rightarrow> vm_answer \<times> sandbox"

subsection \<open>The campaign's log\<close>

text \<open>The keys of \<^verbatim>\<open>counts\<close>; a count is how often its key stands in the list.\<close>

datatype tally =
    DroppedUbFilter
  | DroppedLowerer string
  | DroppedValidator string
  | DroppedEncoder string
  | DroppedTooLarge
  | DroppedVmStepLimit
  | DroppedVmUnspecified
  | DroppedUnspecified
  | DroppedStepLimit
  | DroppedVoidEntry
  | Mismatched
  | Verified
  | QemuHang
  | TargetRejected
  | ResourceBail u32
  | TargetAgrees
  | DbgClean
  | HostClean
  | BulkRun
  | ShapeCovered

datatype finding_kind =
    OutOfProfile
  | OverCapacity
  | Lowerer
  | VmThrewKind
  | LowererVm
  | Hang
  | BatchStopped
  | JitDiffers
  | DbgHang
  | TargetAssert
  | Crash

definition target_kinds :: "finding_kind list" where
  "target_kinds = [Hang, BatchStopped, JitDiffers, DbgHang, TargetAssert, Crash]"

record finding =
  find_kind :: finding_kind
  find_entry :: string
  find_seed :: int
  find_program :: "gen_program option"
  needs_target :: bool

record log =
  tallies :: "tally list"
  findings :: "finding list"

type_synonym 'a logged = "(log, fault, 'a) comp"

definition count_as :: "tally \<Rightarrow> unit logged" where
  "count_as k = modifyc (\<lambda>s. s\<lparr>tallies := tallies s @ [k]\<rparr>)"

definition mk_finding :: "finding_kind \<Rightarrow> string \<Rightarrow> int \<Rightarrow> gen_program option \<Rightarrow> finding" where
  "mk_finding kind entry seed gen =
     \<lparr>find_kind = kind, find_entry = entry, find_seed = seed, find_program = gen,
      needs_target = (kind \<in> set target_kinds)\<rparr>"

definition report_finding :: "finding_kind \<Rightarrow> string \<Rightarrow> int \<Rightarrow> gen_program option \<Rightarrow> unit logged" where
  "report_finding kind entry seed gen = modifyc (\<lambda>s. s\<lparr>findings := findings s @ [mk_finding kind entry seed gen]\<rparr>)"

subsection \<open>Comparing the two\<close>

datatype expected = ExpectReturn u32 | ExpectTrap u32

fun expected_of :: "outcome \<Rightarrow> expected option" where
  "expected_of (OReturn v) = Some (ExpectReturn v)"
| "expected_of (OTrap c) = Some (ExpectTrap c)"
| "expected_of (OUnspecified u) = None"
| "expected_of OStepLimit = None"

definition trap_code :: "vm_result \<Rightarrow> u32" where
  "trap_code vm = (case vm_trap_code vm of None \<Rightarrow> 0 | Some c \<Rightarrow> c)"

datatype disagreement =
    ValueDiffers u32 u32
  | TrapCodeDiffers u32 "u32 option"
  | OutcomeDiffers bool bool
  | BufferDiffers u32 u32

definition disagreement_of :: "expected \<Rightarrow> vm_result \<Rightarrow> u32 \<Rightarrow> u32 \<Rightarrow> disagreement option" where
  "disagreement_of exp vm ast_digest vm_digest =
     (let d = (case exp of
          ExpectReturn v \<Rightarrow>
            if vm_ok vm then (if v \<noteq> vm_acc vm then Some (ValueDiffers v (vm_acc vm)) else None)
            else Some (OutcomeDiffers True False)
        | ExpectTrap c \<Rightarrow>
            if \<not> vm_ok vm then (if c \<noteq> trap_code vm then Some (TrapCodeDiffers c (vm_trap_code vm)) else None)
            else Some (OutcomeDiffers False True))
      in if d = None \<and> ast_digest \<noteq> vm_digest then Some (BufferDiffers ast_digest vm_digest) else d)"

subsection \<open>\<^verbatim>\<open>verify\<close>\<close>

definition harness_max_arg_count :: nat where "harness_max_arg_count = 16"
definition harness_max_proc_count :: nat where "harness_max_proc_count = 16"

record verified =
  ver_entry :: string
  ver_seed :: int
  ver_gen :: gen_program
  ver_bytes :: "u8 list"
  ver_args :: "u32 list"
  ver_expected :: expected
  ver_digest :: u32
  ver_signature :: "nat list"

definition drop_with :: "unit logged \<Rightarrow> verified option logged" where
  "drop_with m = bindc m (\<lambda>_. retc None)"

text \<open>The evaluator's run of a program, from a cleared buffer; an exception is a fault.\<close>

definition ast_run :: "gen_program \<Rightarrow> u32 list \<Rightarrow> (fault + outcome) \<times> sandbox" where
  "ast_run gen args =
     (case evaluate (rawmem_config gen max_steps) args rawmem_new of (r, steps, box) \<Rightarrow> (r, box))"

definition signature_of :: "'r toolchain \<Rightarrow> gen_program \<Rightarrow> 'r \<Rightarrow> stats \<Rightarrow> u8 list \<Rightarrow> nat list" where
  "signature_of tc gen rtl st bytes =
     [length gen, foldr max (map (nest_depth \<circ> proc_body) gen) 0, total_depth st, max_call_depth st,
      length bytes div 16, sum_list (tc_body_lengths tc rtl) div 8]"

text \<open>What follows once both engines have run.\<close>

definition settle ::
  "'r toolchain \<Rightarrow> string \<Rightarrow> gen_program \<Rightarrow> int \<Rightarrow> 'r \<Rightarrow> stats \<Rightarrow> u8 list \<Rightarrow> u32 list
    \<Rightarrow> outcome \<Rightarrow> u32 \<Rightarrow> vm_answer \<Rightarrow> u32 \<Rightarrow> verified option logged" where
  "settle tc entry gen seed rtl st bytes args ast ast_digest answer vm_digest =
     (case answer of
        VmStepLimit \<Rightarrow> drop_with (count_as DroppedVmStepLimit)
      | VmUnspecified \<Rightarrow>
          bindc (case ast of OUnspecified u \<Rightarrow> retc () | _ \<Rightarrow> report_finding Lowerer entry seed (Some gen)) (\<lambda>_.
          drop_with (count_as DroppedVmUnspecified))
      | VmThrew \<Rightarrow> drop_with (report_finding VmThrewKind entry seed (Some gen))
      | Answered vm \<Rightarrow>
          (case ast of
             OUnspecified u \<Rightarrow> drop_with (count_as DroppedUnspecified)
           | OStepLimit \<Rightarrow> drop_with (count_as DroppedStepLimit)
           | _ \<Rightarrow>
               if vm_ok vm \<and> \<not> vm_acc_live vm then drop_with (count_as DroppedVoidEntry)
               else
                 (let exp = the (expected_of ast)
                  in if disagreement_of exp vm ast_digest vm_digest \<noteq> None
                     then bindc (report_finding LowererVm entry seed (Some gen)) (\<lambda>_. drop_with (count_as Mismatched))
                     else bindc (count_as Verified) (\<lambda>_. retc (Some
                       \<lparr>ver_entry = entry, ver_seed = seed, ver_gen = gen, ver_bytes = bytes, ver_args = args,
                        ver_expected = exp, ver_digest = vm_digest,
                        ver_signature = signature_of tc gen rtl st bytes\<rparr>)))))"

definition first_line :: "nat \<Rightarrow> string \<Rightarrow> string" where
  "first_line n msg = take n (takeWhile (\<lambda>c. c \<noteq> CHR 0x0A) msg)"

definition verify ::
  "'r toolchain \<Rightarrow> string \<Rightarrow> gen_program option \<Rightarrow> int \<Rightarrow> verified option logged" where
  "verify tc entry candidate seed =
     (case candidate of
        None \<Rightarrow> drop_with (count_as DroppedUbFilter)
      | Some gen \<Rightarrow>
          (case tc_lower tc gen True of
             Inl msg \<Rightarrow> drop_with (count_as (DroppedLowerer (first_line 52 msg)))
           | Inr rtl \<Rightarrow>
               (case tc_validate tc rtl of
                  Inl msg \<Rightarrow> drop_with (count_as (DroppedValidator (first_line 50 msg)))
                | Inr st \<Rightarrow>
                    if tc_profile tc rtl st \<noteq> [] then drop_with (report_finding OutOfProfile entry seed (Some gen))
                    else if length (tc_arg_counts tc rtl) > harness_max_proc_count
                         \<or> list_ex (\<lambda>k. k > harness_max_arg_count) (tc_arg_counts tc rtl)
                    then drop_with (report_finding OverCapacity entry seed (Some gen))
                    else
                      (case tc_encode tc rtl of
                         Inl msg \<Rightarrow> drop_with (count_as (DroppedEncoder (first_line 50 msg)))
                       | Inr bytes \<Rightarrow>
                           if bytes = [] \<or> length bytes > program_max then drop_with (count_as DroppedTooLarge)
                           else
                             (case tc_arg_counts tc rtl of
                                [] \<Rightarrow> throwc (JsError ''Cannot read properties of undefined'')
                              | arity # _ \<Rightarrow>
                                  (let args = entry_args_for arity;
                                       (ast, ast_mem) = ast_run gen args;
                                       (answer, vm_mem) = tc_run tc rtl args max_steps rawmem_new
                                   in case ast of
                                        Inl e \<Rightarrow> throwc e
                                      | Inr out \<Rightarrow>
                                          settle tc entry gen seed rtl st bytes args out (digest_of ast_mem)
                                            answer (digest_of vm_mem)))))))"

subsection \<open>The same question in \<^verbatim>\<open>minimize.ts\<close>\<close>

definition agrees_with :: "expected \<Rightarrow> vm_result \<Rightarrow> bool" where
  "agrees_with exp vm =
     (case exp of
        ExpectReturn v \<Rightarrow> vm_ok vm \<and> vm_acc vm = v
      | ExpectTrap c \<Rightarrow> \<not> vm_ok vm \<and> trap_code vm = c)"

text \<open>
  \<^verbatim>\<open>runQemu\<close> boots an image over the bytes of a batch file; the emulator is a parameter, and what the
  code reads of its answer is whether it timed out and what it printed.
\<close>

record qemu_run =
  timed_out :: bool
  qemu_output :: string

type_synonym emulator = "u8 list \<Rightarrow> qemu_run"

definition target_agrees :: "expected \<Rightarrow> target_result \<Rightarrow> bool" where
  "target_agrees exp r =
     (case exp of
        ExpectReturn v \<Rightarrow> res_kind r = CHR ''R'' \<and> res_value r = v
      | ExpectTrap c \<Rightarrow> res_kind r = CHR ''T'' \<and> res_value r = c)"

definition digest_agrees :: "u32 \<Rightarrow> target_result \<Rightarrow> bool" where
  "digest_agrees d r = (res_digest r = None \<or> res_digest r = Some d)"

definition target_fails ::
  "'r toolchain \<Rightarrow> emulator \<Rightarrow> 'r \<Rightarrow> u32 list \<Rightarrow> expected \<Rightarrow> u32 \<Rightarrow> bool" where
  "target_fails tc target rtl args exp vm_digest =
     (case tc_encode tc rtl of
        Inl msg \<Rightarrow> False
      | Inr bytes \<Rightarrow>
          (let q = target (write_batch [\<lparr>entry_bytes = bytes, entry_args = args\<rparr>])
           in if timed_out q then True
              else (case parse_results (qemu_output q) of
                      [] \<Rightarrow> False
                    | r # _ \<Rightarrow>
                        res_kind r \<noteq> CHR ''X'' \<and> res_kind r \<noteq> CHR ''E''
                        \<and> (\<not> target_agrees exp r \<or> \<not> digest_agrees vm_digest r))))"

definition still_fails ::
  "recurse \<Rightarrow> 'r toolchain \<Rightarrow> emulator \<Rightarrow> bool \<Rightarrow> gen_program \<Rightarrow> fault + bool" where
  "still_fails kids tc target jit gen =
     (case analyze kids gen of
        Inl e \<Rightarrow> Inl (JsError e)
      | Inr (Some site) \<Rightarrow> Inr False
      | Inr None \<Rightarrow>
          (case tc_lower tc gen False of
             Inl msg \<Rightarrow> Inr False
           | Inr rtl \<Rightarrow>
               (case tc_validate tc rtl of
                  Inl msg \<Rightarrow> Inr False
                | Inr st \<Rightarrow>
                    (case tc_arg_counts tc rtl of
                       [] \<Rightarrow> Inl (JsError ''Cannot read properties of undefined'')
                     | arity # _ \<Rightarrow>
                         (let args = entry_args_for arity;
                              (ast, ast_mem) = ast_run gen args;
                              (answer, vm_mem) = tc_run tc rtl args max_steps rawmem_new
                          in bindr ast (\<lambda>out.
                             case expected_of out of
                               None \<Rightarrow> Inr False
                             | Some exp \<Rightarrow>
                                 (case answer of
                                    Answered vm \<Rightarrow>
                                      (if vm_ok vm \<and> \<not> vm_acc_live vm then Inr False
                                       else
                                         (let differ = (\<not> agrees_with exp vm \<or> digest_of ast_mem \<noteq> digest_of vm_mem)
                                          in if \<not> jit then Inr differ
                                             else if differ then Inr False
                                             else Inr (target_fails tc target rtl args exp (digest_of vm_mem))))
                                  | VmThrew \<Rightarrow> Inr True
                                  | _ \<Rightarrow> Inr False)))))))"

subsection \<open>What the log says of a call\<close>

lemma bump_apply [simp]: "count_as k lg = (Inr (), lg\<lparr>tallies := tallies lg @ [k]\<rparr>)"
  by (simp add: count_as_def)

lemma report_finding_apply [simp]:
  "report_finding kind entry seed gen lg = (Inr (), lg\<lparr>findings := findings lg @ [mk_finding kind entry seed gen]\<rparr>)"
  by (simp add: report_finding_def)

lemma drop_with_apply [simp]: "m lg = (Inr (), lg') \<Longrightarrow> drop_with m lg = (Inr None, lg')"
  by (simp add: drop_with_def bindc_Inr)

lemma kind_mk_finding [simp]: "find_kind (mk_finding k e s g) = k" "find_program (mk_finding k e s g) = g"
  "needs_target (mk_finding k e s g) = (k \<in> set target_kinds)"
  by (simp_all add: mk_finding_def)

text \<open>No disagreement is what the minimizer calls agreement.\<close>

lemma no_disagreement:
  "disagreement_of exp vm d d' = None \<longleftrightarrow> agrees_with exp vm \<and> d = d'"
  by (cases exp) (auto simp: disagreement_of_def agrees_with_def Let_def)

text \<open>The stages a candidate has to pass before either engine runs.\<close>

definition passes :: "'r toolchain \<Rightarrow> gen_program \<Rightarrow> 'r \<Rightarrow> stats \<Rightarrow> u8 list \<Rightarrow> u32 list \<Rightarrow> bool" where
  "passes tc gen rtl st bytes args \<longleftrightarrow>
     tc_lower tc gen True = Inr rtl \<and> tc_validate tc rtl = Inr st \<and> tc_profile tc rtl st = []
     \<and> length (tc_arg_counts tc rtl) \<le> harness_max_proc_count
     \<and> list_all (\<lambda>k. k \<le> harness_max_arg_count) (tc_arg_counts tc rtl)
     \<and> tc_encode tc rtl = Inr bytes \<and> bytes \<noteq> [] \<and> length bytes \<le> program_max
     \<and> tc_arg_counts tc rtl \<noteq> [] \<and> args = entry_args_for (hd (tc_arg_counts tc rtl))"

lemma verify_passes:
  assumes "passes tc gen rtl st bytes args"
    and "ast_run gen args = (r, box)" and "tc_run tc rtl args max_steps rawmem_new = (answer, vbox)"
  shows "verify tc entry (Some gen) seed =
    (case r of Inl e \<Rightarrow> throwc e
     | Inr out \<Rightarrow> settle tc entry gen seed rtl st bytes args out (digest_of box) answer (digest_of vbox))"
  using assms
  by (cases "tc_arg_counts tc rtl")
    (auto simp: passes_def verify_def Let_def list_ex_iff list_all_iff not_less)

text \<open>
  What the report of \<^verbatim>\<open>fuzz.ts\<close> calls generated: the keys that start with \<^verbatim>\<open>dropped:\<close>, and the verified.
\<close>

fun is_dropped :: "tally \<Rightarrow> bool" where
  "is_dropped (DroppedLowerer msg) = True"
| "is_dropped (DroppedValidator msg) = True"
| "is_dropped (DroppedEncoder msg) = True"
| "is_dropped k = (k \<in> {DroppedUbFilter, DroppedTooLarge, DroppedVmStepLimit, DroppedVmUnspecified,
     DroppedUnspecified, DroppedStepLimit, DroppedVoidEntry})"

text \<open>The three ways a candidate ends before the engines run.\<close>

lemma verify_stops:
  assumes "\<And>rtl st bytes args. \<not> passes tc gen rtl st bytes args"
  shows "(\<exists>e rtl. tc_lower tc gen True = Inr rtl \<and> tc_arg_counts tc rtl = [] \<and> verify tc entry (Some gen) seed = throwc e)
    \<or> (\<exists>k. is_dropped k \<and> verify tc entry (Some gen) seed = drop_with (count_as k))
    \<or> (\<exists>k \<in> {OutOfProfile, OverCapacity}. verify tc entry (Some gen) seed = drop_with (report_finding k entry seed (Some gen)))"
proof (cases "tc_lower tc gen True")
  case (Inl msg)
  then have "verify tc entry (Some gen) seed = drop_with (count_as (DroppedLowerer (first_line 52 msg)))"
    by (simp add: verify_def)
  then show ?thesis by (metis is_dropped.simps(1))
next
  case lowered: (Inr rtl)
  show ?thesis
  proof (cases "tc_validate tc rtl")
    case (Inl msg)
    with lowered have "verify tc entry (Some gen) seed = drop_with (count_as (DroppedValidator (first_line 50 msg)))"
      by (simp add: verify_def)
    then show ?thesis by (metis is_dropped.simps(2))
  next
    case valid: (Inr st)
    consider (profile) "tc_profile tc rtl st \<noteq> []"
      | (capacity) "length (tc_arg_counts tc rtl) > harness_max_proc_count
          \<or> list_ex (\<lambda>k. k > harness_max_arg_count) (tc_arg_counts tc rtl)"
      | (fits) "tc_profile tc rtl st = []" "length (tc_arg_counts tc rtl) \<le> harness_max_proc_count"
          "list_all (\<lambda>k. k \<le> harness_max_arg_count) (tc_arg_counts tc rtl)"
      by (metis (no_types, lifting) list_all_iff list_ex_iff not_less)
    then show ?thesis
    proof cases
      case profile
      with lowered valid show ?thesis by (auto simp: verify_def)
    next
      case capacity
      with lowered valid show ?thesis by (auto simp: verify_def)
    next
      case fits
      then have n: "\<not> list_ex (\<lambda>k. k > harness_max_arg_count) (tc_arg_counts tc rtl)"
        by (auto simp: list_ex_iff list_all_iff not_less)
      show ?thesis
      proof (cases "tc_encode tc rtl")
        case (Inl msg)
        with lowered valid fits n
        have "verify tc entry (Some gen) seed = drop_with (count_as (DroppedEncoder (first_line 50 msg)))"
          by (simp add: verify_def not_less)
        then show ?thesis by (metis is_dropped.simps(3))
      next
        case (Inr bytes)
        show ?thesis
        proof (cases "bytes = [] \<or> length bytes > program_max")
          case True
          with lowered valid fits n Inr have "verify tc entry (Some gen) seed = drop_with (count_as DroppedTooLarge)"
            by (auto simp: verify_def not_less)
          moreover have "is_dropped DroppedTooLarge" by simp
          ultimately show ?thesis by metis
        next
          case False
          with assms [of rtl st bytes "entry_args_for (hd (tc_arg_counts tc rtl))"] lowered valid fits n Inr
          show ?thesis by (auto simp: verify_def passes_def not_less split: list.split)
        qed
      qed
    qed
  qed
qed

subsection \<open>Every candidate is accounted for\<close>

definition generated :: "log \<Rightarrow> nat" where
  "generated lg = length (filter is_dropped (tallies lg)) + length (filter (\<lambda>k. k = Verified) (tallies lg))"

text \<open>What one call may add to the log: its tallies, the kinds it reports, whether it returns a program.\<close>

inductive ending :: "tally list \<Rightarrow> finding_kind list \<Rightarrow> bool \<Rightarrow> bool" where
  dropped: "is_dropped k \<Longrightarrow> ending [k] [] False"
| verified: "ending [Verified] [] True"
| mismatched: "ending [Mismatched] [LowererVm] False"
| unspecified: "ending [DroppedVmUnspecified] [Lowerer] False"
| reported: "k \<in> {OutOfProfile, OverCapacity, VmThrewKind} \<Longrightarrow> ending [] [k] False"

definition adds :: "log \<Rightarrow> tally list \<Rightarrow> finding list \<Rightarrow> log" where
  "adds lg ts fs = lg\<lparr>tallies := tallies lg @ ts, findings := findings lg @ fs\<rparr>"

lemma adds_simps [simp]:
  "tallies (adds lg ts fs) = tallies lg @ ts" "findings (adds lg ts fs) = findings lg @ fs"
  "lg\<lparr>tallies := tallies lg @ ts\<rparr> = adds lg ts []"
  "lg\<lparr>findings := findings lg @ fs\<rparr> = adds lg [] fs"
  "adds (adds lg ts fs) ts' fs' = adds lg (ts @ ts') (fs @ fs')"
  by (simp_all add: adds_def)

definition ends :: "log \<Rightarrow> (fault + verified option) \<times> log \<Rightarrow> bool" where
  "ends lg r \<longleftrightarrow> (\<exists>v ts fs. r = (Inr v, adds lg ts fs) \<and> ending ts (map find_kind fs) (v \<noteq> None))"

lemma endsI: "ending ts (map find_kind fs) (v \<noteq> None) \<Longrightarrow> ends lg (Inr v, adds lg ts fs)"
  by (auto simp: ends_def)

lemma settle_ends: "ends lg (settle tc entry gen seed rtl st bytes args ast d answer d' lg)"
proof (cases answer)
  case (Answered vm)
  show ?thesis
    by (cases ast)
      (auto simp: Answered settle_def drop_with_def bindc_def Let_def ending.simps intro!: endsI)
next
  case VmUnspecified
  then show ?thesis
    by (cases ast) (auto simp: settle_def drop_with_def bindc_def ending.simps intro!: endsI)
qed (auto simp: settle_def drop_with_def bindc_def ending.simps intro!: endsI)

lemma verify_ends:
  assumes "fst (verify tc entry cand seed lg) = Inr v"
  shows "ends lg (verify tc entry cand seed lg)"
proof (cases cand)
  case None
  then show ?thesis by (auto simp: verify_def drop_with_def bindc_def ending.simps intro!: endsI)
next
  case (Some gen)
  show ?thesis
  proof (cases "\<exists>rtl st bytes args. passes tc gen rtl st bytes args")
    case True
    then obtain rtl st bytes args where p: "passes tc gen rtl st bytes args" by blast
    obtain r box answer vbox where
      runs: "ast_run gen args = (r, box)" "tc_run tc rtl args max_steps rawmem_new = (answer, vbox)"
      by (metis surj_pair)
    show ?thesis
      using assms verify_passes [OF p runs] settle_ends by (cases r) (auto simp: Some)
  next
    case False
    then have n: "\<And>rtl st bytes args. \<not> passes tc gen rtl st bytes args" by blast
    from verify_stops [of tc gen entry seed, OF n] assms Some show ?thesis
      by (auto simp: drop_with_def bindc_def ending.simps intro!: endsI)
  qed
qed

text \<open>
  A toolchain the witnesses run: lowering and encoding of a program that is its own image, and a VM that gives
  a fixed answer with the buffer cleared.
\<close>

definition short_program :: gen_program where
  "short_program =
     [\<lparr>proc_args = [''a''], proc_body = [ReturnStatement (Some (CallExpression ''p1'' [Identifier ''a'']))]\<rparr>,
      \<lparr>proc_args = [''n''], proc_body =
        [ReturnStatement (Some (BinaryExpression Plus (Identifier ''n'') (Literal 27)))]\<rparr>]"

definition sample_toolchain :: "vm_answer \<Rightarrow> gen_program toolchain" where
  "sample_toolchain answer =
     \<lparr>tc_lower = (\<lambda>gen verify. Inr gen), tc_validate = (\<lambda>rtl. Inr \<lparr>total_depth = 2, max_call_depth = 1\<rparr>),
      tc_profile = (\<lambda>rtl st. []), tc_arg_counts = map (\<lambda>p. length (proc_args p)), tc_body_lengths = map (\<lambda>p. 9),
      tc_encode = (\<lambda>rtl. Inr [1, 2, 3]), tc_run = (\<lambda>rtl args limit box. (answer, rawmem_new))\<rparr>"

definition sample_answer :: "u32 \<Rightarrow> vm_answer" where
  "sample_answer v = Answered \<lparr>vm_ok = True, vm_acc_live = True, vm_acc = v, vm_trap_code = None\<rparr>"

definition no_log :: log where "no_log = \<lparr>tallies = [], findings = []\<rparr>"

lemma sample_passes:
  "passes (sample_toolchain answer) short_program short_program \<lparr>total_depth = 2, max_call_depth = 1\<rparr> [1, 2, 3] [0x11]"
  by (simp add: passes_def sample_toolchain_def short_program_def entry_args_for_def harness_max_proc_count_def
      harness_max_arg_count_def program_max_def)

lemma sample_ast_run: "ast_run short_program [0x11] = (Inr (OReturn 44), rawmem_new)"
proof -
  have "fst (evaluate (rawmem_config short_program 20) [0x11] rawmem_new) = Inr (OReturn 44)
      \<and> snd (snd (evaluate (rawmem_config short_program 20) [0x11] rawmem_new)) = rawmem_new"
    by code_simp
  moreover have "rawmem_config short_program max_steps = (rawmem_config short_program 20)\<lparr>cfg_max :=
      cfg_max (rawmem_config short_program 20) + 199980\<rparr>"
    by (simp add: rawmem_config_def max_steps_def)
  ultimately show ?thesis
    using evaluate_raise_limit [of "rawmem_config short_program 20" "[0x11]" rawmem_new 199980]
    by (auto simp: ast_run_def split: prod.splits)
qed

lemma sample_vm_run:
  "tc_run (sample_toolchain answer) short_program [0x11] max_steps rawmem_new = (answer, rawmem_new)"
  by (simp add: sample_toolchain_def)

lemmas sample_verify = verify_passes [OF sample_passes sample_ast_run sample_vm_run]



subsection \<open>What a verified program promises\<close>

lemma settle_Some:
  assumes "settle tc entry gen seed rtl st bytes args ast d answer d' lg = (Inr (Some v), lg')"
  shows "\<exists>vm. answer = Answered vm \<and> expected_of ast = Some (ver_expected v) \<and> agrees_with (ver_expected v) vm
    \<and> (vm_ok vm \<longrightarrow> vm_acc_live vm) \<and> d = d' \<and> ver_digest v = d'
    \<and> ver_gen v = gen \<and> ver_bytes v = bytes \<and> ver_args v = args \<and> ver_entry v = entry \<and> ver_seed v = seed
    \<and> ver_signature v = signature_of tc gen rtl st bytes"
  using assms
  by (cases answer; cases ast)
    (auto simp: settle_def drop_with_def bindc_def Let_def no_disagreement split: if_splits)

lemma verify_SomeE:
  assumes "verify tc entry cand seed lg = (Inr (Some v), lg')"
  obtains gen rtl st bytes args out box answer vbox where
    "cand = Some gen" "passes tc gen rtl st bytes args" "ast_run gen args = (Inr out, box)"
    "tc_run tc rtl args max_steps rawmem_new = (answer, vbox)"
    "settle tc entry gen seed rtl st bytes args out (digest_of box) answer (digest_of vbox) lg = (Inr (Some v), lg')"
proof -
  obtain gen where gen: "cand = Some gen"
    using assms by (cases cand) (auto simp: verify_def drop_with_def bindc_def)
  have "\<exists>rtl st bytes args. passes tc gen rtl st bytes args"
  proof (rule ccontr)
    assume "\<not> ?thesis"
    then have n: "\<And>rtl st bytes args. \<not> passes tc gen rtl st bytes args" by blast
    from verify_stops [of tc gen entry seed, OF n] assms show False
      by (auto simp: gen drop_with_def bindc_def)
  qed
  then obtain rtl st bytes args where p: "passes tc gen rtl st bytes args" by blast
  obtain r box answer vbox where
    runs: "ast_run gen args = (r, box)" "tc_run tc rtl args max_steps rawmem_new = (answer, vbox)"
    by (metis surj_pair)
  with verify_passes [OF p runs, of entry seed] assms gen obtain out where "r = Inr out"
    by (cases r) auto
  with that [OF gen p _ runs(2), of out box] runs verify_passes [OF p runs, of entry seed] assms gen
  show thesis by auto
qed

definition entry_of :: "verified \<Rightarrow> batch_entry" where
  "entry_of v = \<lparr>entry_bytes = ver_bytes v, entry_args = ver_args v\<rparr>"

lemma length_entry_args [simp]: "length (entry_args_for n) = n"
  by (simp add: entry_args_for_def)



subsection \<open>What the minimizer accepts\<close>

text \<open>
  The minimizer lowers the tree itself, \<^verbatim>\<open>verify\<close> the tree printed and parsed again; they agree where
  the round trip changes nothing, which is \<^verbatim>\<open>round_trip.ts\<close>'s claim about the printer and the parser.
\<close>

lemma still_fails_passes:
  assumes "passes tc gen rtl st bytes args" and "tc_lower tc gen False = tc_lower tc gen True"
    and "analyze kids gen = Inr None"
    and "ast_run gen args = (Inr out, box)" and "tc_run tc rtl args max_steps rawmem_new = (answer, vbox)"
  shows "still_fails kids tc target jit gen =
    (case expected_of out of None \<Rightarrow> Inr False
     | Some exp \<Rightarrow>
        (case answer of
           Answered vm \<Rightarrow>
             (if vm_ok vm \<and> \<not> vm_acc_live vm then Inr False
              else (let differ = (\<not> agrees_with exp vm \<or> digest_of box \<noteq> digest_of vbox)
                    in if \<not> jit then Inr differ else if differ then Inr False
                       else Inr (target_fails tc target rtl args exp (digest_of vbox))))
         | VmThrew \<Rightarrow> Inr True | _ \<Rightarrow> Inr False))"
  using assms by (cases "tc_arg_counts tc rtl") (auto simp: passes_def still_fails_def)



end
