(* ===== verification/Campaign.thy ===== *)
theory Campaign
  imports Verify
begin

section \<open>A campaign\<close>

text \<open>
  The outer loop of \<^verbatim>\<open>fuzz/ts/driver.ts\<close>: \<^verbatim>\<open>runTarget\<close>, \<^verbatim>\<open>runTargetDbg\<close>, \<^verbatim>\<open>runTargetCov\<close>, \<^verbatim>\<open>runHost\<close>,
  \<^verbatim>\<open>bisect\<close> and \<^verbatim>\<open>runCampaign\<close>. The three target images and the host sink are functions of the batch file
  they are given, the clock a function of the number of batches run; the options are fields of the
  record \<open>harness\<close>. Text written to a terminal and the files findings are saved in are not modelled.
  The module's \<^verbatim>\<open>counts\<close>, \<^verbatim>\<open>findings\<close> and \<^verbatim>\<open>coverage\<close> are fields of the state, for one call of \<^verbatim>\<open>runCampaign\<close>.
\<close>

record 'r harness =
  h_tools :: "'r toolchain"
  h_kids :: recurse
  h_map_over :: map_over
  h_answer :: emulator
  h_dbg :: emulator
  h_traced :: emulator
  h_host :: "u8 list \<Rightarrow> bool"
  use_qemu :: bool
  use_host :: bool
  use_dbg :: bool
  use_cov :: bool
  rounds :: nat
  seed0 :: int
  batch_target :: nat
  bulk_every :: nat
  dbg_every :: nat
  cov_every :: nat
  corpus_max :: int
  corpus_max_bytes :: nat
  seed_corpus :: "(string \<times> gen_program) list"
  stop_on_finding :: bool
  deadline_passed :: "nat \<Rightarrow> bool"
  between_batches :: "nat \<Rightarrow> bool"

record camp =
  corpus :: "(string \<times> gen_program) list"
  pool :: "verified list"
  seen :: "nat list list"
  batches :: nat
  derived :: nat
  stopped :: bool
  coverage :: "u8 list"
  coverage_bits :: nat
  the_log :: log

type_synonym 'a campaign = "(camp, fault, 'a) comp"

definition logging :: "'a logged \<Rightarrow> 'a campaign" where
  "logging m = (\<lambda>s. case m (the_log s) of (r, lg) \<Rightarrow> (r, s\<lparr>the_log := lg\<rparr>))"

definition nth_opt :: "'a list \<Rightarrow> nat \<Rightarrow> 'a option" where
  "nth_opt xs i = (if i < length xs then Some (xs ! i) else None)"

text \<open>\<^verbatim>\<open>n % d === 0\<close>, false where the divisor is zero.\<close>

definition every :: "nat \<Rightarrow> nat \<Rightarrow> bool" where
  "every d n = (d \<noteq> 0 \<and> n mod d = 0)"

definition batch_file :: "verified list \<Rightarrow> u8 list" where
  "batch_file batch = write_batch (map entry_of batch)"

subsection \<open>The target\<close>

definition gather :: "qemu_run \<Rightarrow> unit campaign" where
  "gather r = bindc (getc coverage) (\<lambda>into.
     case union_coverage (qemu_output r) into of
       Inl msg \<Rightarrow> throwc (JsError msg)
     | Inr (added, united) \<Rightarrow>
         modifyc (\<lambda>s. s\<lparr>coverage := united, coverage_bits := coverage_bits s + added\<rparr>))"

text \<open>One program's answer against what the reference engines agreed on.\<close>

definition judge :: "verified \<Rightarrow> target_result \<Rightarrow> unit logged" where
  "judge c r =
     (if res_kind r = CHR ''X'' then count_as TargetRejected
      else if res_kind r = CHR ''E'' then count_as (ResourceBail (res_value r))
      else if target_agrees (ver_expected c) r \<and> digest_agrees (ver_digest c) r then count_as TargetAgrees
      else report_finding JitDiffers (ver_entry c) (ver_seed c) (Some (ver_gen c)))"

fun judge_all :: "verified list \<Rightarrow> target_result list \<Rightarrow> unit logged" where
  "judge_all (c # cs) (r # rs) = bindc (judge c r) (\<lambda>_. judge_all cs rs)"
| "judge_all cs rs = retc ()"

text \<open>A report against a program that may be \<^verbatim>\<open>undefined\<close>.\<close>

definition blame :: "finding_kind \<Rightarrow> verified option \<Rightarrow> unit logged" where
  "blame kind c =
     (case c of
        None \<Rightarrow> report_finding kind ''?'' 0 None
      | Some v \<Rightarrow> report_finding kind (ver_entry v) (ver_seed v) (Some (ver_gen v)))"

definition run_target :: "'r harness \<Rightarrow> verified list \<Rightarrow> unit campaign" where
  "run_target h batch =
     (let r = h_answer h (batch_file batch); results = parse_results (qemu_output r)
      in bindc (gather r) (\<lambda>_. logging
           (if timed_out r then
              bindc (count_as QemuHang) (\<lambda>_.
              case nth_opt batch (length results) of None \<Rightarrow> retc () | Some c \<Rightarrow> blame Hang (Some c))
            else if length results \<noteq> length batch then blame BatchStopped (nth_opt batch (length results))
            else judge_all batch results)))"

definition run_target_dbg :: "'r harness \<Rightarrow> verified list \<Rightarrow> unit campaign" where
  "run_target_dbg h batch =
     (let r = h_dbg h (batch_file batch); results = parse_results (qemu_output r)
      in logging
           (if timed_out r then blame DbgHang (nth_opt batch (length results))
            else (case find_index (\<lambda>x. res_kind x = CHR ''A'') results of
                    None \<Rightarrow> count_as DbgClean
                  | Some at \<Rightarrow> blame TargetAssert (nth_opt batch at))))"

definition run_target_cov :: "'r harness \<Rightarrow> verified list \<Rightarrow> unit campaign" where
  "run_target_cov h batch = gather (h_traced h (batch_file batch))"

subsection \<open>The host sink\<close>

function bisect :: "(verified list \<Rightarrow> bool) \<Rightarrow> verified list \<Rightarrow> verified option" where
  "bisect crashes remaining =
     (if length remaining > 1 then
        (let half = take (length remaining div 2) remaining
         in bisect crashes (if crashes half then half else drop (length remaining div 2) remaining))
      else nth_opt remaining 0)"
  by pat_completeness auto
termination by (relation "measure (\<lambda>(crashes, remaining). length remaining)") auto

declare bisect.simps [simp del]

definition crashes :: "'r harness \<Rightarrow> verified list \<Rightarrow> bool" where
  "crashes h part = (part \<noteq> [] \<and> \<not> h_host h (batch_file part))"

definition run_host :: "'r harness \<Rightarrow> verified list \<Rightarrow> unit campaign" where
  "run_host h batch =
     logging (if h_host h (batch_file batch) then count_as HostClean else blame Crash (bisect (crashes h) batch))"

subsection \<open>The loop\<close>

text \<open>\<^verbatim>\<open>chunk\<close> over programs, and what is done with each part; \<open>final\<close> is the flush after the loop.\<close>

definition chunk_verified :: "verified list \<Rightarrow> verified list list" where
  "chunk_verified vs = chunk_from (\<lambda>v. need (entry_of v)) [] 8 vs"

definition when_do :: "bool \<Rightarrow> unit campaign \<Rightarrow> unit campaign" where
  "when_do b m = (if b then m else retc ())"

definition run_part :: "'r harness \<Rightarrow> bool \<Rightarrow> nat \<Rightarrow> verified list \<Rightarrow> unit campaign" where
  "run_part h final n part =
     bindc (when_do (use_qemu h) (run_target h part)) (\<lambda>_.
     bindc (when_do (use_qemu h \<and> use_dbg h \<and> (final \<or> every (dbg_every h) n)) (run_target_dbg h part)) (\<lambda>_.
     bindc (when_do (use_qemu h \<and> use_cov h \<and> (final \<or> every (cov_every h) n)) (run_target_cov h part)) (\<lambda>_.
     when_do (use_host h) (run_host h part))))"

fun run_parts :: "'r harness \<Rightarrow> bool \<Rightarrow> nat \<Rightarrow> verified list list \<Rightarrow> unit campaign" where
  "run_parts h final n [] = retc ()"
| "run_parts h final n (p # ps) = bindc (run_part h final n p) (\<lambda>_. run_parts h final n ps)"

text \<open>A derived program joins the corpus, or replaces one once the corpus is full.\<close>

definition write_at :: "int \<Rightarrow> 'a \<Rightarrow> 'a list \<Rightarrow> 'a list" where
  "write_at i x xs = (if 0 \<le> i \<and> i < int (length xs) then xs[nat i := x] else xs)"

definition retain :: "'r harness \<Rightarrow> string \<times> gen_program \<Rightarrow> unit campaign" where
  "retain h entry = modifyc (\<lambda>s.
     if int (length (corpus s)) < corpus_max h then s\<lparr>corpus := corpus s @ [entry]\<rparr>
     else
       (let d = corpus_max h - int (length (seed_corpus h))
        in s\<lparr>corpus := (if d = 0 then corpus s
                       else write_at (int (length (corpus s)) - 1 - int (derived s) mod \<bar>d\<bar>) entry (corpus s)),
             derived := Suc (derived s)\<rparr>))"

definition flush :: "'r harness \<Rightarrow> unit campaign" where
  "flush h =
     bindc (getc (\<lambda>s. (pool s, batches s))) (\<lambda>(vs, n).
     bindc (run_parts h False n (chunk_verified vs)) (\<lambda>_.
     modifyc (\<lambda>s. s\<lparr>batches := Suc (batches s), pool := [],
       stopped := (stopped s \<or> (stop_on_finding h \<and> findings (the_log s) \<noteq> [])
         \<or> deadline_passed h (Suc (batches s)) \<or> \<not> between_batches h (Suc (batches s)))\<rparr>)))"

definition bulk_sizes :: "nat list" where "bulk_sizes = [80, 160, 240, 320]"

definition candidate_of :: "'r harness \<Rightarrow> nat \<Rightarrow> gen_program \<Rightarrow> string + gen_program option" where
  "candidate_of h i program =
     (if every (bulk_every h) i
      then inflate_sequenced (h_kids h) program (seed0 h + int i)
             (bulk_sizes ! ((i div bulk_every h) mod length bulk_sizes))
      else mutate_sequenced (h_map_over h) (h_kids h) program (seed0 h + int i) None [])"

text \<open>What the loop does with a verified program.\<close>

definition enqueue :: "'r harness \<Rightarrow> bool \<Rightarrow> verified \<Rightarrow> unit campaign" where
  "enqueue h bulk v =
     bindc (when_do bulk (logging (count_as BulkRun))) (\<lambda>_.
     bindc (getc (\<lambda>s. ver_signature v \<notin> set (seen s))) (\<lambda>novel.
     bindc (modifyc (\<lambda>s. s\<lparr>seen := List.insert (ver_signature v) (seen s)\<rparr>)) (\<lambda>_.
     bindc (when_do (novel \<and> \<not> bulk \<and> length (ver_bytes v) \<le> corpus_max_bytes h)
              (retain h (ver_entry v, ver_gen v))) (\<lambda>_.
     bindc (getc (\<lambda>s. length (pool s))) (\<lambda>n.
     if \<not> novel \<and> n * 2 > batch_target h then logging (count_as ShapeCovered)
     else bindc (modifyc (\<lambda>s. s\<lparr>pool := pool s @ [v]\<rparr>)) (\<lambda>_.
            when_do (Suc n \<ge> batch_target h) (flush h)))))))"

definition run_round :: "'r harness \<Rightarrow> nat \<Rightarrow> unit campaign" where
  "run_round h i =
     bindc (getc corpus) (\<lambda>cs.
     case nth_opt cs (i mod length cs) of
       None \<Rightarrow> throwc (JsError ''Cannot read properties of undefined'')
     | Some (name, program) \<Rightarrow>
         (case candidate_of h i program of
            Inl msg \<Rightarrow> throwc (JsError msg)
          | Inr cand \<Rightarrow>
              bindc (logging (verify (h_tools h) name cand (seed0 h + int i))) (\<lambda>r.
              case r of None \<Rightarrow> retc () | Some v \<Rightarrow> enqueue h (every (bulk_every h) i) v)))"

text \<open>\<open>run_rounds h n i\<close>: the \<open>n\<close> rounds from the \<open>i\<close>-th on, until one stops the campaign.\<close>

fun run_rounds :: "'r harness \<Rightarrow> nat \<Rightarrow> nat \<Rightarrow> unit campaign" where
  "run_rounds h 0 i = retc ()"
| "run_rounds h (Suc n) i =
     bindc (getc stopped) (\<lambda>stop. if stop then retc ()
       else bindc (run_round h i) (\<lambda>_. run_rounds h n (Suc i)))"

definition last_flush :: "'r harness \<Rightarrow> unit campaign" where
  "last_flush h =
     bindc (getc (\<lambda>s. (pool s, batches s))) (\<lambda>(vs, n).
     when_do (vs \<noteq> []) (bindc (run_parts h True n (chunk_verified vs)) (\<lambda>_.
       modifyc (\<lambda>s. s\<lparr>batches := Suc (batches s)\<rparr>))))"

text \<open>\<^verbatim>\<open>coverage.set\<close> of what was established before, on a zero buffer of \<open>nbytes\<close> bytes.\<close>

definition start :: "'r harness \<Rightarrow> nat \<Rightarrow> u8 list option \<Rightarrow> camp" where
  "start h nbytes coverage0 =
     (let cov = (case coverage0 of None \<Rightarrow> replicate nbytes 0
                 | Some c \<Rightarrow> take nbytes c @ replicate (nbytes - length c) 0)
      in \<lparr>corpus = seed_corpus h, pool = [], seen = [], batches = 0, derived = 0, stopped = False,
          coverage = cov, coverage_bits = (case coverage0 of None \<Rightarrow> 0 | Some _ \<Rightarrow> sum_list (map pop_count cov)),
          the_log = no_log\<rparr>)"

definition run_campaign :: "'r harness \<Rightarrow> nat \<Rightarrow> u8 list option \<Rightarrow> (fault + unit) \<times> camp" where
  "run_campaign h nbytes coverage0 =
     bindc (run_rounds h (rounds h) 0) (\<lambda>_. last_flush h) (start h nbytes coverage0)"

subsection \<open>Blame\<close>

lemma bisect_finds:
  assumes "\<And>part. length part \<le> length batch \<Longrightarrow> set part \<subseteq> set batch \<Longrightarrow> fails part \<longleftrightarrow> (\<exists>v \<in> set part. bad v)"
    and "\<exists>v \<in> set batch. bad v"
  shows "\<exists>v \<in> set batch. bad v \<and> bisect fails batch = Some v"
  using assms
proof (induction "length batch" arbitrary: batch rule: less_induct)
  case less
  let ?k = "length batch div 2"
  show ?case
  proof (cases "length batch > 1")
    case False
    with less.prems(2) obtain v where "batch = [v]" "bad v" by (cases batch) auto
    then show ?thesis by (simp add: bisect.simps nth_opt_def)
  next
    case True
    define part where "part = (if fails (take ?k batch) then take ?k batch else drop ?k batch)"
    have sub: "set part \<subseteq> set batch"
      by (auto simp: part_def dest: in_set_takeD in_set_dropD)
    have "length part < length batch" using True by (auto simp: part_def)
    moreover have "\<exists>v \<in> set part. bad v"
      using less.prems(1) [of "take ?k batch"] less.prems(2) set_take_subset [of ?k batch]
      by (auto simp: part_def dest: in_set_takeD) (metis UnE append_take_drop_id set_append)
    ultimately have "\<exists>v \<in> set part. bad v \<and> bisect fails part = Some v"
      using less.prems(1) sub by (intro less.hyps) (auto intro: less_imp_le order.trans)
    moreover have "bisect fails batch = bisect fails part"
      using True by (subst bisect.simps) (simp add: part_def Let_def)
    ultimately show ?thesis using sub by auto
  qed
qed

text \<open>
  C38. A crash is blamed on a program that crashes. Where the host sink fails on a batch exactly when some
  program of the batch makes it fail, the halving of \<^verbatim>\<open>bisect\<close> ends in such a program, and
  \<^verbatim>\<open>runHost\<close> adds one \<^verbatim>\<open>CRASH\<close> finding that carries it.
\<close>

theorem run_host_blames:
  assumes "\<And>part. length part \<le> length batch \<Longrightarrow> set part \<subseteq> set batch \<Longrightarrow>
      h_host h (batch_file part) \<longleftrightarrow> (\<forall>v \<in> set part. sane v)"
    and "\<exists>v \<in> set batch. \<not> sane v"
  shows "\<exists>v \<in> set batch. \<not> sane v \<and>
    run_host h batch s = (Inr (), s\<lparr>the_log := (the_log s)\<lparr>findings := findings (the_log s)
      @ [mk_finding Crash (ver_entry v) (ver_seed v) (Some (ver_gen v))]\<rparr>\<rparr>)"
proof -
  have "\<And>part. length part \<le> length batch \<Longrightarrow> set part \<subseteq> set batch \<Longrightarrow> crashes h part \<longleftrightarrow> (\<exists>v \<in> set part. \<not> sane v)"
    using assms(1) by (auto simp: crashes_def)
  from bisect_finds [OF this assms(2)] obtain v where v: "v \<in> set batch" "\<not> sane v" "bisect (crashes h) batch = Some v"
    by blast
  moreover have "\<not> h_host h (batch_file batch)" using assms by auto
  ultimately have "run_host h batch s = (Inr (), s\<lparr>the_log := (the_log s)\<lparr>findings := findings (the_log s)
      @ [mk_finding Crash (ver_entry v) (ver_seed v) (Some (ver_gen v))]\<rparr>\<rparr>)"
    by (simp add: run_host_def logging_def blame_def del: adds_simps)
  with v show ?thesis by blast
qed

text \<open>
  A small harness the witnesses run: an image that answers every program of a batch with the same \<^verbatim>\<open>R:\<close> line, and
  a host sink that dies on the byte \<open>0xee\<close>.
\<close>

definition sample_emulator :: "u32 \<Rightarrow> emulator" where
  "sample_emulator w bytes =
     \<lparr>timed_out = False, qemu_output = target_output
        (replicate (case read_batch bytes of None \<Rightarrow> 0 | Some es \<Rightarrow> length es)
           \<lparr>res_kind = CHR ''R'', res_value = w, res_digest = None\<rparr>)\<rparr>"

definition sample_harness :: "u32 \<Rightarrow> gen_program harness" where
  "sample_harness w =
     \<lparr>h_tools = sample_toolchain (sample_answer 44), h_kids = operands, h_map_over = map_operands,
      h_answer = sample_emulator w, h_dbg = sample_emulator w, h_traced = sample_emulator w,
      h_host = (\<lambda>bytes. 0xee \<notin> set bytes), use_qemu = True, use_host = True, use_dbg = True, use_cov = True,
      rounds = 2, seed0 = 1, batch_target = 2, bulk_every = 0, dbg_every = 1, cov_every = 1, corpus_max = 400,
      corpus_max_bytes = 1024, seed_corpus = [(''arith'', short_program)], stop_on_finding = False,
      deadline_passed = (\<lambda>n. False), between_batches = (\<lambda>n. True)\<rparr>"

definition sample_verified :: "u8 \<Rightarrow> verified" where
  "sample_verified b =
     \<lparr>ver_entry = ''arith'', ver_seed = uint b, ver_gen = short_program, ver_bytes = [1, 2, b],
      ver_args = [0x11], ver_expected = ExpectReturn 44, ver_digest = 7, ver_signature = [2, 0, 2, 1, 0, 0]\<rparr>"

lemma sample_batch_file:
  assumes "length part \<le> 3" and "set part \<subseteq> sample_verified ` {1, 0xee, 2}"
  shows "0xee \<notin> set (batch_file part) \<longleftrightarrow> (\<forall>v \<in> set part. ver_seed v \<noteq> 0xee)"
proof -
  have image: "0xee \<in> set (entry_image (entry_of v)) \<longleftrightarrow> ver_seed v = 0xee" if "v \<in> set part" for v
    using that assms(2) by (auto simp: sample_verified_def entry_of_def entry_image_def le32_def)
  have "length part = 0 \<or> length part = 1 \<or> length part = 2 \<or> length part = 3" using assms(1) by linarith
  then have "0xee \<notin> set (le32 (of_nat (length part)))" by (auto simp: le32_def)
  moreover have "0xee \<notin> set (le32 batch_magic)" by (simp add: le32_def batch_magic_def)
  ultimately show ?thesis using image by (auto simp: batch_file_def write_batch_def)
qed

lemma run_host_blames_witness:
  "find_seed (last (findings (the_log (snd (run_host (sample_harness 44)
      [sample_verified 1, sample_verified 0xee, sample_verified 2] (start (sample_harness 44) 0 None)))))) = 0xee"
proof -
  let ?batch = "[sample_verified 1, sample_verified 0xee, sample_verified 2]"
  have host: "h_host (sample_harness 44) (batch_file part) \<longleftrightarrow> (\<forall>v \<in> set part. ver_seed v \<noteq> 0xee)"
    if "length part \<le> length ?batch" "set part \<subseteq> set ?batch" for part
    using sample_batch_file [of part] that by (auto simp: sample_harness_def)
  have bad: "\<exists>v \<in> set ?batch. \<not> ver_seed v \<noteq> 0xee" by (simp add: sample_verified_def)
  from run_host_blames [of ?batch "sample_harness 44" "\<lambda>v. ver_seed v \<noteq> 0xee", OF host bad,
      of "start (sample_harness 44) 0 None"]
  obtain v :: verified where "ver_seed v = 0xee" and
    "run_host (sample_harness 44) ?batch (start (sample_harness 44) 0 None) = (Inr (), (start (sample_harness 44) 0 None)
       \<lparr>the_log := (the_log (start (sample_harness 44) 0 None))\<lparr>findings :=
          findings (the_log (start (sample_harness 44) 0 None))
            @ [mk_finding Crash (ver_entry v) (ver_seed v) (Some (ver_gen v))]\<rparr>\<rparr>)"
    by blast
  then show ?thesis by (simp add: mk_finding_def)
qed

subsection \<open>The target's disagreements\<close>


definition sample_program_run :: verified where
  "sample_program_run =
     \<lparr>ver_entry = ''arith'', ver_seed = 1, ver_gen = short_program, ver_bytes = [1, 2, 3], ver_args = [0x11],
      ver_expected = ExpectReturn 44, ver_digest = digest_of rawmem_new, ver_signature = [2, 0, 2, 1, 0, 2]\<rparr>"

lemma sample_verified_run:
  "verify (sample_toolchain (sample_answer 44)) ''arith'' (Some short_program) 1 lg
     = (Inr (Some sample_program_run), adds lg [Verified] [])"
proof -
  have leaf: "nest_depth [ReturnStatement e] = 0" for e
    by (subst nest_depth.simps, simp, subst nest_of.simps, simp)
  have "signature_of (sample_toolchain (sample_answer 44)) short_program short_program
      \<lparr>total_depth = 2, max_call_depth = 1\<rparr> [1, 2, 3] = [2, 0, 2, 1, 0, 2]"
    by (simp add: signature_of_def short_program_def leaf sample_toolchain_def)
  then show ?thesis
    by (simp add: sample_verify settle_def sample_answer_def disagreement_of_def bindc_def sample_program_run_def)
qed

lemma sample_file: "batch_file [sample_program_run] = write_batch [\<lparr>entry_bytes = [1, 2, 3], entry_args = [0x11]\<rparr>]"
  by (simp add: batch_file_def entry_of_def sample_program_run_def)

lemma sample_answers:
  assumes "w \<in> {44, 45}"
  shows "parse_results (qemu_output (sample_emulator w (batch_file [sample_program_run])))
      = [\<lparr>res_kind = CHR ''R'', res_value = w, res_digest = None\<rparr>]"
    and "union_coverage (qemu_output (sample_emulator w (batch_file [sample_program_run]))) [] = Inr (0, [])"
    and "\<not> timed_out (sample_emulator w bytes)"
proof -
  have "read_batch (batch_file [sample_program_run]) = Some [\<lparr>entry_bytes = [1, 2, 3], entry_args = [0x11]\<rparr>]"
    unfolding sample_file by code_simp
  then have out: "qemu_output (sample_emulator w (batch_file [sample_program_run]))
      = target_output [\<lparr>res_kind = CHR ''R'', res_value = w, res_digest = None\<rparr>]"
    by (simp add: sample_emulator_def)
  show "parse_results (qemu_output (sample_emulator w (batch_file [sample_program_run])))
      = [\<lparr>res_kind = CHR ''R'', res_value = w, res_digest = None\<rparr>]"
    unfolding out using assms by auto code_simp+
  show "union_coverage (qemu_output (sample_emulator w (batch_file [sample_program_run]))) [] = Inr (0, [])"
    unfolding out using assms by auto code_simp+
  show "\<not> timed_out (sample_emulator w bytes)" by (simp add: sample_emulator_def)
qed

lemma sample_judged:
  "judge sample_program_run \<lparr>res_kind = CHR ''R'', res_value = w, res_digest = None\<rparr> lg = (Inr (),
     if w = 44 then adds lg [TargetAgrees] [] else adds lg [] [mk_finding JitDiffers ''arith'' 1 (Some short_program)])"
  by (simp add: judge_def sample_program_run_def target_agrees_def digest_agrees_def)


end
