(* ===== verification/Campaign_Runs.thy ===== *)
theory Campaign_Runs
  imports Campaign
begin

section \<open>What a campaign keeps\<close>

text \<open>
  Two invariants of the loop of \<open>Campaign\<close>, both by contracts over its steps. The ledger: every verified
  program is in the pool, was passed over for its shape, or has been answered by the target. The corpus:
  it stays within its bound with the seeds in front, every entry is a legal program, and with legal entries
  nothing in the loop throws.
\<close>

subsection \<open>The ledger\<close>

definition tallied :: "(tally \<Rightarrow> bool) \<Rightarrow> log \<Rightarrow> nat" where
  "tallied p lg = length (filter p (tallies lg))"

definition reported_as :: "finding_kind \<Rightarrow> log \<Rightarrow> nat" where
  "reported_as k lg = length (filter (\<lambda>f. find_kind f = k) (findings lg))"

fun is_answer :: "tally \<Rightarrow> bool" where
  "is_answer (ResourceBail w) = True"
| "is_answer k = (k \<in> {TargetRejected, TargetAgrees})"

definition answered :: "log \<Rightarrow> nat" where
  "answered lg = tallied is_answer lg + reported_as JitDiffers lg"

text \<open>A batch whose answers were cut short, by a hang or by the runner stopping.\<close>

definition cut_short :: "log \<Rightarrow> bool" where
  "cut_short lg \<longleftrightarrow> QemuHang \<in> set (tallies lg) \<or> (\<exists>f \<in> set (findings lg). find_kind f = BatchStopped)"

definition balanced :: "nat \<Rightarrow> log \<Rightarrow> bool" where
  "balanced m lg \<longleftrightarrow> cut_short lg \<or>
     tallied (\<lambda>k. k = Verified) lg = tallied (\<lambda>k. k = ShapeCovered) lg + answered lg + m"

abbreviation keeps :: "('s \<Rightarrow> bool) \<Rightarrow> ('s, fault, 'a) comp \<Rightarrow> ('a \<Rightarrow> 's \<Rightarrow> bool) \<Rightarrow> bool" where
  "keeps P m Q \<equiv> run_spec P m Q (\<lambda>_ _. True)"

lemma ledger_adds [simp]:
  "tallied p (adds lg ts fs) = tallied p lg + length (filter p ts)"
  "reported_as k (adds lg ts fs) = reported_as k lg + length (filter (\<lambda>f. find_kind f = k) fs)"
  "cut_short (adds lg ts fs) \<longleftrightarrow> cut_short lg \<or> QemuHang \<in> set ts \<or> (\<exists>f \<in> set fs. find_kind f = BatchStopped)"
  by (auto simp: tallied_def reported_as_def cut_short_def)

lemma keeps_bump: "(\<And>lg. P lg \<Longrightarrow> Q () (adds lg [k] [])) \<Longrightarrow> keeps P (count_as k) Q"
  by (auto simp: run_spec_def)

lemma keeps_report: "(\<And>lg. P lg \<Longrightarrow> Q () (adds lg [] [mk_finding k e s g])) \<Longrightarrow> keeps P (report_finding k e s g) Q"
  by (auto simp: run_spec_def)

lemma keeps_logging:
  assumes "keeps P m Q" and "\<And>s lg. R s \<Longrightarrow> R (s\<lparr>the_log := lg\<rparr>)"
  shows "keeps (\<lambda>s. P (the_log s) \<and> R s) (logging m) (\<lambda>v s. Q v (the_log s) \<and> R s)"
  using assms by (fastforce simp: run_spec_def logging_def split: prod.splits sum.splits)

lemma keeps_blame:
  "k \<noteq> JitDiffers \<Longrightarrow> keeps (balanced m) (blame k c) (\<lambda>_. balanced m)"
  by (cases c) (auto simp: blame_def balanced_def answered_def intro!: keeps_report)

lemma keeps_stopped: "keeps (\<lambda>_. True) (blame BatchStopped c) (\<lambda>_. balanced m)"
  by (cases c) (auto simp: blame_def balanced_def intro!: keeps_report)

lemma keeps_judge: "keeps (balanced (Suc m)) (judge c r) (\<lambda>_. balanced m)"
  unfolding judge_def
  by (intro run_spec_if keeps_bump keeps_report) (auto simp: balanced_def answered_def)

lemma keeps_judge_all:
  "length rs = length cs \<Longrightarrow> keeps (balanced (m + length cs)) (judge_all cs rs) (\<lambda>_. balanced m)"
proof (induction cs rs rule: judge_all.induct)
  case (1 c cs r rs)
  then have "keeps (balanced (m + length cs)) (judge_all cs rs) (\<lambda>_. balanced m)" by simp
  then show ?case
    using run_spec_bindc [OF keeps_judge [of "m + length cs" c r]] by simp
qed (auto intro: run_spec_retc)

definition owing :: "nat \<Rightarrow> verified list \<Rightarrow> camp \<Rightarrow> bool" where
  "owing m vs s \<longleftrightarrow> balanced m (the_log s) \<and> pool s = vs"

lemma owing_logging:
  assumes "keeps (balanced m) l (\<lambda>_. balanced n)"
  shows "keeps (owing m vs) (logging l) (\<lambda>_. owing n vs)"
  using keeps_logging [OF assms, of "\<lambda>s. pool s = vs"] by (simp add: owing_def [abs_def])

lemma owing_gather: "keeps (owing m vs) (gather r) (\<lambda>_. owing m vs)"
  unfolding gather_def
  by (rule run_spec_bindc [where R = "\<lambda>_. owing m vs"])
    (auto simp: owing_def intro!: run_spec_getc run_spec_modifyc run_spec_throwc split: sum.split)

lemma owing_run_target: "keeps (owing (m + length batch) vs) (run_target h batch) (\<lambda>_. owing m vs)"
proof -
  let ?r = "h_answer h (batch_file batch)"
  let ?results = "parse_results (qemu_output ?r)"
  let ?l = "if timed_out ?r then
      bindc (count_as QemuHang) (\<lambda>_. case nth_opt batch (length ?results) of None \<Rightarrow> retc () | Some c \<Rightarrow> blame Hang (Some c))
    else if length ?results \<noteq> length batch then blame BatchStopped (nth_opt batch (length ?results))
    else judge_all batch ?results"
  have hang: "keeps (balanced (m + length batch)) (bindc (count_as QemuHang) (\<lambda>_.
      case nth_opt batch (length ?results) of None \<Rightarrow> retc () | Some c \<Rightarrow> blame Hang (Some c))) (\<lambda>_. balanced m)"
  proof (rule run_spec_bindc [where R = "\<lambda>_. balanced m"])
    show "keeps (balanced (m + length batch)) (count_as QemuHang) (\<lambda>_. balanced m)"
      by (rule keeps_bump) (simp add: balanced_def)
  qed (auto intro!: run_spec_retc keeps_blame split: option.split)
  have "keeps (balanced (m + length batch)) ?l (\<lambda>_. balanced m)"
    by (intro run_spec_if hang keeps_judge_all run_spec_conseq [OF keeps_stopped]) auto
  from run_spec_bindc [OF owing_gather owing_logging [OF this]]
  show ?thesis by (simp add: run_target_def Let_def)
qed

lemma owing_dbg: "keeps (owing m vs) (run_target_dbg h batch) (\<lambda>_. owing m vs)"
  unfolding run_target_dbg_def Let_def
  by (intro owing_logging run_spec_if keeps_blame)
    (auto split: option.split intro!: keeps_blame keeps_bump simp: balanced_def answered_def)

lemma owing_host: "keeps (owing m vs) (run_host h batch) (\<lambda>_. owing m vs)"
  unfolding run_host_def
  by (intro owing_logging run_spec_if keeps_blame keeps_bump) (auto simp: balanced_def answered_def)

lemma keeps_when: "keeps P m (\<lambda>_. P) \<Longrightarrow> keeps P (when_do b m) (\<lambda>_. P)"
  by (auto simp: when_do_def intro: run_spec_retc)

lemma owing_run_part:
  assumes "use_qemu h"
  shows "keeps (owing (m + length part) vs) (run_part h final n part) (\<lambda>_. owing m vs)"
  unfolding run_part_def run_target_cov_def
  using assms owing_run_target [of m part vs h]
  by (intro run_spec_bindc [where R = "\<lambda>_. owing m vs"] keeps_when owing_dbg owing_gather owing_host)
    (simp add: when_do_def)

lemma owing_run_parts:
  assumes "use_qemu h"
  shows "keeps (owing (m + length (concat ps)) vs) (run_parts h final n ps) (\<lambda>_. owing m vs)"
proof (induction ps)
  case (Cons p ps)
  then show ?case
    using run_spec_bindc [OF owing_run_part [OF assms, of "m + length (concat ps)" p vs final n]]
    by (simp add: ac_simps)
qed (simp add: run_spec_def)

lemma length_concat_chunk [simp]: "length (concat (chunk_verified vs)) = length vs"
  by (simp add: chunk_verified_def chunk_from_concat)

text \<open>What the invariant of the loop says of a state, with \<open>n\<close> verified programs still in hand.\<close>

definition ledger :: "nat \<Rightarrow> camp \<Rightarrow> bool" where
  "ledger n s \<longleftrightarrow> balanced (n + length (pool s)) (the_log s)"

lemma ledger_flush:
  assumes "use_qemu h"
  shows "keeps (ledger 0) (flush h) (\<lambda>_. ledger 0)"
proof (rule run_spec_pre)
  fix s assume "ledger 0 s"
  then have "owing (0 + length (concat (chunk_verified (pool s)))) (pool s) s" by (simp add: owing_def ledger_def)
  then have "keeps (\<lambda>t. t = s) (run_parts h False (batches s) (chunk_verified (pool s))) (\<lambda>_. owing 0 (pool s))"
    by (intro run_spec_conseq [OF owing_run_parts [OF assms, where m = 0 and vs = "pool s"]]) simp_all
  then have "keeps (\<lambda>t. t = s) (bindc (run_parts h False (batches s) (chunk_verified (pool s))) (\<lambda>_.
     modifyc (\<lambda>s. s\<lparr>batches := Suc (batches s), pool := [],
       stopped := (stopped s \<or> (stop_on_finding h \<and> findings (the_log s) \<noteq> [])
         \<or> deadline_passed h (Suc (batches s)) \<or> \<not> between_batches h (Suc (batches s)))\<rparr>))) (\<lambda>_. ledger 0)"
    by (rule run_spec_bindc) (auto simp: owing_def ledger_def intro!: run_spec_modifyc)
  then show "keeps (\<lambda>t. t = s) (flush h) (\<lambda>_. ledger 0)"
    by (simp add: run_spec_def flush_def bindc_def [of "getc _"])
qed

lemma ledger_enqueue:
  assumes "use_qemu h"
  shows "keeps (ledger 1) (enqueue h bulk v) (\<lambda>_. ledger 0)"
proof -
  have skip: "keeps (ledger 1) (logging (count_as ShapeCovered)) (\<lambda>_. ledger 0)"
    by (auto simp: run_spec_def logging_def ledger_def balanced_def answered_def)
  have bulked: "keeps (ledger 1) (when_do b (logging (count_as BulkRun))) (\<lambda>_. ledger 1)" for b
    by (rule keeps_when) (auto simp: run_spec_def logging_def ledger_def balanced_def answered_def)
  have retained: "keeps (ledger 1) (when_do b (retain h e)) (\<lambda>_. ledger 1)" for b e
    by (rule keeps_when) (auto simp: retain_def ledger_def Let_def intro!: run_spec_modifyc)
  have pushed: "keeps (ledger 1) (modifyc (\<lambda>s. s\<lparr>pool := pool s @ [v]\<rparr>)) (\<lambda>_. ledger 0)"
    by (auto simp: ledger_def intro!: run_spec_modifyc)
  show ?thesis
    unfolding enqueue_def
    by (intro run_spec_bindc [OF bulked] run_spec_bindc [where R = "\<lambda>_. ledger 1", OF run_spec_getc]
        run_spec_bindc [where R = "\<lambda>_. ledger 1", OF run_spec_modifyc] run_spec_bindc [OF retained]
        run_spec_if skip run_spec_bindc [OF pushed] keeps_when ledger_flush assms) (auto simp: ledger_def)
qed

lemma ledger_verify:
  "keeps (ledger 0) (logging (verify tc entry cand seed)) (\<lambda>r. ledger (if r = None then 0 else 1))"
proof (rule run_specI)
  fix s r t assume s: "ledger 0 s" and run: "logging (verify tc entry cand seed) s = (Inr r, t)"
  from run have "fst (verify tc entry cand seed (the_log s)) = Inr r"
    by (auto simp: logging_def split: prod.splits)
  from verify_ends [OF this] run obtain ts fs where
    t: "t = s\<lparr>the_log := adds (the_log s) ts fs\<rparr>" and e: "ending ts (map find_kind fs) (r \<noteq> None)"
    by (auto simp: ends_def logging_def)
  from e s show "ledger (if r = None then 0 else 1) t"
    unfolding t ledger_def balanced_def by cases (auto simp: answered_def elim: is_dropped.elims)
qed simp

lemma ledger_round:
  assumes "use_qemu h"
  shows "keeps (ledger 0) (run_round h i) (\<lambda>_. ledger 0)"
proof -
  have body: "keeps (ledger 0) (bindc (logging (verify (h_tools h) name cand seed)) (\<lambda>r.
      case r of None \<Rightarrow> retc () | Some v \<Rightarrow> enqueue h bulk v)) (\<lambda>_. ledger 0)" for name cand seed bulk
    by (rule run_spec_bindc [OF ledger_verify])
      (auto simp: One_nat_def [symmetric] simp del: One_nat_def split: option.split
        intro!: run_spec_retc ledger_enqueue assms)
  show ?thesis
    unfolding run_round_def
    by (rule run_spec_bindc [where R = "\<lambda>_. ledger 0", OF run_spec_getc])
      (auto split: option.split sum.split intro!: body run_spec_throwc)
qed

lemma ledger_rounds:
  assumes "use_qemu h"
  shows "keeps (ledger 0) (run_rounds h n i) (\<lambda>_. ledger 0)"
proof (induction n arbitrary: i)
  case (Suc n)
  show ?case
    by (simp only: run_rounds.simps)
      (intro run_spec_bindc [where R = "\<lambda>_. ledger 0", OF run_spec_getc] run_spec_if
        run_spec_bindc [OF ledger_round [OF assms] Suc.IH] run_spec_retc)
qed (simp add: run_spec_def)

lemma ledger_last:
  assumes "use_qemu h" and "last_flush h s = (Inr (), t)" and "ledger 0 s"
  shows "balanced 0 (the_log t)"
proof (cases "pool s = []")
  case True
  with assms(2,3) show ?thesis by (simp add: last_flush_def when_do_def ledger_def bindc_def)
next
  case False
  with assms(2) have run: "bindc (run_parts h True (batches s) (chunk_verified (pool s)))
      (\<lambda>_. modifyc (\<lambda>s. s\<lparr>batches := Suc (batches s)\<rparr>)) s = (Inr (), t)"
    by (simp add: last_flush_def when_do_def bindc_def [of "getc _"])
  have "owing (0 + length (concat (chunk_verified (pool s)))) (pool s) s"
    using assms(3) by (simp add: owing_def ledger_def)
  moreover obtain u where u: "run_parts h True (batches s) (chunk_verified (pool s)) s = (Inr (), u)"
    "t = u\<lparr>batches := Suc (batches u)\<rparr>"
    using run by (auto simp: bindc_eq_Inr)
  ultimately have "owing 0 (pool s) u"
    using run_spec_Inr [OF owing_run_parts [OF assms(1)]] by blast
  then show ?thesis by (simp add: owing_def u)
qed

lemma campaign_ledger:
  assumes "run_campaign h nbytes coverage0 = (Inr (), s)" and "use_qemu h" and "\<not> cut_short (the_log s)"
  shows "tallied (\<lambda>k. k = Verified) (the_log s) =
      tallied (\<lambda>k. k = ShapeCovered) (the_log s) + tallied is_answer (the_log s)
        + reported_as JitDiffers (the_log s)"
proof -
  obtain t where t: "run_rounds h (rounds h) 0 (start h nbytes coverage0) = (Inr (), t)" "last_flush h t = (Inr (), s)"
    using assms(1) by (auto simp: run_campaign_def bindc_eq_Inr)
  have "ledger 0 (start h nbytes coverage0)"
    by (simp add: ledger_def start_def Let_def balanced_def answered_def no_log_def tallied_def reported_as_def)
  with run_spec_Inr [OF ledger_rounds [OF assms(2)] _ t(1)] have "ledger 0 t" by blast
  from ledger_last [OF assms(2) t(2) this] assms(3) show ?thesis
    by (simp add: balanced_def answered_def)
qed


text \<open>One round of the small harness, the flush after it, and what the log then says.\<close>

definition short_harness :: "u32 \<Rightarrow> gen_program harness" where
  "short_harness w = (sample_harness w)\<lparr>rounds := 1\<rparr>"

lemma short_harness_simps [simp]:
  "h_tools (short_harness w) = sample_toolchain (sample_answer 44)"
  "h_answer (short_harness w) = sample_emulator w" "h_dbg (short_harness w) = sample_emulator w"
  "h_traced (short_harness w) = sample_emulator w" "h_host (short_harness w) bytes = (0xee \<notin> set bytes)"
  "use_qemu (short_harness w)" "use_host (short_harness w)" "use_dbg (short_harness w)" "use_cov (short_harness w)"
  "rounds (short_harness w) = 1" "seed0 (short_harness w) = 1" "batch_target (short_harness w) = 2"
  "bulk_every (short_harness w) = 0" "corpus_max (short_harness w) = 400" "corpus_max_bytes (short_harness w) = 1024"
  "seed_corpus (short_harness w) = [(''arith'', short_program)]"
  by (simp_all add: short_harness_def sample_harness_def)

lemma short_candidate: "candidate_of (short_harness w) 0 short_program = Inr (Some short_program)"
  unfolding candidate_of_def short_harness_def sample_harness_def by code_simp

definition after_round :: camp where
  "after_round = \<lparr>corpus = [(''arith'', short_program), (''arith'', short_program)], pool = [sample_program_run],
     seen = [ver_signature sample_program_run], batches = 0, derived = 0, stopped = False, coverage = [],
     coverage_bits = 0, the_log = adds no_log [Verified] []\<rparr>"

lemma after_round_simps [simp]:
  "the_log after_round = adds no_log [Verified] []" "coverage after_round = []" "batches after_round = 0"
  "pool after_round = [sample_program_run]" "stopped after_round = False"
  by (simp_all add: after_round_def)

lemma short_round: "run_round (short_harness w) 0 (start (short_harness w) 0 None) = (Inr (), after_round)"
proof -
  let ?s = "(start (short_harness w) 0 None)\<lparr>the_log := adds no_log [Verified] []\<rparr>"
  have s: "start (short_harness w) 0 None = \<lparr>corpus = [(''arith'', short_program)], pool = [], seen = [],
      batches = 0, derived = 0, stopped = False, coverage = [], coverage_bits = 0, the_log = no_log\<rparr>"
    by (simp add: start_def)
  have "enqueue (short_harness w) False sample_program_run ?s = (Inr (), after_round)"
    unfolding s by (simp add: enqueue_def when_do_def retain_def bindc_def after_round_def)
      (simp add: sample_program_run_def)
  moreover have "every 0 0 = False" by (simp add: every_def)
  ultimately show ?thesis
    unfolding run_round_def
    by (simp add: s bindc_def nth_opt_def short_candidate logging_def sample_verified_run)
qed

lemma short_flush:
  assumes "w \<in> {44, 45}"
  shows "\<exists>s. last_flush (short_harness w) after_round = (Inr (), s) \<and> the_log s =
    (if w = 44 then adds no_log [Verified, TargetAgrees, DbgClean, HostClean] []
     else adds no_log [Verified, DbgClean, HostClean] [mk_finding JitDiffers ''arith'' 1 (Some short_program)])"
proof -
  let ?h = "short_harness w" and ?lg = "if w = 44 then adds no_log [Verified, TargetAgrees] []
     else adds no_log [Verified] [mk_finding JitDiffers ''arith'' 1 (Some short_program)]"
  have clean: "gather (sample_emulator w (batch_file [sample_program_run])) s = (Inr (), s)" if "coverage s = []" for s
    using that sample_answers(2) [OF assms] by (simp add: gather_def bindc_def)
  have target: "run_target ?h [sample_program_run] after_round = (Inr (), after_round\<lparr>the_log := ?lg\<rparr>)"
    using sample_answers(1,3) [OF assms] clean [of after_round]
    by (simp add: run_target_def Let_def bindc_def logging_def sample_judged)
  have dbg: "run_target_dbg ?h [sample_program_run] s = (Inr (), s\<lparr>the_log := adds (the_log s) [DbgClean] []\<rparr>)" for s
    using sample_answers(1,3) [OF assms] by (simp add: run_target_dbg_def Let_def logging_def)
  have "0xee \<notin> set (batch_file [sample_program_run])" unfolding sample_file by code_simp
  then have host: "run_host ?h [sample_program_run] s = (Inr (), s\<lparr>the_log := adds (the_log s) [HostClean] []\<rparr>)" for s
    by (simp add: run_host_def logging_def)
  have "run_part ?h True 0 [sample_program_run] after_round
      = (Inr (), after_round\<lparr>the_log := adds ?lg [DbgClean, HostClean] []\<rparr>)"
    using clean by (simp add: run_part_def bindc_def when_do_def target dbg host run_target_cov_def)
  then show ?thesis
    by (simp add: last_flush_def bindc_def when_do_def chunk_verified_def)
qed


text \<open>
  What the ledger leaves out: on a hang \<^verbatim>\<open>runTarget\<close> compares none of the answers the batch already had and
  runs none of the programs behind the culprit; the log gains the hang alone.
\<close>

lemma hang_drops_batch:
  assumes "timed_out (h_answer h (batch_file batch))" and "run_target h batch s = (Inr (), t)"
  shows "tallies (the_log t) = tallies (the_log s) @ [QemuHang]
    \<and> (\<exists>fs. findings (the_log t) = findings (the_log s) @ fs \<and> length fs \<le> 1 \<and> (\<forall>f \<in> set fs. find_kind f = Hang))"
proof -
  obtain u where u: "gather (h_answer h (batch_file batch)) s = (Inr (), u)"
    "logging (bindc (count_as QemuHang) (\<lambda>_. case nth_opt batch (length (parse_results (qemu_output (h_answer h (batch_file batch))))) of
        None \<Rightarrow> retc () | Some c \<Rightarrow> blame Hang (Some c))) u = (Inr (), t)"
    using assms by (auto simp: run_target_def Let_def bindc_eq_Inr)
  have "the_log u = the_log s"
    using u(1) by (auto simp: gather_def bindc_def split: sum.splits prod.splits)
  with u(2) show ?thesis
    by (auto simp: logging_def bindc_def blame_def split: option.splits prod.splits)
qed

subsection \<open>The corpus\<close>

definition good_entry :: "string \<times> gen_program \<Rightarrow> bool" where
  "good_entry e \<longleftrightarrow> legal_program (snd e) \<and> (\<forall>p \<in> set (snd e). fits (proc_body p))"

definition corpus_ok :: "'r harness \<Rightarrow> nat \<Rightarrow> camp \<Rightarrow> bool" where
  "corpus_ok h nbytes s \<longleftrightarrow> int (length (corpus s)) \<le> corpus_max h
     \<and> (\<exists>ds. corpus s = seed_corpus h @ ds) \<and> list_all good_entry (corpus s) \<and> length (coverage s) = nbytes"

text \<open>
  What the loop relies on of mog-core and of the images: a lowered program has an entry procedure; a body
  whose code fits the harness has switches its word-sized draws can index, since every case has its place in the
  code; a coverage dump is no longer than the buffer made for its image.
\<close>

definition lowers_bodies :: "'r toolchain \<Rightarrow> bool" where
  "lowers_bodies tc \<longleftrightarrow> (\<forall>gen rtl. tc_lower tc gen True = Inr rtl \<longrightarrow> tc_arg_counts tc rtl \<noteq> []
     \<and> (\<forall>bytes. tc_encode tc rtl = Inr bytes \<and> length bytes \<le> program_max \<longrightarrow> (\<forall>p \<in> set gen. fits (proc_body p))))"

definition dumps_fit :: "emulator \<Rightarrow> nat \<Rightarrow> bool" where
  "dumps_fit emu nbytes \<longleftrightarrow> (\<forall>bytes. \<exists>v. union_coverage (qemu_output (emu bytes)) (replicate nbytes 0) = Inr v)"

abbreviation sure :: "('s \<Rightarrow> bool) \<Rightarrow> ('s, fault, 'a) comp \<Rightarrow> ('a \<Rightarrow> 's \<Rightarrow> bool) \<Rightarrow> bool" where
  "sure P m Q \<equiv> run_spec P m Q (\<lambda>_ _. False)"

definition total :: "'a logged \<Rightarrow> bool" where
  "total m \<longleftrightarrow> (\<forall>lg. \<exists>v lg'. m lg = (Inr v, lg'))"

named_theorems totals

lemma total_intros [totals]:
  "total (retc v)" "total (count_as k)" "total (report_finding kind e s g)" "total (blame kind c)"
  "total m \<Longrightarrow> (\<And>v. total (f v)) \<Longrightarrow> total (bindc m f)"
  "(b \<Longrightarrow> total m1) \<Longrightarrow> (\<not> b \<Longrightarrow> total m2) \<Longrightarrow> total (if b then m1 else m2)"
  "total m0 \<Longrightarrow> (\<And>x. total (n x)) \<Longrightarrow> total (case o' of None \<Rightarrow> m0 | Some x \<Rightarrow> n x)"
  by (auto simp: total_def bindc_def blame_def split: option.split prod.split sum.split)
    (metis Inr_not_Inl prod.inject)+

lemma total_judge_all [totals]: "total (judge_all cs rs)"
proof (induction cs rs rule: judge_all.induct)
  case (1 c cs r rs)
  then show ?case by (simp only: judge_all.simps) (intro totals, auto simp: judge_def intro: totals)
qed (simp_all only: judge_all.simps totals)

lemma sure_logging:
  assumes "total m"
  shows "sure (corpus_ok h nbytes) (logging m) (\<lambda>_. corpus_ok h nbytes)"
proof (rule run_spec_pre)
  fix s assume "corpus_ok h nbytes s"
  moreover obtain v lg where "m (the_log s) = (Inr v, lg)" using assms unfolding total_def by blast
  ultimately show "sure (\<lambda>t. t = s) (logging m) (\<lambda>_. corpus_ok h nbytes)"
    by (simp add: run_spec_def logging_def corpus_ok_def)
qed

lemma length_union_pairs: "length (snd (union_pairs hs xs)) = length xs"
  by (induction hs xs rule: union_pairs.induct) (auto simp: Let_def split: option.split)

lemma union_coverage_length:
  "union_coverage out into = Inr (n, u) \<Longrightarrow> length u = length into"
  by (auto simp: union_coverage_def Let_def length_union_pairs split: option.splits if_splits
      dest: arg_cong [of _ _ snd]) (metis length_union_pairs snd_conv)+

lemma union_coverage_fits:
  "union_coverage out (replicate (length into) 0) = Inr v \<Longrightarrow> \<exists>n u. union_coverage out into = Inr (n, u)"
  by (auto simp: union_coverage_def Let_def split: option.splits if_splits prod.splits)

lemma sure_gather:
  assumes "dumps_fit emu nbytes"
  shows "sure (corpus_ok h nbytes) (gather (emu bytes)) (\<lambda>_. corpus_ok h nbytes)"
proof (rule run_spec_pre)
  fix s assume s: "corpus_ok h nbytes s"
  then obtain v where "union_coverage (qemu_output (emu bytes)) (replicate (length (coverage s)) 0) = Inr v"
    using assms unfolding dumps_fit_def corpus_ok_def by blast
  from union_coverage_fits [OF this]
  obtain n u where u: "union_coverage (qemu_output (emu bytes)) (coverage s) = Inr (n, u)" by blast
  with s union_coverage_length [OF u] show "sure (\<lambda>t. t = s) (gather (emu bytes)) (\<lambda>_. corpus_ok h nbytes)"
    by (simp add: run_spec_def gather_def bindc_def corpus_ok_def)
qed

lemma sure_when: "sure P m (\<lambda>_. P) \<Longrightarrow> sure P (when_do b m) (\<lambda>_. P)"
  by (auto simp: when_do_def run_spec_def)

lemma sure_run_parts:
  assumes "dumps_fit (h_answer h) nbytes" and "dumps_fit (h_traced h) nbytes"
  shows "sure (corpus_ok h nbytes) (run_parts h final n ps) (\<lambda>_. corpus_ok h nbytes)"
proof (induction ps)
  case (Cons p ps)
  have target: "sure (corpus_ok h nbytes) (run_target h p) (\<lambda>_. corpus_ok h nbytes)"
    unfolding run_target_def Let_def
    by (rule run_spec_bindc [OF sure_gather [OF assms(1)]]) (intro sure_logging totals)
  have part: "sure (corpus_ok h nbytes) (run_part h final n p) (\<lambda>_. corpus_ok h nbytes)"
    unfolding run_part_def run_target_dbg_def run_target_cov_def run_host_def Let_def
    by (intro run_spec_bindc [where R = "\<lambda>_. corpus_ok h nbytes"] sure_when target sure_logging totals
        sure_gather [OF assms(2)])
  from run_spec_bindc [OF part Cons.IH] show ?case by simp
qed (simp add: run_spec_def)

lemma corpus_ok_frame [simp]:
  "corpus_ok h nbytes (s\<lparr>pool := a\<rparr>) = corpus_ok h nbytes s"
  "corpus_ok h nbytes (s\<lparr>seen := b\<rparr>) = corpus_ok h nbytes s"
  "corpus_ok h nbytes (s\<lparr>batches := n\<rparr>) = corpus_ok h nbytes s"
  "corpus_ok h nbytes (s\<lparr>stopped := c\<rparr>) = corpus_ok h nbytes s"
  by (simp_all add: corpus_ok_def)

lemma sure_getc: "(\<And>s. P s \<Longrightarrow> sure (\<lambda>t. t = s) (f (g s)) Q) \<Longrightarrow> sure P (bindc (getc g) f) Q"
  by (simp add: run_spec_def bindc_def)

lemma sure_modifyc: "(\<And>s. P s \<Longrightarrow> P (f s)) \<Longrightarrow> sure P (modifyc f) (\<lambda>_. P)"
  by (simp add: run_spec_def)

lemma write_at_prefix:
  "int (length xs) \<le> i \<Longrightarrow> write_at i x (xs @ ys) = xs @ write_at (i - int (length xs)) x ys"
  by (auto simp: write_at_def list_update_append nat_diff_distrib)

lemma set_write_at: "set (write_at i x xs) \<subseteq> insert x (set xs)"
  by (auto simp: write_at_def dest!: set_update_subset_insert [THEN subsetD])

lemma length_write_at [simp]: "length (write_at i x xs) = length xs"
  by (simp add: write_at_def)

text \<open>The replaced entry lies behind the seeds, whatever the counter.\<close>

lemma sure_retain:
  assumes "good_entry e" and "int (length (seed_corpus h)) < corpus_max h"
  shows "sure (corpus_ok h nbytes) (retain h e) (\<lambda>_. corpus_ok h nbytes)"
  unfolding retain_def
proof (rule sure_modifyc)
  fix s assume s: "corpus_ok h nbytes s"
  then obtain ds where ds: "corpus s = seed_corpus h @ ds" by (auto simp: corpus_ok_def)
  let ?d = "corpus_max h - int (length (seed_corpus h))"
  let ?i = "int (length (corpus s)) - 1 - int (derived s) mod \<bar>?d\<bar>"
  show "corpus_ok h nbytes (if int (length (corpus s)) < corpus_max h then s\<lparr>corpus := corpus s @ [e]\<rparr>
     else (let d = ?d in s\<lparr>corpus := (if d = 0 then corpus s
         else write_at (int (length (corpus s)) - 1 - int (derived s) mod \<bar>d\<bar>) e (corpus s)),
       derived := Suc (derived s)\<rparr>))"
  proof (cases "int (length (corpus s)) < corpus_max h")
    case True
    with s assms(1) ds show ?thesis by (auto simp: corpus_ok_def)
  next
    case False
    have d: "\<bar>?d\<bar> = ?d" "?d \<noteq> 0" using assms(2) by auto
    have "int (derived s) mod ?d < ?d" using assms(2) by simp
    moreover have "int (length (corpus s)) = corpus_max h" using False s by (simp add: corpus_ok_def)
    ultimately have "int (length (seed_corpus h)) \<le> ?i" unfolding d by simp
    then have "write_at ?i e (corpus s) = seed_corpus h @ write_at (?i - int (length (seed_corpus h))) e ds"
      unfolding ds by (rule write_at_prefix)
    moreover have "list_all good_entry (write_at ?i e (corpus s))"
      using s assms(1) set_write_at [of ?i e "corpus s"] by (auto simp: corpus_ok_def list_all_iff)
    ultimately show ?thesis using False s d(2) ds by (simp add: corpus_ok_def Let_def del: list_all_append)
  qed
qed

lemma sure_enqueue:
  assumes "dumps_fit (h_answer h) nbytes" and "dumps_fit (h_traced h) nbytes"
    and "int (length (seed_corpus h)) < corpus_max h" and "good_entry (ver_entry v, ver_gen v)"
  shows "sure (corpus_ok h nbytes) (enqueue h bulk v) (\<lambda>_. corpus_ok h nbytes)"
proof -
  have flush: "sure (corpus_ok h nbytes) (flush h) (\<lambda>_. corpus_ok h nbytes)"
    unfolding flush_def
  proof (rule sure_getc, unfold prod.case)
    fix s assume "corpus_ok h nbytes s"
    then show "sure (\<lambda>t. t = s) (bindc (run_parts h False (batches s) (chunk_verified (pool s))) (\<lambda>_.
      modifyc (\<lambda>s. s\<lparr>batches := Suc (batches s), pool := [],
       stopped := (stopped s \<or> (stop_on_finding h \<and> findings (the_log s) \<noteq> [])
         \<or> deadline_passed h (Suc (batches s)) \<or> \<not> between_batches h (Suc (batches s)))\<rparr>))) (\<lambda>_. corpus_ok h nbytes)"
      by (intro run_spec_conseq [OF run_spec_bindc [OF sure_run_parts [OF assms(1,2)] sure_modifyc]]) auto
  qed
  have get: "sure (corpus_ok h nbytes) (getc g) (\<lambda>_. corpus_ok h nbytes)" for g :: "camp \<Rightarrow> 'b"
    by (simp add: run_spec_def)
  show ?thesis
    unfolding enqueue_def
    by (intro run_spec_bindc [where R = "\<lambda>_. corpus_ok h nbytes"] sure_when sure_logging totals get sure_modifyc
        sure_retain assms(3,4) run_spec_if flush) simp_all
qed

lemma candidate_legal:
  assumes "walker (h_kids h)" and "mapper (h_map_over h)" and "good_entry e"
  shows "\<exists>res. candidate_of h i (snd e) = Inr res
    \<and> (\<forall>p. res = Some p \<longrightarrow> legal_program p \<and> analyze (h_kids h) p = Inr None)"
proof -
  have rolled: "\<exists>res. re_roll (h_kids h) c [0 ..< 6] = Inr res
      \<and> (\<forall>p. res = Some p \<longrightarrow> legal_program p \<and> analyze (h_kids h) p = Inr None)"
    if c: "\<And>a. \<exists>p. c a = Inr p \<and> legal_program p" for c
  proof -
    from re_roll_returns [of "[0 ..< 6]" c "h_kids h", OF c] obtain res where
      "re_roll (h_kids h) c [0 ..< 6] = Inr res"
      "\<forall>p. res = Some p \<longrightarrow> (\<exists>a \<in> set [0 ..< 6]. c a = Inr p) \<and> analyze (h_kids h) p = Inr None" by blast
    with c show ?thesis by (metis sum.inject(2))
  qed
  have "\<exists>p. inflate (h_kids h) (snd e) seed n = Inr p \<and> legal_program p" for seed n
    using inflate_good assms(3) unfolding good_entry_def by blast
  moreover have "\<exists>p. mutate (h_map_over h) (h_kids h) (snd e) seed None [] = Inr p \<and> legal_program p" for seed
    using mutate_good [OF assms(1,2), of "snd e" "[]" seed None] assms(3)
    unfolding good_entry_def good_program_def by auto
  ultimately show ?thesis
    unfolding candidate_of_def inflate_sequenced_def mutate_sequenced_def by (auto intro!: rolled)
qed

lemma total_settle: "total (settle tc entry gen seed rtl st bytes args ast d answer d')"
  unfolding total_def using settle_ends by (fastforce simp: ends_def)

lemma verify_total:
  assumes "lowers_bodies tc" and "\<And>gen. cand = Some gen \<Longrightarrow> legal_program gen"
  shows "total (verify tc entry cand seed)"
proof (cases cand)
  case None
  then show ?thesis by (simp add: verify_def drop_with_def total_intros)
next
  case (Some gen)
  show ?thesis
  proof (cases "\<exists>rtl st bytes args. passes tc gen rtl st bytes args")
    case True
    then obtain rtl st bytes args where p: "passes tc gen rtl st bytes args" by blast
    obtain answer vbox where run: "tc_run tc rtl args max_steps rawmem_new = (answer, vbox)" by (metis surj_pair)
    have wf: "wf_program gen" using assms(2) [OF Some] by (rule legal_program_wf)
    have "sandbox_ok rawmem_new" by code_simp
    from evaluate_total [OF wf this, of max_steps args] obtain out box where
      ast: "ast_run gen args = (Inr out, box)" by (auto simp: ast_run_def split: prod.splits)
    show ?thesis by (simp add: Some verify_passes [OF p ast run] total_settle)
  next
    case False
    then have n: "\<And>rtl st bytes args. \<not> passes tc gen rtl st bytes args" by blast
    from verify_stops [of tc gen entry seed, OF n] assms(1) show ?thesis
      by (auto simp: Some drop_with_def lowers_bodies_def total_intros)
  qed
qed

lemma verified_good:
  assumes "lowers_bodies tc" and "\<And>gen. cand = Some gen \<Longrightarrow> legal_program gen"
    and "verify tc entry cand seed lg = (Inr (Some v), lg')"
  shows "good_entry (ver_entry v, ver_gen v)"
proof -
  from assms(3) obtain gen rtl st bytes args out box answer vbox where
    v: "cand = Some gen" "passes tc gen rtl st bytes args"
      "settle tc entry gen seed rtl st bytes args out (digest_of box) answer (digest_of vbox) lg = (Inr (Some v), lg')"
    by (rule verify_SomeE) blast
  then show ?thesis
    using assms(1,2) settle_Some [OF v(3)] by (auto simp: good_entry_def passes_def lowers_bodies_def)
qed

lemma sure_round:
  assumes w: "walker (h_kids h)" "mapper (h_map_over h)" and tc: "lowers_bodies (h_tools h)"
    and cov: "dumps_fit (h_answer h) nbytes" "dumps_fit (h_traced h) nbytes"
    and seeds: "seed_corpus h \<noteq> []" "int (length (seed_corpus h)) < corpus_max h"
  shows "sure (corpus_ok h nbytes) (run_round h i) (\<lambda>_. corpus_ok h nbytes)"
  unfolding run_round_def
proof (rule sure_getc)
  fix s assume s: "corpus_ok h nbytes s"
  let ?k = "i mod length (corpus s)"
  have "corpus s \<noteq> []" using s seeds(1) by (auto simp: corpus_ok_def)
  then have k: "?k < length (corpus s)" by simp
  obtain name program where e: "corpus s ! ?k = (name, program)" by (cases "corpus s ! ?k")
  have "good_entry (name, program)" using s k e by (metis corpus_ok_def list_all_length)
  from candidate_legal [OF w this, of i] obtain cand where
    cand: "candidate_of h i program = Inr cand" "\<forall>p. cand = Some p \<longrightarrow> legal_program p" by auto
  let ?v = "verify (h_tools h) name cand (seed0 h + int i)"
  obtain r lg where v: "?v (the_log s) = (Inr r, lg)"
    using verify_total [OF tc, of cand name "seed0 h + int i"] cand(2) unfolding total_def by blast
  have ok: "corpus_ok h nbytes (s\<lparr>the_log := lg\<rparr>)" using s by (simp add: corpus_ok_def)
  have "case r of None \<Rightarrow> True | Some v \<Rightarrow> good_entry (ver_entry v, ver_gen v)"
    using cand(2) v by (auto split: option.split intro: verified_good [OF tc])
  then have "sure (corpus_ok h nbytes) (case r of None \<Rightarrow> retc () | Some v \<Rightarrow> enqueue h (every (bulk_every h) i) v)
      (\<lambda>_. corpus_ok h nbytes)"
    by (auto split: option.split intro!: sure_enqueue cov seeds(2) simp: run_spec_retc)
  with ok v k e cand(1) show "sure (\<lambda>t. t = s) (case nth_opt (corpus s) ?k of
      None \<Rightarrow> throwc (JsError ''Cannot read properties of undefined'')
    | Some (name, program) \<Rightarrow>
        (case candidate_of h i program of
           Inl msg \<Rightarrow> throwc (JsError msg)
         | Inr cand \<Rightarrow>
             bindc (logging (verify (h_tools h) name cand (seed0 h + int i))) (\<lambda>r.
             case r of None \<Rightarrow> retc () | Some v \<Rightarrow> enqueue h (every (bulk_every h) i) v))) (\<lambda>_. corpus_ok h nbytes)"
    by (simp add: nth_opt_def run_spec_def bindc_def logging_def)
qed

lemma sure_rounds:
  assumes "\<And>i. sure P (run_round h i) (\<lambda>_. P)"
  shows "sure P (run_rounds h n i) (\<lambda>_. P)"
proof (induction n arbitrary: i)
  case (Suc n)
  have get: "sure P (getc stopped) (\<lambda>_. P)" by (simp add: run_spec_def)
  show ?case
    by (simp only: run_rounds.simps)
      (intro run_spec_bindc [OF get] run_spec_if run_spec_bindc [OF assms Suc.IH] run_spec_retc)
qed (simp add: run_spec_def)

lemma sure_last:
  assumes "dumps_fit (h_answer h) nbytes" and "dumps_fit (h_traced h) nbytes"
  shows "sure (corpus_ok h nbytes) (last_flush h) (\<lambda>_. corpus_ok h nbytes)"
  unfolding last_flush_def
proof (rule sure_getc, unfold prod.case)
  fix s assume "corpus_ok h nbytes s"
  then show "sure (\<lambda>t. t = s) (when_do (pool s \<noteq> []) (bindc (run_parts h True (batches s) (chunk_verified (pool s)))
      (\<lambda>_. modifyc (\<lambda>s. s\<lparr>batches := Suc (batches s)\<rparr>)))) (\<lambda>_. corpus_ok h nbytes)"
    by (intro run_spec_conseq [OF sure_when [OF run_spec_bindc [OF sure_run_parts [OF assms] sure_modifyc]]]) auto
qed

lemma sureD: "sure P m Q \<Longrightarrow> P s \<Longrightarrow> \<exists>v t. m s = (Inr v, t) \<and> Q v t"
  by (cases "m s"; cases "fst (m s)") (fastforce simp: run_spec_def)+

lemma campaign_keeps:
  assumes "walker (h_kids h)" and "mapper (h_map_over h)" and "lowers_bodies (h_tools h)"
    and "dumps_fit (h_answer h) nbytes" and "dumps_fit (h_traced h) nbytes"
    and "list_all good_entry (seed_corpus h)" and "seed_corpus h \<noteq> []"
    and "int (length (seed_corpus h)) < corpus_max h"
  shows "\<exists>s ds. run_campaign h nbytes coverage0 = (Inr (), s)
    \<and> corpus s = seed_corpus h @ ds \<and> int (length (corpus s)) \<le> corpus_max h
    \<and> list_all (\<lambda>(name, p). legal_program p) (corpus s)"
proof -
  have "corpus_ok h nbytes (start h nbytes coverage0)"
    using assms(6,8) by (auto simp: corpus_ok_def start_def Let_def min_def split: option.split)
  moreover have "sure (corpus_ok h nbytes) (bindc (run_rounds h (rounds h) 0) (\<lambda>_. last_flush h)) (\<lambda>_. corpus_ok h nbytes)"
    by (rule run_spec_bindc [OF sure_rounds [OF sure_round [OF assms(1-5,7,8)]] sure_last [OF assms(4,5)]])
  ultimately obtain s where s: "run_campaign h nbytes coverage0 = (Inr (), s)" "corpus_ok h nbytes s"
    unfolding run_campaign_def by (auto dest: sureD)
  moreover have "list_all (\<lambda>(name, p). legal_program p) (corpus s)"
    using s(2) by (auto simp: corpus_ok_def good_entry_def list_all_iff)
  ultimately show ?thesis by (auto simp: corpus_ok_def)
qed

text \<open>
  C3. A campaign runs to its end and keeps its corpus. From seeds that are legal programs, fewer than the
  corpus bound, with mog-core's recursions faithful, nothing in the loop throws: no mutation, no evaluation, no
  replacement. At the end the corpus holds at most its bound, begins with the seeds unchanged, and every
  entry, however many mutations deep, is a legal program.
\<close>

theorem campaign_keeps_corpus:
  assumes "walker (h_kids h)" and "mapper (h_map_over h)" and "lowers_bodies (h_tools h)"
    and "dumps_fit (h_answer h) nbytes" and "dumps_fit (h_traced h) nbytes"
    and "list_all good_entry (seed_corpus h)" and "seed_corpus h \<noteq> []"
    and "int (length (seed_corpus h)) < corpus_max h"
  shows "\<exists>s ds. run_campaign h nbytes coverage0 = (Inr (), s)
    \<and> corpus s = seed_corpus h @ ds \<and> int (length (corpus s)) \<le> corpus_max h
    \<and> list_all (\<lambda>(name, p). legal_program p) (corpus s)"
  using assms by (rule campaign_keeps)

definition one_answer :: emulator where
  "one_answer bytes = \<lparr>timed_out = False,
     qemu_output = target_output [\<lparr>res_kind = CHR ''R'', res_value = 44, res_digest = None\<rparr>]\<rparr>"

definition one_program_harness :: "gen_program harness" where
  "one_program_harness = (sample_harness 44)\<lparr>
     h_tools := (sample_toolchain (sample_answer 44))\<lparr>tc_lower :=
       (\<lambda>gen verify. if gen = short_program then Inr gen else Inl ''not this one'')\<rparr>,
     h_answer := one_answer, h_dbg := one_answer, h_traced := one_answer, rounds := 500\<rparr>"

lemma one_program_fits:
  "lowers_bodies (h_tools one_program_harness)" "dumps_fit (h_answer one_program_harness) 0"
  "dumps_fit (h_traced one_program_harness) 0"
proof -
  have fit: "\<forall>p \<in> set short_program. fits (proc_body p)" by (simp add: short_program_def fits_def each_of.simps)
  then show "lowers_bodies (h_tools one_program_harness)"
    by (auto simp: lowers_bodies_def one_program_harness_def sample_toolchain_def short_program_def split: if_splits)
  have "union_coverage (qemu_output (one_answer bytes)) (replicate 0 0) = Inr (0, [])" for bytes
    unfolding one_answer_def by code_simp
  then have "dumps_fit one_answer 0" by (auto simp: dumps_fit_def)
  then show "dumps_fit (h_answer one_program_harness) 0" "dumps_fit (h_traced one_program_harness) 0"
    by (simp_all add: one_program_harness_def)
qed

lemma campaign_keeps_corpus_witness:
  "\<exists>s ds. run_campaign one_program_harness 0 None = (Inr (), s) \<and> corpus s = (''arith'', short_program) # ds
     \<and> length (corpus s) \<le> 400"
proof -
  let ?h = one_program_harness
  have fit: "\<forall>p \<in> set short_program. fits (proc_body p)" by (simp add: short_program_def fits_def each_of.simps)
  have "legal_program short_program" by code_simp
  with fit have good: "list_all good_entry (seed_corpus ?h)"
    by (simp add: good_entry_def one_program_harness_def sample_harness_def)
  have ws: "walker (h_kids ?h)" "mapper (h_map_over ?h)"
    using operand_walk.walker_axioms lr.mapper_axioms by (simp_all add: one_program_harness_def sample_harness_def)
  have seeds: "seed_corpus ?h \<noteq> []" "int (length (seed_corpus ?h)) < corpus_max ?h"
    "seed_corpus ?h = [(''arith'', short_program)]" "corpus_max ?h = 400"
    by (simp_all add: one_program_harness_def sample_harness_def)
  from campaign_keeps_corpus [OF ws one_program_fits good seeds(1,2), of None] seeds(3,4) show ?thesis by auto
qed

end
