(* ===== verification/Sweep.thy ===== *)
theory Sweep
  imports Campaign
begin

section \<open>Sweeping a corpus of programs through the target (\<^verbatim>\<open>fuzz/ts/qemu-exec.ts\<close>)\<close>

text \<open>
  The stand-alone sweep: \<^verbatim>\<open>classify\<close> decodes a file, validates and re-encodes it and runs the reference VM,
  \<^verbatim>\<open>chunk\<close> and \<^verbatim>\<open>writeBatch\<close> are the script's own copies (of a chunk size of its own), and the main loop works through a queue of
  batches to which a hang appends the tail it cut off. \<^verbatim>\<open>process.exit(1)\<close> is the value \<open>Inl\<close>. The decoder,
  the validator, the encoder and the VM are mog-core's, QEMU is a function of the batch file;
  listing directories and printing are not modelled.
\<close>

record candidate =
  cand_file :: string
  cand_bytes :: "u8 list"
  cand_args :: "u32 list"
  cand_expected :: expected
  cand_digest :: u32

datatype skip =
    SkipSize
  | SkipTrailing
  | SkipDecode
  | SkipValidate
  | SkipReencode
  | SkipVoid
  | SkipNonTerminating
  | SkipShift
  | SkipThrew

definition classify_file ::
  "(u8 list \<Rightarrow> string + 'r \<times> nat) \<Rightarrow> 'r toolchain \<Rightarrow> string \<Rightarrow> u8 list \<Rightarrow> string + skip + candidate" where
  "classify_file decode tc file raw =
     (if raw = [] \<or> length raw > program_max then Inr (Inl SkipSize)
      else (case decode raw of
        Inl msg \<Rightarrow> Inr (Inl SkipDecode)
      | Inr (program, next_byte) \<Rightarrow>
          if next_byte \<noteq> length raw then Inr (Inl SkipTrailing)
          else (case tc_validate tc program of
            Inl msg \<Rightarrow> Inr (Inl SkipValidate)
          | Inr st \<Rightarrow>
              (case tc_encode tc program of
                 Inl msg \<Rightarrow> Inr (Inl SkipReencode)
               | Inr bytes \<Rightarrow>
                   if bytes = [] \<or> length bytes > program_max then Inr (Inl SkipSize)
                   else (case tc_arg_counts tc program of
                     [] \<Rightarrow> Inl ''Cannot read properties of undefined''
                   | arity # _ \<Rightarrow>
                       (let args = entry_args_for arity
                        in Inr (case tc_run tc program args max_steps rawmem_new of
                             (Answered vm, box) \<Rightarrow>
                               if vm_ok vm \<and> \<not> vm_acc_live vm then Inl SkipVoid
                               else Inr \<lparr>cand_file = file, cand_bytes = bytes, cand_args = args,
                                 cand_expected = (if vm_ok vm then ExpectReturn (vm_acc vm) else ExpectTrap (trap_code vm)),
                                 cand_digest = digest_of box\<rparr>
                           | (VmStepLimit, box) \<Rightarrow> Inl SkipNonTerminating
                           | (VmUnspecified, box) \<Rightarrow> Inl SkipShift
                           | (VmThrew, box) \<Rightarrow> Inl SkipThrew)))))))"

subsection \<open>Batches\<close>

definition cand_need :: "candidate \<Rightarrow> nat" where
  "cand_need c = 4 + 4 + 4 * length (cand_args c) + length (cand_bytes c)"

definition sweep_limit :: nat where "sweep_limit = 0x6000"

fun sweep_chunk_from :: "candidate list \<Rightarrow> nat \<Rightarrow> candidate list \<Rightarrow> candidate list list" where
  "sweep_chunk_from current bytes [] = (if current = [] then [] else [current])"
| "sweep_chunk_from current bytes (c # cs) =
     (if bytes + cand_need c > sweep_limit \<and> current \<noteq> []
      then current # sweep_chunk_from [c] (8 + cand_need c) cs
      else sweep_chunk_from (current @ [c]) (bytes + cand_need c) cs)"

definition sweep_chunk :: "candidate list \<Rightarrow> candidate list list" where
  "sweep_chunk cands = sweep_chunk_from [] 8 cands"

definition cand_image :: "candidate \<Rightarrow> u8 list" where
  "cand_image c = le32 (of_nat (length (cand_bytes c))) @ le32 (of_nat (length (cand_args c)))
     @ concat (map le32 (cand_args c)) @ cand_bytes c"

definition sweep_file :: "candidate list \<Rightarrow> u8 list" where
  "sweep_file cands = le32 batch_magic @ le32 (of_nat (length cands)) @ concat (map cand_image cands)"

subsection \<open>Results\<close>

definition is_sweep_line :: "string \<Rightarrow> bool" where
  "is_sweep_line l = (case l of k # c # r \<Rightarrow> k \<in> set ''RTEX'' \<and> c = CHR '':'' | _ \<Rightarrow> False)"

definition sweep_lines :: "string \<Rightarrow> string list" where
  "sweep_lines output = filter (\<lambda>l. l \<noteq> []) (map trim (split_lines output))"

definition sweep_line :: "target_result list \<Rightarrow> string \<Rightarrow> target_result list" where
  "sweep_line results l =
     (if is_sweep_line l then
        results @ [\<lparr>res_kind = hd l, res_value = parse_u32 (drop 2 l), res_digest = None\<rparr>]
      else if starts_with ''M:'' l \<and> results \<noteq> [] then
        butlast results @ [last results\<lparr>res_digest := Some (parse_u32 (drop 2 l))\<rparr>]
      else results)"

definition sweep_results :: "string list \<Rightarrow> target_result list" where
  "sweep_results ls = foldl sweep_line [] ls"

text \<open>The script's counters; \<open>by_code\<close> is a count per value, here the values in order.\<close>

record sweep =
  matched :: nat
  rejected :: nat
  by_code :: "u32 list"
  mismatches :: "(candidate \<times> target_result) list"
  hangs :: "candidate list"

definition no_sweep :: sweep where
  "no_sweep = \<lparr>matched = 0, rejected = 0, by_code = [], mismatches = [], hangs = []\<rparr>"

definition actual_of :: "target_result \<Rightarrow> expected" where
  "actual_of r = (if res_kind r = CHR ''T'' then ExpectTrap (res_value r) else ExpectReturn (res_value r))"

definition differs :: "candidate \<Rightarrow> target_result \<Rightarrow> bool" where
  "differs c r \<longleftrightarrow> \<not> (actual_of r = cand_expected c \<and> digest_agrees (cand_digest c) r)"

definition compare :: "sweep \<Rightarrow> candidate \<times> target_result \<Rightarrow> sweep" where
  "compare s = (\<lambda>(c, r).
     if res_kind r = CHR ''X'' then s\<lparr>rejected := Suc (rejected s)\<rparr>
     else if res_kind r = CHR ''E'' then s\<lparr>by_code := by_code s @ [res_value r]\<rparr>
     else if differs c r then s\<lparr>mismatches := mismatches s @ [(c, r)]\<rparr>
     else s\<lparr>matched := Suc (matched s)\<rparr>)"

subsection \<open>The queue\<close>

function sweep_batches :: "emulator \<Rightarrow> candidate list list \<Rightarrow> sweep \<Rightarrow> sweep + sweep" where
  "sweep_batches emu [] s = Inr s"
| "sweep_batches emu (batch # pending) s =
     (let q = emu (sweep_file batch); ls = sweep_lines (qemu_output q)
      in if timed_out q then
           (let reached = length (filter is_sweep_line ls)
            in case nth_opt batch reached of
                 None \<Rightarrow> sweep_batches emu pending s
               | Some culprit \<Rightarrow>
                   sweep_batches emu
                     (if Suc reached < length batch then pending @ [drop (Suc reached) batch] else pending)
                     (s\<lparr>hangs := hangs s @ [culprit]\<rparr>))
         else
           (let results = sweep_results ls
            in if length results \<noteq> length batch then Inl s
               else sweep_batches emu pending (foldl compare s (zip batch results))))"
  by pat_completeness auto

text \<open>Every batch either leaves the queue or comes back shorter.\<close>

termination
  by (relation "measure (\<lambda>(emu, pending, s). sum_list (map (\<lambda>b. Suc (length b)) pending))")
    (auto simp: nth_opt_def split: if_splits)

declare sweep_batches.simps(2) [simp del]

definition sweep_all :: "emulator \<Rightarrow> candidate list \<Rightarrow> sweep + sweep" where
  "sweep_all emu cands = sweep_batches emu (sweep_chunk cands) no_sweep"

subsection \<open>The copies agree\<close>

definition as_entry :: "candidate \<Rightarrow> batch_entry" where
  "as_entry c = \<lparr>entry_bytes = cand_bytes c, entry_args = cand_args c\<rparr>"

text \<open>
  The script's \<^verbatim>\<open>writeBatch\<close> is that of \<^verbatim>\<open>lib/batch.ts\<close>. Its \<^verbatim>\<open>chunk\<close> splits the same way at a lower limit: a
  chunk it makes of more than one program fits the window of the other.
\<close>

lemma sweep_file_eq: "sweep_file cs = write_batch (map as_entry cs)"
  by (simp add: sweep_file_def write_batch_def cand_image_def [abs_def] entry_image_def as_entry_def o_def)

lemma concat_sweep_chunk_from: "concat (sweep_chunk_from cur n cs) = cur @ cs"
  by (induction cur n cs rule: sweep_chunk_from.induct) auto

lemma concat_sweep_chunk: "concat (sweep_chunk cs) = cs"
  by (simp add: sweep_chunk_def concat_sweep_chunk_from)

lemma need_as_entry: "need (as_entry c) = cand_need c"
  by (simp add: need_def cand_need_def as_entry_def)

lemma sweep_chunk_from_fits:
  assumes "n = batch_size (map as_entry cur)" and "length cur \<le> 1 \<or> n \<le> sweep_limit"
    and "c \<in> set (sweep_chunk_from cur n cs)"
  shows "length c \<le> 1 \<or> batch_size (map as_entry c) \<le> sweep_limit"
  using assms
proof (induction cur n cs rule: sweep_chunk_from.induct)
  case (2 current bytes d cs)
  have sizes: "batch_size (map as_entry (current @ [d])) = bytes + cand_need d"
    "batch_size (map as_entry [d]) = 8 + cand_need d"
    using 2(3) by (simp_all add: batch_size_def need_as_entry)
  show ?case
  proof (cases "bytes + cand_need d > sweep_limit \<and> current \<noteq> []")
    case True
    with 2(5) have "c = current \<or> c \<in> set (sweep_chunk_from [d] (8 + cand_need d) cs)" by simp
    then show ?thesis
    proof
      assume "c = current"
      with 2(3,4) show ?thesis by simp
    next
      assume "c \<in> set (sweep_chunk_from [d] (8 + cand_need d) cs)"
      from 2(1) [OF True sizes(2) [symmetric] _ this] show ?thesis by simp
    qed
  next
    case False
    then have "length (current @ [d]) \<le> 1 \<or> bytes + cand_need d \<le> sweep_limit" by auto
    from 2(2) [OF False sizes(1) [symmetric] this] 2(5) False show ?thesis by simp
  qed
qed (simp split: if_splits)

lemma sweep_chunk_fits: "c \<in> set (sweep_chunk cs) \<Longrightarrow> length c \<le> 1 \<or> batch_size (map as_entry c) \<le> batch_limit"
  using sweep_chunk_from_fits [of 8 "[]" c cs]
  by (auto simp: sweep_chunk_def batch_size_def sweep_limit_def batch_limit_def)

subsection \<open>A target that treats programs one by one\<close>

definition result_lines :: "target_result \<Rightarrow> string list" where
  "result_lines r = tagged [res_kind r, CHR '':''] (res_value r)
     # (case res_digest r of None \<Rightarrow> [] | Some d \<Rightarrow> [tagged ''M:'' d])"

lemma tagged_ne [simp]: "tag \<noteq> [] \<Longrightarrow> tagged tag w \<noteq> []"
  by (simp add: tagged_def)

lemma sweep_lines_append:
  "newline_char \<notin> set l \<Longrightarrow> trim l = l \<Longrightarrow> l \<noteq> [] \<Longrightarrow> sweep_lines (l @ newline_char # s) = l # sweep_lines s"
  by (simp add: sweep_lines_def split_lines_append)

lemma sweep_lines_Nil: "sweep_lines [] = []"
  by (simp add: sweep_lines_def trim_def)

lemma sweep_lines_print:
  assumes "res_kind r \<in> set ''RTEX''"
  shows "sweep_lines (print_result r @ s) = result_lines r @ sweep_lines s"
proof -
  have k: "\<not> is_space (res_kind r)" "res_kind r \<noteq> newline_char" using assms by (auto simp: is_space_def newline_char_def)
  have l: "trim (tagged [res_kind r, CHR '':''] w) = tagged [res_kind r, CHR '':''] w"
    "newline_char \<notin> set (tagged [res_kind r, CHR '':''] w)" for w
    by (rule tagged_line; use k tag_chars in auto)+
  have m: "trim (tagged ''M:'' w) = tagged ''M:'' w" "newline_char \<notin> set (tagged ''M:'' w)" for w
    by (rule tagged_line; use tag_chars in auto)+
  show ?thesis
    using sweep_lines_append [OF l(2,1)] sweep_lines_append [OF m(2,1)]
    by (cases "res_digest r") (simp_all add: print_result_def result_lines_def)
qed

lemma sweep_lines_prints:
  "\<forall>r \<in> set rs. res_kind r \<in> set ''RTEX'' \<Longrightarrow>
     sweep_lines (concat (map print_result rs) @ s) = concat (map result_lines rs) @ sweep_lines s"
  by (induction rs) (simp_all add: sweep_lines_print)

lemma sweep_line_result:
  assumes "res_kind r \<in> set ''RTEX''"
  shows "foldl sweep_line rs (result_lines r) = rs @ [r]"
    and "length (filter is_sweep_line (result_lines r)) = 1"
proof -
  have "sweep_line rs (tagged [res_kind r, CHR '':''] w) = rs @ [\<lparr>res_kind = res_kind r, res_value = w, res_digest = None\<rparr>]"
    for w using assms
    by (simp add: sweep_line_def tagged_def is_sweep_line_def parse_u32_digits del: hex_digits.simps)
  moreover have "sweep_line (qs @ [q]) (tagged ''M:'' w) = qs @ [q\<lparr>res_digest := Some w\<rparr>]" for qs q w
    by (simp add: sweep_line_def tagged_def is_sweep_line_def starts_with_def parse_u32_digits del: hex_digits.simps)
  ultimately show "foldl sweep_line rs (result_lines r) = rs @ [r]"
    by (cases "res_digest r") (simp_all add: result_lines_def)
  have "is_sweep_line (tagged [res_kind r, CHR '':''] w)" "\<not> is_sweep_line (tagged ''M:'' w)" for w
    using assms by (auto simp: tagged_def is_sweep_line_def simp del: hex_digits.simps)
  then show "length (filter is_sweep_line (result_lines r)) = 1"
    by (cases "res_digest r") (simp_all add: result_lines_def)
qed

lemma sweep_results_prints:
  "\<forall>r \<in> set rs. res_kind r \<in> set ''RTEX'' \<Longrightarrow>
     foldl sweep_line qs (concat (map result_lines rs)) = qs @ rs \<and>
     length (filter is_sweep_line (concat (map result_lines rs))) = length rs"
  using sweep_line_result by (induction rs arbitrary: qs) auto

text \<open>
  An image that runs the programs of a batch in order: each answers, or hangs it, and then nothing after it
  is printed.
\<close>

definition run_of :: "target_result option list \<Rightarrow> qemu_run" where
  "run_of bs =
     (if None \<in> set bs then \<lparr>timed_out = True,
        qemu_output = concat (map print_result (map the (takeWhile (\<lambda>b. b \<noteq> None) bs)))\<rparr>
      else \<lparr>timed_out = False, qemu_output = target_output (map the bs)\<rparr>)"

definition kinds_ok :: "target_result option list \<Rightarrow> bool" where
  "kinds_ok bs \<longleftrightarrow> (\<forall>r. Some r \<in> set bs \<longrightarrow> res_kind r \<in> set ''RTEX'')"

lemma run_of_hang:
  assumes "None \<in> set bs" and "kinds_ok bs"
  shows "timed_out (run_of bs)"
    and "length (filter is_sweep_line (sweep_lines (qemu_output (run_of bs)))) = length (takeWhile (\<lambda>b. b \<noteq> None) bs)"
proof -
  let ?rs = "map the (takeWhile (\<lambda>b. b \<noteq> None) bs)"
  have "\<forall>r \<in> set ?rs. res_kind r \<in> set ''RTEX''"
    using assms(2) by (auto simp: kinds_ok_def dest!: set_takeWhileD) 
  from sweep_lines_prints [OF this, of "[]"] sweep_results_prints [OF this]
  show "length (filter is_sweep_line (sweep_lines (qemu_output (run_of bs)))) = length (takeWhile (\<lambda>b. b \<noteq> None) bs)"
    using assms(1) by (simp add: run_of_def sweep_lines_Nil)
qed (simp add: run_of_def assms(1))

lemma run_of_done:
  assumes "None \<notin> set bs" and "kinds_ok bs"
  shows "\<not> timed_out (run_of bs)" and "sweep_results (sweep_lines (qemu_output (run_of bs))) = map the bs"
proof -
  let ?d = "tagged ''DONE:'' (of_nat (length bs))"
  have "\<forall>r \<in> set (map the bs). res_kind r \<in> set ''RTEX''"
    using assms by (auto simp: kinds_ok_def) (metis option.exhaust_sel)
  note prints = sweep_lines_prints [OF this] sweep_results_prints [OF this]
  have d: "trim ?d = ?d" "newline_char \<notin> set ?d" by (rule tagged_line; use tag_chars in auto)+
  have "sweep_lines (?d @ [newline_char]) = [?d]"
    using sweep_lines_append [OF d(2,1), of "[]"] by (simp add: sweep_lines_Nil)
  moreover have "sweep_line rs ?d = rs" for rs
    by (simp add: sweep_line_def tagged_def is_sweep_line_def starts_with_def del: hex_digits.simps)
  ultimately show "sweep_results (sweep_lines (qemu_output (run_of bs))) = map the bs"
    using assms(1) prints by (simp add: run_of_def target_output_def sweep_results_def)
qed (simp add: run_of_def assms(1))

definition behaves :: "emulator \<Rightarrow> (candidate \<Rightarrow> target_result option) \<Rightarrow> candidate set \<Rightarrow> nat \<Rightarrow> bool" where
  "behaves emu beh C n \<longleftrightarrow>
     (\<forall>cs. set cs \<subseteq> C \<and> length cs \<le> n \<longrightarrow> emu (sweep_file cs) = run_of (map beh cs))
     \<and> (\<forall>c \<in> C. \<forall>r. beh c = Some r \<longrightarrow> res_kind r \<in> set ''RTEX'')"

lemma behavesD:
  assumes "behaves emu beh C n" and "set cs \<subseteq> C" and "length cs \<le> n"
  shows "emu (sweep_file cs) = run_of (map beh cs)" and "kinds_ok (map beh cs)"
proof -
  show "emu (sweep_file cs) = run_of (map beh cs)" using assms unfolding behaves_def by blast
  have "\<forall>c \<in> set cs. \<forall>r. beh c = Some r \<longrightarrow> res_kind r \<in> set ''RTEX''"
    using assms(1,2) unfolding behaves_def by blast
  then show "kinds_ok (map beh cs)" unfolding kinds_ok_def by (metis (no_types, lifting) imageE list.set_map)
qed

subsection \<open>What a sweep finds\<close>

definition after_last_hang :: "(candidate \<Rightarrow> target_result option) \<Rightarrow> candidate list \<Rightarrow> candidate list" where
  "after_last_hang beh cs = rev (takeWhile (\<lambda>c. beh c \<noteq> None) (rev cs))"

definition wrong :: "(candidate \<Rightarrow> target_result option) \<Rightarrow> candidate \<Rightarrow> bool" where
  "wrong beh c = (case beh c of None \<Rightarrow> False
     | Some r \<Rightarrow> res_kind r \<noteq> CHR ''X'' \<and> res_kind r \<noteq> CHR ''E'' \<and> differs c r)"

definition judged :: "sweep \<Rightarrow> nat" where
  "judged s = matched s + rejected s + length (by_code s) + length (mismatches s)"

lemma compare_all:
  assumes "\<forall>c \<in> set cs. beh c \<noteq> None"
  shows "hangs (foldl compare s (zip cs (map (the \<circ> beh) cs))) = hangs s
    \<and> mismatches (foldl compare s (zip cs (map (the \<circ> beh) cs)))
        = mismatches s @ map (\<lambda>c. (c, the (beh c))) (filter (wrong beh) cs)
    \<and> judged (foldl compare s (zip cs (map (the \<circ> beh) cs))) = judged s + length cs"
  using assms
proof (induction cs arbitrary: s)
  case (Cons c cs)
  then obtain r where r: "beh c = Some r" by auto
  have "\<forall>c \<in> set cs. beh c \<noteq> None" using Cons.prems by simp
  from Cons.IH [OF this, of "compare s (c, r)"] show ?case
    by (auto simp: r compare_def wrong_def judged_def)
qed (simp add: judged_def)

lemma after_hang:
  assumes "beh c = None"
  shows "after_last_hang beh (pre @ c # rest) = after_last_hang beh rest"
  using assms by (simp add: after_last_hang_def takeWhile_tail)

lemma after_no_hang: "\<forall>c \<in> set cs. beh c \<noteq> None \<Longrightarrow> after_last_hang beh cs = cs"
  by (simp add: after_last_hang_def takeWhile_eq_all_conv [THEN iffD2])

definition found_by :: "(candidate \<Rightarrow> target_result option) \<Rightarrow> candidate list list \<Rightarrow> sweep \<Rightarrow> sweep \<Rightarrow> bool" where
  "found_by beh pending s t \<longleftrightarrow>
     mset (hangs t) = mset (hangs s) + mset (filter (\<lambda>c. beh c = None) (concat pending))
     \<and> mset (mismatches t) = mset (mismatches s)
         + mset (map (\<lambda>c. (c, the (beh c))) (filter (wrong beh) (concat (map (after_last_hang beh) pending))))
     \<and> judged t = judged s + length (concat (map (after_last_hang beh) pending))"

lemma first_hang:
  assumes "\<exists>c \<in> set cs. beh c = None"
  obtains pre c rest where "cs = pre @ c # rest" "beh c = None" "\<forall>x \<in> set pre. beh x \<noteq> None"
    "length (takeWhile (\<lambda>b. b \<noteq> None) (map beh cs)) = length pre"
proof -
  from split_list_first_prop [OF assms] obtain pre c rest where
    split: "cs = pre @ c # rest" "beh c = None" "\<forall>x \<in> set pre. \<not> beh x = None" by blast
  have "takeWhile (\<lambda>b. b \<noteq> None) (map beh cs) = map beh pre"
    unfolding split(1) using split(2,3) by (simp add: takeWhile_append)
  with that split show thesis by simp
qed

lemma found_by_done:
  assumes "\<forall>c \<in> set batch. beh c \<noteq> None"
    and "found_by beh pending (foldl compare s (zip batch (map (the \<circ> beh) batch))) t"
  shows "found_by beh (batch # pending) s t"
proof -
  have "filter (\<lambda>c. beh c = None) batch = []" using assms(1) by (simp add: filter_empty_conv)
  with assms(2) compare_all [OF assms(1), of s] after_no_hang [OF assms(1)] show ?thesis
    by (simp add: found_by_def)
qed

lemma found_by_hang:
  assumes "beh c = None" and "\<forall>x \<in> set pre. beh x \<noteq> None"
    and "found_by beh (if rest = [] then pending else pending @ [rest]) (s\<lparr>hangs := hangs s @ [c]\<rparr>) t"
  shows "found_by beh ((pre @ c # rest) # pending) s t"
proof -
  have "filter (\<lambda>c. beh c = None) pre = []" using assms(2) by (simp add: filter_empty_conv)
  moreover have "after_last_hang beh [] = []" by (simp add: after_last_hang_def)
  ultimately show ?thesis
    using assms(1,3) after_hang [of beh c pre rest]
    by (simp add: found_by_def judged_def ac_simps split: if_splits)
qed

lemma sweep_batches_found:
  assumes "\<And>b. b \<in> set pending \<Longrightarrow> set b \<subseteq> C \<and> length b \<le> n" and "behaves emu beh C n"
  shows "\<exists>t. sweep_batches emu pending s = Inr t \<and> found_by beh pending s t"
  using assms(1)
proof (induction "sum_list (map (\<lambda>b. Suc (length b)) pending)" arbitrary: pending s rule: less_induct)
  case less
  show ?case
  proof (cases pending)
    case Nil
    then show ?thesis by (simp add: found_by_def)
  next
    case (Cons batch others)
    have sub: "set batch \<subseteq> C" "length batch \<le> n" using less.prems Cons by auto
    note run = behavesD [OF assms(2) this]
    show ?thesis
    proof (cases "\<exists>c \<in> set batch. beh c = None")
      case False
      then have all: "None \<notin> set (map beh batch)" by auto
      have "map the (map beh batch) = map (the \<circ> beh) batch" by simp
      with run_of_done [OF all run(2)]
      have "sweep_batches emu pending s = sweep_batches emu others (foldl compare s (zip batch (map (the \<circ> beh) batch)))"
        by (simp add: Cons sweep_batches.simps(2) run(1) Let_def)
      moreover obtain t where
        "sweep_batches emu others (foldl compare s (zip batch (map (the \<circ> beh) batch))) = Inr t"
        "found_by beh others (foldl compare s (zip batch (map (the \<circ> beh) batch))) t"
        using less.hyps [of others "foldl compare s (zip batch (map (the \<circ> beh) batch))"] less.prems Cons by auto
      ultimately show ?thesis using found_by_done [of batch beh others s t] False by (auto simp: Cons)
    next
      case True
      then obtain pre c rest where split: "batch = pre @ c # rest" "beh c = None" "\<forall>x \<in> set pre. beh x \<noteq> None"
        "length (takeWhile (\<lambda>b. b \<noteq> None) (map beh batch)) = length pre" by (rule first_hang)
      have "None \<in> set (map beh batch)" using split(1,2) by auto
      note hang = run_of_hang [OF this run(2)]
      let ?next = "if rest = [] then others else others @ [rest]" and ?s = "s\<lparr>hangs := hangs s @ [c]\<rparr>"
      have "sweep_batches emu pending s = sweep_batches emu ?next ?s"
      proof -
        have "timed_out (emu (sweep_file batch))"
          "length (filter is_sweep_line (sweep_lines (qemu_output (emu (sweep_file batch))))) = length pre"
          using hang run(1) split(4) by simp_all
        moreover have "nth_opt batch (length pre) = Some c" "drop (Suc (length pre)) batch = rest"
          "Suc (length pre) < length batch \<longleftrightarrow> rest \<noteq> []" by (simp_all add: split(1) nth_opt_def)
        ultimately show ?thesis by (simp add: Cons sweep_batches.simps(2) Let_def)
      qed
      moreover have "\<exists>t. sweep_batches emu ?next ?s = Inr t \<and> found_by beh ?next ?s t"
      proof (rule less.hyps)
        show "set b \<subseteq> C \<and> length b \<le> n" if "b \<in> set ?next" for b
          using that less.prems [of b] sub split(1) Cons by (cases "rest = []") auto
      qed (simp add: Cons split(1))
      ultimately show ?thesis using found_by_hang [OF split(2,3)] by (auto simp: Cons split(1))
    qed
  qed
qed

text \<open>
  C15. A sweep ends, whatever hangs. Over an image that runs programs in order and hangs where one does,
  it names exactly the programs that hang, each once, although a hang cuts its batch short: the tail is queued again.
  The programs it compares are those that no later program of their chunk hangs on, each once, and the mismatches
  are exactly the wrong ones of these: an answer that came before a hang in the same chunk is not compared.
\<close>

theorem sweep_correct:
  assumes "behaves emu beh (set cands) (length cands)"
  shows "\<exists>s. sweep_all emu cands = Inr s
    \<and> mset (hangs s) = mset (filter (\<lambda>c. beh c = None) cands)
    \<and> mset (mismatches s) = mset (map (\<lambda>c. (c, the (beh c)))
        (filter (wrong beh) (concat (map (after_last_hang beh) (sweep_chunk cands)))))
    \<and> judged s = length (concat (map (after_last_hang beh) (sweep_chunk cands)))"
proof -
  have "set b \<subseteq> set cands \<and> length b \<le> length cands" if "b \<in> set (sweep_chunk cands)" for b
  proof -
    from split_list [OF that] obtain xs ys where "sweep_chunk cands = xs @ b # ys" by blast
    then have "cands = concat xs @ b @ concat ys" using concat_sweep_chunk [of cands] by simp
    then show ?thesis by auto
  qed
  from sweep_batches_found [OF this assms, where s = no_sweep] obtain s where
    "sweep_all emu cands = Inr s" "found_by beh (sweep_chunk cands) no_sweep s" by (auto simp: sweep_all_def)
  then show ?thesis
    by (simp add: found_by_def concat_sweep_chunk) (simp add: no_sweep_def judged_def)
qed

text \<open>One disagreement and one hang: in this order the disagreement is lost, in the other it is found.\<close>

definition sample_candidate :: "u8 \<Rightarrow> candidate" where
  "sample_candidate b = \<lparr>cand_file = ''corpus/x'', cand_bytes = [b], cand_args = [0x11], cand_expected = ExpectReturn 5,
     cand_digest = 0\<rparr>"

definition sample_behaviour :: "candidate \<Rightarrow> target_result option" where
  "sample_behaviour c = (if cand_bytes c = [2] then None
     else Some \<lparr>res_kind = CHR ''R'', res_value = (if cand_bytes c = [1] then 6 else 5), res_digest = None\<rparr>)"

definition sample_image :: emulator where
  "sample_image bytes = (case read_batch bytes of
     None \<Rightarrow> run_of []
   | Some es \<Rightarrow> run_of (map (\<lambda>e. sample_behaviour (sample_candidate (hd (entry_bytes e)))) es))"

lemma sample_behaves:
  assumes "C \<subseteq> range sample_candidate" and "n < 2 ^ 32"
  shows "behaves sample_image sample_behaviour C n"
  unfolding behaves_def
proof (intro conjI allI impI ballI)
  fix cs assume cs: "set cs \<subseteq> C \<and> length cs \<le> n"
  have "\<forall>e \<in> set (map as_entry cs). runnable e"
    using cs assms(1) by (auto simp: runnable_def as_entry_def sample_candidate_def program_max_def entry_args_max_def)
  moreover have "length cs < 2 ^ 32" using cs assms(2) by simp
  ultimately have "read_batch (sweep_file cs) = Some (map as_entry cs)"
    using read_entries_image [of "map as_entry cs" "[]"]
    by (simp add: sweep_file_eq read_batch_def write_batch_def unat_small)
  moreover have "map (\<lambda>e. sample_behaviour (sample_candidate (hd (entry_bytes e)))) (map as_entry cs) = map sample_behaviour cs"
    using cs assms(1) by (auto simp: as_entry_def sample_candidate_def)
  ultimately show "sample_image (sweep_file cs) = run_of (map sample_behaviour cs)"
    by (simp only: sample_image_def option.case)
next
  fix c r assume "sample_behaviour c = Some r"
  then show "res_kind r \<in> set ''RTEX''" by (auto simp: sample_behaviour_def split: if_splits)
qed

lemma sweep_correct_witness:
  "(\<exists>s. sweep_all sample_image [sample_candidate 1, sample_candidate 2, sample_candidate 3] = Inr s
      \<and> hangs s = [sample_candidate 2] \<and> mismatches s = [] \<and> judged s = 1)
   \<and> (\<exists>s. sweep_all sample_image [sample_candidate 2, sample_candidate 1, sample_candidate 3] = Inr s
      \<and> hangs s = [sample_candidate 2] \<and> length (mismatches s) = 1 \<and> judged s = 2)"
proof -
  let ?u = "[sample_candidate 1, sample_candidate 2, sample_candidate 3]"
  let ?v = "[sample_candidate 2, sample_candidate 1, sample_candidate 3]"
  have b: "behaves sample_image sample_behaviour (set ?u) (length ?u)" "behaves sample_image sample_behaviour (set ?v) (length ?v)"
    by (rule sample_behaves; simp)+
  have chunk: "sweep_chunk ?u = [?u]" "sweep_chunk ?v = [?v]"
    by (simp_all add: sweep_chunk_def cand_need_def sample_candidate_def sweep_limit_def)
  have beh: "sample_behaviour (sample_candidate 2) = None"
    "\<exists>r. sample_behaviour (sample_candidate 1) = Some r" "\<exists>r. sample_behaviour (sample_candidate 3) = Some r"
    "wrong sample_behaviour (sample_candidate 1)" "\<not> wrong sample_behaviour (sample_candidate 3)"
    by (simp_all add: sample_behaviour_def sample_candidate_def wrong_def differs_def actual_of_def digest_agrees_def)
  show ?thesis
    using sweep_correct [OF b(1)] sweep_correct [OF b(2)] beh
    by (auto simp: chunk after_last_hang_def dest: mset_eq_length)
qed

end
