(* ===== verification/Lanes.thy ===== *)
theory Lanes
  imports Campaign Invalid_Breaks Invalid_Sites
begin

section \<open>The other lanes\<close>

text \<open>
  Three loops over the mutator and mog-core that need no emulator: the invalid lane (\<^verbatim>\<open>fuzz/ts/invalid.ts\<close>),
  the comparison of the evaluator with the reference VM (\<^verbatim>\<open>eval/diff.ts\<close>) and the survival count
  (\<^verbatim>\<open>gen/stats.ts\<close>). A bucket of a script's report is a value here, a lane the list of them. What \<^verbatim>\<open>lowerProgram\<close>
  throws is a pair of the error's name and message.
\<close>

subsection \<open>The invalid lane\<close>

datatype stage = ByParse | ByLower | ByValidate | ByVm

fun mentions :: "string \<Rightarrow> string \<Rightarrow> bool" where
  "mentions mark [] \<longleftrightarrow> mark = []"
| "mentions mark (c # cs) \<longleftrightarrow> starts_with mark (c # cs) \<or> mentions mark cs"

definition is_parse_error :: "string \<Rightarrow> string \<Rightarrow> bool" where
  "is_parse_error name msg \<longleftrightarrow>
     name = ''RoundTripError'' \<or> mentions ''SyntaxError'' msg \<or> mentions ''Expected '' msg"

definition refused_by ::
  "(gen_program \<Rightarrow> string \<times> string + 'r) \<Rightarrow> 'r toolchain \<Rightarrow> gen_program \<Rightarrow> stage option" where
  "refused_by lower tc gen =
     (case lower gen of
        Inl (name, msg) \<Rightarrow> Some (if is_parse_error name msg then ByParse else ByLower)
      | Inr rtl \<Rightarrow>
          (case tc_validate tc rtl of
             Inl msg \<Rightarrow> Some ByValidate
           | Inr st \<Rightarrow>
               (case tc_arg_counts tc rtl of
                  [] \<Rightarrow> Some ByVm
                | arity # _ \<Rightarrow>
                    (case fst (tc_run tc rtl (entry_args_for arity) 50000 rawmem_new) of
                       Answered vm \<Rightarrow> None
                     | VmStepLimit \<Rightarrow> None
                     | VmUnspecified \<Rightarrow> Some ByVm
                     | VmThrew \<Rightarrow> Some ByVm))))"

datatype event = NoSite | Caught stage | Escaped gen_program

definition event_of ::
  "(gen_program \<Rightarrow> string \<times> string + 'r) \<Rightarrow> 'r toolchain \<Rightarrow> gen_program option \<Rightarrow> event" where
  "event_of lower tc broken =
     (case broken of
        None \<Rightarrow> NoSite
      | Some g \<Rightarrow> (case refused_by lower tc g of None \<Rightarrow> Escaped g | Some st \<Rightarrow> Caught st))"

text \<open>One base through the breakers, the draws running on from one to the next.\<close>

fun try_breakers ::
  "(gen_program \<Rightarrow> string \<times> string + 'r) \<Rightarrow> 'r toolchain \<Rightarrow> recurse \<Rightarrow> gen_program \<Rightarrow> (string \<times> breaker) list
    \<Rightarrow> (string \<times> event) list draw" where
  "try_breakers lower tc kids base [] = retc []"
| "try_breakers lower tc kids base ((name, b) # bs) =
     bindc (b kids base) (\<lambda>broken.
     bindc (try_breakers lower tc kids base bs) (\<lambda>evs. retc ((name, event_of lower tc broken) # evs)))"

text \<open>A round; \<^verbatim>\<open>Inr []\<close> where the base is dropped.\<close>

definition lane_round ::
  "(gen_program \<Rightarrow> string \<times> string + 'r) \<Rightarrow> 'r toolchain \<Rightarrow> map_over \<Rightarrow> recurse \<Rightarrow> (string \<times> gen_program) list \<Rightarrow> int
    \<Rightarrow> nat \<Rightarrow> string + (string \<times> event) list" where
  "lane_round lower tc map_over kids seeds seed i =
     (case nth_opt seeds (i mod length seeds) of
        None \<Rightarrow> Inl ''Cannot read properties of undefined''
      | Some entry \<Rightarrow>
          bindr (mutate_sequenced map_over kids (snd entry) (seed + int i) None []) (\<lambda>mutant.
          case mutant of
            None \<Rightarrow> Inr []
          | Some base \<Rightarrow>
              if refused_by lower tc base \<noteq> None then Inr []
              else fst (try_breakers lower tc kids base breakers (rng_new (seed + int i)))))"

definition run_lane ::
  "(gen_program \<Rightarrow> string \<times> string + 'r) \<Rightarrow> 'r toolchain \<Rightarrow> map_over \<Rightarrow> recurse \<Rightarrow> (string \<times> gen_program) list \<Rightarrow> int
    \<Rightarrow> nat \<Rightarrow> string + (string \<times> event) list" where
  "run_lane lower tc map_over kids seeds seed n =
     map_sum id concat (map_r (lane_round lower tc map_over kids seeds seed) [0 ..< n])"

text \<open>The exit code: no escapes.\<close>

definition lane_passes :: "(string \<times> event) list \<Rightarrow> bool" where
  "lane_passes evs \<longleftrightarrow> list_all (\<lambda>(name, e). case e of Escaped g \<Rightarrow> False | _ \<Rightarrow> True) evs"

subsection \<open>Evaluator against reference VM\<close>

datatype diff_event =
    DiffUnsequenced
  | DiffRejected
  | DiffVmThrew
  | DiffUnspecified
  | DiffStepLimit
  | DiffAgrees
  | DiffValue
  | DiffTrapCode
  | DiffOutcome
  | DiffMemory nat

fun first_difference :: "nat \<Rightarrow> u8 list \<Rightarrow> u8 list \<Rightarrow> nat option" where
  "first_difference k (x # xs) (y # ys) = (if x \<noteq> y then Some k else first_difference (Suc k) xs ys)"
| "first_difference k _ _ = None"

definition diff_outcomes :: "outcome \<Rightarrow> vm_result \<Rightarrow> sandbox \<Rightarrow> sandbox \<Rightarrow> diff_event" where
  "diff_outcomes ast vm box vbox =
     (let why = (case ast of
          OReturn v \<Rightarrow> if vm_ok vm then (if v \<noteq> vm_acc vm then Some DiffValue else None) else Some DiffOutcome
        | OTrap c \<Rightarrow> if \<not> vm_ok vm then (if c \<noteq> trap_code vm then Some DiffTrapCode else None) else Some DiffOutcome
        | _ \<Rightarrow> Some DiffOutcome)
      in case why of
           Some w \<Rightarrow> w
         | None \<Rightarrow> (case first_difference 0 box vbox of None \<Rightarrow> DiffAgrees | Some k \<Rightarrow> DiffMemory k))"

definition diff_one :: "'r toolchain \<Rightarrow> gen_program option \<Rightarrow> fault + diff_event" where
  "diff_one tc mutant =
     (case mutant of
        None \<Rightarrow> Inr DiffUnsequenced
      | Some gen \<Rightarrow>
          (case tc_lower tc gen True of
             Inl msg \<Rightarrow> Inr DiffRejected
           | Inr rtl \<Rightarrow>
               (case tc_validate tc rtl of
                  Inl msg \<Rightarrow> Inr DiffRejected
                | Inr st \<Rightarrow>
                    (case tc_arg_counts tc rtl of
                       [] \<Rightarrow> Inl (JsError ''Cannot read properties of undefined'')
                     | arity # _ \<Rightarrow>
                         (let args = entry_args_for arity;
                              (ast, box) = ast_run gen args;
                              (answer, vbox) = tc_run tc rtl args max_steps rawmem_new
                          in bindr ast (\<lambda>out. Inr
                             (case answer of
                                VmThrew \<Rightarrow> DiffVmThrew
                              | VmUnspecified \<Rightarrow> DiffUnspecified
                              | VmStepLimit \<Rightarrow> (case out of OUnspecified u \<Rightarrow> DiffUnspecified | _ \<Rightarrow> DiffStepLimit)
                              | Answered vm \<Rightarrow>
                                  (case out of
                                     OUnspecified u \<Rightarrow> DiffUnspecified
                                   | OStepLimit \<Rightarrow> DiffStepLimit
                                   | _ \<Rightarrow> diff_outcomes out vm box vbox))))))))"

subsection \<open>Survival\<close>

datatype survival =
    GaveUp
  | Ran
  | RanIntoTrap
  | SurvivalLimit
  | SurvivalUb
  | SurvivalThrew
  | RoundTripFailed
  | RejectedAs string

definition survive ::
  "(gen_program \<Rightarrow> string \<times> string + 'r) \<Rightarrow> 'r toolchain \<Rightarrow> string + gen_program option \<Rightarrow> survival" where
  "survive lower tc mutant =
     (case mutant of
        Inl msg \<Rightarrow> RejectedAs (first_line 70 msg)
      | Inr None \<Rightarrow> GaveUp
      | Inr (Some gen) \<Rightarrow>
          (case lower gen of
             Inl (name, msg) \<Rightarrow> if name = ''RoundTripError'' then RoundTripFailed else RejectedAs (first_line 70 msg)
           | Inr rtl \<Rightarrow>
               (case tc_validate tc rtl of
                  Inl msg \<Rightarrow> RejectedAs (first_line 70 msg)
                | Inr st \<Rightarrow>
                    (case tc_encode tc rtl of
                       Inl msg \<Rightarrow> RejectedAs (first_line 70 msg)
                     | Inr bytes \<Rightarrow>
                         (case tc_arg_counts tc rtl of
                            [] \<Rightarrow> SurvivalThrew
                          | arity # _ \<Rightarrow>
                              (case fst (tc_run tc rtl (entry_args_for arity) max_steps rawmem_new) of
                                 Answered vm \<Rightarrow> if vm_ok vm then Ran else RanIntoTrap
                               | VmStepLimit \<Rightarrow> SurvivalLimit
                               | VmUnspecified \<Rightarrow> SurvivalUb
                               | VmThrew \<Rightarrow> SurvivalThrew))))))"

subsection \<open>What an escape means\<close>

lemma try_breakers_runs:
  assumes "try_breakers lower tc kids base bs s = (Inr evs, t)"
  shows "map fst evs = map fst bs
    \<and> (\<forall>name e. (name, e) \<in> set evs \<longrightarrow>
         (\<exists>b s' t' broken. (name, b) \<in> set bs \<and> b kids base s' = (Inr broken, t') \<and> e = event_of lower tc broken))"
  using assms
proof (induction bs arbitrary: s evs)
  case (Cons nb bs)
  obtain name b where nb: "nb = (name, b)" by (cases nb)
  from Cons.prems obtain broken u evs' where run: "b kids base s = (Inr broken, u)"
    "try_breakers lower tc kids base bs u = (Inr evs', t)" "evs = (name, event_of lower tc broken) # evs'"
    by (auto simp: nb bindc_eq_Inr)
  note IH = Cons.IH [OF run(2)]
  have "\<exists>b s' t' broken. (n, b) \<in> set (nb # bs) \<and> b kids base s' = (Inr broken, t') \<and> e = event_of lower tc broken"
    if "(n, e) \<in> set evs" for n e
  proof (cases "(n, e) \<in> set evs'")
    case True
    with IH obtain b s' t' broken where "(n, b) \<in> set bs" "b kids base s' = (Inr broken, t')" "e = event_of lower tc broken"
      by blast
    then show ?thesis by (intro exI [of _ b] exI [of _ s'] exI [of _ t'] exI [of _ broken]) simp
  next
    case False
    with that run(1,3) show ?thesis
      by (intro exI [of _ b] exI [of _ s] exI [of _ u] exI [of _ broken]) (simp add: nb)
  qed
  with IH run(3) show ?case by (simp add: nb)
qed simp

lemma event_of_Escaped: "event_of lower tc broken = Escaped g \<longleftrightarrow> broken = Some g \<and> refused_by lower tc g = None"
  by (auto simp: event_of_def split: option.splits)

text \<open>A breaker throws on no program that has a procedure.\<close>

lemma draws_pick_proc: "gen \<noteq> [] \<Longrightarrow> draws (pick_proc kids gen) (\<lambda>i. i < length gen)"
proof -
  assume "gen \<noteq> []"
  then have "0 \<in> set (reachable_procs kids gen)" by (simp add: set_reachable_procs)
  then have ne: "reachable_procs kids gen \<noteq> []" by auto
  have "nth_default 0 (reachable_procs kids gen) k < length gen" if "k < length (reachable_procs kids gen)" for k
    using nth_mem [OF that] that by (simp add: set_reachable_procs)
  then show ?thesis
    unfolding pick_proc_def Let_def by (intro draws_bindc [OF draws_index [OF ne]] draws_retc)
qed

lemma draws_at_proc:
  "gen \<noteq> [] \<Longrightarrow> (\<And>i. draws (f i) (\<lambda>_. True)) \<Longrightarrow> draws (at_proc kids gen f) (\<lambda>_. True)"
  unfolding at_proc_def by (rule draws_bindc [OF draws_pick_proc]) simp_all

lemma draws_breaker:
  assumes "gen \<noteq> []" and "(name, b) \<in> set breakers"
  shows "draws (b kids gen) (\<lambda>_. True)"
proof -
  have "draws (unbound_identifier kids gen) (\<lambda>_. True)"
    unfolding unbound_identifier_def Let_def
    by (rule draws_at_proc [OF assms(1)], rule draws_bindc [OF draws_maybe_pick])
      (auto intro: draws_retc split: option.split)
  moreover have "draws (wide_shift kids gen) (\<lambda>_. True)" "draws (division_operator kids gen) (\<lambda>_. True)"
    unfolding wide_shift_def division_operator_def
    by (rule draws_bindc [OF draws_pick], simp add: shift_amounts_def, rule draws_retc, simp)
      (rule draws_bindc [OF draws_chance], rule draws_retc, simp)
  moreover have "draws (far_fall_through kids gen) (\<lambda>_. True)"
    unfolding far_fall_through_def by (auto intro: draws_retc draws_bindc [OF draws_int])
  moreover have "draws (b kids gen) (\<lambda>_. True)"
    if "b \<in> {mixed_return, recursive_call, stray_break}"
    using that by (auto simp: mixed_return_def recursive_call_def stray_break_def intro!: draws_at_proc assms(1) draws_retc)
  moreover have "draws (b kids gen) (\<lambda>_. True)"
    if "b \<in> {arity_mismatch, duplicate_label, default_falls, missing_callee}"
    using that by (auto simp: arity_mismatch_def duplicate_label_def default_falls_def missing_callee_def intro!: draws_retc)
  ultimately show ?thesis using assms(2) by (auto simp: breakers_def)
qed

lemma try_breakers_total:
  assumes "\<And>name b. (name, b) \<in> set bs \<Longrightarrow> draws (b kids base) (\<lambda>_. True)"
  shows "draws (try_breakers lower tc kids base bs) (\<lambda>_. True)"
  using assms
proof (induction bs)
  case (Cons nb bs)
  obtain name b where nb: "nb = (name, b)" by (cases nb)
  have "draws (try_breakers lower tc kids base bs) (\<lambda>_. True)"
    by (rule Cons.IH) (erule Cons.prems [OF list.set_intros(2)])
  moreover have "draws (b kids base) (\<lambda>_. True)" by (rule Cons.prems [of name]) (simp add: nb)
  ultimately show ?case
    by (simp only: nb try_breakers.simps) (intro draws_bindc draws_retc TrueI)
qed (simp add: draws_def)


text \<open>A gate that refuses nothing: the arity breaker, which has a site, escapes it.\<close>

definition open_gate :: "gen_program toolchain" where
  "open_gate = (sample_toolchain (sample_answer 0))\<lparr>tc_arg_counts := (\<lambda>rtl. [1])\<rparr>"


subsection \<open>The comparison and the driver\<close>

lemma first_difference_None: "length xs = length ys \<Longrightarrow> first_difference k xs ys = None \<longleftrightarrow> xs = ys"
  by (induction k xs ys rule: first_difference.induct) auto

text \<open>
  A mismatch \<^verbatim>\<open>verify\<close> reports is one \<^verbatim>\<open>diff.ts\<close> shows: on a candidate that reaches the engines, a
  \<^verbatim>\<open>LOWERER/VM\<close> finding means the comparison does not agree. The converse fails only where the digests of two
  different buffers collide, or where the entry is void, which \<^verbatim>\<open>diff.ts\<close> does not set aside.
\<close>

lemma verify_mismatch_in_diff:
  assumes "passes tc gen rtl st bytes args" and "ast_run gen args = (Inr out, box)"
    and "tc_run tc rtl args max_steps rawmem_new = (answer, vbox)" and "length box = length vbox"
    and "verify tc entry (Some gen) seed lg = (Inr v, lg')" and "Mismatched \<notin> set (tallies lg)"
    and "Mismatched \<in> set (tallies lg')"
  shows "diff_one tc (Some gen) \<in> Inr ` {DiffValue, DiffTrapCode, DiffOutcome} \<union> Inr ` range DiffMemory"
proof -
  have settled: "settle tc entry gen seed rtl st bytes args out (digest_of box) answer (digest_of vbox) lg = (Inr v, lg')"
    using verify_passes [OF assms(1-3), of entry seed] assms(5) by simp
  then obtain vm exp where vm: "answer = Answered vm" "expected_of out = Some exp"
      "disagreement_of exp vm (digest_of box) (digest_of vbox) \<noteq> None"
    using assms(6,7)
    by (cases answer; cases out) (auto simp: settle_def drop_with_def bindc_def Let_def split: if_splits)
  have "diff_one tc (Some gen) = Inr (diff_outcomes out vm box vbox)"
    using assms(1-3) vm(1,2)
    by (cases "tc_arg_counts tc rtl"; cases out) (auto simp: passes_def diff_one_def)
  moreover have "diff_outcomes out vm box vbox \<noteq> DiffAgrees"
    using vm(2,3) first_difference_None [OF assms(4), of 0]
    by (cases out) (auto simp: diff_outcomes_def no_disagreement agrees_with_def split: option.splits)
  ultimately show ?thesis using vm(2)
    by (cases out) (auto simp: diff_outcomes_def split: option.splits if_splits)
qed

end
