(* ===== verification/Seed_Value.thy ===== *)
theory Seed_Value
  imports Campaign Cov_Map
begin

section \<open>What each seed is worth (\<^verbatim>\<open>fuzz/ts/seed_value.ts\<close>)\<close>

text \<open>
  Two measures of a seed: the target edges it reaches alone, and the host items lost when it is left out. The
  instrumented image is a function of the batch file, and so is the host sink with \<^verbatim>\<open>gcovr\<close>'s report
  behind it: a list of items without repetition, lines and branch outcomes alike. A \<^verbatim>\<open>Set\<close> is such a
  list, a \<^verbatim>\<open>Map\<close> the list of its entries. Wiping counter files and printing are not modelled.
\<close>

type_synonym 'i host_sink = "u8 list \<Rightarrow> string + 'i list"

definition lowered_entry :: "'r toolchain \<Rightarrow> gen_program \<Rightarrow> string + batch_entry" where
  "lowered_entry tc p =
     bindr (tc_lower tc p False) (\<lambda>rtl.
     bindr (tc_validate tc rtl) (\<lambda>st.
     bindr (tc_encode tc rtl) (\<lambda>bytes.
     case tc_arg_counts tc rtl of
       [] \<Rightarrow> Inl ''Cannot read properties of undefined''
     | arity # _ \<Rightarrow> Inr \<lparr>entry_bytes = bytes, entry_args = entry_args_for arity\<rparr>)))"

definition run_together :: "'r toolchain \<Rightarrow> 'i host_sink \<Rightarrow> gen_program list \<Rightarrow> string + 'i list" where
  "run_together tc sink programs = bindr (map_r (lowered_entry tc) programs) (\<lambda>es. sink (write_batch es))"

definition run_alone :: "'r toolchain \<Rightarrow> 'i host_sink \<Rightarrow> gen_program \<Rightarrow> string + 'i list" where
  "run_alone tc sink program = bindr (lowered_entry tc program) (\<lambda>e. sink (write_batch [e]))"

subsection \<open>Target edges\<close>

record 'i seed_row =
  row_name :: string
  row_edges :: "'i list"
  row_unique :: nat

definition edges_of :: "u8 list \<Rightarrow> nat list" where
  "edges_of bits = filter (bit_set bits) [0 ..< 8 * length bits]"

definition target_edges :: "'r toolchain \<Rightarrow> emulator \<Rightarrow> nat \<Rightarrow> gen_program \<Rightarrow> string + nat list" where
  "target_edges tc emu nbytes program =
     bindr (lowered_entry tc program) (\<lambda>e.
     bindr (union_coverage (qemu_output (emu (write_batch [e]))) (replicate nbytes 0)) (\<lambda>(added, bits).
     Inr (edges_of bits)))"

definition unique_in :: "(string \<times> 'i list) list \<Rightarrow> string \<Rightarrow> 'i list \<Rightarrow> nat" where
  "unique_in rows name mine =
     length (filter (\<lambda>e. \<not> list_ex (\<lambda>(other, edges). other \<noteq> name \<and> e \<in> set edges) rows) mine)"

definition with_unique :: "(string \<times> 'i list) list \<Rightarrow> 'i seed_row list" where
  "with_unique rows = map (\<lambda>(name, mine). \<lparr>row_name = name, row_edges = mine, row_unique = unique_in rows name mine\<rparr>) rows"

definition target_edges_per_seed ::
  "'r toolchain \<Rightarrow> emulator \<Rightarrow> nat \<Rightarrow> (string \<times> gen_program) list \<Rightarrow> string + nat seed_row list" where
  "target_edges_per_seed tc emu nbytes seeds =
     bindr (map_r (\<lambda>(name, p). bindr (target_edges tc emu nbytes p) (\<lambda>es. Inr (name, es))) seeds)
       (\<lambda>rows. Inr (with_unique rows))"

subsection \<open>Leave one out\<close>

definition lost_without ::
  "'r toolchain \<Rightarrow> 'i host_sink \<Rightarrow> (string \<times> gen_program) list \<Rightarrow> 'i list \<Rightarrow> string list \<Rightarrow> string + nat" where
  "lost_without tc sink seeds base dropped =
     bindr (run_together tc sink (map snd (filter (\<lambda>c. fst c \<notin> set dropped) seeds))) (\<lambda>without.
     Inr (length (filter (\<lambda>l. l \<notin> set without) base)))"

record host_verdict =
  alone :: "(string \<times> nat) list"
  lost_together :: nat

definition host_unique_items ::
  "'r toolchain \<Rightarrow> 'i host_sink \<Rightarrow> (string \<times> gen_program) list \<Rightarrow> string list \<Rightarrow> string + host_verdict" where
  "host_unique_items tc sink seeds names =
     bindr (run_together tc sink (map snd seeds)) (\<lambda>base.
     bindr (map_r (\<lambda>n. bindr (lost_without tc sink seeds base [n]) (\<lambda>k. Inr (n, k))) names) (\<lambda>scores.
     let spare = filter (\<lambda>n. map_of scores n = Some 0) names
     in if length spare < 2 then Inr \<lparr>alone = scores, lost_together = 0\<rparr>
        else bindr (lost_without tc sink seeds base spare) (\<lambda>k. Inr \<lparr>alone = scores, lost_together = k\<rparr>)))"

subsection \<open>A minimal covering subset\<close>

definition gain :: "(string \<Rightarrow> 'i list) \<Rightarrow> 'i list \<Rightarrow> string \<Rightarrow> nat" where
  "gain per wanted name = length (filter (\<lambda>l. l \<in> set wanted) (per name))"

text \<open>The scan for the seed that gains most; the first of several is kept.\<close>

fun best_of :: "(string \<Rightarrow> 'i list) \<Rightarrow> 'i list \<Rightarrow> string list \<Rightarrow> string list \<Rightarrow> (string \<times> nat) option \<Rightarrow> (string \<times> nat) option" where
  "best_of per wanted keep [] best = best"
| "best_of per wanted keep (name # names) best =
     (if name \<in> set keep then best_of per wanted keep names best
      else best_of per wanted keep names
        (case best of None \<Rightarrow> Some (name, gain per wanted name)
         | Some (b, g) \<Rightarrow> if gain per wanted name > g then Some (name, gain per wanted name) else best))"

function greedy_cover :: "(string \<Rightarrow> 'i list) \<Rightarrow> string list \<Rightarrow> 'i list \<Rightarrow> string list \<Rightarrow> string list" where
  "greedy_cover per names wanted keep =
     (if wanted = [] then keep
      else (case best_of per wanted keep names None of
              None \<Rightarrow> keep
            | Some (best, g) \<Rightarrow>
                if g = 0 then keep
                else greedy_cover per names (filter (\<lambda>l. l \<notin> set (per best)) wanted) (keep @ [best])))"
  by pat_completeness auto

lemma best_of_gain:
  assumes "best_of per wanted keep names best = Some (b, g)" and "\<forall>b g. best = Some (b, g) \<longrightarrow> g = gain per wanted b"
  shows "g = gain per wanted b"
  using assms
proof (induction names arbitrary: best)
  case (Cons name names)
  let ?next = "case best of None \<Rightarrow> Some (name, gain per wanted name)
    | Some (b, g) \<Rightarrow> if gain per wanted name > g then Some (name, gain per wanted name) else best"
  have next_ok: "\<forall>b g. ?next = Some (b, g) \<longrightarrow> g = gain per wanted b"
    using Cons.prems(2) by (auto split: option.splits if_splits)
  show ?case
  proof (cases "name \<in> set keep")
    case True
    with Cons.prems show ?thesis by (intro Cons.IH [of best]) auto
  next
    case False
    with Cons.prems(1) have "best_of per wanted keep names ?next = Some (b, g)" by simp
    from Cons.IH [OF this next_ok] show ?thesis .
  qed
qed auto

lemma gain_pos: "0 < gain per wanted b \<longleftrightarrow> (\<exists>l \<in> set wanted. l \<in> set (per b))"
  by (auto simp: gain_def filter_empty_conv)

termination greedy_cover
proof (relation "measure (\<lambda>(per, names, wanted, keep). length wanted)")
  fix per :: "string \<Rightarrow> 'i list" and names wanted keep best g a b
  assume "best_of per wanted keep names None = Some best" "(a, b) = best" "b \<noteq> 0"
  then have "0 < gain per wanted a" using best_of_gain [of per wanted keep names None a b] by auto
  then obtain l where "l \<in> set wanted" "l \<in> set (per a)" by (auto simp: gain_pos)
  then have "length (filter (\<lambda>l. l \<notin> set (per a)) wanted) < length wanted" by (intro length_filter_less) auto
  then show "((per, names, filter (\<lambda>l. l \<notin> set (per a)) wanted, keep @ [a]), (per, names, wanted, keep))
      \<in> measure (\<lambda>(per, names, wanted, keep). length wanted)" by simp
qed simp

declare greedy_cover.simps [simp del]

definition union_items :: "(string \<Rightarrow> 'i list) \<Rightarrow> string list \<Rightarrow> 'i list" where
  "union_items per names = remdups (concat (map per names))"

definition covering_subset :: "(string \<Rightarrow> 'i list) \<Rightarrow> string list \<Rightarrow> string list" where
  "covering_subset per names = greedy_cover per names (union_items per names) []"

subsection \<open>The subset covers\<close>

lemma best_of_None: "best_of per wanted keep names best = None \<longleftrightarrow> best = None \<and> set names \<subseteq> set keep"
  by (induction names arbitrary: best) (auto split: option.split)

lemma best_of_in:
  "best_of per wanted keep names best = Some (b, g) \<Longrightarrow> best = Some (b, g) \<or> b \<in> set names - set keep"
proof (induction names arbitrary: best)
  case (Cons name names)
  show ?case
  proof (cases "name \<in> set keep")
    case True
    with Cons.prems Cons.IH [of best] show ?thesis by auto
  next
    case False
    let ?next = "case best of None \<Rightarrow> Some (name, gain per wanted name)
      | Some (b, g) \<Rightarrow> if gain per wanted name > g then Some (name, gain per wanted name) else best"
    from False Cons.prems have "best_of per wanted keep names ?next = Some (b, g)" by simp
    from Cons.IH [OF this] have "?next = Some (b, g) \<or> b \<in> set names - set keep" .
    moreover have "?next = best \<or> ?next = Some (name, gain per wanted name)" by (auto split: option.split)
    ultimately show ?thesis using False by auto
  qed
qed simp

lemma best_of_max:
  assumes "best_of per wanted keep names best = Some (b, g)"
  shows "(\<forall>n \<in> set names - set keep. gain per wanted n \<le> g) \<and> (\<forall>b' g'. best = Some (b', g') \<longrightarrow> g' \<le> g)"
  using assms
proof (induction names arbitrary: best)
  case (Cons name names)
  show ?case
  proof (cases "name \<in> set keep")
    case True
    with Cons.prems Cons.IH [of best] show ?thesis by auto
  next
    case False
    let ?next = "case best of None \<Rightarrow> Some (name, gain per wanted name)
      | Some (b, g) \<Rightarrow> if gain per wanted name > g then Some (name, gain per wanted name) else best"
    from False Cons.prems have "best_of per wanted keep names ?next = Some (b, g)" by simp
    note IH = Cons.IH [OF this]
    have "\<exists>b' g'. ?next = Some (b', g') \<and> gain per wanted name \<le> g' \<and> (\<forall>b g. best = Some (b, g) \<longrightarrow> g \<le> g')"
      by (auto split: option.split)
    with IH show ?thesis by fastforce
  qed
qed simp

definition reached :: "(string \<Rightarrow> 'i list) \<Rightarrow> string list \<Rightarrow> 'i set" where
  "reached per names = (\<Union>n \<in> set names. set (per n))"

lemma greedy_cover_covers:
  assumes "distinct keep" and "set keep \<subseteq> set names" and "set wanted = reached per names - reached per keep"
  shows "distinct (greedy_cover per names wanted keep) \<and> set (greedy_cover per names wanted keep) \<subseteq> set names
    \<and> reached per (greedy_cover per names wanted keep) = reached per names"
  using assms
proof (induction per names wanted keep rule: greedy_cover.induct)
  case (1 per names wanted keep)
  have mono: "reached per keep \<subseteq> reached per names" using 1(3) by (auto simp: reached_def)
  show ?case
  proof (cases "wanted = []")
    case True
    with 1(2-4) mono show ?thesis by (subst (1 2 3) greedy_cover.simps) auto
  next
    case False
    then obtain l where l: "l \<in> set wanted" by (cases wanted) auto
    then obtain n where n: "n \<in> set names" "l \<in> set (per n)" "n \<notin> set keep"
      using 1(4) by (auto simp: reached_def)
    then obtain b g where best: "best_of per wanted keep names None = Some (b, g)"
      using best_of_None [of per wanted keep names None] by (cases "best_of per wanted keep names None") auto
    have "0 < gain per wanted n" using l n(2) by (auto simp: gain_pos)
    moreover have "gain per wanted n \<le> g" using best_of_max [OF best] n(1,3) by blast
    ultimately have g: "g \<noteq> 0" by simp
    have b: "b \<in> set names" "b \<notin> set keep" using best_of_in [OF best] by auto
    have step: "greedy_cover per names wanted keep
        = greedy_cover per names (filter (\<lambda>l. l \<notin> set (per b)) wanted) (keep @ [b])"
      using False best g by (subst greedy_cover.simps) simp
    show ?thesis
      unfolding step
    proof (rule 1(1) [OF False best refl g])
      show "distinct (keep @ [b])" "set (keep @ [b]) \<subseteq> set names" using 1(2,3) b by auto
      show "set (filter (\<lambda>l. l \<notin> set (per b)) wanted) = reached per names - reached per (keep @ [b])"
        using 1(4) by (auto simp: reached_def)
    qed
  qed
qed

text \<open>
  The minimal covering subset covers: the seeds it keeps are among the corpus's, each once, and together they
  reach every item the whole corpus reaches.
\<close>

theorem covering_subset_correct:
  "distinct (covering_subset per names) \<and> set (covering_subset per names) \<subseteq> set names
    \<and> (\<Union>n \<in> set (covering_subset per names). set (per n)) = (\<Union>n \<in> set names. set (per n))"
proof -
  have "set (union_items per names) = reached per names - reached per []"
    by (auto simp: union_items_def reached_def)
  from greedy_cover_covers [OF _ _ this] show ?thesis by (simp add: covering_subset_def reached_def)
qed

subsection \<open>What leaving one out measures\<close>

text \<open>
  A sink whose coverage of a batch is the union of its programs': then leaving one seed out loses the items no
  other seed reaches, the measure of the target axis, and a verdict with nothing lost together means the
  idle seeds can all go.
\<close>

definition unites :: "'r toolchain \<Rightarrow> 'i host_sink \<Rightarrow> (string \<times> gen_program) list \<Rightarrow> (string \<Rightarrow> 'i set) \<Rightarrow> bool" where
  "unites tc sink seeds per \<longleftrightarrow>
     (\<forall>P. \<exists>items. run_together tc sink (map snd (filter P seeds)) = Inr items \<and> distinct items
        \<and> set items = (\<Union>c \<in> set (filter P seeds). per (fst c)))"

lemma card_lost: "distinct base \<Longrightarrow> length (filter (\<lambda>l. l \<notin> set without) base) = card (set base - set without)"
proof -
  assume "distinct base"
  then have "card (set (filter (\<lambda>l. l \<notin> set without) base)) = length (filter (\<lambda>l. l \<notin> set without) base)"
    by (intro distinct_card distinct_filter)
  moreover have "set (filter (\<lambda>l. l \<notin> set without) base) = set base - set without" by auto
  ultimately show ?thesis by simp
qed

lemma lost_without_counts:
  assumes "unites tc sink seeds per" and "distinct base" and "set base = (\<Union>c \<in> set seeds. per (fst c))"
  shows "lost_without tc sink seeds base dropped =
    Inr (card ((\<Union>c \<in> set seeds. per (fst c)) - (\<Union>c \<in> {c \<in> set seeds. fst c \<notin> set dropped}. per (fst c))))"
proof -
  from spec [OF assms(1) [unfolded unites_def], of "\<lambda>c. fst c \<notin> set dropped"]
  obtain items where "run_together tc sink (map snd (filter (\<lambda>c. fst c \<notin> set dropped) seeds)) = Inr items"
      "set items = (\<Union>c \<in> {c \<in> set seeds. fst c \<notin> set dropped}. per (fst c))" by auto
  with card_lost [OF assms(2), of items] assms(3) show ?thesis by (simp add: lost_without_def)
qed

end
