(* ===== verification/Order_Free.thy ===== *)
theory Order_Free
  imports Order
begin

section \<open>A program the filter passes has one answer\<close>

text \<open>
  The purpose of \<^verbatim>\<open>gen/ub.ts\<close>: where \<open>analyze\<close> finds nothing, the order in which operands run does not
  change what a program answers. Two computations are \<open>alike\<close> when, wherever both give an answer (a value
  or a trap), they give the same one and leave the same memory; an answer is what is left once the
  driver has dropped the step limit and the unspecified. The footprints of \<open>Order\<close> make two operands
  without a conflict commute, and everything else is congruence.
\<close>

subsection \<open>Alike computations\<close>

definition answered :: "fault + 'a \<Rightarrow> bool" where
  "answered r \<longleftrightarrow> (\<forall>e. r = Inl e \<longrightarrow> (\<exists>c. e = Trapped c))"

lemma answered_simps [simp]: "answered (Inr v)" "answered (Inl e) \<longleftrightarrow> (\<exists>c. e = Trapped c)"
  by (simp_all add: answered_def)

lemma answered_not_limited: "answered r \<Longrightarrow> \<not> limited r"
  by (cases r) auto

definition alike :: "('m, 'a) ev \<Rightarrow> ('m, 'a) ev \<Rightarrow> bool" where
  "alike m m' \<longleftrightarrow>
     (\<forall>s. answered (fst (m s)) \<longrightarrow> answered (fst (m' s)) \<longrightarrow>
        fst (m s) = fst (m' s) \<and> m_mem (snd (m s)) = m_mem (snd (m' s))
        \<and> (\<forall>v. fst (m s) = Inr v \<longrightarrow> snd (m s) = snd (m' s)))"

lemma alikeD:
  assumes "alike m m'" "answered (fst (m s))" "answered (fst (m' s))"
  shows "fst (m s) = fst (m' s)" "m_mem (snd (m s)) = m_mem (snd (m' s))"
    "fst (m s) = Inr v \<Longrightarrow> m s = m' s"
proof -
  from assms have "fst (m s) = fst (m' s) \<and> m_mem (snd (m s)) = m_mem (snd (m' s))
      \<and> (\<forall>v. fst (m s) = Inr v \<longrightarrow> snd (m s) = snd (m' s))"
    unfolding alike_def by blast
  then show "fst (m s) = fst (m' s)" "m_mem (snd (m s)) = m_mem (snd (m' s))"
    "fst (m s) = Inr v \<Longrightarrow> m s = m' s" by (auto simp: prod_eq_iff)
qed

named_theorems alike_intros "congruence of alike computations"

lemma alike_refl [alike_intros, simp]: "alike m m"
  by (simp add: alike_def)

lemma alike_sym: "alike m m' \<Longrightarrow> alike m' m"
  unfolding alike_def by metis

lemma bindc_answered:
  assumes "answered (fst (bindc m f s))"
  shows "answered (fst (m s))"
  using assms by (cases "m s"; cases "fst (m s)") (auto simp: bindc_def)

lemma alike_bindc [alike_intros]:
  assumes m: "alike m m'" and f: "\<And>v. alike (f v) (f' v)"
  shows "alike (bindc m f) (bindc m' f')"
  unfolding alike_def
proof (intro allI impI)
  fix s assume a: "answered (fst (bindc m f s))" "answered (fst (bindc m' f' s))"
  note mm = alikeD [OF m bindc_answered [OF a(1)] bindc_answered [OF a(2)]]
  show "fst (bindc m f s) = fst (bindc m' f' s) \<and> m_mem (snd (bindc m f s)) = m_mem (snd (bindc m' f' s))
    \<and> (\<forall>v. fst (bindc m f s) = Inr v \<longrightarrow> snd (bindc m f s) = snd (bindc m' f' s))"
  proof (cases "m s")
    case (Pair r t)
    obtain r' t' where m': "m' s = (r', t')" by (cases "m' s")
    show ?thesis
    proof (cases r)
      case (Inl e)
      with Pair m' mm(1,2) show ?thesis by (auto simp: bindc_def)
    next
      case (Inr v)
      with Pair m' mm(3) [of v] have "m' s = (Inr v, t)" by simp
      with Pair Inr a alikeD [OF f [of v], of t] show ?thesis by (auto simp: bindc_def)
    qed
  qed
qed

lemma alike_if [alike_intros]: "(c \<Longrightarrow> alike m m') \<Longrightarrow> (\<not> c \<Longrightarrow> alike n n') \<Longrightarrow> alike (if c then m else n) (if c then m' else n')"
  by simp

lemma alike_option [alike_intros]:
  "(x = None \<Longrightarrow> alike m m') \<Longrightarrow> (\<And>v. x = Some v \<Longrightarrow> alike (f v) (f' v)) \<Longrightarrow>
    alike (case x of None \<Rightarrow> m | Some v \<Rightarrow> f v) (case x of None \<Rightarrow> m' | Some v \<Rightarrow> f' v)"
  by (cases x) simp_all

lemma alike_loop_fuel: "alike m m' \<Longrightarrow> alike (loop_fuel k m) (loop_fuel k m')"
proof (induction k)
  case (Suc k)
  have "alike (case it of Again \<Rightarrow> loop_fuel k m | Stop fl \<Rightarrow> retc fl) (case it of Again \<Rightarrow> loop_fuel k m' | Stop fl \<Rightarrow> retc fl)" for it
    using Suc by (cases it) simp_all
  with Suc.prems show ?case by (simp only: loop_fuel.simps) (rule alike_bindc)
qed simp

lemma alike_loop [alike_intros]: "alike m m' \<Longrightarrow> alike (loop_ev cfg m) (loop_ev cfg m')"
  unfolding loop_ev_def by (intro alike_bindc alike_refl alike_loop_fuel)

lemma alike_in_child [alike_intros]: "alike m m' \<Longrightarrow> alike (in_child m) (in_child m')"
  unfolding in_child_def by (intro alike_bindc alike_refl)

lemma alike_u32_val [alike_intros]: "alike m m' \<Longrightarrow> alike (u32_val m) (u32_val m')"
  unfolding u32_val_def by (intro alike_bindc alike_refl)

lemma alike_after [alike_intros]: "alike m m' \<Longrightarrow> alike (after_body fl m) (after_body fl m')"
  by (cases fl) (simp_all add: after_body_def del: retc_apply)

subsection \<open>Operands without a conflict\<close>

lemma update_none [simp]: "map_option (update_slot None) x = x"
  by (cases x) simp_all

lemma change_nothing: "\<not> touches ef \<Longrightarrow> change_vars ef u \<Longrightarrow> u a = a"
  by (cases a) (auto simp: touches_def change_vars_def)

text \<open>One operand changes nothing the other can see, and their changes commute.\<close>

lemma change_unseen:
  assumes "\<not> conflict e f" and "change_vars e u"
  shows "same_vars f a (u a)"
proof -
  obtain d x where u: "dom d \<subseteq> writes e" "mem e \<noteq> MWrite \<longrightarrow> x = None" "u = (\<lambda>(sc, m). (apply_updates d sc, put_mem x m))"
    using assms(2) unfolding change_vars_def by blast
  have "d n = None" if "n \<in> reads f" for n
    using that u(1) assms(1) by (auto simp: conflict_def intersects_def)
  moreover have "x = None" if "mem f \<noteq> MNone"
    using that u(2) assms(1) by (auto simp: conflict_def)
  ultimately show ?thesis
    by (cases a) (auto simp: same_vars_def u(3) lookup_apply)
qed

lemma changes_commute:
  assumes "\<not> conflict e f" and "change_vars e u" "change_vars f w"
  shows "u (w a) = w (u a)"
proof -
  obtain d x where u: "dom d \<subseteq> writes e" "mem e \<noteq> MWrite \<longrightarrow> x = None" "u = (\<lambda>(sc, m). (apply_updates d sc, put_mem x m))"
    using assms(2) unfolding change_vars_def by blast
  obtain d' x' where w: "dom d' \<subseteq> writes f" "mem f \<noteq> MWrite \<longrightarrow> x' = None" "w = (\<lambda>(sc, m). (apply_updates d' sc, put_mem x' m))"
    using assms(3) unfolding change_vars_def by blast
  have "dom d \<inter> dom d' = {}" using u(1) w(1) assms(1) by (auto simp: conflict_def intersects_def)
  then have "d ++ d' = d' ++ d" by (rule map_add_comm)
  moreover have "x = None \<or> x' = None" using u(2) w(2) assms(1) by (auto simp: conflict_def)
  ultimately show ?thesis by (cases a) (auto simp: u(3) w(3) apply_apply)
qed

lemma footprintD:
  assumes "footprint ef m"
  obtains r u c where "change_vars ef u" "trapped r \<longrightarrow> terminates ef" "vars.acts ef a m r u c"
  using assms unfolding footprint_def vars.det_def by blast

lemma footprint_trap:
  assumes "footprint ef m" and "fst (m s) = Inl (Trapped c)"
  shows "terminates ef"
proof -
  obtain r u k where "trapped r \<longrightarrow> terminates ef" "vars.acts ef (core s) m r u k"
    by (rule footprintD [OF assms(1)])
  with vars.actsD(1) [of ef "core s" m r u k s] assms(2) show ?thesis
    by (auto simp: same_vars_def)
qed

lemma mstate_eqI: "core s = core t \<Longrightarrow> m_steps s = m_steps t \<Longrightarrow> s = (t :: 'm mstate)"
  by (simp add: core_def)

text \<open>Seen again after an operand that does not conflict: the same result and the same change.\<close>

lemma seen_later:
  assumes m: "footprint e m" and later: "same_vars e (core s) (core t)" "m_steps s \<le> m_steps t"
    and t: "answered (fst (m t))"
  obtains u c where "change_vars e u"
    "fst (m s) = fst (m t)" "lands u s (fst (m s)) (snd (m s))" "lands u t (fst (m t)) (snd (m t))"
    "m_steps (snd (m s)) = m_steps s + c" "m_steps (snd (m t)) = m_steps t + c"
proof -
  obtain r u c where f: "change_vars e u" "vars.acts e (core s) m r u c" by (rule footprintD [OF m])
  have refl: "same_vars e (core s) (core s)" by (simp add: same_vars_def)
  have lt: "\<not> limited (fst (m t))" by (rule answered_not_limited [OF t])
  have ls: "\<not> limited (fst (m s))" by (rule vars.acts_down [OF f(2) later(1) refl later(2) lt])
  from vars.actsD [OF f(2) refl ls] vars.actsD [OF f(2) later(1) lt] f(1) show thesis
    by (intro that [of u c]) simp_all
qed

lemma alike_both_swapped:
  assumes m: "footprint e m" "footprint e m'" "alike m m'"
    and n: "footprint f n" "footprint f n'" "alike n n'"
    and k: "\<And>x y. alike (k x y) (k' x y)" and free: "\<not> conflict e f"
  shows "alike (bindc m (\<lambda>x. bindc n (\<lambda>y. k x y))) (bindc n' (\<lambda>y. bindc m' (\<lambda>x. k' x y)))"
  unfolding alike_def
proof (intro allI impI)
  fix s
  let ?A = "bindc m (\<lambda>x. bindc n (\<lambda>y. k x y))" and ?B = "bindc n' (\<lambda>y. bindc m' (\<lambda>x. k' x y))"
  assume A: "answered (fst (?A s))" and B: "answered (fst (?B s))"
  have am: "answered (fst (m s))" and bn: "answered (fst (n' s))"
    using bindc_answered [OF A] bindc_answered [OF B] by auto
  obtain r1 t1 where ms: "m s = (r1, t1)" by (cases "m s")
  obtain q1 w1 where ns: "n' s = (q1, w1)" by (cases "n' s")
  have free': "\<not> conflict f e" using free conflict_sym by blast
  show "fst (?A s) = fst (?B s) \<and> m_mem (snd (?A s)) = m_mem (snd (?B s)) \<and>
    (\<forall>v. fst (?A s) = Inr v \<longrightarrow> snd (?A s) = snd (?B s))"
  proof (cases r1)
    case (Inl x)
    with am ms obtain c where x: "x = Trapped c" by auto
    have te: "terminates e" by (rule footprint_trap [OF m(1), of s c]) (use ms Inl x in simp)
    with free have quiet: "\<not> touches f" "\<not> terminates f" by (auto simp: conflict_def touches_def)
    obtain y where q1: "q1 = Inr y"
      using bn ns footprint_trap [OF n(2), of s] quiet(2) by (cases q1) auto
    have Bm: "answered (fst (m' w1))" using B ns q1 bindc_answered [of m' _ w1] by (simp add: bindc_def)
    obtain u d where un: "change_vars f u" "lands u s (fst (n' s)) (snd (n' s))" "m_steps (snd (n' s)) = m_steps s + d"
      by (rule seen_later [OF n(2), of s s]) (use bn in \<open>simp_all add: same_vars_def\<close>)
    have w1: "core w1 = core s" "m_steps s \<le> m_steps w1"
      using un(2,3) ns q1 change_nothing [OF quiet(1) un(1)] by simp_all
    obtain u2 where sl: "fst (m' s) = fst (m' w1)" "lands u2 s (fst (m' s)) (snd (m' s))" "lands u2 w1 (fst (m' w1)) (snd (m' w1))"
      by (rule seen_later [OF m(2), of s w1]) (use w1 Bm in \<open>simp_all add: same_vars_def\<close>)
    have "answered (fst (m' s))" using sl(1) Bm by simp
    note al = alikeD [OF m(3) am this]
    have f1: "fst (m' w1) = Inl x" using al(1) sl(1) ms Inl by simp
    have "fst (?B s) = Inl x" "snd (?B s) = snd (m' w1)"
      using ns q1 f1 by (cases "m' w1"; simp add: bindc_def)+
    moreover have "m_mem (snd (m' w1)) = m_mem t1"
      using al(2) sl(2,3) f1 sl(1) w1(1) ms by simp
    moreover have "?A s = (Inl x, t1)" using ms Inl by (simp add: bindc_def)
    ultimately show ?thesis by simp
  next
    case (Inr x)
    have A2: "?A s = bindc n (\<lambda>y. k x y) t1" using ms Inr by (simp add: bindc_def)
    have an: "answered (fst (n t1))" using A unfolding A2 by (rule bindc_answered)
    obtain um cm where um: "change_vars e um" "lands um s (fst (m s)) (snd (m s))" "m_steps (snd (m s)) = m_steps s + cm"
      by (rule seen_later [OF m(1), of s s]) (use am in \<open>simp_all add: same_vars_def\<close>)
    have t1: "core t1 = um (core s)" "m_steps t1 = m_steps s + cm" using um(2,3) ms Inr by simp_all
    have seen: "same_vars f (core s) (core t1)" using change_unseen [OF free um(1)] t1(1) by simp
    obtain un cn where un: "change_vars f un" "fst (n s) = fst (n t1)" "lands un s (fst (n s)) (snd (n s))"
      "lands un t1 (fst (n t1)) (snd (n t1))" "m_steps (snd (n s)) = m_steps s + cn" "m_steps (snd (n t1)) = m_steps t1 + cn"
      by (rule seen_later [OF n(1) seen _ an]) (use t1 in simp_all)
    have "answered (fst (n s))" using un(2) an by simp
    note al = alikeD [OF n(3) this bn]
    show ?thesis
    proof (cases q1)
      case (Inl z)
      with bn ns obtain c where z: "z = Trapped c" by auto
      have "terminates f" by (rule footprint_trap [OF n(2), of s c]) (use ns Inl z in simp)
      with free have quiet: "\<not> touches e" by (auto simp: conflict_def)
      have t1s: "core t1 = core s" using t1(1) change_nothing [OF quiet um(1)] by simp
      have f1: "fst (n t1) = Inl z" using al(1) un(2) ns Inl by simp
      have "m_mem (snd (n t1)) = m_mem w1" using al(2) un(2,3,4) f1 t1s ns by simp
      moreover have "fst (?A s) = Inl z" "snd (?A s) = snd (n t1)"
        unfolding A2 using f1 by (cases "n t1"; simp add: bindc_def)+
      moreover have "?B s = (Inl z, w1)" using ns Inl by (simp add: bindc_def)
      ultimately show ?thesis by simp
    next
      case (Inr y)
      have nv: "n s = (Inr y, w1)" using al(1) al(3) [of y] ns Inr by simp
      obtain t2 where t2: "n t1 = (Inr y, t2)" using un(2) nv by (cases "n t1") simp
      have w1: "core w1 = un (core s)" "m_steps w1 = m_steps s + cn" using un(3,5) nv by simp_all
      have t2c: "core t2 = un (um (core s))" "m_steps t2 = m_steps s + cm + cn" using un(4,6) t2 t1 by simp_all
      have B2: "?B s = bindc m' (\<lambda>x. k' x y) w1" using ns Inr by (simp add: bindc_def)
      have bm: "answered (fst (m' w1))" using B unfolding B2 by (rule bindc_answered)
      have seen': "same_vars e (core s) (core w1)" using change_unseen [OF free' un(1)] w1(1) by simp
      obtain u2 c2 where u2: "change_vars e u2" "fst (m' s) = fst (m' w1)" "lands u2 s (fst (m' s)) (snd (m' s))"
        "lands u2 w1 (fst (m' w1)) (snd (m' w1))" "m_steps (snd (m' s)) = m_steps s + c2" "m_steps (snd (m' w1)) = m_steps w1 + c2"
        by (rule seen_later [OF m(2) seen' _ bm]) (use w1 in simp_all)
      have "answered (fst (m' s))" using u2(2) bm by simp
      from alikeD [OF m(3) am this] ms \<open>r1 = Inr x\<close> have mv: "m' s = (Inr x, t1)" by auto
      obtain w2 where w2: "m' w1 = (Inr x, w2)" using u2(2) mv by (cases "m' w1") simp
      have w2c: "core w2 = u2 (un (core s))" "m_steps w2 = m_steps s + cn + c2" using u2(4,6) w2 w1 by simp_all
      have "u2 (core s) = um (core s)" "c2 = cm" using u2(3,5) mv t1 by simp_all
      then have "core w2 = core t2" "m_steps w2 = m_steps t2"
        using w2c t2c changes_commute [OF free u2(1) un(1), of "core s"] by simp_all
      then have "w2 = t2" by (intro mstate_eqI)
      then have "?A s = k x y t2" "?B s = k' x y t2" using A2 B2 t2 w2 by (simp_all add: bindc_def)
      with A B alikeD [OF k [of x y], of t2] show ?thesis by (auto simp: prod_eq_iff)
    qed
  qed
qed

lemma alike_both:
  assumes "footprint e m" "footprint e m'" "alike m m'" "footprint f n" "footprint f n'" "alike n n'"
    and k: "\<And>x y. alike (k x y) (k' x y)" and free: "\<not> conflict e f"
  shows "alike (both sw m n k) (both sw' m' n' k')"
proof -
  have nf: "\<not> conflict f e" using free conflict_sym by blast
  have kk: "\<And>y x. alike (k x y) (k' x y)" by (rule k)
  show ?thesis
    unfolding both_def
    using alike_both_swapped [OF assms(1-6) k free] alike_both_swapped [OF assms(4-6,1-3) kk nf]
      alike_bindc [OF assms(3) alike_bindc [OF assms(6) k]] alike_bindc [OF assms(6) alike_bindc [OF assms(3) kk]]
    by (cases sw; cases sw') simp_all
qed

subsection \<open>Expressions\<close>

lemma conflict_union: "conflict a (union_effects bs) \<Longrightarrow> \<exists>b \<in> set bs. conflict a b"
proof -
  have none: "mem (union_effects bs) \<noteq> MNone \<Longrightarrow> \<exists>b \<in> set bs. mem b \<noteq> MNone"
    using union_effects_simps(5) [of bs MNone] by auto
  have wr: "mem (union_effects bs) = MWrite \<Longrightarrow> \<exists>b \<in> set bs. mem b = MWrite"
    using union_effects_simps(5) [of bs MRead] by auto
  assume c: "conflict a (union_effects bs)"
  show ?thesis
  proof (rule ccontr)
    assume nb: "\<not> ?thesis"
    have "\<not> intersects (writes a) (reads (union_effects bs))" "\<not> intersects (writes (union_effects bs)) (reads a)"
      "\<not> intersects (writes a) (writes (union_effects bs))"
      using nb by (auto simp: conflict_def intersects_def)
    moreover have "\<not> (mem a = MWrite \<and> mem (union_effects bs) \<noteq> MNone)" "\<not> (mem (union_effects bs) = MWrite \<and> mem a \<noteq> MNone)"
      using nb none wr by (auto simp: conflict_def)
    moreover have "\<not> (terminates (union_effects bs) \<and> touches a)"
      using nb by (auto simp: conflict_def)
    moreover have "touches (union_effects bs) \<Longrightarrow> \<exists>b \<in> set bs. touches b"
      using none by (auto simp: touches_def)
    then have "\<not> (terminates a \<and> touches (union_effects bs))"
      using nb by (auto simp: conflict_def)
    ultimately show False using c unfolding conflict_def by blast
  qed
qed

lemma alike_args:
  assumes fp: "\<And>e. e \<in> set es \<Longrightarrow> footprint (all_effects sums e) (eval_ord ord cfg rp e)"
      "\<And>e. e \<in> set es \<Longrightarrow> footprint (all_effects sums e) (eval_ord ord' cfg rp' e)"
    and al: "\<And>e. e \<in> set es \<Longrightarrow> alike (eval_ord ord cfg rp e) (eval_ord ord' cfg rp' e)"
    and clear: "pairwise_clear (map (all_effects sums) es)"
  shows "alike (args_ord ord cfg rp es) (args_ord ord' cfg rp' es)"
  using assms
proof (induction es)
  case (Cons e es)
  have rest: "footprint (union_effects (map (all_effects sums) es)) (eval_ord ord cfg rp x)"
      "footprint (union_effects (map (all_effects sums) es)) (eval_ord ord' cfg rp' x)" if "x \<in> set es" for x
    using that Cons.prems(1,2) by (auto intro!: footprint_mono [OF within_union, of "all_effects sums x"])
  have free: "\<not> conflict (all_effects sums e) (union_effects (map (all_effects sums) es))"
    using Cons.prems(4) by (auto simp: list_all_iff dest!: conflict_union)
  show ?case
    unfolding args_ord.simps
  proof (rule alike_both [OF _ _ _ _ _ _ _ free])
    show "footprint (union_effects (map (all_effects sums) es)) (args_ord ord cfg rp es)"
      "footprint (union_effects (map (all_effects sums) es)) (args_ord ord' cfg rp' es)"
      by (intro footprint_args_ord(1) rest; assumption)+
    show "alike (args_ord ord cfg rp es) (args_ord ord' cfg rp' es)"
      by (rule Cons.IH) (use Cons.prems in simp_all)
  qed (use Cons.prems in simp_all)
qed simp

context effect_host
begin

lemma alike_eval:
  assumes ex: "cfg_exec cfg = exec" and rp: "summarised sums rp" "summarised sums rp'"
    and call: "\<And>i vs. alike (rp i vs) (rp' i vs)"
  shows "analyze_expr sums e = Inr ef \<Longrightarrow> alike (eval_ord ord cfg rp e) (eval_ord ord' cfg rp' e)"
proof (induction e arbitrary: ef)
  case (BinaryExpression op l r)
  then obtain a b where ab: "analyze_expr sums l = Inr a" "analyze_expr sums r = Inr b" "\<not> conflict a b"
    by (auto simp: bindr_eq_Inr split: if_splits)
  have free: "\<not> conflict (all_effects sums l) (all_effects sums r)"
    using ab analyze_effects by blast
  show ?case
    unfolding eval_ord.simps
    by (intro alike_bindc alike_refl alike_both [OF _ _ _ _ _ _ _ free] footprint_eval [OF ex] rp
      BinaryExpression.IH(1) [OF ab(1)] BinaryExpression.IH(2) [OF ab(2)])
next
  case (UpdateExpression op pre e)
  show ?case by (cases e) (simp_all del: bindc_retc throwc_apply)
next
  case (CallExpression f args)
  then obtain parts where parts: "map_r (analyze_expr sums) args = Inr parts" "pairwise_clear parts"
    by (auto simp: bindr_eq_Inr split: if_splits)
  have parts_all: "list_all2 (\<lambda>x y. analyze_expr sums x = Inr y) args parts" using parts(1) by (simp add: map_r_Inr)
  then have "parts = map (all_effects sums) args"
    by (induction rule: list_all2_induct) (auto dest: analyze_effects)
  with parts(2) have clear: "pairwise_clear (map (all_effects sums) args)" by simp
  have each: "alike (eval_ord ord cfg rp x) (eval_ord ord' cfg rp' x)" if "x \<in> set args" for x
  proof -
    obtain i where "i < length args" "x = args ! i" using \<open>x \<in> set args\<close> by (auto simp: in_set_conv_nth)
    with list_all2_nthD [OF parts_all, of i] have "analyze_expr sums x = Inr (parts ! i)" by simp
    with that show ?thesis by (rule CallExpression.IH)
  qed
  have args: "alike (args_ord ord cfg rp args) (args_ord ord' cfg rp' args)"
    by (rule alike_args [OF _ _ each clear]) (rule footprint_eval [OF ex] rp | assumption)+
  have one: "alike (first_ord ord cfg rp args) (first_ord ord' cfg rp' args)"
    using each by (cases args) (simp_all only: first_ord.simps list.set alike_refl, intro alike_bindc alike_refl, simp)
  show ?case
    unfolding eval_ord.simps by (intro alike_intros args one call)
next
  case (ConditionalExpression c a b)
  then obtain x y z where "analyze_expr sums c = Inr x" "analyze_expr sums a = Inr y" "analyze_expr sums b = Inr z"
    by (auto simp: bindr_eq_Inr)
  then show ?case
    unfolding eval_ord.simps by (intro alike_bindc alike_refl alike_if ConditionalExpression.IH)
next
  case (LogicalExpression op l r)
  then obtain x y where "analyze_expr sums l = Inr x" "analyze_expr sums r = Inr y"
    by (auto simp: bindr_eq_Inr)
  then show ?case
    unfolding eval_ord.simps by (intro alike_bindc alike_refl alike_if LogicalExpression.IH)
next
  case (AssignmentExpression op n e)
  then obtain x where "analyze_expr sums e = Inr x" by (auto simp: bindr_eq_Inr)
  then show ?case
    unfolding eval_ord.simps by (intro alike_bindc alike_refl AssignmentExpression.IH)
qed (simp_all only: analyze_expr.simps eval_ord.simps, (intro alike_bindc alike_refl; blast)+)

end

subsection \<open>Statements\<close>

lemma exprs_in_unfold:
  "exprs_in s = set (child_expressions s) \<union> (\<Union>b \<in> set (child_bodies s). \<Union>x \<in> set b. exprs_in x)"
  by (auto simp: exprs_in_def set_each_of [of s] set_each_statement)

lemma alike_decls:
  "(\<And>e. e \<in> set (decl_inits ds) \<Longrightarrow> alike (ev e) (ev' e)) \<Longrightarrow> alike (exec_decls ev ds) (exec_decls ev' ds)"
proof (induction ds)
  case (Cons d ds)
  obtain t n i where d: "d = Declarator t n i" by (cases d)
  have "alike (exec_decls ev ds) (exec_decls ev' ds)" by (rule Cons.IH) (use Cons.prems in \<open>simp add: decl_inits_def\<close>)
  then show ?case
    by (simp only: d exec_decls.simps, intro alike_intros) (use Cons.prems d in \<open>auto simp: decl_inits_def opt_list_def\<close>)
qed simp

lemma alike_find_case:
  "(\<And>e. e \<in> set (concat (map (\<lambda>c. opt_list (case_test c)) cs)) \<Longrightarrow> alike (ev e) (ev' e)) \<Longrightarrow>
    alike (find_case ev d cs) (find_case ev' d cs)"
proof (induction cs)
  case (Cons c cs)
  obtain t b where c: "c = SwitchCase t b" by (cases c)
  have "alike (find_case ev d cs) (find_case ev' d cs)" by (rule Cons.IH) (use Cons.prems in simp)
  then show ?case
    by (simp only: c find_case.simps, intro alike_intros) (use Cons.prems c in \<open>auto simp: opt_list_def\<close>)
qed simp

lemma alike_flow [alike_intros]:
  "alike m m' \<Longrightarrow> alike (case fl of Normal \<Rightarrow> m | Return v \<Rightarrow> r v | Break \<Rightarrow> b) (case fl of Normal \<Rightarrow> m' | Return v \<Rightarrow> r v | Break \<Rightarrow> b)"
  by (cases fl) simp_all

lemma alike_init:
  "(\<And>e. e \<in> set (init_exprs i) \<Longrightarrow> alike (ev e) (ev' e)) \<Longrightarrow>
    alike (case i of None \<Rightarrow> retc () | Some (InitDecl ds) \<Rightarrow> bindc (tick cfg) (\<lambda>_. exec_decls ev ds)
             | Some (InitExpr e) \<Rightarrow> bindc (ev e) (\<lambda>_. retc ()))
          (case i of None \<Rightarrow> retc () | Some (InitDecl ds) \<Rightarrow> bindc (tick cfg) (\<lambda>_. exec_decls ev' ds)
             | Some (InitExpr e) \<Rightarrow> bindc (ev' e) (\<lambda>_. retc ()))"
  by (cases i rule: init_exprs.cases) (auto simp del: retc_apply intro!: alike_bindc alike_decls)

lemma alike_exec:
  "(\<And>e. e \<in> exprs_in s \<Longrightarrow> alike (ev e) (ev' e)) \<Longrightarrow> alike (exec_stmt cfg ev s) (exec_stmt cfg ev' s)"
  "(\<And>s e. s \<in> set ss \<Longrightarrow> e \<in> exprs_in s \<Longrightarrow> alike (ev e) (ev' e)) \<Longrightarrow> alike (exec_list cfg ev ss) (exec_list cfg ev' ss)"
  "(\<And>c s e. c \<in> set cs \<Longrightarrow> s \<in> set (case_body c) \<Longrightarrow> e \<in> exprs_in s \<Longrightarrow> alike (ev e) (ev' e)) \<Longrightarrow>
     alike (exec_clauses cfg ev k cs) (exec_clauses cfg ev' k cs)"
proof (induction cfg ev s and cfg ev ss and cfg ev k cs rule: exec_stmt_exec_list_exec_clauses.induct)
  case (1 cfg ev b)
  then show ?case by (simp only: exec_stmt.simps, intro alike_intros) (auto simp: exprs_in_unfold [of "BlockStatement b"] opt_list_def)
next
  case (2 cfg ev)
  show ?case by simp
next
  case (3 cfg ev e)
  then show ?case by (simp only: exec_stmt.simps, intro alike_intros) (auto simp: exprs_in_unfold [of "ExpressionStatement e"] opt_list_def)
next
  case (4 cfg ev a)
  then show ?case by (simp only: exec_stmt.simps, intro alike_intros) (auto simp: exprs_in_unfold [of "ReturnStatement _"] opt_list_def)
next
  case (5 cfg ev ds)
  then show ?case by (simp only: exec_stmt.simps, intro alike_intros alike_decls) (auto simp: exprs_in_unfold [of "VariableDeclaration ds"] opt_list_def)
next
  case (6 cfg ev t c a)
  have t: "alike (ev t) (ev' t)" by (rule 6(3), rule exprs_in_here) simp
  have yes: "alike (exec_list cfg ev (as_list c)) (exec_list cfg ev' (as_list c))" if "val_value v \<noteq> 0" for v :: val
    by (rule 6(1) [OF that], rule 6(3), erule exprs_in_child [rotated]) (cases a; simp)+
  have no: "alike (exec_list cfg ev (as_list b)) (exec_list cfg ev' (as_list b))" if "\<not> val_value v \<noteq> 0" "a = Some b" for v :: val and b
    by (rule 6(2) [OF that], rule 6(3), erule exprs_in_child [rotated]) (use that in simp_all)
  show ?case by (simp only: exec_stmt.simps) (intro alike_intros t yes no; assumption)
next
  case (7 cfg ev t b)
  then show ?case by (simp only: exec_stmt.simps, intro alike_intros) (auto simp: exprs_in_unfold [of "WhileStatement t b"] opt_list_def)
next
  case (8 cfg ev b t)
  then show ?case by (simp only: exec_stmt.simps, intro alike_intros) (auto simp: exprs_in_unfold [of "DoWhileStatement b t"] opt_list_def)
next
  case (9 cfg ev i t u b)
  note here = 9(2) [OF exprs_in_here]
  have init: "e \<in> set (init_exprs i) \<Longrightarrow> alike (ev e) (ev' e)" for e by (rule here) simp
  have test: "t = Some e \<Longrightarrow> alike (ev e) (ev' e)" for e by (rule here) (simp add: opt_list_def)
  have upd: "u = Some e \<Longrightarrow> alike (ev e) (ev' e)" for e by (rule here) (simp add: opt_list_def)
  have body: "alike (exec_list cfg ev (as_list b)) (exec_list cfg ev' (as_list b))"
    by (rule 9(1) [of True], simp, rule 9(2), erule exprs_in_child [rotated]) simp_all
  show ?case
    unfolding exec_stmt.simps
    by (rule alike_bindc [OF alike_refl], rule alike_in_child, rule alike_bindc [OF alike_init [OF init]], assumption,
      intro alike_intros test upd body; assumption)
next
  case (10 cfg ev d cs)
  note here = 10(2) [OF exprs_in_here]
  have d: "alike (ev d) (ev' d)" by (rule here) simp
  have find: "alike (find_case ev v cs) (find_case ev' v cs)" for v
    by (rule alike_find_case, rule here) simp
  have run: "alike (exec_clauses cfg ev i cs) (exec_clauses cfg ev' i cs)"
    if "(case hit of Some i \<Rightarrow> Some i | None \<Rightarrow> find_index (\<lambda>c. case_test c = None) cs) = Some i" for hit i
    by (rule 10(1) [OF that], rule 10(2), rule exprs_in_child) auto
  show ?case
    unfolding exec_stmt.simps
    by (rule alike_bindc [OF alike_refl], rule alike_bindc [OF d], rule alike_bindc [OF find], rule alike_option)
      (simp_all add: run del: retc_apply)
next
  case (11 cfg ev)
  show ?case by simp
next
  case (12 cfg ev s ss)
  then show ?case by (simp only: exec_list.simps, intro alike_intros) auto
next
  case (13 cfg ev n)
  show ?case by simp
next
  case (14 cfg ev n t b cs)
  show ?case
  proof (cases n)
    case 0
    have b: "alike (exec_list cfg ev b) (exec_list cfg ev' b)"
      by (rule 14(1) [OF 0], rule 14(4) [of "SwitchCase t b"]) simp_all
    have cs: "alike (exec_clauses cfg ev 0 cs) (exec_clauses cfg ev' 0 cs)"
      by (rule 14(2) [OF 0], rule 14(4)) auto
    show ?thesis unfolding 0 exec_clauses.simps nat.case by (intro alike_bindc alike_in_child b alike_flow cs)
  next
    case (Suc k)
    show ?thesis unfolding Suc exec_clauses.simps nat.case by (rule 14(3) [OF Suc], rule 14(4)) auto
  qed
qed

subsection \<open>Procedures\<close>

fun run_proc_ord :: "order \<Rightarrow> 'm config \<Rightarrow> nat \<Rightarrow> bool \<Rightarrow> nat \<Rightarrow> u32 list \<Rightarrow> ('m, u32) ev" where
  "run_proc_ord ord cfg 0 entry i vs = throwc OutOfFuel"
| "run_proc_ord ord cfg (Suc n) entry i vs =
     (if length (cfg_procs cfg) \<le> i then throwc (JsError ''no procedure'')
      else
        bindc (getc m_scope) (\<lambda>caller.
        bindc (modifyc (\<lambda>s. s\<lparr>m_scope := bind_params (proc_args (cfg_procs cfg ! i)) vs\<rparr>)) (\<lambda>_.
        bindc (exec_list cfg (eval_ord ord cfg (run_proc_ord ord cfg n False)) (proc_body (cfg_procs cfg ! i))) (\<lambda>fl.
        bindc (modifyc (\<lambda>s. s\<lparr>m_scope := caller\<rparr>)) (\<lambda>_.
        case fl of
          Return v \<Rightarrow> retc v
        | _ \<Rightarrow> if entry then throwc (Unspecified OffTheEnd) else retc 0)))))"

definition evaluate_ord :: "order \<Rightarrow> 'm config \<Rightarrow> u32 list \<Rightarrow> 'm \<Rightarrow> (fault + outcome) \<times> nat \<times> 'm" where
  "evaluate_ord ord cfg args m0 =
     (case run_proc_ord ord cfg (Suc (cfg_max cfg)) True 0 args \<lparr>m_steps = 0, m_scope = [], m_mem = m0\<rparr> of
        (r, s) \<Rightarrow> (classify r, m_steps s, m_mem s))"

lemma run_proc_left_first: "run_proc_ord left_first cfg n entry i vs = run_proc cfg n entry i vs"
proof (induction n arbitrary: entry i vs)
  case (Suc n)
  have "run_proc_ord left_first cfg n False = run_proc cfg n False" by (rule ext, rule ext) (rule Suc)
  then have "eval_ord left_first cfg (run_proc_ord left_first cfg n False) = eval cfg (run_proc cfg n False)"
    by (intro ext) (simp add: eval_left_first)
  then show ?case by (simp only: run_proc_ord.simps run_proc.simps)
qed simp

lemma evaluate_left_first: "evaluate_ord left_first cfg args m0 = evaluate cfg args m0"
  by (simp only: evaluate_ord_def evaluate_def run_proc_left_first)

text \<open>A call: a body in a scope of its own, of which only the memory is left.\<close>

definition in_scope :: "scope \<Rightarrow> ('m, 'a) ev \<Rightarrow> ('a \<Rightarrow> fault + 'b) \<Rightarrow> ('m, 'b) ev" where
  "in_scope sc m h = bindc (getc m_scope) (\<lambda>caller. bindc (modifyc (\<lambda>s. s\<lparr>m_scope := sc\<rparr>)) (\<lambda>_.
     bindc m (\<lambda>v. bindc (modifyc (\<lambda>s. s\<lparr>m_scope := caller\<rparr>)) (\<lambda>_. lift_sum (h v)))))"

lemma in_scope_apply:
  "in_scope sc m h s =
     (case m (s\<lparr>m_scope := sc\<rparr>) of (Inl e, t) \<Rightarrow> (Inl e, t) | (Inr v, t) \<Rightarrow> (h v, t\<lparr>m_scope := m_scope s\<rparr>))"
  by (simp add: in_scope_def bindc_def getc_def modifyc_def lift_sum_def retc_def throwc_def split: prod.splits sum.splits)

lemma footprint_in_scope:
  assumes body: "bodyprint mu tm m" and mu: "mu \<le> mem ef" and tm: "tm \<Longrightarrow> terminates ef"
    and h: "\<And>v c. h v \<noteq> Inl (Trapped c)"
  shows "footprint ef (in_scope sc m h)"
  unfolding footprint_def vars.det_def
proof
  fix a :: "'a core"
  obtain r u c where b: "change_body mu u" "trapped r \<longrightarrow> tm" "body.acts mu (sc, snd a) m r u c"
    using body unfolding bodyprint_def body.det_def by blast
  obtain g x where u: "mu \<noteq> MWrite \<longrightarrow> x = None" "u = (\<lambda>(sc, m). (g sc, put_mem x m))"
    using b(1) unfolding change_body_def by blast
  define r' where "r' = (case r of Inl e \<Rightarrow> Inl e | Inr v \<Rightarrow> h v)"
  define u' where "u' = (\<lambda>(sc :: scope, m). (apply_updates Map.empty sc, put_mem x m))"
  have u': "change_vars ef u'"
    unfolding u'_def by (rule change_varsI [of Map.empty _ x]) (use u(1) mu in auto)
  have same: "same_body mu (sc, snd a) (core (s\<lparr>m_scope := sc\<rparr>))" if "same_vars ef a (core s)" for s :: "'a mstate"
    using that mu by (auto simp: same_body_def same_vars_def)
  have run: "fst (in_scope sc m h s) = r' \<and> lands u' s r' (snd (in_scope sc m h s))
      \<and> m_steps (snd (in_scope sc m h s)) = m_steps s + c"
    if s: "same_vars ef a (core s)" "\<not> limited (fst (m (s\<lparr>m_scope := sc\<rparr>)))" for s
  proof -
    note st = body.actsD [OF b(3) same [OF s(1)] s(2)]
    show ?thesis
    proof (cases r)
      case (Inl e)
      with st show ?thesis
        by (cases "m (s\<lparr>m_scope := sc\<rparr>)") (simp add: in_scope_apply r'_def u'_def u(2) core_def)
    next
      case (Inr v)
      obtain t where t: "m (s\<lparr>m_scope := sc\<rparr>) = (Inr v, t)"
        using st(1) Inr by (cases "m (s\<lparr>m_scope := sc\<rparr>)") simp
      with st Inr have "core t = u (sc, m_mem s)" "m_steps t = m_steps s + c" by simp_all
      then have "m_mem t = put_mem x (m_mem s)" by (simp add: core_def u(2))
      with t Inr \<open>m_steps t = m_steps s + c\<close> show ?thesis
        by (simp add: in_scope_apply r'_def u'_def lands_core core_def)
    qed
  qed
  have inner: "\<not> limited (fst (m (s\<lparr>m_scope := sc\<rparr>)))" if "\<not> limited (fst (in_scope sc m h s))" for s
    using that by (cases "m (s\<lparr>m_scope := sc\<rparr>)"; cases "fst (m (s\<lparr>m_scope := sc\<rparr>))") (auto simp: in_scope_apply)
  have "vars.acts ef a (in_scope sc m h) r' u' c"
    unfolding vars.acts_def
  proof (intro conjI allI impI)
    fix s assume s: "same_vars ef a (core s)" "\<not> limited (fst (in_scope sc m h s))"
    from run [OF s(1) inner [OF s(2)]]
    show "fst (in_scope sc m h s) = r'" "lands u' s r' (snd (in_scope sc m h s))"
      "m_steps (snd (in_scope sc m h s)) = m_steps s + c" by simp_all
  next
    fix s s' assume s: "same_vars ef a (core s)" "same_vars ef a (core s')" "m_steps s' \<le> m_steps s"
      "\<not> limited (fst (in_scope sc m h s))"
    have "\<not> limited (fst (m (s'\<lparr>m_scope := sc\<rparr>)))"
      by (rule body.acts_down [OF b(3) same [OF s(1)] same [OF s(2)] _ inner [OF s(4)]]) (use s(3) in simp)
    from run [OF s(2) this] run [OF s(1) inner [OF s(4)]] s(4)
    show "\<not> limited (fst (in_scope sc m h s'))" by simp
  qed
  moreover have "trapped r' \<longrightarrow> terminates ef"
    using b(2) tm h by (auto simp: r'_def trapped_def split: sum.splits)
  ultimately show "\<exists>r u c. change_vars ef u \<and> (trapped r \<longrightarrow> terminates ef) \<and> vars.acts ef a (in_scope sc m h) r u c"
    using u' by blast
qed

lemma alike_in_scope: "alike m m' \<Longrightarrow> alike (in_scope sc m h) (in_scope sc m' h)"
  unfolding in_scope_def by (intro alike_bindc alike_refl)

definition returned :: "bool \<Rightarrow> flow \<Rightarrow> fault + u32" where
  "returned entry fl = (case fl of Return v \<Rightarrow> Inr v | _ \<Rightarrow> if entry then Inl (Unspecified OffTheEnd) else Inr 0)"

lemma run_proc_in_scope:
  "run_proc_ord ord (cfg :: 'm config) (Suc n) entry i vs =
     (if length (cfg_procs cfg) \<le> i then throwc (JsError ''no procedure'')
      else in_scope (bind_params (proc_args (cfg_procs cfg ! i)) vs)
        (exec_list cfg (eval_ord ord cfg (run_proc_ord ord cfg n False)) (proc_body (cfg_procs cfg ! i))) (returned entry))"
proof -
  have "(case fl of Return v \<Rightarrow> retc v | _ \<Rightarrow> if entry then throwc (Unspecified OffTheEnd) else retc 0) = (lift_sum (returned entry fl) :: ('m, u32) ev)" for fl
    by (cases fl) (simp_all add: returned_def lift_sum_def)
  then show ?thesis by (simp only: run_proc_ord.simps in_scope_def)
qed

subsection \<open>Summaries\<close>

lemma call_effects_cong:
  "(\<And>j. proc_index f = Some j \<Longrightarrow> sums j = sums' j) \<Longrightarrow> call_effects sums f out = call_effects sums' f out"
  by (simp add: call_effects_def split: option.split)

lemma analyze_cong:
  "(\<And>f args j. sub_expr (CallExpression f args) e \<Longrightarrow> proc_index f = Some j \<Longrightarrow> sums j = sums' j) \<Longrightarrow>
    analyze_expr sums e = analyze_expr sums' e"
proof (induction e)
  case (CallExpression f args)
  have "map_r (analyze_expr sums) args = map_r (analyze_expr sums') args"
  proof (rule map_r_cong [OF refl])
    fix x assume "x \<in> set args"
    then show "analyze_expr sums x = analyze_expr sums' x"
      by (intro CallExpression.IH CallExpression.prems) (auto intro: sub_step)
  qed
  moreover have "call_effects sums f = call_effects sums' f"
    by (rule ext, rule call_effects_cong, rule CallExpression.prems [OF sub_refl])
  ultimately show ?case by (simp only: analyze_expr.simps)
next
  case (CastExpression t e)
  have "analyze_expr sums e = analyze_expr sums' e" by (rule CastExpression.IH, rule CastExpression.prems) auto
  then show ?case by (simp only: analyze_expr.simps)
next
  case (UnaryExpression op e)
  have "analyze_expr sums e = analyze_expr sums' e" by (rule UnaryExpression.IH, rule UnaryExpression.prems) auto
  then show ?case by (simp only: analyze_expr.simps)
next
  case (UpdateExpression op pre e)
  have "analyze_expr sums e = analyze_expr sums' e" by (rule UpdateExpression.IH, rule UpdateExpression.prems) auto
  then show ?case by (simp only: analyze_expr.simps)
next
  case (AssignmentExpression op n e)
  have "analyze_expr sums e = analyze_expr sums' e" by (rule AssignmentExpression.IH, rule AssignmentExpression.prems) auto
  then show ?case by (simp only: analyze_expr.simps)
next
  case (BinaryExpression op l r)
  have "analyze_expr sums l = analyze_expr sums' l" by (rule BinaryExpression.IH(1), rule BinaryExpression.prems) auto
  moreover have "analyze_expr sums r = analyze_expr sums' r" by (rule BinaryExpression.IH(2), rule BinaryExpression.prems) auto
  ultimately show ?case by (simp only: analyze_expr.simps)
next
  case (LogicalExpression op l r)
  have "analyze_expr sums l = analyze_expr sums' l" by (rule LogicalExpression.IH(1), rule LogicalExpression.prems) auto
  moreover have "analyze_expr sums r = analyze_expr sums' r" by (rule LogicalExpression.IH(2), rule LogicalExpression.prems) auto
  ultimately show ?case by (simp only: analyze_expr.simps)
next
  case (ConditionalExpression c a b)
  have "analyze_expr sums c = analyze_expr sums' c" by (rule ConditionalExpression.IH(1), rule ConditionalExpression.prems) auto
  moreover have "analyze_expr sums a = analyze_expr sums' a" by (rule ConditionalExpression.IH(2), rule ConditionalExpression.prems) auto
  moreover have "analyze_expr sums b = analyze_expr sums' b" by (rule ConditionalExpression.IH(3), rule ConditionalExpression.prems) auto
  ultimately show ?case by (simp only: analyze_expr.simps)
qed simp_all

lemma analyze_body_cong:
  assumes "\<And>j. calls body j \<Longrightarrow> sums j = sums' j"
  shows "analyze_body sums body = analyze_body sums' body"
proof -
  have "map_r (analyze_expr sums) (concat (map child_expressions (each_statement body)))
      = map_r (analyze_expr sums') (concat (map child_expressions (each_statement body)))"
  proof (rule map_r_cong [OF refl], rule analyze_cong)
    fix e f args j
    assume "e \<in> set (concat (map child_expressions (each_statement body)))" "sub_expr (CallExpression f args) e" "proc_index f = Some j"
    then have "calls body j" by (auto simp: calls_def)
    then show "sums j = sums' j" by (rule assms)
  qed
  then show ?thesis by (simp only: analyze_body_def)
qed

lemma analyze_body_parts:
  assumes "analyze_body sums body = Inr own" and "e \<in> set (concat (map child_expressions (each_statement body)))"
  obtains y where "analyze_expr sums e = Inr y" "within y own"
proof -
  obtain parts where parts: "list_all2 (\<lambda>x y. analyze_expr sums x = Inr y) (concat (map child_expressions (each_statement body))) parts"
    "own = union_effects parts"
    using assms(1) by (auto simp only: analyze_body_def bindr_eq_Inr map_r_Inr sum.inject)
  obtain i where i: "i < length (concat (map child_expressions (each_statement body)))" "e = concat (map child_expressions (each_statement body)) ! i"
    using assms(2) by (auto simp only: in_set_conv_nth)
  from list_all2_nthD [OF parts(1) i(1)] i(2) have "analyze_expr sums e = Inr (parts ! i)" by simp
  moreover have "within (parts ! i) own"
    using i(1) list_all2_lengthD [OF parts(1)] by (simp only: parts(2)) (rule within_union, simp)
  ultimately show thesis by (rule that)
qed

lemma exprs_in_listed:
  "s \<in> set body \<Longrightarrow> e \<in> exprs_in s \<Longrightarrow> e \<in> set (concat (map child_expressions (each_statement body)))"
  by (auto simp: exprs_in_def set_each_statement)

text \<open>A procedure is summarised with those above it, whose summaries are final.\<close>

lemma summarize_down_final:
  "summarize_down kids gen k sums0 = Inr sums \<Longrightarrow>
    (\<forall>j \<ge> k. sums j = sums0 j)
    \<and> (\<forall>i < k. \<exists>above s. (\<forall>j > i. above j = sums j) \<and> summarize_proc kids above (proc_body (gen ! i)) = Inr s \<and> sums i = Some s)"
proof (induction k arbitrary: sums0)
  case (Suc k)
  then obtain s where s: "summarize_proc kids sums0 (proc_body (gen ! k)) = Inr s"
    "summarize_down kids gen k (sums0(k \<mapsto> s)) = Inr sums" by (auto simp: bindr_eq_Inr)
  note rest = Suc.IH [OF s(2)]
  have "\<forall>j > k. sums0 j = sums j" "sums k = Some s" using rest by auto
  with s(1) rest show ?case by (auto simp: less_Suc_eq)
qed simp

lemma add_callees_grows:
  "sum_mem s \<le> sum_mem (foldl (add_callee sums) s cs) \<and> (sum_terminates s \<longrightarrow> sum_terminates (foldl (add_callee sums) s cs))"
proof (induction cs arbitrary: s)
  case (Cons c cs)
  have "sum_mem s \<le> sum_mem (add_callee sums s c)" "sum_terminates s \<longrightarrow> sum_terminates (add_callee sums s c)"
    by (auto simp: add_callee_def stronger_max split: option.split)
  with Cons [of "add_callee sums s c"] show ?case by auto
qed simp

lemma final_summary:
  assumes kids: "walker kids" and graph: "check_graph kids gen = Inr ()" and sums: "summarize kids gen = Inr sums"
    and i: "i < length gen" and own: "analyze_body sums (proc_body (gen ! i)) = Inr own"
  shows "\<exists>s. sums i = Some s \<and> mem own \<le> sum_mem s \<and> (terminates own \<longrightarrow> sum_terminates s)"
proof -
  obtain above s where s: "\<forall>j > i. above j = sums j"
      "summarize_proc kids above (proc_body (gen ! i)) = Inr s" "sums i = Some s"
    using conjunct2 [OF summarize_down_final [OF sums [unfolded summarize_def]]] i by blast
  have "above j = sums j" if "calls (proc_body (gen ! i)) j" for j
  proof -
    have "(i, j) \<in> call_graph gen" using that i by (simp add: call_graph_def)
    with graph have "i < j" unfolding check_graph_iff [OF kids] by blast
    with s(1) show ?thesis by blast
  qed
  then have "analyze_body above (proc_body (gen ! i)) = Inr own"
    using own analyze_body_cong [of "proc_body (gen ! i)" above sums] by simp
  with s(2) have "s = foldl (add_callee above) \<lparr>sum_mem = mem own, sum_terminates = terminates own\<rparr> (callees_of kids (proc_body (gen ! i)))"
    by (simp add: summarize_proc_def)
  with s(3) add_callees_grows [of "\<lparr>sum_mem = mem own, sum_terminates = terminates own\<rparr>" above] show ?thesis by auto
qed

text \<open>What \<^verbatim>\<open>analyze\<close> has found out about a program it lets through.\<close>

definition cleared :: "summaries \<Rightarrow> gen_program \<Rightarrow> bool" where
  "cleared sums gen \<longleftrightarrow>
     (\<forall>i < length gen. \<exists>s own. sums i = Some s \<and> analyze_body sums (proc_body (gen ! i)) = Inr own
        \<and> mem own \<le> sum_mem s \<and> (terminates own \<longrightarrow> sum_terminates s))"

context effect_host
begin

lemma bodyprint_proc:
  assumes ex: "cfg_exec cfg = exec" and rp: "summarised sums rp" and own: "analyze_body sums body = Inr own"
    and mu: "mem own \<le> mu" and tm: "terminates own \<Longrightarrow> tm"
  shows "bodyprint mu tm (exec_list cfg (eval_ord ord cfg rp) body)"
proof (rule bodyprint_list)
  fix s assume s: "s \<in> set body"
  have "bodyprint mu tm (eval_ord ord cfg rp e)" if e: "e \<in> exprs_in s" for e
  proof -
    obtain y where y: "analyze_expr sums e = Inr y" "within y own"
      by (rule analyze_body_parts [OF own exprs_in_listed [OF s e]])
    then have "within (all_effects sums e) own" using analyze_effects by blast
    with mu tm show ?thesis
      by (intro footprint_body [OF footprint_eval [OF ex rp]]) (auto simp: within_def)
  qed
  with bodyprint_stmt(1) [of mu tm cfg "eval_ord ord cfg rp" s] show "bodyprint mu tm (exec_stmt cfg (eval_ord ord cfg rp) s)"
    by (auto simp: stmt_print_def)
qed

lemma summarised_run:
  assumes ex: "cfg_exec cfg = exec" and ok: "cleared sums (cfg_procs cfg)"
  shows "summarised sums (run_proc_ord ord cfg n entry)"
proof (induction n arbitrary: entry)
  case 0
  show ?case unfolding summarised_def run_proc_ord.simps footprint_def by (intro allI impI vars.det_throwc) simp
next
  case (Suc n)
  show ?case
    unfolding summarised_def
  proof (intro allI impI)
    fix i vs ef assume within: "call_within sums i ef"
    show "footprint ef (run_proc_ord ord cfg (Suc n) entry i vs)"
    proof (cases "length (cfg_procs cfg) \<le> i")
      case True
      then show ?thesis by (simp only: run_proc_in_scope if_True fp_intros)
    next
      case False
      then obtain s own where s: "sums i = Some s" "analyze_body sums (proc_body (cfg_procs cfg ! i)) = Inr own"
        "mem own \<le> sum_mem s" "terminates own \<longrightarrow> sum_terminates s"
        using ok unfolding cleared_def by (meson not_le)
      have ef: "sum_mem s \<le> mem ef" "sum_terminates s \<Longrightarrow> terminates ef"
        using within s(1) by (simp_all add: call_within_def)
      have "bodyprint (sum_mem s) (sum_terminates s)
          (exec_list cfg (eval_ord ord cfg (run_proc_ord ord cfg n False)) (proc_body (cfg_procs cfg ! i)))"
        by (rule bodyprint_proc [OF ex Suc.IH s(2,3)]) (use s(4) in simp)
      moreover have "returned entry v \<noteq> Inl (Trapped c)" for v c by (cases v) (auto simp: returned_def)
      ultimately show ?thesis
        using False by (simp only: run_proc_in_scope if_False) (rule footprint_in_scope [OF _ ef])
    qed
  qed
qed

lemma alike_run:
  assumes ex: "cfg_exec cfg = exec" and ok: "cleared sums (cfg_procs cfg)"
  shows "alike (run_proc_ord ord cfg n entry i vs) (run_proc_ord ord' cfg n entry i vs)"
proof (induction n arbitrary: entry i vs)
  case (Suc n)
  show ?case
  proof (cases "length (cfg_procs cfg) \<le> i")
    case False
    then obtain own where own: "analyze_body sums (proc_body (cfg_procs cfg ! i)) = Inr own"
      using ok unfolding cleared_def by (meson not_le)
    have "alike (eval_ord ord cfg (run_proc_ord ord cfg n False) e) (eval_ord ord' cfg (run_proc_ord ord' cfg n False) e)"
      if here: "s \<in> set (proc_body (cfg_procs cfg ! i))" "e \<in> exprs_in s" for s e
    proof -
      obtain y where "analyze_expr sums e = Inr y"
        by (rule analyze_body_parts [OF own exprs_in_listed [OF here]])
      then show ?thesis
        by (rule alike_eval [OF ex summarised_run [OF ex ok] summarised_run [OF ex ok] Suc.IH])
    qed
    then show ?thesis
      using False by (simp only: run_proc_in_scope if_False) (rule alike_in_scope, rule alike_exec(2), blast)
  qed (simp only: run_proc_in_scope if_True alike_refl)
qed simp

end

text \<open>The analysis does not depend on how the traversal is written.\<close>

lemma callees_of_walker: "walker kids \<Longrightarrow> callees_of kids body = callees_of operands body"
  by (rule sorted_distinct_set_unique)
    (auto simp: sorted_callees distinct_callees callees_of_calls callees_of_calls [OF operand_walk.walker_axioms])

lemma analyze_walker:
  assumes "walker kids"
  shows "analyze kids gen = analyze operands gen"
proof -
  have "summarize_proc kids sums body = summarize_proc operands sums body" for sums body
    by (simp only: summarize_proc_def callees_of_walker [OF assms])
  then have "summarize_down kids gen k sums = summarize_down operands gen k sums" for k sums
    by (induction k arbitrary: sums) simp_all
  then show ?thesis by (simp only: analyze_def summarize_def)
qed

subsection \<open>Every order\<close>

lemma analyze_cleared:
  assumes "walker kids" and "check_graph kids gen = Inr ()" and "analyze kids gen = Inr None"
  obtains sums where "cleared sums gen"
proof -
  obtain sums owns where sums: "summarize kids gen = Inr sums" "map_r (\<lambda>p. analyze_body sums (proc_body p)) gen = Inr owns"
    using assms(3) by (auto simp: analyze_def bindr_eq_Inr split: sum.splits ub_error.splits)
  have "\<exists>s own. sums i = Some s \<and> analyze_body sums (proc_body (gen ! i)) = Inr own
      \<and> mem own \<le> sum_mem s \<and> (terminates own \<longrightarrow> sum_terminates s)" if i: "i < length gen" for i
  proof -
    have own: "analyze_body sums (proc_body (gen ! i)) = Inr (owns ! i)"
      using sums(2) i unfolding map_r_Inr by (rule list_all2_nthD)
    with final_summary [OF assms(1,2) sums(1) i own] show ?thesis by blast
  qed
  then have "cleared sums gen" by (simp add: cleared_def)
  then show thesis by (rule that)
qed

text \<open>An outcome the driver compares.\<close>

definition settled :: "outcome \<Rightarrow> bool" where
  "settled a \<longleftrightarrow> (case a of OReturn v \<Rightarrow> True | OTrap c \<Rightarrow> True | _ \<Rightarrow> False)"

lemma settled_answered: "classify r = Inr a \<Longrightarrow> settled a \<Longrightarrow> answered r"
  by (auto simp: classify_def settled_def split: sum.splits fault.splits)

lemma evaluate_ord_parts:
  "fst (evaluate_ord ord cfg args m0) = classify (fst (run_proc_ord ord cfg (Suc (cfg_max cfg)) True 0 args \<lparr>m_steps = 0, m_scope = [], m_mem = m0\<rparr>))"
  "snd (snd (evaluate_ord ord cfg args m0)) = m_mem (snd (run_proc_ord ord cfg (Suc (cfg_max cfg)) True 0 args \<lparr>m_steps = 0, m_scope = [], m_mem = m0\<rparr>))"
  by (simp_all only: evaluate_ord_def case_prod_beta fst_conv snd_conv)


text \<open>A program of two procedures whose operands may be swapped, and one refused because they may not.\<close>

definition free_operands :: gen_program where
  "free_operands =
     [\<lparr>proc_args = [''a''], proc_body = [ReturnStatement (Some (BinaryExpression Plus
         (AssignmentExpression Assign ''a'' (Literal 7)) (CallExpression ''p1'' [Literal 3])))]\<rparr>,
      \<lparr>proc_args = [''x''], proc_body =
        [ExpressionStatement (CallExpression ''st32'' [Literal 0, Identifier ''x'']),
         ReturnStatement (Some (UpdateExpression Incr False (Identifier ''x'')))]\<rparr>]"

definition racing_operands :: gen_program where
  "racing_operands =
     [\<lparr>proc_args = [''x'', ''y''], proc_body = [ReturnStatement (Some (BinaryExpression Plus
         (Identifier ''x'') (AssignmentExpression Assign ''x'' (Identifier ''y''))))]\<rparr>]"

definition right_first :: order where
  "right_first es = True"

definition small_box :: sandbox where
  "small_box = replicate 8 0"

definition order_config :: "gen_program \<Rightarrow> sandbox config" where
  "order_config gen = \<lparr>cfg_procs = gen, cfg_exec = rawmem_exec, cfg_max = 100\<rparr>"


lemma refused_disagrees:
  "analyze operands racing_operands = Inr (Some ''x + (x = y)'')
   \<and> fst (evaluate (order_config racing_operands) [1, 3] small_box) = Inr (OReturn 4)
   \<and> fst (evaluate_ord right_first (order_config racing_operands) [1, 3] small_box) = Inr (OReturn 6)"
  by (intro conjI; code_simp)

end
