(* ===== verification/Readings.thy ===== *)
theory Readings
  imports Ast
begin

section \<open>Texts and the trees they denote\<close>

text \<open>
  The seeds and the calibration cases are DSL text, read by mog-core's parser, which is a parameter \<open>ir\<close> wherever
  it is used. Each text is listed beside the tree it denotes; that \<open>ir\<close> reads the one as the other is the
  hypothesis \<open>reads_table\<close>. A parser that knows a table's texts and no others satisfies it.
\<close>

definition reads_table :: "(string \<times> stmt list) list \<Rightarrow> (string \<Rightarrow> stmt list) \<Rightarrow> bool" where
  "reads_table table ir \<longleftrightarrow> list_all (\<lambda>(text, body). ir text = body) table"

definition parser_of :: "(string \<times> stmt list) list \<Rightarrow> string \<Rightarrow> stmt list" where
  "parser_of table text = (case map_of table text of None \<Rightarrow> [] | Some body \<Rightarrow> body)"

lemma reads_tableD: "reads_table table ir \<Longrightarrow> (text, body) \<in> set table \<Longrightarrow> ir text = body"
  by (auto simp: reads_table_def list_all_iff)

lemma parser_of_reads: "distinct (map fst table) \<Longrightarrow> reads_table table (parser_of table)"
  by (auto simp: reads_table_def parser_of_def list_all_iff)

end
