(* ===== verification/Seeds.thy ===== *)
theory Seeds
  imports Campaign_Runs Order_Free Readings
begin

section \<open>The seeds (\<^verbatim>\<open>fuzz/ts/gen/corpus.ts\<close>)\<close>

text \<open>
  The table \<^verbatim>\<open>SEEDS\<close> and \<^verbatim>\<open>seedCorpus\<close>. A seed is DSL text, and the parser that reads it is
  mog-core's, so it is a parameter \<open>ir\<close>; beside each text stands the tree it denotes (\<open>Readings\<close>). Proved: \<^verbatim>\<open>seedCorpus\<close> returns, every seed is a
  legal program with no unsequenced operands, and so a campaign started from them never throws.
\<close>

subsection \<open>Texts that are generated\<close>

definition nest :: "nat \<Rightarrow> string" where
  "nest n = ''u32 s = 0;'' @ newline
     @ concat (map (\<lambda>i. ''if (a > '' @ show_nat i @ '') {'' @ newline) [0..<n])
     @ ''s = 1;'' @ newline @ concat (replicate n (''}'' @ newline)) @ ''return s;'' @ newline"

definition long_loop :: "nat \<Rightarrow> string" where
  "long_loop n = ''u32 s = 0;'' @ newline @ ''u32 i = 0;'' @ newline @ ''do {'' @ newline
     @ concat (map (\<lambda>k. ''s = (s ^ a) + '' @ show_nat (k mod 13) @ '';'' @ newline) [0..<n])
     @ ''i = i + 1;'' @ newline @ ''} while (i < 2);'' @ newline @ ''return s;'' @ newline"

text \<open>The trees they denote.\<close>

definition set_var :: "string \<Rightarrow> expr \<Rightarrow> stmt" where
  "set_var n e = ExpressionStatement (AssignmentExpression Assign n e)"

definition zero_var :: "string \<Rightarrow> stmt" where
  "zero_var n = VariableDeclaration [Declarator U32 n (Some (Literal 0))]"

fun nested_ifs :: "nat list \<Rightarrow> stmt" where
  "nested_ifs [] = set_var ''s'' (Literal 1)"
| "nested_ifs (i # ks) =
     IfStatement (BinaryExpression Greater (Identifier ''a'') (Literal (int i))) (BlockStatement [nested_ifs ks]) None"

definition nest_reading :: "nat \<Rightarrow> stmt list" where
  "nest_reading n = [zero_var ''s'', nested_ifs [0..<n], ReturnStatement (Some (Identifier ''s''))]"

definition loop_stmt :: "nat \<Rightarrow> stmt" where
  "loop_stmt k = set_var ''s''
     (BinaryExpression Plus (BinaryExpression Caret (Identifier ''s'') (Identifier ''a'')) (Literal (int (k mod 13))))"

definition long_loop_reading :: "nat \<Rightarrow> stmt list" where
  "long_loop_reading n =
     [zero_var ''s'', zero_var ''i'',
      DoWhileStatement
        (BlockStatement (map loop_stmt [0..<n]
           @ [set_var ''i'' (BinaryExpression Plus (Identifier ''i'') (Literal 1))]))
        (BinaryExpression Less (Identifier ''i'') (Literal 2)),
      ReturnStatement (Some (Identifier ''s''))]"

subsection \<open>The table\<close>

datatype seed_proc = SeedProc (seed_args: "string list") (seed_source: string) (seed_reading: "stmt list")

definition written_seeds :: "(string \<times> seed_proc list) list" where
  "written_seeds =
    [(''arith'', [SeedProc [''a'', ''b'']
       ''return (a + b) * 3 - (a ^ b);''
       [ReturnStatement (Some (BinaryExpression Minus (BinaryExpression Times (BinaryExpression Plus
        (Identifier ''a'') (Identifier ''b'')) (Literal 3)) (BinaryExpression Caret (Identifier ''a'')
        (Identifier ''b''))))]]),
     (''shift'', [SeedProc [''a'']
       ''return (a << 3) | (a >> 2);''
       [ReturnStatement (Some (BinaryExpression Bar (BinaryExpression Shl (Identifier ''a'') (Literal 3))
        (BinaryExpression Shr (Identifier ''a'') (Literal 2))))]]),
     (''compare'', [SeedProc [''a'', ''b'']
       ''return (a < b) + (a == b) + (a >= b);''
       [ReturnStatement (Some (BinaryExpression Plus (BinaryExpression Plus (BinaryExpression Less
        (Identifier ''a'') (Identifier ''b'')) (BinaryExpression EqEq (Identifier ''a'') (Identifier
        ''b''))) (BinaryExpression GreaterEq (Identifier ''a'') (Identifier ''b''))))]]),
     (''types'', [SeedProc [''a'']
       ''i16 x = i16(a); u8 y = u8(a); return x + y;''
       [VariableDeclaration [Declarator I16 ''x'' (Some (CastExpression I16 (Identifier ''a'')))],
        VariableDeclaration [Declarator U8 ''y'' (Some (CastExpression U8 (Identifier ''a'')))],
        ReturnStatement (Some (BinaryExpression Plus (Identifier ''x'') (Identifier ''y'')))]]),
     (''signed'', [SeedProc [''a'']
       ''i8 p = i8(a | 0x80); i16 q = i16(a | 0x8000); i32 r = 0 - a; return (p < 0) + (q < 1) + (r <= 0) + (p >> 2) + (r >> 4);''
       [VariableDeclaration [Declarator I8 ''p'' (Some (CastExpression I8 (BinaryExpression Bar
        (Identifier ''a'') (Literal 128))))], VariableDeclaration [Declarator I16 ''q'' (Some
        (CastExpression I16 (BinaryExpression Bar (Identifier ''a'') (Literal 32768))))],
        VariableDeclaration [Declarator I32 ''r'' (Some (BinaryExpression Minus (Literal 0) (Identifier
        ''a'')))], ReturnStatement (Some (BinaryExpression Plus (BinaryExpression Plus (BinaryExpression
        Plus (BinaryExpression Plus (BinaryExpression Less (Identifier ''p'') (Literal 0))
        (BinaryExpression Less (Identifier ''q'') (Literal 1))) (BinaryExpression LessEq (Identifier ''r'')
        (Literal 0))) (BinaryExpression Shr (Identifier ''p'') (Literal 2))) (BinaryExpression Shr
        (Identifier ''r'') (Literal 4))))]]),
     (''ternary'', [SeedProc [''a'']
       ''return a ? a + 1 : a - 1;''
       [ReturnStatement (Some (ConditionalExpression (Identifier ''a'') (BinaryExpression Plus (Identifier
        ''a'') (Literal 1)) (BinaryExpression Minus (Identifier ''a'') (Literal 1))))]]),
     (''logical'', [SeedProc [''a'', ''b'']
       ''return (a && b) || (a > b);''
       [ReturnStatement (Some (LogicalExpression OrOr (LogicalExpression AndAnd (Identifier ''a'')
        (Identifier ''b'')) (BinaryExpression Greater (Identifier ''a'') (Identifier ''b''))))]]),
     (''if'', [SeedProc [''a'']
       ''if (a > 3) { return 1; } else { return 2; }''
       [IfStatement (BinaryExpression Greater (Identifier ''a'') (Literal 3)) (BlockStatement
        [ReturnStatement (Some (Literal 1))]) (Some (BlockStatement [ReturnStatement (Some (Literal 2))]))]]),
     (''switch'', [SeedProc [''a'']
       ''switch (a & 3) { case 0: return 10; case 1: return 11; case 2: return 12; default: return 13; }''
       [SwitchStatement (BinaryExpression Amp (Identifier ''a'') (Literal 3)) [SwitchCase (Some (Literal
        0)) [ReturnStatement (Some (Literal 10))], SwitchCase (Some (Literal 1)) [ReturnStatement (Some
        (Literal 11))], SwitchCase (Some (Literal 2)) [ReturnStatement (Some (Literal 12))], SwitchCase
        None [ReturnStatement (Some (Literal 13))]]]]),
     (''switch_break'', [SeedProc [''a'']
       ''u32 s = 0; switch (a & 3) { case 0: s = 1; break; case 1: s = 2; break; default: s = 9; break; } return s;''
       [VariableDeclaration [Declarator U32 ''s'' (Some (Literal 0))], SwitchStatement (BinaryExpression
        Amp (Identifier ''a'') (Literal 3)) [SwitchCase (Some (Literal 0)) [ExpressionStatement
        (AssignmentExpression Assign ''s'' (Literal 1)), BreakStatement], SwitchCase (Some (Literal 1))
        [ExpressionStatement (AssignmentExpression Assign ''s'' (Literal 2)), BreakStatement], SwitchCase
        None [ExpressionStatement (AssignmentExpression Assign ''s'' (Literal 9)), BreakStatement]],
        ReturnStatement (Some (Identifier ''s''))]]),
     (''builtins'', [SeedProc [''a'']
       ''return clz(a) + revbits(a);''
       [ReturnStatement (Some (BinaryExpression Plus (CallExpression ''clz'' [Identifier ''a''])
        (CallExpression ''revbits'' [Identifier ''a''])))]]),
     (''call_none'', [SeedProc []
       ''return p1() + 1;''
       [ReturnStatement (Some (BinaryExpression Plus (CallExpression ''p1'' []) (Literal 1)))],
      SeedProc []
       ''return 7;''
       [ReturnStatement (Some (Literal 7))]]),
     (''call_six'', [SeedProc [''a'']
       ''return p1(a, 1, 2, 3, 4, 5);''
       [ReturnStatement (Some (CallExpression ''p1'' [Identifier ''a'', Literal 1, Literal 2, Literal 3,
        Literal 4, Literal 5]))],
      SeedProc [''u'', ''v'', ''w'', ''x'', ''y'', ''z'']
       ''return u + v + w + x + y + z;''
       [ReturnStatement (Some (BinaryExpression Plus (BinaryExpression Plus (BinaryExpression Plus
        (BinaryExpression Plus (BinaryExpression Plus (Identifier ''u'') (Identifier ''v'')) (Identifier
        ''w'')) (Identifier ''x'')) (Identifier ''y'')) (Identifier ''z'')))]]),
     (''call_in_branch'', [SeedProc [''a'']
       ''if (a & 1) { return p1(a); } return p1(a + 1);''
       [IfStatement (BinaryExpression Amp (Identifier ''a'') (Literal 1)) (BlockStatement [ReturnStatement
        (Some (CallExpression ''p1'' [Identifier ''a'']))]) None, ReturnStatement (Some (CallExpression
        ''p1'' [BinaryExpression Plus (Identifier ''a'') (Literal 1)]))],
      SeedProc [''x'']
       ''return x ^ 5;''
       [ReturnStatement (Some (BinaryExpression Caret (Identifier ''x'') (Literal 5)))]]),
     (''ext_load_store'', [SeedProc [''a'']
       ''st32(0x10, a); st16(0x20, a); st8(0x30, a); return ld32(0x10) + ld16(0x20) + ld8(0x30);''
       [ExpressionStatement (CallExpression ''st32'' [Literal 16, Identifier ''a'']), ExpressionStatement
        (CallExpression ''st16'' [Literal 32, Identifier ''a'']), ExpressionStatement (CallExpression
        ''st8'' [Literal 48, Identifier ''a'']), ReturnStatement (Some (BinaryExpression Plus
        (BinaryExpression Plus (CallExpression ''ld32'' [Literal 16]) (CallExpression ''ld16'' [Literal
        32])) (CallExpression ''ld8'' [Literal 48])))]]),
     (''ext_memmove'', [SeedProc [''a'']
       ''st32(0x10, a); memmove(0x10, 0x12, 0x1a); return ld32(0x14);''
       [ExpressionStatement (CallExpression ''st32'' [Literal 16, Identifier ''a'']), ExpressionStatement
        (CallExpression ''memmove'' [Literal 16, Literal 18, Literal 26]), ReturnStatement (Some
        (CallExpression ''ld32'' [Literal 20]))]]),
     (''ext_memcmp'', [SeedProc [''a'']
       ''st32(0x50, a); st32(0x60, a); return memcmp(0x50, 0x54, 0x60);''
       [ExpressionStatement (CallExpression ''st32'' [Literal 80, Identifier ''a'']), ExpressionStatement
        (CallExpression ''st32'' [Literal 96, Identifier ''a'']), ReturnStatement (Some (CallExpression
        ''memcmp'' [Literal 80, Literal 84, Literal 96]))]]),
     (''ext_slicecmp'', [SeedProc [''a'']
       ''st32(0x80, a); st32(0x90, a); return slicecmp(0x80, 0x84, 0x90, 0x94);''
       [ExpressionStatement (CallExpression ''st32'' [Literal 128, Identifier ''a'']), ExpressionStatement
        (CallExpression ''st32'' [Literal 144, Identifier ''a'']), ReturnStatement (Some (CallExpression
        ''slicecmp'' [Literal 128, Literal 132, Literal 144, Literal 148]))]]),
     (''ext_in_loop'', [SeedProc [''a'']
       ''for (u32 i = 0; i < 4; i = i + 1) { st8(0x100 + i, a + i); } return ld32(0x100);''
       [ForStatement (Some (InitDecl [Declarator U32 ''i'' (Some (Literal 0))])) (Some (BinaryExpression
        Less (Identifier ''i'') (Literal 4))) (Some (AssignmentExpression Assign ''i'' (BinaryExpression
        Plus (Identifier ''i'') (Literal 1)))) (BlockStatement [ExpressionStatement (CallExpression ''st8''
        [BinaryExpression Plus (Literal 256) (Identifier ''i''), BinaryExpression Plus (Identifier ''a'')
        (Identifier ''i'')])]), ReturnStatement (Some (CallExpression ''ld32'' [Literal 256]))]]),
     (''trap_merge'', [SeedProc [''a'']
       ''switch (a) { case 0: return 1; case 1: return 2; default: return 3; }''
       [SwitchStatement (Identifier ''a'') [SwitchCase (Some (Literal 0)) [ReturnStatement (Some (Literal
        1))], SwitchCase (Some (Literal 1)) [ReturnStatement (Some (Literal 2))], SwitchCase None
        [ReturnStatement (Some (Literal 3))]]]])]"

definition generated_seeds :: "(string \<times> seed_proc list) list" where
  "generated_seeds =
    [(''deep_translator_stack'', [SeedProc [''a'']
       (nest 25)
       (nest_reading 25)]),
     (''deep_scan_stack'', [SeedProc [''a'']
       (nest 60)
       (nest_reading 60)]),
     (''loop_back_edge'', [SeedProc [''a'']
       (long_loop 320)
       (long_loop_reading 320)])]"

definition seeds :: "(string \<times> seed_proc list) list" where
  "seeds = written_seeds @ generated_seeds"

definition seed_program :: "(string \<Rightarrow> stmt list) \<Rightarrow> seed_proc list \<Rightarrow> gen_program" where
  "seed_program ir ps = map (\<lambda>p. \<lparr>proc_args = seed_args p, proc_body = ir (seed_source p)\<rparr>) ps"

definition seed_programs :: "recurse \<Rightarrow> (string \<Rightarrow> stmt list) \<Rightarrow> string \<times> graph_error + (string \<times> gen_program) list" where
  "seed_programs kids ir =
     map_r (\<lambda>(name, ps). case check_graph kids (seed_program ir ps) of
              Inl e \<Rightarrow> Inl (name, e)
            | Inr _ \<Rightarrow> Inr (name, seed_program ir ps)) seeds"

definition seed_texts :: "(string \<times> stmt list) list" where
  "seed_texts = concat (map (\<lambda>(name, ps). map (\<lambda>p. (seed_source p, seed_reading p)) ps) seeds)"

definition read_program :: "seed_proc list \<Rightarrow> gen_program" where
  "read_program ps = map (\<lambda>p. \<lparr>proc_args = seed_args p, proc_body = seed_reading p\<rparr>) ps"

subsection \<open>The seeds are legal\<close>

lemma legal_programs_simps:
  "legal_program [p] \<longleftrightarrow> legal_list (may_call [p] 0) (set (proc_args p)) (proc_body p)"
  "legal_program [p, q] \<longleftrightarrow> legal_list (may_call [p, q] 0) (set (proc_args p)) (proc_body p)
     \<and> legal_list (may_call [p, q] 1) (set (proc_args q)) (proc_body q)"
  by (auto simp: legal_program_def less_Suc_eq)

lemma builtin_arities [simp]:
  "may_call gen i ''trap'' (Suc 0)"
  "may_call gen i ''clz'' (Suc 0)"
  "may_call gen i ''revbits'' (Suc 0)"
  "may_call gen i ''st8'' (Suc (Suc 0))"
  "may_call gen i ''st16'' (Suc (Suc 0))"
  "may_call gen i ''st32'' (Suc (Suc 0))"
  "may_call gen i ''ld8'' (Suc 0)"
  "may_call gen i ''ld16'' (Suc 0)"
  "may_call gen i ''ld32'' (Suc 0)"
  "may_call gen i ''memmove'' (Suc (Suc (Suc 0)))"
  "may_call gen i ''memcmp'' (Suc (Suc (Suc 0)))"
  "may_call gen i ''slicecmp'' (Suc (Suc (Suc (Suc 0))))"
proof -
  have "list_all (\<lambda>(f, k). builtin_ok f k) [(''trap'', Suc 0), (''clz'', Suc 0), (''revbits'', Suc 0), (''st8'', Suc (Suc 0)), (''st16'', Suc (Suc 0)), (''st32'', Suc (Suc 0)), (''ld8'', Suc 0), (''ld16'', Suc 0), (''ld32'', Suc 0), (''memmove'', Suc (Suc (Suc 0))), (''memcmp'', Suc (Suc (Suc 0))), (''slicecmp'', Suc (Suc (Suc (Suc 0))))]" by code_simp
  then show 
  "may_call gen i ''trap'' (Suc 0)"
  "may_call gen i ''clz'' (Suc 0)"
  "may_call gen i ''revbits'' (Suc 0)"
  "may_call gen i ''st8'' (Suc (Suc 0))"
  "may_call gen i ''st16'' (Suc (Suc 0))"
  "may_call gen i ''st32'' (Suc (Suc 0))"
  "may_call gen i ''ld8'' (Suc 0)"
  "may_call gen i ''ld16'' (Suc 0)"
  "may_call gen i ''ld32'' (Suc 0)"
  "may_call gen i ''memmove'' (Suc (Suc (Suc 0)))"
  "may_call gen i ''memcmp'' (Suc (Suc (Suc 0)))"
  "may_call gen i ''slicecmp'' (Suc (Suc (Suc (Suc 0))))"
    by (simp_all add: may_call_def)
qed

lemma call_names: "may_call [p, q] 0 ''p1'' k \<longleftrightarrow> k = length (proc_args q)"
proof -
  have "proc_name 1 = ''p1''" "\<not> builtin_ok ''p1'' k" by (code_simp, simp add: builtin_ok_def, code_simp)
  then show ?thesis by (auto simp: may_call_def in_callable_from less_Suc_eq)
qed

lemma legal_written: "list_all (\<lambda>(name, ps). legal_program (read_program ps)) written_seeds"
  by (simp add: written_seeds_def read_program_def legal_programs_simps call_names word_range_def legal_opt_def no_division_def
    names_after_def declares_def legal_init_def init_names_def labels_ok_def labelled_def legal_test_def without_closer_def division_def numeral_eq_Suc)

lemma fits_written: "list_all (\<lambda>(name, ps). list_all (\<lambda>p. fits (proc_body p)) (read_program ps)) written_seeds"
  by (simp add: written_seeds_def read_program_def fits_def each_of.simps)

lemma sequenced_written:
  "list_all (\<lambda>(name, ps). analyze operands (read_program ps) = Inr None) written_seeds"
  by code_simp

subsection \<open>The generated ones, at any size\<close>

lemma legal_ifs:
  "{''a'', ''s''} \<subseteq> V \<Longrightarrow> list_all (\<lambda>i. i < 2 ^ 32) ks \<Longrightarrow> legal_stmt C V (nested_ifs ks)"
proof (induction ks)
  case (Cons k ks)
  then have "legal_stmt C V (nested_ifs ks)" "int k < 2 ^ 32" by simp_all
  with Cons.prems show ?case by (simp add: word_range_def names_after_def division_def)
qed (simp add: set_var_def word_range_def no_division_def)

lemma legal_nest: "n \<le> 2 ^ 32 \<Longrightarrow> legal_program [\<lparr>proc_args = [''a''], proc_body = nest_reading n\<rparr>]"
proof -
  assume "n \<le> 2 ^ 32"
  then have "list_all (\<lambda>i. i < 2 ^ 32) [0..<n]" by (auto simp: list_all_iff)
  then have "legal_stmt C {''s'', ''a''} (nested_ifs [0..<n])" for C by (rule legal_ifs [rotated]) simp
  moreover have "names_after (nested_ifs ks) = {}" for ks by (cases ks) (simp_all add: names_after_def set_var_def)
  ultimately show ?thesis
    by (simp add: legal_programs_simps nest_reading_def zero_var_def legal_opt_def word_range_def names_after_def declares_def)
qed

lemma legal_loop_stmts:
  "{''a'', ''s'', ''i''} \<subseteq> V \<Longrightarrow> legal_list C V (map loop_stmt ks @ ss) \<longleftrightarrow> legal_list C V ss"
proof (induction ks)
  case (Cons k ks)
  have "int (k mod 13) < 2 ^ 32" by (rule less_trans [of _ 13]) simp_all
  with Cons show ?case by (simp add: loop_stmt_def set_var_def word_range_def no_division_def names_after_def division_def)
qed simp

lemma legal_long_loop: "legal_program [\<lparr>proc_args = [''a''], proc_body = long_loop_reading n\<rparr>]"
  by (simp add: legal_programs_simps long_loop_reading_def zero_var_def legal_opt_def word_range_def names_after_def
    declares_def legal_loop_stmts set_var_def no_division_def division_def insert_commute)

lemma each_ifs: "x \<in> set (each_of (nested_ifs ks)) \<Longrightarrow> (\<exists>js. x = nested_ifs js) \<or> (\<exists>js. x = BlockStatement [nested_ifs js])"
proof (induction ks arbitrary: x)
  case Nil
  then have "x = nested_ifs []" by (simp add: each_of.simps set_var_def)
  then show ?case by blast
next
  case (Cons k ks)
  then have "x = nested_ifs (k # ks) \<or> x = BlockStatement [nested_ifs ks] \<or> x \<in> set (each_of (nested_ifs ks))"
    by (auto simp: each_of.simps)
  with Cons.IH show ?case by blast
qed

lemma fits_nest: "fits (nest_reading n)"
proof -
  have "case x of SwitchStatement d cs \<Rightarrow> length cs < 2 ^ 32 | _ \<Rightarrow> True" if "x \<in> set (each_of (nested_ifs ks))" for x ks
  proof -
    have "nested_ifs js \<noteq> SwitchStatement d cs" for js d cs by (cases js) (simp_all add: set_var_def)
    with each_ifs [OF that] show ?thesis by (auto split: stmt.split dest: sym)
  qed
  then show ?thesis
    by (simp add: fits_def nest_reading_def zero_var_def each_of.simps [of "VariableDeclaration _"] each_of.simps [of "ReturnStatement _"] list_all_iff)
qed

lemma each_loop_stmts [simp]: "each_statement (map loop_stmt ks) = map loop_stmt ks"
  by (induction ks) (simp_all add: loop_stmt_def set_var_def each_of.simps)

lemma fits_long_loop: "fits (long_loop_reading n)"
  by (simp add: fits_def long_loop_reading_def zero_var_def set_var_def each_of.simps list_all_iff loop_stmt_def)

text \<open>A program of one procedure none of whose expressions has a conflict.\<close>

lemma map_r_ok: "(\<And>x. x \<in> set xs \<Longrightarrow> \<exists>y. f x = Inr y) \<Longrightarrow> \<exists>ys. map_r f xs = Inr ys"
proof (cases "map_r f xs")
  case (Inl e)
  assume "\<And>x. x \<in> set xs \<Longrightarrow> \<exists>y. f x = Inr y"
  with map_r_Inl [OF Inl] show ?thesis by fastforce
qed simp

lemma analyze_single:
  assumes "\<And>sums e. e \<in> set (concat (map child_expressions (each_statement body))) \<Longrightarrow> \<exists>y. analyze_expr sums e = Inr y"
  shows "analyze kids [\<lparr>proc_args = xs, proc_body = body\<rparr>] = Inr None"
proof -
  have "\<exists>own. analyze_body sums body = Inr own" for sums
    using map_r_ok [of "concat (map child_expressions (each_statement body))" "analyze_expr sums"] assms
    by (auto simp: analyze_body_def simp del: set_concat)
  then obtain own where own: "analyze_body sums body = Inr (own sums)" for sums by metis
  then show ?thesis by (simp add: analyze_def summarize_def summarize_proc_def)
qed

lemma sequenced_nest: "analyze kids [\<lparr>proc_args = xs, proc_body = nest_reading n\<rparr>] = Inr None"
proof (rule analyze_single)
  fix sums e
  assume "e \<in> set (concat (map child_expressions (each_statement (nest_reading n))))"
  then have "e = Literal 0 \<or> e = Identifier ''s'' \<or> (\<exists>x \<in> set (each_of (nested_ifs [0..<n])). e \<in> set (child_expressions x))"
    by (auto simp: nest_reading_def zero_var_def each_of.simps [of "VariableDeclaration _"] each_of.simps [of "ReturnStatement _"]
      decl_inits_def opt_list_def)
  moreover have "\<exists>y. analyze_expr sums e = Inr y" if "e \<in> set (child_expressions (nested_ifs js))" for js
    using that by (cases js) (auto simp: set_var_def conflict_def intersects_def no_effects_def touches_def)
  ultimately show "\<exists>y. analyze_expr sums e = Inr y" by (auto dest!: each_ifs)
qed

lemma sequenced_long_loop: "analyze kids [\<lparr>proc_args = xs, proc_body = long_loop_reading n\<rparr>] = Inr None"
proof (rule analyze_single)
  fix sums e
  assume "e \<in> set (concat (map child_expressions (each_statement (long_loop_reading n))))"
  then have "e = Literal 0 \<or> e = Identifier ''s'' \<or> e = BinaryExpression Less (Identifier ''i'') (Literal 2)
      \<or> e = AssignmentExpression Assign ''i'' (BinaryExpression Plus (Identifier ''i'') (Literal 1))
      \<or> (\<exists>k. e \<in> set (child_expressions (loop_stmt k)))"
    by (auto simp: long_loop_reading_def zero_var_def set_var_def each_of.simps decl_inits_def opt_list_def)
  then show "\<exists>y. analyze_expr sums e = Inr y"
    by (auto simp: loop_stmt_def set_var_def conflict_def intersects_def no_effects_def touches_def)
qed

subsection \<open>All of them\<close>

lemma names_distinct: "distinct (map fst seeds)"
  by (simp add: seeds_def written_seeds_def generated_seeds_def)

definition sound_seed :: "recurse \<Rightarrow> string \<times> gen_program \<Rightarrow> bool" where
  "sound_seed kids e \<longleftrightarrow> good_entry e \<and> analyze kids (snd e) = Inr None"

lemma sound_read:
  assumes "walker kids" and "(name, ps) \<in> set seeds"
  shows "sound_seed kids (name, read_program ps)"
proof -
  have "list_all (\<lambda>(name, ps). sound_seed kids (name, read_program ps)) written_seeds"
    using legal_written fits_written sequenced_written
    by (auto simp: list_all_iff sound_seed_def good_entry_def analyze_walker [OF assms(1)])
  moreover have "list_all (\<lambda>(name, ps). sound_seed kids (name, read_program ps)) generated_seeds"
    by (simp add: generated_seeds_def read_program_def sound_seed_def good_entry_def legal_nest legal_long_loop
      fits_nest fits_long_loop sequenced_nest sequenced_long_loop)
  ultimately show ?thesis using assms(2) by (auto simp: seeds_def list_all_iff)
qed

lemma seeds_sound:
  assumes "walker kids" and "reads_table seed_texts ir"
  shows "\<exists>c. seed_programs kids ir = Inr c \<and> map fst c = map fst seeds \<and> distinct (map fst c)
    \<and> list_all (sound_seed kids) c"
proof -
  have read: "seed_program ir ps = read_program ps" if "(name, ps) \<in> set seeds" for name ps
  proof -
    have "ir (seed_source p) = seed_reading p" if "p \<in> set ps" for p
      by (rule reads_tableD [OF assms(2)]) (use that \<open>(name, ps) \<in> set seeds\<close> in \<open>force simp: seed_texts_def\<close>)
    then show ?thesis by (simp add: seed_program_def read_program_def)
  qed
  let ?entry = "\<lambda>(name, ps). (name, read_program ps)"
  have "seed_programs kids ir = Inr (map ?entry seeds)"
    unfolding seed_programs_def
  proof (rule map_r_total)
    fix x assume x: "x \<in> set seeds"
    obtain name ps where n: "x = (name, ps)" by (cases x)
    have "legal_program (read_program ps)"
      using sound_read [OF assms(1)] x n by (auto simp: sound_seed_def good_entry_def)
    from legal_program_graph [OF assms(1) this] x n read [of name ps]
    show "(case x of (name, ps) \<Rightarrow> (case check_graph kids (seed_program ir ps) of
              Inl e \<Rightarrow> Inl (name, e) | Inr _ \<Rightarrow> Inr (name, seed_program ir ps))) = Inr (?entry x)" by simp
  qed
  moreover have "map fst (map ?entry seeds) = map fst seeds" by auto
  moreover have "list_all (sound_seed kids) (map ?entry seeds)"
    using sound_read [OF assms(1)] by (auto simp: list_all_iff)
  ultimately show ?thesis using names_distinct by metis
qed

text \<open>
  C13. \<^verbatim>\<open>seedCorpus\<close> returns, one entry for each row of \<^verbatim>\<open>SEEDS\<close> under a name of its own, and every seed is
  what the generator and the comparison need it to be: a legal program, so that every mutant of it is one, with no
  \<^verbatim>\<open>switch\<close> too wide for a fresh label, and with no unsequenced operands. The hypothesis on mog-core's
  parser is that it reads the 26 texts as the trees written beside them.
\<close>

theorem seeds_are_sound:
  assumes "walker kids" and "reads_table seed_texts ir"
  shows "\<exists>c. seed_programs kids ir = Inr c \<and> map fst c = map fst seeds \<and> distinct (map fst c)
    \<and> list_all (sound_seed kids) c"
  using assms by (rule seeds_sound)

lemma no_brace: "count_list (show_nat n) (CHR ''{'') = 0"
proof (induction n rule: show_nat.induct)
  case (1 n)
  have "list_all (\<lambda>d. digit_char d \<noteq> CHR ''{'') [0..<10]" by code_simp
  then have d: "d < 10 \<Longrightarrow> digit_char d \<noteq> CHR ''{''" for d by (simp add: list_all_iff)
  show ?case
    using 1 d [of n] d [of "n mod 10"] by (subst show_nat.simps) simp
qed

lemma braces_nest: "count_list (nest n) (CHR ''{'') = n"
proof -
  have "count_list (concat (map (\<lambda>i. ''if (a > '' @ show_nat i @ '') {'' @ newline) ks)) (CHR ''{'') = length ks" for ks
    by (induction ks) (simp_all add: no_brace newline_def newline_char_def)
  moreover have "count_list (concat (replicate n (''}'' @ newline))) (CHR ''{'') = 0"
    by (induction n) (simp_all add: newline_def newline_char_def)
  ultimately show ?thesis by (simp add: nest_def newline_def newline_char_def)
qed

lemma nest_starts: "take 12 (nest (Suc n)) = ''u32 s = 0;'' @ newline @ ''i''"
  by (simp add: nest_def newline_def newline_char_def upt_conv_Cons del: upt_Suc)

lemma long_loop_starts: "take 12 (long_loop n) = ''u32 s = 0;'' @ newline @ ''u''"
  by (simp add: long_loop_def newline_def newline_char_def)

lemma distinct_texts: "distinct (concat (map (\<lambda>(name, ps). map seed_source ps) seeds))"
proof -
  have written: "distinct (concat (map (\<lambda>(name, ps). map seed_source ps) written_seeds))"
    by (simp add: written_seeds_def)
  have start: "list_all (\<lambda>t. take 11 t \<noteq> ''u32 s = 0;'' @ newline) (concat (map (\<lambda>(name, ps). map seed_source ps) written_seeds))"
    by (simp add: written_seeds_def newline_def newline_char_def)
  have gen: "take 11 (nest 25) = ''u32 s = 0;'' @ newline" "take 11 (nest 60) = ''u32 s = 0;'' @ newline"
    "take 11 (long_loop 320) = ''u32 s = 0;'' @ newline"
    by (simp_all add: nest_def long_loop_def newline_def newline_char_def)
  have "nest 25 \<noteq> nest 60" using braces_nest [of 25] braces_nest [of 60] by auto
  moreover have "nest 25 \<noteq> long_loop 320" "nest 60 \<noteq> long_loop 320"
    using nest_starts [of 24] nest_starts [of 59] long_loop_starts [of 320] by auto
  ultimately have "distinct (concat (map (\<lambda>(name, ps). map seed_source ps) generated_seeds))"
    by (simp add: generated_seeds_def)
  moreover have "set (concat (map (\<lambda>(name, ps). map seed_source ps) generated_seeds)) \<subseteq> {t. take 11 t = ''u32 s = 0;'' @ newline}"
    using gen by (simp add: generated_seeds_def)
  ultimately show ?thesis using written start by (auto simp: seeds_def list_all_iff simp del: set_concat)
qed

definition table_parser :: "string \<Rightarrow> stmt list" where
  "table_parser = parser_of seed_texts"

lemma table_parser_reads: "reads_table seed_texts table_parser"
proof -
  have "map fst seed_texts = concat (map (\<lambda>(name, ps). map seed_source ps) seeds)"
    unfolding seed_texts_def by (rule arg_cong [of _ _ concat, THEN trans [OF map_concat]]) (simp add: case_prod_beta comp_def)
  then show ?thesis unfolding table_parser_def by (intro parser_of_reads) (simp only: distinct_texts)
qed

lemma seeds_are_sound_witness:
  "\<exists>c. seed_programs operands table_parser = Inr c \<and> map fst c = map fst seeds \<and> list_all (sound_seed operands) c"
  using seeds_are_sound [OF operand_walk.walker_axioms table_parser_reads] by blast

text \<open>
  C8. The campaign that is run. Started from the corpus \<^verbatim>\<open>seedCorpus\<close> returns, with room for at least
  one more program, a campaign comes to its end without an exception, whatever it generates and the target answers;
  its corpus begins with the 23 seeds and holds nothing but legal programs.
\<close>

theorem campaign_from_seeds:
  assumes "walker (h_kids h)" and "mapper (h_map_over h)" and "lowers_bodies (h_tools h)"
    and "dumps_fit (h_answer h) nbytes" and "dumps_fit (h_traced h) nbytes"
    and "reads_table seed_texts ir" and "seed_programs (h_kids h) ir = Inr (seed_corpus h)" and "23 < corpus_max h"
  shows "\<exists>s ds. run_campaign h nbytes coverage0 = (Inr (), s) \<and> corpus s = seed_corpus h @ ds
    \<and> map fst (seed_corpus h) = map fst seeds \<and> list_all (\<lambda>(name, p). legal_program p) (corpus s)"
proof -
  have names: "map fst (seed_corpus h) = map fst seeds" and sound: "list_all (sound_seed (h_kids h)) (seed_corpus h)"
    using seeds_sound [OF assms(1,6)] assms(7) by auto
  have len: "length (seed_corpus h) = 23"
    using arg_cong [OF names, of length] by (simp add: seeds_def written_seeds_def generated_seeds_def)
  have "list_all good_entry (seed_corpus h)" using sound by (auto simp: list_all_iff sound_seed_def)
  moreover have "seed_corpus h \<noteq> []" "int (length (seed_corpus h)) < corpus_max h" using len assms(8) by auto
  ultimately show ?thesis using campaign_keeps [OF assms(1-5)] names by blast
qed

definition seeded_harness :: "gen_program harness" where
  "seeded_harness = one_program_harness\<lparr>seed_corpus :=
     (case seed_programs operands table_parser of Inr c \<Rightarrow> c | Inl _ \<Rightarrow> [])\<rparr>"

lemma campaign_from_seeds_witness:
  "\<exists>s ds. run_campaign seeded_harness 0 None = (Inr (), s) \<and> corpus s = seed_corpus seeded_harness @ ds
     \<and> map fst (seed_corpus seeded_harness) = map fst seeds"
proof -
  let ?h = seeded_harness
  obtain c where c: "seed_programs operands table_parser = Inr c"
    using seeds_sound [OF operand_walk.walker_axioms table_parser_reads] by blast
  have ws: "walker (h_kids ?h)" "mapper (h_map_over ?h)"
    using operand_walk.walker_axioms lr.mapper_axioms
    by (simp_all add: seeded_harness_def one_program_harness_def sample_harness_def)
  have rd: "seed_programs (h_kids ?h) table_parser = Inr (seed_corpus ?h)" "23 < corpus_max ?h"
    using c by (simp_all add: seeded_harness_def one_program_harness_def sample_harness_def)
  have tc: "lowers_bodies (h_tools ?h)" and fit: "dumps_fit (h_answer ?h) 0" "dumps_fit (h_traced ?h) 0"
    using one_program_fits by (simp_all add: seeded_harness_def)
  from campaign_from_seeds [OF ws tc fit table_parser_reads rd, of None] show ?thesis by blast
qed

end
