(* ===== verification/Calibrate.thy ===== *)
theory Calibrate
  imports Lanes Readings
begin

section \<open>The evaluator's gate (\<^verbatim>\<open>eval/eval_check.ts\<close>)\<close>

text \<open>
  Before a campaign is trusted, the evaluator is compared with the reference VM on programs chosen to be
  awkward. The script's two tables are here, each text beside the tree it denotes (\<open>Readings\<close>). A row also
  holds the answer the language defines, which the script leaves to the VM. Proved: the evaluator gives these answers,
  so the gate passes exactly when the VM gives them too.
\<close>

subsection \<open>The evaluator's table\<close>

datatype gate_case =
  GateCase (gate_label: string) (gate_source: string) (gate_reading: "stmt list") (gate_answer: outcome)

definition gate_cases :: "gate_case list" where
  "gate_cases =
    [GateCase ''i8 negative vs small literal''
       ''i8 x = 255; return x < 5;''
       [VariableDeclaration [Declarator I8 ''x'' (Some (Literal 255))], ReturnStatement (Some
        (BinaryExpression Less (Identifier ''x'') (Literal 5)))] (OReturn 1),
     GateCase ''i16 negative vs small literal''
       ''i16 x = 65535; return x < 5;''
       [VariableDeclaration [Declarator I16 ''x'' (Some (Literal 65535))], ReturnStatement (Some
        (BinaryExpression Less (Identifier ''x'') (Literal 5)))] (OReturn 1),
     GateCase ''i32 high bit vs small literal''
       ''i32 x = 0x80000000; return x < 5;''
       [VariableDeclaration [Declarator I32 ''x'' (Some (Literal 2147483648))], ReturnStatement (Some
        (BinaryExpression Less (Identifier ''x'') (Literal 5)))] (OReturn 1),
     GateCase ''u32 high bit stays unsigned''
       ''u32 x = 0x80000000; return x < 5;''
       [VariableDeclaration [Declarator U32 ''x'' (Some (Literal 2147483648))], ReturnStatement (Some
        (BinaryExpression Less (Identifier ''x'') (Literal 5)))] (OReturn 0),
     GateCase ''mixed u32 makes it unsigned''
       ''i32 x = 0x80000000; u32 y = 5; return x < y;''
       [VariableDeclaration [Declarator I32 ''x'' (Some (Literal 2147483648))], VariableDeclaration
        [Declarator U32 ''y'' (Some (Literal 5))], ReturnStatement (Some (BinaryExpression Less (Identifier
        ''x'') (Identifier ''y'')))] (OReturn 0),
     GateCase ''large literal makes it unsigned''
       ''i32 x = 3; return x < 0x80000000;''
       [VariableDeclaration [Declarator I32 ''x'' (Some (Literal 3))], ReturnStatement (Some
        (BinaryExpression Less (Identifier ''x'') (Literal 2147483648)))] (OReturn 1),
     GateCase ''signed >=''
       ''i8 x = 255; return x >= 0;''
       [VariableDeclaration [Declarator I8 ''x'' (Some (Literal 255))], ReturnStatement (Some
        (BinaryExpression GreaterEq (Identifier ''x'') (Literal 0)))] (OReturn 0),
     GateCase ''signed >''
       ''i16 x = 65535; return x > 1;''
       [VariableDeclaration [Declarator I16 ''x'' (Some (Literal 65535))], ReturnStatement (Some
        (BinaryExpression Greater (Identifier ''x'') (Literal 1)))] (OReturn 0),
     GateCase ''signed <=''
       ''i8 x = 128; return x <= 0;''
       [VariableDeclaration [Declarator I8 ''x'' (Some (Literal 128))], ReturnStatement (Some
        (BinaryExpression LessEq (Identifier ''x'') (Literal 0)))] (OReturn 1),
     GateCase ''arithmetic shift right''
       ''i32 x = 0x80000000; return x >> 4;''
       [VariableDeclaration [Declarator I32 ''x'' (Some (Literal 2147483648))], ReturnStatement (Some
        (BinaryExpression Shr (Identifier ''x'') (Literal 4)))] (OReturn 4160749568),
     GateCase ''logical shift right''
       ''u32 x = 0x80000000; return x >> 4;''
       [VariableDeclaration [Declarator U32 ''x'' (Some (Literal 2147483648))], ReturnStatement (Some
        (BinaryExpression Shr (Identifier ''x'') (Literal 4)))] (OReturn 134217728),
     GateCase ''narrow signed shift right''
       ''i8 x = 255; return x >> 1;''
       [VariableDeclaration [Declarator I8 ''x'' (Some (Literal 255))], ReturnStatement (Some
        (BinaryExpression Shr (Identifier ''x'') (Literal 1)))] (OReturn 4294967295),
     GateCase ''shift left is sign agnostic''
       ''i32 x = 0x40000000; return x << 1;''
       [VariableDeclaration [Declarator I32 ''x'' (Some (Literal 1073741824))], ReturnStatement (Some
        (BinaryExpression Shl (Identifier ''x'') (Literal 1)))] (OReturn 2147483648),
     GateCase ''shift by 31''
       ''u32 x = 1; return x << 31;''
       [VariableDeclaration [Declarator U32 ''x'' (Some (Literal 1))], ReturnStatement (Some
        (BinaryExpression Shl (Identifier ''x'') (Literal 31)))] (OReturn 2147483648),
     GateCase ''dynamic shift by 32 is unspecified''
       ''u32 n = 32; u32 x = 1; return x << n;''
       [VariableDeclaration [Declarator U32 ''n'' (Some (Literal 32))], VariableDeclaration [Declarator
        U32 ''x'' (Some (Literal 1))], ReturnStatement (Some (BinaryExpression Shl (Identifier ''x'')
        (Identifier ''n'')))] (OUnspecified (ShiftBy 32)),
     GateCase ''dynamic shift by 31 is fine''
       ''u32 n = 31; u32 x = 1; return x << n;''
       [VariableDeclaration [Declarator U32 ''n'' (Some (Literal 31))], VariableDeclaration [Declarator
        U32 ''x'' (Some (Literal 1))], ReturnStatement (Some (BinaryExpression Shl (Identifier ''x'')
        (Identifier ''n'')))] (OReturn 2147483648),
     GateCase ''u8 wraps on store''
       ''u8 x = 300; return x;''
       [VariableDeclaration [Declarator U8 ''x'' (Some (Literal 300))], ReturnStatement (Some (Identifier
        ''x''))] (OReturn 44),
     GateCase ''i8 sign extends on store''
       ''i8 x = 200; return x;''
       [VariableDeclaration [Declarator I8 ''x'' (Some (Literal 200))], ReturnStatement (Some (Identifier
        ''x''))] (OReturn 4294967240),
     GateCase ''i16 sign extends on store''
       ''i16 x = 40000; return x;''
       [VariableDeclaration [Declarator I16 ''x'' (Some (Literal 40000))], ReturnStatement (Some
        (Identifier ''x''))] (OReturn 4294941760),
     GateCase ''u16 truncates''
       ''u16 x = 70000; return x;''
       [VariableDeclaration [Declarator U16 ''x'' (Some (Literal 70000))], ReturnStatement (Some
        (Identifier ''x''))] (OReturn 4464),
     GateCase ''narrow assignment re-narrows''
       ''u8 x = 1; x = 511; return x;''
       [VariableDeclaration [Declarator U8 ''x'' (Some (Literal 1))], ExpressionStatement
        (AssignmentExpression Assign ''x'' (Literal 511)), ReturnStatement (Some (Identifier ''x''))] (OReturn 255),
     GateCase ''narrow update wraps''
       ''u8 x = 255; x++; return x;''
       [VariableDeclaration [Declarator U8 ''x'' (Some (Literal 255))], ExpressionStatement
        (UpdateExpression Incr False (Identifier ''x'')), ReturnStatement (Some (Identifier ''x''))] (OReturn 0),
     GateCase ''narrow update underflows''
       ''u8 x = 0; x--; return x;''
       [VariableDeclaration [Declarator U8 ''x'' (Some (Literal 0))], ExpressionStatement
        (UpdateExpression Decr False (Identifier ''x'')), ReturnStatement (Some (Identifier ''x''))] (OReturn 255),
     GateCase ''compound assignment narrows''
       ''u8 x = 200; x += 100; return x;''
       [VariableDeclaration [Declarator U8 ''x'' (Some (Literal 200))], ExpressionStatement
        (AssignmentExpression (Compound Plus) ''x'' (Literal 100)), ReturnStatement (Some (Identifier
        ''x''))] (OReturn 44),
     GateCase ''cast is not storage''
       ''u32 a = 300; return u8(a) + a;''
       [VariableDeclaration [Declarator U32 ''a'' (Some (Literal 300))], ReturnStatement (Some
        (BinaryExpression Plus (CastExpression U8 (Identifier ''a'')) (Identifier ''a'')))] (OReturn 344),
     GateCase ''add wraps''
       ''u32 x = 0xffffffff; return x + 2;''
       [VariableDeclaration [Declarator U32 ''x'' (Some (Literal 4294967295))], ReturnStatement (Some
        (BinaryExpression Plus (Identifier ''x'') (Literal 2)))] (OReturn 1),
     GateCase ''add wraps before a compare''
       ''u32 x = 0xffffffff; return (x + 2) < 5;''
       [VariableDeclaration [Declarator U32 ''x'' (Some (Literal 4294967295))], ReturnStatement (Some
        (BinaryExpression Less (BinaryExpression Plus (Identifier ''x'') (Literal 2)) (Literal 5)))] (OReturn 1),
     GateCase ''subtract wraps before a compare''
       ''u32 x = 1; return (x - 3) < 5;''
       [VariableDeclaration [Declarator U32 ''x'' (Some (Literal 1))], ReturnStatement (Some
        (BinaryExpression Less (BinaryExpression Minus (Identifier ''x'') (Literal 3)) (Literal 5)))] (OReturn 0),
     GateCase ''multiply wraps past float precision''
       ''u32 x = 0xffffffff; return x * x;''
       [VariableDeclaration [Declarator U32 ''x'' (Some (Literal 4294967295))], ReturnStatement (Some
        (BinaryExpression Times (Identifier ''x'') (Identifier ''x'')))] (OReturn 1),
     GateCase ''multiply wraps at the word''
       ''u32 x = 0x10001; return x * x;''
       [VariableDeclaration [Declarator U32 ''x'' (Some (Literal 65537))], ReturnStatement (Some
        (BinaryExpression Times (Identifier ''x'') (Identifier ''x'')))] (OReturn 131073),
     GateCase ''negate wraps''
       ''u32 x = 1; return -x;''
       [VariableDeclaration [Declarator U32 ''x'' (Some (Literal 1))], ReturnStatement (Some
        (UnaryExpression Negate (Identifier ''x'')))] (OReturn 4294967295),
     GateCase ''complement''
       ''u32 x = 0; return ~x;''
       [VariableDeclaration [Declarator U32 ''x'' (Some (Literal 0))], ReturnStatement (Some
        (UnaryExpression Tilde (Identifier ''x'')))] (OReturn 4294967295),
     GateCase ''not''
       ''u32 x = 7; return !x;''
       [VariableDeclaration [Declarator U32 ''x'' (Some (Literal 7))], ReturnStatement (Some
        (UnaryExpression Bang (Identifier ''x'')))] (OReturn 0),
     GateCase ''postfix yields the old value''
       ''u32 x = 5; u32 y = x++; return y;''
       [VariableDeclaration [Declarator U32 ''x'' (Some (Literal 5))], VariableDeclaration [Declarator U32
        ''y'' (Some (UpdateExpression Incr False (Identifier ''x'')))], ReturnStatement (Some (Identifier
        ''y''))] (OReturn 5),
     GateCase ''prefix yields the new value''
       ''u32 x = 5; u32 y = ++x; return y;''
       [VariableDeclaration [Declarator U32 ''x'' (Some (Literal 5))], VariableDeclaration [Declarator U32
        ''y'' (Some (UpdateExpression Incr True (Identifier ''x'')))], ReturnStatement (Some (Identifier
        ''y''))] (OReturn 6),
     GateCase ''postfix effect still lands''
       ''u32 x = 5; u32 y = x++; return x;''
       [VariableDeclaration [Declarator U32 ''x'' (Some (Literal 5))], VariableDeclaration [Declarator U32
        ''y'' (Some (UpdateExpression Incr False (Identifier ''x'')))], ReturnStatement (Some (Identifier
        ''x''))] (OReturn 6),
     GateCase ''narrow postfix wraps and yields old''
       ''u8 x = 255; u8 y = x++; return y * 2 + x;''
       [VariableDeclaration [Declarator U8 ''x'' (Some (Literal 255))], VariableDeclaration [Declarator U8
        ''y'' (Some (UpdateExpression Incr False (Identifier ''x'')))], ReturnStatement (Some
        (BinaryExpression Plus (BinaryExpression Times (Identifier ''y'') (Literal 2)) (Identifier ''x'')))] (OReturn 510),
     GateCase ''and yields one, not the operand''
       ''return 2 && 4;''
       [ReturnStatement (Some (LogicalExpression AndAnd (Literal 2) (Literal 4)))] (OReturn 1),
     GateCase ''or yields one, not the operand''
       ''return 0 || 7;''
       [ReturnStatement (Some (LogicalExpression OrOr (Literal 0) (Literal 7)))] (OReturn 1),
     GateCase ''and yields zero''
       ''return 0 && 4;''
       [ReturnStatement (Some (LogicalExpression AndAnd (Literal 0) (Literal 4)))] (OReturn 0),
     GateCase ''not of non-zero''
       ''return !9;''
       [ReturnStatement (Some (UnaryExpression Bang (Literal 9)))] (OReturn 0),
     GateCase ''and short circuits''
       ''u32 x = 0; u32 y = 0; if (x && (y = 1)) { } return y;''
       [VariableDeclaration [Declarator U32 ''x'' (Some (Literal 0))], VariableDeclaration [Declarator U32
        ''y'' (Some (Literal 0))], IfStatement (LogicalExpression AndAnd (Identifier ''x'')
        (AssignmentExpression Assign ''y'' (Literal 1))) (BlockStatement []) None, ReturnStatement (Some
        (Identifier ''y''))] (OReturn 0),
     GateCase ''or short circuits''
       ''u32 x = 1; u32 y = 0; if (x || (y = 1)) { } return y;''
       [VariableDeclaration [Declarator U32 ''x'' (Some (Literal 1))], VariableDeclaration [Declarator U32
        ''y'' (Some (Literal 0))], IfStatement (LogicalExpression OrOr (Identifier ''x'')
        (AssignmentExpression Assign ''y'' (Literal 1))) (BlockStatement []) None, ReturnStatement (Some
        (Identifier ''y''))] (OReturn 0),
     GateCase ''ternary picks one arm''
       ''u32 x = 0; u32 y = 5; return x ? (y = 1) : (y = 2);''
       [VariableDeclaration [Declarator U32 ''x'' (Some (Literal 0))], VariableDeclaration [Declarator U32
        ''y'' (Some (Literal 5))], ReturnStatement (Some (ConditionalExpression (Identifier ''x'')
        (AssignmentExpression Assign ''y'' (Literal 1)) (AssignmentExpression Assign ''y'' (Literal 2))))] (OReturn 2),
     GateCase ''switch match''
       ''u32 x = 1; switch (x) { case 0: return 10; case 1: return 11; default: return 12; }''
       [VariableDeclaration [Declarator U32 ''x'' (Some (Literal 1))], SwitchStatement (Identifier ''x'')
        [SwitchCase (Some (Literal 0)) [ReturnStatement (Some (Literal 10))], SwitchCase (Some (Literal 1))
        [ReturnStatement (Some (Literal 11))], SwitchCase None [ReturnStatement (Some (Literal 12))]]] (OReturn 11),
     GateCase ''switch default''
       ''u32 x = 9; switch (x) { case 0: return 10; case 1: return 11; default: return 12; }''
       [VariableDeclaration [Declarator U32 ''x'' (Some (Literal 9))], SwitchStatement (Identifier ''x'')
        [SwitchCase (Some (Literal 0)) [ReturnStatement (Some (Literal 10))], SwitchCase (Some (Literal 1))
        [ReturnStatement (Some (Literal 11))], SwitchCase None [ReturnStatement (Some (Literal 12))]]] (OReturn 12),
     GateCase ''switch falls through''
       ''u32 s = 0; switch (1) { case 1: s = s + 1; case 2: s = s + 2; break; default: break; } return s;''
       [VariableDeclaration [Declarator U32 ''s'' (Some (Literal 0))], SwitchStatement (Literal 1)
        [SwitchCase (Some (Literal 1)) [ExpressionStatement (AssignmentExpression Assign ''s''
        (BinaryExpression Plus (Identifier ''s'') (Literal 1)))], SwitchCase (Some (Literal 2))
        [ExpressionStatement (AssignmentExpression Assign ''s'' (BinaryExpression Plus (Identifier ''s'')
        (Literal 2))), BreakStatement], SwitchCase None [BreakStatement]], ReturnStatement (Some
        (Identifier ''s''))] (OReturn 3),
     GateCase ''switch break stops''
       ''u32 s = 0; switch (1) { case 1: s = s + 1; break; case 2: s = s + 2; break; } return s;''
       [VariableDeclaration [Declarator U32 ''s'' (Some (Literal 0))], SwitchStatement (Literal 1)
        [SwitchCase (Some (Literal 1)) [ExpressionStatement (AssignmentExpression Assign ''s''
        (BinaryExpression Plus (Identifier ''s'') (Literal 1))), BreakStatement], SwitchCase (Some (Literal
        2)) [ExpressionStatement (AssignmentExpression Assign ''s'' (BinaryExpression Plus (Identifier
        ''s'') (Literal 2))), BreakStatement]], ReturnStatement (Some (Identifier ''s''))] (OReturn 1),
     GateCase ''switch no match no default''
       ''u32 s = 7; switch (9) { case 1: s = 1; break; } return s;''
       [VariableDeclaration [Declarator U32 ''s'' (Some (Literal 7))], SwitchStatement (Literal 9)
        [SwitchCase (Some (Literal 1)) [ExpressionStatement (AssignmentExpression Assign ''s'' (Literal
        1)), BreakStatement]], ReturnStatement (Some (Identifier ''s''))] (OReturn 7),
     GateCase ''for accumulates''
       ''u32 s = 0; for (u32 i = 0; i < 5; i = i + 1) { s = s + i; } return s;''
       [VariableDeclaration [Declarator U32 ''s'' (Some (Literal 0))], ForStatement (Some (InitDecl
        [Declarator U32 ''i'' (Some (Literal 0))])) (Some (BinaryExpression Less (Identifier ''i'')
        (Literal 5))) (Some (AssignmentExpression Assign ''i'' (BinaryExpression Plus (Identifier ''i'')
        (Literal 1)))) (BlockStatement [ExpressionStatement (AssignmentExpression Assign ''s''
        (BinaryExpression Plus (Identifier ''s'') (Identifier ''i'')))]), ReturnStatement (Some (Identifier
        ''s''))] (OReturn 10),
     GateCase ''while counts down''
       ''u32 n = 5; u32 s = 0; while (n) { s = s + n; n = n - 1; } return s;''
       [VariableDeclaration [Declarator U32 ''n'' (Some (Literal 5))], VariableDeclaration [Declarator U32
        ''s'' (Some (Literal 0))], WhileStatement (Identifier ''n'') (BlockStatement [ExpressionStatement
        (AssignmentExpression Assign ''s'' (BinaryExpression Plus (Identifier ''s'') (Identifier ''n''))),
        ExpressionStatement (AssignmentExpression Assign ''n'' (BinaryExpression Minus (Identifier ''n'')
        (Literal 1)))]), ReturnStatement (Some (Identifier ''s''))] (OReturn 15),
     GateCase ''do runs once''
       ''u32 n = 0; u32 s = 0; do { s = s + 1; } while (n); return s;''
       [VariableDeclaration [Declarator U32 ''n'' (Some (Literal 0))], VariableDeclaration [Declarator U32
        ''s'' (Some (Literal 0))], DoWhileStatement (BlockStatement [ExpressionStatement
        (AssignmentExpression Assign ''s'' (BinaryExpression Plus (Identifier ''s'') (Literal 1)))])
        (Identifier ''n''), ReturnStatement (Some (Identifier ''s''))] (OReturn 1),
     GateCase ''break closes a case inside a loop''
       ''u32 s = 0; for (u32 i = 0; i < 3; i = i + 1) { switch (i) { case 0: s = s + 1; break; default: s = s + 10; break; } } return s;''
       [VariableDeclaration [Declarator U32 ''s'' (Some (Literal 0))], ForStatement (Some (InitDecl
        [Declarator U32 ''i'' (Some (Literal 0))])) (Some (BinaryExpression Less (Identifier ''i'')
        (Literal 3))) (Some (AssignmentExpression Assign ''i'' (BinaryExpression Plus (Identifier ''i'')
        (Literal 1)))) (BlockStatement [SwitchStatement (Identifier ''i'') [SwitchCase (Some (Literal 0))
        [ExpressionStatement (AssignmentExpression Assign ''s'' (BinaryExpression Plus (Identifier ''s'')
        (Literal 1))), BreakStatement], SwitchCase None [ExpressionStatement (AssignmentExpression Assign
        ''s'' (BinaryExpression Plus (Identifier ''s'') (Literal 10))), BreakStatement]]]), ReturnStatement
        (Some (Identifier ''s''))] (OReturn 21),
     GateCase ''clz''
       ''u32 x = 1; return clz(x);''
       [VariableDeclaration [Declarator U32 ''x'' (Some (Literal 1))], ReturnStatement (Some
        (CallExpression ''clz'' [Identifier ''x'']))] (OReturn 31),
     GateCase ''clz of zero''
       ''u32 x = 0; return clz(x);''
       [VariableDeclaration [Declarator U32 ''x'' (Some (Literal 0))], ReturnStatement (Some
        (CallExpression ''clz'' [Identifier ''x'']))] (OReturn 32),
     GateCase ''revbits''
       ''u32 x = 1; return revbits(x);''
       [VariableDeclaration [Declarator U32 ''x'' (Some (Literal 1))], ReturnStatement (Some
        (CallExpression ''revbits'' [Identifier ''x'']))] (OReturn 2147483648),
     GateCase ''store then load''
       ''st32(0x10, 0x01020304); return ld32(0x10);''
       [ExpressionStatement (CallExpression ''st32'' [Literal 16, Literal 16909060]), ReturnStatement
        (Some (CallExpression ''ld32'' [Literal 16]))] (OReturn 16909060),
     GateCase ''narrow store widths''
       ''st8(0x20, 0xab); st16(0x30, 0xbeef); return ld8(0x20) + ld16(0x30);''
       [ExpressionStatement (CallExpression ''st8'' [Literal 32, Literal 171]), ExpressionStatement
        (CallExpression ''st16'' [Literal 48, Literal 48879]), ReturnStatement (Some (BinaryExpression Plus
        (CallExpression ''ld8'' [Literal 32]) (CallExpression ''ld16'' [Literal 48])))] (OReturn 49050),
     GateCase ''address masking''
       ''st32(0x3fc, 7); return ld32(0x3fc);''
       [ExpressionStatement (CallExpression ''st32'' [Literal 1020, Literal 7]), ReturnStatement (Some
        (CallExpression ''ld32'' [Literal 1020]))] (OReturn 7),
     GateCase ''unaligned address aligns down''
       ''st32(0x42, 9); return ld32(0x40);''
       [ExpressionStatement (CallExpression ''st32'' [Literal 66, Literal 9]), ReturnStatement (Some
        (CallExpression ''ld32'' [Literal 64]))] (OReturn 9),
     GateCase ''memmove overlapping''
       ''st32(0x10, 0x01020304); memmove(0x10, 0x12, 0x1a); return ld32(0x14);''
       [ExpressionStatement (CallExpression ''st32'' [Literal 16, Literal 16909060]), ExpressionStatement
        (CallExpression ''memmove'' [Literal 16, Literal 18, Literal 26]), ReturnStatement (Some
        (CallExpression ''ld32'' [Literal 20]))] (OReturn 50594564),
     GateCase ''memcmp equal''
       ''st32(0x50, 5); st32(0x60, 5); return memcmp(0x50, 0x54, 0x60);''
       [ExpressionStatement (CallExpression ''st32'' [Literal 80, Literal 5]), ExpressionStatement
        (CallExpression ''st32'' [Literal 96, Literal 5]), ReturnStatement (Some (CallExpression ''memcmp''
        [Literal 80, Literal 84, Literal 96]))] (OReturn 0),
     GateCase ''memcmp differs''
       ''st32(0x50, 0x04030201); st32(0x70, 0x04ff0201); return memcmp(0x50, 0x54, 0x70);''
       [ExpressionStatement (CallExpression ''st32'' [Literal 80, Literal 67305985]), ExpressionStatement
        (CallExpression ''st32'' [Literal 112, Literal 83821057]), ReturnStatement (Some (CallExpression
        ''memcmp'' [Literal 80, Literal 84, Literal 112]))] (OReturn 4294967044),
     GateCase ''slicecmp lengths''
       ''st32(0x80, 1); st32(0x90, 1); return slicecmp(0x80, 0x84, 0x90, 0x93);''
       [ExpressionStatement (CallExpression ''st32'' [Literal 128, Literal 1]), ExpressionStatement
        (CallExpression ''st32'' [Literal 144, Literal 1]), ReturnStatement (Some (CallExpression
        ''slicecmp'' [Literal 128, Literal 132, Literal 144, Literal 147]))] (OReturn 1),
     GateCase ''trap code''
       ''trap(7);''
       [ExpressionStatement (CallExpression ''trap'' [Literal 7])] (OTrap 7),
     GateCase ''trap wraps negative''
       ''trap(-1);''
       [ExpressionStatement (CallExpression ''trap'' [UnaryExpression Negate (Literal 1)])] (OTrap 4294967295),
     GateCase ''conditional trap''
       ''u32 x = 0; if (x == 0) { trap(3); } return 1;''
       [VariableDeclaration [Declarator U32 ''x'' (Some (Literal 0))], IfStatement (BinaryExpression EqEq
        (Identifier ''x'') (Literal 0)) (BlockStatement [ExpressionStatement (CallExpression ''trap''
        [Literal 3])]) None, ReturnStatement (Some (Literal 1))] (OTrap 3)]"

text \<open>A body with no \<^verbatim>\<open>return\<close>: the evaluator refuses to invent an answer.\<close>

datatype fall_case =
  FallCase (fall_label: string) (fall_args: "string list") (fall_source: string) (fall_reading: "stmt list")

definition fall_cases :: "fall_case list" where
  "fall_cases =
    [FallCase ''entry falls off its end, one arg'' [''a''] []
       [],
     FallCase ''entry falls off its end, three args'' [''a'', ''b'', ''c''] []
       [],
     FallCase ''entry falls off a branch'' [''a''] ''if (a > 1000000) { a = 1; }''
       [IfStatement (BinaryExpression Greater (Identifier ''a'') (Literal 1000000)) (BlockStatement
        [ExpressionStatement (AssignmentExpression Assign ''a'' (Literal 1))]) None],
     FallCase ''entry falls off after a store'' [''a'', ''b''] ''st32(16, a);''
       [ExpressionStatement (CallExpression ''st32'' [Literal 16, Identifier ''a''])]]"

subsection \<open>The first gate\<close>

text \<open>What becomes of one row: a failure of the set-up, agreement, or a mismatch; another error ends the script.\<close>

datatype gate_event = GateSetup | GateAgrees | GateMismatch

definition entry_program :: "string list \<Rightarrow> stmt list \<Rightarrow> gen_program" where
  "entry_program args body = [\<lparr>proc_args = args, proc_body = body\<rparr>]"

definition is_unspecified :: "outcome \<Rightarrow> bool" where
  "is_unspecified out \<longleftrightarrow> (case out of OUnspecified u \<Rightarrow> True | _ \<Rightarrow> False)"

definition agreement :: "bool \<Rightarrow> gate_event" where
  "agreement ok = (if ok then GateAgrees else GateMismatch)"

definition run_gate_case :: "'r toolchain \<Rightarrow> gen_program \<Rightarrow> fault + gate_event" where
  "run_gate_case tc gen =
     (case tc_lower tc gen True of
        Inl msg \<Rightarrow> Inr GateSetup
      | Inr rtl \<Rightarrow>
          (case tc_validate tc rtl of
             Inl msg \<Rightarrow> Inr GateSetup
           | Inr st \<Rightarrow>
               (let (ast, box) = ast_run gen [];
                    (answer, vbox) = tc_run tc rtl [] max_steps rawmem_new
                in bindr ast (\<lambda>out.
                   case answer of
                     VmThrew \<Rightarrow> Inl (JsError ''the VM threw'')
                   | VmStepLimit \<Rightarrow> Inl (JsError ''the VM ran out of steps'')
                   | VmUnspecified \<Rightarrow> Inr (agreement (is_unspecified out))
                   | Answered vm \<Rightarrow>
                       if is_unspecified out then Inr GateMismatch
                       else Inr (agreement (diff_outcomes out vm box vbox = DiffAgrees))))))"

definition run_fall_case :: "'r toolchain \<Rightarrow> gen_program \<Rightarrow> fault + gate_event" where
  "run_fall_case tc gen =
     (case tc_lower tc gen True of
        Inl msg \<Rightarrow> Inr GateSetup
      | Inr rtl \<Rightarrow>
          (case tc_validate tc rtl of
             Inl msg \<Rightarrow> Inr GateSetup
           | Inr st \<Rightarrow>
               (case tc_arg_counts tc rtl of
                  [] \<Rightarrow> Inl (JsError ''Cannot read properties of undefined'')
                | arity # _ \<Rightarrow>
                    bindr (fst (ast_run gen (entry_args_for arity))) (\<lambda>out.
                    case fst (tc_run tc rtl (entry_args_for arity) max_steps rawmem_new) of
                      Answered vm \<Rightarrow> Inr (agreement (is_unspecified out))
                    | _ \<Rightarrow> Inl (JsError ''the VM threw'')))))"

definition gate_program :: "(string \<Rightarrow> stmt list) \<Rightarrow> gate_case \<Rightarrow> gen_program" where
  "gate_program ir c = entry_program [] (ir (gate_source c))"

definition fall_program :: "(string \<Rightarrow> stmt list) \<Rightarrow> fall_case \<Rightarrow> gen_program" where
  "fall_program ir c = entry_program (fall_args c) (ir (fall_source c))"

definition eval_check :: "'r toolchain \<Rightarrow> (string \<Rightarrow> stmt list) \<Rightarrow> fault + gate_event list" where
  "eval_check tc ir =
     bindr (map_r (\<lambda>c. run_gate_case tc (gate_program ir c)) gate_cases) (\<lambda>evs.
     bindr (map_r (\<lambda>c. run_fall_case tc (fall_program ir c)) fall_cases) (\<lambda>falls.
     Inr (evs @ falls)))"

text \<open>The exit code 0: no failure.\<close>

definition gate_passes :: "gate_event list \<Rightarrow> bool" where
  "gate_passes evs \<longleftrightarrow> filter (\<lambda>e. e \<noteq> GateAgrees) evs = []"

subsection \<open>The evaluator's answers\<close>

text \<open>
  For evaluation by rewriting: \<open>revbits\<close> stage by stage, and the byte loops in a form that does not look into the
  branch not taken.
\<close>

lemma byte_loops_code [code]:
  "move_bytes dst dst_end src m =
     (case dst < dst_end of
        True \<Rightarrow> move_bytes (Suc dst) dst_end (next_addr src) (m[dst := byte_at m src])
      | False \<Rightarrow> m)"
  "cmp_bytes a a_end b m =
     (case a < a_end of
        True \<Rightarrow> (case byte_at m a \<noteq> byte_at m b of
                    True \<Rightarrow> uint (byte_at m a) - uint (byte_at m b)
                  | False \<Rightarrow> cmp_bytes (Suc a) a_end (next_addr b) m)
      | False \<Rightarrow> 0)"
  "cmp_slices i common a b result m =
     (case i < common of
        True \<Rightarrow> (case byte_at m (a + i) \<noteq> byte_at m (b + i) of
                    True \<Rightarrow> uint (byte_at m (a + i)) - uint (byte_at m (b + i))
                  | False \<Rightarrow> cmp_slices (Suc i) common a b result m)
      | False \<Rightarrow> result)"
  by (subst move_bytes.simps cmp_bytes.simps cmp_slices.simps, simp add: Let_def)+

definition swap_groups :: "nat \<Rightarrow> u32 \<Rightarrow> u32 \<Rightarrow> u32" where
  "swap_groups h c x = push_bit h (x AND c) OR (drop_bit h x AND c)"

definition swap_halves :: "u32 \<Rightarrow> u32" where
  "swap_halves x = push_bit 16 x OR drop_bit 16 x"

lemma revbits_code [code]:
  "revbits x = swap_halves (swap_groups 8 0x00ff00ff (swap_groups 4 0x0f0f0f0f
     (swap_groups 2 0x33333333 (swap_groups 1 0x55555555 x))))"
  by (simp only: revbits_def Let_def swap_groups_def swap_halves_def)

definition answers_in :: "nat \<Rightarrow> gen_program \<Rightarrow> u32 list \<Rightarrow> outcome \<Rightarrow> bool" where
  "answers_in n gen args out \<longleftrightarrow> fst (evaluate (rawmem_config gen n) args rawmem_new) = Inr out"

text \<open>Two hundred steps are enough for each of them, and more change nothing.\<close>

lemma answers_more:
  assumes "answers_in n gen args out" and "out \<noteq> OStepLimit" and "n \<le> max_steps"
  shows "fst (ast_run gen args) = Inr out"
proof -
  have "evaluate ((rawmem_config gen n)\<lparr>cfg_max := cfg_max (rawmem_config gen n) + (max_steps - n)\<rparr>) args rawmem_new
      = evaluate (rawmem_config gen n) args rawmem_new"
    by (rule evaluate_raise_limit) (use assms(1,2) in \<open>simp add: answers_in_def\<close>)
  moreover have "(rawmem_config gen n)\<lparr>cfg_max := cfg_max (rawmem_config gen n) + (max_steps - n)\<rparr> = rawmem_config gen max_steps"
    using assms(3) by (simp add: rawmem_config_def)
  ultimately show ?thesis
    using assms(1) by (simp add: ast_run_def answers_in_def case_prod_beta)
qed

definition row_answers :: "stmt list \<times> outcome \<Rightarrow> bool" where
  "row_answers = (\<lambda>(body, out). answers_in 200 (entry_program [] body) [] out \<and> out \<noteq> OStepLimit)"

definition gate_table :: "(stmt list \<times> outcome) list" where
  "gate_table = map (\<lambda>c. (gate_reading c, gate_answer c)) gate_cases"

lemmas gate_table_unfold = gate_table_def gate_cases_def list.map gate_case.sel

lemma gate_table_1: "list_all row_answers (take 14 gate_table)"
  unfolding gate_table_unfold by code_simp

lemma gate_table_2: "list_all row_answers (take 14 (drop 14 gate_table))"
  unfolding gate_table_unfold by code_simp

lemma gate_table_3: "list_all row_answers (take 14 (drop 28 gate_table))"
  unfolding gate_table_unfold by code_simp

lemma gate_table_4: "list_all row_answers (take 14 (drop 42 gate_table))"
  unfolding gate_table_unfold by code_simp

lemma gate_table_5: "list_all row_answers (take 4 (drop 56 gate_table))"
  unfolding gate_table_unfold by code_simp

lemma gate_table_6: "list_all row_answers (drop 61 gate_table)"
  unfolding gate_table_unfold by code_simp

text \<open>The overlapping move, by its bytes.\<close>

definition stored :: sandbox where
  "stored = rawmem_new[16 := 4, 17 := 3, 18 := 2, 19 := 1]"

definition moved :: sandbox where
  "moved = stored[18 := 4, 19 := 3, 20 := 4, 21 := 3, 22 := 4, 23 := 3, 24 := 4, 25 := 3]"

lemma rawmem_new_nth: "i < 1024 \<Longrightarrow> rawmem_new ! i = 0" "length rawmem_new = 1024"
  by (simp_all add: rawmem_new_def rawmem_bytes_def)

lemma moved_bytes:
  "mem_store rawmem_new 16 16909060 4 = stored" "move_bytes 18 26 16 stored = moved" "mem_load moved 20 4 = 50594564"
  by (simp_all add: mem_store_def mem_load_def mem_at_def addr_mask_def move_bytes.simps next_addr_def nth_default_def
    stored_def moved_def rawmem_new_nth nth_list_update upt_rec)

lemma move_ops:
  "to_upper ''st32'' = ''ST32''" "to_upper ''memmove'' = ''MEMMOVE''" "to_upper ''ld32'' = ''LD32''"
  "rawmem_exec ''ST32'' [] = exec_store 4" "rawmem_exec ''MEMMOVE'' [] = exec_memmove" "rawmem_exec ''LD32'' [] = exec_load 4"
  "''st32'' \<in> set ext_ops" "''memmove'' \<in> set ext_ops" "''ld32'' \<in> set ext_ops"
  "''st32'' \<in> set mem_acc_ops" "''memmove'' \<notin> set mem_acc_ops" "''ld32'' \<in> set mem_acc_ops"
proof -
  show "to_upper ''st32'' = ''ST32''" "to_upper ''memmove'' = ''MEMMOVE''" "to_upper ''ld32'' = ''LD32''" by code_simp+
qed (simp_all add: rawmem_exec_def width_table_def ext_ops_def mem_stack_arity_def mem_acc_ops_def)

definition move_body :: "stmt list" where
  "move_body =
     [ExpressionStatement (CallExpression ''st32'' [Literal 16, Literal 16909060]),
      ExpressionStatement (CallExpression ''memmove'' [Literal 16, Literal 18, Literal 26]),
      ReturnStatement (Some (CallExpression ''ld32'' [Literal 20]))]"

lemma move_answers: "row_answers (move_body, OReturn 50594564)"
proof -
  have num: "to_u32 (numeral k) = numeral k" for k by (simp add: to_u32_def)
  have "fst (evaluate \<lparr>cfg_procs = entry_program [] move_body, cfg_exec = rawmem_exec, cfg_max = 200\<rparr> [] rawmem_new)
      = Inr (OReturn 50594564)"
    by (simp only: entry_program_def move_body_def evaluate_def config.simps run_proc.simps)
      (simp add: tick_def bindc_def getc_def modifyc_def retc_def bind_params_def u32_val_def classify_def ext_call_def
        run_ext_def nth_default_def move_ops num exec_store_def exec_memmove_def pop_addr_def pop_cell_def exec_load_def
        addr_mask_def moved_bytes)
  then show ?thesis by (simp add: row_answers_def answers_in_def rawmem_config_def)
qed

lemma gate_cases_answer: "list_all row_answers gate_table"
proof -
  have "gate_table = take 14 gate_table @ take 14 (drop 14 gate_table) @ take 14 (drop 28 gate_table)
      @ take 14 (drop 42 gate_table) @ take 4 (drop 56 gate_table) @ [gate_table ! 60] @ drop 61 gate_table"
    by (simp add: gate_table_def gate_cases_def)
  moreover have "gate_table ! 60 = (move_body, OReturn 50594564)" by (simp add: gate_table_def gate_cases_def move_body_def)
  ultimately show ?thesis
    using gate_table_1 gate_table_2 gate_table_3 gate_table_4 gate_table_5 gate_table_6 move_answers
    by (metis list_all_append list.pred_inject)
qed

lemma fall_cases_answer:
  "list_all (\<lambda>c. answers_in 200 (entry_program (fall_args c) (fall_reading c)) (entry_args_for (length (fall_args c)))
     (OUnspecified OffTheEnd)) fall_cases"
  by code_simp


subsection \<open>What the gate tests\<close>

definition gate_texts :: "(string \<times> stmt list) list" where
  "gate_texts = map (\<lambda>c. (gate_source c, gate_reading c)) gate_cases @ map (\<lambda>c. (fall_source c, fall_reading c)) (tl fall_cases)"

text \<open>The VM gives an answer on a program, with the buffer the evaluator leaves.\<close>

definition vm_gives :: "'r toolchain \<Rightarrow> gen_program \<Rightarrow> outcome \<Rightarrow> bool" where
  "vm_gives tc gen out \<longleftrightarrow>
     (\<exists>rtl st. tc_lower tc gen True = Inr rtl \<and> tc_validate tc rtl = Inr st
        \<and> (case tc_run tc rtl [] max_steps rawmem_new of
             (VmUnspecified, vbox) \<Rightarrow> is_unspecified out
           | (Answered vm, vbox) \<Rightarrow>
               (case out of OReturn v \<Rightarrow> vm_ok vm \<and> vm_acc vm = v | OTrap c \<Rightarrow> \<not> vm_ok vm \<and> trap_code vm = c | _ \<Rightarrow> False)
               \<and> first_difference 0 (snd (ast_run gen [])) vbox = None
           | _ \<Rightarrow> False))"

definition vm_ends :: "'r toolchain \<Rightarrow> gen_program \<Rightarrow> bool" where
  "vm_ends tc gen \<longleftrightarrow>
     (\<exists>rtl st vm vbox. tc_lower tc gen True = Inr rtl \<and> tc_validate tc rtl = Inr st
        \<and> tc_run tc rtl (entry_args_for (hd (tc_arg_counts tc rtl))) max_steps rawmem_new = (Answered vm, vbox))"

text \<open>What is relied on of lowering: the entry takes as many arguments as it names.\<close>

definition keeps_arity :: "'r toolchain \<Rightarrow> gen_program \<Rightarrow> bool" where
  "keeps_arity tc gen \<longleftrightarrow>
     (\<forall>rtl. tc_lower tc gen True = Inr rtl \<longrightarrow>
        (\<exists>rest. tc_arg_counts tc rtl = length (proc_args (hd gen)) # rest))"

lemma agreement_simps [simp]: "agreement b = GateAgrees \<longleftrightarrow> b"
  by (simp add: agreement_def)

lemma diff_agrees:
  "\<not> is_unspecified out \<Longrightarrow> diff_outcomes out vm box vbox = DiffAgrees \<longleftrightarrow>
     (case out of OReturn v \<Rightarrow> vm_ok vm \<and> vm_acc vm = v | OTrap c \<Rightarrow> \<not> vm_ok vm \<and> trap_code vm = c | _ \<Rightarrow> False)
     \<and> first_difference 0 box vbox = None"
  by (auto simp: diff_outcomes_def is_unspecified_def Let_def split: outcome.splits option.splits)

lemma gate_case_agrees:
  assumes "fst (ast_run gen []) = Inr out"
  shows "run_gate_case tc gen = Inr GateAgrees \<longleftrightarrow> vm_gives tc gen out"
proof -
  obtain box where ast: "ast_run gen [] = (Inr out, box)" using assms by (cases "ast_run gen []") simp
  show ?thesis
    unfolding run_gate_case_def vm_gives_def ast
    by (auto simp: diff_agrees split: sum.split vm_answer.split prod.split) (auto simp: is_unspecified_def split: outcome.splits)
qed

lemma fall_case_agrees:
  assumes "keeps_arity tc gen" and "fst (ast_run gen (entry_args_for (length (proc_args (hd gen))))) = Inr (OUnspecified u)"
  shows "run_fall_case tc gen = Inr GateAgrees \<longleftrightarrow> vm_ends tc gen"
proof (cases "tc_lower tc gen True")
  case (Inr rtl)
  then obtain rest where "tc_arg_counts tc rtl = length (proc_args (hd gen)) # rest"
    using assms(1) by (auto simp: keeps_arity_def)
  with Inr assms(2) show ?thesis
    by (cases "tc_run tc rtl (entry_args_for (length (proc_args (hd gen)))) max_steps rawmem_new")
      (auto simp: run_fall_case_def vm_ends_def is_unspecified_def split: sum.split vm_answer.split prod.split)
qed (simp add: run_fall_case_def vm_ends_def)

lemma map_r_all:
  "(\<exists>ys. map_r f xs = Inr ys \<and> list_all (\<lambda>y. y = c) ys) \<longleftrightarrow> list_all (\<lambda>x. f x = Inr c) xs"
proof (induction xs)
  case (Cons x xs)
  then show ?case by (cases "f x"; cases "map_r f xs") (auto simp: bindr_eq_Inr)
qed simp

text \<open>The rows as read, and what the evaluator makes of them.\<close>

lemma gate_case_runs:
  assumes "reads_table gate_texts ir" and c: "c \<in> set gate_cases"
  shows "fst (ast_run (gate_program ir c) []) = Inr (gate_answer c)"
proof -
  have "ir (gate_source c) = gate_reading c"
    by (rule reads_tableD [OF assms(1)]) (use c in \<open>auto simp: gate_texts_def\<close>)
  moreover have "row_answers (gate_reading c, gate_answer c)"
    using gate_cases_answer c by (auto simp: gate_table_def list_all_iff)
  ultimately show ?thesis
    using answers_more [of 200] by (simp add: row_answers_def max_steps_def gate_program_def)
qed

lemma fall_case_runs:
  assumes "reads_table gate_texts ir" and c: "c \<in> set fall_cases"
  shows "fst (ast_run (fall_program ir c) (entry_args_for (length (proc_args (hd (fall_program ir c)))))) = Inr (OUnspecified OffTheEnd)"
proof -
  have "ir (fall_source c) = fall_reading c"
    by (rule reads_tableD [OF assms(1)]) (use c in \<open>auto simp: gate_texts_def fall_cases_def\<close>)
  moreover have "answers_in 200 (entry_program (fall_args c) (fall_reading c)) (entry_args_for (length (fall_args c))) (OUnspecified OffTheEnd)"
    using fall_cases_answer c by (simp add: list_all_iff)
  ultimately show ?thesis
    using answers_more [of 200] by (simp add: max_steps_def fall_program_def entry_program_def)
qed

text \<open>
  C14. What the evaluator's gate tests. If mog-core's parser reads the texts of the two tables as the trees beside
  them and lowering keeps the arity of an entry, \<^verbatim>\<open>eval_check.ts\<close> exits with 0 exactly when every program is
  lowered and accepted by the validator, the reference VM gives on each of the 67 cases the answer its row states,
  leaving the buffer as the evaluator does, and runs to an end on each of the four that fall off their entry.
\<close>

theorem eval_check_pins:
  assumes "reads_table gate_texts ir"
    and "list_all (\<lambda>c. keeps_arity tc (fall_program ir c)) fall_cases"
  shows "(\<exists>evs. eval_check tc ir = Inr evs \<and> gate_passes evs) \<longleftrightarrow>
    list_all (\<lambda>c. vm_gives tc (gate_program ir c) (gate_answer c)) gate_cases
    \<and> list_all (\<lambda>c. vm_ends tc (fall_program ir c)) fall_cases"
proof -
  have g: "run_gate_case tc (gate_program ir c) = Inr GateAgrees \<longleftrightarrow> vm_gives tc (gate_program ir c) (gate_answer c)"
    if c: "c \<in> set gate_cases" for c
    by (rule gate_case_agrees [OF gate_case_runs [OF assms(1) c]])
  have f: "run_fall_case tc (fall_program ir c) = Inr GateAgrees \<longleftrightarrow> vm_ends tc (fall_program ir c)"
    if c: "c \<in> set fall_cases" for c
    by (rule fall_case_agrees [OF _ fall_case_runs [OF assms(1) c]]) (use assms(2) c in \<open>simp add: list_all_iff\<close>)
  have "(\<exists>evs. eval_check tc ir = Inr evs \<and> gate_passes evs) \<longleftrightarrow>
      (\<exists>as. map_r (\<lambda>c. run_gate_case tc (gate_program ir c)) gate_cases = Inr as \<and> list_all (\<lambda>y. y = GateAgrees) as)
      \<and> (\<exists>bs. map_r (\<lambda>c. run_fall_case tc (fall_program ir c)) fall_cases = Inr bs \<and> list_all (\<lambda>y. y = GateAgrees) bs)"
    by (auto simp: eval_check_def gate_passes_def bindr_eq_Inr list_all_iff filter_empty_conv)
  also have "\<dots> \<longleftrightarrow> list_all (\<lambda>c. run_gate_case tc (gate_program ir c) = Inr GateAgrees) gate_cases
      \<and> list_all (\<lambda>c. run_fall_case tc (fall_program ir c) = Inr GateAgrees) fall_cases"
    by (simp only: map_r_all)
  also have "\<dots> \<longleftrightarrow> list_all (\<lambda>c. vm_gives tc (gate_program ir c) (gate_answer c)) gate_cases
      \<and> list_all (\<lambda>c. vm_ends tc (fall_program ir c)) fall_cases"
    using g f by (simp add: list_all_iff)
  finally show ?thesis .
qed

text \<open>A VM that is the evaluator, behind a lowering that leaves a program as it is.\<close>

definition echo_answer :: "outcome \<Rightarrow> vm_answer" where
  "echo_answer out =
     (case out of
        OReturn v \<Rightarrow> Answered \<lparr>vm_ok = True, vm_acc_live = True, vm_acc = v, vm_trap_code = None\<rparr>
      | OTrap c \<Rightarrow> Answered \<lparr>vm_ok = False, vm_acc_live = False, vm_acc = 0, vm_trap_code = Some c\<rparr>
      | OUnspecified (ShiftBy n) \<Rightarrow> VmUnspecified
      | OUnspecified OffTheEnd \<Rightarrow> Answered \<lparr>vm_ok = True, vm_acc_live = False, vm_acc = 0, vm_trap_code = None\<rparr>
      | OStepLimit \<Rightarrow> VmStepLimit)"

definition echo_toolchain :: "gen_program toolchain" where
  "echo_toolchain = (sample_toolchain (sample_answer 0))
     \<lparr>tc_lower := (\<lambda>gen verify. Inr gen), tc_validate := (\<lambda>rtl. Inr \<lparr>total_depth = 1, max_call_depth = 1\<rparr>),
      tc_arg_counts := (\<lambda>rtl. [length (proc_args (hd rtl))]),
      tc_run := (\<lambda>rtl args n m. case ast_run rtl args of
        (Inr out, box) \<Rightarrow> (echo_answer out, box) | (Inl e, box) \<Rightarrow> (VmThrew, box))\<rparr>"

lemma gate_texts_distinct: "distinct (map fst gate_texts)"
  by (simp add: gate_texts_def gate_cases_def fall_cases_def)

lemma first_difference_same: "first_difference k xs xs = None"
  by (induction xs arbitrary: k) simp_all

lemma echo_gives:
  assumes "fst (ast_run gen []) = Inr out" and "\<not> out = OStepLimit \<and> \<not> out = OUnspecified OffTheEnd"
  shows "vm_gives echo_toolchain gen out"
proof -
  obtain box where "ast_run gen [] = (Inr out, box)" using assms(1) by (cases "ast_run gen []") simp
  with assms(2) show ?thesis
    by (auto simp: vm_gives_def echo_toolchain_def echo_answer_def is_unspecified_def first_difference_same trap_code_def
      split: outcome.splits unspec.splits)
qed

lemma echo_ends:
  assumes "fst (ast_run gen (entry_args_for (length (proc_args (hd gen))))) = Inr (OUnspecified OffTheEnd)"
  shows "vm_ends echo_toolchain gen"
  using assms by (cases "ast_run gen (entry_args_for (length (proc_args (hd gen))))")
    (simp add: vm_ends_def echo_toolchain_def echo_answer_def)

lemma eval_check_pins_witness:
  "\<exists>evs. eval_check echo_toolchain (parser_of gate_texts) = Inr evs \<and> gate_passes evs"
proof -
  let ?ir = "parser_of gate_texts"
  have ir: "reads_table gate_texts ?ir" by (rule parser_of_reads [OF gate_texts_distinct])
  have ar: "list_all (\<lambda>c. keeps_arity echo_toolchain (fall_program ?ir c)) fall_cases"
    by (simp add: list_all_iff keeps_arity_def echo_toolchain_def)
  have "list_all (\<lambda>c. \<not> gate_answer c = OStepLimit \<and> \<not> gate_answer c = OUnspecified OffTheEnd) gate_cases"
    by (simp add: gate_cases_def)
  then have "list_all (\<lambda>c. vm_gives echo_toolchain (gate_program ?ir c) (gate_answer c)) gate_cases"
    using echo_gives gate_case_runs [OF ir] by (auto simp: list_all_iff)
  moreover have "list_all (\<lambda>c. vm_ends echo_toolchain (fall_program ?ir c)) fall_cases"
    using echo_ends fall_case_runs [OF ir] by (auto simp: list_all_iff)
  ultimately show ?thesis using eval_check_pins [OF ir ar] by blast
qed

end
