(* ===== verification/Ub_Check.thy ===== *)
theory Ub_Check
  imports Order_Free Readings Mutate_Filter
begin

section \<open>Calibration of the unsequenced-effect filter\<close>

text \<open>
  \<^verbatim>\<open>gen/ub_check.ts\<close>: ten programs the filter has to refuse, ten it has to let through, and a pair whose operands
  are calls of procedures that touch the extension's memory, and that do not. Each text stands beside the tree it
  denotes; the parser is the parameter \<open>ir\<close>.
\<close>

subsection \<open>The tables\<close>

datatype ub_case = UbCase (ub_label: string) (ub_source: string) (ub_reading: "stmt list")

definition unsequenced_cases :: "ub_case list" where
  "unsequenced_cases =
    [UbCase ''write racing a read''
       ''u32 x = 1; return x + (x = 3);''
       [VariableDeclaration [Declarator U32 ''x'' (Some (Literal 1))], ReturnStatement (Some
        (BinaryExpression Plus (Identifier ''x'') (AssignmentExpression Assign ''x'' (Literal 3))))],
     UbCase ''two writes to one name''
       ''u32 x = 1; return (x = 1) + (x = 2);''
       [VariableDeclaration [Declarator U32 ''x'' (Some (Literal 1))], ReturnStatement (Some
        (BinaryExpression Plus (AssignmentExpression Assign ''x'' (Literal 1)) (AssignmentExpression Assign
        ''x'' (Literal 2))))],
     UbCase ''postfix update racing a read''
       ''u32 x = 1; return x + x++;''
       [VariableDeclaration [Declarator U32 ''x'' (Some (Literal 1))], ReturnStatement (Some
        (BinaryExpression Plus (Identifier ''x'') (UpdateExpression Incr False (Identifier ''x''))))],
     UbCase ''two updates''
       ''u32 x = 1; return x++ + x++;''
       [VariableDeclaration [Declarator U32 ''x'' (Some (Literal 1))], ReturnStatement (Some
        (BinaryExpression Plus (UpdateExpression Incr False (Identifier ''x'')) (UpdateExpression Incr
        False (Identifier ''x''))))],
     UbCase ''memory read racing a write''
       ''return ld32(0) + st32(4, 1);''
       [ReturnStatement (Some (BinaryExpression Plus (CallExpression ''ld32'' [Literal 0]) (CallExpression
        ''st32'' [Literal 4, Literal 1])))],
     UbCase ''two memory writes''
       ''return st32(0, 1) + st32(4, 2);''
       [ReturnStatement (Some (BinaryExpression Plus (CallExpression ''st32'' [Literal 0, Literal 1])
        (CallExpression ''st32'' [Literal 4, Literal 2])))],
     UbCase ''unsequenced call arguments''
       ''u32 x = 1; st32(x++, x); return x;''
       [VariableDeclaration [Declarator U32 ''x'' (Some (Literal 1))], ExpressionStatement (CallExpression
        ''st32'' [UpdateExpression Incr False (Identifier ''x''), Identifier ''x'']), ReturnStatement (Some
        (Identifier ''x''))],
     UbCase ''compare racing a store''
       ''return memcmp(0, 4, 8) + st32(0, 1);''
       [ReturnStatement (Some (BinaryExpression Plus (CallExpression ''memcmp'' [Literal 0, Literal 4,
        Literal 8]) (CallExpression ''st32'' [Literal 0, Literal 1])))],
     UbCase ''write under a cast''
       ''u32 x = 1; return u8(x) + (x = 2);''
       [VariableDeclaration [Declarator U32 ''x'' (Some (Literal 1))], ReturnStatement (Some
        (BinaryExpression Plus (CastExpression U8 (Identifier ''x'')) (AssignmentExpression Assign ''x''
        (Literal 2))))],
     UbCase ''nested deeper''
       ''u32 x = 1; return (1 + (2 * x)) - (x = 9);''
       [VariableDeclaration [Declarator U32 ''x'' (Some (Literal 1))], ReturnStatement (Some
        (BinaryExpression Minus (BinaryExpression Plus (Literal 1) (BinaryExpression Times (Literal 2)
        (Identifier ''x''))) (AssignmentExpression Assign ''x'' (Literal 9))))]]"

definition sequenced_cases :: "ub_case list" where
  "sequenced_cases =
    [UbCase ''pure operands''
       ''return a + b;''
       [ReturnStatement (Some (BinaryExpression Plus (Identifier ''a'') (Identifier ''b'')))],
     UbCase ''two memory reads''
       ''return ld32(0) + ld32(4);''
       [ReturnStatement (Some (BinaryExpression Plus (CallExpression ''ld32'' [Literal 0]) (CallExpression
        ''ld32'' [Literal 4])))],
     UbCase ''logical and''
       ''u32 x = 1; return a && (x = 1);''
       [VariableDeclaration [Declarator U32 ''x'' (Some (Literal 1))], ReturnStatement (Some
        (LogicalExpression AndAnd (Identifier ''a'') (AssignmentExpression Assign ''x'' (Literal 1))))],
     UbCase ''logical or''
       ''u32 x = 1; return a || (x = 1);''
       [VariableDeclaration [Declarator U32 ''x'' (Some (Literal 1))], ReturnStatement (Some
        (LogicalExpression OrOr (Identifier ''a'') (AssignmentExpression Assign ''x'' (Literal 1))))],
     UbCase ''ternary arms''
       ''u32 x = 1; return a ? x++ : x;''
       [VariableDeclaration [Declarator U32 ''x'' (Some (Literal 1))], ReturnStatement (Some
        (ConditionalExpression (Identifier ''a'') (UpdateExpression Incr False (Identifier ''x''))
        (Identifier ''x'')))],
     UbCase ''ternary test against an arm''
       ''u32 x = 1; return (x = 1) ? x : 0;''
       [VariableDeclaration [Declarator U32 ''x'' (Some (Literal 1))], ReturnStatement (Some
        (ConditionalExpression (AssignmentExpression Assign ''x'' (Literal 1)) (Identifier ''x'') (Literal
        0)))],
     UbCase ''statement boundary''
       ''u32 x = 1; x = 2; return x + 1;''
       [VariableDeclaration [Declarator U32 ''x'' (Some (Literal 1))], ExpressionStatement
        (AssignmentExpression Assign ''x'' (Literal 2)), ReturnStatement (Some (BinaryExpression Plus
        (Identifier ''x'') (Literal 1)))],
     UbCase ''assignment reading its own target''
       ''u32 x = 1; x += a; return x;''
       [VariableDeclaration [Declarator U32 ''x'' (Some (Literal 1))], ExpressionStatement
        (AssignmentExpression (Compound Plus) ''x'' (Identifier ''a'')), ReturnStatement (Some (Identifier
        ''x''))],
     UbCase ''store then load''
       ''st32(0, a); return ld32(0);''
       [ExpressionStatement (CallExpression ''st32'' [Literal 0, Identifier ''a'']), ReturnStatement (Some
        (CallExpression ''ld32'' [Literal 0]))],
     UbCase ''one effect only''
       ''u32 x = 1; return b + (x = 3);''
       [VariableDeclaration [Declarator U32 ''x'' (Some (Literal 1))], ReturnStatement (Some
        (BinaryExpression Plus (Identifier ''b'') (AssignmentExpression Assign ''x'' (Literal 3))))]]"


subsection \<open>The gate\<close>

text \<open>\<^verbatim>\<open>one\<close>, with its default arguments; the two programs of three procedures.\<close>

definition one_program :: "(string \<Rightarrow> stmt list) \<Rightarrow> string \<Rightarrow> gen_program" where
  "one_program ir source = [\<lparr>proc_args = [''a'', ''b''], proc_body = ir source\<rparr>]"

definition cross_texts :: "(string \<times> stmt list) list" where
  "cross_texts =
     [(''return p1() + p2();'',
       [ReturnStatement (Some (BinaryExpression Plus (CallExpression ''p1'' []) (CallExpression ''p2'' [])))]),
      (''st32(0, 1); return 1;'',
       [ExpressionStatement (CallExpression ''st32'' [Literal 0, Literal 1]), ReturnStatement (Some (Literal 1))]),
      (''return ld32(0);'', [ReturnStatement (Some (CallExpression ''ld32'' [Literal 0]))]),
      (''return 1;'', [ReturnStatement (Some (Literal 1))]),
      (''return 2;'', [ReturnStatement (Some (Literal 2))])]"

definition cross_proc :: "(string \<Rightarrow> stmt list) \<Rightarrow> gen_program" where
  "cross_proc ir =
     [\<lparr>proc_args = [''a''], proc_body = ir ''return p1() + p2();''\<rparr>,
      \<lparr>proc_args = [], proc_body = ir ''st32(0, 1); return 1;''\<rparr>,
      \<lparr>proc_args = [], proc_body = ir ''return ld32(0);''\<rparr>]"

definition cross_proc_pure :: "(string \<Rightarrow> stmt list) \<Rightarrow> gen_program" where
  "cross_proc_pure ir =
     [\<lparr>proc_args = [''a''], proc_body = ir ''return p1() + p2();''\<rparr>,
      \<lparr>proc_args = [], proc_body = ir ''return 1;''\<rparr>,
      \<lparr>proc_args = [], proc_body = ir ''return 2;''\<rparr>]"

text \<open>A line of the report, and the run: the failures in the order they are printed, or the error a print threw.\<close>

datatype ub_line = Missed string | Flagged string string

definition ub_missed :: "recurse \<Rightarrow> string \<Rightarrow> gen_program \<Rightarrow> string + ub_line list" where
  "ub_missed kids label gen =
     bindr (analyze kids gen) (\<lambda>r. Inr (case r of None \<Rightarrow> [Missed label] | Some site \<Rightarrow> []))"

definition ub_flagged :: "recurse \<Rightarrow> string \<Rightarrow> gen_program \<Rightarrow> string + ub_line list" where
  "ub_flagged kids label gen =
     bindr (analyze kids gen) (\<lambda>r. Inr (case r of None \<Rightarrow> [] | Some site \<Rightarrow> [Flagged label site]))"

definition ub_check :: "recurse \<Rightarrow> (string \<Rightarrow> stmt list) \<Rightarrow> string + ub_line list" where
  "ub_check kids ir =
     bindr (map_r (\<lambda>c. ub_missed kids (ub_label c) (one_program ir (ub_source c))) unsequenced_cases) (\<lambda>missed.
     bindr (map_r (\<lambda>c. ub_flagged kids (ub_label c) (one_program ir (ub_source c))) sequenced_cases) (\<lambda>flagged.
     bindr (ub_missed kids ''callee memory effects across two operands'' (cross_proc ir)) (\<lambda>cross.
     bindr (ub_flagged kids ''two pure callees'' (cross_proc_pure ir)) (\<lambda>pure.
     Inr (concat missed @ concat flagged @ cross @ pure)))))"

text \<open>\<^verbatim>\<open>process.exit(failures === 0 ? 0 : 1)\<close>.\<close>

definition ub_exit :: "ub_line list \<Rightarrow> nat" where
  "ub_exit lines = (if lines = [] then 0 else 1)"


subsection \<open>Its verdicts\<close>

text \<open>An expression that prints is refused by its text.\<close>

definition site_text :: "expr \<Rightarrow> string" where
  "site_text e = (case print_expr e of Inl msg \<Rightarrow> msg | Inr t \<Rightarrow> t)"

lemma unsequenced_site:
  assumes "legal_expr (\<lambda>_ _. True) UNIV e"
  shows "unsequenced e = Unsequenced (site_text e)"
proof -
  obtain t where "print_expr e = Inr t" using legal_prints [OF assms] by blast
  then show ?thesis by (simp add: unsequenced_def site_text_def)
qed

lemmas effect_ops =
  conflict_def intersects_def no_effects_def union_effects_def join_effects_def stronger_mem_def touches_def
  call_effects_def mem_read_ops_def mem_write_ops_def pure_ops_def

lemmas legality = no_division_def division_def word_range_def

definition refused :: "stmt list \<Rightarrow> bool" where
  "refused body \<longleftrightarrow> (\<exists>site. analyze operands [\<lparr>proc_args = [''a'', ''b''], proc_body = body\<rparr>] = Inr (Some site))"

lemma refused_body:
  assumes "\<And>sums. analyze_body sums body = Inl (Unsequenced site)"
  shows "refused body"
  by (simp add: refused_def analyze_def summarize_def summarize_proc_def assms)

lemma unsequenced_refused:
  "list_all (\<lambda>c. \<exists>site. \<forall>sums. analyze_body sums (ub_reading c) = Inl (Unsequenced site)) unsequenced_cases"
  unfolding unsequenced_cases_def list.pred_inject ub_case.sel
  by (intro conjI TrueI exI allI;
    simp add: analyze_body_def each_of.simps opt_list_def decl_inits_def effect_ops unsequenced_site legality)

lemma sequenced_passed:
  "list_all (\<lambda>c. analyze operands [\<lparr>proc_args = [''a'', ''b''], proc_body = ub_reading c\<rparr>] = Inr None) sequenced_cases"
  by code_simp

definition ub_texts :: "(string \<times> stmt list) list" where
  "ub_texts = map (\<lambda>c. (ub_source c, ub_reading c)) (unsequenced_cases @ sequenced_cases) @ cross_texts"

lemma ub_case_reads:
  assumes "reads_table ub_texts ir" and "c \<in> set unsequenced_cases \<union> set sequenced_cases"
  shows "ir (ub_source c) = ub_reading c"
  by (rule reads_tableD [OF assms(1)]) (use assms(2) in \<open>auto simp: ub_texts_def\<close>)

lemma cross_reads:
  assumes "reads_table ub_texts ir" and "(text, body) \<in> set cross_texts"
  shows "ir text = body"
  by (rule reads_tableD [OF assms(1)]) (use assms(2) in \<open>auto simp: ub_texts_def\<close>)

lemma cross_analysed:
  assumes "reads_table ub_texts ir"
  shows "analyze operands (cross_proc ir) = Inr (Some ''p1() + p2()'')" "analyze operands (cross_proc_pure ir) = Inr None"
proof -
  have same: "cross_proc ir = cross_proc (parser_of cross_texts)" "cross_proc_pure ir = cross_proc_pure (parser_of cross_texts)"
    by (simp_all add: cross_proc_def cross_proc_pure_def cross_reads [OF assms] cross_texts_def parser_of_def)
  show "analyze operands (cross_proc ir) = Inr (Some ''p1() + p2()'')" "analyze operands (cross_proc_pure ir) = Inr None"
    unfolding same by code_simp+
qed

lemma map_r_const: "(\<And>x. x \<in> set xs \<Longrightarrow> f x = Inr c) \<Longrightarrow> map_r f xs = Inr (map (\<lambda>x. c) xs)"
  by (induction xs) simp_all

text \<open>
  C32. The filter against its own table. If the traversal hook is a walker and mog-core's parser reads the texts as
  the trees beside them, \<^verbatim>\<open>ub_check.ts\<close> reports nothing and exits with 0: each of the ten racing programs and the
  pair of memory-touching callees are refused, none of the ten sequenced programs and the pair of pure callees is.
\<close>

theorem ub_check_passes:
  assumes "walker kids" and "reads_table ub_texts ir"
  shows "ub_check kids ir = Inr [] \<and> map_sum id ub_exit (ub_check kids ir) = Inr 0"
proof -
  have "ub_missed kids (ub_label c) (one_program ir (ub_source c)) = Inr []" if c: "c \<in> set unsequenced_cases" for c
  proof -
    obtain site where "\<And>sums. analyze_body sums (ub_reading c) = Inl (Unsequenced site)"
      using unsequenced_refused c by (auto simp: list_all_iff)
    from refused_body [OF this] show ?thesis
      using ub_case_reads [OF assms(2)] c by (auto simp: ub_missed_def analyze_walker [OF assms(1)] refused_def one_program_def)
  qed
  moreover have "ub_flagged kids (ub_label c) (one_program ir (ub_source c)) = Inr []" if c: "c \<in> set sequenced_cases" for c
    using sequenced_passed ub_case_reads [OF assms(2)] c
    by (auto simp: list_all_iff ub_flagged_def analyze_walker [OF assms(1)] one_program_def)
  ultimately have "ub_check kids ir = Inr []"
    by (simp add: ub_check_def map_r_const ub_missed_def [of _ _ "cross_proc ir"] ub_flagged_def [of _ _ "cross_proc_pure ir"]
      analyze_walker [OF assms(1)] cross_analysed [OF assms(2)])
  then show ?thesis by (simp add: ub_exit_def)
qed

lemma ub_texts_distinct: "distinct (map fst ub_texts)"
  by (simp add: ub_texts_def unsequenced_cases_def sequenced_cases_def cross_texts_def)

lemma ub_check_passes_witness: "ub_check operands (parser_of ub_texts) = Inr []"
  using ub_check_passes [OF operand_walk.walker_axioms parser_of_reads [OF ub_texts_distinct]] by (rule conjunct1)

end
