(* ===== verification/Frame.thy ===== *)
theory Frame
  imports Campaign
begin

section \<open>The frame lane (\<^verbatim>\<open>fuzz/ts/frame.ts\<close>)\<close>

text \<open>
  The last two bytes of a program bind it to the validator that passed it, and the target tests them before it reads
  anything else (\<^verbatim>\<open>programFrameOk\<close> of \<^verbatim>\<open>src/runtime/program_frame.h\<close>). The lane damages encoded mutants in seven
  ways, leaves out those the damage did not change and those whose frame still verifies, runs the others on the target
  and requires of each the answer \<open>RESOURCE_PROGRAM_FRAME\<close>. The producer's hash and the frame's size are mog-core's,
  hence a parameter \<open>framing\<close>; the target's own are modelled. Reading options and printing the report are left out.
\<close>

subsection \<open>The target's test\<close>

definition program_frame_seed :: u32 where
  "program_frame_seed = 0x811c9dc5 XOR 3"

definition frame_step :: "u32 \<Rightarrow> u8 \<Rightarrow> u32" where
  "frame_step h b = (h XOR ucast b) * 0x01000193"

definition program_frame_hash :: "u8 list \<Rightarrow> u16" where
  "program_frame_hash bs = (let h = foldl frame_step program_frame_seed bs in ucast (drop_bit 16 h XOR h))"

text \<open>The stored value follows the payload, low byte first.\<close>

definition stored_frame :: "u8 \<Rightarrow> u8 \<Rightarrow> u16" where
  "stored_frame lo hi = ucast lo OR push_bit 8 (ucast hi)"

definition program_frame_ok :: "u8 list \<Rightarrow> bool" where
  "program_frame_ok bs \<longleftrightarrow> 2 < length bs
     \<and> program_frame_hash (take (length bs - 2) bs) = stored_frame (bs ! (length bs - 2)) (bs ! (length bs - 1))"

text \<open>The number \<^verbatim>\<open>test_executor.cpp\<close> holds the producer to.\<close>

lemma frame_hash_vector: "program_frame_hash [0, 0, 1, 0, 0x80, 102] = 0x369c"
  by code_simp

subsection \<open>The host's test\<close>

record framing =
  frame_bytes :: nat
  frame_hash :: "u8 list \<Rightarrow> nat \<Rightarrow> int"

definition frame_valid :: "framing \<Rightarrow> u8 list \<Rightarrow> bool" where
  "frame_valid fr b =
     (if length b \<le> frame_bytes fr then False
      else let payload_end = length b - frame_bytes fr
           in uint (stored_frame (nth_default 0 b payload_end) (nth_default 0 b (payload_end + 1)))
                = frame_hash fr b payload_end)"

subsection \<open>Damage\<close>

text \<open>A read or a write outside a \<^verbatim>\<open>Buffer\<close> yields \<^verbatim>\<open>undefined\<close>, zero to the bit operators, or nothing.\<close>

definition peek :: "u8 list \<Rightarrow> int \<Rightarrow> u8" where
  "peek b i = (if 0 \<le> i \<and> i < int (length b) then b ! nat i else 0)"

definition poke :: "u8 list \<Rightarrow> int \<Rightarrow> u8 \<Rightarrow> u8 list" where
  "poke b i v = (if 0 \<le> i \<and> i < int (length b) then b[nat i := v] else b)"

definition flip_bit_at :: "u8 list \<Rightarrow> int \<Rightarrow> int \<Rightarrow> u8 list" where
  "flip_bit_at b i k = poke b i (peek b i XOR push_bit (nat k) 1)"

type_synonym damage = "framing \<Rightarrow> u8 list \<Rightarrow> u8 list draw"

definition payload_index :: "framing \<Rightarrow> u8 list \<Rightarrow> int draw" where
  "payload_index fr b = rng_int (max 1 (int (length b) - int (frame_bytes fr)))"

definition flip_payload :: damage where
  "flip_payload fr b =
     bindc (payload_index fr b) (\<lambda>i. bindc (rng_int 8) (\<lambda>k. retc (flip_bit_at b i k)))"

definition overwrite_byte :: damage where
  "overwrite_byte fr b =
     bindc (payload_index fr b) (\<lambda>i. bindc (rng_int 256) (\<lambda>v. retc (poke b i (word_of_int v))))"

definition flip_frame :: damage where
  "flip_frame fr b =
     bindc (rng_int (int (frame_bytes fr))) (\<lambda>j. bindc (rng_int 8) (\<lambda>k.
     retc (flip_bit_at b (int (length b) - int (frame_bytes fr) + j) k)))"

definition truncated :: damage where
  "truncated fr b = bindc (rng_int 3) (\<lambda>j. retc (take (nat (max 1 (int (length b) - 1 - j))) b))"

definition extended :: damage where
  "extended fr b =
     bindc (rng_int 256) (\<lambda>x. bindc (rng_int 256) (\<lambda>y. bindc (rng_int 2) (\<lambda>n.
     retc (b @ take (1 + nat n) [word_of_int x, word_of_int y]))))"

definition bytes_swapped :: damage where
  "bytes_swapped fr b =
     (if length b < 3 then retc b
      else bindc (rng_int (int (length b) - 2)) (\<lambda>i. retc (swap_at (nat i) (nat i + 1) b)))"

definition frame_zeroed :: damage where
  "frame_zeroed fr b = retc (poke (poke b (int (length b) - 2) 0) (int (length b) - 1) 0)"

definition damages :: "(string \<times> damage) list" where
  "damages =
     [(''bit flip in the payload'', flip_payload),
      (''byte overwritten'', overwrite_byte),
      (''bit flip in the frame'', flip_frame),
      (''truncated'', truncated),
      (''extended'', extended),
      (''two bytes swapped'', bytes_swapped),
      (''frame zeroed'', frame_zeroed)]"

subsection \<open>The queue\<close>

record damaged =
  dmg_bytes :: "u8 list"
  dmg_args :: "u32 list"
  dmg_name :: string
  dmg_entry :: string
  dmg_seed :: int

text \<open>What became of one damage: a count of \<^verbatim>\<open>noDamage\<close> or of \<^verbatim>\<open>collisions\<close>, or an element of \<^verbatim>\<open>queued\<close>.\<close>

datatype fate = NoDamage string | Collision string | Queued damaged

definition fate_of :: "framing \<Rightarrow> u8 list \<Rightarrow> nat \<Rightarrow> string \<Rightarrow> int \<Rightarrow> string \<Rightarrow> u8 list \<Rightarrow> fate" where
  "fate_of fr bytes arg_count entry seed name out =
     (if out = bytes then NoDamage name
      else if frame_valid fr out then Collision name
      else Queued \<lparr>dmg_bytes = out, dmg_args = entry_args_for arg_count, dmg_name = name, dmg_entry = entry, dmg_seed = seed\<rparr>)"

fun damage_all :: "framing \<Rightarrow> u8 list \<Rightarrow> nat \<Rightarrow> string \<Rightarrow> int \<Rightarrow> (string \<times> damage) list \<Rightarrow> fate list draw" where
  "damage_all fr bytes arg_count entry seed [] = retc []"
| "damage_all fr bytes arg_count entry seed ((name, d) # ds) =
     bindc (d fr bytes) (\<lambda>out.
     bindc (damage_all fr bytes arg_count entry seed ds) (\<lambda>fates.
     retc (fate_of fr bytes arg_count entry seed name out # fates)))"

text \<open>The \<^verbatim>\<open>try\<close>: the bytes and the arity of a base, \<open>None\<close> where it throws or the size is out of range.\<close>

definition encoded_base :: "'r toolchain \<Rightarrow> gen_program \<Rightarrow> (u8 list \<times> nat) option" where
  "encoded_base tc gen =
     (case tc_lower tc gen False of
        Inl msg \<Rightarrow> None
      | Inr rtl \<Rightarrow>
          (case tc_validate tc rtl of
             Inl msg \<Rightarrow> None
           | Inr st \<Rightarrow>
               (case tc_encode tc rtl of
                  Inl msg \<Rightarrow> None
                | Inr bytes \<Rightarrow>
                    (case tc_arg_counts tc rtl of
                       [] \<Rightarrow> None
                     | arg_count # _ \<Rightarrow>
                         if bytes = [] \<or> length bytes > program_max - 4 then None else Some (bytes, arg_count)))))"

definition frame_round ::
  "framing \<Rightarrow> 'r toolchain \<Rightarrow> map_over \<Rightarrow> recurse \<Rightarrow> (string \<times> gen_program) list \<Rightarrow> int \<Rightarrow> nat \<Rightarrow> string + fate list" where
  "frame_round fr tc map_over kids seeds seed i =
     (case nth_opt seeds (i mod length seeds) of
        None \<Rightarrow> Inl ''Cannot read properties of undefined''
      | Some entry \<Rightarrow>
          bindr (mutate_sequenced map_over kids (snd entry) (seed + int i) None []) (\<lambda>mutant.
          case Option.bind mutant (encoded_base tc) of
            None \<Rightarrow> Inr []
          | Some (bytes, arg_count) \<Rightarrow>
              fst (damage_all fr bytes arg_count (fst entry) (seed + int i) damages (rng_new (seed + int i)))))"

definition frame_fates ::
  "framing \<Rightarrow> 'r toolchain \<Rightarrow> map_over \<Rightarrow> recurse \<Rightarrow> (string \<times> gen_program) list \<Rightarrow> int \<Rightarrow> nat \<Rightarrow> string + fate list" where
  "frame_fates fr tc map_over kids seeds seed n =
     map_sum id concat (map_r (frame_round fr tc map_over kids seeds seed) [0 ..< n])"

definition queued :: "fate list \<Rightarrow> damaged list" where
  "queued fates = concat (map (\<lambda>f. case f of Queued d \<Rightarrow> [d] | _ \<Rightarrow> []) fates)"

subsection \<open>On the target\<close>

definition resource_program_frame :: u32 where "resource_program_frame = 0x52451400"

definition dmg_batch :: "damaged \<Rightarrow> batch_entry" where
  "dmg_batch d = \<lparr>entry_bytes = dmg_bytes d, entry_args = dmg_args d\<rparr>"

definition chunk_damaged :: "damaged list \<Rightarrow> damaged list list" where
  "chunk_damaged ds = chunk_from (\<lambda>d. need (dmg_batch d)) [] 8 ds"

text \<open>\<^verbatim>\<open>checked\<close> counts the refusals; the others are the lines of \<^verbatim>\<open>wrong\<close>.\<close>

datatype frame_verdict =
    Refused
  | Hung nat
  | NoLine damaged
  | OtherAnswer damaged char u32

definition judge_damaged :: "target_result list \<Rightarrow> nat \<Rightarrow> damaged \<Rightarrow> frame_verdict" where
  "judge_damaged results k d =
     (case nth_opt results k of
        None \<Rightarrow> NoLine d
      | Some got \<Rightarrow>
          if res_kind got = CHR ''E'' \<and> res_value got = resource_program_frame then Refused
          else OtherAnswer d (res_kind got) (res_value got))"

definition judge_part :: "emulator \<Rightarrow> damaged list \<Rightarrow> frame_verdict list" where
  "judge_part emu part =
     (let r = emu (write_batch (map dmg_batch part))
      in if timed_out r then [Hung (length part)]
         else map (\<lambda>(k, d). judge_damaged (parse_results (qemu_output r)) k d) (enumerate 0 part))"

definition frame_lane ::
  "framing \<Rightarrow> 'r toolchain \<Rightarrow> map_over \<Rightarrow> recurse \<Rightarrow> emulator \<Rightarrow> (string \<times> gen_program) list \<Rightarrow> int \<Rightarrow> nat
    \<Rightarrow> string + frame_verdict list" where
  "frame_lane fr tc map_over kids emu seeds seed n =
     bindr (frame_fates fr tc map_over kids seeds seed n) (\<lambda>fates.
     Inr (concat (map (judge_part emu) (chunk_damaged (queued fates)))))"

text \<open>\<^verbatim>\<open>process.exit(wrong.length === 0 ? 0 : 1)\<close>.\<close>

definition frame_exit :: "frame_verdict list \<Rightarrow> nat" where
  "frame_exit vs = (if filter (\<lambda>v. v \<noteq> Refused) vs = [] then 0 else 1)"

subsection \<open>What damage does\<close>

lemma length_poke [simp]: "length (poke b i v) = length b"
  by (simp add: poke_def)

lemma length_flip_bit_at [simp]: "length (flip_bit_at b i k) = length b"
  by (simp add: flip_bit_at_def)

lemma length_swap_at [simp]: "length (swap_at i j b) = length b"
  by (simp add: swap_at_def)

lemma draws_any_int: "draws (rng_int n) (\<lambda>_. True)"
  unfolding rng_int_def by (rule draws_bindc [OF draws_word]) (simp add: draws_retc)

text \<open>A damage draws what it needs and never throws; what it makes is not empty and at most two bytes longer.\<close>

definition near :: "u8 list \<Rightarrow> u8 list \<Rightarrow> bool" where
  "near b out \<longleftrightarrow> out \<noteq> [] \<and> length out \<le> length b + 2"

lemma near_same: "b \<noteq> [] \<Longrightarrow> length out = length b \<Longrightarrow> near b out"
  by (auto simp: near_def)

lemma draws_damage:
  assumes "b \<noteq> []" and "(name, d) \<in> set damages"
  shows "draws (d fr b) (near b)"
proof -
  note any = draws_bindc [OF draws_any_int]
  have i: "draws (payload_index fr b) (\<lambda>_. True)" unfolding payload_index_def by (rule draws_any_int)
  have "draws (flip_payload fr b) (near b)" "draws (overwrite_byte fr b) (near b)"
    unfolding flip_payload_def overwrite_byte_def
    by (rule draws_bindc [OF i], rule any, rule draws_retc, simp add: near_same assms(1))+
  moreover have "draws (flip_frame fr b) (near b)"
    unfolding flip_frame_def by (rule any, rule any, rule draws_retc, simp add: near_same assms(1))
  moreover have "draws (truncated fr b) (near b)"
    unfolding truncated_def by (rule any, rule draws_retc) (use assms(1) in \<open>auto simp: near_def\<close>)
  moreover have "draws (extended fr b) (near b)"
    unfolding extended_def by (rule any, rule any, rule any, rule draws_retc) (use assms(1) in \<open>auto simp: near_def\<close>)
  moreover have "draws (bytes_swapped fr b) (near b)"
    unfolding bytes_swapped_def
    by (rule draws_if; (rule any)?; rule draws_retc; simp add: near_same assms(1))
  moreover have "draws (frame_zeroed fr b) (near b)"
    unfolding frame_zeroed_def by (rule draws_retc) (simp add: near_same assms(1))
  ultimately show ?thesis using assms(2) by (auto simp: damages_def)
qed

definition fate_name :: "fate \<Rightarrow> string" where
  "fate_name f = (case f of NoDamage n \<Rightarrow> n | Collision n \<Rightarrow> n | Queued d \<Rightarrow> dmg_name d)"

text \<open>The damages one by one: each fate is that of what some draw of its damage makes.\<close>

lemma draws_damage_all:
  assumes "\<And>name d. (name, d) \<in> set ds \<Longrightarrow> draws (d fr b) (Q name)"
  shows "draws (damage_all fr b ac entry seed ds)
    (\<lambda>fates. map fate_name fates = map fst ds
      \<and> list_all (\<lambda>f. \<exists>out. Q (fate_name f) out \<and> f = fate_of fr b ac entry seed (fate_name f) out) fates)"
  using assms
proof (induction ds)
  case Nil
  then show ?case by (simp add: draws_def)
next
  case (Cons nd ds)
  obtain name d where nd: "nd = (name, d)" by (cases nd)
  have q: "draws (d fr b) (Q name)" by (rule Cons.prems) (simp add: nd)
  have n: "fate_name (fate_of fr b ac entry seed name out) = name" for out
    by (simp add: fate_of_def fate_name_def)
  have IH: "draws (damage_all fr b ac entry seed ds)
    (\<lambda>fates. map fate_name fates = map fst ds
      \<and> list_all (\<lambda>f. \<exists>out. Q (fate_name f) out \<and> f = fate_of fr b ac entry seed (fate_name f) out) fates)"
    by (rule Cons.IH, rule Cons.prems) simp
  show ?case
    unfolding nd damage_all.simps
    by (rule draws_bindc [OF q], rule draws_bindc [OF IH], rule draws_retc) (auto simp: n)
qed

text \<open>What reaches the queue.\<close>

definition queueable :: "framing \<Rightarrow> damaged \<Rightarrow> bool" where
  "queueable fr d \<longleftrightarrow> dmg_bytes d \<noteq> [] \<and> length (dmg_bytes d) \<le> program_max \<and> \<not> frame_valid fr (dmg_bytes d)"

lemma set_queued: "set (queued fates) = {d. Queued d \<in> set fates}"
  by (force simp: queued_def split: fate.splits)

lemma fates_queueable:
  assumes "b \<noteq> []" and "length b \<le> program_max - 4"
    and "damage_all fr b ac entry seed damages s = (Inr fates, t)"
  shows "length fates = 7" and "list_all (queueable fr) (queued fates)"
proof -
  have "draws (damage_all fr b ac entry seed damages)
    (\<lambda>fates. map fate_name fates = map fst damages
      \<and> list_all (\<lambda>f. \<exists>out. near b out \<and> f = fate_of fr b ac entry seed (fate_name f) out) fates)"
    by (rule draws_damage_all) (rule draws_damage [OF assms(1)])
  from draws_run [OF this assms(3)]
  have names: "map fate_name fates = map fst damages"
    and each: "\<And>f. f \<in> set fates \<Longrightarrow> \<exists>out. near b out \<and> f = fate_of fr b ac entry seed (fate_name f) out"
    by (auto simp: list_all_iff)
  from arg_cong [OF names, of length] show "length fates = 7" by (simp add: damages_def)
  show "list_all (queueable fr) (queued fates)"
    unfolding list_all_iff set_queued
  proof
    fix d assume "d \<in> {d. Queued d \<in> set fates}"
    with each obtain out where "near b out" "Queued d = fate_of fr b ac entry seed (dmg_name d) out"
      by (force simp: fate_name_def)
    with assms(2) show "queueable fr d"
      by (cases d) (auto simp: queueable_def fate_of_def near_def program_max_def split: if_splits)
  qed
qed

lemma frame_args:
  assumes "damage_all fr b ac entry seed ds s = (Inr fates, t)" and "d \<in> set (queued fates)"
  shows "dmg_args d = entry_args_for ac"
  using assms
proof (induction ds arbitrary: s fates)
  case (Cons nd ds)
  then show ?case
    by (cases nd) (auto simp: bindc_eq_Inr set_queued fate_of_def split: if_splits)
qed (simp add: queued_def)

lemma encoded_base_size: "encoded_base tc gen = Some (b, ac) \<Longrightarrow> b \<noteq> [] \<and> length b \<le> program_max - 4"
  by (auto simp: encoded_base_def split: sum.splits list.splits if_splits)

lemma frame_round_queue:
  assumes "frame_round fr tc map_over kids seeds seed i = Inr fates"
  shows "length fates \<le> 7" and "list_all (queueable fr) (queued fates)"
proof -
  have "length fates \<le> 7 \<and> list_all (queueable fr) (queued fates)"
  proof (cases "fates = []")
    case False
    with assms obtain b ac entry gen where "encoded_base tc gen = Some (b, ac)"
      and run: "fst (damage_all fr b ac entry (seed + int i) damages (rng_new (seed + int i))) = Inr fates"
      by (auto simp: frame_round_def bindr_eq_Inr Option.bind_eq_Some_conv split: option.splits)
    then obtain t where t: "damage_all fr b ac entry (seed + int i) damages (rng_new (seed + int i)) = (Inr fates, t)"
      by (cases "damage_all fr b ac entry (seed + int i) damages (rng_new (seed + int i))") simp
    from encoded_base_size [OF \<open>encoded_base tc gen = Some (b, ac)\<close>] show ?thesis
      using fates_queueable [OF _ _ t] by simp
  qed (simp add: queued_def)
  then show "length fates \<le> 7" and "list_all (queueable fr) (queued fates)" by simp_all
qed

text \<open>What the hash is to be: local to the payload.\<close>

definition hash_local :: "framing \<Rightarrow> bool" where
  "hash_local fr \<longleftrightarrow> frame_bytes fr = 2 \<and> (\<forall>b n. n \<le> length b \<longrightarrow> frame_hash fr b n = frame_hash fr (take n b) n)"

definition harms :: "framing \<Rightarrow> u8 list \<Rightarrow> string \<Rightarrow> u8 list \<Rightarrow> bool" where
  "harms fr b name out \<longleftrightarrow>
     (name \<in> {''bit flip in the payload'', ''bit flip in the frame'', ''truncated'', ''extended''} \<longrightarrow> out \<noteq> b)
     \<and> (name \<in> {''bit flip in the frame'', ''frame zeroed''} \<longrightarrow> out = b \<or> \<not> frame_valid fr out)"

lemma flip_changes:
  assumes "0 \<le> k" and "k < 8"
  shows "x XOR push_bit (nat k) 1 \<noteq> (x :: u8)"
proof -
  have "bit (x XOR push_bit (nat k) 1) (nat k) \<noteq> bit x (nat k)"
    using assms by (simp add: bit_simps) linarith
  then show ?thesis by metis
qed

lemma stored_frame_inj: "stored_frame lo hi = stored_frame lo' hi' \<longleftrightarrow> lo = lo' \<and> hi = hi'"
proof
  assume eq: "stored_frame lo hi = stored_frame lo' hi'"
  have bits: "bit (stored_frame lo hi) n = bit (stored_frame lo' hi') n" for n by (simp add: eq)
  have b: "bit lo n \<or> 8 \<le> n \<and> n < 16 \<and> bit hi (n - 8) \<longleftrightarrow> bit lo' n \<or> 8 \<le> n \<and> n < 16 \<and> bit hi' (n - 8)" if "n < 16" for n
    using that bits [of n] by (auto simp: stored_frame_def bit_simps)
  show "lo = lo' \<and> hi = hi'"
  proof (intro conjI bit_word_eqI)
    fix n :: nat
    assume n: "n < LENGTH(8)"
    show "bit lo n = bit lo' n" using b [of n] n by auto
    show "bit hi n = bit hi' n" using b [of "n + 8"] n by (auto dest: bit_imp_le_length)
  qed
qed simp

lemma hash_localD:
  assumes "hash_local fr"
  shows "frame_bytes fr = 2" and "frame_hash fr b (length b - 2) = frame_hash fr (take (length b - 2) b) (length b - 2)"
  using assms unfolding hash_local_def by (blast, metis diff_le_self)

lemma frame_valid_cut:
  assumes "hash_local fr"
  shows "frame_valid fr b \<longleftrightarrow> 2 < length b
    \<and> uint (stored_frame (b ! (length b - 2)) (b ! (length b - 1))) = frame_hash fr (take (length b - 2) b) (length b - 2)"
proof -
  have "length b - 2 + 1 = length b - 1" if "2 < length b" using that by simp
  then show ?thesis
    by (auto simp: frame_valid_def hash_localD(1) [OF assms] hash_localD(2) [OF assms, of b, symmetric] nth_default_def Let_def)
qed

text \<open>Two programs of one payload whose frames both verify are one.\<close>

lemma frame_valid_unique:
  assumes "hash_local fr" and "frame_valid fr b" and "frame_valid fr out"
    and "length out = length b" and "take (length b - 2) out = take (length b - 2) b"
  shows "out = b"
proof (rule nth_equalityI)
  fix i assume "i < length out"
  then consider "i < length b - 2" | "i = length b - 2" | "i = length b - 1" using assms(4) by linarith
  moreover have "out ! (length b - 2) = b ! (length b - 2) \<and> out ! (length b - 1) = b ! (length b - 1)"
  proof -
    have "uint (stored_frame (out ! (length b - 2)) (out ! (length b - 1)))
        = uint (stored_frame (b ! (length b - 2)) (b ! (length b - 1)))"
      using assms(2-5) by (simp only: frame_valid_cut [OF assms(1)])
    then show ?thesis by (simp only: word_uint_eq_iff [symmetric] stored_frame_inj)
  qed
  moreover have "out ! i = b ! i" if "i < length b - 2"
    using arg_cong [OF assms(5), of "\<lambda>l. l ! i"] that by simp
  ultimately show "out ! i = b ! i" by cases simp_all
qed (rule assms(4))

lemma take_poke: "int n \<le> i \<Longrightarrow> take n (poke b i v) = take n b"
  by (auto simp: poke_def intro: take_update_cancel)

lemma flip_bit_at_ne:
  assumes "0 \<le> i" "i < int (length b)" "0 \<le> k" "k < 8"
  shows "flip_bit_at b i k \<noteq> b"
proof
  assume "flip_bit_at b i k = b"
  then have "flip_bit_at b i k ! nat i = b ! nat i" by simp
  with assms flip_changes [OF assms(3,4), of "b ! nat i"] show False
    by (simp add: flip_bit_at_def poke_def peek_def)
qed

lemma draws_harms:
  assumes "hash_local fr" and "frame_valid fr b" and "(name, d) \<in> set damages"
  shows "draws (d fr b) (harms fr b name)"
proof -
  have n: "2 < length b" and fb: "frame_bytes fr = 2"
    using assms(2) by (simp_all add: frame_valid_cut [OF assms(1)] hash_localD(1) [OF assms(1)])
  have k: "draws (rng_int 8) (\<lambda>v. 0 \<le> v \<and> v < 8)" by (rule draws_int) simp
  have "draws (flip_payload fr b) (harms fr b ''bit flip in the payload'')"
    unfolding flip_payload_def payload_index_def
    by (rule draws_bindc [OF draws_int], simp, rule draws_bindc [OF k], rule draws_retc)
      (use n flip_bit_at_ne [of _ b] in \<open>auto simp: harms_def fb\<close>)
  moreover have "draws (overwrite_byte fr b) (harms fr b ''byte overwritten'')"
    "draws (bytes_swapped fr b) (harms fr b ''two bytes swapped'')"
    unfolding overwrite_byte_def payload_index_def bytes_swapped_def
    by (auto simp: harms_def intro!: draws_bindc [OF draws_any_int] draws_retc)
  moreover have "draws (flip_frame fr b) (harms fr b ''bit flip in the frame'')"
  proof -
    have "harms fr b ''bit flip in the frame'' (flip_bit_at b (int (length b) - 2 + j) v)"
      if "0 \<le> j \<and> j < 2" "0 \<le> v \<and> v < 8" for j v
    proof -
      have ne: "flip_bit_at b (int (length b) - 2 + j) v \<noteq> b"
        by (rule flip_bit_at_ne) (use that n in auto)
      moreover have "\<not> frame_valid fr (flip_bit_at b (int (length b) - 2 + j) v)"
        using frame_valid_unique [OF assms(1,2)] ne that n by (auto simp: flip_bit_at_def take_poke)
      ultimately show ?thesis by (simp add: harms_def)
    qed
    then show ?thesis
      unfolding flip_frame_def fb
      by (intro draws_bindc [OF draws_int] draws_bindc [OF k] draws_retc) simp_all
  qed
  moreover have "draws (truncated fr b) (harms fr b ''truncated'')"
    unfolding truncated_def
    by (rule draws_bindc [OF draws_int], simp, rule draws_retc)
      (use n in \<open>auto simp: harms_def dest!: arg_cong [where f = length]\<close>)
  moreover have "draws (extended fr b) (harms fr b ''extended'')"
    unfolding extended_def
    by (rule draws_bindc [OF draws_any_int], rule draws_bindc [OF draws_any_int], rule draws_bindc [OF draws_any_int], rule draws_retc)
      (auto simp: harms_def)
  moreover have "draws (frame_zeroed fr b) (harms fr b ''frame zeroed'')"
  proof -
    have "out = b \<or> \<not> frame_valid fr out" if out: "out = poke (poke b (int (length b) - 2) 0) (int (length b) - 1) 0" for out
      using frame_valid_unique [OF assms(1,2)] n unfolding out by (auto simp: take_poke)
    then show ?thesis unfolding frame_zeroed_def by (intro draws_retc) (simp add: harms_def)
  qed
  ultimately show ?thesis using assms(3) by (auto simp: damages_def)
qed

text \<open>The verdict a fate stands for, in full.\<close>

definition fate_sound :: "framing \<Rightarrow> u8 list \<Rightarrow> fate \<Rightarrow> bool" where
  "fate_sound fr b f \<longleftrightarrow>
     (case f of
        NoDamage name \<Rightarrow> name \<in> {''byte overwritten'', ''two bytes swapped'', ''frame zeroed''}
      | Collision name \<Rightarrow> name \<notin> {''bit flip in the frame'', ''frame zeroed''}
      | Queued d \<Rightarrow> queueable fr d \<and> dmg_bytes d \<noteq> b)"

lemma frame_damage_ends:
  assumes "hash_local fr" and "frame_valid fr b" and "length b \<le> program_max - 4"
  shows "\<exists>fates t. damage_all fr b ac entry seed damages s = (Inr fates, t)
    \<and> map fate_name fates = map fst damages \<and> list_all (fate_sound fr b) fates
    \<and> (\<exists>d. fates ! 2 = Queued d)"
proof -
  have "b \<noteq> []" using assms(2) by (auto simp: frame_valid_cut [OF assms(1)])
  note queue = fates_queueable [OF this assms(3)]
  have "draws (damage_all fr b ac entry seed damages)
    (\<lambda>fates. map fate_name fates = map fst damages
      \<and> list_all (\<lambda>f. \<exists>out. harms fr b (fate_name f) out \<and> f = fate_of fr b ac entry seed (fate_name f) out) fates)"
    by (rule draws_damage_all) (rule draws_harms [OF assms(1,2)])
  from drawsD [OF this, of s] obtain fates t where run: "damage_all fr b ac entry seed damages s = (Inr fates, t)"
    and names: "map fate_name fates = map fst damages"
    and each: "\<And>f. f \<in> set fates \<Longrightarrow> \<exists>out. harms fr b (fate_name f) out \<and> f = fate_of fr b ac entry seed (fate_name f) out"
    unfolding list_all_iff by blast
  have listed: "fate_name f \<in> set (map fst damages)" if "f \<in> set fates" for f
    using that names by (metis image_eqI list.set_map)
  have "fate_sound fr b f" if f: "f \<in> set fates" for f
  proof -
    from each [OF f] obtain out where out: "harms fr b (fate_name f) out" "f = fate_of fr b ac entry seed (fate_name f) out" by blast
    show ?thesis
    proof (cases f)
      case (Queued d)
      with queue(2) [OF run] f have "queueable fr d" by (simp add: list_all_iff set_queued)
      moreover have "dmg_bytes d \<noteq> b" using out(2) Queued by (cases d) (auto simp: fate_of_def split: if_splits)
      ultimately show ?thesis using Queued by (simp add: fate_sound_def)
    qed (use out listed [OF f] in \<open>auto simp: fate_sound_def fate_name_def harms_def fate_of_def damages_def split: if_splits\<close>)
  qed
  moreover have "\<exists>d. fates ! 2 = Queued d"
  proof -
    have len: "2 < length fates" using queue(1) [OF run] by simp
    have "fate_name (fates ! 2) = ''bit flip in the frame''"
      using arg_cong [OF names, of "\<lambda>l. l ! 2"] len by (simp add: damages_def)
    moreover from each [OF nth_mem [OF len]] obtain out where "harms fr b (fate_name (fates ! 2)) out"
      "fates ! 2 = fate_of fr b ac entry seed (fate_name (fates ! 2)) out" by blast
    ultimately show ?thesis by (auto simp: harms_def fate_of_def split: if_splits)
  qed
  ultimately show ?thesis using run names by (simp add: list_all_iff)
qed

text \<open>
  C27. The frame lane's damages, accounted for. From an encoded program whose frame verifies, and with a hash that
  looks at the payload only, no damage throws, whatever the draws, and each of the seven has one fate, in order. A bit
  flip, a cut or an extension always changes the program; a bit flip in the frame and a zeroed frame never collide, so
  a flipped frame is always run; what is run differs from the base, does not verify and fits a batch entry.
\<close>

theorem frame_damage_sound:
  assumes "hash_local fr" and "frame_valid fr b" and "length b \<le> program_max - 4"
  shows "\<exists>fates t. damage_all fr b ac entry seed damages s = (Inr fates, t)
    \<and> map fate_name fates = map fst damages \<and> list_all (fate_sound fr b) fates
    \<and> (\<exists>d. fates ! 2 = Queued d)"
  using assms by (rule frame_damage_ends)

text \<open>mog-core's hash as the target's, which it has to reproduce.\<close>

definition target_framing :: framing where
  "target_framing = \<lparr>frame_bytes = 2, frame_hash = (\<lambda>b n. uint (program_frame_hash (take n b)))\<rparr>"

lemma frame_valid_target: "frame_valid target_framing b \<longleftrightarrow> program_frame_ok b"
proof (cases "2 < length b")
  case True
  then have "length b - 2 + 1 = length b - 1" by simp
  with True show ?thesis
    by (simp only: frame_valid_def program_frame_ok_def target_framing_def framing.simps nth_default_def Let_def word_uint_eq_iff [symmetric])
      auto
qed (simp add: frame_valid_def program_frame_ok_def target_framing_def)

lemma target_framing_local: "hash_local target_framing"
  by (simp add: hash_local_def target_framing_def)

definition framed_vector :: "u8 list" where
  "framed_vector = [0, 0, 1, 0, 0x80, 102, 0x9c, 0x36]"

lemma frame_damage_sound_witness:
  "\<exists>fates t. damage_all target_framing framed_vector 0 ''bytes'' 1 damages 7 = (Inr fates, t)
    \<and> map fate_name fates = map fst damages \<and> list_all (fate_sound target_framing framed_vector) fates"
proof -
  have "frame_valid target_framing framed_vector" "length framed_vector \<le> program_max - 4" by code_simp+
  from frame_damage_sound [OF target_framing_local this, of 0 "''bytes''" 1 7] show ?thesis by blast
qed

subsection \<open>The lane and the target\<close>

lemma fates_all_queueable:
  assumes "frame_fates fr tc map_over kids seeds seed n = Inr fates"
  shows "list_all (queueable fr) (queued fates)" and "length (queued fates) \<le> 7 * n"
proof -
  have queued_concat: "queued (concat fss) = concat (map queued fss)" for fss by (induction fss) (simp_all add: queued_def)
  have short: "length (queued fs) \<le> length fs" for fs by (induction fs) (auto simp: queued_def split: fate.splits)
  obtain fss where "map_r (frame_round fr tc map_over kids seeds seed) [0 ..< n] = Inr fss" and fates: "fates = concat fss"
    using assms by (cases "map_r (frame_round fr tc map_over kids seeds seed) [0 ..< n]") (auto simp: frame_fates_def)
  then have rounds: "list_all2 (\<lambda>i fs. frame_round fr tc map_over kids seeds seed i = Inr fs) [0 ..< n] fss"
    by (simp add: map_r_Inr)
  then have each: "\<exists>i. frame_round fr tc map_over kids seeds seed i = Inr fs" if "fs \<in> set fss" for fs
    using that by (auto simp: list_all2_conv_all_nth in_set_conv_nth)
  then show "list_all (queueable fr) (queued fates)"
    unfolding fates queued_concat list_all_iff using frame_round_queue(2) by (fastforce simp: list_all_iff)
  have "length (queued fs) \<le> 7" if "fs \<in> set fss" for fs
    using each [OF that] frame_round_queue(1) short [of fs] by (meson le_trans)
  then have "length (queued (concat fss)) \<le> 7 * length fss"
    by (induction fss) (auto simp: queued_def intro: add_le_mono)
  then show "length (queued fates) \<le> 7 * n" using list_all2_lengthD [OF rounds] by (simp add: fates)
qed

text \<open>A target that reads a batch and answers each program on its own, and \<^verbatim>\<open>Executor::run\<close> of one that tests the frame first.\<close>

definition one_by_one :: "(batch_entry \<Rightarrow> target_result) \<Rightarrow> emulator" where
  "one_by_one answer img =
     (case read_batch img of
        None \<Rightarrow> \<lparr>timed_out = False, qemu_output = ''X:00000000'' @ [newline_char]\<rparr>
      | Some es \<Rightarrow> \<lparr>timed_out = False, qemu_output = target_output (map answer es)\<rparr>)"

definition frame_refusal :: target_result where
  "frame_refusal = \<lparr>res_kind = CHR ''E'', res_value = resource_program_frame, res_digest = None\<rparr>"

definition tests_frame :: "(batch_entry \<Rightarrow> target_result) \<Rightarrow> batch_entry \<Rightarrow> target_result" where
  "tests_frame run e = (if program_frame_ok (entry_bytes e) then run e else frame_refusal)"

definition refuses :: "target_result \<Rightarrow> bool" where
  "refuses r \<longleftrightarrow> res_kind r = CHR ''E'' \<and> res_value r = resource_program_frame"

lemma judge_part_one_by_one:
  assumes "list_all (\<lambda>d. runnable (dmg_batch d)) part" and "length part < 2 ^ 32" and "\<And>e. res_kind (answer e) \<in> set ''RTEXA''"
  shows "judge_part (one_by_one answer) part =
    map (\<lambda>d. let r = answer (dmg_batch d) in if refuses r then Refused else OtherAnswer d (res_kind r) (res_value r)) part"
proof -
  have "read_batch (write_batch (map dmg_batch part) @ []) = Some (map dmg_batch part)"
    by (rule read_batch_written) (use assms in \<open>auto simp: list_all_iff\<close>)
  moreover have "parse_results (target_output (map answer (map dmg_batch part))) = map answer (map dmg_batch part)"
    by (rule parse_target_output) (use assms(3) in auto)
  ultimately show ?thesis
    by (auto simp: judge_part_def one_by_one_def judge_damaged_def nth_opt_def refuses_def Let_def nth_enumerate_eq
      intro!: nth_equalityI)
qed

lemma concat_chunk_damaged: "concat (chunk_damaged ds) = ds"
  by (simp add: chunk_damaged_def chunk_from_concat)

lemma map_concat_parts:
  "(\<And>p. p \<in> set ps \<Longrightarrow> g p = map f p) \<Longrightarrow> concat (map g ps) = map f (concat ps)"
  by (induction ps) simp_all

lemma part_of_concat: "p \<in> set ps \<Longrightarrow> set p \<subseteq> set (concat ps) \<and> length p \<le> length (concat ps)"
  by (induction ps) auto

text \<open>
  C16. What the frame lane tests. On a target that reads a batch and answers each program by itself, the lane passes a
  verdict on every queued program, in order, and exits with 0 exactly when the target refuses each as
  \<open>RESOURCE_PROGRAM_FRAME\<close>. A target that tests the frame the way \<^verbatim>\<open>programFrameOk\<close> does passes the
  lane, if mog-core's hash reproduces the target's: the queue holds no program whose frame verifies.
\<close>

theorem frame_lane_exact:
  assumes "frame_fates fr tc map_over kids seeds seed n = Inr fates" and "n < 2 ^ 29"
    and "list_all (\<lambda>d. length (dmg_args d) \<le> entry_args_max) (queued fates)"
    and "\<And>e. res_kind (answer e) \<in> set ''RTEXA''"
  shows "\<exists>vs. frame_lane fr tc map_over kids (one_by_one answer) seeds seed n = Inr vs
    \<and> length vs = length (queued fates)
    \<and> (frame_exit vs = 0 \<longleftrightarrow> list_all (\<lambda>d. refuses (answer (dmg_batch d))) (queued fates))
    \<and> (fr = target_framing \<and> answer = tests_frame run \<longrightarrow> frame_exit vs = 0)"
proof -
  let ?f = "\<lambda>d. let r = answer (dmg_batch d) in if refuses r then Refused else OtherAnswer d (res_kind r) (res_value r)"
  note queue = fates_all_queueable [OF assms(1)]
  have "judge_part (one_by_one answer) part = map ?f part" if part: "part \<in> set (chunk_damaged (queued fates))" for part
  proof (rule judge_part_one_by_one)
    from part_of_concat [OF part] queue assms(2,3)
    show "list_all (\<lambda>d. runnable (dmg_batch d)) part" "length part < 2 ^ 32"
      by (auto simp: concat_chunk_damaged list_all_iff queueable_def runnable_def dmg_batch_def)
  qed (rule assms(4))
  from map_concat_parts [of "chunk_damaged (queued fates)", OF this]
  have lane: "frame_lane fr tc map_over kids (one_by_one answer) seeds seed n = Inr (map ?f (queued fates))"
    by (simp add: frame_lane_def assms(1) concat_chunk_damaged)
  have exit: "frame_exit (map ?f (queued fates)) = 0 \<longleftrightarrow> list_all (\<lambda>d. refuses (answer (dmg_batch d))) (queued fates)"
    by (auto simp: frame_exit_def Let_def list_all_iff filter_empty_conv split: if_splits)
  have "refuses (answer (dmg_batch d))" if "fr = target_framing" "answer = tests_frame run" "d \<in> set (queued fates)" for d
  proof -
    have "\<not> program_frame_ok (dmg_bytes d)"
      using queue(1) that(1,3) by (simp add: list_all_iff queueable_def frame_valid_target)
    then show ?thesis by (simp add: that(2) tests_frame_def dmg_batch_def refuses_def frame_refusal_def)
  qed
  then have "list_all (\<lambda>d. refuses (answer (dmg_batch d))) (queued fates)" if "fr = target_framing" "answer = tests_frame run"
    using that by (simp add: list_all_iff)
  with exit have "frame_exit (map ?f (queued fates)) = 0" if "fr = target_framing" "answer = tests_frame run"
    using that by blast
  with lane exit show ?thesis by (intro exI [of _ "map ?f (queued fates)"]) simp
qed

text \<open>A target that tests the frame, and one that runs whatever it is sent.\<close>

definition one_line :: gen_program where
  "one_line = [\<lparr>proc_args = [], proc_body = [ReturnStatement (Some (Literal 1))]\<rparr>]"

definition framing_toolchain :: "gen_program toolchain" where
  "framing_toolchain = (sample_toolchain (sample_answer 1))
     \<lparr>tc_encode := (\<lambda>rtl. Inr framed_vector), tc_arg_counts := (\<lambda>rtl. [0])\<rparr>"

definition returns_one :: "batch_entry \<Rightarrow> target_result" where
  "returns_one e = \<lparr>res_kind = CHR ''R'', res_value = 1, res_digest = None\<rparr>"

lemma one_line_fates:
  "\<exists>fates. frame_fates target_framing framing_toolchain map_operands operands [(''one'', one_line)] 1 1 = Inr fates
     \<and> list_all (\<lambda>d. length (dmg_args d) \<le> entry_args_max) (queued fates) \<and> queued fates \<noteq> []"
proof -
  have "case mutate_sequenced map_operands operands one_line 1 None [] of Inr (Some p) \<Rightarrow> True | _ \<Rightarrow> False"
    by code_simp
  then obtain p where p: "mutate_sequenced map_operands operands one_line 1 None [] = Inr (Some p)"
    by (auto split: sum.splits option.splits)
  have b: "encoded_base framing_toolchain p = Some (framed_vector, 0)"
    by (simp add: encoded_base_def framing_toolchain_def sample_toolchain_def framed_vector_def program_max_def)
  have f: "frame_valid target_framing framed_vector" "length framed_vector \<le> program_max - 4" by code_simp+
  let ?all = "damage_all target_framing framed_vector 0 ''one'' 1 damages (rng_new 1)"
  obtain fates t d where run: "?all = (Inr fates, t)" and d: "fates ! 2 = Queued d"
    using frame_damage_ends [OF target_framing_local f] by blast
  have "frame_round target_framing framing_toolchain map_operands operands [(''one'', one_line)] 1 0 = Inr fates"
    by (simp add: frame_round_def nth_opt_def p b run)
  then have "frame_fates target_framing framing_toolchain map_operands operands [(''one'', one_line)] 1 1 = Inr fates"
    by (simp add: frame_fates_def)
  moreover have "d \<in> set (queued fates)"
    using fates_queueable(1) [OF _ f(2) run] nth_mem [of 2 fates] d by (simp add: set_queued framed_vector_def)
  then have "queued fates \<noteq> []" by auto
  moreover have "list_all (\<lambda>d. length (dmg_args d) \<le> entry_args_max) (queued fates)"
    using frame_args [OF run] by (auto simp: list_all_iff entry_args_for_def)
  ultimately show ?thesis by blast
qed

lemma frame_lane_exact_witness:
  "(\<exists>vs. frame_lane target_framing framing_toolchain map_operands operands (one_by_one (tests_frame returns_one))
        [(''one'', one_line)] 1 1 = Inr vs \<and> vs \<noteq> [] \<and> frame_exit vs = 0)
   \<and> (\<exists>vs. frame_lane target_framing framing_toolchain map_operands operands (one_by_one returns_one)
        [(''one'', one_line)] 1 1 = Inr vs \<and> vs \<noteq> [] \<and> frame_exit vs \<noteq> 0)"
proof -
  obtain fates where fates: "frame_fates target_framing framing_toolchain map_operands operands [(''one'', one_line)] 1 1 = Inr fates"
    "list_all (\<lambda>d. length (dmg_args d) \<le> entry_args_max) (queued fates)" and ne: "queued fates \<noteq> []"
    using one_line_fates by blast
  have n: "(1 :: nat) < 2 ^ 29" by simp
  have k: "res_kind (tests_frame returns_one e) \<in> set ''RTEXA''" "res_kind (returns_one e) \<in> set ''RTEXA''" for e
    by (simp_all add: tests_frame_def returns_one_def frame_refusal_def)
  have "\<not> refuses (returns_one e)" for e by (simp add: refuses_def returns_one_def)
  with ne have "\<not> list_all (\<lambda>d. refuses (returns_one (dmg_batch d))) (queued fates)" by (cases "queued fates") auto
  with ne frame_lane_exact [OF fates(1) n fates(2) k(1), where run = returns_one] frame_lane_exact [OF fates(1) n fates(2) k(2)]
  show ?thesis by force
qed

end
