(* ===== verification/Orchestrate.thy ===== *)
theory Orchestrate
  imports Campaign_Runs Seed_Value Lanes
begin

section \<open>The one entry point (\<^verbatim>\<open>fuzz/ts/fuzz.ts\<close>)\<close>

text \<open>
  What the orchestrator decides: the order build, calibration, seed coverage, campaign with the lanes between its
  batches, report, and the exit code. A tool it spawns is a function of its arguments: \<^verbatim>\<open>make\<close> succeeds or not, a
  \<^verbatim>\<open>piece\<close> has a status and an output. The clock and the arrival of \<^verbatim>\<open>SIGINT\<close> are functions of the number of
  batches run. The option record holds what \<^verbatim>\<open>argv\<close> is read into; terminal output and its colours are not modelled, the
  verdicts printed are.
\<close>

subsection \<open>Options\<close>

text \<open>\<^verbatim>\<open>duration\<close>: milliseconds.\<close>

definition duration :: "string \<Rightarrow> string + nat" where
  "duration txt =
     (let ds = takeWhile is_digit txt; unit_part = dropWhile is_digit txt
      in if ds = [] \<or> unit_part \<notin> {'''', ''s'', ''m'', ''h''}
         then Inl (''--for '' @ txt @ '': expected something like 30s, 20m or 2h'')
         else Inr (the (read_digits 0 ds) * (if unit_part = ''h'' then 3600000 else if unit_part = ''m'' then 60000 else 1000)))"

record fuzz_options =
  opt_for :: "string option"
  opt_rounds :: "nat option"
  opt_stop_on_finding :: bool
  opt_calibrate_only :: bool
  opt_no_seed_coverage :: bool
  opt_lane_every :: nat
  opt_seed :: "int option"

text \<open>\<^verbatim>\<open>Number.MAX_SAFE_INTEGER\<close>.\<close>

definition max_safe_integer :: nat where "max_safe_integer = 2 ^ 53 - 1"

definition rounds_n :: "fuzz_options \<Rightarrow> nat" where
  "rounds_n opts = (case opt_rounds opts of None \<Rightarrow> max_safe_integer | Some n \<Rightarrow> n)"

subsection \<open>The tools around it\<close>

record ('r, 'i) machinery =
  run_make :: "string \<Rightarrow> string list \<Rightarrow> bool"
  run_script :: "string \<Rightarrow> string list \<Rightarrow> bool \<times> string"
  minimizer :: "finding \<Rightarrow> bool \<times> string"
  driver :: "'r harness"
  cov_bytes :: nat
  bitmap_bytes :: "nat option"
  gcovr_sink :: "'i host_sink"
  clock_ms :: "nat \<Rightarrow> nat"
  interrupted :: "nat \<Rightarrow> bool"

text \<open>\<^verbatim>\<open>piece\<close>: the verdict and the headline it prints, the last line that is not an indented one.\<close>

definition trim_end :: "string \<Rightarrow> string" where
  "trim_end s = rev (dropWhile is_space (rev s))"

definition indented :: "string \<Rightarrow> bool" where
  "indented l \<longleftrightarrow> (case l of [] \<Rightarrow> False | c # cs \<Rightarrow> is_space c)"

definition headline :: "string \<Rightarrow> string" where
  "headline output =
     (let ls = filter (\<lambda>l. trim l \<noteq> []) (split_lines (trim_end output))
      in case find (\<lambda>l. \<not> indented l) (rev ls) of
           Some l \<Rightarrow> l
         | None \<Rightarrow> if ls = [] then ''(no output)'' else last ls)"

definition piece :: "('r, 'i) machinery \<Rightarrow> string \<Rightarrow> string list \<Rightarrow> bool \<times> string" where
  "piece m script args = (case run_script m script args of (status_ok, out) \<Rightarrow> (status_ok, headline out))"

definition piece_ok :: "('r, 'i) machinery \<Rightarrow> string \<Rightarrow> string list \<Rightarrow> bool" where
  "piece_ok m script args = fst (piece m script args)"

subsection \<open>Build and calibration\<close>

definition builds :: "(string \<times> string \<times> string list) list" where
  "builds =
     [(''target image'', ''src/qemu-exec'', []),
      (''target image, asserts live'', ''src/qemu-exec'', [''DEBUG=1'']),
      (''target image, instrumented'', ''src/qemu-exec'', [''COV=1'']),
      (''host sink, ASan/UBSan'', ''src/driver'', [])]"

text \<open>The first build that fails ends the run.\<close>

definition failed_build :: "('r, 'i) machinery \<Rightarrow> string option" where
  "failed_build m = map_option fst (find (\<lambda>(label, dir, args). \<not> run_make m dir args) builds)"

definition calibrations :: "(string \<times> string) list" where
  "calibrations =
     [(''AST evaluator vs known answers'', ''eval/eval_check.ts''),
      (''UB analysis, both directions'', ''gen/ub_check.ts''),
      (''evaluator vs reference VM'', ''eval/diff.ts''),
      (''generator survival'', ''gen/stats.ts''),
      (''coverage map vs the image'', ''cov_check.ts'')]"

definition calibrate :: "('r, 'i) machinery \<Rightarrow> bool" where
  "calibrate m = list_all (\<lambda>(label, script). piece_ok m script []) calibrations"

subsection \<open>Seed coverage\<close>

text \<open>\<^verbatim>\<open>union[e >> 3] |= 1 << (e & 7)\<close>; an edge past the bitmap is not stored.\<close>

definition set_edge :: "u8 list \<Rightarrow> nat \<Rightarrow> u8 list" where
  "set_edge bits e =
     (if e div 8 < length bits then bits[e div 8 := bits ! (e div 8) OR push_bit (e mod 8) 1] else bits)"

definition edges_union :: "('r, 'i) machinery \<Rightarrow> nat seed_row list \<Rightarrow> u8 list" where
  "edges_union m rows =
     foldl set_edge (replicate (case bitmap_bytes m of None \<Rightarrow> 1024 | Some n \<Rightarrow> n) 0) (concat (map row_edges rows))"

definition host_axis :: "('r, 'i) machinery \<Rightarrow> string list \<Rightarrow> host_verdict option" where
  "host_axis m names =
     (if \<not> run_make m ''src/driver'' [''COV=1''] then None
      else (case host_unique_items (h_tools (driver m)) (gcovr_sink m) (seed_corpus (driver m)) names of
              Inl msg \<Rightarrow> None
            | Inr host \<Rightarrow> Some host))"

datatype seed_advice =
    EverySeedCounts
  | Unjudged "string list"
  | Keep string nat
  | KeepOneOf "string list" nat
  | Drop string

text \<open>The lines printed about the idle seeds, in their order.\<close>

definition items_alone :: "host_verdict \<Rightarrow> string \<Rightarrow> nat" where
  "items_alone host name = (case map_of (alone host) name of None \<Rightarrow> 0 | Some n \<Rightarrow> n)"

definition advise :: "string list \<Rightarrow> host_verdict \<Rightarrow> seed_advice list" where
  "advise idle host =
     (let kept = filter (\<lambda>n. items_alone host n > 0) idle; spare = filter (\<lambda>n. \<not> items_alone host n > 0) idle
      in map (\<lambda>n. Keep n (items_alone host n)) kept
         @ (if spare = [] then []
            else if lost_together host > 0 then [KeepOneOf spare (lost_together host)] else map Drop spare))"

definition idle_seeds :: "nat seed_row list \<Rightarrow> string list" where
  "idle_seeds rows = map row_name (filter (\<lambda>r. row_unique r = 0) rows)"

definition seed_coverage :: "('r, 'i) machinery \<Rightarrow> string + u8 list \<times> seed_advice list" where
  "seed_coverage m =
     bindr (target_edges_per_seed (h_tools (driver m)) (h_traced (driver m)) (cov_bytes m) (seed_corpus (driver m))) (\<lambda>rows.
     let idle = idle_seeds rows
     in Inr (edges_union m rows,
             if idle = [] then [EverySeedCounts]
             else (case host_axis m idle of None \<Rightarrow> [Unjudged idle] | Some host \<Rightarrow> advise idle host)))"

subsection \<open>The campaign and its lanes\<close>

definition invalid_args :: "nat \<Rightarrow> string list" where
  "invalid_args n = [''--rounds'', ''120'', ''--seed'', show_nat (n * 977)]"

definition frame_args_at :: "nat \<Rightarrow> string list" where
  "frame_args_at n = [''--rounds'', ''60'', ''--seed'', show_nat (n * 641)]"

definition lanes :: "('r, 'i) machinery \<Rightarrow> nat \<Rightarrow> nat \<Rightarrow> bool" where
  "lanes m lane_every n =
     (\<not> every lane_every n
      \<or> (piece_ok m ''invalid.ts'' (invalid_args n) \<and> piece_ok m ''frame.ts'' (frame_args_at n)))"

text \<open>The options of \<^verbatim>\<open>runCampaign\<close>, over the driver's own settings.\<close>

definition directed :: "('r, 'i) machinery \<Rightarrow> fuzz_options \<Rightarrow> nat option \<Rightarrow> 'r harness" where
  "directed m opts deadline =
     (driver m)
       \<lparr>rounds := rounds_n opts,
        seed0 := (case opt_seed opts of None \<Rightarrow> seed0 (driver m) | Some s \<Rightarrow> s),
        stop_on_finding := opt_stop_on_finding opts,
        deadline_passed := (\<lambda>n. case deadline of None \<Rightarrow> False | Some d \<Rightarrow> d \<le> clock_ms m n),
        between_batches := (\<lambda>n. \<not> interrupted m n \<and> lanes m (opt_lane_every opts) n)\<rparr>"

text \<open>\<open>run_campaign\<close>, with the number of batches the hook was called after.\<close>

definition hooked_campaign :: "'r harness \<Rightarrow> nat \<Rightarrow> u8 list option \<Rightarrow> (fault + nat) \<times> camp" where
  "hooked_campaign h nbytes coverage0 =
     bindc (run_rounds h (rounds h) 0) (\<lambda>_. bindc (getc batches) (\<lambda>k. bindc (last_flush h) (\<lambda>_. retc k)))
       (start h nbytes coverage0)"

text \<open>\<^verbatim>\<open>laneFailure\<close> after \<open>k\<close> calls of the hook.\<close>

definition lane_failure :: "('r, 'i) machinery \<Rightarrow> nat \<Rightarrow> nat \<Rightarrow> bool" where
  "lane_failure m lane_every k \<longleftrightarrow> list_ex (\<lambda>n. \<not> interrupted m n \<and> \<not> lanes m lane_every n) [1 ..< Suc k]"

subsection \<open>The report\<close>

definition is_bail :: "tally \<Rightarrow> bool" where
  "is_bail k = (case k of ResourceBail w \<Rightarrow> True | _ \<Rightarrow> False)"

record fuzz_report =
  rep_generated :: nat
  rep_shapes :: nat
  rep_corpus :: nat
  rep_dropped :: nat
  rep_reached :: nat
  rep_agreed :: nat
  rep_bails :: nat
  rep_findings :: nat

definition report_of :: "camp \<Rightarrow> fuzz_report" where
  "report_of s =
     (let count = \<lambda>p. tallied p (the_log s)
      in \<lparr>rep_generated = count is_dropped + count (\<lambda>k. k = Verified), rep_shapes = length (seen s),
          rep_corpus = length (corpus s), rep_dropped = count is_dropped, rep_reached = count (\<lambda>k. k = Verified),
          rep_agreed = count (\<lambda>k. k = TargetAgrees), rep_bails = count is_bail, rep_findings = length (findings (the_log s))\<rparr>)"

text \<open>What \<^verbatim>\<open>minimizeAndShow\<close> prints below a finding.\<close>

definition counts_candidates :: "string \<Rightarrow> bool" where
  "counts_candidates l \<longleftrightarrow> takeWhile is_digit l \<noteq> [] \<and> starts_with '' candidate'' (dropWhile is_digit l)"

datatype shown = NothingToShrink | CouldNotShrink | Shrunk "string list"

definition show_finding :: "('r, 'i) machinery \<Rightarrow> finding \<Rightarrow> shown" where
  "show_finding m f =
     (if find_program f = None then NothingToShrink
      else (case minimizer m f of (status_ok, stdout) \<Rightarrow>
        let out = trim_end stdout
        in if \<not> status_ok \<or> \<not> mentions ''--- p0('' out then CouldNotShrink
           else Shrunk (filter (\<lambda>l. \<not> counts_candidates l \<and> \<not> starts_with ''wrote '' l) (split_lines out))))"

subsection \<open>The run\<close>

text \<open>How a run ends, apart from an uncaught exception.\<close>

datatype fuzz_end =
    BuildFailed string
  | CalibrationFailed
  | SelfChecked bool
  | Campaigned camp bool "shown list"

definition exit_code :: "fuzz_end \<Rightarrow> nat" where
  "exit_code e =
     (case e of
        BuildFailed label \<Rightarrow> 2
      | CalibrationFailed \<Rightarrow> 2
      | SelfChecked ok \<Rightarrow> (if ok then 0 else 1)
      | Campaigned s laneFailure shown \<Rightarrow> (if findings (the_log s) = [] \<and> \<not> laneFailure then 0 else 1))"

definition fuzz_campaign :: "('r, 'i) machinery \<Rightarrow> fuzz_options \<Rightarrow> nat option \<Rightarrow> u8 list option \<Rightarrow> fault + fuzz_end" where
  "fuzz_campaign m opts deadline seed_bits =
     (case hooked_campaign (directed m opts deadline) (cov_bytes m) seed_bits of
        (Inl e, s) \<Rightarrow> Inl e
      | (Inr k, s) \<Rightarrow> Inr (Campaigned s (lane_failure m (opt_lane_every opts) k) (map (show_finding m) (findings (the_log s)))))"

definition self_check :: "('r, 'i) machinery \<Rightarrow> bool" where
  "self_check m \<longleftrightarrow> piece_ok m ''invalid.ts'' [''--rounds'', ''500''] \<and> piece_ok m ''frame.ts'' [''--rounds'', ''300'']"

definition deadline_of :: "('r, 'i) machinery \<Rightarrow> fuzz_options \<Rightarrow> string + nat option" where
  "deadline_of m opts =
     (case opt_for opts of None \<Rightarrow> Inr None | Some t \<Rightarrow> map_sum id (\<lambda>d. Some (clock_ms m 0 + d)) (duration t))"

definition fuzz_main :: "('r, 'i) machinery \<Rightarrow> fuzz_options \<Rightarrow> fault + fuzz_end" where
  "fuzz_main m opts =
     (case deadline_of m opts of
        Inl msg \<Rightarrow> Inl (JsError msg)
      | Inr deadline \<Rightarrow>
          (case failed_build m of
             Some label \<Rightarrow> Inr (BuildFailed label)
           | None \<Rightarrow>
               if \<not> calibrate m then Inr CalibrationFailed
               else if opt_calibrate_only opts then Inr (SelfChecked (self_check m))
               else if opt_no_seed_coverage opts then fuzz_campaign m opts deadline None
               else (case seed_coverage m of
                       Inl msg \<Rightarrow> Inl (JsError msg)
                     | Inr (bits, advice) \<Rightarrow> fuzz_campaign m opts deadline (Some bits))))"

subsection \<open>Reading a duration, advising on a seed\<close>

lemma show_nat_digits: "list_all is_digit (show_nat n) \<and> show_nat n \<noteq> []"
proof (induction n rule: show_nat.induct)
  case (1 n)
  then show ?case by (subst (1 2) show_nat.simps) (simp add: digit_char_props)
qed

lemma duration_show:
  assumes "(u, ms) \<in> {([], 1000), (''s'', 1000), (''m'', 60000), (''h'', 3600000)}"
  shows "duration (show_nat n @ u) = Inr (n * ms)"
proof -
  have d: "\<forall>c \<in> set (show_nat n). is_digit c" and ne: "show_nat n \<noteq> []" using show_nat_digits [of n] by (simp_all add: list_all_iff)
  have u: "takeWhile is_digit u = []" "dropWhile is_digit u = u" using assms by (auto simp: is_digit_def)
  have "takeWhile is_digit (show_nat n @ u) = show_nat n" "dropWhile is_digit (show_nat n @ u) = u"
    using takeWhile_append2 [of "show_nat n" is_digit u] dropWhile_append2 [of "show_nat n" is_digit u] d u by simp_all
  then show ?thesis using assms ne by (auto simp: duration_def read_digits_show)
qed

lemma advise_drop:
  assumes "Drop name \<in> set (advise idle host)"
  shows "name \<in> set idle \<and> items_alone host name = 0 \<and> lost_together host = 0"
  using assms by (auto simp: advise_def Let_def split: if_splits)

lemma scores_of:
  "map_r (\<lambda>n. bindr (f n) (\<lambda>k. Inr (n, k))) names = Inr scores \<Longrightarrow> name \<in> set names \<Longrightarrow>
     \<exists>k. map_of scores name = Some k \<and> f name = Inr k"
  by (induction names arbitrary: scores) (auto simp: bindr_eq_Inr)

lemma host_scores:
  assumes "host_unique_items tc sink seeds names = Inr host" and "name \<in> set names"
  shows "\<exists>base k. run_together tc sink (map snd seeds) = Inr base \<and> map_of (alone host) name = Some k
    \<and> lost_without tc sink seeds base [name] = Inr k"
proof -
  obtain base scores where b: "run_together tc sink (map snd seeds) = Inr base"
    and s: "map_r (\<lambda>n. bindr (lost_without tc sink seeds base [n]) (\<lambda>k. Inr (n, k))) names = Inr scores"
    and h: "alone host = scores"
    using assms(1) by (auto simp: host_unique_items_def bindr_eq_Inr Let_def split: if_splits)
  from scores_of [OF s assms(2)] b h show ?thesis by blast
qed


text \<open>Together it may: two seeds that share an edge nobody else reaches are both idle.\<close>

lemma idle_pair:
  "idle_seeds (with_unique [(''a'', [3]), (''b'', [3]), (''c'', [5])]) = [''a'', ''b'']"
  by code_simp

text \<open>
  A corpus of twice the same program: neither copy is unique on either axis, and the report says to drop both.
\<close>

definition twins :: "(gen_program, nat) machinery" where
  "twins = \<lparr>run_make = (\<lambda>dir args. True), run_script = (\<lambda>script args. (True, [])), minimizer = (\<lambda>f. (False, [])),
     driver = (sample_harness 44)\<lparr>h_traced := (\<lambda>bytes. \<lparr>timed_out = False, qemu_output = ''COV:08''\<rparr>),
       seed_corpus := [(''one'', short_program), (''two'', short_program)]\<rparr>,
     cov_bytes = 1, bitmap_bytes = Some 1, gcovr_sink = (\<lambda>bytes. Inr [7]),
     clock_ms = (\<lambda>n. 0), interrupted = (\<lambda>n. False)\<rparr>"

lemma twins_advice: "seed_coverage twins = Inr ([8], [Drop ''one'', Drop ''two''])"
  by code_simp


subsection \<open>The hook stops the loop\<close>

lemma run_campaign_hooked:
  assumes "hooked_campaign h nbytes coverage0 = (Inr k, s)"
  shows "run_campaign h nbytes coverage0 = (Inr (), s)"
  using assms by (auto simp: hooked_campaign_def run_campaign_def bindc_eq_Inr)

text \<open>Every call of the hook so far returned true; or all but the last, and the loop has been told to stop.\<close>

definition all_passed :: "'r harness \<Rightarrow> camp \<Rightarrow> bool" where
  "all_passed h s \<longleftrightarrow> list_all (between_batches h) [1 ..< Suc (batches s)]"

definition calls_made :: "'r harness \<Rightarrow> camp \<Rightarrow> bool" where
  "calls_made h s \<longleftrightarrow> list_all (between_batches h) [1 ..< batches s] \<and> (\<not> stopped s \<longrightarrow> all_passed h s)"

lemma passed_calls: "all_passed h s \<Longrightarrow> calls_made h s"
  by (auto simp: all_passed_def calls_made_def list_all_iff)

lemma passed_frame [simp]:
  "all_passed h (s\<lparr>the_log := lg\<rparr>) = all_passed h s" "all_passed h (s\<lparr>pool := vs\<rparr>) = all_passed h s"
  "all_passed h (s\<lparr>seen := sg\<rparr>) = all_passed h s" "all_passed h (s\<lparr>corpus := cs\<rparr>) = all_passed h s"
  "all_passed h (s\<lparr>derived := d\<rparr>) = all_passed h s" "all_passed h (s\<lparr>coverage := c\<rparr>) = all_passed h s"
  "all_passed h (s\<lparr>coverage_bits := n\<rparr>) = all_passed h s"
  by (simp_all add: all_passed_def)

lemma passed_logging: "keeps (all_passed h) (logging m) (\<lambda>_. all_passed h)"
  by (auto simp: run_spec_def logging_def split: prod.splits sum.splits)

lemma passed_gather: "keeps (all_passed h) (gather r) (\<lambda>_. all_passed h)"
  unfolding gather_def
  by (rule run_spec_bindc [where R = "\<lambda>_. all_passed h"])
    (auto intro!: run_spec_getc run_spec_modifyc run_spec_throwc split: sum.split)

lemma passed_run_part: "keeps (all_passed h) (run_part g final n part) (\<lambda>_. all_passed h)"
  unfolding run_part_def run_target_def run_target_dbg_def run_target_cov_def run_host_def Let_def
  by (intro run_spec_bindc [where R = "\<lambda>_. all_passed h"] keeps_when passed_gather passed_logging)

lemma passed_run_parts: "keeps (all_passed h) (run_parts g final n ps) (\<lambda>_. all_passed h)"
proof (induction ps)
  case (Cons p ps)
  then show ?case using run_spec_bindc [OF passed_run_part] by simp
qed (simp add: run_spec_def)

lemma passed_flush: "keeps (all_passed h) (flush h) (\<lambda>_. calls_made h)"
proof -
  have "keeps (all_passed h) (bindc (run_parts h False n (chunk_verified vs)) (\<lambda>_.
     modifyc (\<lambda>s. s\<lparr>batches := Suc (batches s), pool := [],
       stopped := (stopped s \<or> (stop_on_finding h \<and> findings (the_log s) \<noteq> [])
         \<or> deadline_passed h (Suc (batches s)) \<or> \<not> between_batches h (Suc (batches s)))\<rparr>))) (\<lambda>_. calls_made h)" for n vs
    by (rule run_spec_bindc [OF passed_run_parts], rule run_spec_modifyc)
      (auto simp: all_passed_def calls_made_def)
  then show ?thesis
    unfolding flush_def by (intro run_spec_bindc [where R = "\<lambda>_. all_passed h", OF run_spec_getc]) (auto split: prod.split)
qed

lemma passed_enqueue: "keeps (all_passed h) (enqueue h bulk v) (\<lambda>_. calls_made h)"
proof -
  have r: "keeps (all_passed h) (when_do b (retain h e)) (\<lambda>_. all_passed h)" for b e
    by (rule keeps_when) (auto simp: retain_def Let_def intro!: run_spec_modifyc)
  have fl: "keeps (all_passed h) (when_do b (flush h)) (\<lambda>_. calls_made h)" for b
    using passed_flush [of h] by (auto simp: when_do_def passed_calls intro: run_spec_retc)
  have lc: "keeps (all_passed h) (logging (count_as k)) (\<lambda>_. calls_made h)" for k
    by (rule run_spec_conseq [OF passed_logging]) (auto simp: passed_calls)
  show ?thesis
    unfolding enqueue_def
    by (intro run_spec_bindc [OF keeps_when [OF passed_logging]] run_spec_bindc [where R = "\<lambda>_. all_passed h", OF run_spec_getc]
        run_spec_bindc [where R = "\<lambda>_. all_passed h", OF run_spec_modifyc] run_spec_bindc [OF r] run_spec_if fl lc) simp_all
qed

lemma passed_round: "keeps (all_passed h) (run_round h i) (\<lambda>_. calls_made h)"
proof -
  have "keeps (all_passed h) (bindc (logging (verify (h_tools h) name cand seed)) (\<lambda>r.
      case r of None \<Rightarrow> retc () | Some v \<Rightarrow> enqueue h bulk v)) (\<lambda>_. calls_made h)" for name cand seed bulk
    by (rule run_spec_bindc [OF passed_logging]) (auto split: option.split intro!: passed_enqueue run_spec_retc passed_calls)
  then show ?thesis
    unfolding run_round_def
    by (intro run_spec_bindc [where R = "\<lambda>_. all_passed h", OF run_spec_getc])
      (auto split: option.split sum.split intro!: run_spec_throwc)
qed

lemma calls_rounds: "keeps (calls_made h) (run_rounds h n i) (\<lambda>_. calls_made h)"
proof (induction n arbitrary: i)
  case (Suc n)
  show ?case
    unfolding run_rounds.simps
    by (rule run_spec_pre)
      (auto simp: run_spec_def [where P = "\<lambda>t. t = _"] bindc_def [of "getc _"] calls_made_def
        dest: run_spec_Inr [OF run_spec_bindc [OF passed_round Suc.IH]] split: prod.split sum.split)
qed (simp add: run_spec_def)

lemma hooked_parts:
  assumes "hooked_campaign h nbytes coverage0 = (Inr k, s)"
  shows "batches s \<le> Suc k" and "list_all (between_batches h) [1 ..< k]"
proof -
  obtain t where t: "run_rounds h (rounds h) 0 (start h nbytes coverage0) = (Inr (), t)" "k = batches t"
    and l: "last_flush h t = (Inr (), s)"
    using assms by (auto simp: hooked_campaign_def bindc_eq_Inr)
  have "calls_made h (start h nbytes coverage0)" by (simp add: start_def Let_def calls_made_def all_passed_def)
  from run_spec_Inr [OF calls_rounds this t(1)] show "list_all (between_batches h) [1 ..< k]"
    by (simp add: calls_made_def t(2))
  have "keeps (\<lambda>s. batches s = n) (logging m) (\<lambda>_ s. batches s = n)" for n and m :: "unit logged"
    by (auto simp: run_spec_def logging_def split: prod.splits sum.splits)
  moreover have "keeps (\<lambda>s. batches s = n) (gather r) (\<lambda>_ s. batches s = n)" for n r
    unfolding gather_def
    by (rule run_spec_bindc [where R = "\<lambda>_ s. batches s = n"])
      (auto intro!: run_spec_getc run_spec_modifyc run_spec_throwc split: sum.split)
  ultimately have part: "keeps (\<lambda>s. batches s = n) (run_part h True b part) (\<lambda>_ s. batches s = n)" for n b part
    unfolding run_part_def run_target_def run_target_dbg_def run_target_cov_def run_host_def Let_def
    by (intro run_spec_bindc [where R = "\<lambda>_ s. batches s = n"] keeps_when)
  have parts: "keeps (\<lambda>s. batches s = n) (run_parts h True b ps) (\<lambda>_ s. batches s = n)" for n b ps
  proof (induction ps)
    case (Cons p ps)
    then show ?case using run_spec_bindc [OF part] by simp
  qed (simp add: run_spec_def)
  from l show "batches s \<le> Suc k"
    by (auto simp: last_flush_def when_do_def t(2) bindc_def [of "getc _"] bindc_eq_Inr split: if_splits
      dest: run_spec_Inr [OF parts refl])
qed

lemma campaign_end: "fuzz_campaign m opts deadline bits = Inr e \<Longrightarrow> \<exists>s failed shown. e = Campaigned s failed shown"
  by (auto simp: fuzz_campaign_def split: prod.splits sum.splits)

text \<open>
  C24. A lane failure ends the campaign at once. The lanes run only while all of them have passed and no
  interrupt was seen: in every campaign that ends, the hook returned true after each batch but the last it was called
  for, at most one batch was run after that call, the leftover pool, and the reported lane failure is
  exactly the failure of that last call.
\<close>

theorem lane_failure_stops:
  assumes "fuzz_campaign m opts deadline seed_bits = Inr (Campaigned s failed shown)"
  shows "\<exists>k. batches s \<le> Suc k \<and> list_all (\<lambda>n. \<not> interrupted m n \<and> lanes m (opt_lane_every opts) n) [1 ..< k]
    \<and> (failed \<longleftrightarrow> 0 < k \<and> \<not> interrupted m k \<and> \<not> lanes m (opt_lane_every opts) k)"
proof -
  obtain k where k: "hooked_campaign (directed m opts deadline) (cov_bytes m) seed_bits = (Inr k, s)"
    "failed = lane_failure m (opt_lane_every opts) k"
    using assms by (auto simp: fuzz_campaign_def split: prod.splits sum.splits)
  have hook: "between_batches (directed m opts deadline) n \<longleftrightarrow> \<not> interrupted m n \<and> lanes m (opt_lane_every opts) n" for n
    by (simp add: directed_def)
  from hooked_parts [OF k(1)] have passed: "batches s \<le> Suc k"
    "list_all (\<lambda>n. \<not> interrupted m n \<and> lanes m (opt_lane_every opts) n) [1 ..< k]"
    unfolding list_all_iff hook by simp_all
  moreover have "failed \<longleftrightarrow> 0 < k \<and> \<not> interrupted m k \<and> \<not> lanes m (opt_lane_every opts) k"
  proof (cases k)
    case (Suc j)
    with passed(2) show ?thesis unfolding k(2) lane_failure_def by (auto simp: list_all_iff list_ex_iff)
  qed (simp add: k(2) lane_failure_def)
  ultimately show ?thesis by blast
qed


text \<open>A machinery whose tools all work, around a one-round campaign, and one with a build that fails.\<close>

definition works :: "u32 \<Rightarrow> (gen_program, nat) machinery" where
  "works w = \<lparr>run_make = (\<lambda>dir args. True), run_script = (\<lambda>script args. (True, ''all correct'')),
     minimizer = (\<lambda>f. (False, [])), driver = short_harness w, cov_bytes = 0, bitmap_bytes = None,
     gcovr_sink = (\<lambda>bytes. Inl ''no gcovr''), clock_ms = (\<lambda>n. 1000 * n), interrupted = (\<lambda>n. False)\<rparr>"

definition one_round :: fuzz_options where
  "one_round = \<lparr>opt_for = None, opt_rounds = Some 1, opt_stop_on_finding = False, opt_calibrate_only = False,
     opt_no_seed_coverage = True, opt_lane_every = 8, opt_seed = None\<rparr>"


lemma works_directed: "directed (works w) one_round None = short_harness w"
  by (simp add: directed_def works_def one_round_def short_harness_def sample_harness_def lanes_def piece_ok_def piece_def rounds_n_def)

lemma works_calibrate: "calibrate (works w)" "failed_build (works w) = None"
  by (simp_all add: calibrate_def calibrations_def piece_ok_def piece_def works_def failed_build_def builds_def)

lemma works_campaign:
  assumes "w \<in> {44, 45}"
  shows "\<exists>s shown. fuzz_campaign (works w) one_round None None = Inr (Campaigned s False shown)
    \<and> the_log s = (if w = 44 then adds no_log [Verified, TargetAgrees, DbgClean, HostClean] []
     else adds no_log [Verified, DbgClean, HostClean] [mk_finding JitDiffers ''arith'' 1 (Some short_program)])"
proof -
  obtain s where s: "last_flush (short_harness w) after_round = (Inr (), s)"
    "the_log s = (if w = 44 then adds no_log [Verified, TargetAgrees, DbgClean, HostClean] []
     else adds no_log [Verified, DbgClean, HostClean] [mk_finding JitDiffers ''arith'' 1 (Some short_program)])"
    using short_flush [OF assms] by blast
  have cov: "cov_bytes (works w) = 0" by (simp add: works_def)
  have "hooked_campaign (short_harness w) 0 None = (Inr 0, s)"
    using short_round [of w] s(1)
    by (simp add: hooked_campaign_def bindc_def) (simp add: start_def Let_def)
  then have "fuzz_campaign (works w) one_round None None
      = Inr (Campaigned s False (map (show_finding (works w)) (findings (the_log s))))"
    by (simp add: fuzz_campaign_def works_directed lane_failure_def cov)
  with s(2) show ?thesis by blast
qed

lemma works_main: "fuzz_main (works w) one_round = fuzz_campaign (works w) one_round None None"
proof -
  have "opt_for one_round = None" "\<not> opt_calibrate_only one_round" "opt_no_seed_coverage one_round" by (simp_all add: one_round_def)
  then show ?thesis by (simp add: fuzz_main_def works_calibrate deadline_of_def)
qed

lemma lane_failure_stops_witness:
  "\<exists>s shown k. fuzz_campaign (works 44) one_round None None = Inr (Campaigned s False shown)
     \<and> batches s \<le> Suc k \<and> (k = 0 \<or> lanes (works 44) 8 k)"
proof -
  obtain s shown where run: "fuzz_campaign (works 44) one_round None None = Inr (Campaigned s False shown)"
    using works_campaign [of 44] by blast
  from lane_failure_stops [OF run] obtain k where "batches s \<le> Suc k"
    "False \<longleftrightarrow> 0 < k \<and> \<not> interrupted (works 44) k \<and> \<not> lanes (works 44) (opt_lane_every one_round) k" by blast
  moreover have "\<not> interrupted (works 44) k" "opt_lane_every one_round = 8" by (simp_all add: works_def one_round_def)
  ultimately show ?thesis using run by auto
qed


end
