(* ===== verification/Cov_Check.thy ===== *)
theory Cov_Check
  imports Campaign_Runs Seed_Value
begin

section \<open>Calibrating the coverage map\<close>

text \<open>
  \<^verbatim>\<open>fuzz/ts/cov_check.ts\<close>: before a coverage figure is trusted, the map read from the image is held against the
  image. With it the figures \<^verbatim>\<open>reportCoverage\<close> of \<^verbatim>\<open>fuzz.ts\<close> prints, and what \<^verbatim>\<open>reach.ts\<close> calls
  new. The map is the one \<open>Cov_Map\<close> reads; the instrumented image is an emulator.
\<close>

subsection \<open>The gate\<close>

datatype cov_failure =
    Unreadable
  | BlocksCollide nat
  | NoBitmap
  | BitTooHigh nat
  | NothingReported
  | StrayBits nat

definition highest_bucket :: "cov_map \<Rightarrow> nat" where
  "highest_bucket m = foldr max (map site_bucket (map_sites m)) 0"

text \<open>What the map alone shows.\<close>

definition check_map :: "cov_map \<Rightarrow> cov_failure option" where
  "check_map m =
     (if card (map_buckets m) \<noteq> length (map_sites m)
      then Some (BlocksCollide (length (map_sites m) - card (map_buckets m)))
      else if map_bitmap_bytes m = 0 then Some NoBitmap
      else if highest_bucket m \<ge> map_bitmap_bytes m * 8 then Some (BitTooHigh (highest_bucket m))
      else None)"

definition stray_bits :: "cov_map \<Rightarrow> u8 list \<Rightarrow> nat" where
  "stray_bits m bits = length (filter (\<lambda>b. b \<notin> map_buckets m) (edges_of bits))"

text \<open>And one boot: the first seed, unmutated.\<close>

definition check_run :: "cov_map \<Rightarrow> string \<Rightarrow> string + cov_failure option" where
  "check_run m output =
     bindr (union_coverage output (replicate (map_bitmap_bytes m) 0)) (\<lambda>(added, bits).
     Inr (if added = 0 then Some NothingReported
          else if stray_bits m bits > 0 then Some (StrayBits (stray_bits m bits))
          else None))"

definition cov_check ::
  "cov_map option \<Rightarrow> 'r toolchain \<Rightarrow> emulator \<Rightarrow> (string \<times> gen_program) list \<Rightarrow> string + cov_failure option" where
  "cov_check found tc emu seeds =
     (case found of
        None \<Rightarrow> Inr (Some Unreadable)
      | Some m \<Rightarrow>
          (case check_map m of
             Some f \<Rightarrow> Inr (Some f)
           | None \<Rightarrow>
               (case seeds of
                  [] \<Rightarrow> Inl ''Cannot destructure property of undefined''
                | (name, program) # _ \<Rightarrow>
                    bindr (lowered_entry tc program) (\<lambda>e. check_run m (qemu_output (emu (write_batch [e])))))))"

subsection \<open>The figures\<close>

text \<open>Bits, blocks, and dark blocks, as the report prints them.\<close>

definition coverage_figures :: "cov_map \<Rightarrow> u8 list \<Rightarrow> nat \<times> nat \<times> nat" where
  "coverage_figures m cov =
     (length (edges_of cov), length (map_sites m),
      sum_list (map row_dark (dark_table (bit_set cov) (map_sites m))))"

text \<open>The blocks a program lights that the saved bitmap has dark.\<close>

definition fresh_sites :: "cov_map \<Rightarrow> u8 list \<Rightarrow> u8 list \<Rightarrow> cov_site list" where
  "fresh_sites m bits baseline =
     filter (\<lambda>s. bit_set bits (site_bucket s) \<and> \<not> bit_set baseline (site_bucket s)) (map_sites m)"

subsection \<open>Bits and blocks\<close>

lemma pop_count_or: "pop_count (x OR b) = pop_count x + pop_count (b AND NOT x)"
proof -
  have "length (filter (\<lambda>k. P k \<or> Q k) ks) = length (filter P ks) + length (filter (\<lambda>k. Q k \<and> \<not> P k) ks)"
    for P Q :: "nat \<Rightarrow> bool" and ks by (induction ks) auto
  moreover have "filter (bit (b AND NOT x)) [0 ..< 8] = filter (\<lambda>k. bit b k \<and> \<not> bit x k) [0 ..< 8]"
    by (rule filter_cong) (auto simp: bit_simps)
  moreover have "filter (bit (x OR b)) [0 ..< 8] = filter (\<lambda>k. bit x k \<or> bit b k) [0 ..< 8]"
    by (rule filter_cong) (auto simp: bit_simps)
  ultimately show ?thesis by (simp add: pop_count_def)
qed

lemma edges_count: "length (edges_of bits) = sum_list (map pop_count bits)"
proof (induction bits rule: rev_induct)
  case (snoc b bits)
  have old: "filter (bit_set (bits @ [b])) [0 ..< 8 * length bits] = edges_of bits"
    unfolding edges_of_def by (rule filter_cong) (auto simp: bit_set_def nth_default_def nth_append)
  have "filter (bit_set (bits @ [b])) [8 * length bits ..< 8 * length bits + 8]
      = map (\<lambda>k. k + 8 * length bits) (filter (bit b) [0 ..< 8])"
  proof -
    have "[8 * length bits ..< 8 * length bits + 8] = map (\<lambda>k. k + 8 * length bits) [0 ..< 8]"
      by (simp add: map_add_upt add.commute del: upt_rec_numeral)
    then show ?thesis
      by (simp add: filter_map o_def del: upt_rec_numeral)
        (rule filter_cong, auto simp: bit_set_def nth_default_def nth_append)
  qed
  moreover have "[0 ..< 8 * length (bits @ [b])] = [0 ..< 8 * length bits] @ [8 * length bits ..< 8 * length bits + 8]"
    using upt_add_eq_append [of 0 "8 * length bits" 8] by (simp add: add.commute del: upt_rec_numeral)
  ultimately show ?case
    using snoc old by (simp add: edges_of_def [of "bits @ [b]"] pop_count_def del: upt_rec_numeral)
qed (simp add: edges_of_def)

lemma union_pairs_count:
  "sum_list (map pop_count (snd (union_pairs hs xs))) = sum_list (map pop_count xs) + fst (union_pairs hs xs)"
  by (induction hs xs rule: union_pairs.induct) (auto simp: Let_def pop_count_or split: option.split)

lemma union_coverage_count:
  assumes "union_coverage output (replicate n 0) = Inr (added, bits)"
  shows "length (edges_of bits) = added"
proof -
  have z: "sum_list (map pop_count (replicate n 0)) = 0" by (simp add: sum_list_replicate pop_count_def)
  from assms consider "added = 0" "bits = replicate n 0" | hs where "union_pairs hs (replicate n 0) = (added, bits)"
    by (auto simp: union_coverage_def Let_def split: option.splits if_splits)
  then show ?thesis
  proof cases
    case 1
    with z show ?thesis by (simp only: edges_count)
  next
    case (2 hs)
    with union_pairs_count [of hs "replicate n 0"] z show ?thesis by (simp only: edges_count fst_conv snd_conv)
  qed
qed

lemma bound_of_highest: "s \<in> set (map_sites m) \<Longrightarrow> site_bucket s \<le> highest_bucket m"
proof -
  have "x \<in> set xs \<Longrightarrow> x \<le> foldr max xs 0" for x :: nat and xs by (induction xs) (auto simp: max_def)
  then show "s \<in> set (map_sites m) \<Longrightarrow> ?thesis" by (simp add: highest_bucket_def)
qed

text \<open>A map whose blocks have a bit each, inside the bitmap.\<close>

definition exact_map :: "cov_map \<Rightarrow> bool" where
  "exact_map m \<longleftrightarrow> distinct (map site_bucket (map_sites m))
     \<and> list_all (\<lambda>s. site_bucket s < 8 * map_bitmap_bytes m) (map_sites m)"

lemma check_map_exact:
  assumes "cov_map objdump nbytes = Some m" and "check_map m = None"
  shows "exact_map m"
proof -
  have b: "map_buckets m = set (map site_bucket (map_sites m))"
    using assms(1) by (auto simp: cov_map_def Let_def split: option.splits if_splits)
  with assms(2) have "card (set (map site_bucket (map_sites m))) = length (map site_bucket (map_sites m))"
    "highest_bucket m < map_bitmap_bytes m * 8"
    by (auto simp: check_map_def split: if_splits)
  then show ?thesis
    using bound_of_highest [of _ m] by (fastforce simp: exact_map_def list_all_iff dest: card_distinct)
qed

text \<open>The lit blocks are as many as the set bits, where every set bit is a block's.\<close>

lemma lit_blocks:
  assumes "exact_map m" and "length bits = map_bitmap_bytes m" and "set (edges_of bits) \<subseteq> set (map site_bucket (map_sites m))"
  shows "length (filter (\<lambda>s. bit_set bits (site_bucket s)) (map_sites m)) = length (edges_of bits)"
proof -
  let ?lit_bits = "map site_bucket (filter (\<lambda>s. bit_set bits (site_bucket s)) (map_sites m))"
  have "set ?lit_bits = set (edges_of bits)"
    using assms by (auto simp: exact_map_def list_all_iff edges_of_def)
  moreover have "distinct ?lit_bits" using assms(1) by (simp add: exact_map_def distinct_map_filter)
  moreover have "distinct (edges_of bits)" by (simp add: edges_of_def)
  ultimately have "length ?lit_bits = length (edges_of bits)" by (metis distinct_card)
  then show ?thesis by simp
qed

lemma dark_total: "sum_list (map row_dark (dark_table on_bit sites)) = length (filter (\<lambda>s. \<not> on_bit (site_bucket s)) sites)"
proof -
  have add: "sum_list (map row_dark (add_site on_bit s rs)) = sum_list (map row_dark rs) + (if on_bit (site_bucket s) then 0 else 1)" for s rs
    by (induction rs) (auto simp: count_site_def)
  have "sum_list (map row_dark (foldl (\<lambda>rs s. add_site on_bit s rs) rs sites))
      = sum_list (map row_dark rs) + length (filter (\<lambda>s. \<not> on_bit (site_bucket s)) sites)" for rs
    by (induction sites arbitrary: rs) (auto simp: add)
  from this [of "[]"] show ?thesis by (simp add: dark_table_def)
qed


text \<open>Two blocks of a disassembly, eight bytes apart, an image that runs the first, and a bitmap with both.\<close>

definition two_blocks :: string where
  "two_blocks = ''00000000 <f()>:'' @ [newline_char] @ ''       0: x bl 100 <__sanitizer_cov_trace_pc>'' @ [newline_char]
     @ ''       8: x bl 100 <__sanitizer_cov_trace_pc>'' @ [newline_char]"

definition first_only :: emulator where
  "first_only bytes = \<lparr>timed_out = False, qemu_output = ''COV:02''\<rparr>"


end
