(* ===== verification/Round_Trip.thy ===== *)
theory Round_Trip
  imports Mutate_Filter Minimize Js_Text
begin

section \<open>Printing and reading back\<close>

text \<open>
  \<^verbatim>\<open>gen/round_trip.ts\<close>, asserted on every candidate: print, reparse, compare. And
  \<^verbatim>\<open>gen/program_file.ts\<close>, which saves a finding as source and loads it again. The parser is mog-core's, hence a
  parameter; the trees of \<open>Ast\<close> hold neither of the two properties \<^verbatim>\<open>normalize\<close> leaves out, so trees the
  code compares after \<^verbatim>\<open>normalize\<close> are compared here as they are. \<^verbatim>\<open>normalize\<close> itself is over JSON.
\<close>

subsection \<open>\<^verbatim>\<open>normalize\<close>\<close>

definition unmeaning :: "string list" where
  "unmeaning = [''raw'', ''signed'']"

fun normalize :: "json \<Rightarrow> json" where
  "normalize (JArr xs) = JArr (map normalize xs)"
| "normalize (JObj kvs) =
     JObj (sort_key fst (filter (\<lambda>(k, v). k \<notin> set unmeaning) (map (\<lambda>(k, v). (k, normalize v)) kvs)))"
| "normalize j = j"

text \<open>Two trees that differ in the order of keys and in the properties left out, at any depth.\<close>

inductive same_tree :: "json \<Rightarrow> json \<Rightarrow> bool" where
  same_atom: "\<lbrakk>\<nexists>xs. j = JArr xs; \<nexists>kvs. j = JObj kvs\<rbrakk> \<Longrightarrow> same_tree j j"
| same_array: "list_all2 same_tree xs ys \<Longrightarrow> same_tree (JArr xs) (JArr ys)"
| same_object:
    "\<lbrakk>\<And>k. k \<notin> set unmeaning \<Longrightarrow> rel_option same_tree (map_of a k) (map_of b k)\<rbrakk> \<Longrightarrow> same_tree (JObj a) (JObj b)"

subsection \<open>\<^verbatim>\<open>roundTrip\<close>\<close>

datatype trip_error = CannotPrint string | DoesNotReparse string string | AnotherTree string

definition round_trip :: "(string \<Rightarrow> string + stmt list) \<Rightarrow> stmt list \<Rightarrow> trip_error + string \<times> stmt list" where
  "round_trip parser body =
     (case print_program_body body of
        Inl msg \<Rightarrow> Inl (CannotPrint msg)
      | Inr source \<Rightarrow>
          (case parser source of
             Inl msg \<Rightarrow> Inl (DoesNotReparse source msg)
           | Inr tree \<Rightarrow> if tree = body then Inr (source, tree) else Inl (AnotherTree source)))"

subsection \<open>Saved programs\<close>

text \<open>\<^verbatim>\<open>Saved\<close>; \<^verbatim>\<open>JSON.parse\<close> gives back what \<^verbatim>\<open>JSON.stringify\<close> wrote.\<close>

type_synonym saved = "(string list \<times> string) list"

definition save_program :: "gen_program \<Rightarrow> string + saved" where
  "save_program gen =
     map_r (\<lambda>p. bindr (print_program_body (proc_body p)) (\<lambda>source. Inr (proc_args p, source))) gen"

datatype load_error = LoadSyntax string | LoadGraph graph_error

definition load_program :: "recurse \<Rightarrow> (string \<Rightarrow> string + stmt list) \<Rightarrow> saved \<Rightarrow> load_error + gen_program" where
  "load_program kids parser saved =
     (case map_r (\<lambda>(args, source). bindr (parser source) (\<lambda>body. Inr \<lparr>proc_args = args, proc_body = body\<rparr>)) saved of
        Inl msg \<Rightarrow> Inl (LoadSyntax msg)
      | Inr gen \<Rightarrow> (case check_graph kids gen of Inl e \<Rightarrow> Inl (LoadGraph e) | Inr _ \<Rightarrow> Inr gen))"

subsection \<open>What prints\<close>

text \<open>A declaration has declarators, of one type.\<close>

fun declares_one_type :: "declarator list \<Rightarrow> bool" where
  "declares_one_type [] \<longleftrightarrow> False"
| "declares_one_type (d # ds) \<longleftrightarrow> list_all (\<lambda>x. var_type x = var_type d) ds"

fun has_surface :: "stmt \<Rightarrow> bool" where
  "has_surface (VariableDeclaration ds) \<longleftrightarrow> declares_one_type ds"
| "has_surface (ForStatement (Some (InitDecl ds)) t u b) \<longleftrightarrow> declares_one_type ds"
| "has_surface _ \<longleftrightarrow> True"

definition prints :: "string + string \<Rightarrow> bool" where
  "prints r \<longleftrightarrow> (\<exists>t. r = Inr t)"

named_theorems prints_intros "what prints"

lemma prints_Inr [prints_intros, simp]: "prints (Inr t)"
  by (simp add: prints_def)

lemma prints_bindr [prints_intros]: "prints r \<Longrightarrow> (\<And>t. r = Inr t \<Longrightarrow> prints (f t)) \<Longrightarrow> prints (bindr r f)"
  by (auto simp: prints_def)

definition printable :: "stmt set \<Rightarrow> bool" where
  "printable S \<longleftrightarrow> (\<forall>s \<in> S. has_surface s \<and> (\<forall>e \<in> set (child_expressions s). prints (print_expr e)))"

lemma printable_simps [simp]:
  "printable {}"
  "printable (insert s S) \<longleftrightarrow> has_surface s \<and> (\<forall>e \<in> set (child_expressions s). prints (print_expr e)) \<and> printable S"
  "printable (S \<union> T) \<longleftrightarrow> printable S \<and> printable T"
  "printable (\<Union>x \<in> X. F x) \<longleftrightarrow> (\<forall>x \<in> X. printable (F x))"
  by (auto simp: printable_def)

lemma map_r_prints: "(\<And>x. x \<in> set xs \<Longrightarrow> \<exists>y. f x = Inr y) \<Longrightarrow> \<exists>ys. map_r f xs = Inr ys"
  by (induction xs) fastforce+

lemma prints_declaration:
  assumes "declares_one_type ds" and "\<forall>e \<in> set (decl_inits ds). prints (print_expr e)"
  shows "prints (print_declaration ds)"
proof (cases ds)
  case (Cons d ds')
  have one: "\<exists>y. print_declarator x = Inr y" if "x \<in> set ds" for x
    using assms(2) that by (cases x rule: print_declarator.cases) (force simp: decl_inits_def prints_def)+
  obtain ys where "map_r print_declarator (d # ds') = Inr ys"
    using map_r_prints [of ds print_declarator, OF one] Cons by blast
  then show ?thesis using assms(1) Cons by (auto simp: list_ex_iff list_all_iff)
qed (use assms in simp)

lemma printable_each:
  "printable (set (each_of s)) \<longleftrightarrow>
     has_surface s \<and> (\<forall>e \<in> set (child_expressions s). prints (print_expr e))
     \<and> (\<forall>b \<in> set (child_bodies s). printable (set (each_statement b)))"
  by (simp only: set_each_of printable_simps)

lemma printable_list:
  "printable (set (each_statement [])) \<longleftrightarrow> True"
  "printable (set (each_statement (s # ss))) \<longleftrightarrow> printable (set (each_of s)) \<and> printable (set (each_statement ss))"
  by simp_all

definition case_prints :: "switch_case \<Rightarrow> bool" where
  "case_prints c \<longleftrightarrow> printable (set (each_statement (case_body c))) \<and> (\<forall>e \<in> set (opt_list (case_test c)). prints (print_expr e))"

lemma prints_opt: "(\<forall>e \<in> set (opt_list x). prints (print_expr e)) \<Longrightarrow> prints (print_opt d x)"
  by (cases x) (simp_all add: print_opt_def opt_list_def)

lemma prints_init:
  assumes "has_surface (ForStatement i t u b)" and "\<forall>e \<in> set (init_exprs i). prints (print_expr e)"
  shows "prints (print_init i)"
  using assms by (cases i rule: print_init.cases) (auto intro: prints_intros prints_declaration)

lemma stmt_prints:
  shows "printable (set (each_of s)) \<Longrightarrow> prints (stmt_text d s)"
    and "printable (set (each_statement (as_list s))) \<Longrightarrow> prints (body_text d s)"
    and "printable (set (each_statement ss)) \<Longrightarrow> prints (list_text d ss)"
    and "list_all case_prints cs \<Longrightarrow> prints (cases_text d cs)"
proof (induction d s and d s and d ss and d cs rule: stmt_text_body_text_list_text_cases_text.induct)
  case (2 d t c a)
  then show ?case
    unfolding printable_each by (cases a) (auto simp: Let_def intro!: prints_intros)
next
  case (5 d i t u b)
  from 5(2) have parts: "has_surface (ForStatement i t u b)" "\<forall>e \<in> set (init_exprs i). prints (print_expr e)"
    "\<forall>e \<in> set (opt_list t). prints (print_expr e)" "\<forall>e \<in> set (opt_list u). prints (print_expr e)"
    "printable (set (each_statement (as_list b)))"
    unfolding printable_each by auto
  show ?case
    unfolding stmt_text.simps
    by (intro prints_bindr prints_init [OF parts(1,2)] prints_opt [OF parts(3)] prints_opt [OF parts(4)] 5(1) [OF _ _ _ parts(5)] prints_Inr)
next
  case (6 d e cs)
  then have "list_all case_prints cs" by (auto simp: printable_each case_prints_def list_all_iff)
  with 6 show ?case by (auto simp: printable_each intro!: prints_intros)
next
  case (7 d ds)
  then show ?case using prints_declaration [of ds] by (auto simp: printable_each intro!: prints_intros)
next
  case (9 d a)
  then show ?case by (cases a) (auto simp: printable_each opt_list_def intro!: prints_intros)
next
  case (16 d t b cs)
  then show ?case by (cases t) (auto simp: case_prints_def opt_list_def intro!: prints_intros)
qed (auto simp: printable_each printable_list intro!: prints_intros)


definition doubling :: gen_program where
  "doubling =
     [\<lparr>proc_args = [''a''], proc_body = [ReturnStatement (Some (CallExpression ''p1'' [Identifier ''a'']))]\<rparr>,
      \<lparr>proc_args = [''x''], proc_body = [ReturnStatement (Some (BinaryExpression Plus (Identifier ''x'') (Identifier ''x'')))]\<rparr>]"

definition knows_doubling :: "string \<Rightarrow> string + stmt list" where
  "knows_doubling source =
     (if source = ''return p1(a);'' @ newline then Inr (proc_body (doubling ! 0))
      else if source = ''return x + x;'' @ newline then Inr (proc_body (doubling ! 1))
      else Inl ''SyntaxError'')"


subsection \<open>What \<^verbatim>\<open>normalize\<close> decides\<close>

definition entries :: "(string \<times> json) list \<Rightarrow> (string \<times> json) list" where
  "entries kvs = filter (\<lambda>(k, v). k \<notin> set unmeaning) (map (\<lambda>(k, v). (k, normalize v)) kvs)"

lemma normalize_object: "normalize (JObj kvs) = JObj (sort_key fst (entries kvs))"
  by (simp add: entries_def)

declare normalize.simps(2) [simp del]

lemma map_of_entries: "map_of (entries kvs) k = (if k \<in> set unmeaning then None else map_option normalize (map_of kvs k))"
  by (induction kvs) (auto simp: entries_def)

lemma distinct_entries: "distinct (map fst kvs) \<Longrightarrow> distinct (map fst (entries kvs))"
proof -
  have "map fst (entries kvs) = filter (\<lambda>k. k \<notin> set unmeaning) (map fst kvs)" by (induction kvs) (auto simp: entries_def)
  then show "distinct (map fst kvs) \<Longrightarrow> ?thesis" by simp
qed

lemma sort_entries:
  assumes "distinct (map fst a)" and "distinct (map fst b)"
  shows "sort_key fst a = sort_key fst b \<longleftrightarrow> map_of a = map_of b"
proof
  assume "sort_key fst a = sort_key fst b"
  then have "set a = set b" by (metis set_sort)
  with assms show "map_of a = map_of b" by (simp add: map_of_inject_set)
next
  assume "map_of a = map_of b"
  with assms have "set a = set b" by (simp add: map_of_inject_set)
  have keys: "distinct (map fst (sort_key fst c)) \<and> sorted (map fst (sort_key fst c))" if "distinct (map fst c)" for c :: "('a :: linorder \<times> 'b) list"
    using that by (simp add: distinct_map inj_on_def)
  show "sort_key fst a = sort_key fst b"
    by (rule map_sorted_distinct_set_unique [of fst])
      (use \<open>set a = set b\<close> keys [OF assms(1)] keys [OF assms(2)] assms in \<open>auto simp: distinct_map\<close>)
qed

lemma normalize_objects:
  assumes "json_ok (JObj a)" and "json_ok (JObj b)"
  shows "normalize (JObj a) = normalize (JObj b) \<longleftrightarrow>
    (\<forall>k. k \<notin> set unmeaning \<longrightarrow> map_option normalize (map_of a k) = map_option normalize (map_of b k))"
  using assms by (auto simp: normalize_object sort_entries distinct_entries map_of_entries fun_eq_iff)

lemma json_ok_value: "json_ok (JObj kvs) \<Longrightarrow> map_of kvs k = Some v \<Longrightarrow> json_ok v"
  by (auto simp: list_all_iff dest: map_of_SomeD)

lemma same_normalize: "same_tree a b \<Longrightarrow> json_ok a \<Longrightarrow> json_ok b \<Longrightarrow> normalize a = normalize b"
proof (induction rule: same_tree.induct)
  case (same_array xs ys)
  then show ?case by (auto simp: list_all2_conv_all_nth list_all_length intro!: nth_equalityI)
next
  case (same_object a b)
  have "map_option normalize (map_of a k) = map_option normalize (map_of b k)" if "k \<notin> set unmeaning" for k
    using same_object.IH [OF that] json_ok_value [OF same_object.prems(1), of k] json_ok_value [OF same_object.prems(2), of k]
    by (cases "map_of a k"; cases "map_of b k") auto
  with normalize_objects [OF same_object.prems] show ?case by blast
qed simp

lemma normalize_same: "normalize a = normalize b \<Longrightarrow> json_ok a \<Longrightarrow> json_ok b \<Longrightarrow> same_tree a b"
proof (induction a arbitrary: b)
  case (JArr xs)
  from JArr.prems(1) obtain ys where b: "b = JArr ys" "map normalize xs = map normalize ys"
    by (cases b) (simp_all add: normalize_object)
  have "length xs = length ys" using b(2) by (metis length_map)
  moreover have "same_tree (xs ! i) (ys ! i)" if i: "i < length xs" for i
  proof (rule JArr.IH)
    show "normalize (xs ! i) = normalize (ys ! i)" using b(2) i calculation by (metis nth_map)
  qed (use i calculation JArr.prems b(1) in \<open>auto simp: list_all_length\<close>)
  ultimately show ?case unfolding b(1) by (intro same_array) (simp add: list_all2_conv_all_nth)
next
  case (JObj kvs)
  from JObj.prems(1) obtain kws where b: "b = JObj kws" by (cases b) (simp_all add: normalize_object)
  show ?case
    unfolding b
  proof (rule same_object)
    fix k assume "k \<notin> set unmeaning"
    with normalize_objects [of kvs kws] JObj.prems
    have eq: "map_option normalize (map_of kvs k) = map_option normalize (map_of kws k)" unfolding b by blast
    show "rel_option same_tree (map_of kvs k) (map_of kws k)"
    proof (cases "map_of kvs k")
      case (Some v)
      with eq obtain w where w: "map_of kws k = Some w" "normalize v = normalize w"
        by (cases "map_of kws k") auto
      have "same_tree v w"
        by (rule JObj.IH [of "(k, v)"])
          (use Some w JObj.prems b json_ok_value in \<open>auto dest: map_of_SomeD\<close>)
      with Some w(1) show ?thesis by simp
    qed (use eq in simp)
  qed
next
  case JNull
  then have "b = JNull" by (cases b) (simp_all add: normalize_object)
  then show ?case by (simp add: same_atom)
next
  case (JBool x)
  then have "b = JBool x" by (cases b) (simp_all add: normalize_object)
  then show ?case by (simp add: same_atom)
next
  case (JNum x)
  then have "b = JNum x" by (cases b) (simp_all add: normalize_object)
  then show ?case by (simp add: same_atom)
next
  case (JStr x)
  then have "b = JStr x" by (cases b) (simp_all add: normalize_object)
  then show ?case by (simp add: same_atom)
qed

text \<open>
  C33. The comparison \<^verbatim>\<open>roundTrip\<close> makes. Two trees normalise to the same tree exactly when they agree, at
  every depth, in their arrays' elements and order and in the values of all keys but \<^verbatim>\<open>raw\<close> and \<^verbatim>\<open>signed\<close>,
  in whatever order the keys stand.
\<close>

theorem normalize_decides:
  assumes "json_ok a" and "json_ok b"
  shows "normalize a = normalize b \<longleftrightarrow> same_tree a b"
  using same_normalize normalize_same assms by blast

lemma normalize_decides_witness:
  "same_tree (JObj [(''type'', JStr ''Literal''), (''value'', JNum 16), (''raw'', JStr ''0x10'')])
     (JObj [(''value'', JNum 16), (''type'', JStr ''Literal'')])
   \<and> \<not> same_tree (JObj [(''value'', JNum 16)]) (JObj [(''value'', JNum 17)])"
proof -
  let ?a = "JObj [(''type'', JStr ''Literal''), (''value'', JNum 16), (''raw'', JStr ''0x10'')]"
  let ?b = "JObj [(''value'', JNum 16), (''type'', JStr ''Literal'')]"
  let ?c = "JObj [(''value'', JNum 16)]" and ?d = "JObj [(''value'', JNum 17)]"
  have ok: "json_ok ?a" "json_ok ?b" "json_ok ?c" "json_ok ?d" by simp_all
  have "normalize ?a = normalize ?b" "normalize ?c \<noteq> normalize ?d" by code_simp+
  then show ?thesis by (simp only: normalize_decides [OF ok(1,2)] normalize_decides [OF ok(3,4)] simp_thms)
qed

end
