(* ===== verification/Bench_Data.thy ===== *)
theory Bench_Data
  imports Workloads Batch
begin

section \<open>The benchmark's data, and the checks before it is measured\<close>

text \<open>
  \<^verbatim>\<open>bench/ts\<close>, all but \<^verbatim>\<open>bench.ts\<close>: the two sample counts (\<^verbatim>\<open>lib/bench-config.ts\<close>), what a sink
  keeps of a workload's calls, the gates that hold the extension and the workloads against mog-core's reference VM
  (\<^verbatim>\<open>check-ext.ts\<close>, \<^verbatim>\<open>check-workload.ts\<close>), the generators of what an image is built from and of the
  answers it is checked against (\<^verbatim>\<open>gen-bench.ts\<close>, \<^verbatim>\<open>gen-check.ts\<close>, \<^verbatim>\<open>gen-envelope.ts\<close>), and the
  comparison of the acceptance image (\<^verbatim>\<open>compare-check.ts\<close>, with the printing half of
  \<^verbatim>\<open>check_runner.cpp\<close>). Parser, lowerer, validator, encoder and VM are mog-core's (\<open>bench_core\<close>); the sample
  generators evaluate sines, so the samples are an argument.
\<close>

definition bench_n0 :: nat where "bench_n0 = 0"
definition bench_n1 :: nat where "bench_n1 = 2048"
definition bench_n2 :: nat where "bench_n2 = 4096"

subsection \<open>What the calls leave\<close>

record wanted =
  want_out :: "16 word list"
  want_events :: "u32 list"
  want_count :: nat

definition no_calls :: wanted where
  "no_calls = \<lparr>want_out = replicate samp_out_samples 0, want_events = replicate samp_events 0, want_count = 0\<rparr>"

fun sink :: "wanted \<Rightarrow> sink_call \<Rightarrow> wanted" where
  "sink w (SinkTrigger index kind) =
     w\<lparr>want_events := (want_events w)[want_count w mod samp_events := pack_event (of_nat index) kind],
       want_count := want_count w + 1\<rparr>"
| "sink w (SinkOut index value) =
     w\<lparr>want_out := (want_out w)[index mod samp_out_samples := word_of_int value]\<rparr>"

subsection \<open>Hashes\<close>

definition sample_bytes :: "16 word \<Rightarrow> u8 list" where
  "sample_bytes v = [ucast v, ucast (drop_bit 8 v)]"

definition out_bytes :: "16 word list \<Rightarrow> u8 list" where
  "out_bytes out = concat (map (\<lambda>i. sample_bytes (nth_default 0 out i)) [0 ..< samp_out_samples])"

definition output_hash :: "16 word list \<Rightarrow> u32" where
  "output_hash out = foldl digest_step fnv_basis (out_bytes out)"

definition state_hash :: "16 word list \<Rightarrow> u32 list \<Rightarrow> nat \<Rightarrow> u32" where
  "state_hash out events fired =
     foldl digest_step fnv_basis (out_bytes out @ concat (map le32 (events @ [of_nat fired])))"

subsection \<open>mog-core, as the benchmark uses it\<close>

record vm_end =
  vm_ok :: bool
  vm_acc :: int
  vm_trap :: int
  vm_steps :: nat

record 'r bench_core =
  bc_lower :: "string list \<Rightarrow> string \<Rightarrow> string + 'r"
  bc_validate :: "'r \<Rightarrow> string + nat \<times> nat"
  bc_encode :: "'r \<Rightarrow> string + u8 list"
  bc_leb :: "u8 list \<Rightarrow> nat \<Rightarrow> string + nat \<times> nat"
  bc_run :: "'r \<Rightarrow> u32 list \<Rightarrow> nat option \<Rightarrow> samp_mem \<Rightarrow> (string + vm_end) \<times> samp_mem"

datatype bench_failure =
    Thrown string
  | BadNetwork
  | NotAMultiple string nat
  | VmTrapped string nat int
  | AccDisagrees string nat
  | CountDisagrees string nat
  | SlotDisagrees string nat nat
  | SampleDisagrees string nat nat
  | NothingSeen string nat
  | NeverWraps nat
  | HashDisagrees string u32 u32

definition thrown :: "string + 'a \<Rightarrow> bench_failure + 'a" where
  "thrown r = map_sum Thrown id r"

definition ensure :: "bool \<Rightarrow> bench_failure \<Rightarrow> bench_failure + unit" where
  "ensure ok f = (if ok then Inr () else Inl f)"

text \<open>\<^verbatim>\<open>for(let i = 0; i < n; i++) assert.equal(xs[i], ys[i])\<close>.\<close>

definition ensure_same :: "(nat \<Rightarrow> bench_failure) \<Rightarrow> nat \<Rightarrow> 'a :: zero list \<Rightarrow> 'a list \<Rightarrow> bench_failure + unit" where
  "ensure_same f n xs ys =
     (case find (\<lambda>i. nth_default 0 xs i \<noteq> nth_default 0 ys i) [0 ..< n] of None \<Rightarrow> Inr () | Some i \<Rightarrow> Inl (f i))"

text \<open>\<^verbatim>\<open>ext.input.set(samples)\<close>.\<close>

definition load_input :: "16 word list \<Rightarrow> samp_mem \<Rightarrow> bench_failure + samp_mem" where
  "load_input xs m =
     (if length (samp_input m) < length xs then Inl (Thrown ''offset is out of bounds'')
      else Inr (m\<lparr>samp_input := xs @ drop (length xs) (samp_input m)\<rparr>))"

definition compile :: "'r bench_core \<Rightarrow> string list \<Rightarrow> string \<Rightarrow> bench_failure + 'r \<times> nat \<times> nat" where
  "compile bc args source =
     bindr (thrown (bc_lower bc args source)) (\<lambda>r. bindr (thrown (bc_validate bc r)) (\<lambda>st. Inr (r, st)))"

definition vm_step_limit :: nat where "vm_step_limit = 200000000"

subsection \<open>\<^verbatim>\<open>check-ext.ts\<close>\<close>

definition ext_n :: nat where "ext_n = 64"
definition ext_threshold :: nat where "ext_threshold = 1000"

definition ext_body :: string where
  "ext_body = dsl
     [''u32 i = 0;'', ''u32 s = 0;'', ''while (i != n)'', ''{'',
      ''    s = sample_at(i) + sample_at(i - 1);'', ''    out_at(i, s);'',
      ''    if (s > '' @ show_nat ext_threshold @ '')'', ''    {'', ''        trigger(3, i);'', ''    }'',
      ''    i = i + 1;'', ''}'', ''return s;'']"

text \<open>The plain transcription of that loop.\<close>

definition ext_step :: "16 word list \<Rightarrow> wanted \<times> u32 \<Rightarrow> nat \<Rightarrow> wanted \<times> u32" where
  "ext_step input acc i =
     (let s = to_u32 (ring input (int i) + ring input (int i - 1));
          w = fst acc;
          w = w\<lparr>want_out := (want_out w)[i mod samp_out_samples := ucast s]\<rparr>
      in if unat s > ext_threshold
         then (w\<lparr>want_events := (want_events w)[want_count w mod samp_events := pack_event (of_nat i) 3],
                 want_count := want_count w + 1\<rparr>, s)
         else (w, s))"

definition ext_reference :: "16 word list \<Rightarrow> wanted \<times> u32" where
  "ext_reference input = foldl (ext_step input) (no_calls, 0) [0 ..< ext_n]"

definition check_ext :: "'r bench_core \<Rightarrow> 16 word list \<Rightarrow> bench_failure + unit" where
  "check_ext bc input =
     bindr (load_input input samp_new) (\<lambda>m.
     bindr (compile bc [''n''] ext_body) (\<lambda>(r, st).
     (case bc_run bc r [of_nat ext_n] None m of
        (Inl e, _) \<Rightarrow> Inl (Thrown e)
      | (Inr e, m) \<Rightarrow>
          (case ext_reference (samp_input m) of (want, acc) \<Rightarrow>
             bindr (ensure (vm_ok e) (VmTrapped ''check-ext'' ext_n (vm_trap e))) (\<lambda>_.
             bindr (ensure (vm_acc e = uint acc) (AccDisagrees ''check-ext'' ext_n)) (\<lambda>_.
             bindr (ensure_same (SampleDisagrees ''check-ext'' ext_n) ext_n (samp_output m) (want_out want)) (\<lambda>_.
             bindr (ensure (event_count m = want_count want) (CountDisagrees ''check-ext'' ext_n)) (\<lambda>_.
             bindr (ensure_same (SlotDisagrees ''check-ext'' ext_n) samp_events (event_ring m) (want_events want)) (\<lambda>_.
             ensure (want_count want > samp_events) (NeverWraps (want_count want)))))))))))"

subsection \<open>\<^verbatim>\<open>check-workload.ts\<close>\<close>

text \<open>
  One workload at one sample count. \<^verbatim>\<open>None\<close> stands for a reference that does not come to its end, which none does
  here (\<open>references_end\<close>).
\<close>

definition check_at ::
  "'r bench_core \<Rightarrow> (workload \<Rightarrow> 16 word list) \<Rightarrow> workload \<Rightarrow> nat \<Rightarrow> (bench_failure + unit) option" where
  "check_at bc wave w n =
     (if n mod wl_step w \<noteq> 0 then Some (Inl (NotAMultiple (wl_name w) n))
      else case bindr (load_input (wave w) samp_new) (\<lambda>m. bindr (compile bc [''n''] (wl_body w)) (\<lambda>(r, st). Inr (r, m))) of
        Inl f \<Rightarrow> Some (Inl f)
      | Inr (r, m) \<Rightarrow>
          (case bc_run bc r [of_nat n] (Some vm_step_limit) m of
             (Inl e, _) \<Rightarrow> Some (Inl (Thrown e))
           | (Inr e, m) \<Rightarrow>
               if \<not> vm_ok e then Some (Inl (VmTrapped (wl_name w) n (vm_trap e)))
               else map_option (\<lambda>(acc, calls). let want = foldl sink no_calls calls in
                 bindr (ensure (vm_acc e = int acc) (AccDisagrees (wl_name w) n)) (\<lambda>_.
                 bindr (ensure (event_count m = want_count want) (CountDisagrees (wl_name w) n)) (\<lambda>_.
                 bindr (ensure_same (SlotDisagrees (wl_name w) n) samp_events (event_ring m) (want_events want)) (\<lambda>_.
                 bindr (ensure_same (SampleDisagrees (wl_name w) n) samp_out_samples (samp_output m) (want_out want)) (\<lambda>_.
                 ensure (want_count want > 0 \<or> list_ex (\<lambda>v. v \<noteq> 0) (want_out want)) (NothingSeen (wl_name w) n))))))
                 (wl_reference w (Suc n) (samp_input m) n)))"

fun in_turn :: "(bench_failure + unit) option list \<Rightarrow> (bench_failure + unit) option" where
  "in_turn [] = Some (Inr ())"
| "in_turn (c # cs) = (case c of Some (Inr ()) \<Rightarrow> in_turn cs | _ \<Rightarrow> c)"

definition check_workload ::
  "'r bench_core \<Rightarrow> (workload \<Rightarrow> 16 word list) \<Rightarrow> string list \<Rightarrow> (bench_failure + unit) option" where
  "check_workload bc wave names =
     (if \<not> network_sorts then Some (Inl BadNetwork)
      else case (if names = [] then Inr workloads else thrown (map_r workload_named names)) of
        Inl f \<Rightarrow> Some (Inl f)
      | Inr chosen \<Rightarrow>
          in_turn (concat (map (\<lambda>w. [check_at bc wave w bench_n1, check_at bc wave w bench_n2]) chosen)))"

subsection \<open>Generated files\<close>

fun join_with :: "string \<Rightarrow> string list \<Rightarrow> string" where
  "join_with sep [] = []"
| "join_with sep [x] = x"
| "join_with sep (x # y # xs) = x @ sep @ join_with sep (y # xs)"

definition show_int :: "int \<Rightarrow> string" where
  "show_int v = (if v < 0 then CHR ''-'' # show_nat (nat (- v)) else show_nat (nat v))"

function rows_of :: "nat \<Rightarrow> 'a list \<Rightarrow> 'a list list" where
  "rows_of per_line xs = (if xs = [] \<or> per_line = 0 then [] else take per_line xs # rows_of per_line (drop per_line xs))"
  by pat_completeness auto

termination by (relation "measure (length \<circ> snd)") auto

declare rows_of.simps [simp del]

definition c_array :: "string \<Rightarrow> int list \<Rightarrow> nat \<Rightarrow> string" where
  "c_array decl values per_line =
     decl @ '' = {'' @ [newline_char]
     @ join_with ('','' @ [newline_char]) (map (\<lambda>row. ''    '' @ join_with '', '' (map show_int row)) (rows_of per_line values))
     @ [newline_char] @ ''};'' @ [newline_char]"

definition text_of :: "string list \<Rightarrow> string" where
  "text_of ls = concat (map (\<lambda>l. l @ [newline_char]) ls)"

text \<open>The first line of each generated file; its dash is three bytes of UTF-8.\<close>

definition generated_by :: "string \<Rightarrow> string" where
  "generated_by script = ''/* Generated by bench/ts/'' @ script @ '' '' @ [CHR 0xE2, CHR 0x80, CHR 0x94] @ '' do not edit. */''"

definition param_lines :: "string list" where
  "param_lines = concat (map (\<lambda>w. map (\<lambda>(k, v). ''#define '' @ k @ '' '' @ show_int v @ ''u'') (wl_params w)) workloads)"

definition params_header :: string where
  "params_header = text_of
     ([generated_by ''gen-bench.ts'', ''#ifndef JIT_ARMV6M_BENCH_GENERATED_WORKLOAD_PARAMS_H_'',
       ''#define JIT_ARMV6M_BENCH_GENERATED_WORKLOAD_PARAMS_H_'', [],
       ''/* Declared in bench/ts/lib/workloads/*.ts, which is where they are baked'',
       '' * into the DSL bodies too '' @ [CHR 0xE2, CHR 0x80, CHR 0x94] @ '' the point of generating them is that'',
       '' * the two sides cannot be tuned apart. */'']
      @ param_lines @ [[], ''#endif''])"

definition data_header :: "workload \<Rightarrow> nat \<Rightarrow> nat \<Rightarrow> string" where
  "data_header w offset procs = text_of
     [generated_by ''gen-bench.ts'', ''#ifndef JIT_ARMV6M_BENCH_GENERATED_BENCH_DATA_H_'',
      ''#define JIT_ARMV6M_BENCH_GENERATED_BENCH_DATA_H_'', [], ''#include <stdint.h>'', ''#include \"kernels_ref.h\"'', [],
      ''#define BENCH_WORKLOAD \"'' @ wl_name w @ ''\"'',
      ''#define BENCH_N0 '' @ show_nat bench_n0 @ ''u'', ''#define BENCH_N1 '' @ show_nat bench_n1 @ ''u'',
      ''#define BENCH_N2 '' @ show_nat bench_n2 @ ''u'', ''#define BENCH_PROC_COUNT '' @ show_nat procs @ ''u'',
      ''#define BENCH_BODY_OFFSET '' @ show_nat offset @ ''u'', ''#define REF_KERNEL '' @ wl_kernel w, [],
      ''extern const uint8_t g_benchProgram[];'', ''extern const uint32_t g_benchProgramLen;'', [], ''#endif'']"

definition bench_files :: "workload \<Rightarrow> 16 word list \<Rightarrow> u8 list \<Rightarrow> nat \<Rightarrow> nat \<Rightarrow> (string \<times> string) list" where
  "bench_files w input envelope offset procs =
     [(''samples.cpp'', text_of [generated_by ''gen-bench.ts'', ''#include \"ext_sampstream.h\"'', []]
         @ c_array ''extern const int16_t __attribute__((section(\".samples\"))) g_sampIn[SAMP_IN_SAMPLES]'' (map sint input) 16),
      (''workload_params.h'', params_header),
      (''bench_data.h'', data_header w offset procs),
      (''bench_data.cpp'', text_of [generated_by ''gen-bench.ts'', ''#include \"generated/bench_data.h\"'', []]
         @ c_array ''extern const uint8_t g_benchProgram[]'' (map uint envelope) 16
         @ text_of [[], ''extern const uint32_t g_benchProgramLen = '' @ show_nat (length envelope) @ '';''])]"

subsection \<open>\<^verbatim>\<open>gen-bench.ts\<close> and \<^verbatim>\<open>gen-envelope.ts\<close>\<close>

text \<open>Past \<^verbatim>\<open>max_call_depth\<close>, \<^verbatim>\<open>total_depth\<close> and the procedure count.\<close>

definition body_offset :: "'r bench_core \<Rightarrow> u8 list \<Rightarrow> string + nat \<times> nat" where
  "body_offset bc envelope =
     bindr (bc_leb bc envelope 0) (\<lambda>(v, pos).
     bindr (bc_leb bc envelope pos) (\<lambda>(v, pos).
     bindr (bc_leb bc envelope pos) (\<lambda>(procs, pos). Inr (pos, procs))))"

record expected =
  ex_workload :: string
  ex_kernel :: string
  ex_result :: u32
  ex_hash :: u32
  ex_events :: nat
  ex_bytes :: nat
  ex_total_depth :: nat
  ex_call_depth :: nat
  ex_procs :: nat
  ex_steps :: nat

definition bench_setup ::
  "'r bench_core \<Rightarrow> (workload \<Rightarrow> 16 word list) \<Rightarrow> string
    \<Rightarrow> bench_failure + workload \<times> samp_mem \<times> 'r \<times> (nat \<times> nat) \<times> u8 list \<times> nat \<times> nat" where
  "bench_setup bc wave name =
     bindr (thrown (workload_named name)) (\<lambda>w.
     bindr (load_input (wave w) samp_new) (\<lambda>m.
     bindr (compile bc [''n''] (wl_body w)) (\<lambda>(r, st).
     bindr (thrown (bc_encode bc r)) (\<lambda>envelope.
     bindr (thrown (body_offset bc envelope)) (\<lambda>(offset, procs). Inr (w, m, r, st, envelope, offset, procs))))))"

definition gen_bench ::
  "'r bench_core \<Rightarrow> (workload \<Rightarrow> 16 word list) \<Rightarrow> string \<Rightarrow> (bench_failure + expected \<times> (string \<times> string) list) option" where
  "gen_bench bc wave name =
     (case bench_setup bc wave name of
        Inl f \<Rightarrow> Some (Inl f)
      | Inr (w, m, r, st, envelope, offset, procs) \<Rightarrow>
          (case bc_run bc r [of_nat bench_n2] (Some vm_step_limit) (samp_reset m) of
             (Inl e, _) \<Rightarrow> Some (Inl (Thrown e))
           | (Inr e, m) \<Rightarrow>
               if \<not> vm_ok e then Some (Inl (VmTrapped name bench_n2 (vm_trap e)))
               else map_option (\<lambda>(acc, calls).
                 let want = foldl sink no_calls calls;
                     want_hash = state_hash (want_out want) (want_events want) (want_count want);
                     vm_hash = state_hash (samp_output m) (event_ring m) (event_count m)
                 in bindr (ensure (vm_acc e = int acc) (AccDisagrees name bench_n2)) (\<lambda>_.
                    bindr (ensure (want_hash = vm_hash) (HashDisagrees name vm_hash want_hash)) (\<lambda>_.
                    Inr (\<lparr>ex_workload = wl_name w, ex_kernel = wl_kernel w, ex_result = of_nat acc, ex_hash = want_hash,
                           ex_events = want_count want, ex_bytes = length envelope, ex_total_depth = fst st,
                           ex_call_depth = snd st, ex_procs = procs, ex_steps = vm_steps e\<rparr>,
                         bench_files w (wave w) envelope offset procs))))
                 (wl_reference w (Suc bench_n2) (wave w) bench_n2)))"

definition gen_envelope :: "'r bench_core \<Rightarrow> (workload \<Rightarrow> 16 word list) \<Rightarrow> string option \<Rightarrow> bench_failure + u8 list" where
  "gen_envelope bc wave name =
     bindr (thrown (workload_named (case name of None \<Rightarrow> ''pulse-trigger'' | Some n \<Rightarrow> n))) (\<lambda>w.
     bindr (load_input (wave w) samp_new) (\<lambda>m.
     bindr (compile bc [''n''] (wl_body w)) (\<lambda>(r, st). thrown (bc_encode bc r))))"

subsection \<open>\<^verbatim>\<open>gen-check.ts\<close> and \<^verbatim>\<open>compare-check.ts\<close>\<close>

definition check_n :: nat where "check_n = 512"

record check_expected =
  ce_acc :: u32
  ce_hash :: u32
  ce_count :: nat
  ce_events :: "u32 list"
  ce_samples :: nat

definition check_files :: "16 word list \<Rightarrow> u8 list \<Rightarrow> (string \<times> string) list" where
  "check_files input envelope =
     [(''check_samples.cpp'', text_of [generated_by ''gen-check.ts'', ''#include \"ext_sampstream.h\"'', []]
         @ c_array ''extern const int16_t g_sampIn[SAMP_IN_SAMPLES]'' (map sint input) 16),
      (''check_data.h'', text_of
         [generated_by ''gen-check.ts'', ''#ifndef JIT_ARMV6M_BENCH_GENERATED_CHECK_DATA_H_'',
          ''#define JIT_ARMV6M_BENCH_GENERATED_CHECK_DATA_H_'', [], ''#include <stdint.h>'', [],
          ''extern const uint8_t g_checkProgram[];'', ''extern const uint32_t g_checkProgramLen;'',
          ''extern const uint32_t g_checkArgs[];'', ''extern const uint32_t g_checkArgCount;'', [], ''#endif'']),
      (''check_data.cpp'', text_of [generated_by ''gen-check.ts'', ''#include \"generated/check_data.h\"'', []]
         @ c_array ''extern const uint8_t g_checkProgram[]'' (map uint envelope) 16
         @ text_of [[], ''extern const uint32_t g_checkProgramLen = '' @ show_nat (length envelope) @ '';'',
             ''extern const uint32_t g_checkArgs[] = {'' @ show_nat check_n @ ''};'',
             ''extern const uint32_t g_checkArgCount = 1;''])]"

definition gen_check ::
  "'r bench_core \<Rightarrow> 16 word list \<Rightarrow> bench_failure + check_expected \<times> (string \<times> string) list" where
  "gen_check bc input =
     bindr (load_input input samp_new) (\<lambda>m.
     bindr (compile bc [''n''] ext_body) (\<lambda>(r, st).
     bindr (thrown (bc_encode bc r)) (\<lambda>envelope.
     (case bc_run bc r [of_nat check_n] None m of
        (Inl e, _) \<Rightarrow> Inl (Thrown e)
      | (Inr e, m) \<Rightarrow>
          if \<not> vm_ok e then Inl (VmTrapped ''gen-check'' check_n (vm_trap e))
          else if event_count m \<le> samp_events then Inl (NeverWraps (event_count m))
          else Inr (\<lparr>ce_acc = to_u32 (vm_acc e), ce_hash = output_hash (samp_output m), ce_count = event_count m,
                      ce_events = event_ring m, ce_samples = check_n\<rparr>, check_files input envelope)))))"

text \<open>\<^verbatim>\<open>tagged\<close> of the script: what follows a tag, of every line that begins with it.\<close>

definition tagged_values :: "string \<Rightarrow> string \<Rightarrow> u32 list" where
  "tagged_values output tag =
     map (\<lambda>l. parse_u32 (drop (length tag) l)) (filter (starts_with tag) (map trim (split_lines output)))"

datatype compare_failure =
    TargetTrapped u32
  | TargetBailed u32
  | NeverDone
  | ReturnDiffers "u32 option"
  | HashDiffers "u32 option"
  | CountDiffers "u32 option"
  | RingSize nat
  | SlotDiffers nat

definition first_of :: "'a list \<Rightarrow> 'a option" where
  "first_of xs = (case xs of [] \<Rightarrow> None | x # _ \<Rightarrow> Some x)"

definition compare_check :: "check_expected \<Rightarrow> string \<Rightarrow> compare_failure option" where
  "compare_check want got =
     (if tagged_values got ''T:'' \<noteq> [] then Some (TargetTrapped (hd (tagged_values got ''T:'')))
      else if tagged_values got ''E:'' \<noteq> [] then Some (TargetBailed (hd (tagged_values got ''E:'')))
      else if tagged_values got ''DONE:'' = [] then Some NeverDone
      else let acc = first_of (tagged_values got ''R:''); hash = first_of (tagged_values got ''H:'');
               fired = first_of (tagged_values got ''N:''); events = tagged_values got ''V:''
           in if acc \<noteq> Some (ce_acc want) then Some (ReturnDiffers acc)
              else if hash \<noteq> Some (ce_hash want) then Some (HashDiffers hash)
              else if map_option unat fired \<noteq> Some (ce_count want) then Some (CountDiffers fired)
              else if length events \<noteq> length (ce_events want) then Some (RingSize (length events))
              else map_option SlotDiffers (find (\<lambda>i. events ! i \<noteq> ce_events want ! i) [0 ..< length (ce_events want)]))"

text \<open>What the acceptance image prints, \<^verbatim>\<open>check_runner.cpp\<close>: how the run ended, and what it left.\<close>

datatype check_end = RanTo u32 samp_mem | Trapped u32 | Bailed u32

definition check_line :: "string \<Rightarrow> u32 \<Rightarrow> string" where
  "check_line tag v = tagged tag v @ [newline_char]"

definition check_output :: "check_end \<Rightarrow> string" where
  "check_output e =
     (case e of
        Trapped v \<Rightarrow> check_line ''T:'' v
      | Bailed v \<Rightarrow> check_line ''E:'' v
      | RanTo acc m \<Rightarrow>
          check_line ''R:'' acc @ check_line ''H:'' (output_hash (samp_output m))
          @ check_line ''N:'' (of_nat (event_count m))
          @ concat (map (\<lambda>i. check_line ''V:'' (nth_default 0 (event_ring m) i)) [0 ..< samp_events])
          @ check_line ''DONE:'' 0)"

end
