(* ===== verification/Spec2Isabelle.thy ===== *)
theory Spec2Isabelle
  imports Raw_Mem Eval_Types Corpus Print Order Rng Batch Cov_Map Workloads Stack_Margin Mutate_Edges Invalid_Misses Shrink Campaign_Runs Sweep Lanes Seed_Value
    Order_Free Seeds Calibrate Ub_Check Frame Orchestrate Cov_Check Round_Trip Bench_Data
begin

text \<open>
  The TypeScript half of mog-jit's differential fuzzer and benchmark harness.
\<close>

end
